(* ===== verification/Prelude.thy ===== *)
theory Prelude
  imports Main "HOL-Library.Sublist"
begin

text \<open>
  What the components share: the fact collections of the development, the operations of the
  standard library's \<open>strings\<close> package the program calls (a Go string is its bytes, a
  \<open>char list\<close>; white space is the ASCII white space), errors as the left side of a sum, and
  generic facts on lists and association lists.
\<close>

named_theorems go_str \<open>facts about the string operations\<close>
named_theorems inv_intros \<open>operations keep the invariant of their component\<close>
named_theorems frame_simps \<open>what an operation leaves as it was\<close>

section \<open>Errors\<close>

text \<open>A Go function that returns an error: \<open>Inl\<close> the error, \<open>Inr\<close> the value.\<close>

definition bind_err :: "'e + 'a \<Rightarrow> ('a \<Rightarrow> 'e + 'b) \<Rightarrow> 'e + 'b" where
  "bind_err x f = (case x of Inl e \<Rightarrow> Inl e | Inr a \<Rightarrow> f a)"

lemma bind_err_simps [simp]:
  "bind_err (Inl e) f = Inl e"
  "bind_err (Inr a) f = f a"
  by (simp_all add: bind_err_def)

lemma bind_err_Inr: "bind_err x f = Inr b \<longleftrightarrow> (\<exists>a. x = Inr a \<and> f a = Inr b)"
  by (cases x) auto

text \<open>A loop that stops at its first error.\<close>

fun fold_err :: "('a \<Rightarrow> 's \<Rightarrow> 'e + 's) \<Rightarrow> 'a list \<Rightarrow> 's \<Rightarrow> 'e + 's" where
  "fold_err f [] s = Inr s"
| "fold_err f (x # xs) s = bind_err (f x s) (fold_err f xs)"

lemma fold_err_append: "fold_err f (xs @ ys) s = bind_err (fold_err f xs s) (fold_err f ys)"
  by (induction xs arbitrary: s) (auto simp: bind_err_def split: sum.splits)

text \<open>The invariant rule for such a loop.\<close>

lemma fold_err_inv:
  assumes "fold_err f xs s = Inr t" and "P s"
    and "\<And>x s t. x \<in> set xs \<Longrightarrow> P s \<Longrightarrow> f x s = Inr t \<Longrightarrow> P t"
  shows "P t"
  using assms
proof (induction xs arbitrary: s)
  case Nil
  then show ?case by simp
next
  case (Cons x xs)
  from Cons.prems(1) obtain u where u: "f x s = Inr u" "fold_err f xs u = Inr t"
    by (auto simp: bind_err_Inr)
  have "P u" using Cons.prems(2,3) u(1) by auto
  with u(2) show ?case using Cons.IH Cons.prems(3) by (metis list.set_intros(2))
qed

text \<open>A loop each step of which acts as \<open>h\<close> on a part \<open>g\<close> of the state.\<close>

lemma fold_err_fold:
  assumes "fold_err f xs s = Inr t" and "\<And>x s t. f x s = Inr t \<Longrightarrow> g t = h x (g s)"
  shows "g t = fold h xs (g s)"
  using assms(1)
proof (induction xs arbitrary: s)
  case Nil
  then show ?case by simp
next
  case (Cons x xs)
  then obtain u where "f x s = Inr u" "fold_err f xs u = Inr t"
    by (auto simp: bind_err_Inr)
  then show ?case using Cons.IH assms(2) by simp
qed

section \<open>Strings\<close>

abbreviation has_prefix :: "string \<Rightarrow> string \<Rightarrow> bool" where
  "has_prefix s p \<equiv> prefix p s"

abbreviation has_suffix :: "string \<Rightarrow> string \<Rightarrow> bool" where
  "has_suffix s p \<equiv> suffix p s"

text \<open>\<open>strings.TrimPrefix\<close>.\<close>

definition trim_prefix :: "string \<Rightarrow> string \<Rightarrow> string" where
  "trim_prefix s p = (if prefix p s then drop (length p) s else s)"

lemma trim_prefix_append [simp, go_str]: "trim_prefix (p @ s) p = s"
  by (simp add: trim_prefix_def)

lemma trim_prefix_self [simp, go_str]: "trim_prefix p p = []"
  by (simp add: trim_prefix_def)

lemma trim_prefix_rest [go_str]: "prefix p s \<Longrightarrow> p @ trim_prefix s p = s"
  by (auto simp: trim_prefix_def prefix_def)

text \<open>\<open>strings.Split\<close> for a separator of one byte: never empty.\<close>

fun split_on :: "char \<Rightarrow> string \<Rightarrow> string list" where
  "split_on c [] = [[]]"
| "split_on c (x # xs) =
     (if x = c then [] # split_on c xs
      else (x # hd (split_on c xs)) # tl (split_on c xs))"

lemma split_on_nonempty [simp]: "split_on c s \<noteq> []"
  by (induction s) auto

text \<open>\<open>strings.Join\<close>.\<close>

fun join_with :: "string \<Rightarrow> string list \<Rightarrow> string" where
  "join_with sep [] = []"
| "join_with sep [s] = s"
| "join_with sep (s # t # ts) = s @ sep @ join_with sep (t # ts)"

lemma join_with_Cons: "ss \<noteq> [] \<Longrightarrow> join_with sep (s # ss) = s @ sep @ join_with sep ss"
  by (cases ss) auto

lemma join_with_head:
  "ss \<noteq> [] \<Longrightarrow> join_with sep ((x # hd ss) # tl ss) = x # join_with sep ss"
  by (cases ss; cases "tl ss") auto

lemma join_split [simp, go_str]: "join_with [c] (split_on c s) = s"
  by (induction s) (auto simp: join_with_Cons join_with_head)

lemma split_on_free: "w \<in> set (split_on c s) \<Longrightarrow> c \<notin> set w"
proof (induction s arbitrary: w)
  case Nil
  then show ?case by simp
next
  case (Cons x xs)
  then show ?case
    by (cases "split_on c xs") (auto split: if_splits)
qed

lemma split_on_no_sep [simp]: "c \<notin> set s \<Longrightarrow> split_on c s = [s]"
  by (induction s) auto

lemma split_on_append:
  "c \<notin> set s \<Longrightarrow> split_on c (s @ c # t) = s # split_on c t"
  by (induction s) auto

lemma split_join:
  "ss \<noteq> [] \<Longrightarrow> \<forall>s\<in>set ss. c \<notin> set s \<Longrightarrow> split_on c (join_with [c] ss) = ss"
  by (induction ss rule: induct_list012) (auto simp: split_on_append)

text \<open>ASCII white space, \<open>strings.TrimSpace\<close> and \<open>strings.Fields\<close>.\<close>

definition is_space :: "char \<Rightarrow> bool" where
  "is_space c \<longleftrightarrow> c \<in> {CHR '' '', CHR 0x09, CHR 0x0A, CHR 0x0B, CHR 0x0C, CHR 0x0D}"

definition trim_space :: "string \<Rightarrow> string" where
  "trim_space s = rev (dropWhile is_space (rev (dropWhile is_space s)))"

fun fields_acc :: "string \<Rightarrow> string \<Rightarrow> string list" where
  "fields_acc acc [] = (if acc = [] then [] else [acc])"
| "fields_acc acc (x # xs) =
     (if is_space x then (if acc = [] then fields_acc [] xs else acc # fields_acc [] xs)
      else fields_acc (acc @ [x]) xs)"

definition fields :: "string \<Rightarrow> string list" where
  "fields s = fields_acc [] s"

lemma fields_acc_word:
  "\<forall>c\<in>set acc. \<not> is_space c \<Longrightarrow>
   \<forall>w\<in>set (fields_acc acc s). w \<noteq> [] \<and> (\<forall>c\<in>set w. \<not> is_space c)"
proof (induction s arbitrary: acc)
  case Nil
  then show ?case by simp
next
  case (Cons x xs)
  show ?case
  proof (cases "is_space x")
    case True
    with Cons.prems Cons.IH [of "[]"] show ?thesis by simp
  next
    case False
    with Cons.prems have "\<forall>c\<in>set (acc @ [x]). \<not> is_space c" by simp
    from Cons.IH [OF this] False show ?thesis by simp
  qed
qed

lemma fields_word: "w \<in> set (fields s) \<Longrightarrow> w \<noteq> [] \<and> (\<forall>c\<in>set w. \<not> is_space c)"
  using fields_acc_word [of "[]" s] by (simp add: fields_def)

lemma fields_acc_nonspace:
  "\<forall>c\<in>set w. \<not> is_space c \<Longrightarrow> fields_acc acc (w @ s) = fields_acc (acc @ w) s"
  by (induction w arbitrary: acc) auto

lemma fields_acc_single:
  "\<forall>c\<in>set w. \<not> is_space c \<Longrightarrow> w \<noteq> [] \<Longrightarrow> is_space c \<Longrightarrow>
   fields_acc [] (w @ c # s) = w # fields_acc [] s"
  by (simp add: fields_acc_nonspace)

text \<open>Words joined by blanks are the fields of the line.\<close>

lemma fields_join [go_str]:
  "\<forall>w\<in>set ws. w \<noteq> [] \<and> (\<forall>c\<in>set w. \<not> is_space c) \<Longrightarrow>
   fields (join_with '' '' ws) = ws"
proof (induction ws rule: induct_list012)
  case 1
  then show ?case by (simp add: fields_def)
next
  case (2 w)
  then show ?case
    using fields_acc_nonspace [of w "[]" "[]"] by (simp add: fields_def)
next
  case (3 w v vs)
  then show ?case
    using fields_acc_single [of w "CHR '' ''"] by (simp add: fields_def is_space_def)
qed

text \<open>\<open>strings.Contains\<close> for one byte, \<open>strings.Cut\<close> at one byte.\<close>

abbreviation contains_byte :: "string \<Rightarrow> char \<Rightarrow> bool" where
  "contains_byte s c \<equiv> c \<in> set s"

fun cut_before :: "char \<Rightarrow> string \<Rightarrow> string" where
  "cut_before c [] = []"
| "cut_before c (x # xs) = (if x = c then [] else x # cut_before c xs)"

lemma cut_before_takeWhile: "cut_before c s = takeWhile (\<lambda>x. x \<noteq> c) s"
  by (induction s) auto

definition is_digit :: "char \<Rightarrow> bool" where
  "is_digit c \<longleftrightarrow> of_char c \<ge> (48 :: nat) \<and> of_char c \<le> (57 :: nat)"

text \<open>Decimal rendering, \<open>%d\<close>.\<close>

fun show_nat :: "nat \<Rightarrow> string" where
  "show_nat n =
     (if n < 10 then [char_of (48 + n)]
      else show_nat (n div 10) @ [char_of (48 + n mod 10)])"

declare show_nat.simps [simp del]

definition show_int :: "int \<Rightarrow> string" where
  "show_int i = (if i < 0 then CHR ''-'' # show_nat (nat (- i)) else show_nat (nat i))"

section \<open>Lists\<close>

text \<open>Loops that look for the first element with a property.\<close>

lemma find_Some_first:
  "find P xs = Some x \<Longrightarrow> \<exists>ys zs. xs = ys @ x # zs \<and> P x \<and> (\<forall>y\<in>set ys. \<not> P y)"
proof (induction xs)
  case Nil
  then show ?case by simp
next
  case (Cons a xs)
  show ?case
  proof (cases "P a")
    case True
    with Cons.prems show ?thesis by fastforce
  next
    case False
    with Cons obtain ys zs where "a # xs = (a # ys) @ x # zs" "P x" "\<forall>y\<in>set (a # ys). \<not> P y"
      by auto
    then show ?thesis by blast
  qed
qed

lemma fold_inv:
  "P s \<Longrightarrow> (\<And>x s. x \<in> set xs \<Longrightarrow> P s \<Longrightarrow> P (f x s)) \<Longrightarrow> P (fold f xs s)"
  by (induction xs arbitrary: s) auto

end
