(* ===== verification/GoAst.thy ===== *)
theory GoAst
  imports Prelude
begin

text \<open>
  The part of the standard library's \<open>go/ast\<close> and \<open>go/token\<close> the program walks. One datatype
  stands for the interface \<open>ast.Node\<close>: each constructor is a node struct with its fields in
  the order \<open>ast.Walk\<close> visits them, a nilable field is an \<open>option\<close>. Comments are left out
  (no modelled code reads them) and so are token positions, except the two every node has:
  a node carries the identity its pointer would give it, and what its methods \<open>Pos\<close> and \<open>End\<close>
  return. \<open>children\<close> is the visiting order of \<open>ast.Walk\<close> and \<open>inspect\<close> is \<open>ast.Inspect\<close>.
\<close>

section \<open>Tokens and nodes\<close>

datatype token =
    ILLEGAL | INT | FLOAT | IMAG | CHAR | STRING
  | ADD | SUB | MUL | QUO | REM | AND_T | OR_T | XOR_T | SHL | SHR | AND_NOT
  | LAND | LOR | ARROW | INC | DEC | EQL | LSS | GTR | ASSIGN | NOT_T | TILDE
  | NEQ | LEQ | GEQ | DEFINE | ELLIPSIS
  | BREAK | CONTINUE | GOTO | FALLTHROUGH
  | IMPORT_T | CONST_T | TYPE_T | VAR_T | FUNC_T
  | ADD_ASSIGN | SUB_ASSIGN | MUL_ASSIGN | QUO_ASSIGN | REM_ASSIGN | AND_ASSIGN | OR_ASSIGN
  | XOR_ASSIGN | SHL_ASSIGN | SHR_ASSIGN | AND_NOT_ASSIGN

datatype meta = Meta (nid: nat) (npos: nat) (nend: nat)

datatype (plugins only: code size) node =
    BadExpr meta
  | Ident meta string
  | Ellipsis meta "node option"
  | BasicLit meta token string
  | FuncLit meta node node
  | CompositeLit meta "node option" "node list"
  | ParenExpr meta node
  | SelectorExpr meta node node
  | IndexExpr meta node node
  | IndexListExpr meta node "node list"
  | SliceExpr meta node "node option" "node option" "node option"
  | TypeAssertExpr meta node "node option"
  | CallExpr meta node "node list"
  | StarExpr meta node
  | UnaryExpr meta token node
  | BinaryExpr meta node token node
  | KeyValueExpr meta node node
  | ArrayType meta "node option" node
  | StructType meta "node option"
  | FuncType meta "node option" "node option" "node option"
  | InterfaceType meta "node option"
  | MapType meta node node
  | ChanType meta node
  | Field meta "node list" "node option" "node option"
  | FieldList meta "node list"
  | BadStmt meta
  | DeclStmt meta node
  | EmptyStmt meta
  | LabeledStmt meta node node
  | ExprStmt meta node
  | SendStmt meta node node
  | IncDecStmt meta node token
  | AssignStmt meta "node list" token "node list"
  | GoStmt meta node
  | DeferStmt meta node
  | ReturnStmt meta "node list"
  | BranchStmt meta token "node option"
  | BlockStmt meta "node list"
  | IfStmt meta "node option" node node "node option"
  | CaseClause meta "node list" "node list"
  | SwitchStmt meta "node option" "node option" node
  | TypeSwitchStmt meta "node option" node node
  | CommClause meta "node option" "node list"
  | SelectStmt meta node
  | ForStmt meta "node option" "node option" "node option" node
  | RangeStmt meta "node option" "node option" token node node
  | ImportSpec meta "node option" node
  | ValueSpec meta "node list" "node option" "node list"
  | TypeSpec meta node "node option" bool node
  | BadDecl meta
  | GenDecl meta token "node list"
  | FuncDecl meta "node option" node node "node option"
  | AstFile meta string node "node list"


primrec nmeta :: "node \<Rightarrow> meta" where
  "nmeta (BadExpr m) = m"
| "nmeta (Ident m x) = m"
| "nmeta (Ellipsis m e) = m"
| "nmeta (BasicLit m k v) = m"
| "nmeta (FuncLit m t b) = m"
| "nmeta (CompositeLit m t es) = m"
| "nmeta (ParenExpr m x) = m"
| "nmeta (SelectorExpr m x sel) = m"
| "nmeta (IndexExpr m x i) = m"
| "nmeta (IndexListExpr m x is) = m"
| "nmeta (SliceExpr m x l h mx) = m"
| "nmeta (TypeAssertExpr m x t) = m"
| "nmeta (CallExpr m f as) = m"
| "nmeta (StarExpr m x) = m"
| "nmeta (UnaryExpr m op x) = m"
| "nmeta (BinaryExpr m x op y) = m"
| "nmeta (KeyValueExpr m k v) = m"
| "nmeta (ArrayType m l e) = m"
| "nmeta (StructType m fs) = m"
| "nmeta (FuncType m tps ps rs) = m"
| "nmeta (InterfaceType m ms) = m"
| "nmeta (MapType m k v) = m"
| "nmeta (ChanType m v) = m"
| "nmeta (Field m ns t tag) = m"
| "nmeta (FieldList m fs) = m"
| "nmeta (BadStmt m) = m"
| "nmeta (DeclStmt m d) = m"
| "nmeta (EmptyStmt m) = m"
| "nmeta (LabeledStmt m l s) = m"
| "nmeta (ExprStmt m x) = m"
| "nmeta (SendStmt m c v) = m"
| "nmeta (IncDecStmt m x tok) = m"
| "nmeta (AssignStmt m ls tok rs) = m"
| "nmeta (GoStmt m c) = m"
| "nmeta (DeferStmt m c) = m"
| "nmeta (ReturnStmt m rs) = m"
| "nmeta (BranchStmt m tok l) = m"
| "nmeta (BlockStmt m ss) = m"
| "nmeta (IfStmt m i c b e) = m"
| "nmeta (CaseClause m xs b) = m"
| "nmeta (SwitchStmt m i t b) = m"
| "nmeta (TypeSwitchStmt m i a b) = m"
| "nmeta (CommClause m c b) = m"
| "nmeta (SelectStmt m b) = m"
| "nmeta (ForStmt m i c p b) = m"
| "nmeta (RangeStmt m k v tok x b) = m"
| "nmeta (ImportSpec m n p) = m"
| "nmeta (ValueSpec m ns t vs) = m"
| "nmeta (TypeSpec m n tps al t) = m"
| "nmeta (BadDecl m) = m"
| "nmeta (GenDecl m tok ss) = m"
| "nmeta (FuncDecl m r n t b) = m"
| "nmeta (AstFile m gv n ds) = m"

abbreviation pos_of :: "node \<Rightarrow> nat" where
  "pos_of n \<equiv> npos (nmeta n)"

abbreviation end_of :: "node \<Rightarrow> nat" where
  "end_of n \<equiv> nend (nmeta n)"

abbreviation id_of :: "node \<Rightarrow> nat" where
  "id_of n \<equiv> nid (nmeta n)"

section \<open>The visiting order of \<open>ast.Walk\<close>\<close>

abbreviation opt :: "'a option \<Rightarrow> 'a list" where
  "opt \<equiv> (\<lambda>x. case x of None \<Rightarrow> [] | Some y \<Rightarrow> [y])"

primrec children :: "node \<Rightarrow> node list" where
  "children (BadExpr m) = []"
| "children (Ident m x) = []"
| "children (Ellipsis m e) = opt e"
| "children (BasicLit m k v) = []"
| "children (FuncLit m t b) = [t, b]"
| "children (CompositeLit m t es) = opt t @ es"
| "children (ParenExpr m x) = [x]"
| "children (SelectorExpr m x sel) = [x, sel]"
| "children (IndexExpr m x i) = [x, i]"
| "children (IndexListExpr m x is) = x # is"
| "children (SliceExpr m x l h mx) = x # opt l @ opt h @ opt mx"
| "children (TypeAssertExpr m x t) = x # opt t"
| "children (CallExpr m f as) = f # as"
| "children (StarExpr m x) = [x]"
| "children (UnaryExpr m op x) = [x]"
| "children (BinaryExpr m x op y) = [x, y]"
| "children (KeyValueExpr m k v) = [k, v]"
| "children (ArrayType m l e) = opt l @ [e]"
| "children (StructType m fs) = opt fs"
| "children (FuncType m tps ps rs) = opt tps @ opt ps @ opt rs"
| "children (InterfaceType m ms) = opt ms"
| "children (MapType m k v) = [k, v]"
| "children (ChanType m v) = [v]"
| "children (Field m ns t tag) = ns @ opt t @ opt tag"
| "children (FieldList m fs) = fs"
| "children (BadStmt m) = []"
| "children (DeclStmt m d) = [d]"
| "children (EmptyStmt m) = []"
| "children (LabeledStmt m l s) = [l, s]"
| "children (ExprStmt m x) = [x]"
| "children (SendStmt m c v) = [c, v]"
| "children (IncDecStmt m x tok) = [x]"
| "children (AssignStmt m ls tok rs) = ls @ rs"
| "children (GoStmt m c) = [c]"
| "children (DeferStmt m c) = [c]"
| "children (ReturnStmt m rs) = rs"
| "children (BranchStmt m tok l) = opt l"
| "children (BlockStmt m ss) = ss"
| "children (IfStmt m i c b e) = opt i @ [c, b] @ opt e"
| "children (CaseClause m xs b) = xs @ b"
| "children (SwitchStmt m i t b) = opt i @ opt t @ [b]"
| "children (TypeSwitchStmt m i a b) = opt i @ [a, b]"
| "children (CommClause m c b) = opt c @ b"
| "children (SelectStmt m b) = [b]"
| "children (ForStmt m i c p b) = opt i @ opt c @ opt p @ [b]"
| "children (RangeStmt m k v tok x b) = opt k @ opt v @ [x, b]"
| "children (ImportSpec m n p) = opt n @ [p]"
| "children (ValueSpec m ns t vs) = ns @ opt t @ vs"
| "children (TypeSpec m n tps al t) = n # opt tps @ [t]"
| "children (BadDecl m) = []"
| "children (GenDecl m tok ss) = ss"
| "children (FuncDecl m r n t b) = opt r @ [n, t] @ opt b"
| "children (AstFile m gv n ds) = n # ds"

text \<open>Field accesses on the structs whose static type the program knows.\<close>

definition ident_name :: "node \<Rightarrow> string" where
  "ident_name n = (case n of Ident m x \<Rightarrow> x | _ \<Rightarrow> [])"

definition field_list :: "node option \<Rightarrow> node list" where
  "field_list fl = (case fl of Some (FieldList m fs) \<Rightarrow> fs | _ \<Rightarrow> [])"

definition field_names :: "node \<Rightarrow> node list" where
  "field_names f = (case f of Field m ns t tag \<Rightarrow> ns | _ \<Rightarrow> [])"

definition field_type :: "node \<Rightarrow> node option" where
  "field_type f = (case f of Field m ns t tag \<Rightarrow> t | _ \<Rightarrow> None)"

definition ft_TypeParams :: "node \<Rightarrow> node option" where
  "ft_TypeParams ft = (case ft of FuncType m tps ps rs \<Rightarrow> tps | _ \<Rightarrow> None)"

definition ft_Params :: "node \<Rightarrow> node option" where
  "ft_Params ft = (case ft of FuncType m tps ps rs \<Rightarrow> ps | _ \<Rightarrow> None)"

definition ft_Results :: "node \<Rightarrow> node option" where
  "ft_Results ft = (case ft of FuncType m tps ps rs \<Rightarrow> rs | _ \<Rightarrow> None)"

definition lit_value :: "node \<Rightarrow> string" where
  "lit_value n = (case n of BasicLit m k v \<Rightarrow> v | _ \<Rightarrow> [])"

definition file_decls :: "node \<Rightarrow> node list" where
  "file_decls f = (case f of AstFile m gv n ds \<Rightarrow> ds | _ \<Rightarrow> [])"

definition file_GoVersion :: "node \<Rightarrow> string" where
  "file_GoVersion f = (case f of AstFile m gv n ds \<Rightarrow> gv | _ \<Rightarrow> [])"

definition decl_specs :: "node \<Rightarrow> node list" where
  "decl_specs d = (case d of GenDecl m tok ss \<Rightarrow> ss | _ \<Rightarrow> [])"

text \<open>\<open>ast.File.Imports\<close>: the import specs of the file in source order.\<close>

definition file_imports :: "node \<Rightarrow> node list" where
  "file_imports f =
     concat (map (\<lambda>d. case d of GenDecl m tok ss \<Rightarrow> if tok = IMPORT_T then ss else [] | _ \<Rightarrow> [])
       (file_decls f))"

lemmas ast_access =
  ident_name_def field_list_def field_names_def field_type_def ft_TypeParams_def ft_Params_def
  ft_Results_def lit_value_def file_decls_def file_GoVersion_def decl_specs_def

lemma ast_access_simps [simp]:
  "ident_name (Ident m x) = x"
  "field_list None = []"
  "field_list (Some (FieldList m fs)) = fs"
  "field_names (Field m ns t tag) = ns"
  "field_type (Field m ns t tag) = t"
  "ft_TypeParams (FuncType m tps ps rs) = tps"
  "ft_Params (FuncType m tps ps rs) = ps"
  "ft_Results (FuncType m tps ps rs) = rs"
  "lit_value (BasicLit m k v) = v"
  "file_decls (AstFile m gv n ds) = ds"
  "file_GoVersion (AstFile m gv n ds) = gv"
  "decl_specs (GenDecl m tok ss) = ss"
  by (simp_all add: ast_access)

section \<open>Termination, and \<open>ast.Inspect\<close>\<close>

lemma size_opt_less: "c \<in> set (opt x) \<Longrightarrow> size c < Suc (size_option size x)"
  by (cases x) auto

lemma size_list_less: "c \<in> set xs \<Longrightarrow> size c < Suc (size_list size xs)"
  by (induction xs) auto

text \<open>Every recursion over the syntax tree that follows the children terminates.\<close>

lemma size_children [termination_simp]: "c \<in> set (children n) \<Longrightarrow> size c < size n"
  by (cases n) (auto dest!: size_list_less size_opt_less split: option.splits)


lemma node_induct:
  assumes "\<And>n. (\<And>c. c \<in> set (children n) \<Longrightarrow> P c) \<Longrightarrow> P n"
  shows "P n"
proof (induction n rule: measure_induct_rule [of size])
  case (less n)
  then show ?case using assms size_children by blast
qed

text \<open>
  \<open>ast.Inspect(n, f)\<close> with the state the closure \<open>f\<close> captures threaded through: \<open>pre\<close> is \<open>f\<close> on
  a node (its result says whether to go down), \<open>post\<close> is \<open>f(nil)\<close>, called after the children
  of a node it went down into.
\<close>

function inspect :: "('s \<Rightarrow> node \<Rightarrow> bool \<times> 's) \<Rightarrow> ('s \<Rightarrow> 's) \<Rightarrow> node \<Rightarrow> 's \<Rightarrow> 's" where
  "inspect pre post n s =
     (if fst (pre s n) then post (fold (inspect pre post) (children n) (snd (pre s n)))
      else snd (pre s n))"
  by pat_completeness auto
termination
  by (relation "measure (\<lambda>(pre, post, n, s). size n)") (auto simp: size_children)

declare inspect.simps [simp del]

text \<open>A visitor that keeps an invariant: every traversal keeps it.\<close>

locale ast_visitor =
  fixes pre :: "'s \<Rightarrow> node \<Rightarrow> bool \<times> 's"
    and post :: "'s \<Rightarrow> 's"
    and inv :: "'s \<Rightarrow> bool"
  assumes pre_keeps: "inv s \<Longrightarrow> inv (snd (pre s n))"
    and post_keeps: "inv s \<Longrightarrow> inv (post s)"
begin

lemma inspect_keeps: "inv s \<Longrightarrow> inv (inspect pre post n s)"
proof (induction n arbitrary: s rule: node_induct)
  case (1 n)
  have "inv (fold (inspect pre post) (children n) (snd (pre s n)))"
    by (rule fold_inv) (use 1 pre_keeps in auto)
  with 1 show ?case
    by (subst inspect.simps) (auto intro: pre_keeps post_keeps)
qed

end

text \<open>
  A visitor that always goes down, keeps the stack of the nodes it is inside (innermost first)
  and acts on each node on the way down. Its traversal acts on the nodes in preorder, each with
  its enclosing nodes.
\<close>

function walk :: "node list \<Rightarrow> node \<Rightarrow> (node list \<times> node) list" where
  "walk stk n = (stk, n) # concat (map (walk (n # stk)) (children n))"
  by pat_completeness auto
termination
  by (relation "measure (\<lambda>(stk, n). size n)") (auto simp: size_children)

declare walk.simps [simp del]

lemma walk_self: "(stk, n) \<in> set (walk stk n)"
  by (subst walk.simps) simp

lemma walk_step:
  "(stk', n') \<in> set (walk stk n) \<Longrightarrow> c \<in> set (children n') \<Longrightarrow>
   (n' # stk', c) \<in> set (walk stk n)"
proof (induction n arbitrary: stk rule: node_induct)
  case (1 n)
  from "1.prems"(1) consider "stk' = stk" "n' = n"
    | d where "d \<in> set (children n)" "(stk', n') \<in> set (walk (n # stk) d)"
    by (subst (asm) walk.simps) auto
  then show ?case
  proof cases
    case 1
    then show ?thesis
      using "1.prems"(2) walk_self by (subst walk.simps) auto
  next
    case 2
    with "1.IH" "1.prems"(2) show ?thesis by (subst walk.simps) auto
  qed
qed

lemma inspect_stack:
  assumes "\<And>stk a n. pre (stk, a) n = (True, (n # stk, act stk n a))"
    and "\<And>stk a. post (stk, a) = (tl stk, a)"
  shows "inspect pre post n (stk, a) = (stk, fold (\<lambda>(stk, n). act stk n) (walk stk n) a)"
proof (induction n arbitrary: stk a rule: node_induct)
  case (1 n)
  have loop: "fold (inspect pre post) cs (n # stk, b) =
      (n # stk, fold (\<lambda>(stk, n). act stk n) (concat (map (walk (n # stk)) cs)) b)"
    if "set cs \<subseteq> set (children n)" for cs b
    using that
  proof (induction cs arbitrary: b)
    case Nil
    then show ?case by simp
  next
    case (Cons c cs)
    then show ?case using "1" by simp
  qed
  show ?case
    by (subst inspect.simps, subst walk.simps) (simp add: assms loop)
qed

text \<open>The nodes below a node, itself included, in the order a full traversal meets them.\<close>

definition preorder :: "node \<Rightarrow> node list" where
  "preorder n = map snd (walk [] n)"

lemma snd_walk: "map snd (walk stk n) = preorder n"
proof (induction n arbitrary: stk rule: node_induct)
  case (1 n)
  then have below: "map (\<lambda>c. map snd (walk (n # stk) c)) (children n) =
      map (\<lambda>c. map snd (walk [n] c)) (children n)"
    by simp
  show ?case
    unfolding preorder_def
    by (subst (1 2) walk.simps) (simp add: map_concat comp_def below del: map_eq_conv)
qed

lemma preorder_children: "preorder n = n # concat (map preorder (children n))"
  unfolding preorder_def [of n] by (subst walk.simps) (simp add: map_concat comp_def snd_walk)

lemma inspect_all:
  assumes "\<And>s n. pre s n = (True, act n s)" and "\<And>s. post s = s"
  shows "inspect pre post n s = fold act (preorder n) s"
proof (induction n arbitrary: s rule: node_induct)
  case (1 n)
  have "fold (inspect pre post) cs b = fold act (concat (map preorder cs)) b"
    if "set cs \<subseteq> set (children n)" for cs b
    using that by (induction cs arbitrary: b) (auto simp: 1)
  then show ?case
    by (subst inspect.simps, subst preorder_children) (simp add: assms)
qed

end
