(* ===== verification/Syntax.thy ===== *)
theory Syntax
  imports GoAst
begin

text \<open>
  Package \<open>syntax\<close> without its version gate and its scopes: parsed files and their import
  tables (\<open>syntax/syntax.go\<close>), the type a nested literal takes its shape from
  (\<open>syntax/complit.go\<close>) and the predeclared names (\<open>syntax/universe.go\<close>).
\<close>

section \<open>Files and imports\<close>

record import_rec =
  imp_Path :: string
  imp_Alias :: string
  imp_Pos :: nat

record src_file =
  sf_Name :: string
  sf_AST :: node
  sf_Imports :: "import_rec list"
  sf_Src :: "string option"
  sf_LangMod :: string

definition import_path_lit :: "node \<Rightarrow> string" where
  "import_path_lit spec = (case spec of ImportSpec m n p \<Rightarrow> lit_value p | _ \<Rightarrow> [])"

definition import_alias :: "node \<Rightarrow> string" where
  "import_alias spec = (case spec of ImportSpec m (Some n) p \<Rightarrow> ident_name n | _ \<Rightarrow> [])"

datatype parse_error = SyntaxErrors string | InvalidImportPath string

definition add_import ::
    "(string \<Rightarrow> string option) \<Rightarrow> string \<Rightarrow> node \<Rightarrow> import_rec list \<Rightarrow> parse_error + import_rec list" where
  "add_import unquote filename spec is =
     (case unquote (import_path_lit spec) of
        None \<Rightarrow> Inl (InvalidImportPath filename)
      | Some path \<Rightarrow>
          Inr (is @ [\<lparr>imp_Path = path, imp_Alias = import_alias spec, imp_Pos = pos_of spec\<rparr>]))"

text \<open>
  \<open>ParseFile\<close>. The parser of \<open>go/parser\<close> and \<open>strconv.Unquote\<close> are arguments; on Unix
  \<open>filepath.ToSlash\<close> is the identity.
\<close>

definition ParseFile ::
    "(string \<Rightarrow> string option \<Rightarrow> string + node) \<Rightarrow> (string \<Rightarrow> string option) \<Rightarrow>
     string \<Rightarrow> string option \<Rightarrow> parse_error + src_file" where
  "ParseFile parse unquote filename src =
     (case parse filename src of
        Inl e \<Rightarrow> Inl (SyntaxErrors e)
      | Inr f \<Rightarrow>
          bind_err (fold_err (add_import unquote filename) (file_imports f) [])
            (\<lambda>is. Inr \<lparr>sf_Name = filename, sf_AST = f, sf_Imports = is, sf_Src = src, sf_LangMod = []\<rparr>))"

definition isDigits :: "string \<Rightarrow> bool" where
  "isDigits s \<longleftrightarrow> s \<noteq> [] \<and> list_all is_digit s"

definition LocalName :: "import_rec \<Rightarrow> string" where
  "LocalName i =
     (if imp_Alias i \<noteq> [] then imp_Alias i
      else
        let parts = split_on CHR ''/'' (imp_Path i);
            name = parts ! (length parts - 1)
        in if 2 \<le> length name \<and> name ! 0 = CHR ''v'' \<and> isDigits (drop 1 name) \<and> 1 < length parts
           then parts ! (length parts - 2)
           else name)"

section \<open>Type parameter names\<close>

definition TypeParamNames :: "node option \<Rightarrow> string list" where
  "TypeParamNames fl =
     (case fl of
        None \<Rightarrow> []
      | Some _ \<Rightarrow> concat (map (\<lambda>fd. map ident_name (field_names fd)) (field_list fl)))"

text \<open>The loop labelled \<open>peel\<close> of \<open>RecvTypeParamNames\<close>.\<close>

function recv_peel :: "node \<Rightarrow> node" where
  "recv_peel e = (case e of StarExpr m x \<Rightarrow> recv_peel x | ParenExpr m x \<Rightarrow> recv_peel x | _ \<Rightarrow> e)"
  by pat_completeness auto
termination
  by (relation "measure size") auto

declare recv_peel.simps [simp del]

definition recv_add :: "node \<Rightarrow> string list" where
  "recv_add x = (case x of Ident m name \<Rightarrow> [name] | _ \<Rightarrow> [])"

definition RecvTypeParamNames :: "node option \<Rightarrow> string list" where
  "RecvTypeParamNames recv =
     (case field_list recv of
        [] \<Rightarrow> []
      | fd # _ \<Rightarrow>
          (case field_type fd of
             None \<Rightarrow> []
           | Some e \<Rightarrow>
               (case recv_peel e of
                  IndexExpr m x i \<Rightarrow> recv_add i
                | IndexListExpr m x is \<Rightarrow> concat (map recv_add is)
                | _ \<Rightarrow> [])))"

section \<open>Literal types\<close>

function PeelLitType :: "node option \<Rightarrow> nat \<Rightarrow> node option" where
  "PeelLitType None d = None"
| "PeelLitType (Some t) 0 = Some t"
| "PeelLitType (Some t) (Suc d) =
     (case t of
        ArrayType m l e \<Rightarrow> PeelLitType (Some e) d
      | MapType m k v \<Rightarrow> PeelLitType (Some v) d
      | StarExpr m x \<Rightarrow> PeelLitType (Some x) d
      | Ellipsis m e \<Rightarrow> PeelLitType e d
      | ParenExpr m x \<Rightarrow> PeelLitType (Some x) (Suc d)
      | _ \<Rightarrow> None)"
  by pat_completeness auto
termination
  by (relation "measure (\<lambda>(t, d). size_option size t)") auto

section \<open>The universe scope\<close>

definition IsPredeclaredType :: "string \<Rightarrow> bool" where
  "IsPredeclaredType name \<longleftrightarrow>
     name \<in> set [''bool'', ''string'',
       ''int'', ''int8'', ''int16'', ''int32'', ''int64'',
       ''uint'', ''uint8'', ''uint16'', ''uint32'', ''uint64'', ''uintptr'',
       ''byte'', ''rune'', ''float32'', ''float64'', ''complex64'', ''complex128'',
       ''error'', ''any'', ''comparable'']"

definition IsPredeclaredValue :: "string \<Rightarrow> bool" where
  "IsPredeclaredValue name \<longleftrightarrow>
     name \<in> set [''true'', ''false'', ''iota'', ''nil'',
       ''append'', ''cap'', ''clear'', ''close'', ''complex'', ''copy'', ''delete'',
       ''imag'', ''len'', ''make'', ''max'', ''min'', ''new'', ''panic'', ''print'',
       ''println'', ''real'', ''recover'']"

section \<open>Lemmas\<close>

lemma universe_disjoint: "\<not> (IsPredeclaredType x \<and> IsPredeclaredValue x)"
  by (auto simp: IsPredeclaredType_def IsPredeclaredValue_def)

lemma add_import_Some:
  "unquote (import_path_lit spec) = Some path \<Longrightarrow>
   add_import unquote fn spec is =
     Inr (is @ [\<lparr>imp_Path = path, imp_Alias = import_alias spec, imp_Pos = pos_of spec\<rparr>])"
  by (simp add: add_import_def)

lemma add_import_None:
  "unquote (import_path_lit spec) = None \<Longrightarrow>
   add_import unquote fn spec is = Inl (InvalidImportPath fn)"
  by (simp add: add_import_def)

text \<open>The import table: one entry per import spec, in source order, with its position.\<close>

lemma fold_add_import:
  "fold_err (add_import unquote fn) specs acc = Inr is \<Longrightarrow>
   \<exists>paths. map unquote (map import_path_lit specs) = map Some paths \<and>
     map imp_Path is = map imp_Path acc @ paths \<and>
     map imp_Alias is = map imp_Alias acc @ map import_alias specs \<and>
     map imp_Pos is = map imp_Pos acc @ map pos_of specs"
proof (induction specs arbitrary: acc)
  case Nil
  then show ?case by simp
next
  case (Cons spec specs)
  then obtain path where path: "unquote (import_path_lit spec) = Some path"
    by (auto simp: bind_err_Inr add_import_def split: option.splits)
  with Cons.prems have rest: "fold_err (add_import unquote fn) specs
      (acc @ [\<lparr>imp_Path = path, imp_Alias = import_alias spec, imp_Pos = pos_of spec\<rparr>]) = Inr is"
    by (simp add: add_import_Some)
  from Cons.IH [OF this] obtain paths where
    "map unquote (map import_path_lit specs) = map Some paths"
    "map imp_Path is = map imp_Path acc @ path # paths"
    "map imp_Alias is = map imp_Alias acc @ import_alias spec # map import_alias specs"
    "map imp_Pos is = map imp_Pos acc @ pos_of spec # map pos_of specs"
    by auto
  with path show ?case by (intro exI [of _ "path # paths"]) simp
qed

lemma fold_add_import_fails:
  assumes "spec \<in> set specs" and "unquote (import_path_lit spec) = None"
  shows "fold_err (add_import unquote fn) specs acc = Inl (InvalidImportPath fn)"
  using assms
proof (induction specs arbitrary: acc)
  case Nil
  then show ?case by simp
next
  case (Cons a specs)
  then show ?case
    by (cases "unquote (import_path_lit a)") (auto simp: add_import_Some add_import_None)
qed

text \<open>The local name of an import without an alias.\<close>

lemma split_last_elem:
  assumes "CHR ''/'' \<notin> set base"
  shows "split_on CHR ''/'' (dir @ CHR ''/'' # base) = split_on CHR ''/'' dir @ [base]"
proof (induction dir)
  case Nil
  with assms show ?case by simp
next
  case (Cons a dir)
  then show ?case by (cases "split_on CHR ''/'' dir") auto
qed

lemma recv_peel_star: "recv_peel (StarExpr m x) = recv_peel x"
  by (subst recv_peel.simps) simp

lemma recv_peel_paren: "recv_peel (ParenExpr m x) = recv_peel x"
  by (subst recv_peel.simps) simp

lemma recv_peel_other:
  "(\<And>m x. e \<noteq> StarExpr m x) \<Longrightarrow> (\<And>m x. e \<noteq> ParenExpr m x) \<Longrightarrow> recv_peel e = e"
  by (subst recv_peel.simps) (simp split: node.splits)

end
