(* ===== verification/Scope.thy ===== *)
theory Scope
  imports Syntax
begin

text \<open>
  \<open>syntax/scope.go\<close>: the scopes of the names bound below package level. \<open>NewLocalScopes\<close>
  collects, by one traversal of the file that keeps the stack of enclosing nodes, the spans in
  which each name is bound; \<open>At\<close> looks a position up. \<open>in_scope\<close> states the scoping rules of
  the file's comment over the syntax tree alone, with nothing of the collector in it, and
  \<open>At_iff\<close> shows that the spans are exactly those.
\<close>

section \<open>The collector\<close>

type_synonym spans = "string \<Rightarrow> (nat \<times> nat) list"

definition bind :: "string \<Rightarrow> nat \<Rightarrow> nat \<Rightarrow> spans \<Rightarrow> spans" where
  "bind name from to s =
     (if name \<noteq> ''_'' \<and> to \<noteq> 0 then s(name := s name @ [(from, to)]) else s)"

definition bind_all :: "string list \<Rightarrow> nat \<Rightarrow> nat \<Rightarrow> spans \<Rightarrow> spans" where
  "bind_all names from to s = fold (\<lambda>name. bind name from to) names s"

definition names_of_fields :: "node option \<Rightarrow> string list" where
  "names_of_fields fl = concat (map (\<lambda>f. map ident_name (field_names f)) (field_list fl))"

definition bindFields :: "node option \<Rightarrow> node option \<Rightarrow> spans \<Rightarrow> spans" where
  "bindFields fl body s =
     (case (fl, body) of
        (Some _, Some b) \<Rightarrow> bind_all (names_of_fields fl) (pos_of b) (end_of b) s
      | _ \<Rightarrow> s)"

definition opens_scope :: "node \<Rightarrow> bool" where
  "opens_scope n =
     (case n of
        BlockStmt m ss \<Rightarrow> True | IfStmt m i c b e \<Rightarrow> True | ForStmt m i c p b \<Rightarrow> True
      | RangeStmt m k v tok x b \<Rightarrow> True | SwitchStmt m i t b \<Rightarrow> True
      | TypeSwitchStmt m i a b \<Rightarrow> True | SelectStmt m b \<Rightarrow> True
      | CaseClause m xs b \<Rightarrow> True | CommClause m c b \<Rightarrow> True
      | _ \<Rightarrow> False)"

text \<open>The stack is kept innermost first.\<close>

definition scopeEnd :: "node list \<Rightarrow> nat" where
  "scopeEnd stk = (case find opens_scope stk of Some n \<Rightarrow> end_of n | None \<Rightarrow> 0)"

definition ident_names :: "node list \<Rightarrow> string list" where
  "ident_names es = concat (map (\<lambda>e. case e of Ident m x \<Rightarrow> [x] | _ \<Rightarrow> []) es)"

definition bind_spec :: "nat \<Rightarrow> node \<Rightarrow> spans \<Rightarrow> spans" where
  "bind_spec end sp s =
     (case sp of
        ValueSpec m ns t vs \<Rightarrow> bind_all (map ident_name ns) (nend m) end s
      | TypeSpec m n tps al t \<Rightarrow> bind (ident_name n) (pos_of n) end s
      | _ \<Rightarrow> s)"

text \<open>The \<open>switch\<close> on a node on the way down.\<close>

definition collect :: "node list \<Rightarrow> node \<Rightarrow> spans \<Rightarrow> spans" where
  "collect stk x s =
     (case x of
        FuncDecl m recv name ft body \<Rightarrow>
          bindFields (ft_Results ft) body
            (bindFields (ft_Params ft) body
              (bindFields recv body
                (bind_all (TypeParamNames (ft_TypeParams ft)) (npos m) (nend m)
                  (bind_all (RecvTypeParamNames recv) (npos m) (nend m) s))))
      | FuncLit m ft body \<Rightarrow>
          bindFields (ft_Results ft) (Some body) (bindFields (ft_Params ft) (Some body) s)
      | TypeSpec m name tps al t \<Rightarrow> bind_all (TypeParamNames tps) (npos m) (nend m) s
      | AssignStmt m lhs tok rhs \<Rightarrow>
          if tok = DEFINE then bind_all (ident_names lhs) (nend m) (scopeEnd stk) s else s
      | RangeStmt m key val tok e body \<Rightarrow>
          if tok = DEFINE
          then bind_all (ident_names (opt key @ opt val)) (pos_of body) (end_of body) s
          else s
      | DeclStmt m d \<Rightarrow>
          (case d of
             GenDecl m' tok specs \<Rightarrow> fold (bind_spec (scopeEnd stk)) specs s
           | _ \<Rightarrow> s)
      | _ \<Rightarrow> s)"

definition scope_pre :: "node list \<times> spans \<Rightarrow> node \<Rightarrow> bool \<times> (node list \<times> spans)" where
  "scope_pre st n = (True, (n # fst st, collect (fst st) n (snd st)))"

definition scope_post :: "node list \<times> spans \<Rightarrow> node list \<times> spans" where
  "scope_post st = (tl (fst st), snd st)"

definition NewLocalScopes :: "node \<Rightarrow> spans" where
  "NewLocalScopes f = snd (inspect scope_pre scope_post f ([], \<lambda>_. []))"

definition At :: "spans \<Rightarrow> string \<Rightarrow> nat \<Rightarrow> bool" where
  "At s name pos \<longleftrightarrow> list_ex (\<lambda>(from, to). from \<le> pos \<and> pos < to) (s name)"

section \<open>The scoping rules\<close>

text \<open>
  The rules of the comment on \<open>LocalScopes\<close>, over the syntax tree alone and without the
  traversal, its stack or its closures. A node is a part of the file when it is reached through
  children. The scope around a part ends where the innermost enclosing block, \<open>if\<close>, \<open>for\<close>,
  \<open>switch\<close>, \<open>select\<close> or clause ends: where its parent ends when the parent is one of those,
  and where the scope around the parent ends otherwise.
\<close>

inductive occurs :: "node \<Rightarrow> node \<Rightarrow> bool" for f where
  root: "occurs f f"
| part: "occurs f p \<Longrightarrow> n \<in> set (children p) \<Longrightarrow> occurs f n"

inductive encloses :: "node \<Rightarrow> bool" where
  block: "encloses (BlockStmt m ss)"
| if_stmt: "encloses (IfStmt m i c b e)"
| for_stmt: "encloses (ForStmt m i c p b)"
| range_stmt: "encloses (RangeStmt m k v tok x b)"
| switch_stmt: "encloses (SwitchStmt m i t b)"
| type_switch_stmt: "encloses (TypeSwitchStmt m i a b)"
| select_stmt: "encloses (SelectStmt m b)"
| case_clause: "encloses (CaseClause m xs b)"
| comm_clause: "encloses (CommClause m c b)"

inductive scope_to :: "node \<Rightarrow> node \<Rightarrow> nat \<Rightarrow> bool" for f where
  opened: "occurs f p \<Longrightarrow> n \<in> set (children p) \<Longrightarrow> encloses p \<Longrightarrow> scope_to f n (end_of p)"
| passed: "scope_to f p e \<Longrightarrow> n \<in> set (children p) \<Longrightarrow> \<not> encloses p \<Longrightarrow> scope_to f n e"

text \<open>The names a field list declares, and the type parameters a receiver type lists, behind \<open>*\<close> and parentheses.\<close>

definition declares :: "node option \<Rightarrow> string \<Rightarrow> bool" where
  "declares fl x \<longleftrightarrow> (\<exists>fd\<in>set (field_list fl). \<exists>i\<in>set (field_names fd). x = ident_name i)"

inductive lists_tparam :: "node \<Rightarrow> string \<Rightarrow> bool" where
  star: "lists_tparam e x \<Longrightarrow> lists_tparam (StarExpr m e) x"
| paren: "lists_tparam e x \<Longrightarrow> lists_tparam (ParenExpr m e) x"
| index: "lists_tparam (IndexExpr m e (Ident m' x)) x"
| index_list: "Ident m' x \<in> set is \<Longrightarrow> lists_tparam (IndexListExpr m e is) x"

definition recv_tparam :: "node option \<Rightarrow> string \<Rightarrow> bool" where
  "recv_tparam recv x \<longleftrightarrow>
     (\<exists>fd fds e. field_list recv = fd # fds \<and> field_type fd = Some e \<and> lists_tparam e x)"

text \<open>Which names the parts of a file bind, from where, up to where.\<close>

inductive binds :: "node \<Rightarrow> string \<Rightarrow> nat \<Rightarrow> nat \<Rightarrow> bool" for f where
  func_tparam: "occurs f (FuncDecl m recv name ft body) \<Longrightarrow>
    recv_tparam recv x \<or> declares (ft_TypeParams ft) x \<Longrightarrow> binds f x (npos m) (nend m)"
| type_tparam: "occurs f (TypeSpec m name tps al t) \<Longrightarrow> declares tps x \<Longrightarrow> binds f x (npos m) (nend m)"
| func_param: "occurs f (FuncDecl m recv name ft (Some body)) \<Longrightarrow>
    declares recv x \<or> declares (ft_Params ft) x \<or> declares (ft_Results ft) x \<Longrightarrow>
    binds f x (pos_of body) (end_of body)"
| lit_param: "occurs f (FuncLit m ft body) \<Longrightarrow>
    declares (ft_Params ft) x \<or> declares (ft_Results ft) x \<Longrightarrow>
    binds f x (pos_of body) (end_of body)"
| short_var: "scope_to f (AssignStmt m lhs DEFINE rhs) e \<Longrightarrow> Ident m' x \<in> set lhs \<Longrightarrow>
    binds f x (nend m) e"
| range_var: "occurs f (RangeStmt m key val DEFINE r body) \<Longrightarrow>
    key = Some (Ident m' x) \<or> val = Some (Ident m' x) \<Longrightarrow> binds f x (pos_of body) (end_of body)"
| local_value: "scope_to f (DeclStmt m (GenDecl m'' tok specs)) e \<Longrightarrow>
    ValueSpec m' ns t vs \<in> set specs \<Longrightarrow> x \<in> ident_name ` set ns \<Longrightarrow> binds f x (nend m') e"
| local_type: "scope_to f (DeclStmt m (GenDecl m'' tok specs)) e \<Longrightarrow>
    TypeSpec m' n tps al t \<in> set specs \<Longrightarrow> binds f (ident_name n) (pos_of n) e"

text \<open>A name is in local scope at a position: some part of the file binds it there.\<close>

definition in_scope :: "node \<Rightarrow> string \<Rightarrow> nat \<Rightarrow> bool" where
  "in_scope f x pos \<longleftrightarrow> x \<noteq> ''_'' \<and> (\<exists>from to. binds f x from to \<and> from \<le> pos \<and> pos < to)"

section \<open>The traversal sees the parts with their enclosing nodes\<close>

lemma walk_parent:
  "(stk', c) \<in> set (walk stk n) \<Longrightarrow>
   (stk' = stk \<and> c = n) \<or>
   (\<exists>p up. stk' = p # up \<and> (up, p) \<in> set (walk stk n) \<and> c \<in> set (children p))"
proof (induction n arbitrary: stk rule: node_induct)
  case (1 n)
  from "1.prems" consider "stk' = stk" "c = n"
    | d where "d \<in> set (children n)" "(stk', c) \<in> set (walk (n # stk) d)"
    by (subst (asm) walk.simps) auto
  then show ?case
  proof cases
    case 1
    then show ?thesis by simp
  next
    case (2 d)
    from "1.IH" [OF 2] show ?thesis
    proof (elim disjE conjE exE)
      assume "stk' = n # stk" "c = d"
      with 2(1) walk_self [of stk n] show ?thesis by blast
    next
      fix p up
      assume "stk' = p # up" "(up, p) \<in> set (walk (n # stk) d)" "c \<in> set (children p)"
      moreover from this(2) 2(1) have "(up, p) \<in> set (walk stk n)" by (subst walk.simps) auto
      ultimately show ?thesis by blast
    qed
  qed
qed

lemma occurs_walk: "occurs f n \<longleftrightarrow> (\<exists>stk. (stk, n) \<in> set (walk [] f))"
proof
  assume "occurs f n"
  then show "\<exists>stk. (stk, n) \<in> set (walk [] f)"
  proof induction
    case root
    show ?case using walk_self by blast
  next
    case (part p n)
    then show ?case using walk_step by blast
  qed
next
  assume "\<exists>stk. (stk, n) \<in> set (walk [] f)"
  then obtain stk where "(stk, n) \<in> set (walk [] f)" by blast
  then show "occurs f n"
  proof (induction stk arbitrary: n)
    case Nil
    from walk_parent [OF this] have "n = f" by simp
    then show ?case by (simp add: occurs.root)
  next
    case (Cons p stk)
    from walk_parent [OF Cons.prems]
    have "(stk, p) \<in> set (walk [] f)" "n \<in> set (children p)" by auto
    with Cons.IH show ?case by (auto intro: occurs.part)
  qed
qed

lemma encloses_iff: "encloses n \<longleftrightarrow> opens_scope n"
  by (cases n) (simp_all add: encloses.simps opens_scope_def)

lemma scope_to_walk:
  "scope_to f n e \<longleftrightarrow>
   (\<exists>stk p. (stk, n) \<in> set (walk [] f) \<and> find opens_scope stk = Some p \<and> e = end_of p)"
proof
  assume "scope_to f n e"
  then show "\<exists>stk p. (stk, n) \<in> set (walk [] f) \<and> find opens_scope stk = Some p \<and> e = end_of p"
  proof induction
    case (opened p n)
    then obtain stk where "(stk, p) \<in> set (walk [] f)" unfolding occurs_walk by blast
    from walk_step [OF this opened(2)] opened(3) show ?case
      by (intro exI [of _ "p # stk"] exI [of _ p]) (simp add: encloses_iff)
  next
    case (passed p e n)
    then obtain stk q where q: "(stk, p) \<in> set (walk [] f)" "find opens_scope stk = Some q" "e = end_of q"
      by blast
    from walk_step [OF q(1) passed(2)] q passed(3) show ?case
      by (intro exI [of _ "p # stk"] exI [of _ q]) (simp add: encloses_iff)
  qed
next
  assume "\<exists>stk p. (stk, n) \<in> set (walk [] f) \<and> find opens_scope stk = Some p \<and> e = end_of p"
  then obtain stk p where "(stk, n) \<in> set (walk [] f)" "find opens_scope stk = Some p" "e = end_of p"
    by blast
  then show "scope_to f n e"
  proof (induction stk arbitrary: n)
    case Nil
    then show ?case by simp
  next
    case (Cons q stk)
    from walk_parent [OF Cons.prems(1)]
    have up: "(stk, q) \<in> set (walk [] f)" and c: "n \<in> set (children q)" by auto
    show ?case
    proof (cases "encloses q")
      case True
      with Cons.prems(2,3) have "e = end_of q" by (simp add: encloses_iff)
      moreover from up have "occurs f q" unfolding occurs_walk by blast
      ultimately show ?thesis using c True by (auto intro: scope_to.opened)
    next
      case False
      with Cons.prems(2) have "find opens_scope stk = Some p" by (simp add: encloses_iff)
      from scope_to.passed [OF Cons.IH [OF up this Cons.prems(3)] c False] show ?thesis .
    qed
  qed
qed

lemma declares_names: "declares fl x \<longleftrightarrow> x \<in> set (names_of_fields fl)"
  by (auto simp: declares_def names_of_fields_def)

lemma declares_tparams: "declares fl x \<longleftrightarrow> x \<in> set (TypeParamNames fl)"
  by (cases fl) (auto simp: declares_def TypeParamNames_def field_list_def)

lemma set_recv_add: "set (recv_add i) = {x. \<exists>m. i = Ident m x}"
  by (cases i) (auto simp: recv_add_def)

lemma lists_tparam_peel:
  "lists_tparam e x \<longleftrightarrow>
   x \<in> set (case recv_peel e of
              IndexExpr m y i \<Rightarrow> recv_add i
            | IndexListExpr m y is \<Rightarrow> concat (map recv_add is)
            | _ \<Rightarrow> [])"
proof (induction e rule: recv_peel.induct)
  case (1 e)
  show ?case
  proof (cases e)
    case (StarExpr m y)
    with 1(2) [OF StarExpr] show ?thesis by (subst recv_peel.simps) (simp add: lists_tparam.simps [of "StarExpr m y"])
  next
    case (ParenExpr m y)
    with 1(1) [OF ParenExpr] show ?thesis by (subst recv_peel.simps) (simp add: lists_tparam.simps [of "ParenExpr m y"])
  next
    case (IndexExpr m y i)
    then show ?thesis by (subst recv_peel.simps) (auto simp: lists_tparam.simps [of "IndexExpr m y i"] set_recv_add)
  next
    case (IndexListExpr m y is')
    then show ?thesis by (subst recv_peel.simps) (auto simp: lists_tparam.simps [of "IndexListExpr m y is'"] set_recv_add)
  qed (subst lists_tparam.simps, subst recv_peel.simps, simp)+
qed

lemma recv_tparam_names: "recv_tparam recv x \<longleftrightarrow> x \<in> set (RecvTypeParamNames recv)"
proof (cases "field_list recv")
  case (Cons fd fds)
  then show ?thesis
    by (cases "field_type fd") (simp_all add: recv_tparam_def RecvTypeParamNames_def lists_tparam_peel)
qed (simp add: recv_tparam_def RecvTypeParamNames_def)

section \<open>The collected spans are the scopes\<close>

text \<open>What the collector adds at one node, given the stack of the nodes around it.\<close>

inductive adds :: "node list \<Rightarrow> node \<Rightarrow> string \<Rightarrow> nat \<Rightarrow> nat \<Rightarrow> bool" where
  func_tparam: "x \<in> set (RecvTypeParamNames recv) \<union> set (TypeParamNames (ft_TypeParams ft)) \<Longrightarrow>
    adds stk (FuncDecl m recv name ft body) x (npos m) (nend m)"
| type_tparam: "x \<in> set (TypeParamNames tps) \<Longrightarrow>
    adds stk (TypeSpec m name tps al t) x (npos m) (nend m)"
| func_param: "x \<in> set (names_of_fields recv) \<union> set (names_of_fields (ft_Params ft)) \<union>
      set (names_of_fields (ft_Results ft)) \<Longrightarrow>
    adds stk (FuncDecl m recv name ft (Some body)) x (pos_of body) (end_of body)"
| lit_param: "x \<in> set (names_of_fields (ft_Params ft)) \<union> set (names_of_fields (ft_Results ft)) \<Longrightarrow>
    adds stk (FuncLit m ft body) x (pos_of body) (end_of body)"
| short_var: "Ident m' x \<in> set lhs \<Longrightarrow>
    adds stk (AssignStmt m lhs DEFINE rhs) x (nend m) (scopeEnd stk)"
| range_var: "Ident m' x \<in> set (opt key @ opt val) \<Longrightarrow>
    adds stk (RangeStmt m key val DEFINE e body) x (pos_of body) (end_of body)"
| local_value: "ValueSpec m' ns t vs \<in> set specs \<Longrightarrow> x \<in> set (map ident_name ns) \<Longrightarrow>
    adds stk (DeclStmt m (GenDecl m'' tok specs)) x (nend m') (scopeEnd stk)"
| local_type: "TypeSpec m' n tps al t \<in> set specs \<Longrightarrow>
    adds stk (DeclStmt m (GenDecl m'' tok specs)) (ident_name n) (pos_of n) (scopeEnd stk)"

inductive_simps adds_simps:
  "adds stk (FuncDecl m recv name ft body) x from to"
  "adds stk (TypeSpec m name tps al t) x from to"
  "adds stk (FuncLit m ft body') x from to"
  "adds stk (AssignStmt m lhs tok rhs) x from to"
  "adds stk (RangeStmt m key val tok e body') x from to"
  "adds stk (DeclStmt m d) x from to"

lemma set_bind:
  "set (bind x from to s y) =
   set (s y) \<union> (if x = y \<and> x \<noteq> ''_'' \<and> to \<noteq> 0 then {(from, to)} else {})"
  by (auto simp: bind_def)

lemma set_bind_all:
  "set (bind_all xs from to s y) =
   set (s y) \<union> (if y \<in> set xs \<and> y \<noteq> ''_'' \<and> to \<noteq> 0 then {(from, to)} else {})"
  unfolding bind_all_def
  by (induction xs arbitrary: s) (auto simp: set_bind split: if_splits)

lemma names_of_fields_None [simp]: "names_of_fields None = []"
  by (simp add: names_of_fields_def)

lemma set_bindFields:
  "set (bindFields fl body s y) =
   set (s y) \<union> (case body of None \<Rightarrow> {}
     | Some b \<Rightarrow> if y \<in> set (names_of_fields fl) \<and> y \<noteq> ''_'' \<and> end_of b \<noteq> 0
                then {(pos_of b, end_of b)} else {})"
  by (cases fl; cases body) (simp_all add: bindFields_def set_bind_all)

lemma set_ident_names: "x \<in> set (ident_names es) \<longleftrightarrow> (\<exists>m. Ident m x \<in> set es)"
proof (induction es)
  case Nil
  then show ?case by (simp add: ident_names_def)
next
  case (Cons e es)
  have "ident_names (e # es) = (case e of Ident m x \<Rightarrow> [x] | _ \<Rightarrow> []) @ ident_names es"
    by (simp add: ident_names_def)
  with Cons show ?case by (cases e) auto
qed

text \<open>One step adds the spans its node adds, where they end somewhere.\<close>

definition step_spans :: "node list \<Rightarrow> node \<Rightarrow> string \<Rightarrow> (nat \<times> nat) set" where
  "step_spans stk n y = {(from, to). y \<noteq> ''_'' \<and> to \<noteq> 0 \<and> adds stk n y from to}"

definition spec_adds :: "node \<Rightarrow> string \<Rightarrow> nat \<Rightarrow> bool" where
  "spec_adds sp y from \<longleftrightarrow>
     (case sp of
        ValueSpec m ns t vs \<Rightarrow> y \<in> set (map ident_name ns) \<and> from = nend m
      | TypeSpec m n tps al t \<Rightarrow> y = ident_name n \<and> from = pos_of n
      | _ \<Rightarrow> False)"

lemma set_bind_spec:
  "set (bind_spec end sp s y) =
   set (s y) \<union> {(from, to). y \<noteq> ''_'' \<and> to \<noteq> 0 \<and> to = end \<and> spec_adds sp y from}"
  unfolding bind_spec_def spec_adds_def
  by (cases sp) (auto simp: set_bind_all set_bind split: if_splits)

lemma set_bind_specs:
  "set (fold (bind_spec end) specs s y) =
   set (s y) \<union> {(from, to). y \<noteq> ''_'' \<and> to \<noteq> 0 \<and> to = end \<and> (\<exists>sp\<in>set specs. spec_adds sp y from)}"
proof (induction specs arbitrary: s)
  case Nil
  then show ?case by simp
next
  case (Cons sp specs)
  show ?case unfolding fold_Cons o_apply Cons.IH set_bind_spec by auto
qed

lemma spec_adds_iff:
  "spec_adds sp y from \<longleftrightarrow>
   (\<exists>m ns t vs. sp = ValueSpec m ns t vs \<and> y \<in> set (map ident_name ns) \<and> from = nend m) \<or>
   (\<exists>m n tps al t. sp = TypeSpec m n tps al t \<and> y = ident_name n \<and> from = pos_of n)"
  by (cases sp) (simp_all add: spec_adds_def)

lemma adds_decl:
  "adds stk (DeclStmt m (GenDecl m' tok specs)) y from to \<longleftrightarrow>
   to = scopeEnd stk \<and> (\<exists>sp\<in>set specs. spec_adds sp y from)"
  (is "?l \<longleftrightarrow> ?r")
proof
  assume ?l
  then show ?r
  proof cases
    case (local_value m' ns t vs)
    then have "spec_adds (ValueSpec m' ns t vs) y from" by (simp add: spec_adds_def)
    with local_value show ?thesis by blast
  next
    case (local_type m' n tps al t)
    then have "spec_adds (TypeSpec m' n tps al t) y from" by (simp add: spec_adds_def)
    with local_type show ?thesis by blast
  qed
next
  assume ?r
  then show ?l unfolding spec_adds_iff by (elim conjE bexE disjE exE) (simp_all, (rule local_value local_type; simp)+)
qed

lemma adds_no_decl:
  "(\<And>m' tok specs. d \<noteq> GenDecl m' tok specs) \<Longrightarrow> \<not> adds stk (DeclStmt m d) y from to"
  unfolding adds_simps by blast

lemma set_collect: "set (collect stk n s y) = set (s y) \<union> step_spans stk n y"
proof (cases n)
  case (FuncDecl m recv name ft body)
  then show ?thesis
    by (cases body)
      (auto simp: collect_def step_spans_def adds_simps set_bind_all set_bindFields split: if_splits)
next
  case (DeclStmt m d)
  then show ?thesis
    by (cases d) (auto simp: collect_def step_spans_def adds_decl set_bind_specs adds_no_decl)
next
  case (FuncLit m ft body)
  then show ?thesis
    by (auto simp: collect_def step_spans_def adds_simps set_bindFields split: if_splits)
next
  case (TypeSpec m name tps al t)
  then show ?thesis
    by (auto simp: collect_def step_spans_def adds_simps set_bind_all split: if_splits)
next
  case (AssignStmt m lhs tok rhs)
  then show ?thesis
    by (auto simp: collect_def step_spans_def adds_simps set_bind_all set_ident_names split: if_splits)
next
  case (RangeStmt m key val tok e body)
  then show ?thesis
    by (auto simp: collect_def step_spans_def adds_simps set_bind_all set_ident_names split: if_splits)
qed (simp_all add: collect_def step_spans_def adds.simps)

lemma set_fold_collect:
  "set (fold (\<lambda>(stk, n). collect stk n) w s y) = set (s y) \<union> (\<Union>(stk, n)\<in>set w. step_spans stk n y)"
  by (induction w arbitrary: s) (auto simp: set_collect)

lemma NewLocalScopes_fold:
  "NewLocalScopes f = fold (\<lambda>(stk, n). collect stk n) (walk [] f) (\<lambda>_. [])"
  unfolding NewLocalScopes_def
  by (subst inspect_stack [where act = collect]) (simp_all add: scope_pre_def scope_post_def)

text \<open>Over the whole traversal, what the nodes add is what the rules bind.\<close>

lemma adds_binds:
  assumes "(stk, n) \<in> set (walk [] f)" and "adds stk n x from to" and "to \<noteq> 0"
  shows "binds f x from to"
proof -
  have here: "occurs f n" using assms(1) unfolding occurs_walk by blast
  have around: "scope_to f n (scopeEnd stk)" if "to = scopeEnd stk"
    using assms(1,3) that unfolding scope_to_walk scopeEnd_def by (auto split: option.splits)
  from assms(2) show ?thesis
  proof cases
    case (func_tparam recv ft m name body)
    with here show ?thesis
      by (auto intro: binds.func_tparam simp: recv_tparam_names declares_tparams)
  next
    case (type_tparam tps m name al t)
    with here show ?thesis by (auto intro: binds.type_tparam simp: declares_tparams)
  next
    case (func_param recv ft m name body)
    with here show ?thesis by (auto intro: binds.func_param simp: declares_names)
  next
    case (lit_param ft m body)
    with here show ?thesis by (auto intro: binds.lit_param simp: declares_names)
  next
    case (short_var m' lhs m rhs)
    with around show ?thesis by (auto intro: binds.short_var)
  next
    case (range_var m' key val m e body)
    with here show ?thesis by (cases key; cases val) (auto intro: binds.range_var)
  next
    case (local_value m' ns t vs specs m m'' tok)
    with around show ?thesis by (auto intro: binds.local_value)
  next
    case (local_type m' nm tps al t specs m m'' tok)
    with around show ?thesis by (auto intro: binds.local_type)
  qed
qed

lemma scope_to_end:
  assumes "scope_to f n e"
  obtains stk where "(stk, n) \<in> set (walk [] f)" "e = scopeEnd stk"
  using assms unfolding scope_to_walk scopeEnd_def by (auto split: option.splits)

lemma binds_adds:
  assumes "binds f x from to"
  shows "\<exists>stk n. (stk, n) \<in> set (walk [] f) \<and> adds stk n x from to"
  using assms
proof cases
  case (func_tparam m recv name ft body)
  then show ?thesis
    unfolding occurs_walk recv_tparam_names declares_tparams by (auto intro: adds.func_tparam)
next
  case (type_tparam m name tps al t)
  then show ?thesis unfolding occurs_walk declares_tparams by (auto intro: adds.type_tparam)
next
  case (func_param m recv name ft body)
  then show ?thesis unfolding occurs_walk declares_names by (auto intro: adds.func_param)
next
  case (lit_param m ft body)
  then show ?thesis unfolding occurs_walk declares_names by (auto intro: adds.lit_param)
next
  case (short_var m lhs rhs m')
  from short_var(2) obtain stk where "(stk, AssignStmt m lhs DEFINE rhs) \<in> set (walk [] f)" "to = scopeEnd stk"
    by (rule scope_to_end)
  with short_var adds.short_var show ?thesis by blast
next
  case (range_var m key val r body m')
  then have "Ident m' x \<in> set (opt key @ opt val)" by auto
  with range_var(1,2) adds.range_var [OF this] range_var(3) show ?thesis unfolding occurs_walk by blast
next
  case (local_value m m'' tok specs m' ns t vs)
  from local_value(2) obtain stk where "(stk, DeclStmt m (GenDecl m'' tok specs)) \<in> set (walk [] f)" "to = scopeEnd stk"
    by (rule scope_to_end)
  with local_value adds.local_value [of m' ns t vs specs x stk m m'' tok] show ?thesis by auto
next
  case (local_type m m'' tok specs m' nm tps al t)
  from local_type(3) obtain stk where "(stk, DeclStmt m (GenDecl m'' tok specs)) \<in> set (walk [] f)" "to = scopeEnd stk"
    by (rule scope_to_end)
  with local_type adds.local_type [of m' nm tps al t specs stk m m'' tok] show ?thesis by blast
qed

text \<open>
  C1: the spans the collector records for a name are exactly the scopes the rules of the comment give it: looking a
  position up finds a span iff some part of the file binds the name around that position, up to the end of the innermost
  enclosing block, \<open>if\<close>, \<open>for\<close>, \<open>switch\<close>, \<open>select\<close> or clause.
\<close>

theorem At_iff: "At (NewLocalScopes f) x pos \<longleftrightarrow> in_scope f x pos"
proof -
  have "At (NewLocalScopes f) x pos \<longleftrightarrow>
      (\<exists>(from, to) \<in> (\<Union>(stk, n)\<in>set (walk [] f). step_spans stk n x). from \<le> pos \<and> pos < to)"
    by (simp add: At_def list_ex_iff NewLocalScopes_fold set_fold_collect)
  also have "\<dots> \<longleftrightarrow> x \<noteq> ''_'' \<and>
      (\<exists>stk n from to. (stk, n) \<in> set (walk [] f) \<and> adds stk n x from to \<and> from \<le> pos \<and> pos < to)"
    by (fastforce simp: step_spans_def)
  also have "\<dots> \<longleftrightarrow> in_scope f x pos"
    unfolding in_scope_def using adds_binds binds_adds by (metis not_less_zero)
  finally show ?thesis .
qed

end
