(* ===== verification/Index.thy ===== *)
theory Index
  imports Syntax
begin

text \<open>
  Package \<open>index\<close>: the declaration table of a package. \<open>value_specs\<close> is \<open>ValueSpecs\<close>
  (\<open>index/value_specs.go\<close>), the implicit repetition of constant expressions; \<open>build_index\<close> is
  \<open>build\<close> (\<open>index/index.go\<close>), strict for \<open>Build\<close> and lenient for \<open>BuildLenient\<close>.
\<close>

section \<open>Effective value specs\<close>

record effective_spec =
  es_Spec :: node
  es_Type :: "node option"
  es_Values :: "node list"

definition vs_Names :: "node \<Rightarrow> node list" where
  "vs_Names sp = (case sp of ValueSpec m ns t vs \<Rightarrow> ns | _ \<Rightarrow> [])"

definition vs_Type :: "node \<Rightarrow> node option" where
  "vs_Type sp = (case sp of ValueSpec m ns t vs \<Rightarrow> t | _ \<Rightarrow> None)"

definition vs_Values :: "node \<Rightarrow> node list" where
  "vs_Values sp = (case sp of ValueSpec m ns t vs \<Rightarrow> vs | _ \<Rightarrow> [])"

lemma vs_simps [simp]:
  "vs_Names (ValueSpec m ns t vs) = ns"
  "vs_Type (ValueSpec m ns t vs) = t"
  "vs_Values (ValueSpec m ns t vs) = vs"
  by (simp_all add: vs_Names_def vs_Type_def vs_Values_def)

text \<open>The loop over the specs, with \<open>prevValues\<close> and \<open>prevType\<close>.\<close>

fun value_specs_from ::
    "token \<Rightarrow> nat \<Rightarrow> node list \<Rightarrow> node option \<Rightarrow> node list \<Rightarrow> (nat \<times> effective_spec) list" where
  "value_specs_from tok i prevValues prevType [] = []"
| "value_specs_from tok i prevValues prevType (spec # specs) =
     (let values = vs_Values spec; typ = vs_Type spec in
      if tok = CONST_T then
        if values = [] then
          (i, \<lparr>es_Spec = spec, es_Type = prevType, es_Values = prevValues\<rparr>)
            # value_specs_from tok (Suc i) prevValues prevType specs
        else
          (i, \<lparr>es_Spec = spec, es_Type = typ, es_Values = values\<rparr>)
            # value_specs_from tok (Suc i) values typ specs
      else
        (i, \<lparr>es_Spec = spec, es_Type = typ, es_Values = values\<rparr>)
          # value_specs_from tok (Suc i) prevValues prevType specs)"

definition value_specs :: "node \<Rightarrow> (nat \<times> effective_spec) list" where
  "value_specs d =
     (case d of
        GenDecl m tok specs \<Rightarrow>
          if tok \<noteq> VAR_T \<and> tok \<noteq> CONST_T then [] else value_specs_from tok 0 [] None specs
      | _ \<Rightarrow> [])"

section \<open>Declarations and the table\<close>

datatype decl_kind = FuncKind | VarKind | ConstKind | TypeKind

record decl =
  d_Kind :: decl_kind
  d_Name :: string
  d_File :: src_file
  d_Func :: "node option"
  d_Gen :: "node option"
  d_Spec :: "node option"
  d_Idx :: nat
  d_NameIdx :: nat
  d_Inherited :: "node list"
  d_InheritedType :: "node option"
  d_Pos :: nat

record type_info =
  ti_Decl :: "decl option"
  ti_Methods :: "string \<rightharpoonup> decl"

record index =
  ix_Decls :: "decl list"
  ix_Methods :: "decl list"
  ix_Funcs :: "string \<rightharpoonup> decl"
  ix_Types :: "string \<rightharpoonup> type_info"
  ix_Vars :: "string \<rightharpoonup> decl"
  ix_Consts :: "string \<rightharpoonup> decl"
  ix_Inits :: "decl list"
  ix_LocalGens :: "nat \<rightharpoonup> nat"

text \<open>\<open>LocalGen\<close>: 0 for a type declaration the table does not number.\<close>

definition LocalGen :: "index \<Rightarrow> node \<Rightarrow> nat" where
  "LocalGen ix ts = (case ix_LocalGens ix (id_of ts) of Some g \<Rightarrow> g | None \<Rightarrow> 0)"

datatype index_error =
    RedeclError (re_Name: string) (re_Pos: nat) (re_PrevPos: nat) (re_Method: bool)
  | UnexpectedToken token

definition redecl_message :: "index_error \<Rightarrow> string" where
  "redecl_message e = re_Name e @ '' redeclared in this block''"

text \<open>\<open>ReceiverTypeName\<close>: the loop down the receiver's type.\<close>

function base_type_name :: "node \<Rightarrow> string" where
  "base_type_name t =
     (case t of
        Ident m x \<Rightarrow> x
      | StarExpr m x \<Rightarrow> base_type_name x
      | IndexExpr m x i \<Rightarrow> base_type_name x
      | IndexListExpr m x is \<Rightarrow> base_type_name x
      | _ \<Rightarrow> [])"
  by pat_completeness auto
termination
  by (relation "measure size") auto

declare base_type_name.simps [simp del]

definition ReceiverTypeName :: "node option \<Rightarrow> string" where
  "ReceiverTypeName recv =
     (case field_list recv of
        [] \<Rightarrow> []
      | fd # _ \<Rightarrow> (case field_type fd of None \<Rightarrow> [] | Some t \<Rightarrow> base_type_name t))"

definition fd_Recv :: "node \<Rightarrow> node option" where
  "fd_Recv d = (case d of FuncDecl m recv name ft body \<Rightarrow> recv | _ \<Rightarrow> None)"

definition fd_Name :: "node \<Rightarrow> node" where
  "fd_Name d = (case d of FuncDecl m recv name ft body \<Rightarrow> name | _ \<Rightarrow> d)"

lemma fd_simps [simp]:
  "fd_Recv (FuncDecl m recv name ft body) = recv"
  "fd_Name (FuncDecl m recv name ft body) = name"
  by (simp_all add: fd_Recv_def fd_Name_def)

section \<open>Building the table\<close>

record build_state =
  bs_ix :: index
  bs_methodDecls :: "decl list"
  bs_declared :: "string \<rightharpoonup> nat"
  bs_gen :: nat

definition empty_index :: index where
  "empty_index = \<lparr>ix_Decls = [], ix_Methods = [], ix_Funcs = Map.empty, ix_Types = Map.empty,
     ix_Vars = Map.empty, ix_Consts = Map.empty, ix_Inits = [], ix_LocalGens = Map.empty\<rparr>"

definition init_build :: build_state where
  "init_build = \<lparr>bs_ix = empty_index, bs_methodDecls = [], bs_declared = Map.empty, bs_gen = 0\<rparr>"

text \<open>Numbering the non-alias type declarations inside a function body.\<close>

definition number_node :: "node \<Rightarrow> nat \<times> (nat \<rightharpoonup> nat) \<Rightarrow> nat \<times> (nat \<rightharpoonup> nat)" where
  "number_node n s =
     (case n of
        TypeSpec m name tps al t \<Rightarrow>
          if al then s else (fst s + 1, (snd s)(nid m \<mapsto> fst s + 1))
      | _ \<Rightarrow> s)"

definition number_body :: "node \<Rightarrow> nat \<times> (nat \<rightharpoonup> nat) \<Rightarrow> nat \<times> (nat \<rightharpoonup> nat)" where
  "number_body body s = inspect (\<lambda>s n. (True, number_node n s)) (\<lambda>s. s) body s"

definition number_decl :: "node \<Rightarrow> build_state \<Rightarrow> build_state" where
  "number_decl gd st =
     (case gd of
        FuncDecl m recv name ft (Some body) \<Rightarrow>
          let (gen, gens) = number_body body (bs_gen st, ix_LocalGens (bs_ix st))
          in st\<lparr>bs_gen := gen, bs_ix := (bs_ix st)\<lparr>ix_LocalGens := gens\<rparr>\<rparr>
      | _ \<Rightarrow> st)"

text \<open>One name of the package block; \<open>init\<close> functions never get here.\<close>

definition declare_name ::
    "bool \<Rightarrow> string \<Rightarrow> nat \<Rightarrow> build_state \<Rightarrow> index_error + build_state" where
  "declare_name lenient name pos st =
     (if lenient \<or> name = ''_'' then Inr st
      else case bs_declared st name of
        Some prev \<Rightarrow> Inl (RedeclError name pos prev False)
      | None \<Rightarrow> Inr (st\<lparr>bs_declared := (bs_declared st)(name \<mapsto> pos)\<rparr>))"

definition func_decl_of :: "src_file \<Rightarrow> node \<Rightarrow> decl" where
  "func_decl_of f d =
     \<lparr>d_Kind = FuncKind, d_Name = ident_name (fd_Name d), d_File = f, d_Func = Some d, d_Gen = None,
      d_Spec = None, d_Idx = 0, d_NameIdx = 0, d_Inherited = [], d_InheritedType = None,
      d_Pos = pos_of d\<rparr>"

definition add_decl :: "decl \<Rightarrow> build_state \<Rightarrow> build_state" where
  "add_decl dl st = st\<lparr>bs_ix := (bs_ix st)\<lparr>ix_Decls := ix_Decls (bs_ix st) @ [dl]\<rparr>\<rparr>"

definition add_func :: "bool \<Rightarrow> src_file \<Rightarrow> node \<Rightarrow> build_state \<Rightarrow> index_error + build_state" where
  "add_func lenient f d st =
     (let dl = func_decl_of f d in
      if fd_Recv d \<noteq> None then Inr (st\<lparr>bs_methodDecls := bs_methodDecls st @ [dl]\<rparr>)
      else
        let st1 = add_decl dl st in
        if d_Name dl = ''init''
        then Inr (st1\<lparr>bs_ix := (bs_ix st1)\<lparr>ix_Inits := ix_Inits (bs_ix st1) @ [dl]\<rparr>\<rparr>)
        else bind_err (declare_name lenient (d_Name dl) (pos_of (fd_Name d)) st1)
          (\<lambda>st2. Inr (st2\<lparr>bs_ix :=
             (bs_ix st2)\<lparr>ix_Funcs := (ix_Funcs (bs_ix st2))(d_Name dl \<mapsto> dl)\<rparr>\<rparr>)))"

definition value_decl_of ::
    "src_file \<Rightarrow> node \<Rightarrow> token \<Rightarrow> nat \<Rightarrow> effective_spec \<Rightarrow> nat \<Rightarrow> node \<Rightarrow> decl" where
  "value_decl_of f d tok i eff j name =
     (let inherits = (tok = CONST_T \<and> vs_Values (es_Spec eff) = []) in
      \<lparr>d_Kind = (if tok = CONST_T then ConstKind else VarKind), d_Name = ident_name name,
       d_File = f, d_Func = None, d_Gen = Some d, d_Spec = Some (es_Spec eff), d_Idx = i,
       d_NameIdx = j,
       d_Inherited = (if inherits then es_Values eff else []),
       d_InheritedType = (if inherits then es_Type eff else None),
       d_Pos = pos_of name\<rparr>)"

text \<open>The names of a \<open>var\<close> or \<open>const\<close> group with their indices, in the order of the loops.\<close>

definition value_names :: "node \<Rightarrow> (nat \<times> effective_spec \<times> nat \<times> node) list" where
  "value_names d =
     concat (map (\<lambda>(i, eff).
         map (\<lambda>(j, name). (i, eff, j, name)) (List.enumerate 0 (vs_Names (es_Spec eff))))
       (value_specs d))"

definition add_value ::
    "bool \<Rightarrow> src_file \<Rightarrow> node \<Rightarrow> token \<Rightarrow> nat \<times> effective_spec \<times> nat \<times> node \<Rightarrow> build_state \<Rightarrow>
     index_error + build_state" where
  "add_value lenient f d tok v st =
     (case v of (i, eff, j, name) \<Rightarrow>
      let dl = value_decl_of f d tok i eff j name in
      bind_err (declare_name lenient (d_Name dl) (d_Pos dl) (add_decl dl st))
        (\<lambda>st2. Inr (st2\<lparr>bs_ix :=
           (if d_Kind dl = VarKind
            then (bs_ix st2)\<lparr>ix_Vars := (ix_Vars (bs_ix st2))(d_Name dl \<mapsto> dl)\<rparr>
            else (bs_ix st2)\<lparr>ix_Consts := (ix_Consts (bs_ix st2))(d_Name dl \<mapsto> dl)\<rparr>)\<rparr>)))"

definition ts_Name :: "node \<Rightarrow> node" where
  "ts_Name sp = (case sp of TypeSpec m n tps al t \<Rightarrow> n | _ \<Rightarrow> sp)"

lemma ts_Name_simp [simp]: "ts_Name (TypeSpec m n tps al t) = n"
  by (simp add: ts_Name_def)

definition type_decl_of :: "src_file \<Rightarrow> node \<Rightarrow> nat \<Rightarrow> node \<Rightarrow> decl" where
  "type_decl_of f d i ts =
     \<lparr>d_Kind = TypeKind, d_Name = ident_name (ts_Name ts), d_File = f, d_Func = None,
      d_Gen = Some d, d_Spec = Some ts, d_Idx = i, d_NameIdx = 0, d_Inherited = [],
      d_InheritedType = None, d_Pos = pos_of ts\<rparr>"

definition add_type ::
    "bool \<Rightarrow> src_file \<Rightarrow> node \<Rightarrow> nat \<times> node \<Rightarrow> build_state \<Rightarrow> index_error + build_state" where
  "add_type lenient f d its st =
     (let dl = type_decl_of f d (fst its) (snd its) in
      bind_err (declare_name lenient (d_Name dl) (pos_of (ts_Name (snd its))) (add_decl dl st))
        (\<lambda>st2. Inr (st2\<lparr>bs_ix := (bs_ix st2)\<lparr>ix_Types := (ix_Types (bs_ix st2))
           (d_Name dl \<mapsto> \<lparr>ti_Decl = Some dl, ti_Methods = Map.empty\<rparr>)\<rparr>\<rparr>)))"

definition add_top_decl ::
    "bool \<Rightarrow> src_file \<Rightarrow> node \<Rightarrow> build_state \<Rightarrow> index_error + build_state" where
  "add_top_decl lenient f gd st0 =
     (let st = number_decl gd st0 in
      case gd of
        FuncDecl m recv name ft body \<Rightarrow> add_func lenient f gd st
      | GenDecl m tok specs \<Rightarrow>
          if tok = VAR_T \<or> tok = CONST_T then fold_err (add_value lenient f gd tok) (value_names gd) st
          else if tok = TYPE_T then fold_err (add_type lenient f gd) (List.enumerate 0 specs) st
          else if tok = IMPORT_T then Inr st
          else Inl (UnexpectedToken tok)
      | _ \<Rightarrow> Inr st)"

definition add_file :: "bool \<Rightarrow> src_file \<Rightarrow> build_state \<Rightarrow> index_error + build_state" where
  "add_file lenient f st = fold_err (add_top_decl lenient f) (file_decls (sf_AST f)) st"

text \<open>Attaching the methods to their receiver types.\<close>

definition attach_method :: "bool \<Rightarrow> decl \<Rightarrow> build_state \<Rightarrow> index_error + build_state" where
  "attach_method lenient md st =
     (case d_Func md of
        None \<Rightarrow> Inr st
      | Some fd \<Rightarrow>
         let tname = ReceiverTypeName (fd_Recv fd) in
         if tname = [] then Inr st
         else
           let td = (case ix_Types (bs_ix st) tname of
                       Some td \<Rightarrow> td
                     | None \<Rightarrow> \<lparr>ti_Decl = None, ti_Methods = Map.empty\<rparr>);
               key = tname @ ''.'' @ d_Name md;
               attach = (\<lambda>st'. st'\<lparr>bs_ix := (bs_ix st')\<lparr>ix_Types := (ix_Types (bs_ix st'))
                 (tname \<mapsto> td\<lparr>ti_Methods := (ti_Methods td)(d_Name md \<mapsto> md)\<rparr>)\<rparr>\<rparr>)
           in if lenient then Inr (attach st)
              else case bs_declared st key of
                Some prev \<Rightarrow> Inl (RedeclError key (pos_of (fd_Name fd)) prev True)
              | None \<Rightarrow>
                  Inr (attach (st\<lparr>bs_declared := (bs_declared st)(key \<mapsto> pos_of (fd_Name fd))\<rparr>)))"

definition build_index :: "src_file list \<Rightarrow> bool \<Rightarrow> index_error + index" where
  "build_index files lenient =
     bind_err (fold_err (add_file lenient) files init_build) (\<lambda>st.
     bind_err (fold_err (attach_method lenient) (bs_methodDecls st) st) (\<lambda>st'.
       Inr ((bs_ix st')\<lparr>ix_Methods := bs_methodDecls st'\<rparr>)))"

definition Build :: "src_file list \<Rightarrow> index_error + index" where
  "Build files = build_index files False"

definition BuildLenient :: "src_file list \<Rightarrow> index_error + index" where
  "BuildLenient files = build_index files True"


section \<open>What the table holds\<close>

text \<open>The declarations of the files, read off the syntax, in source order.\<close>

definition top_decls :: "src_file \<Rightarrow> node \<Rightarrow> decl list" where
  "top_decls f gd =
     (case gd of
        FuncDecl m recv name ft body \<Rightarrow> if recv = None then [func_decl_of f gd] else []
      | GenDecl m tok specs \<Rightarrow>
          if tok = VAR_T \<or> tok = CONST_T then map (\<lambda>(i, eff, j, name). value_decl_of f gd tok i eff j name) (value_names gd)
          else if tok = TYPE_T then map (\<lambda>(i, ts). type_decl_of f gd i ts) (List.enumerate 0 specs)
          else []
      | _ \<Rightarrow> [])"

definition method_decls :: "src_file \<Rightarrow> node \<Rightarrow> decl list" where
  "method_decls f gd =
     (case gd of
        FuncDecl m recv name ft body \<Rightarrow> if recv = None then [] else [func_decl_of f gd]
      | _ \<Rightarrow> [])"

definition token_ok :: "node \<Rightarrow> bool" where
  "token_ok gd =
     (case gd of
        GenDecl m tok specs \<Rightarrow> tok \<in> {VAR_T, CONST_T, TYPE_T, IMPORT_T}
      | _ \<Rightarrow> True)"

definition all_decls :: "src_file list \<Rightarrow> decl list" where
  "all_decls files = concat (map (\<lambda>f. concat (map (top_decls f) (file_decls (sf_AST f)))) files)"

definition all_methods :: "src_file list \<Rightarrow> decl list" where
  "all_methods files = concat (map (\<lambda>f. concat (map (method_decls f) (file_decls (sf_AST f)))) files)"

definition tokens_ok :: "src_file list \<Rightarrow> bool" where
  "tokens_ok files \<longleftrightarrow> (\<forall>f\<in>set files. \<forall>gd\<in>set (file_decls (sf_AST f)). token_ok gd)"

definition is_init :: "decl \<Rightarrow> bool" where
  "is_init d \<longleftrightarrow> d_Kind d = FuncKind \<and> d_Name d = ''init''"

text \<open>The names a package block may hold once: all but \<open>_\<close> and the \<open>init\<close> functions.\<close>

definition block_names :: "decl list \<Rightarrow> string list" where
  "block_names ds = map d_Name (filter (\<lambda>d. d_Name d \<noteq> ''_'' \<and> \<not> is_init d) ds)"

definition entry :: "index \<Rightarrow> string \<Rightarrow> decl_kind \<Rightarrow> decl option" where
  "entry ix n k =
     (case k of
        FuncKind \<Rightarrow> ix_Funcs ix n
      | VarKind \<Rightarrow> ix_Vars ix n
      | ConstKind \<Rightarrow> ix_Consts ix n
      | TypeKind \<Rightarrow> (case ix_Types ix n of None \<Rightarrow> None | Some ti \<Rightarrow> ti_Decl ti))"

definition record_entry ::
    "decl \<Rightarrow> (string \<Rightarrow> decl_kind \<Rightarrow> decl option) \<Rightarrow> string \<Rightarrow> decl_kind \<Rightarrow> decl option" where
  "record_entry d e = (if is_init d then e else e(d_Name d := (e (d_Name d))(d_Kind d := Some d)))"

text \<open>What recording the declarations \<open>ds\<close> and the methods \<open>ms\<close> does to the state.\<close>

definition recorded :: "bool \<Rightarrow> decl list \<Rightarrow> decl list \<Rightarrow> build_state \<Rightarrow> build_state \<Rightarrow> bool" where
  "recorded lenient ds ms st st' \<longleftrightarrow>
     ix_Decls (bs_ix st') = ix_Decls (bs_ix st) @ ds \<and>
     bs_methodDecls st' = bs_methodDecls st @ ms \<and>
     entry (bs_ix st') = fold record_entry ds (entry (bs_ix st)) \<and>
     dom (bs_declared st') =
       dom (bs_declared st) \<union> (if lenient then {} else set (block_names ds))"

definition may_record :: "bool \<Rightarrow> decl list \<Rightarrow> build_state \<Rightarrow> bool" where
  "may_record lenient ds st \<longleftrightarrow>
     lenient \<or> (distinct (block_names ds) \<and> set (block_names ds) \<inter> dom (bs_declared st) = {})"

lemma block_names_simps [simp]:
  "block_names [] = []"
  "block_names (d # ds) =
     (if d_Name d \<noteq> ''_'' \<and> \<not> is_init d then [d_Name d] else []) @ block_names ds"
  "block_names (ds @ es) = block_names ds @ block_names es"
  by (simp_all add: block_names_def)

lemma recorded_Nil [simp]: "recorded lenient [] [] st st"
  by (simp add: recorded_def)

lemma recorded_append:
  "recorded lenient ds ms st st1 \<Longrightarrow> recorded lenient es ns st1 st2 \<Longrightarrow>
   recorded lenient (ds @ es) (ms @ ns) st st2"
  by (auto simp: recorded_def)

lemma may_record_append:
  "recorded lenient ds ms st st1 \<Longrightarrow>
   may_record lenient (ds @ es) st \<longleftrightarrow> may_record lenient ds st \<and> may_record lenient es st1"
  by (auto simp: recorded_def may_record_def)

lemma may_record_Nil [simp]: "may_record lenient [] st"
  by (simp add: may_record_def)

text \<open>
  The contract of the operations that record declarations: an operation on \<open>x\<close> succeeds exactly
  when the names it declares are new, and then records them and its methods. Loops over such operations meet it.
\<close>

locale recorder =
  fixes lenient :: bool
    and step :: "'a \<Rightarrow> build_state \<Rightarrow> index_error + build_state"
    and decls :: "'a \<Rightarrow> decl list"
    and methods :: "'a \<Rightarrow> decl list"
    and ok :: "'a \<Rightarrow> bool"
  assumes step_ok: "(\<exists>st'. step x st = Inr st') \<longleftrightarrow> ok x \<and> may_record lenient (decls x) st"
    and step_recorded: "step x st = Inr st' \<Longrightarrow> recorded lenient (decls x) (methods x) st st'"
begin

lemma loop_recorded:
  "fold_err step xs st = Inr st' \<Longrightarrow> recorded lenient (concat (map decls xs)) (concat (map methods xs)) st st'"
proof (induction xs arbitrary: st)
  case Nil
  then show ?case by simp
next
  case (Cons x xs)
  then obtain st1 where "step x st = Inr st1" "fold_err step xs st1 = Inr st'"
    by (auto simp: bind_err_Inr)
  then show ?case
    using Cons.IH step_recorded recorded_append by fastforce
qed

lemma loop_ok:
  "(\<exists>st'. fold_err step xs st = Inr st') \<longleftrightarrow>
   (\<forall>x\<in>set xs. ok x) \<and> may_record lenient (concat (map decls xs)) st"
proof (induction xs arbitrary: st)
  case Nil
  then show ?case by simp
next
  case (Cons x xs)
  show ?case
  proof (cases "step x st")
    case (Inl e)
    then have "\<not> (ok x \<and> may_record lenient (decls x) st)"
      using step_ok [of x st] by auto
    moreover have "may_record lenient (decls x) st"
      if "may_record lenient (decls x @ concat (map decls xs)) st"
      using that by (auto simp: may_record_def)
    ultimately show ?thesis using Inl by auto
  next
    case (Inr st1)
    then have "ok x" "may_record lenient (decls x) st" "recorded lenient (decls x) (methods x) st st1"
      using step_ok [of x st] step_recorded by auto
    with Inr Cons.IH [of st1] show ?thesis by (auto simp: may_record_append)
  qed
qed

end

lemma declare_name_ok:
  "(\<exists>st'. declare_name lenient name pos st = Inr st') \<longleftrightarrow>
   lenient \<or> name = ''_'' \<or> name \<notin> dom (bs_declared st)"
  by (auto simp: declare_name_def split: option.splits)

lemma declare_name_effect:
  assumes "declare_name lenient name pos st = Inr st'"
  shows "bs_ix st' = bs_ix st \<and> bs_methodDecls st' = bs_methodDecls st \<and>
    dom (bs_declared st') =
      dom (bs_declared st) \<union> (if lenient \<or> name = ''_'' then {} else {name})"
  using assms by (auto simp: declare_name_def split: if_splits option.splits)

lemma add_decl_simps [simp]:
  "bs_methodDecls (add_decl d st) = bs_methodDecls st"
  "bs_declared (add_decl d st) = bs_declared st"
  "ix_Decls (bs_ix (add_decl d st)) = ix_Decls (bs_ix st) @ [d]"
  "entry (bs_ix (add_decl d st)) = entry (bs_ix st)"
  by (auto simp: add_decl_def entry_def fun_eq_iff split: decl_kind.splits)

lemma entry_updates [simp]:
  "entry (ix\<lparr>ix_Funcs := (ix_Funcs ix)(n \<mapsto> d)\<rparr>) = (entry ix)(n := (entry ix n)(FuncKind := Some d))"
  "entry (ix\<lparr>ix_Vars := (ix_Vars ix)(n \<mapsto> d)\<rparr>) = (entry ix)(n := (entry ix n)(VarKind := Some d))"
  "entry (ix\<lparr>ix_Consts := (ix_Consts ix)(n \<mapsto> d)\<rparr>) = (entry ix)(n := (entry ix n)(ConstKind := Some d))"
  "entry (ix\<lparr>ix_Types := (ix_Types ix)(n \<mapsto> ti)\<rparr>) = (entry ix)(n := (entry ix n)(TypeKind := ti_Decl ti))"
  "entry (ix\<lparr>ix_Inits := is\<rparr>) = entry ix"
  "entry (ix\<lparr>ix_LocalGens := gs\<rparr>) = entry ix"
  "entry (ix\<lparr>ix_Methods := ms\<rparr>) = entry ix"
  by (auto simp: entry_def fun_eq_iff split: decl_kind.splits)

text \<open>The common shape of recording one declaration.\<close>

lemma declare_then:
  assumes res: "bind_err (declare_name lenient (d_Name dl) pos (add_decl dl st)) (\<lambda>st2. Inr (g st2)) = Inr st'"
    and no_init: "\<not> is_init dl"
    and g_ix: "\<And>s. entry (bs_ix (g s)) = record_entry dl (entry (bs_ix s))"
    and g_decls: "\<And>s. ix_Decls (bs_ix (g s)) = ix_Decls (bs_ix s)"
    and g_rest: "\<And>s. bs_methodDecls (g s) = bs_methodDecls s" "\<And>s. bs_declared (g s) = bs_declared s"
  shows "recorded lenient [dl] [] st st'"
proof -
  from res obtain s where s: "declare_name lenient (d_Name dl) pos (add_decl dl st) = Inr s" "st' = g s"
    by (auto simp: bind_err_Inr)
  with declare_name_effect [OF s(1)] no_init show ?thesis
    by (auto simp: recorded_def g_ix g_decls g_rest split: if_splits)
qed

lemma declare_then_ok:
  "\<not> is_init dl \<Longrightarrow>
   (\<exists>st'. bind_err (declare_name lenient (d_Name dl) pos (add_decl dl st)) (\<lambda>st2. Inr (g st2)) = Inr st') \<longleftrightarrow>
   may_record lenient [dl] st"
  using declare_name_ok [of lenient "d_Name dl" pos "add_decl dl st"]
  by (auto simp: bind_err_Inr may_record_def)

lemma value_decl_kind:
  "d_Kind (value_decl_of f d tok i eff j name) = (if tok = CONST_T then ConstKind else VarKind)"
  by (simp add: value_decl_of_def Let_def)

lemma not_init_kind: "d_Kind d \<noteq> FuncKind \<Longrightarrow> \<not> is_init d"
  by (simp add: is_init_def)

interpretation value_rec: recorder lenient "add_value lenient f d tok"
    "\<lambda>(i, eff, j, name). [value_decl_of f d tok i eff j name]" "\<lambda>_. []" "\<lambda>_. True" for lenient f d tok
proof
  fix x :: "nat \<times> effective_spec \<times> nat \<times> node" and st
  obtain i eff j name where x: "x = (i, eff, j, name)" by (cases x)
  show "(\<exists>st'. add_value lenient f d tok x st = Inr st') \<longleftrightarrow>
      True \<and> may_record lenient (case x of (i, eff, j, name) \<Rightarrow> [value_decl_of f d tok i eff j name]) st"
    unfolding x add_value_def prod.case Let_def
    by (subst declare_then_ok) (simp_all add: not_init_kind value_decl_kind)
next
  fix x :: "nat \<times> effective_spec \<times> nat \<times> node" and st st'
  obtain i eff j name where x: "x = (i, eff, j, name)" by (cases x)
  assume "add_value lenient f d tok x st = Inr st'"
  then show "recorded lenient (case x of (i, eff, j, name) \<Rightarrow> [value_decl_of f d tok i eff j name]) [] st st'"
    unfolding x add_value_def prod.case Let_def
    by (rule declare_then) (simp_all add: not_init_kind value_decl_kind record_entry_def)
qed

interpretation type_rec: recorder lenient "add_type lenient f d"
    "\<lambda>(i, ts). [type_decl_of f d i ts]" "\<lambda>_. []" "\<lambda>_. True" for lenient f d
proof
  fix x :: "nat \<times> node" and st
  show "(\<exists>st'. add_type lenient f d x st = Inr st') \<longleftrightarrow>
      True \<and> may_record lenient (case x of (i, ts) \<Rightarrow> [type_decl_of f d i ts]) st"
    unfolding add_type_def Let_def
    by (subst declare_then_ok) (simp_all add: not_init_kind type_decl_of_def split: prod.splits)
next
  fix x :: "nat \<times> node" and st st'
  assume "add_type lenient f d x st = Inr st'"
  then have "recorded lenient [type_decl_of f d (fst x) (snd x)] [] st st'"
    unfolding add_type_def Let_def
    by (rule declare_then) (simp_all add: not_init_kind type_decl_of_def record_entry_def)
  then show "recorded lenient (case x of (i, ts) \<Rightarrow> [type_decl_of f d i ts]) [] st st'"
    by (simp add: case_prod_beta)
qed

lemma add_func_ok:
  "(\<exists>st'. add_func lenient f d st = Inr st') \<longleftrightarrow>
   may_record lenient (if fd_Recv d = None then [func_decl_of f d] else []) st"
proof (cases "fd_Recv d = None \<and> d_Name (func_decl_of f d) \<noteq> ''init''")
  case True
  then have "\<not> is_init (func_decl_of f d)" by (simp add: is_init_def)
  from declare_then_ok [OF this] True show ?thesis by (simp add: add_func_def Let_def)
next
  case False
  then show ?thesis
    by (auto simp: add_func_def Let_def may_record_def is_init_def func_decl_of_def)
qed

lemma add_func_recorded:
  assumes "add_func lenient f d st = Inr st'"
  shows "recorded lenient (if fd_Recv d = None then [func_decl_of f d] else [])
    (if fd_Recv d = None then [] else [func_decl_of f d]) st st'"
proof (cases "fd_Recv d = None \<and> d_Name (func_decl_of f d) \<noteq> ''init''")
  case True
  then have no_init: "\<not> is_init (func_decl_of f d)" by (simp add: is_init_def)
  have kind: "d_Kind (func_decl_of f d) = FuncKind" by (simp add: func_decl_of_def)
  from True assms have "bind_err (declare_name lenient (d_Name (func_decl_of f d)) (pos_of (fd_Name d))
      (add_decl (func_decl_of f d) st))
    (\<lambda>st2. Inr (st2\<lparr>bs_ix := (bs_ix st2)\<lparr>ix_Funcs := (ix_Funcs (bs_ix st2))
       (d_Name (func_decl_of f d) \<mapsto> func_decl_of f d)\<rparr>\<rparr>)) = Inr st'"
    by (simp add: add_func_def Let_def)
  from declare_then [OF this no_init] True no_init kind show ?thesis
    by (simp add: record_entry_def)
next
  case False
  then show ?thesis
    using assms
    by (auto simp: add_func_def Let_def recorded_def is_init_def func_decl_of_def record_entry_def)
qed

lemma number_decl_keeps [simp]:
  "bs_methodDecls (number_decl gd st) = bs_methodDecls st"
  "bs_declared (number_decl gd st) = bs_declared st"
  "ix_Decls (bs_ix (number_decl gd st)) = ix_Decls (bs_ix st)"
  "entry (bs_ix (number_decl gd st)) = entry (bs_ix st)"
  by (simp_all add: number_decl_def split: node.splits option.splits prod.splits)

lemma recorded_number [simp]: "recorded lenient ds ms (number_decl gd st) st' = recorded lenient ds ms st st'"
  by (simp add: recorded_def)

lemma recorded_numbered [simp]: "recorded lenient [] [] st (number_decl gd st)"
  by (simp add: recorded_def)

lemma may_record_number [simp]: "may_record lenient ds (number_decl gd st) = may_record lenient ds st"
  by (simp add: may_record_def)

lemma concat_single: "concat (map (\<lambda>x. [g x]) xs) = map g xs"
  by (induction xs) auto

lemma value_loop_decls:
  "concat (map (\<lambda>(i, eff, j, name). [value_decl_of f gd tok i eff j name]) vs) =
   map (\<lambda>(i, eff, j, name). value_decl_of f gd tok i eff j name) vs"
  by (induction vs) auto

lemma type_loop_decls:
  "concat (map (\<lambda>(i, ts). [type_decl_of f gd i ts]) vs) = map (\<lambda>(i, ts). type_decl_of f gd i ts) vs"
  by (induction vs) auto

lemma concat_nil [simp]: "concat (map (\<lambda>_. []) xs) = []"
  by (induction xs) auto

lemma concat_nil_prod [simp]: "concat (map (\<lambda>(i, eff, j, name). []) xs) = []"
  by (induction xs) auto

lemma top_ok:
  "(\<exists>st'. add_top_decl lenient f gd st = Inr st') \<longleftrightarrow> token_ok gd \<and> may_record lenient (top_decls f gd) st"
proof (cases gd)
  case (GenDecl m tok specs)
  then show ?thesis
    using value_rec.loop_ok [of lenient f gd tok "value_names gd" "number_decl gd st"]
      type_rec.loop_ok [of lenient f gd "List.enumerate 0 specs" "number_decl gd st"]
    by (auto simp: add_top_decl_def Let_def top_decls_def token_ok_def value_loop_decls type_loop_decls
        simp del: number_decl_keeps)
next
  case (FuncDecl m recv name ft body)
  then show ?thesis
    using add_func_ok [of lenient f gd "number_decl gd st"]
    by (simp add: add_top_decl_def Let_def top_decls_def token_ok_def)
qed (simp_all add: add_top_decl_def top_decls_def token_ok_def)

lemma top_recorded:
  "add_top_decl lenient f gd st = Inr st' \<Longrightarrow>
   recorded lenient (top_decls f gd) (method_decls f gd) st st'"
proof (cases gd)
  case (GenDecl m tok specs)
  moreover assume "add_top_decl lenient f gd st = Inr st'"
  ultimately show ?thesis
    using value_rec.loop_recorded [of lenient f gd tok "value_names gd" "number_decl gd st" st']
      type_rec.loop_recorded [of lenient f gd "List.enumerate 0 specs" "number_decl gd st" st']
    by (cases tok) (auto simp: add_top_decl_def Let_def top_decls_def method_decls_def
        value_loop_decls type_loop_decls)
next
  case (FuncDecl m recv name ft body)
  moreover assume "add_top_decl lenient f gd st = Inr st'"
  ultimately show ?thesis
    using add_func_recorded [of lenient f gd "number_decl gd st" st']
    by (simp add: add_top_decl_def Let_def top_decls_def method_decls_def split: if_splits)
qed (auto simp: add_top_decl_def Let_def top_decls_def method_decls_def)

interpretation top_rec: recorder lenient "add_top_decl lenient f" "top_decls f" "method_decls f" token_ok
  for lenient f
  by unfold_locales (simp_all add: top_ok top_recorded)

interpretation file_rec: recorder lenient "add_file lenient"
    "\<lambda>f. concat (map (top_decls f) (file_decls (sf_AST f)))"
    "\<lambda>f. concat (map (method_decls f) (file_decls (sf_AST f)))"
    "\<lambda>f. \<forall>gd\<in>set (file_decls (sf_AST f)). token_ok gd" for lenient
  by unfold_locales (simp_all add: add_file_def top_rec.loop_ok top_rec.loop_recorded)

section \<open>Methods\<close>

definition method_recv :: "decl \<Rightarrow> string" where
  "method_recv md = (case d_Func md of None \<Rightarrow> [] | Some fd \<Rightarrow> ReceiverTypeName (fd_Recv fd))"

definition method_keys :: "decl list \<Rightarrow> string list" where
  "method_keys ms =
     map (\<lambda>md. method_recv md @ ''.'' @ d_Name md) (filter (\<lambda>md. method_recv md \<noteq> []) ms)"

text \<open>The method table: type name, then method name.\<close>

definition methods_of :: "index \<Rightarrow> string \<Rightarrow> string \<Rightarrow> decl option" where
  "methods_of ix t m = (case ix_Types ix t of None \<Rightarrow> None | Some ti \<Rightarrow> ti_Methods ti m)"

definition attach_entry ::
    "decl \<Rightarrow> (string \<Rightarrow> string \<Rightarrow> decl option) \<Rightarrow> string \<Rightarrow> string \<Rightarrow> decl option" where
  "attach_entry md e =
     (if method_recv md = [] then e
      else e(method_recv md := (e (method_recv md))(d_Name md := Some md)))"

lemma last_filter_in: "filter P xs = y # ys \<Longrightarrow> last (y # ys) \<in> set xs \<and> P (last (y # ys))"
  by (metis (mono_tags, lifting) last_in_set list.discI mem_Collect_eq set_filter)

definition attached :: "bool \<Rightarrow> decl list \<Rightarrow> build_state \<Rightarrow> build_state \<Rightarrow> bool" where
  "attached lenient ms st st' \<longleftrightarrow>
     ix_Decls (bs_ix st') = ix_Decls (bs_ix st) \<and>
     bs_methodDecls st' = bs_methodDecls st \<and>
     entry (bs_ix st') = entry (bs_ix st) \<and>
     methods_of (bs_ix st') = fold attach_entry ms (methods_of (bs_ix st)) \<and>
     dom (bs_declared st') = dom (bs_declared st) \<union> (if lenient then {} else set (method_keys ms))"

lemma attach_one:
  assumes "attach_method lenient md st = Inr st'"
  shows "attached lenient [md] st st'"
proof (cases "method_recv md = []")
  case True
  with assms show ?thesis
    by (auto simp: attach_method_def attached_def method_recv_def attach_entry_def method_keys_def Let_def
        split: option.splits if_splits)
next
  case False
  then obtain fd where fd: "d_Func md = Some fd" "method_recv md = ReceiverTypeName (fd_Recv fd)"
    by (auto simp: method_recv_def split: option.splits)
  with False assms show ?thesis
    by (auto simp: attach_method_def attached_def attach_entry_def method_keys_def Let_def
        methods_of_def fun_eq_iff entry_def split: option.splits if_splits decl_kind.splits)
qed

lemma attached_append:
  "attached lenient ms st st1 \<Longrightarrow> attached lenient ns st1 st2 \<Longrightarrow> attached lenient (ms @ ns) st st2"
  by (auto simp: attached_def method_keys_def)

lemma attach_all:
  "fold_err (attach_method lenient) ms st = Inr st' \<Longrightarrow> attached lenient ms st st'"
proof (induction ms arbitrary: st)
  case Nil
  then show ?case by (simp add: attached_def method_keys_def)
next
  case (Cons md ms)
  then obtain st1 where "attach_method lenient md st = Inr st1"
      "fold_err (attach_method lenient) ms st1 = Inr st'"
    by (auto simp: bind_err_Inr)
  then show ?case using attached_append [OF attach_one Cons.IH] by fastforce
qed

definition may_attach :: "bool \<Rightarrow> decl list \<Rightarrow> build_state \<Rightarrow> bool" where
  "may_attach lenient ms st \<longleftrightarrow>
     lenient \<or> (distinct (method_keys ms) \<and> set (method_keys ms) \<inter> dom (bs_declared st) = {})"

lemma attach_one_ok: "(\<exists>st'. attach_method lenient md st = Inr st') \<longleftrightarrow> may_attach lenient [md] st"
  by (auto simp: attach_method_def may_attach_def method_keys_def method_recv_def Let_def
      split: option.splits if_splits)

lemma attach_all_ok:
  "(\<exists>st'. fold_err (attach_method lenient) ms st = Inr st') \<longleftrightarrow> may_attach lenient ms st"
proof (induction ms arbitrary: st)
  case Nil
  then show ?case by (simp add: may_attach_def method_keys_def)
next
  case (Cons md ms)
  show ?case
  proof (cases "attach_method lenient md st")
    case (Inl e)
    then have "\<not> may_attach lenient [md] st" using attach_one_ok [of lenient md st] by auto
    then show ?thesis using Inl by (auto simp: may_attach_def method_keys_def split: if_splits)
  next
    case (Inr st1)
    then have "may_attach lenient [md] st" "attached lenient [md] st st1"
      using attach_one_ok [of lenient md st] attach_one by auto
    with Inr Cons.IH [of st1] show ?thesis
      by (auto simp: may_attach_def attached_def method_keys_def split: if_splits)
  qed
qed

section \<open>The table of a package\<close>

lemma build_split:
  "build_index files lenient = Inr ix \<longleftrightarrow>
   (\<exists>st st'. fold_err (add_file lenient) files init_build = Inr st \<and>
      fold_err (attach_method lenient) (bs_methodDecls st) st = Inr st' \<and>
      ix = (bs_ix st')\<lparr>ix_Methods := bs_methodDecls st'\<rparr>)"
  by (auto simp: build_index_def bind_err_Inr)

lemma init_build_simps [simp]:
  "ix_Decls (bs_ix init_build) = []" "bs_methodDecls init_build = []" "bs_declared init_build = Map.empty"
  "entry (bs_ix init_build) = (\<lambda>_ _. None)" "bs_gen init_build = 0"
  "ix_LocalGens (bs_ix init_build) = Map.empty" "ix_Types (bs_ix init_build) = Map.empty"
  by (auto simp: init_build_def empty_index_def entry_def fun_eq_iff split: decl_kind.splits)

lemma files_recorded:
  "fold_err (add_file lenient) files init_build = Inr st \<Longrightarrow>
   recorded lenient (all_decls files) (all_methods files) init_build st"
  unfolding all_decls_def all_methods_def by (rule file_rec.loop_recorded)

lemma files_ok:
  "(\<exists>st. fold_err (add_file lenient) files init_build = Inr st) \<longleftrightarrow>
   tokens_ok files \<and> may_record lenient (all_decls files) init_build"
  unfolding all_decls_def tokens_ok_def by (rule file_rec.loop_ok)

lemma build_ok:
  "(\<exists>ix. build_index files lenient = Inr ix) \<longleftrightarrow>
   tokens_ok files \<and> (lenient \<or> distinct (block_names (all_decls files) @ method_keys (all_methods files)))"
proof (cases "fold_err (add_file lenient) files init_build")
  case (Inl e)
  with files_ok [of lenient files] show ?thesis
    by (auto simp: build_split may_record_def)
next
  case (Inr st)
  then have rec: "recorded lenient (all_decls files) (all_methods files) init_build st"
    and ok: "tokens_ok files" "may_record lenient (all_decls files) init_build"
    using files_recorded files_ok [of lenient files] by auto
  have "(\<exists>ix. build_index files lenient = Inr ix) \<longleftrightarrow> may_attach lenient (bs_methodDecls st) st"
    using Inr attach_all_ok [of lenient "bs_methodDecls st" st] by (auto simp: build_split)
  with rec ok show ?thesis
    by (auto simp: may_attach_def may_record_def recorded_def)
qed

lemma build_parts:
  assumes "build_index files lenient = Inr ix"
  obtains st st' where "recorded lenient (all_decls files) (all_methods files) init_build st"
    "attached lenient (all_methods files) st st'" "ix = (bs_ix st')\<lparr>ix_Methods := bs_methodDecls st'\<rparr>"
    "fold_err (add_file lenient) files init_build = Inr st"
    "fold_err (attach_method lenient) (all_methods files) st = Inr st'"
proof -
  from assms obtain st st' where st: "fold_err (add_file lenient) files init_build = Inr st"
      "fold_err (attach_method lenient) (bs_methodDecls st) st = Inr st'"
      "ix = (bs_ix st')\<lparr>ix_Methods := bs_methodDecls st'\<rparr>"
    by (auto simp: build_split)
  from files_recorded [OF st(1)] have rec: "recorded lenient (all_decls files) (all_methods files) init_build st" .
  then have "bs_methodDecls st = all_methods files" by (simp add: recorded_def)
  with st rec attach_all that show ?thesis by metis
qed

lemma record_last:
  "fold record_entry ds e n k =
   (case filter (\<lambda>d. d_Name d = n \<and> d_Kind d = k \<and> \<not> is_init d) ds of
      [] \<Rightarrow> e n k | x # xs \<Rightarrow> Some (last (x # xs)))"
  by (induction ds arbitrary: e) (auto simp: record_entry_def split: list.splits)

lemma build_table:
  assumes "build_index files lenient = Inr ix"
  shows "ix_Decls ix = all_decls files \<and> ix_Methods ix = all_methods files \<and>
    entry ix n k =
      (case filter (\<lambda>d. d_Name d = n \<and> d_Kind d = k \<and> \<not> is_init d) (all_decls files) of
         [] \<Rightarrow> None | x # xs \<Rightarrow> Some (last (x # xs)))"
  using assms
proof (rule build_parts)
  fix st st'
  assume "recorded lenient (all_decls files) (all_methods files) init_build st"
    "attached lenient (all_methods files) st st'" "ix = (bs_ix st')\<lparr>ix_Methods := bs_methodDecls st'\<rparr>"
  then show ?thesis by (simp add: recorded_def attached_def record_last)
qed

text \<open>Until the methods are attached, no type has one.\<close>

lemma declare_name_ix: "declare_name lenient n p st = Inr st' \<Longrightarrow> bs_ix st' = bs_ix st"
  by (auto dest: declare_name_effect)

lemma methods_of_updates [simp]:
  "methods_of (ix\<lparr>ix_Funcs := a\<rparr>) = methods_of ix"
  "methods_of (ix\<lparr>ix_Vars := b\<rparr>) = methods_of ix"
  "methods_of (ix\<lparr>ix_Consts := c\<rparr>) = methods_of ix"
  "methods_of (ix\<lparr>ix_Inits := ds\<rparr>) = methods_of ix"
  "methods_of (ix\<lparr>ix_Decls := ds\<rparr>) = methods_of ix"
  "methods_of (ix\<lparr>ix_LocalGens := gs\<rparr>) = methods_of ix"
  "methods_of (ix\<lparr>ix_Methods := ds\<rparr>) = methods_of ix"
  "methods_of (ix\<lparr>ix_Types := (ix_Types ix)(t \<mapsto> ti)\<rparr>) = (methods_of ix)(t := ti_Methods ti)"
  by (auto simp: methods_of_def fun_eq_iff)

definition no_methods :: "build_state \<Rightarrow> bool" where
  "no_methods st \<longleftrightarrow> methods_of (bs_ix st) = (\<lambda>_ _. None)"

lemma no_methods_func:
  "no_methods st \<Longrightarrow> add_func lenient f d st = Inr st' \<Longrightarrow> no_methods st'"
  by (auto simp: no_methods_def add_func_def Let_def add_decl_def bind_err_Inr
      dest!: declare_name_ix split: if_splits)

lemma no_methods_value:
  "no_methods st \<Longrightarrow> add_value lenient f d tok v st = Inr st' \<Longrightarrow> no_methods st'"
  by (auto simp: no_methods_def add_value_def Let_def add_decl_def bind_err_Inr
      dest!: declare_name_ix split: if_splits prod.splits)

lemma no_methods_type:
  "no_methods st \<Longrightarrow> add_type lenient f d its st = Inr st' \<Longrightarrow> no_methods st'"
  by (auto simp: no_methods_def add_type_def Let_def add_decl_def bind_err_Inr methods_of_def fun_eq_iff
      dest!: declare_name_ix)

lemmas no_methods_add [inv_intros] = no_methods_func no_methods_value no_methods_type

lemma no_methods_number [simp]: "no_methods (number_decl gd st) = no_methods st"
  by (simp add: no_methods_def number_decl_def split: node.splits option.splits prod.splits)

lemma no_methods_values:
  "fold_err (add_value lenient f d tok) vs st = Inr st' \<Longrightarrow> no_methods st \<Longrightarrow> no_methods st'"
  by (erule fold_err_inv [where P = no_methods]) (blast intro: no_methods_value)+

lemma no_methods_types:
  "fold_err (add_type lenient f d) ts st = Inr st' \<Longrightarrow> no_methods st \<Longrightarrow> no_methods st'"
  by (erule fold_err_inv [where P = no_methods]) (blast intro: no_methods_type)+

lemma no_methods_top:
  assumes "no_methods st" "add_top_decl lenient f gd st = Inr st'"
  shows "no_methods st'"
proof (cases gd)
  case (GenDecl m tok specs)
  with assms have "no_methods (number_decl gd st)" by simp
  with assms(2) GenDecl show ?thesis
    by (simp only: add_top_decl_def Let_def node.case split: if_split_asm)
      (erule no_methods_values no_methods_types, assumption | fastforce)+
next
  case (FuncDecl m recv name ft body)
  with assms no_methods_func [of "number_decl gd st"] show ?thesis
    by (simp add: add_top_decl_def Let_def)
qed (use assms in \<open>simp_all add: add_top_decl_def Let_def number_decl_def\<close>)

lemma no_methods_files:
  assumes "fold_err (add_file lenient) files init_build = Inr st"
  shows "no_methods st"
  using assms
proof (rule fold_err_inv)
  show "no_methods init_build" by (simp add: no_methods_def methods_of_def fun_eq_iff)
next
  fix f st st' assume "no_methods st" "add_file lenient f st = Inr st'"
  then show "no_methods st'"
    unfolding add_file_def by (blast intro: fold_err_inv [where P = no_methods] no_methods_top)
qed

lemma attach_last:
  "fold attach_entry ms e t m =
   (case filter (\<lambda>md. method_recv md = t \<and> d_Name md = m \<and> t \<noteq> []) ms of
      [] \<Rightarrow> e t m | x # xs \<Rightarrow> Some (last (x # xs)))"
  by (induction ms arbitrary: e) (auto simp: attach_entry_def split: list.splits)

lemma build_methods:
  assumes "build_index files lenient = Inr ix"
  shows "methods_of ix t m =
    (case filter (\<lambda>md. method_recv md = t \<and> d_Name md = m \<and> t \<noteq> []) (all_methods files) of
       [] \<Rightarrow> None | x # xs \<Rightarrow> Some (last (x # xs)))"
  using assms
proof (rule build_parts)
  fix st st'
  assume st: "fold_err (add_file lenient) files init_build = Inr st"
    "attached lenient (all_methods files) st st'" "ix = (bs_ix st')\<lparr>ix_Methods := bs_methodDecls st'\<rparr>"
  from no_methods_files [OF st(1)] st(2,3) show ?thesis
    by (simp add: attached_def attach_last no_methods_def)
qed

text \<open>When the names are distinct the last declaration of a name is the only one.\<close>

lemma last_of_filter_distinct:
  assumes "distinct (map g (filter Q ds))" and "\<And>d. P d \<Longrightarrow> Q d" and "\<And>d e. P d \<Longrightarrow> P e \<Longrightarrow> g d = g e"
  shows "(case filter P ds of [] \<Rightarrow> None | x # xs \<Rightarrow> Some (last (x # xs))) = Some d \<longleftrightarrow> d \<in> set ds \<and> P d"
proof -
  have one: "a = b" if "a \<in> set ds" "b \<in> set ds" "P a" "P b" for a b
  proof (rule inj_onD)
    from assms(1) show "inj_on g (set (filter Q ds))" by (simp add: distinct_map)
    show "g a = g b" by (rule assms(3)) (fact that)+
    show "a \<in> set (filter Q ds)" "b \<in> set (filter Q ds)" using assms(2) that by simp_all
  qed
  show ?thesis
  proof (cases "filter P ds")
    case Nil
    then have "\<not> (d \<in> set ds \<and> P d)" by (metis filter_empty_conv)
    with Nil show ?thesis by simp
  next
    case (Cons x xs)
    then have "last (x # xs) \<in> set (filter P ds)" by (metis last_in_set list.discI)
    then have l: "last (x # xs) \<in> set ds" "P (last (x # xs))" by simp_all
    have "d = last (x # xs)" if "d \<in> set ds" "P d" using one l that by blast
    with Cons l show ?thesis by (simp del: last.simps) blast
  qed
qed

section \<open>Numbers of local types\<close>

text \<open>The counter and the map only grow and never give a number twice.\<close>

definition gens_inv :: "nat \<times> (nat \<rightharpoonup> nat) \<Rightarrow> bool" where
  "gens_inv s \<longleftrightarrow> ran (snd s) \<subseteq> {1..fst s} \<and> inj_on (snd s) (dom (snd s))"

interpretation numbering: ast_visitor "\<lambda>s n. (True, number_node n s)" "\<lambda>s. s" gens_inv
proof
  fix s n assume inv: "gens_inv s"
  show "gens_inv (snd (True, number_node n s))"
  proof (cases n)
    case (TypeSpec m name tps al t)
    from inv have fresh: "snd s i \<noteq> Some (fst s + 1)" for i
      by (auto simp: gens_inv_def ran_def)
    from inv fresh TypeSpec show ?thesis
      by (auto simp: gens_inv_def number_node_def ran_def inj_on_def split: if_splits)
  qed (use inv in \<open>simp_all add: number_node_def\<close>)
qed

definition gens_of :: "build_state \<Rightarrow> nat \<times> (nat \<rightharpoonup> nat)" where
  "gens_of st = (bs_gen st, ix_LocalGens (bs_ix st))"

definition gens_decl :: "node \<Rightarrow> nat \<times> (nat \<rightharpoonup> nat) \<Rightarrow> nat \<times> (nat \<rightharpoonup> nat)" where
  "gens_decl gd s = (case gd of FuncDecl m recv name ft (Some body) \<Rightarrow> number_body body s | _ \<Rightarrow> s)"

lemma gens_number: "gens_of (number_decl gd st) = gens_decl gd (gens_of st)"
  by (auto simp: gens_of_def number_decl_def gens_decl_def split: node.splits option.splits prod.splits)

lemma gens_declare: "declare_name lenient n p st = Inr st' \<Longrightarrow> gens_of st' = gens_of st"
  by (auto simp: gens_of_def declare_name_def split: if_splits option.splits)

lemma gens_updates [simp]:
  "gens_of (add_decl d st) = gens_of st"
  "gens_of (st\<lparr>bs_ix := (bs_ix st)\<lparr>ix_Funcs := a\<rparr>\<rparr>) = gens_of st"
  "gens_of (st\<lparr>bs_ix := (bs_ix st)\<lparr>ix_Types := b\<rparr>\<rparr>) = gens_of st"
  "gens_of (st\<lparr>bs_ix := (bs_ix st)\<lparr>ix_Vars := c\<rparr>\<rparr>) = gens_of st"
  "gens_of (st\<lparr>bs_ix := (bs_ix st)\<lparr>ix_Consts := c\<rparr>\<rparr>) = gens_of st"
  "gens_of (st\<lparr>bs_ix := (bs_ix st)\<lparr>ix_Inits := is\<rparr>\<rparr>) = gens_of st"
  "gens_of (st\<lparr>bs_methodDecls := ms\<rparr>) = gens_of st"
  "gens_of (st\<lparr>bs_declared := dm\<rparr>) = gens_of st"
  by (simp_all add: gens_of_def add_decl_def)

lemma gens_func: "add_func lenient f d st = Inr st' \<Longrightarrow> gens_of st' = gens_of st"
  by (auto simp: add_func_def Let_def bind_err_Inr dest: gens_declare split: if_splits)

lemma gens_value: "add_value lenient f d tok v st = Inr st' \<Longrightarrow> gens_of st' = gens_of st"
  by (auto simp: add_value_def Let_def bind_err_Inr dest: gens_declare split: if_splits prod.splits)

lemma gens_type: "add_type lenient f d its st = Inr st' \<Longrightarrow> gens_of st' = gens_of st"
  by (auto simp: add_type_def Let_def bind_err_Inr dest: gens_declare)

lemma gens_attach: "attach_method lenient md st = Inr st' \<Longrightarrow> gens_of st' = gens_of st"
  by (auto simp: attach_method_def gens_of_def Let_def split: option.splits if_splits)

lemma fold_id: "fold (\<lambda>_ s. s) xs = (\<lambda>s. s)"
  by (induction xs) (auto simp: fun_eq_iff)

lemma gens_loops:
  "fold_err (add_value lenient f d tok) vs st = Inr st' \<Longrightarrow> gens_of st' = gens_of st"
  "fold_err (add_type lenient f d) ts st = Inr st' \<Longrightarrow> gens_of st' = gens_of st"
  "fold_err (attach_method lenient) ms st = Inr st' \<Longrightarrow> gens_of st' = gens_of st"
  using fold_err_fold [of "add_value lenient f d tok" vs st st' gens_of "\<lambda>_ s. s"]
    fold_err_fold [of "add_type lenient f d" ts st st' gens_of "\<lambda>_ s. s"]
    fold_err_fold [of "attach_method lenient" ms st st' gens_of "\<lambda>_ s. s"]
  by (simp_all add: gens_value gens_type gens_attach fold_id)

lemma gens_top: "add_top_decl lenient f gd st = Inr st' \<Longrightarrow> gens_of st' = gens_decl gd (gens_of st)"
proof (cases gd)
  case (GenDecl m tok specs)
  moreover assume "add_top_decl lenient f gd st = Inr st'"
  ultimately show ?thesis
    by (auto simp: add_top_decl_def Let_def gens_number [symmetric] dest: gens_loops split: if_splits)
next
  case (FuncDecl m recv name ft body)
  moreover assume "add_top_decl lenient f gd st = Inr st'"
  ultimately show ?thesis
    by (auto simp: add_top_decl_def Let_def gens_number [symmetric] dest: gens_func)
qed (auto simp: add_top_decl_def Let_def gens_number)

text \<open>The non-alias type declarations of the package's function bodies in source order.\<close>

definition is_local_type :: "node \<Rightarrow> bool" where
  "is_local_type n = (case n of TypeSpec m name tps al t \<Rightarrow> \<not> al | _ \<Rightarrow> False)"

definition body_nodes :: "node \<Rightarrow> node list" where
  "body_nodes gd = (case gd of FuncDecl m recv name ft (Some body) \<Rightarrow> preorder body | _ \<Rightarrow> [])"

definition local_types :: "src_file list \<Rightarrow> node list" where
  "local_types files =
     filter is_local_type (concat (map (\<lambda>f. concat (map body_nodes (file_decls (sf_AST f)))) files))"

lemma gens_decl_fold: "gens_decl gd s = fold number_node (body_nodes gd) s"
  using inspect_all [of "\<lambda>s n. (True, number_node n s)" number_node "\<lambda>s. s"]
  by (auto simp: gens_decl_def body_nodes_def number_body_def split: node.splits option.splits)

lemma fold_number_filter: "fold number_node ns s = fold number_node (filter is_local_type ns) s"
  by (induction ns arbitrary: s) (auto simp: is_local_type_def number_node_def split: node.splits)

lemma fold_concat_map: "fold (\<lambda>x. fold g (h x)) xs s = fold g (concat (map h xs)) s"
  by (induction xs arbitrary: s) auto

lemma concat_bodies:
  "concat (map g (concat (map h xs))) = concat (map (\<lambda>x. concat (map g (h x))) xs)"
  by (induction xs) auto

lemma build_gens:
  assumes "build_index files lenient = Inr ix"
  shows "ix_LocalGens ix = snd (fold number_node (local_types files) (0, Map.empty))"
  using assms
proof (rule build_parts)
  fix st st'
  assume st: "fold_err (add_file lenient) files init_build = Inr st"
    "fold_err (attach_method lenient) (all_methods files) st = Inr st'"
    "ix = (bs_ix st')\<lparr>ix_Methods := bs_methodDecls st'\<rparr>"
  have "gens_of st1 = fold gens_decl (file_decls (sf_AST f)) (gens_of st0)"
    if "add_file lenient f st0 = Inr st1" for f st0 st1
    by (rule fold_err_fold) (use that gens_top in \<open>auto simp: add_file_def\<close>)
  with st(1) have "gens_of st =
      fold (\<lambda>f. fold gens_decl (file_decls (sf_AST f))) files (gens_of init_build)"
    by (rule fold_err_fold)
  also have "\<dots> = fold number_node (local_types files) (0, Map.empty)"
    by (simp add: gens_decl_fold [abs_def] fold_concat_map local_types_def gens_of_def
        fold_number_filter [symmetric] concat_bodies)
  finally show ?thesis using gens_loops(3) [OF st(2)] st(3)
    by (metis gens_of_def snd_conv index.select_convs(8) index.surjective index.update_convs(2))
qed

lemma number_inv [inv_intros]: "gens_inv s \<Longrightarrow> gens_inv (number_node n s)"
  using numbering.pre_keeps by simp

lemma number_body_inv [inv_intros]: "gens_inv s \<Longrightarrow> gens_inv (number_body b s)"
  unfolding number_body_def by (rule numbering.inspect_keeps)

lemma fold_number:
  assumes "\<forall>t\<in>set ts. is_local_type t"
  shows "fold number_node ts (g, gm) =
    (g + length ts, gm ++ map_of (rev (zip (map id_of ts) [g + 1..<g + 1 + length ts])))"
  using assms
proof (induction ts arbitrary: g gm)
  case Nil
  then show ?case by simp
next
  case (Cons t ts)
  then obtain m name tps ty where t: "t = TypeSpec m name tps False ty"
    by (auto simp: is_local_type_def split: node.splits)
  have up: "[g + 1..<g + 1 + length (t # ts)] = (g + 1) # [g + 1 + 1..<g + 1 + 1 + length ts]"
    by (simp add: upt_conv_Cons del: upt_Suc)
  from Cons show ?case
    unfolding up by (simp add: t number_node_def del: upt_Suc)
qed

lemma fold_number_at:
  assumes "distinct (map id_of ts)" "i < length ts" "\<forall>t\<in>set ts. is_local_type t"
  shows "snd (fold number_node ts (0, Map.empty)) (id_of (ts ! i)) = Some (i + 1)"
proof -
  have "map_of (rev (zip (map id_of ts) [1..<1 + length ts])) = map_of (zip (map id_of ts) [1..<1 + length ts])"
    using assms(1) by (subst map_of_inject_set) (simp_all add: rev_map [symmetric] del: upt_Suc)
  moreover have "map_of (zip (map id_of ts) [1..<1 + length ts]) (map id_of ts ! i) = Some ([1..<1 + length ts] ! i)"
    using assms by (intro map_of_zip_nth) simp_all
  ultimately show ?thesis using assms by (simp add: fold_number del: upt_Suc)
qed

section \<open>Properties\<close>

text \<open>
  C2: \<open>Build\<close> succeeds exactly on the packages whose top-level declarations are well formed and
  declare no name twice in the package block (\<open>_\<close> and \<open>init\<close> apart) and no method twice on a type.
\<close>

theorem Build_succeeds_iff:
  "(\<exists>ix. Build files = Inr ix) \<longleftrightarrow>
   tokens_ok files \<and> distinct (block_names (all_decls files) @ method_keys (all_methods files))"
  unfolding Build_def build_ok by simp

text \<open>
  C3: the table \<open>Build\<close> returns is exactly the source: its declarations and methods are those of the
  files in source order, a name and kind finds the one declaration of that name and kind, and a type
  and method name the one method declared so.
\<close>

theorem Build_table:
  assumes "Build files = Inr ix"
  shows "ix_Decls ix = all_decls files \<and> ix_Methods ix = all_methods files \<and>
    (n \<noteq> ''_'' \<longrightarrow> (entry ix n k = Some d \<longleftrightarrow>
       d \<in> set (all_decls files) \<and> d_Name d = n \<and> d_Kind d = k \<and> \<not> is_init d)) \<and>
    (methods_of ix t m = Some md \<longleftrightarrow>
       md \<in> set (all_methods files) \<and> method_recv md = t \<and> d_Name md = m \<and> t \<noteq> [])"
proof -
  from assms have b: "build_index files False = Inr ix" by (simp add: Build_def)
  with build_ok [of files False] have dist: "distinct (block_names (all_decls files))"
      "distinct (method_keys (all_methods files))"
    by auto
  have "entry ix n k = Some d \<longleftrightarrow>
      d \<in> set (all_decls files) \<and> d_Name d = n \<and> d_Kind d = k \<and> \<not> is_init d" if "n \<noteq> ''_''"
    unfolding build_table [OF b, THEN conjunct2, THEN conjunct2]
    by (rule last_of_filter_distinct [OF dist(1) [unfolded block_names_def]]) (use that in auto)
  moreover have "methods_of ix t m = Some md \<longleftrightarrow>
      md \<in> set (all_methods files) \<and> method_recv md = t \<and> d_Name md = m \<and> t \<noteq> []"
    unfolding build_methods [OF b]
    by (rule last_of_filter_distinct [OF dist(2) [unfolded method_keys_def]]) auto
  ultimately show ?thesis using build_table [OF b] by blast
qed

text \<open>
  \<open>BuildLenient\<close> succeeds whatever is redeclared, and a later declaration of a name replaces the
  earlier ones: the table holds the last.
\<close>

theorem BuildLenient_last_wins:
  assumes "tokens_ok files"
  shows "\<exists>ix. BuildLenient files = Inr ix \<and> ix_Decls ix = all_decls files \<and>
    (\<forall>n k. entry ix n k =
      (case filter (\<lambda>d. d_Name d = n \<and> d_Kind d = k \<and> \<not> is_init d) (all_decls files) of
         [] \<Rightarrow> None | x # xs \<Rightarrow> Some (last (x # xs)))) \<and>
    (\<forall>t m. methods_of ix t m =
      (case filter (\<lambda>md. method_recv md = t \<and> d_Name md = m \<and> t \<noteq> []) (all_methods files) of
         [] \<Rightarrow> None | x # xs \<Rightarrow> Some (last (x # xs))))"
proof -
  from assms build_ok [of files True] obtain ix where "build_index files True = Inr ix" by auto
  note b = this
  show ?thesis
    unfolding BuildLenient_def
    by (rule exI [of _ ix], intro conjI allI, rule b, rule build_table [OF b, THEN conjunct1],
        rule build_table [OF b, THEN conjunct2, THEN conjunct2], rule build_methods [OF b])
qed

text \<open>
  the numbers of \<open>LocalGens\<close>: the \<open>i\<close>-th non-alias type declared in a function body of the
  package, in source order, has number \<open>i + 1\<close>.
\<close>

theorem LocalGen_source_order:
  assumes "Build files = Inr ix" "distinct (map id_of (local_types files))" "i < length (local_types files)"
  shows "LocalGen ix (local_types files ! i) = i + 1"
proof -
  have "\<forall>t\<in>set (local_types files). is_local_type t"
    unfolding local_types_def by simp
  note fold_number_at [OF assms(2,3) this]
  then show ?thesis
    unfolding LocalGen_def build_gens [OF assms(1) [unfolded Build_def]] by simp
qed

text \<open>The spec a const spec takes its values and its type from: the last at or before it with values.\<close>

definition const_source :: "node option \<times> node list \<Rightarrow> node list \<Rightarrow> nat \<Rightarrow> node option \<times> node list" where
  "const_source prev specs i =
     (case filter (\<lambda>sp. vs_Values sp \<noteq> []) (take (Suc i) specs) of
        [] \<Rightarrow> prev
      | x # xs \<Rightarrow> (vs_Type (last (x # xs)), vs_Values (last (x # xs))))"

lemma const_source_0:
  "const_source prev (sp # specs) 0 = (if vs_Values sp = [] then prev else (vs_Type sp, vs_Values sp))"
  by (simp add: const_source_def)

lemma const_source_Suc:
  "const_source prev (sp # specs) (Suc i) =
   const_source (if vs_Values sp = [] then prev else (vs_Type sp, vs_Values sp)) specs i"
  by (auto simp: const_source_def split: list.splits)

lemma value_specs_from_const:
  "value_specs_from CONST_T k pv pt specs =
   map (\<lambda>i. (k + i, \<lparr>es_Spec = specs ! i, es_Type = fst (const_source (pt, pv) specs i),
     es_Values = snd (const_source (pt, pv) specs i)\<rparr>)) [0..<length specs]"
proof (induction specs arbitrary: k pv pt)
  case Nil
  then show ?case by simp
next
  case (Cons sp specs)
  have up: "[0..<length (sp # specs)] = 0 # map Suc [0..<length specs]"
    by (simp add: upt_conv_Cons map_Suc_upt del: upt_Suc)
  show ?case
    unfolding up by (simp add: Cons.IH const_source_0 const_source_Suc Let_def comp_def)
qed

text \<open>
  implicit repetition in a const group: every spec is yielded with its own index, and takes its
  type and values together from the last spec at or before it that has values.
\<close>

theorem value_specs_const:
  "value_specs (GenDecl m CONST_T specs) =
   map (\<lambda>i. (i, \<lparr>es_Spec = specs ! i, es_Type = fst (const_source (None, []) specs i),
     es_Values = snd (const_source (None, []) specs i)\<rparr>)) [0..<length specs]"
  by (simp add: value_specs_def value_specs_from_const)

text \<open>
  a receiver type in parentheses gives no receiver type name, so the table attaches such a method
  to no type, although \<open>RecvTypeParamNames\<close> looks through the parentheses of the same receiver.
\<close>

theorem paren_receiver_unattached:
  assumes "Build files = Inr ix" "d_Func md = Some (FuncDecl m (Some (FieldList m1 (Field m2 ns (Some (ParenExpr m3 t)) tag # fs))) name ft body)"
  shows "methods_of ix x y \<noteq> Some md"
proof -
  from assms(2) have none: "method_recv md = []"
    by (simp add: method_recv_def ReceiverTypeName_def base_type_name.simps)
  have "methods_of ix x y = Some md \<Longrightarrow> method_recv md \<noteq> []"
    using build_methods [OF assms(1) [unfolded Build_def], of x y]
    by (auto split: list.splits simp del: last.simps dest!: last_filter_in)
  with none show ?thesis by blast
qed

text \<open>
  two methods of one type that are both named \<open>_\<close> are rejected, although the blank identifier
  declares nothing.
\<close>

theorem blank_methods_rejected:
  assumes "all_methods files = as @ m1 # bs @ m2 # cs" "method_recv m1 = t" "method_recv m2 = t" "t \<noteq> []"
    "d_Name m1 = ''_''" "d_Name m2 = ''_''"
  shows "\<not> (\<exists>ix. Build files = Inr ix)"
  unfolding Build_def build_ok using assms by (simp add: method_keys_def)

text \<open>A package with a type, a method on it and a function that declares a local type.\<close>

definition sample_method :: node where
  "sample_method = FuncDecl (Meta 2 20 30)
     (Some (FieldList (Meta 3 21 24)
       [Field (Meta 4 22 23) [] (Some (StarExpr (Meta 5 22 23) (Ident (Meta 6 23 24) ''T''))) None]))
     (Ident (Meta 7 25 26) ''M'') (FuncType (Meta 8 20 30) None None None) None"

definition sample_local :: node where
  "sample_local =
     TypeSpec (Meta 13 47 50) (Ident (Meta 14 47 48) ''L'') None False (Ident (Meta 15 49 50) ''int'')"

definition sample_file :: src_file where
  "sample_file = \<lparr>sf_Name = ''a.go'', sf_AST = AstFile (Meta 0 0 60) [] (Ident (Meta 1 1 2) ''a'')
     [GenDecl (Meta 9 10 20) TYPE_T
        [TypeSpec (Meta 10 15 20) (Ident (Meta 11 15 16) ''T'') None False (Ident (Meta 12 17 20) ''int'')],
      sample_method,
      FuncDecl (Meta 16 31 59) None (Ident (Meta 17 36 40) ''main'') (FuncType (Meta 18 31 59) None None None)
        (Some (BlockStmt (Meta 19 42 59) [DeclStmt (Meta 20 42 50) (GenDecl (Meta 21 42 50) TYPE_T [sample_local])]))],
     sf_Imports = [], sf_Src = None, sf_LangMod = []\<rparr>"

lemmas sample_defs = sample_method_def sample_local_def sample_file_def

lemma sample_decls:
  "map (\<lambda>d. (d_Name d, d_Kind d)) (all_decls [sample_file]) = [(''T'', TypeKind), (''main'', FuncKind)]"
  "all_methods [sample_file] = [func_decl_of sample_file sample_method]"
  "method_recv (func_decl_of sample_file sample_method) = ''T''"
  "tokens_ok [sample_file]"
  "local_types [sample_file] = [sample_local]"
  by (simp_all add: sample_defs all_decls_def all_methods_def top_decls_def method_decls_def type_decl_of_def
      func_decl_of_def method_recv_def ReceiverTypeName_def base_type_name.simps tokens_ok_def token_ok_def
      local_types_def body_nodes_def preorder_children is_local_type_def)

lemma sample_builds: "\<exists>ix. Build [sample_file] = Inr ix"
  unfolding Build_def build_ok
  by (simp add: sample_decls) (simp add: sample_defs all_decls_def top_decls_def type_decl_of_def
      func_decl_of_def method_keys_def is_init_def method_recv_def ReceiverTypeName_def base_type_name.simps)

theorem Build_table_witness:
  "\<exists>ix. Build [sample_file] = Inr ix \<and>
     methods_of ix ''T'' ''M'' = Some (func_decl_of sample_file sample_method)"
proof -
  from sample_builds obtain ix where ix: "Build [sample_file] = Inr ix" ..
  have "d_Name (func_decl_of sample_file sample_method) = ''M''"
    by (simp add: func_decl_of_def sample_method_def)
  with Build_table [OF ix] sample_decls(2,3) have
    "methods_of ix ''T'' ''M'' = Some (func_decl_of sample_file sample_method)" by simp
  with ix show ?thesis by blast
qed

theorem BuildLenient_witness:
  "\<exists>ix. BuildLenient [sample_file, sample_file] = Inr ix \<and> length (ix_Decls ix) = 4"
proof -
  have "length (all_decls [sample_file]) = 2"
    using arg_cong [OF sample_decls(1), of length] by simp
  then have "length (all_decls [sample_file, sample_file]) = 4" by (simp add: all_decls_def)
  moreover have "tokens_ok [sample_file, sample_file]"
    using sample_decls(4) by (simp add: tokens_ok_def)
  ultimately show ?thesis using BuildLenient_last_wins by metis
qed

theorem LocalGen_witness: "\<exists>ix. Build [sample_file] = Inr ix \<and> LocalGen ix sample_local = 1"
proof -
  from sample_builds obtain ix where ix: "Build [sample_file] = Inr ix" ..
  with LocalGen_source_order [OF ix, of 0] sample_decls(5) show ?thesis by simp
qed

text \<open>The two ways a receiver or a method name goes wrong, on one package each.\<close>

definition paren_method :: node where
  "paren_method = FuncDecl (Meta 2 20 30)
     (Some (FieldList (Meta 3 21 24)
       [Field (Meta 4 22 23) [] (Some (ParenExpr (Meta 5 22 23) (Ident (Meta 6 23 24) ''T''))) None]))
     (Ident (Meta 7 25 26) ''M'') (FuncType (Meta 8 20 30) None None None) None"

definition blank_method :: node where
  "blank_method = FuncDecl (Meta 2 20 30)
     (Some (FieldList (Meta 3 21 24) [Field (Meta 4 22 23) [] (Some (Ident (Meta 6 23 24) ''T'')) None]))
     (Ident (Meta 7 25 26) ''_'') (FuncType (Meta 8 20 30) None None None) None"

definition one_file :: "node list \<Rightarrow> src_file" where
  "one_file ds = \<lparr>sf_Name = ''a.go'', sf_AST = AstFile (Meta 0 0 60) [] (Ident (Meta 1 1 2) ''a'') ds,
     sf_Imports = [], sf_Src = None, sf_LangMod = []\<rparr>"

theorem paren_receiver_witness:
  "\<exists>ix. Build [one_file [paren_method]] = Inr ix \<and>
     methods_of ix ''T'' ''M'' \<noteq> Some (func_decl_of (one_file [paren_method]) paren_method)"
proof -
  have "\<exists>ix. Build [one_file [paren_method]] = Inr ix"
    unfolding Build_def build_ok
    by (simp add: one_file_def paren_method_def all_decls_def all_methods_def top_decls_def method_decls_def
        tokens_ok_def token_ok_def method_keys_def method_recv_def func_decl_of_def ReceiverTypeName_def
        base_type_name.simps)
  then obtain ix where ix: "Build [one_file [paren_method]] = Inr ix" ..
  have "methods_of ix ''T'' ''M'' \<noteq> Some (func_decl_of (one_file [paren_method]) paren_method)"
    by (rule paren_receiver_unattached [OF ix]) (simp add: func_decl_of_def paren_method_def)
  with ix show ?thesis by blast
qed

theorem blank_methods_witness: "\<not> (\<exists>ix. Build [one_file [blank_method, blank_method]] = Inr ix)"
  by (rule blank_methods_rejected [where as = "[]" and bs = "[]" and cs = "[]" and t = "''T''"
        and ?m1.0 = "func_decl_of (one_file [blank_method, blank_method]) blank_method"
        and ?m2.0 = "func_decl_of (one_file [blank_method, blank_method]) blank_method"])
    (simp_all add: one_file_def blank_method_def all_methods_def method_decls_def method_recv_def func_decl_of_def
      ReceiverTypeName_def base_type_name.simps)

end
