(* ===== verification/GoVersion.thy ===== *)
theory GoVersion
  imports Prelude "HOL-Library.Product_Lexorder" "HOL-Library.List_Lexorder" "HOL-Library.Char_ord"
begin

text \<open>
  The part of the standard library's \<open>go/version\<close> the version gate calls: versions such as
  \<open>go1.21rc2\<close>, parsed into decimal strings and compared field by field.
\<close>

section \<open>Parsing\<close>

datatype goversion =
  Version (v_major: string) (v_minor: string) (v_patch: string) (v_kind: string) (v_pre: string)

definition no_version :: goversion where
  "no_version = Version [] [] [] [] []"

text \<open>\<open>cutInt\<close>: a decimal number without leading zeros in front of the rest.\<close>

definition cutInt :: "string \<Rightarrow> (string \<times> string) option" where
  "cutInt x =
     (let n = takeWhile is_digit x in
      if n = [] \<or> (hd x = CHR ''0'' \<and> length n \<noteq> 1) then None
      else Some (n, dropWhile is_digit x))"

text \<open>\<open>CmpInt\<close>: shorter numbers are smaller.\<close>

definition cmp_string :: "string \<Rightarrow> string \<Rightarrow> int" where
  "cmp_string x y = (if x = y then 0 else if x < y then - 1 else 1)"

definition CmpInt :: "string \<Rightarrow> string \<Rightarrow> int" where
  "CmpInt x y =
     (if x = y then 0
      else if length x < length y then - 1
      else if length x > length y then 1
      else if x < y then - 1 else 1)"

definition is_lower :: "char \<Rightarrow> bool" where
  "is_lower c \<longleftrightarrow> of_char c \<ge> (97 :: nat) \<and> of_char c \<le> (122 :: nat)"

definition parse_pre :: "string \<Rightarrow> string \<Rightarrow> string \<Rightarrow> goversion" where
  "parse_pre major minor x =
     (let kind = takeWhile (\<lambda>c. \<not> is_digit c) x; rest = dropWhile (\<lambda>c. \<not> is_digit c) x in
      if kind = [] \<or> \<not> list_all is_lower kind then no_version
      else case cutInt rest of
        Some (pre, []) \<Rightarrow> Version major minor [] kind pre
      | _ \<Rightarrow> no_version)"

definition parse_version :: "string \<Rightarrow> goversion" where
  "parse_version x =
     (case cutInt x of
        None \<Rightarrow> no_version
      | Some (major, []) \<Rightarrow> Version major ''0'' ''0'' [] []
      | Some (major, d # x1) \<Rightarrow>
          if d \<noteq> CHR ''.'' then no_version
          else case cutInt x1 of
            None \<Rightarrow> no_version
          | Some (minor, []) \<Rightarrow>
              Version major minor (if CmpInt minor ''21'' < 0 then ''0'' else []) [] []
          | Some (minor, e # x2) \<Rightarrow>
              if e = CHR ''.'' then
                (case cutInt x2 of Some (patch, []) \<Rightarrow> Version major minor patch [] [] | _ \<Rightarrow> no_version)
              else parse_pre major minor (e # x2))"

definition stripGo :: "string \<Rightarrow> string" where
  "stripGo v =
     (let w = cut_before (CHR ''-'') v in
      if prefix ''go'' w then drop 2 w else [])"

section \<open>Comparing\<close>

definition cmp_version :: "goversion \<Rightarrow> goversion \<Rightarrow> int" where
  "cmp_version a b =
     (if CmpInt (v_major a) (v_major b) \<noteq> 0 then CmpInt (v_major a) (v_major b)
      else if CmpInt (v_minor a) (v_minor b) \<noteq> 0 then CmpInt (v_minor a) (v_minor b)
      else if CmpInt (v_patch a) (v_patch b) \<noteq> 0 then CmpInt (v_patch a) (v_patch b)
      else if cmp_string (v_kind a) (v_kind b) \<noteq> 0 then cmp_string (v_kind a) (v_kind b)
      else CmpInt (v_pre a) (v_pre b))"

text \<open>The exported functions of the package.\<close>

definition version_Compare :: "string \<Rightarrow> string \<Rightarrow> int" where
  "version_Compare x y = cmp_version (parse_version (stripGo x)) (parse_version (stripGo y))"

definition version_IsValid :: "string \<Rightarrow> bool" where
  "version_IsValid x \<longleftrightarrow> parse_version (stripGo x) \<noteq> no_version"

definition gover_Lang :: "string \<Rightarrow> string" where
  "gover_Lang x =
     (let v = parse_version x in
      if v_minor v = [] \<or> (v_major v = ''1'' \<and> v_minor v = ''0'') then v_major v
      else v_major v @ ''.'' @ v_minor v)"

definition version_Lang :: "string \<Rightarrow> string" where
  "version_Lang x =
     (let v = gover_Lang (stripGo x) in if v = [] then [] else ''go'' @ v)"

text \<open>The comparison is the one of a linear order on the parsed versions.\<close>

definition num_key :: "string \<Rightarrow> nat \<times> string" where
  "num_key x = (length x, x)"

definition version_key ::
    "goversion \<Rightarrow> (nat \<times> string) \<times> (nat \<times> string) \<times> (nat \<times> string) \<times> string \<times> nat \<times> string" where
  "version_key v = (num_key (v_major v), num_key (v_minor v), num_key (v_patch v), v_kind v, num_key (v_pre v))"

lemma version_key_inj: "version_key a = version_key b \<longleftrightarrow> a = b"
  by (cases a; cases b) (auto simp: version_key_def num_key_def)

instantiation goversion :: linorder
begin

definition less_eq_goversion :: "goversion \<Rightarrow> goversion \<Rightarrow> bool" where
  "less_eq_goversion a b \<longleftrightarrow> version_key a \<le> version_key b"

definition less_goversion :: "goversion \<Rightarrow> goversion \<Rightarrow> bool" where
  "less_goversion a b \<longleftrightarrow> version_key a < version_key b"

instance
  by standard (auto simp: less_eq_goversion_def less_goversion_def less_le_not_le version_key_inj [symmetric])

end

lemma CmpInt_key: "CmpInt x y = (if num_key x = num_key y then 0 else if num_key x < num_key y then - 1 else 1)"
  by (auto simp: CmpInt_def num_key_def)

lemma num_key_inj [simp]: "num_key x = num_key y \<longleftrightarrow> x = y"
  by (auto simp: num_key_def)

lemma cmp_version_order: "cmp_version a b = (if a = b then 0 else if a < b then - 1 else 1)"
  by (cases a; cases b)
    (auto simp: cmp_version_def less_goversion_def version_key_def CmpInt_key cmp_string_def)

definition ver :: "string \<Rightarrow> goversion" where
  "ver x = parse_version (stripGo x)"

lemma Compare_le: "version_Compare x y \<le> 0 \<longleftrightarrow> ver x \<le> ver y"
  by (auto simp: version_Compare_def ver_def cmp_version_order)

lemma Compare_ge: "version_Compare x y \<ge> 0 \<longleftrightarrow> ver y \<le> ver x"
  by (auto simp: version_Compare_def ver_def cmp_version_order)

lemma Compare_gt: "version_Compare x y > 0 \<longleftrightarrow> ver y < ver x"
  by (auto simp: version_Compare_def ver_def cmp_version_order)

lemmas Compare_order = Compare_le Compare_ge Compare_gt

end
