(* ===== verification/LangGate.thy ===== *)
theory LangGate
  imports Syntax Scope GoVersion "HOL-Library.Word"
begin

unbundle bit_operations_syntax

text \<open>
  The language-version gate (\<open>syntax/lang.go\<close>): the effective language version of a file and
  \<open>CheckLang\<close>, the walk that reports the first use of a feature newer than it. The rendering of a
  node by \<open>go/printer\<close> is an argument of the walk.
\<close>

section \<open>The declared kinds of a package\<close>

type_synonym decl_class = "8 word"

definition DeclOther :: decl_class where "DeclOther = 0"
definition DeclType :: decl_class where "DeclType = 1"
definition DeclFunc :: decl_class where "DeclFunc = 2"
definition DeclGeneric :: decl_class where "DeclGeneric = 4"

definition class_of :: "decl_class \<Rightarrow> node option \<Rightarrow> decl_class" where
  "class_of k tps = (if tps \<noteq> None then k OR DeclGeneric else k)"

definition spec_kinds :: "node \<Rightarrow> (string \<rightharpoonup> decl_class) \<Rightarrow> (string \<rightharpoonup> decl_class)" where
  "spec_kinds sp m =
     (case sp of
        TypeSpec mt name tps al t \<Rightarrow> m(ident_name name \<mapsto> class_of DeclType tps)
      | ValueSpec mt names t vs \<Rightarrow> fold (\<lambda>n m. m(ident_name n \<mapsto> DeclOther)) names m
      | _ \<Rightarrow> m)"

definition decl_kinds :: "node \<Rightarrow> (string \<rightharpoonup> decl_class) \<Rightarrow> (string \<rightharpoonup> decl_class)" where
  "decl_kinds d m =
     (case d of
        GenDecl mt tok specs \<Rightarrow> fold spec_kinds specs m
      | FuncDecl mt recv name ft body \<Rightarrow>
          if recv = None then m(ident_name name \<mapsto> class_of DeclFunc (ft_TypeParams ft)) else m
      | _ \<Rightarrow> m)"

definition DeclaredKinds :: "src_file list \<Rightarrow> (string \<rightharpoonup> decl_class)" where
  "DeclaredKinds files = fold (\<lambda>f. fold decl_kinds (file_decls (sf_AST f))) files Map.empty"

section \<open>The version of a file\<close>

definition langVersion :: "string \<Rightarrow> string" where
  "langVersion v = (if version_IsValid v then version_Lang v else [])"

definition langMax :: "string \<Rightarrow> string \<Rightarrow> string" where
  "langMax a b = (if version_Compare a b \<ge> 0 then a else b)"

definition Lang :: "src_file \<Rightarrow> string" where
  "Lang f =
     (let v = file_GoVersion (sf_AST f) in
      if v \<noteq> [] then langMax ''go1.21'' v else langVersion (''go'' @ sf_LangMod f))"

definition langSuffix :: "src_file \<Rightarrow> string" where
  "langSuffix f =
     (let gv = file_GoVersion (sf_AST f) in
      if gv \<noteq> [] \<and> version_Compare gv ''go1.21'' \<ge> 0 then ''(file declares //go:build '' @ gv @ '')''
      else if sf_LangMod f \<noteq> [] then ''(-lang was set to go'' @ sf_LangMod f @ ''; check go.mod)''
      else [])"

section \<open>The checker\<close>

text \<open>The fields of \<open>langChecker\<close> the walk reads, and those it changes.\<close>

record lang_ctx =
  lc_render :: "node \<Rightarrow> string"
  lc_lang :: string
  lc_declared :: "string \<rightharpoonup> decl_class"
  lc_locals :: "string \<Rightarrow> (nat \<times> nat) list"

record lang_error =
  le_pos :: nat
  le_feat :: string
  le_minv :: string

record lang_state =
  ls_seen :: "nat set"
  ls_err :: "lang_error option"

definition lang_message :: "(nat \<Rightarrow> string) \<Rightarrow> string \<Rightarrow> lang_error \<Rightarrow> string" where
  "lang_message position sfx e =
     position (le_pos e) @ '': '' @ le_feat e @ '' requires '' @ le_minv e @ '' or later '' @ sfx"

definition latestGate :: string where
  "latestGate = ''go1.27''"

definition localAt :: "lang_ctx \<Rightarrow> string \<Rightarrow> nat \<Rightarrow> bool" where
  "localAt c name pos \<longleftrightarrow> At (lc_locals c) name pos"

definition shadowedAt :: "lang_ctx \<Rightarrow> string \<Rightarrow> nat \<Rightarrow> bool" where
  "shadowedAt c name pos \<longleftrightarrow> lc_declared c name \<noteq> None \<or> localAt c name pos"

text \<open>Reading a missing key of the Go map gives \<open>DeclOther\<close>.\<close>

definition declared_kind :: "lang_ctx \<Rightarrow> string \<Rightarrow> decl_class" where
  "declared_kind c name = (case lc_declared c name of Some k \<Rightarrow> k | None \<Rightarrow> 0)"

definition typeishIndex :: "node \<Rightarrow> bool" where
  "typeishIndex e =
     (case e of
        SelectorExpr m x s \<Rightarrow> True | IndexExpr m x i \<Rightarrow> True | IndexListExpr m x is \<Rightarrow> True
      | StarExpr m x \<Rightarrow> True | ArrayType m l el \<Rightarrow> True | MapType m k v \<Rightarrow> True
      | ChanType m v \<Rightarrow> True | Ellipsis m el \<Rightarrow> True | StructType m fs \<Rightarrow> True
      | InterfaceType m ms \<Rightarrow> True | FuncType m tps ps rs \<Rightarrow> True
      | UnaryExpr m op x \<Rightarrow> True | BinaryExpr m x op y \<Rightarrow> True | _ \<Rightarrow> False)"

definition pkgQualifier :: "lang_ctx \<Rightarrow> node \<Rightarrow> bool" where
  "pkgQualifier c selx = (case selx of Ident m name \<Rightarrow> \<not> shadowedAt c name (npos m) | _ \<Rightarrow> False)"

definition lang_fail :: "lang_ctx \<Rightarrow> nat \<Rightarrow> string \<Rightarrow> string \<Rightarrow> lang_state \<Rightarrow> lang_state" where
  "lang_fail c pos minv feat s =
     (if ls_err s \<noteq> None \<or> version_Compare minv (lc_lang c) \<le> 0 then s
      else s\<lparr>ls_err := Some \<lparr>le_pos = pos, le_feat = feat, le_minv = minv\<rparr>\<rparr>)"

definition mark_seen :: "node \<Rightarrow> lang_state \<Rightarrow> lang_state" where
  "mark_seen n s = s\<lparr>ls_seen := insert (id_of n) (ls_seen s)\<rparr>"

text \<open>The switch of \<open>node\<close> on an index expression.\<close>

definition gate_index :: "lang_ctx \<Rightarrow> node \<Rightarrow> node \<Rightarrow> node \<Rightarrow> lang_state \<Rightarrow> lang_state" where
  "gate_index c n x i s =
     (case x of
        Ident m name \<Rightarrow>
          let k = declared_kind c name AND NOT DeclGeneric in
          if k = DeclFunc then lang_fail c (pos_of n) ''go1.18'' ''function instantiation'' s
          else if k = DeclType then lang_fail c (pos_of n) ''go1.18'' ''type instantiation'' s
          else s
      | SelectorExpr m q sel \<Rightarrow>
          if typeishIndex i \<and> pkgQualifier c q
          then lang_fail c (pos_of n) ''go1.18'' ''function instantiation'' s else s
      | _ \<Rightarrow> s)"

definition gate_index_list :: "lang_ctx \<Rightarrow> node \<Rightarrow> node \<Rightarrow> lang_state \<Rightarrow> lang_state" where
  "gate_index_list c n x s =
     lang_fail c (pos_of n) ''go1.18''
       (case x of
          Ident m name \<Rightarrow>
            let k = declared_kind c name AND NOT DeclGeneric in
            if k = DeclType then ''type instantiation''
            else if k = DeclFunc then ''function instantiation''
            else ''instantiation''
        | SelectorExpr m q sel \<Rightarrow> ''function instantiation''
        | _ \<Rightarrow> ''instantiation'') s"

definition gate_range :: "lang_ctx \<Rightarrow> node \<Rightarrow> lang_state \<Rightarrow> lang_state" where
  "gate_range c x s =
     (case x of
        BasicLit m k v \<Rightarrow>
          if k = token.INT
          then lang_fail c (npos m) ''go1.22'' (''cannot range over '' @ v @ '' (untyped int constant):'') s
          else s
      | _ \<Rightarrow> s)"

definition gate_implicit :: "lang_ctx \<Rightarrow> node \<Rightarrow> lang_state \<Rightarrow> lang_state" where
  "gate_implicit c f s =
     (case f of
        Ident m name \<Rightarrow>
          if declared_kind c name AND DeclGeneric \<noteq> 0 \<and> declared_kind c name AND DeclFunc = DeclFunc \<and>
             \<not> localAt c name (npos m)
          then lang_fail c (npos m) ''go1.18'' ''implicit function instantiation'' s
          else s
      | _ \<Rightarrow> s)"

text \<open>The second switch of \<open>builtinCall\<close>, for a name that is not shadowed.\<close>

definition new_feat :: "node \<Rightarrow> string option" where
  "new_feat arg =
     (case arg of
        BasicLit m k v \<Rightarrow> Some (''new('' @ v @ '')'')
      | CompositeLit m t es \<Rightarrow> Some ''new(expr)''
      | CallExpr m f as \<Rightarrow> Some ''new(expr)''
      | BinaryExpr m x op y \<Rightarrow> Some ''new(expr)''
      | UnaryExpr m op x \<Rightarrow> Some ''new(expr)''
      | _ \<Rightarrow> None)"

definition gate_new :: "lang_ctx \<Rightarrow> nat \<Rightarrow> node list \<Rightarrow> lang_state \<Rightarrow> lang_state" where
  "gate_new c pos args s =
     (case args of
        [arg] \<Rightarrow> (case new_feat arg of Some feat \<Rightarrow> lang_fail c pos ''go1.26'' feat s | None \<Rightarrow> s)
      | _ \<Rightarrow> s)"

definition gate_builtin :: "lang_ctx \<Rightarrow> string \<Rightarrow> nat \<Rightarrow> node list \<Rightarrow> lang_state \<Rightarrow> lang_state" where
  "gate_builtin c name pos args s =
     (if shadowedAt c name pos then s
      else if name = ''any'' then lang_fail c pos ''go1.18'' ''predeclared any'' s
      else if name = ''min'' \<or> name = ''max'' then lang_fail c pos ''go1.21'' (''built-in '' @ name) s
      else if name = ''clear'' then lang_fail c pos ''go1.21'' ''clear'' s
      else if name = ''new'' then gate_new c pos args s
      else s)"

definition is_value_form :: "node \<Rightarrow> bool" where
  "is_value_form e =
     (case e of
        BasicLit m k v \<Rightarrow> True | CompositeLit m t es \<Rightarrow> True | CallExpr m f as \<Rightarrow> True
      | BinaryExpr m x op y \<Rightarrow> True | UnaryExpr m op x \<Rightarrow> True | _ \<Rightarrow> False)"

text \<open>The argument of a call in type position, whoever the callee is.\<close>

definition type_arg :: "node \<Rightarrow> node list \<Rightarrow> node option" where
  "type_arg f args =
     (case f of
        Ident m name \<Rightarrow>
          if name = ''make'' then (case args of [] \<Rightarrow> None | a # as \<Rightarrow> Some a)
          else if name = ''new'' then (case args of [a] \<Rightarrow> (if is_value_form a then None else Some a) | _ \<Rightarrow> None)
          else None
      | _ \<Rightarrow> None)"

definition is_composite_type :: "node \<Rightarrow> bool" where
  "is_composite_type f =
     (case f of
        ArrayType m l el \<Rightarrow> True | MapType m k v \<Rightarrow> True | ChanType m v \<Rightarrow> True
      | StructType m fs \<Rightarrow> True | InterfaceType m ms \<Rightarrow> True | Ellipsis m el \<Rightarrow> True | _ \<Rightarrow> False)"

definition gate_header :: "lang_ctx \<Rightarrow> node option \<Rightarrow> string \<Rightarrow> string \<Rightarrow> lang_state \<Rightarrow> lang_state" where
  "gate_header c tps minv feat s =
     (case tps of
        Some fl \<Rightarrow> if field_list tps \<noteq> [] then lang_fail c (pos_of fl) minv feat s else s
      | None \<Rightarrow> s)"

definition is_type_set :: "node \<Rightarrow> bool" where
  "is_type_set e = (case e of UnaryExpr m op x \<Rightarrow> True | BinaryExpr m x op y \<Rightarrow> True | _ \<Rightarrow> False)"

definition gate_type_set :: "lang_ctx \<Rightarrow> node \<Rightarrow> lang_state \<Rightarrow> lang_state" where
  "gate_type_set c e s =
     lang_fail c (pos_of e) ''go1.18'' (''embedding interface element '' @ lc_render c e) s"

text \<open>
  The type-grammar walk (\<open>typeExpr\<close>, \<open>typeElem\<close>, \<open>fieldTypes\<close>, \<open>typeParams\<close>, \<open>sigTypes\<close>) and the
  expression pass (\<open>node\<close> and \<open>builtinCall\<close>, driven by \<open>ast.Inspect\<close>) call each other: an array
  length is an expression inside a type.
\<close>

definition fl_size :: "node option \<Rightarrow> nat" where
  "fl_size fl = (case fl of None \<Rightarrow> 0 | Some n \<Rightarrow> size n)"

lemma fl_size_simps [simp]: "fl_size None = 0" "fl_size (Some n) = size n"
  by (simp_all add: fl_size_def)

lemma size_option_fl [simp]: "size_option size fl = Suc (fl_size fl)"
  by (cases fl) simp_all

lemma field_type_size [termination_simp]:
  "f \<in> set (field_list fl) \<Longrightarrow> field_type f = Some t \<Longrightarrow> size t < fl_size fl"
proof -
  assume f: "f \<in> set (field_list fl)" "field_type f = Some t"
  then obtain m fs where fl: "fl = Some (FieldList m fs)" "f \<in> set fs"
    by (cases fl) (auto simp: field_list_def split: node.splits)
  from f(2) obtain m' ns tag where "f = Field m' ns (Some t) tag"
    by (auto simp: field_type_def split: node.splits)
  moreover have "size f < Suc (size_list size fs)" using fl(2) by (rule size_list_less)
  ultimately show ?thesis using fl by simp
qed

lemma ft_TypeParams_size: "fl_size (ft_TypeParams ft) \<le> size ft"
  by (cases ft) (simp_all add: ft_TypeParams_def)

lemma ft_Params_size: "fl_size (ft_Params ft) \<le> size ft"
  by (cases ft) (simp_all add: ft_Params_def)

lemma ft_Results_size: "fl_size (ft_Results ft) \<le> size ft"
  by (cases ft) (simp_all add: ft_Results_def)

lemma size_elem: "x \<in> set xs \<Longrightarrow> size x \<le> size_list size xs"
  using size_list_less [of x xs] by simp

lemma type_arg_size: "type_arg f args = Some a \<Longrightarrow> size a \<le> size_list size args"
  by (rule size_elem) (auto simp: type_arg_def split: node.splits if_splits list.splits)

function typeExpr :: "lang_ctx \<Rightarrow> node \<Rightarrow> lang_state \<Rightarrow> lang_state"
  and typeElem :: "lang_ctx \<Rightarrow> node \<Rightarrow> lang_state \<Rightarrow> lang_state"
  and fieldTypes :: "lang_ctx \<Rightarrow> node option \<Rightarrow> lang_state \<Rightarrow> lang_state"
  and typeParams :: "lang_ctx \<Rightarrow> node option \<Rightarrow> lang_state \<Rightarrow> lang_state"
  and sigTypes :: "lang_ctx \<Rightarrow> node \<Rightarrow> bool \<Rightarrow> lang_state \<Rightarrow> lang_state"
  and lang_specs :: "lang_ctx \<Rightarrow> node list \<Rightarrow> lang_state \<Rightarrow> lang_state"
  and lang_node :: "lang_ctx \<Rightarrow> node \<Rightarrow> lang_state \<Rightarrow> lang_state"
  and lang_inspect :: "lang_ctx \<Rightarrow> node \<Rightarrow> lang_state \<Rightarrow> lang_state"
where
  "typeExpr c e s =
     (if ls_err s \<noteq> None \<or> id_of e \<in> ls_seen s then s
      else
        let s = mark_seen e s in
        case e of
          Ident m name \<Rightarrow>
            if name = ''any'' \<and> \<not> shadowedAt c ''any'' (npos m)
            then lang_fail c (npos m) ''go1.18'' ''predeclared any'' s else s
        | IndexExpr m x i \<Rightarrow>
            typeExpr c i (typeExpr c x (lang_fail c (npos m) ''go1.18'' ''type instantiation'' s))
        | IndexListExpr m x is \<Rightarrow>
            fold (typeExpr c) is (typeExpr c x (lang_fail c (npos m) ''go1.18'' ''type instantiation'' s))
        | StarExpr m x \<Rightarrow> typeExpr c x s
        | ParenExpr m x \<Rightarrow> typeExpr c x s
        | ArrayType m len elt \<Rightarrow>
            typeExpr c elt (case len of Some l \<Rightarrow> lang_inspect c l s | None \<Rightarrow> s)
        | MapType m k v \<Rightarrow> typeExpr c v (typeExpr c k s)
        | ChanType m v \<Rightarrow> typeExpr c v s
        | Ellipsis m elt \<Rightarrow> (case elt of Some t \<Rightarrow> typeExpr c t s | None \<Rightarrow> s)
        | StructType m fs \<Rightarrow> fieldTypes c fs s
        | FuncType m tps ps rs \<Rightarrow> sigTypes c e False s
        | InterfaceType m ms \<Rightarrow>
            fold (\<lambda>f s. case field_type f of
                None \<Rightarrow> s
              | Some t \<Rightarrow> if field_names f = [] then typeElem c t s else typeExpr c t s)
              (field_list ms) s
        | UnaryExpr m op x \<Rightarrow> gate_type_set c e s
        | BinaryExpr m x op y \<Rightarrow> gate_type_set c e s
        | _ \<Rightarrow> s)"
| "typeElem c e s = (if is_type_set e then gate_type_set c e s else typeExpr c e s)"
| "fieldTypes c fl s =
     fold (\<lambda>f s. case field_type f of None \<Rightarrow> s | Some t \<Rightarrow> typeExpr c t s) (field_list fl) s"
| "typeParams c fl s =
     fold (\<lambda>f s. case field_type f of None \<Rightarrow> s | Some t \<Rightarrow> typeElem c t s) (field_list fl) s"
| "sigTypes c ft isMethod s =
     fieldTypes c (ft_Results ft) (fieldTypes c (ft_Params ft) (typeParams c (ft_TypeParams ft)
       (mark_seen ft
         (if isMethod then gate_header c (ft_TypeParams ft) ''go1.27'' ''generic method'' s
          else gate_header c (ft_TypeParams ft) ''go1.18'' ''type parameter'' s))))"
| "lang_specs c specs s =
     fold (\<lambda>sp s. case sp of
         TypeSpec m name tps al t \<Rightarrow>
           typeExpr c t (typeParams c tps
             (if al then gate_header c tps ''go1.23'' ''generic type alias'' s
              else gate_header c tps ''go1.18'' ''type parameter'' s))
       | ValueSpec m names t vs \<Rightarrow> (case t of Some t \<Rightarrow> typeExpr c t s | None \<Rightarrow> s)
       | _ \<Rightarrow> s) specs s"
| "lang_node c n s =
     (case n of
        GenDecl m tok specs \<Rightarrow> lang_specs c specs s
      | FuncDecl m recv name ft body \<Rightarrow> fieldTypes c recv (sigTypes c ft (recv \<noteq> None) s)
      | FuncType m tps ps rs \<Rightarrow> sigTypes c n False s
      | CallExpr m f args \<Rightarrow>
          let s1 = (case type_arg f args of Some a \<Rightarrow> typeExpr c a s | None \<Rightarrow> s);
              s2 = (case f of Ident m' name \<Rightarrow> gate_builtin c name (npos m') args s1 | _ \<Rightarrow> s1);
              s3 = (if is_composite_type f then typeExpr c f s2 else s2)
          in gate_implicit c f s3
      | RangeStmt m key val tok x body \<Rightarrow> gate_range c x s
      | IndexExpr m x i \<Rightarrow> gate_index c n x i s
      | IndexListExpr m x is \<Rightarrow> gate_index_list c n x s
      | CompositeLit m t es \<Rightarrow> (case t of Some t \<Rightarrow> typeExpr c t s | None \<Rightarrow> s)
      | TypeAssertExpr m x t \<Rightarrow> (case t of Some t \<Rightarrow> typeExpr c t s | None \<Rightarrow> s)
      | _ \<Rightarrow> s)"
| "lang_inspect c n s =
     (if ls_err s \<noteq> None \<or> id_of n \<in> ls_seen s then s
      else
        let s' = lang_node c n s in
        if ls_err s' = None then fold (lang_inspect c) (children n) s' else s')"
  by pat_completeness auto
termination
  by (relation "measure (\<lambda>x. case x of
      Inl (Inl (Inl (c, e, s))) \<Rightarrow> 8 * size e + 2
    | Inl (Inl (Inr (c, e, s))) \<Rightarrow> 8 * size e + 3
    | Inl (Inr (Inl (c, fl, s))) \<Rightarrow> 8 * fl_size fl
    | Inl (Inr (Inr (c, fl, s))) \<Rightarrow> 8 * fl_size fl
    | Inr (Inl (Inl (c, ft, b, s))) \<Rightarrow> 8 * size ft + 1
    | Inr (Inl (Inr (c, specs, s))) \<Rightarrow> 8 * size_list size specs + 1
    | Inr (Inr (Inl (c, n, s))) \<Rightarrow> 8 * size n + 3
    | Inr (Inr (Inr (c, n, s))) \<Rightarrow> 8 * size n + 4)")
    (use ft_TypeParams_size ft_Params_size ft_Results_size in
      \<open>auto simp: less_Suc_eq_le intro: le_less_trans dest: size_children field_type_size size_elem type_arg_size\<close>)

declare typeExpr.simps [simp del] typeElem.simps [simp del] fieldTypes.simps [simp del]
  typeParams.simps [simp del] sigTypes.simps [simp del] lang_specs.simps [simp del]
  lang_node.simps [simp del] lang_inspect.simps [simp del]

lemmas lang_walk_simps = typeExpr.simps typeElem.simps fieldTypes.simps typeParams.simps sigTypes.simps
  lang_specs.simps lang_node.simps lang_inspect.simps

lemmas lang_walk_induct = typeExpr_typeElem_fieldTypes_typeParams_sigTypes_lang_specs_lang_node_lang_inspect.induct

text \<open>The walk is \<open>ast.Inspect\<close> with the closure \<open>c.node\<close>.\<close>

definition lang_visit :: "lang_ctx \<Rightarrow> lang_state \<Rightarrow> node \<Rightarrow> bool \<times> lang_state" where
  "lang_visit c s n =
     (if ls_err s \<noteq> None \<or> id_of n \<in> ls_seen s then (False, s)
      else let s' = lang_node c n s in (ls_err s' = None, s'))"

lemma lang_inspect_is_inspect: "lang_inspect c n s = inspect (lang_visit c) (\<lambda>s. s) n s"
proof (induction n arbitrary: s rule: node_induct)
  case (1 n)
  have "fold (lang_inspect c) cs b = fold (inspect (lang_visit c) (\<lambda>s. s)) cs b"
    if "set cs \<subseteq> set (children n)" for cs b
    using that by (induction cs arbitrary: b) (auto simp: 1)
  then show ?case
    by (subst lang_inspect.simps, subst inspect.simps) (simp add: lang_visit_def Let_def)
qed

section \<open>\<open>CheckLang\<close>\<close>

definition lang_context :: "(node \<Rightarrow> string) \<Rightarrow> src_file \<Rightarrow> (string \<rightharpoonup> decl_class) \<Rightarrow> lang_ctx" where
  "lang_context render f declared =
     \<lparr>lc_render = render, lc_lang = Lang f, lc_declared = declared,
      lc_locals = NewLocalScopes (sf_AST f)\<rparr>"

definition lang_start :: lang_state where
  "lang_start = \<lparr>ls_seen = {}, ls_err = None\<rparr>"

definition CheckLang ::
    "(node \<Rightarrow> string) \<Rightarrow> src_file \<Rightarrow> (string \<rightharpoonup> decl_class) \<Rightarrow> lang_error option" where
  "CheckLang render f declared =
     (if Lang f = [] \<or> version_Compare (Lang f) latestGate \<ge> 0 then None
      else ls_err (inspect (lang_visit (lang_context render f declared)) (\<lambda>s. s) (sf_AST f) lang_start))"

section \<open>What the walk does to its state\<close>

text \<open>The bodies of \<open>typeExpr\<close> and of the two loops, without their guards.\<close>

definition type_body :: "lang_ctx \<Rightarrow> node \<Rightarrow> lang_state \<Rightarrow> lang_state" where
  "type_body c e s =
     (case e of
        Ident m name \<Rightarrow>
          if name = ''any'' \<and> \<not> shadowedAt c ''any'' (npos m)
          then lang_fail c (npos m) ''go1.18'' ''predeclared any'' s else s
      | IndexExpr m x i \<Rightarrow>
          typeExpr c i (typeExpr c x (lang_fail c (npos m) ''go1.18'' ''type instantiation'' s))
      | IndexListExpr m x is \<Rightarrow>
          fold (typeExpr c) is (typeExpr c x (lang_fail c (npos m) ''go1.18'' ''type instantiation'' s))
      | StarExpr m x \<Rightarrow> typeExpr c x s
      | ParenExpr m x \<Rightarrow> typeExpr c x s
      | ArrayType m len elt \<Rightarrow> typeExpr c elt (fold (lang_inspect c) (opt len) s)
      | MapType m k v \<Rightarrow> typeExpr c v (typeExpr c k s)
      | ChanType m v \<Rightarrow> typeExpr c v s
      | Ellipsis m elt \<Rightarrow> fold (typeExpr c) (opt elt) s
      | StructType m fs \<Rightarrow> fieldTypes c fs s
      | FuncType m tps ps rs \<Rightarrow> sigTypes c e False s
      | InterfaceType m ms \<Rightarrow>
          fold (\<lambda>f. fold (if field_names f = [] then typeElem c else typeExpr c) (opt (field_type f)))
            (field_list ms) s
      | UnaryExpr m op x \<Rightarrow> gate_type_set c e s
      | BinaryExpr m x op y \<Rightarrow> gate_type_set c e s
      | _ \<Rightarrow> s)"

lemma fold_opt: "fold f (opt x) s = (case x of None \<Rightarrow> s | Some y \<Rightarrow> f y s)"
  by (cases x) simp_all

lemma typeExpr_body:
  "typeExpr c e = (\<lambda>s. if ls_err s \<noteq> None \<or> id_of e \<in> ls_seen s then s else type_body c e (mark_seen e s))"
proof
  have elem: "(\<lambda>f s. case field_type f of None \<Rightarrow> s
      | Some t \<Rightarrow> if field_names f = [] then typeElem c t s else typeExpr c t s) =
    (\<lambda>f. fold (if field_names f = [] then typeElem c else typeExpr c) (opt (field_type f)))"
    by (auto simp: fun_eq_iff fold_opt split: option.split)
  fix s
  show "typeExpr c e s =
      (if ls_err s \<noteq> None \<or> id_of e \<in> ls_seen s then s else type_body c e (mark_seen e s))"
    by (subst typeExpr.simps, cases e) (simp_all add: type_body_def fold_opt elem Let_def)
qed

lemma case_field_fold:
  "(\<lambda>f s. case field_type f of None \<Rightarrow> s | Some t \<Rightarrow> g t s) = (\<lambda>f. fold g (opt (field_type f)))"
  by (simp add: fun_eq_iff fold_opt)

lemma fieldTypes_body: "fieldTypes c fl = fold (\<lambda>f. fold (typeExpr c) (opt (field_type f))) (field_list fl)"
  by (simp add: fun_eq_iff fieldTypes.simps case_field_fold)

lemma typeParams_body: "typeParams c fl = fold (\<lambda>f. fold (typeElem c) (opt (field_type f))) (field_list fl)"
  by (simp add: fun_eq_iff typeParams.simps case_field_fold)

definition spec_body :: "lang_ctx \<Rightarrow> node \<Rightarrow> lang_state \<Rightarrow> lang_state" where
  "spec_body c sp s =
     (case sp of
        TypeSpec m name tps al t \<Rightarrow>
          typeExpr c t (typeParams c tps
            (if al then gate_header c tps ''go1.23'' ''generic type alias'' s
             else gate_header c tps ''go1.18'' ''type parameter'' s))
      | ValueSpec m names t vs \<Rightarrow> fold (typeExpr c) (opt t) s
      | _ \<Rightarrow> s)"

lemma lang_specs_body: "lang_specs c specs = fold (spec_body c) specs"
proof -
  have "(\<lambda>sp s. case sp of
         TypeSpec m name tps al t \<Rightarrow>
           typeExpr c t (typeParams c tps
             (if al then gate_header c tps ''go1.23'' ''generic type alias'' s
              else gate_header c tps ''go1.18'' ''type parameter'' s))
       | ValueSpec m names t vs \<Rightarrow> (case t of Some t \<Rightarrow> typeExpr c t s | None \<Rightarrow> s)
       | _ \<Rightarrow> s) = spec_body c"
    unfolding fun_eq_iff
  proof (intro allI)
    fix sp s
    show "(case sp of
         TypeSpec m name tps al t \<Rightarrow>
           typeExpr c t (typeParams c tps
             (if al then gate_header c tps ''go1.23'' ''generic type alias'' s
              else gate_header c tps ''go1.18'' ''type parameter'' s))
       | ValueSpec m names t vs \<Rightarrow> (case t of Some t \<Rightarrow> typeExpr c t s | None \<Rightarrow> s)
       | _ \<Rightarrow> s) = spec_body c sp s"
      by (cases sp) (simp_all add: spec_body_def fold_opt)
  qed
  then show ?thesis unfolding fun_eq_iff lang_specs.simps by simp
qed

lemma inspect_body:
  "lang_inspect c n = (\<lambda>s. if ls_err s \<noteq> None \<or> id_of n \<in> ls_seen s then s
     else (\<lambda>s. if ls_err s = None then fold (lang_inspect c) (children n) s else s) (lang_node c n s))"
  by (rule ext) (subst lang_inspect.simps, simp add: Let_def)

definition call_body :: "lang_ctx \<Rightarrow> node \<Rightarrow> node list \<Rightarrow> lang_state \<Rightarrow> lang_state" where
  "call_body c f args s =
     gate_implicit c f
       (fold (typeExpr c) (if is_composite_type f then [f] else [])
         ((case f of Ident m' name \<Rightarrow> gate_builtin c name (npos m') args | _ \<Rightarrow> (\<lambda>s. s))
           (fold (typeExpr c) (opt (type_arg f args)) s)))"

lemma call_body: "lang_node c (CallExpr m f args) = call_body c f args"
  by (rule ext, cases f) (simp_all add: lang_node.simps call_body_def fold_opt Let_def split: option.split)

text \<open>
  The contract of the walk, over the runs under two contexts that differ in the language version only:
  a relation between the two runs that the elementary steps keep, and that sequencing and the two
  guards keep, relates the whole walks.
\<close>

definition gates :: "string set" where
  "gates = {''go1.18'', ''go1.21'', ''go1.22'', ''go1.23'', ''go1.26'', ''go1.27''}"

locale lang_runs =
  fixes c1 c2 :: lang_ctx and S :: "(lang_state \<Rightarrow> lang_state) \<Rightarrow> (lang_state \<Rightarrow> lang_state) \<Rightarrow> bool"
  assumes same: "c2 = c1\<lparr>lc_lang := lc_lang c2\<rparr>"
    and S_id: "S (\<lambda>s. s) (\<lambda>s. s)"
    and S_comp: "S f1 f2 \<Longrightarrow> S g1 g2 \<Longrightarrow> S (\<lambda>s. g1 (f1 s)) (\<lambda>s. g2 (f2 s))"
    and S_fail: "minv \<in> gates \<Longrightarrow> S (lang_fail c1 pos minv feat) (lang_fail c2 pos minv feat)"
    and S_mark: "S (mark_seen n) (mark_seen n)"
    and S_guard: "S f1 f2 \<Longrightarrow>
      S (\<lambda>s. if ls_err s \<noteq> None \<or> i \<in> ls_seen s then s else f1 s)
        (\<lambda>s. if ls_err s \<noteq> None \<or> i \<in> ls_seen s then s else f2 s)"
    and S_unless: "S f1 f2 \<Longrightarrow>
      S (\<lambda>s. if ls_err s = None then f1 s else s) (\<lambda>s. if ls_err s = None then f2 s else s)"
begin

lemma same_parts: "lc_declared c2 = lc_declared c1" "lc_locals c2 = lc_locals c1" "lc_render c2 = lc_render c1"
  by (subst same, simp)+

lemma same_tests:
  "localAt c2 = localAt c1" "shadowedAt c2 = shadowedAt c1" "declared_kind c2 = declared_kind c1"
  "pkgQualifier c2 = pkgQualifier c1"
  by (simp_all add: fun_eq_iff localAt_def shadowedAt_def declared_kind_def pkgQualifier_def same_parts
      split: node.split)

lemma S_fold:
  "(\<And>x. x \<in> set xs \<Longrightarrow> S (f1 x) (f2 x)) \<Longrightarrow> S (fold f1 xs) (fold f2 xs)"
proof (induction xs)
  case Nil
  then show ?case using S_id by (simp add: id_def)
next
  case (Cons x xs)
  then show ?case using S_comp [of "f1 x" "f2 x" "fold f1 xs" "fold f2 xs"] by (simp add: comp_def)
qed

lemma S_if: "(b \<Longrightarrow> S f1 f2) \<Longrightarrow> (\<not> b \<Longrightarrow> S g1 g2) \<Longrightarrow> S (\<lambda>s. if b then f1 s else g1 s) (\<lambda>s. if b then f2 s else g2 s)"
  by (cases b) simp_all

lemma gate_in [simp]:
  "''go1.18'' \<in> gates" "''go1.21'' \<in> gates" "''go1.22'' \<in> gates" "''go1.23'' \<in> gates"
  "''go1.26'' \<in> gates" "''go1.27'' \<in> gates"
  by (simp_all add: gates_def)

lemma S_gate_index: "S (gate_index c1 n x i) (gate_index c2 n x i)"
  by (cases x) (simp_all add: gate_index_def [abs_def] Let_def same_tests S_if S_fail S_id)

lemma S_gate_index_list: "S (gate_index_list c1 n x) (gate_index_list c2 n x)"
  unfolding gate_index_list_def [abs_def] same_tests by (rule S_fail) simp

lemma S_gate_range: "S (gate_range c1 x) (gate_range c2 x)"
  by (cases x) (simp_all add: gate_range_def [abs_def] S_if S_fail S_id)

lemma S_gate_implicit: "S (gate_implicit c1 x) (gate_implicit c2 x)"
  by (cases x) (simp_all add: gate_implicit_def [abs_def] same_tests S_if S_fail S_id)

lemma S_gate_type_set: "S (gate_type_set c1 e) (gate_type_set c2 e)"
  unfolding gate_type_set_def [abs_def] same_parts by (rule S_fail) simp

lemma S_gate_new: "S (gate_new c1 pos args) (gate_new c2 pos args)"
proof (cases args)
  case (Cons a as)
  then show ?thesis by (cases as; cases "new_feat a") (simp_all add: gate_new_def [abs_def] S_id S_fail)
qed (simp add: gate_new_def [abs_def] S_id)

lemma S_gate_builtin: "S (gate_builtin c1 name pos args) (gate_builtin c2 name pos args)"
  unfolding gate_builtin_def [abs_def] same_tests
  by (intro S_if S_id S_gate_new S_fail gate_in)

lemma S_gate_header: "minv \<in> gates \<Longrightarrow> S (gate_header c1 tps minv feat) (gate_header c2 tps minv feat)"
  by (cases tps) (simp_all add: gate_header_def [abs_def] S_if S_fail S_id)

lemmas S_gates = S_gate_index S_gate_index_list S_gate_range S_gate_implicit S_gate_type_set S_gate_builtin

text \<open>The walk below a node, from the walks of the smaller nodes.\<close>

definition walks_below :: "nat \<Rightarrow> bool" where
  "walks_below k \<longleftrightarrow> (\<forall>e. size e < k \<longrightarrow>
     S (typeExpr c1 e) (typeExpr c2 e) \<and> S (lang_inspect c1 e) (lang_inspect c2 e))"

lemma below_type: "walks_below k \<Longrightarrow> size e < k \<Longrightarrow> S (typeExpr c1 e) (typeExpr c2 e)"
  by (simp add: walks_below_def)

lemma below_inspect: "walks_below k \<Longrightarrow> size e < k \<Longrightarrow> S (lang_inspect c1 e) (lang_inspect c2 e)"
  by (simp add: walks_below_def)

lemma S_typeElem: "S (typeExpr c1 e) (typeExpr c2 e) \<Longrightarrow> S (typeElem c1 e) (typeElem c2 e)"
  unfolding typeElem.simps [abs_def] by (intro S_if S_gate_type_set)

lemma below_field:
  "walks_below k \<Longrightarrow> fl_size fl \<le> k \<Longrightarrow> f \<in> set (field_list fl) \<Longrightarrow> t \<in> set (opt (field_type f)) \<Longrightarrow>
   S (typeExpr c1 t) (typeExpr c2 t)"
  by (rule below_type, assumption) (cases "field_type f"; force dest: field_type_size)

lemma S_fieldTypes: "walks_below k \<Longrightarrow> fl_size fl \<le> k \<Longrightarrow> S (fieldTypes c1 fl) (fieldTypes c2 fl)"
  unfolding fieldTypes_body by (intro S_fold) (rule below_field)

lemma S_typeParams: "walks_below k \<Longrightarrow> fl_size fl \<le> k \<Longrightarrow> S (typeParams c1 fl) (typeParams c2 fl)"
  unfolding typeParams_body by (intro S_fold S_typeElem) (rule below_field)

lemma S_header_if:
  "S (\<lambda>s. if b then gate_header c1 tps ''go1.27'' f1 s else gate_header c1 tps ''go1.18'' f2 s)
     (\<lambda>s. if b then gate_header c2 tps ''go1.27'' f1 s else gate_header c2 tps ''go1.18'' f2 s)"
  "S (\<lambda>s. if b then gate_header c1 tps ''go1.23'' f1 s else gate_header c1 tps ''go1.18'' f2 s)
     (\<lambda>s. if b then gate_header c2 tps ''go1.23'' f1 s else gate_header c2 tps ''go1.18'' f2 s)"
  by (intro S_if S_gate_header gate_in)+

lemma S_sigTypes:
  assumes "walks_below k" "size ft \<le> k"
  shows "S (sigTypes c1 ft b) (sigTypes c2 ft b)"
proof -
  have le: "fl_size (ft_TypeParams ft) \<le> k" "fl_size (ft_Params ft) \<le> k" "fl_size (ft_Results ft) \<le> k"
    using assms(2) ft_TypeParams_size ft_Params_size ft_Results_size order_trans by blast+
  note fields = S_fieldTypes [OF assms(1)] S_typeParams [OF assms(1)]
  show ?thesis
    unfolding sigTypes.simps [abs_def]
    by (rule S_comp [OF S_comp [OF S_comp [OF S_comp [OF S_header_if(1) S_mark] fields(2) [OF le(1)]]
          fields(1) [OF le(2)]] fields(1) [OF le(3)]])
qed

lemma S_typeExprs:
  "walks_below k \<Longrightarrow> (\<And>t. t \<in> set ts \<Longrightarrow> size t < k) \<Longrightarrow> S (fold (typeExpr c1) ts) (fold (typeExpr c2) ts)"
  by (intro S_fold below_type)

lemma opt_size: "t \<in> set (opt x) \<Longrightarrow> size t \<le> fl_size x"
  by (cases x) auto

lemma S_type_fail:
  "S (\<lambda>s. typeExpr c1 x (lang_fail c1 pos ''go1.18'' feat s)) (\<lambda>s. typeExpr c2 x (lang_fail c2 pos ''go1.18'' feat s))"
  if "S (typeExpr c1 x) (typeExpr c2 x)"
  by (rule S_comp [OF S_fail that]) simp

lemma S_elements:
  assumes "walks_below k" "fl_size fl \<le> k"
  shows "S (fold (\<lambda>f. fold (if field_names f = [] then typeElem c1 else typeExpr c1) (opt (field_type f))) (field_list fl))
    (fold (\<lambda>f. fold (if field_names f = [] then typeElem c2 else typeExpr c2) (opt (field_type f))) (field_list fl))"
proof (intro S_fold)
  fix f t assume "f \<in> set (field_list fl)" "t \<in> set (opt (field_type f))"
  with assms have "S (typeExpr c1 t) (typeExpr c2 t)" by (rule below_field)
  then show "S ((if field_names f = [] then typeElem c1 else typeExpr c1) t)
      ((if field_names f = [] then typeElem c2 else typeExpr c2) t)"
    by (simp add: S_typeElem)
qed

lemma S_type_body:
  assumes below: "walks_below (size e)"
  shows "S (type_body c1 e) (type_body c2 e)"
proof (cases e)
  case (Ident m name)
  then show ?thesis by (simp add: type_body_def [abs_def] same_tests S_if S_fail S_id)
next
  case (IndexExpr m x i)
  then have "S (typeExpr c1 x) (typeExpr c2 x)" "S (typeExpr c1 i) (typeExpr c2 i)"
    using below by (auto intro: below_type)
  from S_comp [OF S_type_fail [OF this(1)] this(2)] IndexExpr show ?thesis
    by (simp add: type_body_def [abs_def])
next
  case (IndexListExpr m x ixs)
  then have x: "S (typeExpr c1 x) (typeExpr c2 x)" using below by (auto intro: below_type)
  have "S (fold (typeExpr c1) ixs) (fold (typeExpr c2) ixs)"
    by (rule S_typeExprs [OF below]) (use IndexListExpr size_elem in fastforce)
  from S_comp [OF S_type_fail [OF x] this] IndexListExpr show ?thesis
    by (simp add: type_body_def [abs_def])
next
  case (ArrayType m len elt)
  then have elt: "S (typeExpr c1 elt) (typeExpr c2 elt)" using below by (auto intro: below_type)
  have "S (fold (lang_inspect c1) (opt len)) (fold (lang_inspect c2) (opt len))"
    by (intro S_fold below_inspect [OF below]) (use ArrayType opt_size in fastforce)
  from S_comp [OF this elt] ArrayType show ?thesis by (simp add: type_body_def [abs_def])
next
  case (MapType m k v)
  then have "S (typeExpr c1 k) (typeExpr c2 k)" "S (typeExpr c1 v) (typeExpr c2 v)"
    using below by (auto intro: below_type)
  from S_comp [OF this] MapType show ?thesis by (simp add: type_body_def [abs_def])
next
  case (Ellipsis m elt)
  have "S (fold (typeExpr c1) (opt elt)) (fold (typeExpr c2) (opt elt))"
    by (rule S_typeExprs [OF below]) (use Ellipsis opt_size in fastforce)
  with Ellipsis show ?thesis by (simp add: type_body_def [abs_def])
next
  case (StructType m fs)
  then show ?thesis using S_fieldTypes [OF below, of fs] by (simp add: type_body_def [abs_def])
next
  case (InterfaceType m ms)
  then show ?thesis using S_elements [OF below, of ms] by (simp add: type_body_def [abs_def])
next
  case (FuncType m tps ps rs)
  then show ?thesis using S_sigTypes [OF below, of e] by (simp add: type_body_def [abs_def])
qed (use below in \<open>simp_all add: type_body_def [abs_def] below_type S_gate_type_set S_id\<close>)

lemma S_typeExpr: "walks_below (size e) \<Longrightarrow> S (typeExpr c1 e) (typeExpr c2 e)"
  unfolding typeExpr_body by (intro S_guard S_comp [OF S_mark S_type_body])

lemma S_spec_body:
  assumes below: "walks_below k" and sp: "size sp \<le> k"
  shows "S (spec_body c1 sp) (spec_body c2 sp)"
proof (cases sp)
  case (TypeSpec m name tps al t)
  then have t: "S (typeExpr c1 t) (typeExpr c2 t)" and le: "fl_size tps \<le> k"
    using sp by (auto intro: below_type [OF below])
  from S_comp [OF S_comp [OF S_header_if(2) S_typeParams [OF below le]] t] TypeSpec show ?thesis
    by (simp add: spec_body_def [abs_def])
next
  case (ValueSpec m ns t vs)
  have "S (fold (typeExpr c1) (opt t)) (fold (typeExpr c2) (opt t))"
    by (rule S_typeExprs [OF below]) (use ValueSpec sp opt_size in fastforce)
  with ValueSpec show ?thesis by (simp add: spec_body_def [abs_def])
qed (simp_all add: spec_body_def [abs_def] S_id)

lemma S_call_body:
  assumes below: "walks_below k" and f: "size f < k" and args: "\<And>a. a \<in> set args \<Longrightarrow> size a < k"
  shows "S (call_body c1 f args) (call_body c2 f args)"
proof -
  have t: "S (fold (typeExpr c1) (opt (type_arg f args))) (fold (typeExpr c2) (opt (type_arg f args)))"
    by (rule S_typeExprs [OF below]) (auto simp: type_arg_def intro: args split: node.splits if_splits list.splits)
  have b: "S (case f of Ident m' name \<Rightarrow> gate_builtin c1 name (npos m') args | _ \<Rightarrow> (\<lambda>s. s))
      (case f of Ident m' name \<Rightarrow> gate_builtin c2 name (npos m') args | _ \<Rightarrow> (\<lambda>s. s))"
    by (cases f) (simp_all add: S_gate_builtin S_id)
  have k: "S (fold (typeExpr c1) (if is_composite_type f then [f] else []))
      (fold (typeExpr c2) (if is_composite_type f then [f] else []))"
    by (rule S_typeExprs [OF below]) (use f in \<open>auto split: if_splits\<close>)
  show ?thesis
    unfolding call_body_def [abs_def]
    by (rule S_comp [OF S_comp [OF S_comp [OF t b] k] S_gate_implicit])
qed

lemma S_node:
  assumes below: "walks_below (size n)"
  shows "S (lang_node c1 n) (lang_node c2 n)"
proof (cases n)
  case (GenDecl m tok specs)
  then have "S (spec_body c1 sp) (spec_body c2 sp)" if "sp \<in> set specs" for sp
    using that size_elem [of sp specs] by (intro S_spec_body [OF below]) simp
  then show ?thesis by (simp add: GenDecl lang_node.simps [abs_def] lang_specs_body S_fold)
next
  case (FuncDecl m recv name ft body)
  then have "S (sigTypes c1 ft (recv \<noteq> None)) (sigTypes c2 ft (recv \<noteq> None))"
      "S (fieldTypes c1 recv) (fieldTypes c2 recv)"
    by (auto intro!: S_sigTypes [OF below] S_fieldTypes [OF below])
  from S_comp [OF this] show ?thesis by (simp add: FuncDecl lang_node.simps [abs_def])
next
  case (FuncType m tps ps rs)
  then show ?thesis using S_sigTypes [OF below, of n False] by (simp add: lang_node.simps [abs_def])
next
  case (CallExpr m f args)
  have "S (call_body c1 f args) (call_body c2 f args)"
    by (rule S_call_body [OF below]) (use CallExpr size_elem in fastforce)+
  then show ?thesis by (simp add: CallExpr call_body)
next
  case (CompositeLit m t es)
  have "S (fold (typeExpr c1) (opt t)) (fold (typeExpr c2) (opt t))"
    by (rule S_typeExprs [OF below]) (use CompositeLit opt_size in fastforce)
  then show ?thesis by (cases t) (simp_all add: CompositeLit lang_node.simps [abs_def] S_id)
next
  case (TypeAssertExpr m x t)
  have "S (fold (typeExpr c1) (opt t)) (fold (typeExpr c2) (opt t))"
    by (rule S_typeExprs [OF below]) (use TypeAssertExpr opt_size in fastforce)
  then show ?thesis by (cases t) (simp_all add: TypeAssertExpr lang_node.simps [abs_def] S_id)
qed (simp_all add: lang_node.simps [abs_def] S_gates S_id)

lemma S_inspect:
  assumes below: "walks_below (size n)"
  shows "S (lang_inspect c1 n) (lang_inspect c2 n)"
proof -
  have "S (fold (lang_inspect c1) (children n)) (fold (lang_inspect c2) (children n))"
    by (intro S_fold below_inspect [OF below]) (rule size_children)
  from S_comp [OF S_node [OF below] S_unless [OF this]] show ?thesis
    unfolding inspect_body [of c1 n] inspect_body [of c2 n] by (rule S_guard)
qed

lemma S_all: "walks_below k"
proof (induction k)
  case 0
  then show ?case by (simp add: walks_below_def)
next
  case (Suc k)
  have below: "walks_below (size e)" if "size e < Suc k" for e
    unfolding walks_below_def
  proof (intro allI impI)
    fix d :: node assume "size d < size e"
    with that have "size d < k" by simp
    with Suc.IH show "S (typeExpr c1 d) (typeExpr c2 d) \<and> S (lang_inspect c1 d) (lang_inspect c2 d)"
      unfolding walks_below_def by blast
  qed
  show ?case
    unfolding walks_below_def by (intro allI impI conjI S_typeExpr S_inspect below)
qed

lemma S_walk: "S (lang_inspect c1 n) (lang_inspect c2 n)"
  by (rule S_inspect) (rule S_all)

end

text \<open>An error the walk leaves: a feature of a gate above the language version.\<close>

definition errs_above :: "goversion \<Rightarrow> (lang_state \<Rightarrow> lang_state) \<Rightarrow> bool" where
  "errs_above v f \<longleftrightarrow> (\<forall>s.
     (ls_err s \<noteq> None \<longrightarrow> ls_err (f s) = ls_err s) \<and>
     (\<forall>e. ls_err s = None \<and> ls_err (f s) = Some e \<longrightarrow> le_minv e \<in> gates \<and> v < ver (le_minv e)))"

lemma errs_above_comp:
  assumes "errs_above v f" "errs_above v g"
  shows "errs_above v (\<lambda>s. g (f s))"
  unfolding errs_above_def
proof (intro allI conjI impI)
  fix s
  show "ls_err (g (f s)) = ls_err s" if "ls_err s \<noteq> None"
    using assms that by (simp add: errs_above_def)
  fix e
  assume e: "ls_err s = None \<and> ls_err (g (f s)) = Some e"
  have "ls_err (f s) = None \<or> ls_err (f s) = Some e"
    using assms(2) e by (metis errs_above_def)
  with e assms show "le_minv e \<in> gates" "v < ver (le_minv e)"
    unfolding errs_above_def by blast+
qed

interpretation above: lang_runs c c "\<lambda>f1 f2. errs_above (ver (lc_lang c)) f1" for c
  by unfold_locales
    (auto simp: errs_above_comp, auto simp: errs_above_def lang_fail_def mark_seen_def Compare_order split: if_splits)

text \<open>A run without an error is, at a later language version, the same run.\<close>

definition same_if_ok :: "(lang_state \<Rightarrow> lang_state) \<Rightarrow> (lang_state \<Rightarrow> lang_state) \<Rightarrow> bool" where
  "same_if_ok f1 f2 \<longleftrightarrow> (\<forall>s. (ls_err s \<noteq> None \<longrightarrow> ls_err (f1 s) \<noteq> None) \<and> (ls_err (f1 s) = None \<longrightarrow> f2 s = f1 s))"

lemma later_runs:
  assumes "ver (lc_lang c) \<le> ver l"
  shows "lang_runs c (c\<lparr>lc_lang := l\<rparr>) same_if_ok"
proof
  fix f1 f2 g1 g2
  assume f: "same_if_ok f1 f2" and g: "same_if_ok g1 g2"
  show "same_if_ok (\<lambda>s. g1 (f1 s)) (\<lambda>s. g2 (f2 s))"
    unfolding same_if_ok_def
  proof (intro allI conjI impI)
    fix s
    show "ls_err (g1 (f1 s)) \<noteq> None" if "ls_err s \<noteq> None"
      using that f g by (simp add: same_if_ok_def)
    show "g2 (f2 s) = g1 (f1 s)" if ok: "ls_err (g1 (f1 s)) = None"
    proof -
      from ok g have "ls_err (f1 s) = None" unfolding same_if_ok_def by (metis option.distinct(1))
      with f have "f2 s = f1 s" by (simp add: same_if_ok_def)
      with ok g show ?thesis by (simp add: same_if_ok_def)
    qed
  qed
next
  fix minv pos feat
  show "same_if_ok (lang_fail c pos minv feat) (lang_fail (c\<lparr>lc_lang := l\<rparr>) pos minv feat)"
    using assms by (auto simp: same_if_ok_def lang_fail_def Compare_order split: if_splits)
qed (auto simp: same_if_ok_def mark_seen_def)

text \<open>The two contracts, on the walk of a file.\<close>

lemma walk_err_above:
  assumes "ls_err (inspect (lang_visit c) (\<lambda>s. s) n lang_start) = Some e"
  shows "le_minv e \<in> gates" "ver (lc_lang c) < ver (le_minv e)"
proof -
  have "ls_err lang_start = None" by (simp add: lang_start_def)
  with above.S_walk [of c n] assms show "le_minv e \<in> gates" "ver (lc_lang c) < ver (le_minv e)"
    unfolding errs_above_def lang_inspect_is_inspect by blast+
qed

lemma walk_later_ok:
  assumes "ls_err (inspect (lang_visit c) (\<lambda>s. s) n lang_start) = None" "ver (lc_lang c) \<le> ver l"
  shows "ls_err (inspect (lang_visit (c\<lparr>lc_lang := l\<rparr>)) (\<lambda>s. s) n lang_start) = None"
  using lang_runs.S_walk [OF later_runs [OF assms(2)], of n] assms(1)
  unfolding same_if_ok_def lang_inspect_is_inspect by metis

lemma gates_le_latest: "g \<in> gates \<Longrightarrow> ver g \<le> ver latestGate"
  unfolding gates_def by (elim insertE emptyE) (simp_all add: latestGate_def, code_simp+)

section \<open>Properties\<close>

text \<open>
  C5: an error of \<open>CheckLang\<close> names a version the program gates on, and that version is above the
  file's language version; a file without a language version is never rejected.
\<close>

theorem CheckLang_error:
  assumes "CheckLang render f declared = Some e"
  shows "Lang f \<noteq> [] \<and> le_minv e \<in> gates \<and> version_Compare (le_minv e) (Lang f) > 0"
  using assms walk_err_above [of "lang_context render f declared" "sf_AST f" e]
  by (auto simp: CheckLang_def Compare_order lang_context_def split: if_splits)

text \<open>
  the early exit of \<open>CheckLang\<close> changes nothing: at or above \<open>latestGate\<close> the walk itself reports
  no error.
\<close>

theorem CheckLang_early_exit:
  assumes "Lang f \<noteq> []"
  shows "CheckLang render f declared =
    ls_err (inspect (lang_visit (lang_context render f declared)) (\<lambda>s. s) (sf_AST f) lang_start)"
proof (cases "version_Compare (Lang f) latestGate \<ge> 0")
  case True
  have "ls_err (inspect (lang_visit (lang_context render f declared)) (\<lambda>s. s) (sf_AST f) lang_start) = None"
  proof (rule ccontr)
    assume "\<not> ?thesis"
    then obtain e where e: "ls_err (inspect (lang_visit (lang_context render f declared)) (\<lambda>s. s) (sf_AST f) lang_start) = Some e"
      by blast
    from walk_err_above [OF e] gates_le_latest have "ver (Lang f) < ver latestGate"
      by (auto simp: lang_context_def intro: less_le_trans)
    with True show False by (simp add: Compare_order)
  qed
  with True show ?thesis by (simp add: CheckLang_def)
next
  case False
  with assms show ?thesis by (simp add: CheckLang_def)
qed

text \<open>
  C4: the gate is monotone: a file accepted at one language version of its module is accepted at every
  later one.
\<close>

theorem CheckLang_monotone:
  assumes "CheckLang render f declared = None" "Lang f \<noteq> []"
    and "sf_AST g = sf_AST f" "version_Compare (Lang f) (Lang g) \<le> 0"
  shows "CheckLang render g declared = None"
proof (cases "Lang g = [] \<or> version_Compare (Lang g) latestGate \<ge> 0")
  case True
  then show ?thesis by (simp add: CheckLang_def)
next
  case False
  from assms(4) have le: "ver (Lang f) \<le> ver (Lang g)" by (simp add: Compare_order)
  have ctx: "lang_context render g declared = (lang_context render f declared)\<lparr>lc_lang := Lang g\<rparr>"
    using assms(3) by (simp add: lang_context_def)
  from False le have "\<not> version_Compare (Lang f) latestGate \<ge> 0" by (auto simp: Compare_order)
  with assms(1,2) have "ls_err (inspect (lang_visit (lang_context render f declared)) (\<lambda>s. s) (sf_AST f) lang_start) = None"
    by (simp add: CheckLang_def)
  from walk_later_ok [OF this] le have
    "ls_err (inspect (lang_visit (lang_context render g declared)) (\<lambda>s. s) (sf_AST g) lang_start) = None"
    by (simp add: ctx assms(3)) (simp add: lang_context_def)
  then show ?thesis by (simp add: CheckLang_def)
qed

text \<open>
  a build constraint on the file replaces the version of the module, and the effective version is
  then the later of the constraint and go1.21, whatever the module declares.
\<close>

theorem Lang_file_version:
  assumes "file_GoVersion (sf_AST f) \<noteq> []"
  shows "ver (Lang f) = max (ver ''go1.21'') (ver (file_GoVersion (sf_AST f)))"
  using assms by (auto simp: Lang_def langMax_def Compare_order Let_def max_def)

text \<open>
  indexing a local variable that shadows a package-level function is taken for an instantiation of
  the function below go1.18: the gate on an index expression does not ask for the local scope, as the one
  on a call does.
\<close>

theorem local_index_rejected:
  assumes "lc_declared c x = Some DeclFunc" "localAt c x (npos mx)" "version_Compare ''go1.18'' (lc_lang c) > 0"
    "ls_err s = None"
  shows "ls_err (lang_node c (IndexExpr m (Ident mx x) i) s) =
      Some \<lparr>le_pos = npos m, le_feat = ''function instantiation'', le_minv = ''go1.18''\<rparr> \<and>
    gate_implicit c (Ident mx x) s = s"
proof (rule conjI)
  have "(DeclFunc AND NOT DeclGeneric) = DeclFunc" by (simp add: DeclFunc_def DeclGeneric_def)
  with assms show "ls_err (lang_node c (IndexExpr m (Ident mx x) i) s) =
      Some \<lparr>le_pos = npos m, le_feat = ''function instantiation'', le_minv = ''go1.18''\<rparr>"
    by (simp add: lang_node.simps gate_index_def declared_kind_def lang_fail_def)
  from assms(2) show "gate_implicit c (Ident mx x) s = s" by (simp add: gate_implicit_def)
qed

text \<open>A file with a generic method.\<close>

definition generic_method_file :: "string \<Rightarrow> src_file" where
  "generic_method_file lm = \<lparr>sf_Name = ''a.go'', sf_AST = AstFile (Meta 0 0 60) [] (Ident (Meta 1 1 2) ''a'')
     [FuncDecl (Meta 2 20 30)
       (Some (FieldList (Meta 3 21 24) [Field (Meta 4 22 23) [] (Some (Ident (Meta 5 23 24) ''T'')) None]))
       (Ident (Meta 6 25 26) ''M'')
       (FuncType (Meta 7 20 30)
         (Some (FieldList (Meta 8 26 29) [Field (Meta 9 27 28) [Ident (Meta 10 27 28) ''P''] (Some (Ident (Meta 11 28 29) ''any'')) None]))
         None None) None],
     sf_Imports = [], sf_Src = None, sf_LangMod = lm\<rparr>"

lemma generic_method_checks:
  "CheckLang (\<lambda>_. []) (generic_method_file ''1.26'') Map.empty =
     Some \<lparr>le_pos = 26, le_feat = ''generic method'', le_minv = ''go1.27''\<rparr>"
  "CheckLang (\<lambda>_. []) (generic_method_file ''1.27'') Map.empty = None"
  "Lang (generic_method_file ''1.26'') = ''go1.26''" "Lang (generic_method_file ''1.27'') = ''go1.27''"
  "Lang (generic_method_file ''1.28'') = ''go1.28''"
  by code_simp+

theorem CheckLang_error_witness:
  "CheckLang (\<lambda>_. []) (generic_method_file ''1.26'') Map.empty \<noteq> None \<and>
   version_Compare ''go1.27'' (Lang (generic_method_file ''1.26'')) > 0"
  using CheckLang_error [OF generic_method_checks(1)] generic_method_checks(1) by simp

theorem CheckLang_early_exit_witness:
  "ls_err (inspect (lang_visit (lang_context (\<lambda>_. []) (generic_method_file ''1.27'') Map.empty)) (\<lambda>s. s)
     (sf_AST (generic_method_file ''1.27'')) lang_start) = None"
  using CheckLang_early_exit [of "generic_method_file ''1.27''" "\<lambda>_. []" Map.empty] generic_method_checks(2,4)
  by simp

theorem CheckLang_monotone_witness: "CheckLang (\<lambda>_. []) (generic_method_file ''1.28'') Map.empty = None"
proof (rule CheckLang_monotone [OF generic_method_checks(2)])
  show "version_Compare (Lang (generic_method_file ''1.27'')) (Lang (generic_method_file ''1.28'')) \<le> 0"
    unfolding generic_method_checks(4,5) by code_simp
qed (simp_all add: generic_method_checks, simp add: generic_method_file_def)

theorem Lang_file_version_witness:
  "ver (Lang (generic_method_file ''1.20''\<lparr>sf_AST := AstFile (Meta 0 0 9) ''go1.19'' (Ident (Meta 1 1 2) ''a'') []\<rparr>)) =
   ver ''go1.21''"
proof -
  let ?f = "generic_method_file ''1.20''\<lparr>sf_AST := AstFile (Meta 0 0 9) ''go1.19'' (Ident (Meta 1 1 2) ''a'') []\<rparr>"
  have "ver ''go1.19'' \<le> ver ''go1.21''" by code_simp
  with Lang_file_version [of ?f] show ?thesis by (simp add: max_def)
qed

theorem local_index_witness:
  "ls_err (lang_node \<lparr>lc_render = \<lambda>_. [], lc_lang = ''go1.17'', lc_declared = [''f'' \<mapsto> DeclFunc],
       lc_locals = (\<lambda>_. [(5, 20)])\<rparr>
     (IndexExpr (Meta 1 10 14) (Ident (Meta 2 10 11) ''f'') (BasicLit (Meta 3 12 13) token.INT ''0'')) lang_start) \<noteq> None"
proof -
  have "version_Compare ''go1.18'' ''go1.17'' > 0" by code_simp
  then show ?thesis
    by (subst local_index_rejected [THEN conjunct1]) (simp_all add: lang_start_def localAt_def At_def)
qed

end
