(* ===== verification/Runs.thy ===== *)
theory Runs
  imports Main
begin

text \<open>
  State machines: what every step keeps holds in every state a run reaches. The components that are
  state machines state their invariants through this contract.
\<close>

locale transition =
  fixes step :: "'s \<Rightarrow> 's \<Rightarrow> bool" and inv :: "'s \<Rightarrow> bool"
  assumes step_keeps: "inv s \<Longrightarrow> step s t \<Longrightarrow> inv t"
begin

lemma run_keeps: "step\<^sup>*\<^sup>* s t \<Longrightarrow> inv s \<Longrightarrow> inv t"
  by (induction rule: rtranclp_induct) (auto intro: step_keeps)

end

end
