(* ===== verification/Proc.thy ===== *)
theory Proc
  imports Prelude Runs "HOL-Library.Word" "HOL-Library.AList"
begin

text \<open>
  The script process (\<open>vm/vm.go\<close>, type \<open>proc\<close>): the goroutines it knows, their wait states, and the
  deadlock watch. An operation that runs under the process's mutex is one step, and what a caller does
  after it has released the mutex is another: \<open>fail\<close> records its error and then closes \<open>done\<close>. The watch a
  \<open>checkDeadLocked\<close> starts is a goroutine of its own, kept in \<open>pr_watches\<close> with the point it has reached:
  when its timer fires it checks again under the mutex, and only after releasing it calls \<open>fail\<close>.
  Goroutine ids are the ids of \<open>goroutineID\<close> (0 for none), channel ids the pointers of the channels.
\<close>

section \<open>The state\<close>

record gwait =
  gw_refs :: int
  gw_parked :: bool
  gw_wakeable :: bool
  gw_wakeMisc :: bool
  gw_wakeChans :: "nat list"
  gw_parkedOnly :: bool

datatype fatal = DeadlockError | ScriptFatal string

text \<open>
  A watch: the epoch it was armed in, whether its \<open>disarm\<close> channel is closed, and how far its goroutine is:
  waiting for its timer, past a check that found the process still asleep, past recording the fatal error,
  or at its end.
\<close>

datatype watch_stage = Timing | Verdict | Ending | Ended

record watch =
  wt_epoch :: "64 word"
  wt_disarmed :: bool
  wt_stage :: watch_stage

record proc =
  pr_done :: bool
  pr_fatal :: "fatal option"
  pr_syncCallers :: "int list"
  pr_gs :: "(int \<times> gwait) list option"
  pr_live :: int
  pr_parked :: int
  pr_wakeable :: int
  pr_extWait :: int
  pr_armed :: bool
  pr_disarmCh :: "nat option"
  pr_epoch :: "64 word"
  pr_chans :: "nat \<rightharpoonup> bool"
  pr_managedN :: "32 word"
  pr_watches :: "watch list"

definition newProc :: proc where
  "newProc = \<lparr>pr_done = False, pr_fatal = None, pr_syncCallers = [], pr_gs = None, pr_live = 0,
     pr_parked = 0, pr_wakeable = 0, pr_extWait = 0, pr_armed = False, pr_disarmCh = None,
     pr_epoch = 0, pr_chans = Map.empty, pr_managedN = 0, pr_watches = []\<rparr>"

text \<open>Reading a nil map finds nothing.\<close>

definition gs_list :: "proc \<Rightarrow> (int \<times> gwait) list" where
  "gs_list p = (case pr_gs p of None \<Rightarrow> [] | Some gs \<Rightarrow> gs)"

definition new_gwait :: gwait where
  "new_gwait = \<lparr>gw_refs = 0, gw_parked = False, gw_wakeable = False, gw_wakeMisc = False,
     gw_wakeChans = [], gw_parkedOnly = False\<rparr>"

section \<open>Ending the process\<close>

definition kill :: "proc \<Rightarrow> proc" where
  "kill p = p\<lparr>pr_done := True\<rparr>"

definition record_fatal :: "fatal \<Rightarrow> proc \<Rightarrow> proc" where
  "record_fatal e p = (if pr_fatal p = None then p\<lparr>pr_fatal := Some e\<rparr> else p)"

text \<open>\<open>fail\<close> as a whole, for a caller nothing runs beside.\<close>

definition fail_proc :: "fatal \<Rightarrow> proc \<Rightarrow> proc" where
  "fail_proc e p = kill (record_fatal e p)"

definition watchCallFrom :: "int \<Rightarrow> proc \<Rightarrow> proc" where
  "watchCallFrom gid p = p\<lparr>pr_syncCallers := List.insert gid (pr_syncCallers p)\<rparr>"

definition unwatchCallFrom :: "int \<Rightarrow> proc \<Rightarrow> proc" where
  "unwatchCallFrom gid p = p\<lparr>pr_syncCallers := remove1 gid (pr_syncCallers p)\<rparr>"

definition isSyncCaller :: "int \<Rightarrow> proc \<Rightarrow> bool" where
  "isSyncCaller gid p \<longleftrightarrow> gid \<in> set (pr_syncCallers p)"

section \<open>The deadlock watch\<close>

text \<open>\<open>touch\<close> closes the channel of the armed watch.\<close>

definition disarm_watch :: "nat option \<Rightarrow> watch list \<Rightarrow> watch list" where
  "disarm_watch ch ws =
     (case ch of None \<Rightarrow> ws | Some i \<Rightarrow> ws[i := (ws ! i)\<lparr>wt_disarmed := True\<rparr>])"

definition touch :: "proc \<Rightarrow> proc" where
  "touch p =
     (let p = p\<lparr>pr_epoch := pr_epoch p + 1\<rparr> in
      if pr_armed p
      then p\<lparr>pr_armed := False, pr_watches := disarm_watch (pr_disarmCh p) (pr_watches p), pr_disarmCh := None\<rparr>
      else p)"

text \<open>The condition of \<open>checkDeadLocked\<close> and of the watch.\<close>

definition deadlocked :: "proc \<Rightarrow> bool" where
  "deadlocked p \<longleftrightarrow> pr_live p > 0 \<and> pr_parked p = pr_live p \<and> pr_wakeable p = 0 \<and> pr_extWait p = 0"

definition checkDeadLocked :: "proc \<Rightarrow> proc" where
  "checkDeadLocked p =
     (if pr_armed p \<or> pr_live p = 0 \<or> pr_parked p \<noteq> pr_live p \<or> pr_wakeable p \<noteq> 0 \<or> pr_extWait p \<noteq> 0
      then p
      else p\<lparr>pr_armed := True, pr_disarmCh := Some (length (pr_watches p)),
             pr_watches := pr_watches p @ [\<lparr>wt_epoch = pr_epoch p, wt_disarmed = False, wt_stage = Timing\<rparr>]\<rparr>)"

text \<open>
  The goroutine of watch \<open>i\<close>: when its timer fires it checks the condition and its epoch again under the
  mutex, which decides whether it goes on; then it records the deadlock and closes \<open>done\<close>.
\<close>

definition set_stage :: "watch_stage \<Rightarrow> nat \<Rightarrow> proc \<Rightarrow> proc" where
  "set_stage st i p = p\<lparr>pr_watches := (pr_watches p)[i := (pr_watches p ! i)\<lparr>wt_stage := st\<rparr>]\<rparr>"

definition stillDeadLocked :: "nat \<Rightarrow> proc \<Rightarrow> bool" where
  "stillDeadLocked i p \<longleftrightarrow>
     pr_armed p \<and> pr_epoch p = wt_epoch (pr_watches p ! i) \<and> pr_live p > 0 \<and>
     pr_parked p = pr_live p \<and> pr_wakeable p = 0 \<and> pr_extWait p = 0"

definition watch_step :: "nat \<Rightarrow> proc \<Rightarrow> proc" where
  "watch_step i p =
     (case wt_stage (pr_watches p ! i) of
        Timing \<Rightarrow> set_stage (if stillDeadLocked i p then Verdict else Ended) i p
      | Verdict \<Rightarrow> set_stage Ending i (record_fatal DeadlockError p)
      | Ending \<Rightarrow> set_stage Ended i (kill p)
      | Ended \<Rightarrow> p)"

section \<open>Goroutines\<close>

definition enterG :: "int \<Rightarrow> proc \<Rightarrow> proc" where
  "enterG gid p =
     (if gid = 0 then p
      else
        let gs = gs_list p;
            g = (case map_of gs gid of Some g \<Rightarrow> g | None \<Rightarrow> new_gwait);
            live = (if map_of gs gid = None then pr_live p + 1 else pr_live p)
        in touch (p\<lparr>pr_gs := Some (AList.update gid (g\<lparr>gw_refs := gw_refs g + 1\<rparr>) gs), pr_live := live\<rparr>))"

definition leaveG :: "int \<Rightarrow> proc \<Rightarrow> proc" where
  "leaveG gid p =
     (if gid = 0 then p
      else
        let gs = gs_list p;
            p1 = (case map_of gs gid of
                None \<Rightarrow> p
              | Some g \<Rightarrow>
                  let g = g\<lparr>gw_refs := gw_refs g - 1\<rparr> in
                  if gw_refs g \<le> 0
                  then p\<lparr>pr_parked := pr_parked p - of_bool (gw_parked g),
                         pr_wakeable := pr_wakeable p - of_bool (gw_parked g \<and> gw_wakeable g),
                         pr_gs := Some (AList.delete gid gs), pr_live := pr_live p - 1\<rparr>
                  else p\<lparr>pr_gs := Some (AList.update gid g gs)\<rparr>)
        in checkDeadLocked (touch p1))"

record park_wake =
  pw_misc :: bool
  pw_chans :: "nat list"

definition gWakeable :: "(nat \<rightharpoonup> bool) \<Rightarrow> gwait \<Rightarrow> bool" where
  "gWakeable chans g \<longleftrightarrow> gw_wakeMisc g \<or> list_ex (\<lambda>ptr. chans ptr = Some False) (gw_wakeChans g)"

text \<open>
  \<open>parkG\<close>: storing in the nil map of a process no goroutine has entered is a Go panic (\<open>None\<close>).
\<close>

definition park_mark :: "park_wake \<Rightarrow> (nat \<rightharpoonup> bool) \<Rightarrow> gwait \<Rightarrow> gwait" where
  "park_mark w chans g =
     (let g = g\<lparr>gw_parked := True, gw_wakeMisc := pw_misc w,
                gw_wakeChans := (if pw_chans w = [] then gw_wakeChans g else remdups (pw_chans w))\<rparr>
      in g\<lparr>gw_wakeable := gWakeable chans g\<rparr>)"

definition park_known :: "int \<Rightarrow> gwait \<Rightarrow> park_wake \<Rightarrow> proc \<Rightarrow> proc" where
  "park_known gid g w p =
     (if gw_parked g then p
      else
        let g' = park_mark w (pr_chans p) g in
        p\<lparr>pr_gs := Some (AList.update gid g' (gs_list p)), pr_parked := pr_parked p + 1,
          pr_wakeable := pr_wakeable p + of_bool (gw_wakeable g')\<rparr>)"

definition parkG :: "int \<Rightarrow> park_wake \<Rightarrow> proc \<Rightarrow> proc option" where
  "parkG gid w p =
     (if gid = 0 then Some p
      else case map_of (gs_list p) gid of
        Some g \<Rightarrow> Some (checkDeadLocked (park_known gid g w p))
      | None \<Rightarrow>
          (case pr_gs p of
             None \<Rightarrow> None
           | Some gs \<Rightarrow>
               let g = new_gwait\<lparr>gw_refs := 1, gw_parkedOnly := True\<rparr> in
               Some (checkDeadLocked (park_known gid g w
                 (p\<lparr>pr_gs := Some (AList.update gid g gs), pr_live := pr_live p + 1\<rparr>)))))"

definition unpark_mark :: "gwait \<Rightarrow> gwait" where
  "unpark_mark g =
     g\<lparr>gw_parked := False, gw_wakeable := False, gw_wakeMisc := False, gw_wakeChans := []\<rparr>"

definition unparkG :: "int \<Rightarrow> proc \<Rightarrow> proc" where
  "unparkG gid p =
     (if gid = 0 then p
      else
        let gs = gs_list p in
        touch (case map_of gs gid of
            None \<Rightarrow> p
          | Some g \<Rightarrow>
              if \<not> gw_parked g then p
              else
                let g' = unpark_mark g;
                    p1 = p\<lparr>pr_parked := pr_parked p - 1, pr_wakeable := pr_wakeable p - of_bool (gw_wakeable g)\<rparr>
                in if gw_parkedOnly g
                   then p1\<lparr>pr_gs := Some (AList.delete gid gs), pr_live := pr_live p - 1\<rparr>
                   else p1\<lparr>pr_gs := Some (AList.update gid g' gs)\<rparr>))"

section \<open>External waits and managed channels\<close>

definition noteExternalWait :: "proc \<Rightarrow> proc" where
  "noteExternalWait p = touch (p\<lparr>pr_extWait := pr_extWait p + 1\<rparr>)"

text \<open>The returned release, with the state of its \<open>sync.Once\<close>.\<close>

definition releaseWait :: "bool \<Rightarrow> proc \<Rightarrow> bool \<times> proc" where
  "releaseWait fired p =
     (if fired then (True, p) else (True, checkDeadLocked (p\<lparr>pr_extWait := pr_extWait p - 1\<rparr>)))"

definition registerChan :: "nat \<Rightarrow> proc \<Rightarrow> proc" where
  "registerChan ptr p = p\<lparr>pr_chans := (pr_chans p)(ptr \<mapsto> False), pr_managedN := pr_managedN p + 1\<rparr>"

definition chanState :: "nat \<Rightarrow> proc \<Rightarrow> bool \<times> bool" where
  "chanState ptr p =
     (if pr_managedN p = 0 then (False, False)
      else case pr_chans p ptr of None \<Rightarrow> (False, False) | Some dead \<Rightarrow> (True, \<not> dead))"

text \<open>The loop of \<open>setChanDead\<close> over the goroutines, with the count it adjusts.\<close>

definition recheck1 :: "(nat \<rightharpoonup> bool) \<Rightarrow> nat \<Rightarrow> gwait \<Rightarrow> gwait" where
  "recheck1 chans ptr g =
     (if gw_parked g \<and> ptr \<in> set (gw_wakeChans g) then g\<lparr>gw_wakeable := gWakeable chans g\<rparr> else g)"

fun recheck :: "(nat \<rightharpoonup> bool) \<Rightarrow> nat \<Rightarrow> (int \<times> gwait) list \<Rightarrow> int \<Rightarrow> (int \<times> gwait) list \<times> int" where
  "recheck chans ptr [] n = ([], n)"
| "recheck chans ptr ((gid, g) # gs) n =
     (let g' = recheck1 chans ptr g;
          n' = (if gw_wakeable g' = gw_wakeable g then n else if gw_wakeable g' then n + 1 else n - 1);
          (gs', n'') = recheck chans ptr gs n'
      in ((gid, g') # gs', n''))"

definition setChanDead :: "nat \<Rightarrow> bool \<Rightarrow> proc \<Rightarrow> proc" where
  "setChanDead ptr dead p =
     (if pr_chans p ptr = None \<or> pr_chans p ptr = Some dead then p
      else
        let chans = (pr_chans p)(ptr \<mapsto> dead);
            (gs', n) = recheck chans ptr (gs_list p) (pr_wakeable p)
        in checkDeadLocked (touch (p\<lparr>pr_chans := chans,
             pr_gs := (case pr_gs p of None \<Rightarrow> None | Some _ \<Rightarrow> Some gs'), pr_wakeable := n\<rparr>)))"

text \<open>\<open>chanParkWake\<close>: the wake picture of an operation on a host channel.\<close>

definition chanParkWake :: "nat \<Rightarrow> proc option \<Rightarrow> park_wake" where
  "chanParkWake ptr p =
     (case p of
        None \<Rightarrow> \<lparr>pw_misc = True, pw_chans = []\<rparr>
      | Some p \<Rightarrow> if fst (chanState ptr p) then \<lparr>pw_misc = False, pw_chans = [ptr]\<rparr>
                  else \<lparr>pw_misc = True, pw_chans = []\<rparr>)"

section \<open>Counting\<close>

definition cnt :: "(gwait \<Rightarrow> bool) \<Rightarrow> (int \<times> gwait) list \<Rightarrow> int" where
  "cnt P gs = (\<Sum>(gid, g)\<leftarrow>gs. of_bool (P g))"

lemma cnt_simps [simp]:
  "cnt P [] = 0"
  "cnt P ((gid, g) # gs) = of_bool (P g) + cnt P gs"
  by (simp_all add: cnt_def)

lemma cnt_nonneg [simp]: "0 \<le> cnt P gs"
  by (induction gs) auto

lemma cnt_le_length: "cnt P gs \<le> int (length gs)"
  by (induction gs) auto

lemma cnt_all: "cnt P gs = int (length gs) \<longleftrightarrow> (\<forall>(gid, g)\<in>set gs. P g)"
proof (induction gs)
  case Nil
  then show ?case by simp
next
  case (Cons e gs)
  obtain gid g where e: "e = (gid, g)" by (cases e)
  have "cnt P gs \<le> int (length gs)" by (rule cnt_le_length)
  with Cons.IH show ?case by (auto simp: e of_bool_def)
qed

lemma cnt_none: "cnt P gs = 0 \<longleftrightarrow> (\<forall>(gid, g)\<in>set gs. \<not> P g)"
proof (induction gs)
  case (Cons e gs)
  obtain gid g where e: "e = (gid, g)" by (cases e)
  have "0 \<le> cnt P gs" by simp
  then have "1 + cnt P gs \<noteq> 0" by linarith
  with Cons.IH show ?case by (auto simp: e of_bool_def)
qed simp

lemma cnt_update:
  "cnt P (AList.update k g' gs) =
   cnt P gs - (case map_of gs k of None \<Rightarrow> 0 | Some g \<Rightarrow> of_bool (P g)) + of_bool (P g')"
  by (induction gs) auto

lemma length_update:
  "int (length (AList.update k g' gs)) = int (length gs) + (if map_of gs k = None then 1 else 0)"
  by (induction gs) auto

lemma delete_absent: "map_of gs k = None \<Longrightarrow> AList.delete k gs = gs"
  by (induction gs) (auto split: if_splits)

lemma cnt_delete:
  "distinct (map fst gs) \<Longrightarrow> map_of gs k = Some g \<Longrightarrow> cnt P (AList.delete k gs) = cnt P gs - of_bool (P g)"
proof (induction gs)
  case (Cons e gs)
  then show ?case
    by (cases e) (auto simp: delete_absent map_of_eq_None_iff split: if_splits)
qed simp

lemma length_delete:
  "distinct (map fst gs) \<Longrightarrow> map_of gs k = Some g \<Longrightarrow> int (length (AList.delete k gs)) = int (length gs) - 1"
proof (induction gs)
  case (Cons e gs)
  then show ?case
    by (cases e) (auto simp: delete_absent map_of_eq_None_iff split: if_splits)
qed simp

definition all_g :: "(gwait \<Rightarrow> bool) \<Rightarrow> (int \<times> gwait) list \<Rightarrow> bool" where
  "all_g Q gs \<longleftrightarrow> (\<forall>(gid, g)\<in>set gs. Q g)"

lemma all_g_update: "all_g Q gs \<Longrightarrow> Q g' \<Longrightarrow> all_g Q (AList.update k g' gs)"
  by (induction gs) (auto simp: all_g_def)

lemma all_g_delete: "all_g Q gs \<Longrightarrow> all_g Q (AList.delete k gs)"
  by (auto simp: all_g_def AList.delete_eq)

lemma all_g_lookup: "all_g Q gs \<Longrightarrow> map_of gs k = Some g \<Longrightarrow> Q g"
  by (auto simp: all_g_def dest: map_of_SomeD)

lemma distinct_update: "distinct (map fst gs) \<Longrightarrow> distinct (map fst (AList.update k g gs))"
  by (rule AList.distinct_update)

lemma distinct_delete: "distinct (map fst gs) \<Longrightarrow> distinct (map fst (AList.delete k gs))"
  by (rule AList.distinct_delete)

section \<open>The invariant\<close>

definition gwait_ok :: "(nat \<rightharpoonup> bool) \<Rightarrow> gwait \<Rightarrow> bool" where
  "gwait_ok chans g \<longleftrightarrow>
     (gw_wakeable g \<longleftrightarrow> gw_parked g \<and> gWakeable chans g) \<and>
     (\<not> gw_parked g \<longrightarrow> gw_wakeChans g = []) \<and> (gw_parkedOnly g \<longrightarrow> gw_parked g) \<and>
     set (gw_wakeChans g) \<subseteq> dom chans"

definition counts_ok :: "(nat \<rightharpoonup> bool) \<Rightarrow> (int \<times> gwait) list \<Rightarrow> int \<Rightarrow> int \<Rightarrow> int \<Rightarrow> bool" where
  "counts_ok chans gs live parked wakeable \<longleftrightarrow>
     distinct (map fst gs) \<and> live = int (length gs) \<and>
     parked = cnt gw_parked gs \<and> wakeable = cnt gw_wakeable gs \<and> all_g (gwait_ok chans) gs"

definition goroutines_ok :: "proc \<Rightarrow> bool" where
  "goroutines_ok p \<longleftrightarrow> counts_ok (pr_chans p) (gs_list p) (pr_live p) (pr_parked p) (pr_wakeable p)"

lemma counts_insert:
  "counts_ok chans gs l pk wk \<Longrightarrow> map_of gs k = None \<Longrightarrow> gwait_ok chans g \<Longrightarrow>
   counts_ok chans (AList.update k g gs) (l + 1) (pk + of_bool (gw_parked g)) (wk + of_bool (gw_wakeable g))"
  by (simp add: counts_ok_def distinct_update all_g_update cnt_update length_update)

lemma counts_update:
  "counts_ok chans gs l pk wk \<Longrightarrow> map_of gs k = Some h \<Longrightarrow> gwait_ok chans g \<Longrightarrow>
   counts_ok chans (AList.update k g gs) l (pk - of_bool (gw_parked h) + of_bool (gw_parked g))
     (wk - of_bool (gw_wakeable h) + of_bool (gw_wakeable g))"
  by (simp add: counts_ok_def distinct_update all_g_update cnt_update length_update)

lemma counts_delete:
  "counts_ok chans gs l pk wk \<Longrightarrow> map_of gs k = Some h \<Longrightarrow>
   counts_ok chans (AList.delete k gs) (l - 1) (pk - of_bool (gw_parked h)) (wk - of_bool (gw_wakeable h))"
  by (simp add: counts_ok_def distinct_delete all_g_delete cnt_delete length_delete)

lemma counts_lookup: "counts_ok chans gs l pk wk \<Longrightarrow> map_of gs k = Some g \<Longrightarrow> gwait_ok chans g"
  by (auto simp: counts_ok_def intro: all_g_lookup)

text \<open>The armed watch: its channel is open and its epoch the current one.\<close>

definition watch_ok :: "proc \<Rightarrow> bool" where
  "watch_ok p \<longleftrightarrow>
     (pr_armed p \<longleftrightarrow> pr_disarmCh p \<noteq> None) \<and>
     (case pr_disarmCh p of None \<Rightarrow> True
      | Some i \<Rightarrow> i < length (pr_watches p) \<and> \<not> wt_disarmed (pr_watches p ! i) \<and>
          wt_epoch (pr_watches p ! i) = pr_epoch p)"

text \<open>\<open>touch\<close> and \<open>checkDeadLocked\<close> leave the goroutines alone.\<close>

lemma touch_frame [simp, frame_simps]:
  "gs_list (touch p) = gs_list p" "pr_gs (touch p) = pr_gs p" "pr_live (touch p) = pr_live p" "pr_parked (touch p) = pr_parked p"
  "pr_wakeable (touch p) = pr_wakeable p" "pr_extWait (touch p) = pr_extWait p" "pr_chans (touch p) = pr_chans p"
  "pr_done (touch p) = pr_done p" "pr_fatal (touch p) = pr_fatal p" "pr_armed (touch p) = False"
  by (auto simp: touch_def Let_def gs_list_def)

lemma check_frame [simp, frame_simps]:
  "gs_list (checkDeadLocked p) = gs_list p" "pr_gs (checkDeadLocked p) = pr_gs p"
  "pr_live (checkDeadLocked p) = pr_live p" "pr_parked (checkDeadLocked p) = pr_parked p"
  "pr_wakeable (checkDeadLocked p) = pr_wakeable p" "pr_extWait (checkDeadLocked p) = pr_extWait p"
  "pr_chans (checkDeadLocked p) = pr_chans p" "pr_done (checkDeadLocked p) = pr_done p"
  "pr_fatal (checkDeadLocked p) = pr_fatal p" "pr_epoch (checkDeadLocked p) = pr_epoch p"
  by (auto simp: checkDeadLocked_def gs_list_def)

lemma goroutines_ok_frame [simp]:
  "goroutines_ok (touch p) = goroutines_ok p" "goroutines_ok (checkDeadLocked p) = goroutines_ok p"
  by (simp_all add: goroutines_ok_def)

lemma watch_ok_touch [inv_intros]: "watch_ok p \<Longrightarrow> watch_ok (touch p)"
  by (auto simp: watch_ok_def touch_def Let_def)

lemma watch_ok_check [inv_intros]: "watch_ok p \<Longrightarrow> watch_ok (checkDeadLocked p)"
  by (auto simp: watch_ok_def checkDeadLocked_def nth_append)

lemma gs_list_eq [simp]: "pr_gs p = Some gs \<Longrightarrow> gs_list p = gs"
  by (simp add: gs_list_def)

lemma gs_list_other [simp]:
  "gs_list (p\<lparr>pr_live := n\<rparr>) = gs_list p" "gs_list (p\<lparr>pr_parked := n\<rparr>) = gs_list p"
  "gs_list (p\<lparr>pr_wakeable := n\<rparr>) = gs_list p" "gs_list (p\<lparr>pr_extWait := n\<rparr>) = gs_list p"
  "gs_list (p\<lparr>pr_chans := cs\<rparr>) = gs_list p" "gs_list (p\<lparr>pr_managedN := mn\<rparr>) = gs_list p"
  "gs_list (p\<lparr>pr_done := d\<rparr>) = gs_list p" "gs_list (p\<lparr>pr_fatal := ft\<rparr>) = gs_list p"
  "gs_list (p\<lparr>pr_watches := ws\<rparr>) = gs_list p" "gs_list (p\<lparr>pr_syncCallers := sc\<rparr>) = gs_list p"
  by (simp_all add: gs_list_def)

lemma new_gwait_ok: "gwait_ok chans new_gwait"
  by (simp add: gwait_ok_def new_gwait_def)

lemma new_gwait_simps [simp]:
  "gw_parked new_gwait = False" "gw_wakeable new_gwait = False" "gw_wakeChans new_gwait = []"
  "gw_refs new_gwait = 0" "gw_parkedOnly new_gwait = False"
  by (simp_all add: new_gwait_def)

lemma gwait_ok_refs [simp]: "gwait_ok chans (g\<lparr>gw_refs := n\<rparr>) = gwait_ok chans g"
  by (simp add: gwait_ok_def gWakeable_def)

lemma enterG_ok [inv_intros]:
  assumes ok: "goroutines_ok p"
  shows "goroutines_ok (enterG gid p)"
proof (cases "map_of (gs_list p) gid")
  case None
  with ok counts_insert [of _ _ _ _ _ gid "new_gwait\<lparr>gw_refs := 1\<rparr>"] show ?thesis
    by (simp add: enterG_def Let_def goroutines_ok_def new_gwait_ok)
next
  case (Some g)
  from ok Some have "gwait_ok (pr_chans p) g" unfolding goroutines_ok_def by (rule counts_lookup)
  with ok Some counts_update [of _ _ _ _ _ gid g "g\<lparr>gw_refs := gw_refs g + 1\<rparr>"] show ?thesis
    by (simp add: enterG_def Let_def goroutines_ok_def)
qed

lemma leaveG_ok [inv_intros]:
  assumes ok: "goroutines_ok p"
  shows "goroutines_ok (leaveG gid p)"
proof (cases "map_of (gs_list p) gid")
  case None
  then show ?thesis using ok by (simp add: leaveG_def)
next
  case (Some g)
  from ok Some have g: "gwait_ok (pr_chans p) g" unfolding goroutines_ok_def by (rule counts_lookup)
  then have both: "(gw_parked g \<and> gw_wakeable g) = gw_wakeable g" by (auto simp: gwait_ok_def)
  from ok Some g counts_update [of _ _ _ _ _ gid g "g\<lparr>gw_refs := gw_refs g - 1\<rparr>"]
    counts_delete [of _ _ _ _ _ gid g] show ?thesis
    by (simp add: leaveG_def Let_def goroutines_ok_def both)
qed

lemma park_mark_simps [simp]:
  "gw_parked (park_mark w chans g)" "gw_parkedOnly (park_mark w chans g) = gw_parkedOnly g"
  "gw_refs (park_mark w chans g) = gw_refs g"
  "gw_wakeChans (park_mark w chans g) = (if pw_chans w = [] then gw_wakeChans g else remdups (pw_chans w))"
  by (simp_all add: park_mark_def Let_def)

lemma park_mark_ok:
  "gw_wakeChans g = [] \<Longrightarrow> set (pw_chans w) \<subseteq> dom chans \<Longrightarrow> gwait_ok chans (park_mark w chans g)"
  by (auto simp: gwait_ok_def park_mark_def Let_def gWakeable_def)

lemma park_known_ok:
  assumes ok: "goroutines_ok p" and g: "map_of (gs_list p) gid = Some g"
    and chans: "set (pw_chans w) \<subseteq> dom (pr_chans p)"
  shows "goroutines_ok (park_known gid g w p)"
proof (cases "gw_parked g")
  case True
  then show ?thesis using assms by (simp add: park_known_def)
next
  case False
  from ok g have "gwait_ok (pr_chans p) g" unfolding goroutines_ok_def by (rule counts_lookup)
  with False have "gw_wakeChans g = []" "\<not> gw_wakeable g" by (auto simp: gwait_ok_def)
  with False ok g chans park_mark_ok [of g w "pr_chans p"]
    counts_update [of _ _ _ _ _ gid g "park_mark w (pr_chans p) g"] show ?thesis
    by (simp add: park_known_def Let_def goroutines_ok_def)
qed

lemma update_twice: "AList.update k x (AList.update k y gs) = AList.update k x gs"
  by (induction gs) auto

text \<open>The entry of an unregistered parker before its park is marked.\<close>

definition park_entry :: gwait where
  "park_entry = new_gwait\<lparr>gw_refs := 1, gw_parkedOnly := True\<rparr>"

lemma park_entry_simps [simp]:
  "gw_parked park_entry = False" "gw_wakeable park_entry = False" "gw_wakeChans park_entry = []"
  by (simp_all add: park_entry_def)

lemma park_new_ok:
  assumes ok: "goroutines_ok p" and new: "map_of (gs_list p) gid = None"
    and chans: "set (pw_chans w) \<subseteq> dom (pr_chans p)"
  shows "goroutines_ok (park_known gid park_entry w
    (p\<lparr>pr_gs := Some (AList.update gid park_entry (gs_list p)), pr_live := pr_live p + 1\<rparr>))"
  using ok new chans park_mark_ok [of park_entry w "pr_chans p"]
    counts_insert [of _ _ _ _ _ gid "park_mark w (pr_chans p) park_entry"]
  by (simp add: park_known_def Let_def goroutines_ok_def update_twice)

lemma parkG_ok [inv_intros]:
  assumes "goroutines_ok p" "parkG gid w p = Some p'" "set (pw_chans w) \<subseteq> dom (pr_chans p)"
  shows "goroutines_ok p'"
proof (cases "map_of (gs_list p) gid")
  case None
  with assms park_new_ok [OF assms(1) None assms(3)] show ?thesis
    by (auto simp: parkG_def Let_def park_entry_def [symmetric] split: if_splits option.splits)
next
  case (Some g)
  with assms park_known_ok [OF assms(1) Some assms(3)] show ?thesis
    by (auto simp: parkG_def split: if_splits)
qed

lemma unparkG_ok [inv_intros]:
  assumes ok: "goroutines_ok p"
  shows "goroutines_ok (unparkG gid p)"
proof (cases "map_of (gs_list p) gid")
  case None
  then show ?thesis using ok by (simp add: unparkG_def Let_def)
next
  case (Some g)
  have m: "gw_parked (unpark_mark g) = False" "gw_wakeable (unpark_mark g) = False"
    "\<not> gw_parkedOnly g \<Longrightarrow> gwait_ok (pr_chans p) (unpark_mark g)"
    by (simp_all add: unpark_mark_def gwait_ok_def)
  have un: "goroutines_ok (unparkG gid p)" if "\<not> gw_parked g"
    using ok Some that by (simp add: unparkG_def Let_def)
  have "goroutines_ok (unparkG gid p)" if "gw_parked g"
    using ok Some that m counts_delete [of _ _ _ _ _ gid g] counts_update [of _ _ _ _ _ gid g "unpark_mark g"]
    by (simp add: unparkG_def Let_def goroutines_ok_def)
  with un show ?thesis by blast
qed

lemma noteExternalWait_ok [inv_intros]: "goroutines_ok p \<Longrightarrow> goroutines_ok (noteExternalWait p)"
  by (simp add: noteExternalWait_def goroutines_ok_def)

lemma releaseWait_ok [inv_intros]: "goroutines_ok p \<Longrightarrow> goroutines_ok (snd (releaseWait b p))"
  by (simp add: releaseWait_def goroutines_ok_def)

lemma gWakeable_upd:
  "ptr \<notin> set (gw_wakeChans g) \<Longrightarrow> gWakeable (chans(ptr \<mapsto> dead)) g = gWakeable chans g"
  by (auto simp: gWakeable_def list_ex_iff)

lemma registerChan_ok [inv_intros]:
  assumes "goroutines_ok p" "pr_chans p ptr = None"
  shows "goroutines_ok (registerChan ptr p)"
proof -
  have "gwait_ok ((pr_chans p)(ptr \<mapsto> False)) g" if "gwait_ok (pr_chans p) g" for g
  proof -
    from that assms(2) have "ptr \<notin> set (gw_wakeChans g)" by (auto simp: gwait_ok_def)
    with that show ?thesis by (auto simp: gwait_ok_def gWakeable_upd)
  qed
  with assms show ?thesis by (auto simp: registerChan_def goroutines_ok_def counts_ok_def all_g_def)
qed

lemma recheck_map: "fst (recheck chans ptr gs n) = map (\<lambda>(gid, g). (gid, recheck1 chans ptr g)) gs"
  by (induction chans ptr gs n rule: recheck.induct) (simp_all add: Let_def case_prod_beta)

lemma recheck_count:
  "snd (recheck chans ptr gs n) = n - cnt gw_wakeable gs + cnt gw_wakeable (fst (recheck chans ptr gs n))"
  by (induction chans ptr gs n rule: recheck.induct) (auto simp: Let_def case_prod_beta of_bool_def)

lemma recheck1_simps [simp]:
  "gw_parked (recheck1 chans ptr g) = gw_parked g" "gw_parkedOnly (recheck1 chans ptr g) = gw_parkedOnly g"
  "gw_wakeChans (recheck1 chans ptr g) = gw_wakeChans g" "gw_wakeMisc (recheck1 chans ptr g) = gw_wakeMisc g"
  by (simp_all add: recheck1_def)

lemma recheck1_ok:
  assumes "gwait_ok chans g" "chans ptr \<noteq> None"
  shows "gwait_ok (chans(ptr \<mapsto> dead)) (recheck1 (chans(ptr \<mapsto> dead)) ptr g)"
proof (cases "gw_parked g \<and> ptr \<in> set (gw_wakeChans g)")
  case True
  with assms show ?thesis by (auto simp: gwait_ok_def recheck1_def gWakeable_def)
next
  case False
  show ?thesis
  proof (cases "gw_parked g")
    case True
    with False have "ptr \<notin> set (gw_wakeChans g)" by simp
    with assms show ?thesis by (auto simp: gwait_ok_def recheck1_def gWakeable_upd)
  next
    case False
    with assms show ?thesis by (auto simp: gwait_ok_def recheck1_def)
  qed
qed

lemma cnt_map: "(\<And>g. P (f g) = P g) \<Longrightarrow> cnt P (map (\<lambda>(gid, g). (gid, f g)) gs) = cnt P gs"
  by (induction gs) auto

lemma setChanDead_ok [inv_intros]:
  assumes ok: "goroutines_ok p"
  shows "goroutines_ok (setChanDead ptr dead p)"
proof (cases "pr_chans p ptr = None \<or> pr_chans p ptr = Some dead")
  case True
  then show ?thesis using ok by (simp add: setChanDead_def)
next
  case False
  define chans where "chans = (pr_chans p)(ptr \<mapsto> dead)"
  define gs where "gs = fst (recheck chans ptr (gs_list p) (pr_wakeable p))"
  have keys: "map fst gs = map fst (gs_list p)" "length gs = length (gs_list p)"
    by (simp_all add: gs_def recheck_map case_prod_beta comp_def)
  have parked: "cnt gw_parked gs = cnt gw_parked (gs_list p)"
    unfolding gs_def recheck_map by (rule cnt_map) simp
  have wakeable: "snd (recheck chans ptr (gs_list p) (pr_wakeable p)) = cnt gw_wakeable gs"
    using ok recheck_count [of chans ptr "gs_list p" "pr_wakeable p"]
    by (simp add: gs_def goroutines_ok_def counts_ok_def)
  have "all_g (gwait_ok chans) gs"
    using ok False recheck1_ok [of "pr_chans p" _ ptr dead]
    by (auto simp: gs_def recheck_map all_g_def goroutines_ok_def counts_ok_def chans_def)
  with keys parked wakeable ok have
    "counts_ok chans gs (pr_live p) (pr_parked p) (snd (recheck chans ptr (gs_list p) (pr_wakeable p)))"
    by (simp add: goroutines_ok_def counts_ok_def)
  moreover have "gs_list p = [] \<Longrightarrow> gs = []" by (simp add: gs_def)
  ultimately show ?thesis
    using False
    by (cases "pr_gs p")
      (auto simp: setChanDead_def Let_def case_prod_beta goroutines_ok_def gs_def chans_def gs_list_def)
qed

lemma fail_kill_frame [simp]:
  "gs_list (kill p) = gs_list p" "pr_live (kill p) = pr_live p" "pr_parked (kill p) = pr_parked p"
  "pr_wakeable (kill p) = pr_wakeable p" "pr_chans (kill p) = pr_chans p" "pr_armed (kill p) = pr_armed p"
  "pr_disarmCh (kill p) = pr_disarmCh p" "pr_watches (kill p) = pr_watches p" "pr_epoch (kill p) = pr_epoch p"
  "pr_extWait (kill p) = pr_extWait p" "pr_fatal (kill p) = pr_fatal p" "pr_done (kill p)"
  by (simp_all add: kill_def)

lemma fail_frame [simp]:
  "gs_list (record_fatal e p) = gs_list p" "pr_live (record_fatal e p) = pr_live p"
  "pr_parked (record_fatal e p) = pr_parked p" "pr_wakeable (record_fatal e p) = pr_wakeable p"
  "pr_chans (record_fatal e p) = pr_chans p" "pr_armed (record_fatal e p) = pr_armed p"
  "pr_disarmCh (record_fatal e p) = pr_disarmCh p" "pr_watches (record_fatal e p) = pr_watches p"
  "pr_epoch (record_fatal e p) = pr_epoch p" "pr_extWait (record_fatal e p) = pr_extWait p"
  "pr_done (record_fatal e p) = pr_done p"
  "pr_fatal (record_fatal e p) = (if pr_fatal p = None then Some e else pr_fatal p)"
  by (simp_all add: record_fatal_def)

lemma stage_frame [simp]:
  "gs_list (set_stage st i p) = gs_list p" "pr_live (set_stage st i p) = pr_live p"
  "pr_parked (set_stage st i p) = pr_parked p" "pr_wakeable (set_stage st i p) = pr_wakeable p"
  "pr_chans (set_stage st i p) = pr_chans p" "pr_armed (set_stage st i p) = pr_armed p"
  "pr_disarmCh (set_stage st i p) = pr_disarmCh p" "pr_epoch (set_stage st i p) = pr_epoch p"
  "pr_extWait (set_stage st i p) = pr_extWait p" "pr_done (set_stage st i p) = pr_done p"
  "pr_fatal (set_stage st i p) = pr_fatal p"
  by (simp_all add: set_stage_def)

lemma goroutines_ok_end [simp]:
  "goroutines_ok (kill p) = goroutines_ok p" "goroutines_ok (record_fatal e p) = goroutines_ok p"
  "goroutines_ok (set_stage st i p) = goroutines_ok p"
  by (simp_all add: goroutines_ok_def)

lemma watch_step_frame [simp]:
  "gs_list (watch_step i p) = gs_list p" "pr_live (watch_step i p) = pr_live p"
  "pr_parked (watch_step i p) = pr_parked p" "pr_wakeable (watch_step i p) = pr_wakeable p"
  "pr_chans (watch_step i p) = pr_chans p" "pr_armed (watch_step i p) = pr_armed p"
  "pr_disarmCh (watch_step i p) = pr_disarmCh p" "pr_epoch (watch_step i p) = pr_epoch p"
  "pr_extWait (watch_step i p) = pr_extWait p"
  by (simp_all add: watch_step_def split: watch_stage.split)

lemma watch_step_ok [inv_intros]: "goroutines_ok p \<Longrightarrow> goroutines_ok (watch_step i p)"
  by (simp add: goroutines_ok_def)

section \<open>Runs of the process\<close>

text \<open>
  A configuration: the process and, for each pending external wait, whether its release has run. The
  steps are the operations, with what their callers guarantee: a park names channels that are managed
  (\<open>chanParkWake\<close>), and a channel is registered once (its \<open>reflect.Value\<close> is pinned, so its pointer is
  not used again). In a strict run, moreover, only goroutines inside a \<open>Call\<close> park and unpark, and a
  parked goroutine does nothing else.
\<close>

type_synonym conf = "proc \<times> bool list"

definition registered :: "int \<Rightarrow> proc \<Rightarrow> bool" where
  "registered gid p \<longleftrightarrow> gid = 0 \<or> map_of (gs_list p) gid \<noteq> None"

definition asleep :: "int \<Rightarrow> proc \<Rightarrow> bool" where
  "asleep gid p \<longleftrightarrow> (case map_of (gs_list p) gid of None \<Rightarrow> False | Some g \<Rightarrow> gw_parked g)"

inductive pstep :: "bool \<Rightarrow> conf \<Rightarrow> conf \<Rightarrow> bool" for strict where
  enter: "(strict \<Longrightarrow> \<not> asleep gid p) \<Longrightarrow> pstep strict (p, ws) (enterG gid p, ws)"
| leave: "pstep strict (p, ws) (leaveG gid p, ws)"
| park: "parkG gid w p = Some p' \<Longrightarrow> set (pw_chans w) \<subseteq> dom (pr_chans p) \<Longrightarrow> (strict \<Longrightarrow> registered gid p) \<Longrightarrow>
    pstep strict (p, ws) (p', ws)"
| unpark: "(strict \<Longrightarrow> registered gid p) \<Longrightarrow> pstep strict (p, ws) (unparkG gid p, ws)"
| note_wait: "pstep strict (p, ws) (noteExternalWait p, ws @ [False])"
| release: "i < length ws \<Longrightarrow> releaseWait (ws ! i) p = (b, p') \<Longrightarrow> pstep strict (p, ws) (p', ws[i := b])"
| register: "pr_chans p ptr = None \<Longrightarrow> pstep strict (p, ws) (registerChan ptr p, ws)"
| chan_dead: "pstep strict (p, ws) (setChanDead ptr dead p, ws)"
| timer: "i < length (pr_watches p) \<Longrightarrow> wt_stage (pr_watches p ! i) \<noteq> Ended \<Longrightarrow>
    pstep strict (p, ws) (watch_step i p, ws)"
| retire: "i < length (pr_watches p) \<Longrightarrow> wt_stage (pr_watches p ! i) = Timing \<Longrightarrow>
    wt_disarmed (pr_watches p ! i) \<or> pr_done p \<Longrightarrow> pstep strict (p, ws) (set_stage Ended i p, ws)"
| failure: "pstep strict (p, ws) (record_fatal (ScriptFatal e) p, ws)"
| killed: "pstep strict (p, ws) (kill p, ws)"
| watch_call: "pstep strict (p, ws) (watchCallFrom gid p, ws)"
| unwatch_call: "pstep strict (p, ws) (unwatchCallFrom gid p, ws)"

definition pending :: "bool list \<Rightarrow> int" where
  "pending ws = int (length (filter (\<lambda>b. \<not> b) ws))"

definition conf_ok :: "conf \<Rightarrow> bool" where
  "conf_ok c \<longleftrightarrow> goroutines_ok (fst c) \<and> watch_ok (fst c) \<and> pr_extWait (fst c) = pending (snd c)"

lemma pending_append [simp]: "pending (ws @ [False]) = pending ws + 1"
  by (simp add: pending_def)

lemma pending_release: "i < length ws \<Longrightarrow> \<not> ws ! i \<Longrightarrow> pending (ws[i := True]) = pending ws - 1"
proof (induction ws arbitrary: i)
  case (Cons b ws)
  then show ?case by (cases i) (auto simp: pending_def)
qed simp

lemma watch_ok_frame:
  "pr_armed q = pr_armed p \<Longrightarrow> pr_disarmCh q = pr_disarmCh p \<Longrightarrow> pr_watches q = pr_watches p \<Longrightarrow>
   pr_epoch q = pr_epoch p \<Longrightarrow> watch_ok q = watch_ok p"
  by (cases "pr_disarmCh p") (auto simp: watch_ok_def)

lemma watch_ok_upd [simp]:
  "watch_ok (p\<lparr>pr_gs := gs\<rparr>) = watch_ok p" "watch_ok (p\<lparr>pr_live := n\<rparr>) = watch_ok p"
  "watch_ok (p\<lparr>pr_parked := n\<rparr>) = watch_ok p" "watch_ok (p\<lparr>pr_wakeable := n\<rparr>) = watch_ok p"
  "watch_ok (p\<lparr>pr_extWait := n\<rparr>) = watch_ok p" "watch_ok (p\<lparr>pr_chans := cs\<rparr>) = watch_ok p"
  "watch_ok (p\<lparr>pr_managedN := mn\<rparr>) = watch_ok p" "watch_ok (p\<lparr>pr_done := d\<rparr>) = watch_ok p"
  "watch_ok (p\<lparr>pr_fatal := ft\<rparr>) = watch_ok p" "watch_ok (p\<lparr>pr_syncCallers := sc\<rparr>) = watch_ok p"
  by (rule watch_ok_frame; simp)+

lemma watch_ok_end [simp]: "watch_ok p \<Longrightarrow> watch_ok (set_stage st i p)"
  by (cases "i < length (pr_watches p)")
    (auto simp: watch_ok_def set_stage_def nth_list_update list_update_beyond split: option.splits)

lemma watch_ok_fatal [simp]: "watch_ok p \<Longrightarrow> watch_ok (record_fatal e p)" "watch_ok p \<Longrightarrow> watch_ok (kill p)"
  by (simp_all add: record_fatal_def kill_def)

lemma watch_ok_ops [inv_intros]:
  "watch_ok p \<Longrightarrow> watch_ok (enterG gid p)"
  "watch_ok p \<Longrightarrow> watch_ok (leaveG gid p)"
  "watch_ok p \<Longrightarrow> watch_ok (unparkG gid p)"
  "watch_ok p \<Longrightarrow> watch_ok (noteExternalWait p)"
  "watch_ok p \<Longrightarrow> watch_ok (registerChan ptr p)"
  "watch_ok p \<Longrightarrow> watch_ok (setChanDead ptr dead p)"
  "watch_ok p \<Longrightarrow> watch_ok (watch_step i p)"
  "watch_ok p \<Longrightarrow> watch_ok (set_stage st i p)"
  "watch_ok p \<Longrightarrow> watch_ok (record_fatal e p)"
  "watch_ok p \<Longrightarrow> watch_ok (kill p)"
  by (auto simp: enterG_def leaveG_def unparkG_def noteExternalWait_def registerChan_def setChanDead_def
      watch_step_def Let_def case_prod_beta intro!: watch_ok_touch watch_ok_check
      split: option.split watch_stage.split)

lemma watch_ok_park [inv_intros]: "watch_ok p \<Longrightarrow> parkG gid w p = Some p' \<Longrightarrow> watch_ok p'"
  by (auto simp: parkG_def park_known_def Let_def intro!: watch_ok_check split: if_splits option.splits)

lemma watch_ok_release [inv_intros]: "watch_ok p \<Longrightarrow> watch_ok (snd (releaseWait b p))"
  by (auto simp: releaseWait_def intro!: watch_ok_check)

lemma extWait_frame [simp, frame_simps]:
  "pr_extWait (enterG gid p) = pr_extWait p" "pr_extWait (leaveG gid p) = pr_extWait p"
  "pr_extWait (unparkG gid p) = pr_extWait p" "pr_extWait (registerChan ptr p) = pr_extWait p"
  "pr_extWait (setChanDead ptr dead p) = pr_extWait p"
  by (auto simp: enterG_def leaveG_def unparkG_def registerChan_def setChanDead_def Let_def
      case_prod_beta split: option.split)

lemma extWait_park [frame_simps]: "parkG gid w p = Some p' \<Longrightarrow> pr_extWait p' = pr_extWait p"
  by (auto simp: parkG_def park_known_def Let_def split: if_splits option.splits)

lemma releaseWait_cases:
  assumes "releaseWait b p = (b', p')"
  obtains "b" "b'" "p' = p"
  | "\<not> b" "b'" "p' = checkDeadLocked (p\<lparr>pr_extWait := pr_extWait p - 1\<rparr>)"
  using assms by (auto simp: releaseWait_def split: if_splits)

lemma sync_frame [simp]:
  "goroutines_ok (watchCallFrom gid p) = goroutines_ok p" "watch_ok (watchCallFrom gid p) = watch_ok p"
  "goroutines_ok (unwatchCallFrom gid p) = goroutines_ok p" "watch_ok (unwatchCallFrom gid p) = watch_ok p"
  "pr_extWait (watchCallFrom gid p) = pr_extWait p" "pr_extWait (unwatchCallFrom gid p) = pr_extWait p"
  by (simp_all add: watchCallFrom_def unwatchCallFrom_def goroutines_ok_def)

lemma conf_ok_step: "pstep strict c c' \<Longrightarrow> conf_ok c \<Longrightarrow> conf_ok c'"
proof (induction rule: pstep.induct)
  case (park gid w p p' ws)
  then show ?case using parkG_ok watch_ok_park extWait_park by (auto simp: conf_ok_def)
next
  case (note_wait p ws)
  then show ?case by (auto simp: conf_ok_def inv_intros noteExternalWait_def goroutines_ok_def)
next
  case (release i ws p b p')
  from release(2) show ?case
  proof (cases rule: releaseWait_cases)
    case 1
    with release list_update_id [of ws i] show ?thesis by (simp add: conf_ok_def)
  next
    case 2
    with release watch_ok_check [of "p\<lparr>pr_extWait := pr_extWait p - 1\<rparr>"] show ?thesis
      by (simp add: conf_ok_def pending_release goroutines_ok_def)
  qed
qed (auto simp: conf_ok_def intro: inv_intros)

definition start :: conf where
  "start = (newProc, [])"

lemma start_ok: "conf_ok start"
  by (simp add: conf_ok_def start_def newProc_def goroutines_ok_def counts_ok_def gs_list_def all_g_def
      watch_ok_def pending_def)

interpretation proc_runs: transition "pstep strict" conf_ok for strict
  by unfold_locales (rule conf_ok_step)

definition reached :: "bool \<Rightarrow> conf \<Rightarrow> bool" where
  "reached strict c \<longleftrightarrow> (pstep strict)\<^sup>*\<^sup>* start c"

lemma reached_ok: "reached strict c \<Longrightarrow> conf_ok c"
  unfolding reached_def using proc_runs.run_keeps start_ok by blast



lemma fatal_frame [simp, frame_simps]:
  "pr_fatal (enterG gid p) = pr_fatal p" "pr_fatal (leaveG gid p) = pr_fatal p"
  "pr_fatal (unparkG gid p) = pr_fatal p" "pr_fatal (registerChan ptr p) = pr_fatal p"
  "pr_fatal (setChanDead ptr dead p) = pr_fatal p" "pr_fatal (noteExternalWait p) = pr_fatal p"
  "pr_fatal (snd (releaseWait b p)) = pr_fatal p" "pr_fatal (watchCallFrom gid p) = pr_fatal p"
  "pr_fatal (unwatchCallFrom gid p) = pr_fatal p"
  by (auto simp: enterG_def leaveG_def unparkG_def registerChan_def setChanDead_def Let_def
      case_prod_beta noteExternalWait_def releaseWait_def watchCallFrom_def unwatchCallFrom_def split: option.split)

lemma fatal_park [frame_simps]: "parkG gid w p = Some p' \<Longrightarrow> pr_fatal p' = pr_fatal p"
  by (auto simp: parkG_def park_known_def Let_def split: if_splits option.splits)

section \<open>Strict runs\<close>

definition armed_ok :: "proc \<Rightarrow> bool" where
  "armed_ok p \<longleftrightarrow> (pr_armed p \<longleftrightarrow> deadlocked p)"

definition alive_ok :: "proc \<Rightarrow> bool" where
  "alive_ok p \<longleftrightarrow> (\<not> pr_done p \<longrightarrow> (\<forall>i. pr_disarmCh p = Some i \<longrightarrow> wt_stage (pr_watches p ! i) \<noteq> Ended))"

definition no_ghosts :: "proc \<Rightarrow> bool" where
  "no_ghosts p \<longleftrightarrow> all_g (\<lambda>g. \<not> gw_parkedOnly g) (gs_list p)"

lemma deadlocked_frame [simp]:
  "deadlocked (touch p) = deadlocked p" "deadlocked (checkDeadLocked p) = deadlocked p"
  "deadlocked (set_stage st i p) = deadlocked p" "deadlocked (record_fatal e p) = deadlocked p"
  "deadlocked (watch_step i p) = deadlocked p"
  "deadlocked (kill p) = deadlocked p"
  by (simp_all add: deadlocked_def)

lemma armed_check: "\<not> pr_armed p \<Longrightarrow> 0 \<le> pr_live p \<Longrightarrow> armed_ok (checkDeadLocked p)"
  by (auto simp: armed_ok_def checkDeadLocked_def deadlocked_def)

lemma check_armed_same: "pr_armed p \<Longrightarrow> checkDeadLocked p = p"
  by (simp add: checkDeadLocked_def)

lemma touch_disarms: "watch_ok p \<Longrightarrow> pr_disarmCh (touch p) = None"
  by (auto simp: touch_def watch_ok_def Let_def)

lemma alive_touch: "watch_ok p \<Longrightarrow> alive_ok (touch p)"
  by (simp add: alive_ok_def touch_disarms)

lemma alive_check: "watch_ok p \<Longrightarrow> alive_ok p \<Longrightarrow> alive_ok (checkDeadLocked p)"
  by (auto simp: alive_ok_def checkDeadLocked_def nth_append watch_ok_def)

lemma goroutines_live: "goroutines_ok p \<Longrightarrow> 0 \<le> pr_live p"
  by (simp add: goroutines_ok_def counts_ok_def)

lemma awake_not_deadlocked:
  assumes "goroutines_ok p" "map_of (gs_list p) gid = Some g" "\<not> gw_parked g"
  shows "\<not> deadlocked p"
proof
  assume "deadlocked p"
  with assms(1) have "cnt gw_parked (gs_list p) = int (length (gs_list p))"
    by (simp add: deadlocked_def goroutines_ok_def counts_ok_def)
  with assms(2,3) show False unfolding cnt_all by (fastforce dest: map_of_SomeD)
qed

text \<open>An operation that ends in \<open>touch\<close> and \<open>checkDeadLocked\<close>.\<close>

lemma checked_ok:
  "watch_ok p \<Longrightarrow> goroutines_ok p \<Longrightarrow> armed_ok (checkDeadLocked (touch p)) \<and> alive_ok (checkDeadLocked (touch p))"
  by (auto intro!: armed_check alive_check alive_touch watch_ok_touch goroutines_live)

definition strict_ok :: "conf \<Rightarrow> bool" where
  "strict_ok c \<longleftrightarrow> conf_ok c \<and> armed_ok (fst c) \<and> alive_ok (fst c) \<and> no_ghosts (fst c)"

lemma strict_enter:
  assumes "goroutines_ok p" "watch_ok p" "armed_ok p" "alive_ok p" "\<not> asleep gid p"
  shows "armed_ok (enterG gid p) \<and> alive_ok (enterG gid p)"
proof (cases "gid = 0")
  case True
  with assms show ?thesis by (simp add: enterG_def)
next
  case False
  obtain q where q: "enterG gid p = touch q" "watch_ok q"
    using False assms(2) by (auto simp: enterG_def Let_def)
  obtain g where "map_of (gs_list (enterG gid p)) gid = Some g" "\<not> gw_parked g"
    using False assms(5) by (auto simp: enterG_def Let_def asleep_def update_conv' split: option.splits)
  from awake_not_deadlocked [OF enterG_ok [OF assms(1)] this] q show ?thesis
    by (simp add: armed_ok_def alive_touch)
qed

lemma strict_leave:
  assumes "goroutines_ok p" "watch_ok p" "armed_ok p" "alive_ok p"
  shows "armed_ok (leaveG gid p) \<and> alive_ok (leaveG gid p)"
proof (cases "gid = 0")
  case True
  with assms show ?thesis by (simp add: leaveG_def)
next
  case False
  obtain q where q: "leaveG gid p = checkDeadLocked (touch q)" "watch_ok q"
    using False assms(2) by (auto simp: leaveG_def Let_def split: option.split)
  from leaveG_ok [OF assms(1), of gid] q checked_ok show ?thesis by simp
qed

lemma strict_unpark:
  assumes "goroutines_ok p" "watch_ok p" "armed_ok p" "alive_ok p" "no_ghosts p" "registered gid p"
  shows "armed_ok (unparkG gid p) \<and> alive_ok (unparkG gid p)"
proof (cases "gid = 0")
  case True
  with assms show ?thesis by (simp add: unparkG_def)
next
  case False
  with assms(6) obtain g where g: "map_of (gs_list p) gid = Some g" by (auto simp: registered_def)
  with assms(5) have "\<not> gw_parkedOnly g" unfolding no_ghosts_def by (rule all_g_lookup)
  with g False have awake: "\<exists>g. map_of (gs_list (unparkG gid p)) gid = Some g \<and> \<not> gw_parked g"
    by (cases "gw_parked g") (simp_all add: unparkG_def Let_def update_conv' unpark_mark_def)
  obtain q where q: "unparkG gid p = touch q" "watch_ok q"
    using False assms(2) g by (cases "gw_parked g"; cases "gw_parkedOnly g") (auto simp: unparkG_def Let_def)
  from awake awake_not_deadlocked [OF unparkG_ok [OF assms(1)]] have "\<not> deadlocked (unparkG gid p)" by blast
  with q show ?thesis by (simp add: armed_ok_def alive_touch)
qed

lemma strict_park:
  assumes "goroutines_ok p" "watch_ok p" "armed_ok p" "alive_ok p" "registered gid p"
    "parkG gid w p = Some p'" "goroutines_ok p'"
  shows "armed_ok p' \<and> alive_ok p'"
proof (cases "gid = 0 \<or> asleep gid p")
  case True
  then have "p' = p \<or> p' = checkDeadLocked p"
    using assms(6) by (auto simp: parkG_def asleep_def park_known_def split: if_splits option.splits)
  with assms show ?thesis
    by (cases "pr_armed p")
      (auto simp: check_armed_same intro: armed_check alive_check goroutines_live)
next
  case False
  with assms(5) obtain g where g: "map_of (gs_list p) gid = Some g" "\<not> gw_parked g"
    by (auto simp: registered_def asleep_def)
  from awake_not_deadlocked [OF assms(1) g] assms(3) have "\<not> pr_armed p" by (simp add: armed_ok_def)
  moreover from g False assms(6) have p': "p' = checkDeadLocked (park_known gid g w p)" by (simp add: parkG_def)
  moreover have "pr_armed (park_known gid g w p) = pr_armed p" "watch_ok (park_known gid g w p)"
      "alive_ok (park_known gid g w p)"
    using assms(2,4) g(2) by (simp_all add: park_known_def Let_def alive_ok_def)
  moreover have "0 \<le> pr_live (park_known gid g w p)"
    using goroutines_live [OF assms(7)] p' by simp
  ultimately show ?thesis by (simp add: armed_check alive_check)
qed

lemma strict_setChanDead:
  assumes "goroutines_ok p" "watch_ok p" "armed_ok p" "alive_ok p"
  shows "armed_ok (setChanDead ptr dead p) \<and> alive_ok (setChanDead ptr dead p)"
proof (cases "pr_chans p ptr = None \<or> pr_chans p ptr = Some dead")
  case True
  then show ?thesis using assms by (simp add: setChanDead_def)
next
  case False
  then obtain q where q: "setChanDead ptr dead p = checkDeadLocked (touch q)" "watch_ok q"
    using assms(2) by (auto simp: setChanDead_def Let_def case_prod_beta split: option.split)
  from setChanDead_ok [OF assms(1), of ptr dead] q checked_ok show ?thesis by simp
qed

lemma pending_pos: "i < length ws \<Longrightarrow> \<not> ws ! i \<Longrightarrow> 0 < pending ws"
proof (induction ws arbitrary: i)
  case (Cons b ws)
  then show ?case by (cases i; cases b) (auto simp: pending_def)
qed simp

lemma strict_note:
  assumes "goroutines_ok p" "watch_ok p" "pr_extWait p = pending ws"
  shows "armed_ok (noteExternalWait p) \<and> alive_ok (noteExternalWait p)"
  using assms by (auto simp: noteExternalWait_def armed_ok_def deadlocked_def pending_def intro!: alive_touch)

lemma alive_stage: "st \<noteq> Ended \<Longrightarrow> alive_ok p \<Longrightarrow> alive_ok (set_stage st i p)"
  by (cases "i < length (pr_watches p)") (auto simp: alive_ok_def set_stage_def nth_list_update list_update_beyond)

lemma alive_other: "pr_disarmCh p \<noteq> Some i \<or> pr_done p \<Longrightarrow> alive_ok p \<Longrightarrow> alive_ok (set_stage st i p)"
  by (cases "i < length (pr_watches p)") (auto simp: alive_ok_def set_stage_def nth_list_update list_update_beyond)

lemma alive_fatal [simp]: "alive_ok (record_fatal e p) = alive_ok p" "alive_ok (kill p)"
  by (simp_all add: alive_ok_def)

lemma strict_fire:
  assumes "watch_ok p" "armed_ok p" "alive_ok p"
  shows "armed_ok (watch_step i p) \<and> alive_ok (watch_step i p)"
proof -
  have "armed_ok (watch_step i p)" using assms(2) by (simp add: armed_ok_def)
  moreover have "alive_ok (watch_step i p)"
  proof (cases "wt_stage (pr_watches p ! i)")
    case Timing
    have "stillDeadLocked i p" if "pr_disarmCh p = Some i"
      using assms(1,2) that by (auto simp: watch_ok_def armed_ok_def deadlocked_def stillDeadLocked_def)
    with Timing assms(3) show ?thesis by (auto simp: watch_step_def intro: alive_stage alive_other)
  next
    case Verdict
    with assms(3) show ?thesis by (simp add: watch_step_def alive_stage)
  next
    case Ending
    then show ?thesis by (simp add: watch_step_def alive_other)
  next
    case Ended
    with assms(3) show ?thesis by (simp add: watch_step_def)
  qed
  ultimately show ?thesis ..
qed

lemma strict_retire:
  assumes "watch_ok p" "armed_ok p" "alive_ok p" "wt_disarmed (pr_watches p ! i) \<or> pr_done p"
  shows "armed_ok (set_stage Ended i p) \<and> alive_ok (set_stage Ended i p)"
proof -
  have "pr_disarmCh p \<noteq> Some i \<or> pr_done p" using assms(1,4) by (auto simp: watch_ok_def)
  then show ?thesis using assms(2,3) by (simp add: armed_ok_def alive_other)
qed

lemma no_ghosts_enter: "no_ghosts p \<Longrightarrow> no_ghosts (enterG gid p)"
  by (cases "map_of (gs_list p) gid")
    (auto simp: no_ghosts_def enterG_def Let_def intro!: all_g_update dest: all_g_lookup)

lemma no_ghosts_leave: "no_ghosts p \<Longrightarrow> no_ghosts (leaveG gid p)"
  by (cases "map_of (gs_list p) gid")
    (auto simp: no_ghosts_def leaveG_def Let_def all_g_delete intro!: all_g_update dest: all_g_lookup)

lemma no_ghosts_unpark: "no_ghosts p \<Longrightarrow> no_ghosts (unparkG gid p)"
  by (cases "map_of (gs_list p) gid")
    (auto simp: no_ghosts_def unparkG_def Let_def unpark_mark_def all_g_delete intro!: all_g_update
      dest: all_g_lookup)

lemma no_ghosts_park:
  assumes "no_ghosts p" "registered gid p" "parkG gid w p = Some p'"
  shows "no_ghosts p'"
proof (cases "gid = 0")
  case True
  with assms show ?thesis by (simp add: parkG_def)
next
  case False
  with assms(2) obtain g where g: "map_of (gs_list p) gid = Some g" by (auto simp: registered_def)
  with assms(1) have "\<not> gw_parkedOnly g" unfolding no_ghosts_def by (rule all_g_lookup)
  with g False assms(1,3) show ?thesis
    by (auto simp: no_ghosts_def parkG_def park_known_def Let_def intro!: all_g_update)
qed

lemma all_g_map: "all_g Q (map (\<lambda>(gid, g). (gid, h g)) gs) = all_g (\<lambda>g. Q (h g)) gs"
  by (auto simp: all_g_def)

lemma no_ghosts_dead: "no_ghosts p \<Longrightarrow> no_ghosts (setChanDead ptr dead p)"
proof (cases "pr_gs p")
  case None
  then show "no_ghosts p \<Longrightarrow> ?thesis"
    by (simp add: no_ghosts_def setChanDead_def Let_def case_prod_beta gs_list_def)
next
  case (Some gs)
  then have gs: "gs_list p = gs" by simp
  assume "no_ghosts p"
  with Some show ?thesis
    by (simp add: no_ghosts_def setChanDead_def Let_def case_prod_beta gs recheck_map all_g_map)
qed

lemma no_ghosts_rest [simp]:
  "no_ghosts (touch p) = no_ghosts p" "no_ghosts (checkDeadLocked p) = no_ghosts p"
  "no_ghosts (noteExternalWait p) = no_ghosts p" "no_ghosts (registerChan ptr p) = no_ghosts p"
  "no_ghosts (set_stage st i p) = no_ghosts p" "no_ghosts (watch_step i p) = no_ghosts p"
  "no_ghosts (record_fatal e p) = no_ghosts p" "no_ghosts (kill p) = no_ghosts p"
  "no_ghosts (watchCallFrom gid p) = no_ghosts p" "no_ghosts (unwatchCallFrom gid p) = no_ghosts p"
  by (simp_all add: no_ghosts_def noteExternalWait_def registerChan_def watchCallFrom_def unwatchCallFrom_def)

lemma strict_plain [simp]:
  "armed_ok (registerChan ptr p) = armed_ok p" "alive_ok (registerChan ptr p) = alive_ok p"
  "armed_ok (watchCallFrom gid p) = armed_ok p" "alive_ok (watchCallFrom gid p) = alive_ok p"
  "armed_ok (unwatchCallFrom gid p) = armed_ok p" "alive_ok (unwatchCallFrom gid p) = alive_ok p"
  "armed_ok (record_fatal e p) = armed_ok p" "armed_ok (kill p) = armed_ok p"
  by (simp_all add: armed_ok_def alive_ok_def deadlocked_def registerChan_def watchCallFrom_def unwatchCallFrom_def)

lemma strict_release:
  assumes "goroutines_ok p" "watch_ok p" "armed_ok p" "alive_ok p" "pr_extWait p \<noteq> 0"
  shows "armed_ok (checkDeadLocked (p\<lparr>pr_extWait := n\<rparr>)) \<and> alive_ok (checkDeadLocked (p\<lparr>pr_extWait := n\<rparr>))"
proof (intro conjI armed_check alive_check)
  show "\<not> pr_armed (p\<lparr>pr_extWait := n\<rparr>)" using assms(3,5) by (simp add: armed_ok_def deadlocked_def)
  show "0 \<le> pr_live (p\<lparr>pr_extWait := n\<rparr>)" using goroutines_live [OF assms(1)] by simp
  show "watch_ok (p\<lparr>pr_extWait := n\<rparr>)" using assms(2) by simp
  show "alive_ok (p\<lparr>pr_extWait := n\<rparr>)" using assms(4) by (simp add: alive_ok_def)
qed

lemma strict_okI:
  "conf_ok (p, ws) \<Longrightarrow> armed_ok p \<and> alive_ok p \<Longrightarrow> no_ghosts p \<Longrightarrow> strict_ok (p, ws)"
  by (simp add: strict_ok_def)

lemma strict_ok_step: "pstep True c c' \<Longrightarrow> strict_ok c \<Longrightarrow> strict_ok c'"
proof -
  assume step: "pstep True c c'" and ok: "strict_ok c"
  then have conf': "conf_ok c'" using conf_ok_step by (simp add: strict_ok_def)
  from ok have parts: "goroutines_ok (fst c)" "watch_ok (fst c)" "armed_ok (fst c)" "alive_ok (fst c)"
    "no_ghosts (fst c)" "pr_extWait (fst c) = pending (snd c)"
    by (simp_all add: strict_ok_def conf_ok_def)
  from step conf' parts show ?thesis
  proof (induction rule: pstep.induct)
    case (enter gid p ws)
    then show ?case by (intro strict_okI strict_enter no_ghosts_enter) simp_all
  next
    case (leave p ws gid)
    then show ?case by (intro strict_okI strict_leave no_ghosts_leave) simp_all
  next
    case (park gid w p p' ws)
    then have "goroutines_ok p'" by (simp add: conf_ok_def)
    with park show ?case
      using strict_park [of p gid w p'] no_ghosts_park [of p gid w p'] by (intro strict_okI) simp_all
  next
    case (unpark gid p ws)
    then show ?case by (intro strict_okI strict_unpark no_ghosts_unpark) simp_all
  next
    case (note_wait p ws)
    then show ?case using strict_note [of p ws] by (intro strict_okI) simp_all
  next
    case (release i ws p b p')
    from release(2) show ?case
    proof (cases rule: releaseWait_cases)
      case 1
      with release show ?thesis by (intro strict_okI) simp_all
    next
      case 2
      with release pending_pos [of i ws] have "pr_extWait p \<noteq> 0" by simp
      with release strict_release [of p] show ?thesis
        unfolding 2(3) using 2 by (intro strict_okI) (simp_all add: no_ghosts_def)
    qed
  next
    case (chan_dead p ws ptr dead)
    then show ?case by (intro strict_okI strict_setChanDead no_ghosts_dead) simp_all
  next
    case (timer i p ws)
    then show ?case by (intro strict_okI strict_fire) simp_all
  next
    case (retire i p ws)
    then show ?case by (intro strict_okI strict_retire) simp_all
  qed (rule strict_okI; simp)+
qed

interpretation strict_runs: transition "pstep True" strict_ok
  by unfold_locales (rule strict_ok_step)

lemma reached_strict: "reached True c \<Longrightarrow> strict_ok c"
proof -
  have "strict_ok start"
    using start_ok
    by (simp add: strict_ok_def start_def newProc_def armed_ok_def deadlocked_def alive_ok_def no_ghosts_def
        gs_list_def all_g_def)
  then show "reached True c \<Longrightarrow> strict_ok c"
    unfolding reached_def using strict_runs.run_keeps by blast
qed

section \<open>What the watches have seen\<close>

text \<open>Apart from the watches' own steps, operations leave the stages alone and start watches that wait.\<close>

definition stages :: "proc \<Rightarrow> watch_stage list" where
  "stages p = map wt_stage (pr_watches p)"

definition starts_watches :: "proc \<Rightarrow> proc \<Rightarrow> bool" where
  "starts_watches p q \<longleftrightarrow> (\<exists>k. stages q = stages p @ replicate k Timing)"

lemma starts_same: "pr_watches q = pr_watches p \<Longrightarrow> starts_watches p q"
  unfolding starts_watches_def stages_def by (rule exI [of _ 0]) simp

lemma stages_disarm: "map wt_stage (disarm_watch ch ws) = map wt_stage ws"
proof (cases ch)
  case (Some i)
  then show ?thesis
    by (cases "i < length ws") (simp_all add: disarm_watch_def map_update list_update_same_conv list_update_beyond)
qed (simp add: disarm_watch_def)

lemma starts_touch: "starts_watches p q \<Longrightarrow> starts_watches p (touch q)"
  by (simp add: starts_watches_def stages_def touch_def Let_def stages_disarm)

lemma starts_check: "starts_watches p q \<Longrightarrow> starts_watches p (checkDeadLocked q)"
proof -
  assume "starts_watches p q"
  then obtain k where "stages q = stages p @ replicate k Timing" unfolding starts_watches_def by blast
  then have "stages (checkDeadLocked q) = stages p @ replicate (if pr_watches (checkDeadLocked q) = pr_watches q then k else Suc k) Timing"
    by (simp add: stages_def checkDeadLocked_def replicate_append_same)
  then show ?thesis unfolding starts_watches_def by blast
qed

lemma starts_ops:
  "starts_watches p (enterG gid p)" "starts_watches p (leaveG gid p)" "starts_watches p (unparkG gid p)"
  "starts_watches p (noteExternalWait p)" "starts_watches p (registerChan ptr p)"
  "starts_watches p (setChanDead ptr dead p)" "starts_watches p (snd (releaseWait b p))"
  "starts_watches p (record_fatal e p)" "starts_watches p (kill p)"
  "starts_watches p (watchCallFrom gid p)" "starts_watches p (unwatchCallFrom gid p)"
  by (auto simp: enterG_def leaveG_def unparkG_def noteExternalWait_def registerChan_def setChanDead_def releaseWait_def
      watchCallFrom_def unwatchCallFrom_def Let_def case_prod_beta intro!: starts_touch starts_check intro: starts_same split: option.split)

lemma starts_park: "parkG gid w p = Some p' \<Longrightarrow> starts_watches p p'"
  by (auto simp: parkG_def park_known_def Let_def intro!: starts_touch starts_check intro: starts_same split: if_splits option.splits)

lemma starts_stage:
  assumes "starts_watches p q" and "i < length (pr_watches q)" and "wt_stage (pr_watches q ! i) \<noteq> Timing"
  shows "i < length (pr_watches p) \<and> wt_stage (pr_watches p ! i) = wt_stage (pr_watches q ! i)"
proof -
  obtain k where k: "stages q = stages p @ replicate k Timing" using assms(1) unfolding starts_watches_def by blast
  have len: "length (stages q) = length (pr_watches q)" "length (stages p) = length (pr_watches p)"
    by (simp_all add: stages_def)
  have at_q: "wt_stage (pr_watches q ! i) = stages q ! i" using assms(2) by (simp add: stages_def)
  have i: "i < length (pr_watches p)"
  proof (rule ccontr)
    assume "\<not> i < length (pr_watches p)"
    then have "stages q ! i = Timing" using k len assms(2) by (auto simp: nth_append)
    with at_q assms(3) show False by simp
  qed
  then have "stages q ! i = stages p ! i" using k len by (simp add: nth_append)
  with i at_q show ?thesis by (simp add: stages_def)
qed

lemma stage_of_set:
  "wt_stage (pr_watches (set_stage st i p) ! j) = (if j = i \<and> i < length (pr_watches p) then st else wt_stage (pr_watches p ! j))"
  by (cases "i < length (pr_watches p)") (auto simp: set_stage_def nth_list_update list_update_beyond)

lemma length_set_stage [simp]: "length (pr_watches (set_stage st i p)) = length (pr_watches p)"
  by (simp add: set_stage_def)




text \<open>A watch only ends the process after an error was recorded.\<close>

lemma ending_recorded:
  assumes "reached strict c" and "i < length (pr_watches (fst c))" and "wt_stage (pr_watches (fst c) ! i) = Ending"
  shows "pr_fatal (fst c) \<noteq> None"
  using assms unfolding reached_def
proof (induction rule: rtranclp_induct)
  case base
  then show ?case by (simp add: start_def newProc_def)
next
  case (step c c')
  have starts: "pr_fatal (fst c) \<noteq> None" if "starts_watches (fst c) (fst c')"
    using starts_stage [OF that step.prems(1)] step.prems(2) step.IH by simp
  from step.hyps(2) show ?case
  proof cases
    case (park gid w p p' ws)
    then show ?thesis using starts starts_park fatal_park by fastforce
  next
    case (release j ws p b p')
    then have p': "p' = snd (releaseWait (ws ! j) p)" by simp
    have "starts_watches p p'" unfolding p' by (rule starts_ops(7))
    moreover have "pr_fatal p' = pr_fatal p" unfolding p' by (rule fatal_frame(7))
    ultimately show ?thesis using starts release by simp
  next
    case (timer j p ws)
    then show ?thesis using step.prems step.IH
      by (auto simp: watch_step_def stage_of_set split: watch_stage.splits if_splits)
  next
    case (retire j p ws)
    then show ?thesis using step.prems step.IH by (auto simp: stage_of_set split: if_splits)
  qed (use starts starts_ops in simp)+
qed

section \<open>Properties\<close>

text \<open>
  C12: in every reachable state the cached counters are the recount of the goroutine table, and a goroutine
  is marked wakeable exactly when it is parked on an operation with a live wake source; the armed watch
  has an open channel, so disarming never closes a closed or nil channel.
\<close>

theorem proc_counters:
  assumes "reached strict (p, ws)"
  shows "pr_live p = int (length (gs_list p)) \<and> pr_parked p = cnt gw_parked (gs_list p) \<and>
    pr_wakeable p = cnt gw_wakeable (gs_list p) \<and>
    (\<forall>(gid, g)\<in>set (gs_list p). gw_wakeable g \<longleftrightarrow> gw_parked g \<and> gWakeable (pr_chans p) g) \<and>
    pr_extWait p = pending ws \<and>
    (pr_armed p \<longrightarrow> (\<exists>i < length (pr_watches p). pr_disarmCh p = Some i \<and> \<not> wt_disarmed (pr_watches p ! i)))"
proof -
  from reached_ok [OF assms] have ok: "goroutines_ok p" "watch_ok p" "pr_extWait p = pending ws"
    by (simp_all add: conf_ok_def)
  have "pr_armed p \<longrightarrow> (\<exists>i < length (pr_watches p). pr_disarmCh p = Some i \<and> \<not> wt_disarmed (pr_watches p ! i))"
    using ok(2) by (auto simp: watch_ok_def)
  moreover have "\<forall>(gid, g)\<in>set (gs_list p). gw_wakeable g \<longleftrightarrow> gw_parked g \<and> gWakeable (pr_chans p) g"
    using ok(1) by (auto simp: goroutines_ok_def counts_ok_def all_g_def gwait_ok_def)
  ultimately show ?thesis using ok(1,3) by (simp add: goroutines_ok_def counts_ok_def)
qed


text \<open>
  C14: the deadlock fatal is complete in strict runs: when every live goroutine is parked without a wake
  source and no external wait is pending, a watch is running, and its own steps, at most three, end the
  process with the deadlock fatal.
\<close>

theorem deadlock_complete:
  assumes "reached True (p, ws)" "\<not> pr_done p" "pr_fatal p = None"
    and "gs_list p \<noteq> []" "\<forall>(gid, g)\<in>set (gs_list p). gw_parked g \<and> \<not> gWakeable (pr_chans p) g" "pending ws = 0"
  shows "\<exists>i n. pr_disarmCh p = Some i \<and> n \<le> 3 \<and>
    (\<forall>m<n. pstep True ((watch_step i ^^ m) p, ws) ((watch_step i ^^ Suc m) p, ws)) \<and>
    pr_done ((watch_step i ^^ n) p) \<and> pr_fatal ((watch_step i ^^ n) p) = Some DeadlockError"
proof -
  from reached_strict [OF assms(1)] have ok: "goroutines_ok p" "watch_ok p" "armed_ok p" "alive_ok p"
    "pr_extWait p = pending ws"
    by (simp_all add: strict_ok_def conf_ok_def)
  have "cnt gw_parked (gs_list p) = int (length (gs_list p))" "cnt gw_wakeable (gs_list p) = 0"
    unfolding cnt_all cnt_none using assms(5) ok(1)
    by (fastforce simp: goroutines_ok_def counts_ok_def all_g_def gwait_ok_def)+
  with ok(1,5) assms(4,6) have dead: "deadlocked p"
    by (simp add: deadlocked_def goroutines_ok_def counts_ok_def)
  with ok(2,3) obtain i where i: "pr_disarmCh p = Some i" "i < length (pr_watches p)" "stillDeadLocked i p"
    by (auto simp: watch_ok_def armed_ok_def stillDeadLocked_def deadlocked_def)
  let ?st = "wt_stage (pr_watches p ! i)" and ?w = "watch_step i"
  have "?st \<noteq> Ended" using ok(4) assms(2) i(1) by (simp add: alive_ok_def)
  moreover have "?st \<noteq> Ending" using ending_recorded [OF assms(1)] i(2) assms(3) by auto
  ultimately have "?st = Timing \<or> ?st = Verdict" by (cases ?st) simp_all
  note steps = pstep.timer [of i _ True ws]
  have two: "pstep True (q, ws) (?w q, ws) \<and> pstep True (?w q, ws) (?w (?w q), ws) \<and>
      pr_done (?w (?w q)) \<and> pr_fatal (?w (?w q)) = Some DeadlockError"
    if "wt_stage (pr_watches q ! i) = Verdict" "i < length (pr_watches q)" "pr_fatal q = None" for q
  proof -
    have w: "?w q = set_stage Ending i (record_fatal DeadlockError q)" using that(1) by (simp add: watch_step_def)
    then have st: "wt_stage (pr_watches (?w q) ! i) = Ending" "i < length (pr_watches (?w q))" "pr_fatal (?w q) = Some DeadlockError"
      using that by (simp_all add: stage_of_set)
    then have "?w (?w q) = set_stage Ended i (kill (?w q))" by (simp add: watch_step_def)
    then show ?thesis using steps [of q] steps [of "?w q"] that st by simp
  qed
  from \<open>?st = Timing \<or> ?st = Verdict\<close> show ?thesis
  proof
    assume "?st = Verdict"
    then show ?thesis using two [of p] i assms(3)
      by (intro exI [of _ i] exI [of _ 2]) (simp add: numeral_2_eq_2 less_Suc_eq)
  next
    assume st: "?st = Timing"
    then have "?w p = set_stage Verdict i p" using i(3) by (simp add: watch_step_def)
    then have "wt_stage (pr_watches (?w p) ! i) = Verdict" "i < length (pr_watches (?w p))" "pr_fatal (?w p) = None"
      using i(2) assms(3) by (simp_all add: stage_of_set)
    from two [OF this] show ?thesis using steps [of p] st i
      by (intro exI [of _ i] exI [of _ 3]) (simp add: numeral_3_eq_3 less_Suc_eq)
  qed
qed


text \<open>
  C16: outside strict runs it is not complete: when a goroutine that parked without being in a \<open>Call\<close>
  unparks, its entry is deleted and the goroutines left may all be asleep, but \<open>unparkG\<close> does not check,
  so no watch is armed.
\<close>

theorem unpark_leaves_deadlock:
  assumes "reached False (p, ws)" "map_of (gs_list p) gid = Some g" "gid \<noteq> 0" "gw_parkedOnly g" "gw_wakeable g"
    "pr_wakeable p = 1" "pr_parked p = pr_live p" "pr_live p > 1" "pr_extWait p = 0"
  shows "deadlocked (unparkG gid p) \<and> \<not> pr_armed (unparkG gid p)"
proof -
  from reached_ok [OF assms(1)] have "goroutines_ok p" by (simp add: conf_ok_def)
  then have "gwait_ok (pr_chans p) g" unfolding goroutines_ok_def using assms(2) by (blast intro: counts_lookup)
  then have "gw_parked g" using assms(4) by (simp add: gwait_ok_def)
  with assms show ?thesis by (simp add: unparkG_def Let_def deadlocked_def)
qed

text \<open>A root goroutine that blocks for ever, and a foreign goroutine that parks beside it.\<close>

definition no_wake :: park_wake where
  "no_wake = \<lparr>pw_misc = False, pw_chans = []\<rparr>"

definition misc_wake :: park_wake where
  "misc_wake = \<lparr>pw_misc = True, pw_chans = []\<rparr>"

definition stuck_proc :: proc where
  "stuck_proc = the (parkG 1 no_wake (enterG 1 newProc))"

definition ghost_proc :: proc where
  "ghost_proc = the (parkG 2 misc_wake stuck_proc)"

lemma stuck_facts:
  "parkG 1 no_wake (enterG 1 newProc) = Some stuck_proc"
  "gs_list stuck_proc = [(1, park_mark no_wake Map.empty (new_gwait\<lparr>gw_refs := 1\<rparr>))]"
  "pr_fatal stuck_proc = None" "\<not> pr_done stuck_proc" "length (pr_watches stuck_proc) = 1"
  "wt_stage (pr_watches stuck_proc ! 0) = Timing" "stillDeadLocked 0 stuck_proc" "pr_disarmCh stuck_proc = Some 0"
  "parkG 2 misc_wake stuck_proc = Some ghost_proc"
  "map_of (gs_list ghost_proc) 2 = Some (park_mark misc_wake Map.empty park_entry)"
  "pr_wakeable ghost_proc = 1" "pr_parked ghost_proc = 2" "pr_live ghost_proc = 2" "pr_extWait ghost_proc = 0"
  by (simp_all add: stuck_proc_def ghost_proc_def parkG_def enterG_def newProc_def gs_list_def Let_def touch_def
      park_known_def no_wake_def misc_wake_def park_mark_def gWakeable_def new_gwait_def checkDeadLocked_def
      stillDeadLocked_def park_entry_def disarm_watch_def)

lemma enter_not_asleep: "\<not> asleep gid newProc"
  by (simp add: asleep_def gs_list_def newProc_def)

lemma stuck_reached: "reached strict (stuck_proc, [])"
proof -
  have "pstep strict start (enterG 1 newProc, [])"
    unfolding start_def by (rule pstep.enter) (rule enter_not_asleep)
  moreover have "pstep strict (enterG 1 newProc, []) (stuck_proc, [])"
    by (rule pstep.park [OF stuck_facts(1)])
      (simp_all add: no_wake_def registered_def enterG_def newProc_def gs_list_def Let_def touch_def)
  ultimately show ?thesis unfolding reached_def by (meson rtranclp.rtrancl_into_rtrancl rtranclp.rtrancl_refl)
qed

lemma ghost_reached: "reached False (ghost_proc, [])"
proof -
  have "pstep False (stuck_proc, []) (ghost_proc, [])"
    by (rule pstep.park [OF stuck_facts(9)]) (simp_all add: misc_wake_def)
  with stuck_reached [of False] show ?thesis unfolding reached_def by (rule rtranclp.rtrancl_into_rtrancl)
qed

theorem proc_counters_witness: "pr_live stuck_proc = int (length (gs_list stuck_proc)) \<and> length (gs_list stuck_proc) = 1"
  using proc_counters [OF stuck_reached] by (simp add: stuck_facts)





lemma stuck_asleep: "\<forall>(gid, g)\<in>set (gs_list stuck_proc). gw_parked g \<and> \<not> gWakeable (pr_chans stuck_proc) g"
  by (simp add: stuck_facts(2) gWakeable_def) (simp add: park_mark_def no_wake_def Let_def)

theorem deadlock_complete_witness: "\<exists>n\<le>3. pr_fatal ((watch_step 0 ^^ n) stuck_proc) = Some DeadlockError"
proof -
  have ne: "gs_list stuck_proc \<noteq> []" by (simp add: stuck_facts)
  have none: "pending [] = 0" by (simp add: pending_def)
  from deadlock_complete [OF stuck_reached stuck_facts(4,3) ne stuck_asleep none] stuck_facts(8) show ?thesis by auto
qed


theorem unpark_leaves_deadlock_witness: "deadlocked (unparkG 2 ghost_proc) \<and> \<not> pr_armed (unparkG 2 ghost_proc)"
  by (rule unpark_leaves_deadlock [OF ghost_reached stuck_facts(10)])
    (simp_all add: stuck_facts, simp_all add: park_entry_def park_mark_def misc_wake_def gWakeable_def Let_def)

end
