(* ===== verification/Calls.thy ===== *)
theory Calls
  imports Proc
begin

text \<open>
  The boundary of a virtual machine (\<open>vm/vm.go\<close>: \<open>EnsureProc\<close>, \<open>ReleaseProc\<close>, \<open>spawn\<close>, \<open>callBounded\<close>,
  \<open>ownerCaller.Call\<close>, \<open>callEntered\<close>): which process a call runs in, when the process dies, which goroutine
  runs the call, and the error a call reports. Processes live in a list; a machine refers to its process by
  position. What the body of a call does is the outcome given to \<open>finish_call\<close>.
\<close>

section \<open>The state\<close>

record vm =
  vm_proc :: "nat option"
  vm_procHolds :: int
  vm_procDead :: bool
  vm_callDepth :: int
  vm_callGid :: int
  vm_syncCall :: bool

datatype call_error = ErrProcExit | ErrExit int | ErrFatal fatal | ErrOther string

text \<open>How the body of a call ended: a value, an error it returned, a panic it raised.\<close>

datatype 'v body = Value 'v | Error call_error | PanicExit int | PanicOther call_error

definition newVM :: vm where
  "newVM = \<lparr>vm_proc = None, vm_procHolds = 0, vm_procDead = False, vm_callDepth = 0, vm_callGid = 0,
     vm_syncCall = False\<rparr>"

definition at_proc :: "nat option \<Rightarrow> (proc \<Rightarrow> proc) \<Rightarrow> proc list \<Rightarrow> proc list" where
  "at_proc i f ps = (case i of None \<Rightarrow> ps | Some i \<Rightarrow> ps[i := f (ps ! i)])"

section \<open>Holding the process\<close>

definition EnsureProc :: "vm \<Rightarrow> proc list \<Rightarrow> vm \<times> proc list" where
  "EnsureProc v ps =
     (let (v, ps) = (if vm_proc v = None then (v\<lparr>vm_proc := Some (length ps)\<rparr>, ps @ [newProc]) else (v, ps))
      in (v\<lparr>vm_procHolds := vm_procHolds v + 1\<rparr>, ps))"

definition ReleaseProc :: "vm \<Rightarrow> proc list \<Rightarrow> vm \<times> proc list" where
  "ReleaseProc v ps =
     (let v = v\<lparr>vm_procHolds := vm_procHolds v - 1\<rparr> in
      if vm_procHolds v \<le> 0
      then (if vm_proc v \<noteq> None
            then (v\<lparr>vm_proc := None, vm_procDead := True, vm_procHolds := 0\<rparr>, at_proc (vm_proc v) kill ps)
            else (v\<lparr>vm_procHolds := 0\<rparr>, ps))
      else (v, ps))"

section \<open>Spawning\<close>

text \<open>A spawn is refused by a dead process (its task ends with \<open>procExit\<close>), or starts a child machine.\<close>

datatype spawned = Refused | Started vm

definition child_vm :: "nat option \<Rightarrow> bool \<Rightarrow> vm" where
  "child_vm p failProc = newVM\<lparr>vm_proc := p, vm_syncCall := \<not> failProc\<rparr>"

definition spawn :: "bool \<Rightarrow> vm \<Rightarrow> proc list \<Rightarrow> spawned \<times> vm \<times> proc list" where
  "spawn failProc v ps =
     (if vm_proc v = None \<and> vm_procDead v then (Refused, v, ps)
      else
        let (v, ps) =
          (if vm_proc v = None
           then (v\<lparr>vm_proc := Some (length ps), vm_procHolds := vm_procHolds v + 1\<rparr>, ps @ [newProc])
           else (v, ps))
        in if pr_done (ps ! the (vm_proc v)) then (Refused, v, ps)
           else (Started (child_vm (vm_proc v) failProc), v, ps))"

text \<open>The end of a spawned call: its task's error, and the failure of the process.\<close>

definition task_end :: "bool \<Rightarrow> call_error option \<Rightarrow> nat \<Rightarrow> (call_error \<Rightarrow> fatal) \<Rightarrow> proc list \<Rightarrow> proc list" where
  "task_end failProc err i as_fatal ps =
     (case err of
        Some e \<Rightarrow> if e \<noteq> ErrProcExit \<and> failProc then ps[i := fail_proc (as_fatal e) (ps ! i)] else ps
      | None \<Rightarrow> ps)"

section \<open>Calls\<close>

text \<open>\<open>callBounded\<close>: a call from a goroutine other than the one in a call already is spawned and joined.\<close>

datatype call_path = Foreign bool | Owner vm

definition callBounded :: "int \<Rightarrow> vm \<Rightarrow> proc list \<Rightarrow> call_path" where
  "callBounded gid v ps =
     (if vm_callDepth v > 0 \<and> vm_callGid v \<noteq> gid
      then Foreign (case vm_proc v of Some i \<Rightarrow> \<not> isSyncCaller gid (ps ! i) | None \<Rightarrow> True)
      else Owner (v\<lparr>vm_callDepth := vm_callDepth v + 1, vm_callGid := gid\<rparr>))"

text \<open>\<open>ownerCaller.Call\<close>: without asking for the goroutine when a call is in flight.\<close>

definition ownerCall :: "int \<Rightarrow> vm \<Rightarrow> proc list \<Rightarrow> call_path" where
  "ownerCall gid v ps =
     (if vm_callDepth v = 0 then callBounded gid v ps else Owner (v\<lparr>vm_callDepth := vm_callDepth v + 1\<rparr>))"

text \<open>\<open>callEntered\<close> up to the call: the process, whether this call opened it, the goroutine.\<close>

record pending_call =
  pc_proc :: nat
  pc_owns :: bool
  pc_gid :: int

definition enter_call :: "vm \<Rightarrow> proc list \<Rightarrow> pending_call \<times> vm \<times> proc list" where
  "enter_call v ps =
     (let owns = (vm_proc v = None);
          (v, ps) = (if owns then EnsureProc v ps else (v, ps));
          i = the (vm_proc v);
          gid = vm_callGid v
      in (\<lparr>pc_proc = i, pc_owns = owns, pc_gid = gid\<rparr>, v, at_proc (Some i) (enterG gid) ps))"

text \<open>Its deferred functions, innermost first: the outcome, the goroutine, the process, the depth.\<close>

definition body_outcome :: "'v body \<Rightarrow> 'v option \<times> call_error option" where
  "body_outcome b =
     (case b of
        Value x \<Rightarrow> (Some x, None)
      | Error e \<Rightarrow> (None, Some e)
      | PanicExit c \<Rightarrow> (None, if c \<noteq> 0 then Some (ErrExit c) else None)
      | PanicOther e \<Rightarrow> (None, Some e))"

definition prefer_fatal :: "fatal option \<Rightarrow> call_error option \<Rightarrow> call_error option" where
  "prefer_fatal ferr err =
     (case ferr of
        Some e \<Rightarrow> if err = None \<or> err = Some ErrProcExit then Some (ErrFatal e) else err
      | None \<Rightarrow> err)"

definition leave_depth :: "vm \<Rightarrow> vm" where
  "leave_depth v =
     (let v = v\<lparr>vm_callDepth := vm_callDepth v - 1\<rparr>
      in if vm_callDepth v = 0 then v\<lparr>vm_callGid := 0\<rparr> else v)"

definition finish_call :: "pending_call \<Rightarrow> 'v body \<Rightarrow> vm \<Rightarrow> proc list \<Rightarrow>
    ('v option \<times> call_error option) \<times> vm \<times> proc list" where
  "finish_call c b v ps =
     (let ps = (case b of PanicExit code \<Rightarrow> at_proc (vm_proc v) kill ps | _ \<Rightarrow> ps);
          (res, err) = body_outcome b;
          err = prefer_fatal (pr_fatal (ps ! pc_proc c)) err;
          ps = at_proc (Some (pc_proc c)) (leaveG (pc_gid c)) ps;
          (v, ps) = (if pc_owns c then ReleaseProc v ps else (v, ps))
      in ((res, err), leave_depth v, ps))"

section \<open>Runs\<close>

text \<open>
  A machine with the calls it is in, innermost first, and the holds its host has taken. The steps are the
  exported operations, a hold of the host released only after it was taken, and anything the goroutines of
  the processes do to their processes (\<open>other\<close>), none of which revives one.
\<close>

record vm_conf =
  cf_vm :: vm
  cf_procs :: "proc list"
  cf_calls :: "pending_call list"
  cf_holds :: nat
  cf_detached :: nat

inductive vm_step :: "vm_conf \<Rightarrow> vm_conf \<Rightarrow> bool" where
  ensure: "EnsureProc (cf_vm c) (cf_procs c) = (v, ps) \<Longrightarrow>
    vm_step c (c\<lparr>cf_vm := v, cf_procs := ps, cf_holds := cf_holds c + 1\<rparr>)"
| release: "cf_holds c > 0 \<Longrightarrow> ReleaseProc (cf_vm c) (cf_procs c) = (v, ps) \<Longrightarrow>
    vm_step c (c\<lparr>cf_vm := v, cf_procs := ps, cf_holds := cf_holds c - 1\<rparr>)"
| spawned: "spawn b (cf_vm c) (cf_procs c) = (r, v, ps) \<Longrightarrow>
    vm_step c (c\<lparr>cf_vm := v, cf_procs := ps,
      cf_detached := cf_detached c + (if vm_proc (cf_vm c) = None \<and> vm_proc v \<noteq> None then 1 else 0)\<rparr>)"
| enter: "callBounded gid (cf_vm c) (cf_procs c) = Owner v \<Longrightarrow> enter_call v (cf_procs c) = (p, v', ps) \<Longrightarrow>
    vm_step c (c\<lparr>cf_vm := v', cf_procs := ps, cf_calls := p # cf_calls c\<rparr>)"
| leave: "cf_calls c = p # calls \<Longrightarrow> finish_call p (b :: nat body) (cf_vm c) (cf_procs c) = (r, v, ps) \<Longrightarrow>
    vm_step c (c\<lparr>cf_vm := v, cf_procs := ps, cf_calls := calls\<rparr>)"
| other: "length ps = length (cf_procs c) \<Longrightarrow> (\<And>i. i < length ps \<Longrightarrow> pr_done (cf_procs c ! i) \<Longrightarrow> pr_done (ps ! i)) \<Longrightarrow>
    vm_step c (c\<lparr>cf_procs := ps\<rparr>)"

definition start_conf :: vm_conf where
  "start_conf = \<lparr>cf_vm = newVM, cf_procs = [], cf_calls = [], cf_holds = 0, cf_detached = 0\<rparr>"

text \<open>
  The holds are the calls that opened the process, the host's holds and the detached ones; the process is
  there exactly while it is held, and every process the machine has let go of is dead.
\<close>

definition owners :: "pending_call list \<Rightarrow> nat" where
  "owners calls = length (filter pc_owns calls)"

definition vm_inv :: "vm_conf \<Rightarrow> bool" where
  "vm_inv c \<longleftrightarrow>
     (let v = cf_vm c in
      vm_procHolds v = int (owners (cf_calls c) + cf_holds c + cf_detached c) \<and>
      (vm_proc v = None \<longleftrightarrow> vm_procHolds v = 0) \<and>
      (\<forall>i. vm_proc v = Some i \<longrightarrow> i < length (cf_procs c)) \<and>
      (\<forall>i < length (cf_procs c). vm_proc v \<noteq> Some i \<longrightarrow> pr_done (cf_procs c ! i)) \<and>
      vm_callDepth v = int (length (cf_calls c)) \<and>
      (\<forall>p\<in>set (cf_calls c). pc_proc p < length (cf_procs c)))"

section \<open>The invariant\<close>

lemma pr_done_ops [simp]:
  "pr_done (enterG gid p) = pr_done p"
  "pr_done (leaveG gid p) = pr_done p"
  "pr_done (kill p)"
  by (auto simp: enterG_def leaveG_def touch_def checkDeadLocked_def kill_def Let_def split: option.split)

lemma length_at_proc [simp]: "length (at_proc i f ps) = length ps"
  by (simp add: at_proc_def split: option.split)

lemma done_at_proc:
  "(\<And>p. pr_done p \<Longrightarrow> pr_done (f p)) \<Longrightarrow> j < length ps \<Longrightarrow> pr_done (ps ! j) \<Longrightarrow> pr_done (at_proc i f ps ! j)"
proof (cases i)
  case (Some k)
  assume "\<And>p. pr_done p \<Longrightarrow> pr_done (f p)" "j < length ps" "pr_done (ps ! j)"
  with Some show ?thesis by (cases "k = j") (simp_all add: at_proc_def)
qed (simp add: at_proc_def)

text \<open>What the machine's hold on its process means, apart from the calls.\<close>

definition hold_inv :: "vm \<Rightarrow> proc list \<Rightarrow> bool" where
  "hold_inv v ps \<longleftrightarrow>
     0 \<le> vm_procHolds v \<and> (vm_proc v = None \<longleftrightarrow> vm_procHolds v = 0) \<and>
     (\<forall>i. vm_proc v = Some i \<longrightarrow> i < length ps) \<and>
     (\<forall>i < length ps. vm_proc v \<noteq> Some i \<longrightarrow> pr_done (ps ! i))"

lemma EnsureProc_hold:
  assumes "EnsureProc v ps = (v', ps')" "hold_inv v ps"
  shows "hold_inv v' ps'" "vm_procHolds v' = vm_procHolds v + 1" "length ps \<le> length ps'"
    "vm_callDepth v' = vm_callDepth v" "vm_callGid v' = vm_callGid v" "vm_proc v' \<noteq> None"
  using assms by (auto simp: EnsureProc_def hold_inv_def nth_append less_Suc_eq split: if_splits)

lemma ReleaseProc_hold:
  assumes "ReleaseProc v ps = (v', ps')" "hold_inv v ps" "vm_procHolds v > 0"
  shows "hold_inv v' ps'" "vm_procHolds v' = vm_procHolds v - 1" "length ps' = length ps"
    "vm_callDepth v' = vm_callDepth v" "vm_callGid v' = vm_callGid v"
proof -
  obtain i where i: "vm_proc v = Some i" "i < length ps" using assms(2,3) by (auto simp: hold_inv_def)
  have "pr_done (at_proc (Some i) kill ps ! j)" if "j < length ps" for j
    using that i assms(2) by (cases "j = i") (auto simp: at_proc_def hold_inv_def)
  then show "hold_inv v' ps'" "vm_procHolds v' = vm_procHolds v - 1" "length ps' = length ps"
    "vm_callDepth v' = vm_callDepth v" "vm_callGid v' = vm_callGid v"
    using assms i by (auto simp: ReleaseProc_def Let_def hold_inv_def split: if_splits)
qed

lemma spawn_hold:
  assumes "spawn b v ps = (r, v', ps')" "hold_inv v ps"
  shows "hold_inv v' ps'" "length ps \<le> length ps'" "vm_callDepth v' = vm_callDepth v" "vm_callGid v' = vm_callGid v"
    "vm_procHolds v' = vm_procHolds v + (if vm_proc v = None \<and> vm_proc v' \<noteq> None then 1 else 0)"
  using assms by (auto simp: spawn_def hold_inv_def nth_append less_Suc_eq Let_def split: if_splits)

lemma hold_inv_procs:
  assumes "hold_inv v ps" "length ps' = length ps" "\<And>i. i < length ps \<Longrightarrow> pr_done (ps ! i) \<Longrightarrow> pr_done (ps' ! i)"
  shows "hold_inv v ps'"
  using assms by (simp add: hold_inv_def)

lemma hold_inv_vm [simp]:
  "hold_inv (v\<lparr>vm_callDepth := d\<rparr>) ps = hold_inv v ps" "hold_inv (v\<lparr>vm_callGid := g\<rparr>) ps = hold_inv v ps"
  "hold_inv (v\<lparr>vm_callDepth := d, vm_callGid := g\<rparr>) ps = hold_inv v ps"
  by (simp_all add: hold_inv_def)

lemma vm_inv_hold:
  "vm_inv c \<longleftrightarrow> hold_inv (cf_vm c) (cf_procs c) \<and>
     vm_procHolds (cf_vm c) = int (owners (cf_calls c) + cf_holds c + cf_detached c) \<and>
     vm_callDepth (cf_vm c) = int (length (cf_calls c)) \<and>
     (\<forall>p\<in>set (cf_calls c). pc_proc p < length (cf_procs c))"
  by (auto simp: vm_inv_def hold_inv_def Let_def)

lemma enter_call_hold:
  assumes "enter_call v ps = (p, v', ps')" "hold_inv v ps"
  shows "hold_inv v' ps'" "vm_procHolds v' = vm_procHolds v + of_bool (pc_owns p)" "length ps \<le> length ps'"
    "vm_callDepth v' = vm_callDepth v" "pc_proc p < length ps'" "vm_proc v' = Some (pc_proc p)"
    "pc_owns p \<longleftrightarrow> vm_proc v = None" "pc_gid p = vm_callGid v"
proof -
  obtain v1 ps1 where e: "(if vm_proc v = None then EnsureProc v ps else (v, ps)) = (v1, ps1)" by fastforce
  have h: "hold_inv v1 ps1" "vm_procHolds v1 = vm_procHolds v + of_bool (vm_proc v = None)" "length ps \<le> length ps1"
    "vm_callDepth v1 = vm_callDepth v" "vm_callGid v1 = vm_callGid v" "vm_proc v1 \<noteq> None"
    using e EnsureProc_hold [of v ps v1 ps1] assms(2) by (auto split: if_splits)
  have p: "p = \<lparr>pc_proc = the (vm_proc v1), pc_owns = vm_proc v = None, pc_gid = vm_callGid v1\<rparr>" "v' = v1"
    "ps' = at_proc (Some (the (vm_proc v1))) (enterG (vm_callGid v1)) ps1"
    using assms(1) e by (auto simp: enter_call_def Let_def)
  show "hold_inv v' ps'"
    unfolding p by (rule hold_inv_procs [OF h(1)]) (auto intro!: done_at_proc)
  show "vm_procHolds v' = vm_procHolds v + of_bool (pc_owns p)" "length ps \<le> length ps'"
    "vm_callDepth v' = vm_callDepth v" "vm_proc v' = Some (pc_proc p)"
    "pc_owns p \<longleftrightarrow> vm_proc v = None" "pc_gid p = vm_callGid v"
    using h by (auto simp: p)
  show "pc_proc p < length ps'" using h by (auto simp: p hold_inv_def)
qed

lemma finish_call_hold:
  assumes "finish_call p b v ps = (r, v', ps')" "hold_inv v ps" "pc_owns p \<Longrightarrow> vm_procHolds v > 0"
  shows "hold_inv v' ps'" "vm_procHolds v' = vm_procHolds v - of_bool (pc_owns p)" "length ps' = length ps"
    "vm_callDepth v' = vm_callDepth v - 1"
proof -
  define ps1 where "ps1 = (case b of PanicExit code \<Rightarrow> at_proc (vm_proc v) kill ps | _ \<Rightarrow> ps)"
  define ps2 where "ps2 = at_proc (Some (pc_proc p)) (leaveG (pc_gid p)) ps1"
  obtain v3 ps3 where r: "(if pc_owns p then ReleaseProc v ps2 else (v, ps2)) = (v3, ps3)" by fastforce
  have d1: "length ps1 = length ps" "\<And>i. i < length ps \<Longrightarrow> pr_done (ps ! i) \<Longrightarrow> pr_done (ps1 ! i)"
    by (auto simp: ps1_def split: body.split intro!: done_at_proc)
  have "hold_inv v ps1" using assms(2) d1 by (rule hold_inv_procs)
  then have h2: "hold_inv v ps2" by (rule hold_inv_procs) (auto simp: ps2_def intro!: done_at_proc)
  have h3: "hold_inv v3 ps3 \<and> vm_procHolds v3 = vm_procHolds v - of_bool (pc_owns p) \<and> length ps3 = length ps \<and>
    vm_callDepth v3 = vm_callDepth v"
  proof (cases "pc_owns p")
    case True
    with r have "ReleaseProc v ps2 = (v3, ps3)" by simp
    from ReleaseProc_hold [OF this h2 assms(3) [OF True]] True d1(1)
    show ?thesis by (simp add: ps2_def)
  next
    case False
    with r h2 d1(1)
    show ?thesis by (auto simp: ps2_def)
  qed
  have v': "v' = leave_depth v3" "ps' = ps3"
    using assms(1) r unfolding ps1_def ps2_def by (auto simp: finish_call_def Let_def split: prod.splits)
  show "hold_inv v' ps'" "vm_procHolds v' = vm_procHolds v - of_bool (pc_owns p)" "length ps' = length ps"
    "vm_callDepth v' = vm_callDepth v - 1"
    using h3 by (simp_all add: v' leave_depth_def Let_def)
qed

lemma vm_inv_step:
  assumes "vm_inv c" "vm_step c c'"
  shows "vm_inv c'"
  using assms(2)
proof cases
  case (ensure v ps)
  then show ?thesis using assms(1) EnsureProc_hold [OF ensure(2)] by (fastforce simp: vm_inv_hold)
next
  case (release v ps)
  with assms(1) have "vm_procHolds (cf_vm c) > 0" by (simp add: vm_inv_hold)
  with release assms(1) ReleaseProc_hold [OF release(3)] show ?thesis by (fastforce simp: vm_inv_hold)
next
  case (spawned b r v ps)
  then show ?thesis using assms(1) spawn_hold [OF spawned(2)] by (fastforce simp: vm_inv_hold)
next
  case (enter gid v p v' ps)
  have v: "v = (cf_vm c)\<lparr>vm_callDepth := vm_callDepth (cf_vm c) + 1, vm_callGid := gid\<rparr>"
    using enter(2) by (auto simp: callBounded_def split: if_splits)
  have "hold_inv v (cf_procs c)" using assms(1) by (simp add: v vm_inv_hold)
  from enter_call_hold [OF enter(3) this] assms(1) show ?thesis
    by (fastforce simp: vm_inv_hold enter(1) owners_def v)
next
  case (leave p calls b r v ps)
  have "vm_procHolds (cf_vm c) > 0" if "pc_owns p"
    using assms(1) leave(2) that by (simp add: vm_inv_hold owners_def)
  from finish_call_hold [OF leave(3) _ this] assms(1) leave(2) show ?thesis
    by (fastforce simp: vm_inv_hold leave(1) owners_def)
next
  case (other ps)
  then show ?thesis using assms(1) hold_inv_procs [of "cf_vm c" "cf_procs c" ps] by (simp add: vm_inv_hold)
qed

lemma vm_inv_start: "vm_inv start_conf"
  by (simp add: vm_inv_def start_conf_def newVM_def owners_def)

interpretation vm_runs: transition vm_step vm_inv
  by unfold_locales (rule vm_inv_step)

definition vm_reached :: "vm_conf \<Rightarrow> bool" where
  "vm_reached c \<longleftrightarrow> vm_step\<^sup>*\<^sup>* start_conf c"

lemma vm_reached_inv: "vm_reached c \<Longrightarrow> vm_inv c"
  unfolding vm_reached_def using vm_runs.run_keeps [OF _ vm_inv_start] .

section \<open>Properties\<close>

text \<open>
  C36: when a machine is in no call, its host holds no process and no spawn detached one, it has no process,
  and every process it ever opened is dead: no goroutine of a finished call goes on.
\<close>

theorem idle_machine_processes_dead:
  assumes "vm_reached c" "cf_calls c = []" "cf_holds c = 0" "cf_detached c = 0"
  shows "vm_proc (cf_vm c) = None \<and> (\<forall>p\<in>set (cf_procs c). pr_done p)"
  using vm_reached_inv [OF assms(1)] assms(2-4)
  by (auto simp: vm_inv_hold hold_inv_def owners_def in_set_conv_nth)

lemma ReleaseProc_proc:
  "ReleaseProc v ps = (v', ps') \<Longrightarrow> vm_procHolds v' > 0 \<Longrightarrow> vm_proc v' = vm_proc v"
  by (auto simp: ReleaseProc_def Let_def split: if_splits)

lemma finish_call_proc:
  "finish_call p b v ps = (r, v', ps') \<Longrightarrow> vm_procHolds v' > 0 \<Longrightarrow> vm_proc v' = vm_proc v"
  using ReleaseProc_proc
  by (fastforce simp: finish_call_def leave_depth_def Let_def split: prod.splits if_splits)

text \<open>
  nested calls and spawns share one process: a step that leaves the machine held leaves it the process it
  has.
\<close>

theorem held_process_stays:
  assumes "vm_step c c'" "vm_proc (cf_vm c) = Some i" "vm_procHolds (cf_vm c') > 0"
  shows "vm_proc (cf_vm c') = Some i"
  using assms(1)
proof cases
  case (release v ps)
  then show ?thesis using assms(2,3) ReleaseProc_proc [OF release(3)] by simp
next
  case (leave p calls b r v ps)
  then show ?thesis using assms(2,3) finish_call_proc [OF leave(3)] by simp
next
  case (enter gid v p v' ps)
  have "vm_proc v = Some i" using enter(2) assms(2) by (auto simp: callBounded_def split: if_splits)
  with enter show ?thesis by (auto simp: enter_call_def Let_def)
qed (use assms(2) in \<open>auto simp: EnsureProc_def spawn_def split: if_splits\<close>)

text \<open>
  a spawn is refused exactly when the machine's process is dead or gone with the machine's last hold;
  otherwise the child runs in the machine's process.
\<close>

theorem spawn_outcome:
  assumes "spawn failProc v ps = (r, v', ps')"
  shows "(case vm_proc v of
      None \<Rightarrow> if vm_procDead v then r = Refused \<and> v' = v \<and> ps' = ps
        else r = Started (child_vm (Some (length ps)) failProc) \<and> ps' = ps @ [newProc]
    | Some i \<Rightarrow> ps' = ps \<and> v' = v \<and> r = (if pr_done (ps ! i) then Refused else Started (child_vm (Some i) failProc)))"
  using assms by (auto simp: spawn_def Let_def newProc_def split: option.split if_splits)

text \<open>
  C37: the error of a call: when its process has failed, the process's failure is reported in place of success
  and of a procExit, and an error of the call's own is kept; \<open>os.Exit(0)\<close> counts as success.
\<close>

theorem call_error:
  assumes "finish_call c b v ps = ((res, err), v', ps')" "pc_proc c < length ps"
  shows "err = (case pr_fatal (ps ! pc_proc c) of
      None \<Rightarrow> snd (body_outcome b)
    | Some e \<Rightarrow>
        if b = Error ErrProcExit \<or> b = PanicOther ErrProcExit \<or> b = PanicExit 0 \<or> (\<exists>x. b = Value x)
        then Some (ErrFatal e) else snd (body_outcome b))"
proof -
  define ps1 where "ps1 = (case b of PanicExit code \<Rightarrow> at_proc (vm_proc v) kill ps | _ \<Rightarrow> ps)"
  have "pr_fatal (at_proc i kill ps ! pc_proc c) = pr_fatal (ps ! pc_proc c)" for i
    using assms(2) by (cases i; cases "i = Some (pc_proc c)") (auto simp: at_proc_def kill_def)
  then have same: "pr_fatal (ps1 ! pc_proc c) = pr_fatal (ps ! pc_proc c)" by (simp add: ps1_def split: body.split)
  have "err = prefer_fatal (pr_fatal (ps1 ! pc_proc c)) (snd (body_outcome b))"
    using assms(1) unfolding ps1_def by (auto simp: finish_call_def Let_def split: prod.splits)
  then show ?thesis
    unfolding same by (cases b) (auto simp: prefer_fatal_def body_outcome_def split: option.split)
qed

section \<open>Witnesses\<close>

text \<open>A host takes and gives back a process.\<close>

definition held_conf :: vm_conf where
  "held_conf = start_conf\<lparr>cf_vm := fst (EnsureProc newVM []), cf_procs := snd (EnsureProc newVM []), cf_holds := 1\<rparr>"

definition idle_conf :: vm_conf where
  "idle_conf = held_conf\<lparr>cf_vm := fst (ReleaseProc (cf_vm held_conf) (cf_procs held_conf)),
     cf_procs := snd (ReleaseProc (cf_vm held_conf) (cf_procs held_conf)), cf_holds := 0\<rparr>"

lemma held_step: "vm_step start_conf held_conf"
  using vm_step.ensure [of start_conf "fst (EnsureProc newVM [])" "snd (EnsureProc newVM [])"]
  by (simp add: held_conf_def start_conf_def)

lemma idle_step: "vm_step held_conf idle_conf"
  using vm_step.release [of held_conf "fst (ReleaseProc (cf_vm held_conf) (cf_procs held_conf))"
    "snd (ReleaseProc (cf_vm held_conf) (cf_procs held_conf))"]
  by (simp add: idle_conf_def held_conf_def start_conf_def)

lemma idle_reached: "vm_reached idle_conf"
  unfolding vm_reached_def using held_step idle_step by (meson converse_rtranclp_into_rtranclp r_into_rtranclp)

lemma idle_machine_processes_dead_witness:
  "vm_proc (cf_vm idle_conf) = None \<and> length (cf_procs idle_conf) = 1 \<and> pr_done (hd (cf_procs idle_conf))"
proof -
  have l: "length (cf_procs idle_conf) = 1" by code_simp
  then have "hd (cf_procs idle_conf) \<in> set (cf_procs idle_conf)" by (cases "cf_procs idle_conf") auto
  with l idle_machine_processes_dead [OF idle_reached] show ?thesis
    by (simp add: idle_conf_def held_conf_def start_conf_def)
qed

definition twice_held :: vm_conf where
  "twice_held = held_conf\<lparr>cf_vm := fst (EnsureProc (cf_vm held_conf) (cf_procs held_conf)),
     cf_procs := snd (EnsureProc (cf_vm held_conf) (cf_procs held_conf)), cf_holds := cf_holds held_conf + 1\<rparr>"

lemma held_process_stays_witness: "vm_proc (cf_vm twice_held) = Some 0"
proof (rule held_process_stays)
  show "vm_step held_conf twice_held"
    using vm_step.ensure [of held_conf "fst (EnsureProc (cf_vm held_conf) (cf_procs held_conf))"
      "snd (EnsureProc (cf_vm held_conf) (cf_procs held_conf))"]
    by (simp add: twice_held_def held_conf_def start_conf_def)
  show "vm_proc (cf_vm held_conf) = Some 0" by code_simp
  show "vm_procHolds (cf_vm twice_held) > 0" by code_simp
qed

lemma spawn_outcome_witness: "fst (spawn True (cf_vm idle_conf) (cf_procs idle_conf)) = Refused"
proof -
  have "vm_proc (cf_vm idle_conf) = None" "vm_procDead (cf_vm idle_conf)" by code_simp+
  with spawn_outcome [of True "cf_vm idle_conf" "cf_procs idle_conf"] show ?thesis
    by (cases "spawn True (cf_vm idle_conf) (cf_procs idle_conf)") auto
qed

lemma call_error_witness:
  "snd (fst (finish_call \<lparr>pc_proc = 0, pc_owns = False, pc_gid = 7\<rparr> (Value (1 :: nat)) (newVM\<lparr>vm_proc := Some 0\<rparr>)
     [fail_proc DeadlockError newProc])) = Some (ErrFatal DeadlockError)"
  (is "snd (fst ?r) = _")
proof -
  obtain res err v ps where r: "?r = ((res, err), v, ps)" by (cases ?r) auto
  have "err = Some (ErrFatal DeadlockError)"
    using call_error [OF r] by (simp add: fail_proc_def record_fatal_def newProc_def kill_def)
  then show ?thesis unfolding r by simp
qed

end
