(* ===== verification/Bytecode.thy ===== *)
theory Bytecode
  imports Prelude "HOL-Library.Word"
begin

text \<open>
  The instruction set and the compiled unit (\<open>bytecode/bytecode.go\<close>): \<open>Op\<close>, \<open>BinOp\<close> and
  \<open>UnOp\<close> with their source spellings, \<open>Instruction\<close>, \<open>UpvalDesc\<close> and \<open>Chunk\<close>. The type of the
  constants of a chunk is a parameter (\<open>Consts []any\<close>).
\<close>

section \<open>Operations\<close>

datatype (plugins only: code size) op =
    OpNop | OpConst | OpNil | OpDup | OpSwap | OpRot3 | OpPop | OpNewLocal | OpRenewVar
  | OpLocal | OpLocalTyp | OpSetLocal | OpLocalRef | OpUpval | OpUpvalTyp | OpSetUpval
  | OpUpvalRef | OpGlobal | OpGlobalTyp | OpNewGlobal | OpSetGlobal | OpGlobalRef | OpSelect
  | OpSetField | OpIndex | OpIndexOK | OpSetIndex | OpSlice | OpDeref | OpSetInd | OpSetRefs
  | OpBox | OpCall | OpDefer | OpGo | OpPack | OpUnpack | OpMakeComposite | OpMakeClosure
  | OpEvalAST | OpBinary | OpUnary | OpJump | OpLenIdxFold | OpLenDerefFold | OpJumpFalse
  | OpJumpTrue | OpIter | OpRangeNext | OpSend | OpRecv | OpRecvOK | OpSelArm | OpSelWait
  | OpPanic | OpTrap | OpReturn | OpDup2 | OpFieldRef | OpIndexRef | OpNilPtrCheck | OpDerefRef
  | OpAssert | OpAssertOK | OpInstantiate | OpElemType | OpElemTypeOrNil | OpCoerce
  | OpCoerceTop | OpCoerceN | OpCoerceGlobal | OpSpecialCall | OpFoldArrayLen | OpLocalType
  | OpSelectCall | OpLenCallFold

text \<open>The flags an \<open>OpBinary\<close> carries on shifts in operand B.\<close>

definition ShiftConstCount :: nat where "ShiftConstCount = 1"

definition ShiftTypedLeft :: nat where "ShiftTypedLeft = 2"

definition ShiftNonConstCount :: nat where "ShiftNonConstCount = 4"

datatype binop =
    BinAdd | BinSub | BinMul | BinQuo | BinRem | BinAnd | BinOr | BinXor | BinAndNot
  | BinShl | BinShr | BinLAnd | BinLOr | BinEql | BinNeq | BinLss | BinLeq | BinGtr | BinGeq
  | BinEqlIface

text \<open>The numbers the constants have (\<open>iota\<close>): operand A of an \<open>OpBinary\<close> carries them.\<close>

definition all_binops :: "binop list" where
  "all_binops =
     [BinAdd, BinSub, BinMul, BinQuo, BinRem, BinAnd, BinOr, BinXor, BinAndNot, BinShl, BinShr,
      BinLAnd, BinLOr, BinEql, BinNeq, BinLss, BinLeq, BinGtr, BinGeq, BinEqlIface]"

definition binop_of :: "int \<Rightarrow> binop option" where
  "binop_of a = (if 0 \<le> a \<and> a < int (length all_binops) then Some (all_binops ! nat a) else None)"

fun binOpSyms :: "binop \<Rightarrow> string" where
  "binOpSyms BinAdd = ''+''"
| "binOpSyms BinSub = ''-''"
| "binOpSyms BinMul = ''*''"
| "binOpSyms BinQuo = ''/''"
| "binOpSyms BinRem = ''%''"
| "binOpSyms BinAnd = ''&''"
| "binOpSyms BinOr = ''|''"
| "binOpSyms BinXor = ''^''"
| "binOpSyms BinAndNot = ''&^''"
| "binOpSyms BinShl = ''<<''"
| "binOpSyms BinShr = ''>>''"
| "binOpSyms BinLAnd = ''&&''"
| "binOpSyms BinLOr = ''||''"
| "binOpSyms BinEql = ''==''"
| "binOpSyms BinNeq = ''!=''"
| "binOpSyms BinLss = ''<''"
| "binOpSyms BinLeq = ''<=''"
| "binOpSyms BinEqlIface = ''==''"
| "binOpSyms BinGtr = ''>''"
| "binOpSyms BinGeq = ''>=''"

text \<open>\<open>BinOp.String\<close> on the operand's number: a number past the table renders as \<open>BinOp(n)\<close>.\<close>

definition binop_string :: "8 word \<Rightarrow> string" where
  "binop_string b =
     (case binop_of (uint b) of
        Some op \<Rightarrow> binOpSyms op
      | None \<Rightarrow> ''BinOp('' @ show_int (uint b) @ '')'')"

datatype unop = UnPos | UnNeg | UnNot | UnXor

definition all_unops :: "unop list" where
  "all_unops = [UnPos, UnNeg, UnNot, UnXor]"

definition unop_of :: "int \<Rightarrow> unop option" where
  "unop_of a = (if 0 \<le> a \<and> a < int (length all_unops) then Some (all_unops ! nat a) else None)"

definition unop_string :: "8 word \<Rightarrow> string" where
  "unop_string u =
     (case unop_of (uint u) of
        Some UnPos \<Rightarrow> ''+''
      | Some UnNeg \<Rightarrow> ''-''
      | Some UnNot \<Rightarrow> ''!''
      | Some UnXor \<Rightarrow> ''^''
      | None \<Rightarrow> ''UnOp('' @ show_int (uint u) @ '')'')"

section \<open>Instructions and chunks\<close>

text \<open>An instruction: the operands are \<open>int32\<close>; C is -1 when unused.\<close>

record instruction =
  i_Op :: op
  i_A :: int
  i_B :: int
  i_C :: int
  i_Pos :: nat

record upval_desc =
  FromParentUpval :: bool
  uv_Index :: nat

record 'c chunk =
  ch_Name :: string
  ch_Code :: "instruction list"
  ch_Consts :: "'c list"
  ch_NLocals :: nat
  ch_NParams :: nat
  ch_NResults :: nat
  ch_NamedSlots :: "nat list"
  ch_Upvals :: "upval_desc list"
  ch_IsVararg :: bool
  ch_Escapes :: nat

section \<open>Spellings\<close>

lemma all_binops_complete: "op \<in> set all_binops"
  by (cases op) (simp_all add: all_binops_def)

lemma binop_of_surj: "\<exists>n < 20. binop_of (int n) = Some op"
proof -
  obtain n where n: "n < length all_binops" "all_binops ! n = op"
    using all_binops_complete [of op] by (auto simp: in_set_conv_nth)
  then have "binop_of (int n) = Some op" by (simp add: binop_of_def)
  moreover from n(1) have "n < 20" by (simp add: all_binops_def)
  ultimately show ?thesis by blast
qed

lemma binOpSyms_nonempty: "binOpSyms op \<noteq> []"
  by (cases op) simp_all

lemma binOpSyms_inj:
  "binOpSyms a = binOpSyms b \<Longrightarrow> a = b \<or> {a, b} = {BinEql, BinEqlIface}"
  by (cases a; cases b) (simp_all add: insert_commute)

end
