(* ===== verification/Machine.thy ===== *)
theory Machine
  imports Bytecode
begin

text \<open>
  The state of the virtual machine (\<open>vm/vm.go\<close>) and what one instruction does to it: values, cells,
  frames, the panic state, and \<open>step_ins\<close>, the switch of \<open>VM.loop\<close>, by groups of instructions. What the
  instructions do with types (conversion to a declared type, materialising a constant, operators, host
  functions) is in the argument \<open>hooks\<close>; instructions that need more of the type machinery are
  \<open>Stuck\<close>. Tracebacks and the profiler are left out.
\<close>

section \<open>Values, cells and functions\<close>

text \<open>
  The script values the control part of the machine tells apart. \<open>VCell\<close> is a pointer to a cell by its
  address, \<open>VIfaceNil\<close> a nil interface (or a typed nil boxed in one), \<open>VFun\<close> a function by its number, \<open>VConv\<close> a type used as a conversion, \<open>VOther\<close> any other value.
\<close>

datatype val =
    VNil
  | VTypedNil bool
  | VIfaceNil bool
  | VBool bool
  | VInt int
  | VStr string
  | VTuple "val list"
  | VCell nat
  | VFun nat
  | VClosure nat "nat list"
  | VBound nat val bool
  | VBuiltin string
  | VConv nat
  | VNamed nat val
  | VError string
  | VOther nat

record cell =
  c_Elem :: val
  c_Typ :: "val option"
  c_ReadOnly :: bool

record func =
  fn_Name :: string
  fn_Qual :: string
  fn_Recv :: string
  fn_PtrRecv :: bool
  fn_Chunk :: "val chunk"

text \<open>A panic is an object with an identity: its index in the store of panics.\<close>

record panic_rec =
  pn_Value :: val
  pn_Prev :: "nat option"
  pn_Recovered :: bool

datatype exc = EPanic nat | ETrap string | EProcExit | EExit int | EHost string

record deferred_call =
  dc_fn :: val
  dc_args :: "val list"

text \<open>The operand stack is kept top first, the deferred calls innermost first.\<close>

record frame =
  fr_fn :: nat
  fr_name :: string
  fr_ch :: "val chunk"
  fr_locals :: "nat list"
  fr_upvals :: "nat list"
  fr_stack :: "val list"
  fr_ip :: nat
  fr_defers :: "deferred_call list"
  fr_retNamed :: bool
  fr_results :: "val list"
  fr_boundLo :: nat
  fr_boundHi :: nat

text \<open>What the frame stack \<open>v.frames\<close> is read for: the names, and which frames are sentinels.\<close>

record frame_tag =
  ft_name :: string
  ft_sentinel :: bool

record mstate =
  m_heap :: "cell list"
  m_panics :: "panic_rec list"
  m_globals :: "string \<rightharpoonup> val"
  m_frames :: "frame_tag list"
  m_inflight :: "nat option"
  m_unwindDepth :: nat
  m_consumed :: "nat option"
  m_draining :: int
  m_unwinding :: "(string \<times> nat) list"
  m_hasProc :: bool
  m_done :: bool
  m_fatal :: "exc option"
  m_syncCall :: bool

text \<open>
  How an operation of the type machinery or a host function can fail: a trap, a script panic, a panic of the
  host's own, or the request to end the process (\<open>os.Exit\<close>).
\<close>

datatype failure = FTrap string | FPanic val | FHost string | FExit int

record hooks =
  hk_fun :: "nat \<Rightarrow> func"
  hk_materialize :: "val \<Rightarrow> failure + val"
  hk_valueCopy :: "val \<Rightarrow> val"
  hk_assign :: "cell \<Rightarrow> val \<Rightarrow> failure + val"
  hk_binary :: "int \<Rightarrow> val \<Rightarrow> val \<Rightarrow> int \<Rightarrow> failure + val"
  hk_unary :: "int \<Rightarrow> val \<Rightarrow> failure + val"
  hk_convert :: "nat \<Rightarrow> val \<Rightarrow> string + val"
  hk_builtin :: "string \<Rightarrow> val list \<Rightarrow> failure + (string + val)"
  hk_global :: "string \<Rightarrow> val option"
  hk_truthy :: "nat \<Rightarrow> bool"
  hk_zeroResults :: "nat \<Rightarrow> val list"
  hk_declaredTag :: "val \<Rightarrow> val option"

section \<open>The store\<close>

definition cell_at :: "mstate \<Rightarrow> nat \<Rightarrow> cell" where
  "cell_at s a =
     (if a < length (m_heap s) then m_heap s ! a
      else \<lparr>c_Elem = VNil, c_Typ = None, c_ReadOnly = False\<rparr>)"

definition new_cell :: "cell \<Rightarrow> mstate \<Rightarrow> nat \<times> mstate" where
  "new_cell c s = (length (m_heap s), s\<lparr>m_heap := m_heap s @ [c]\<rparr>)"

definition set_elem :: "nat \<Rightarrow> val \<Rightarrow> mstate \<Rightarrow> mstate" where
  "set_elem a x s = s\<lparr>m_heap := (m_heap s)[a := (cell_at s a)\<lparr>c_Elem := x\<rparr>]\<rparr>"

definition new_panic :: "val \<Rightarrow> mstate \<Rightarrow> nat \<times> mstate" where
  "new_panic x s =
     (length (m_panics s),
      s\<lparr>m_panics := m_panics s @ [\<lparr>pn_Value = x, pn_Prev = None, pn_Recovered = False\<rparr>]\<rparr>)"

definition raise_val :: "val \<Rightarrow> mstate \<Rightarrow> exc \<times> mstate" where
  "raise_val x s = (let (p, s') = new_panic x s in (EPanic p, s'))"

definition nil_deref :: val where
  "nil_deref = VError ''invalid memory address or nil pointer dereference''"

text \<open>\<open>asScriptPanic\<close>: a raw host panic becomes a script panic; the rest passes through.\<close>

definition asScriptPanic :: "exc \<Rightarrow> mstate \<Rightarrow> exc \<times> mstate" where
  "asScriptPanic e s = (case e of EHost msg \<Rightarrow> raise_val (VError msg) s | _ \<Rightarrow> (e, s))"

fun truthy :: "hooks \<Rightarrow> val \<Rightarrow> bool" where
  "truthy hk (VBool b) = b"
| "truthy hk VNil = False"
| "truthy hk (VTypedNil p) = False"
| "truthy hk (VIfaceNil b) = True"
| "truthy hk (VNamed t x) = truthy hk x"
| "truthy hk (VInt i) = (i \<noteq> 0)"
| "truthy hk (VStr s) = (s \<noteq> [])"
| "truthy hk (VOther n) = hk_truthy hk n"
| "truthy hk x = True"

section \<open>One instruction\<close>

datatype action =
    Next mstate frame
  | Throw exc mstate frame
  | Invoke val "val list" mstate frame
  | Stuck

definition push :: "val \<Rightarrow> frame \<Rightarrow> frame" where
  "push x f = f\<lparr>fr_stack := x # fr_stack f\<rparr>"

text \<open>Reading past a Go slice is a host panic.\<close>

definition out_of_range :: "mstate \<Rightarrow> frame \<Rightarrow> action" where
  "out_of_range s f = Throw (EHost ''index out of range'') s f"

definition throw_failure :: "failure \<Rightarrow> mstate \<Rightarrow> frame \<Rightarrow> action" where
  "throw_failure e s f =
     (case e of
        FTrap msg \<Rightarrow> Throw (ETrap msg) s f
      | FPanic x \<Rightarrow> let (e, s') = raise_val x s in Throw e s' f
      | FHost msg \<Rightarrow> Throw (EHost msg) s f
      | FExit code \<Rightarrow> Throw (EExit code) s f)"

definition at :: "'a list \<Rightarrow> int \<Rightarrow> 'a option" where
  "at xs i = (if 0 \<le> i \<and> i < int (length xs) then Some (xs ! nat i) else None)"

definition with_at :: "'a list \<Rightarrow> int \<Rightarrow> mstate \<Rightarrow> frame \<Rightarrow> ('a \<Rightarrow> action) \<Rightarrow> action" where
  "with_at xs i s f k = (case at xs i of None \<Rightarrow> out_of_range s f | Some x \<Rightarrow> k x)"

definition with_pop :: "mstate \<Rightarrow> frame \<Rightarrow> (val \<Rightarrow> frame \<Rightarrow> action) \<Rightarrow> action" where
  "with_pop s f k =
     (case fr_stack f of [] \<Rightarrow> out_of_range s f | x # st \<Rightarrow> k x (f\<lparr>fr_stack := st\<rparr>))"

text \<open>Popping \<open>n\<close> values, in the order they were pushed.\<close>

definition with_popn :: "nat \<Rightarrow> mstate \<Rightarrow> frame \<Rightarrow> (val list \<Rightarrow> frame \<Rightarrow> action) \<Rightarrow> action" where
  "with_popn n s f k =
     (if length (fr_stack f) < n then out_of_range s f
      else k (rev (take n (fr_stack f))) (f\<lparr>fr_stack := drop n (fr_stack f)\<rparr>))"

definition step_stack :: "mstate \<Rightarrow> frame \<Rightarrow> instruction \<Rightarrow> action" where
  "step_stack s f ins =
     (case i_Op ins of
        OpNop \<Rightarrow> Next s f
      | OpConst \<Rightarrow> with_at (ch_Consts (fr_ch f)) (i_A ins) s f (\<lambda>x. Next s (push x f))
      | OpNil \<Rightarrow> Next s (push VNil f)
      | OpDup \<Rightarrow> (case fr_stack f of x # st \<Rightarrow> Next s (push x f) | _ \<Rightarrow> out_of_range s f)
      | OpDup2 \<Rightarrow>
          (case fr_stack f of b # a # st \<Rightarrow> Next s (push b (push a f)) | _ \<Rightarrow> out_of_range s f)
      | OpSwap \<Rightarrow>
          (case fr_stack f of b # a # st \<Rightarrow> Next s (f\<lparr>fr_stack := a # b # st\<rparr>) | _ \<Rightarrow> out_of_range s f)
      | OpRot3 \<Rightarrow>
          (case fr_stack f of
             c # b # a # st \<Rightarrow> Next s (f\<lparr>fr_stack := a # c # b # st\<rparr>)
           | _ \<Rightarrow> out_of_range s f)
      | OpPop \<Rightarrow> with_pop s f (\<lambda>x f. Next s f)
      | _ \<Rightarrow> Stuck)"

text \<open>A store into a cell (\<open>assignCell\<close>): a read-only cell traps.\<close>

definition assign_cell :: "hooks \<Rightarrow> nat \<Rightarrow> val \<Rightarrow> mstate \<Rightarrow> frame \<Rightarrow> (mstate \<Rightarrow> action) \<Rightarrow> action" where
  "assign_cell hk a x s f k =
     (if c_ReadOnly (cell_at s a) then Throw (ETrap ''cannot assign to constant'') s f
      else case hk_assign hk (cell_at s a) x of
        Inl e \<Rightarrow> throw_failure e s f
      | Inr y \<Rightarrow> k (set_elem a (hk_valueCopy hk y) s))"

definition cell_type :: "cell \<Rightarrow> val" where
  "cell_type c = (case c_Typ c of Some td \<Rightarrow> td | None \<Rightarrow> VNil)"

text \<open>The value a variable is bound to: a constant materialises unless the cell is a constant's (B).\<close>

definition bind_value :: "hooks \<Rightarrow> instruction \<Rightarrow> val \<Rightarrow> mstate \<Rightarrow> frame \<Rightarrow> (val \<Rightarrow> action) \<Rightarrow> action" where
  "bind_value hk ins x s f k =
     (if i_B ins = 0
      then (case hk_materialize hk x of Inl e \<Rightarrow> throw_failure e s f | Inr y \<Rightarrow> k (hk_valueCopy hk y))
      else k (hk_valueCopy hk x))"

definition step_local :: "hooks \<Rightarrow> mstate \<Rightarrow> frame \<Rightarrow> instruction \<Rightarrow> action" where
  "step_local hk s f ins =
     (case i_Op ins of
        OpNewLocal \<Rightarrow>
          with_pop s f (\<lambda>x f. bind_value hk ins x s f (\<lambda>y.
            with_at (fr_locals f) (i_A ins) s f (\<lambda>_.
              let (a, s') = new_cell \<lparr>c_Elem = y, c_Typ = None, c_ReadOnly = i_B ins \<noteq> 0\<rparr> s
              in Next s' (f\<lparr>fr_locals := (fr_locals f)[nat (i_A ins) := a]\<rparr>))))
      | OpRenewVar \<Rightarrow>
          with_at (fr_locals f) (i_A ins) s f (\<lambda>old.
            let (a, s') = new_cell \<lparr>c_Elem = c_Elem (cell_at s old), c_Typ = None, c_ReadOnly = False\<rparr> s
            in Next s' (f\<lparr>fr_locals := (fr_locals f)[nat (i_A ins) := a]\<rparr>))
      | OpLocal \<Rightarrow> with_at (fr_locals f) (i_A ins) s f (\<lambda>a. Next s (push (c_Elem (cell_at s a)) f))
      | OpLocalTyp \<Rightarrow> with_at (fr_locals f) (i_A ins) s f (\<lambda>a. Next s (push (cell_type (cell_at s a)) f))
      | OpSetLocal \<Rightarrow>
          with_at (fr_locals f) (i_A ins) s f (\<lambda>a. with_pop s f (\<lambda>x f.
            assign_cell hk a x s f (\<lambda>s'. Next s' f)))
      | OpLocalRef \<Rightarrow> with_at (fr_locals f) (i_A ins) s f (\<lambda>a. Next s (push (VCell a) f))
      | OpUpval \<Rightarrow> with_at (fr_upvals f) (i_A ins) s f (\<lambda>a. Next s (push (c_Elem (cell_at s a)) f))
      | OpUpvalTyp \<Rightarrow> with_at (fr_upvals f) (i_A ins) s f (\<lambda>a. Next s (push (cell_type (cell_at s a)) f))
      | OpSetUpval \<Rightarrow>
          with_at (fr_upvals f) (i_A ins) s f (\<lambda>a. with_pop s f (\<lambda>x f.
            assign_cell hk a x s f (\<lambda>s'. Next s' f)))
      | OpUpvalRef \<Rightarrow> with_at (fr_upvals f) (i_A ins) s f (\<lambda>a. Next s (push (VCell a) f))
      | _ \<Rightarrow> Stuck)"

text \<open>
  Globals. \<open>OpGlobal\<close> is the resolution without its per-site cache, for a package whose names are all in its
  environment or predeclared.
\<close>

definition with_name :: "frame \<Rightarrow> int \<Rightarrow> mstate \<Rightarrow> (string \<Rightarrow> action) \<Rightarrow> action" where
  "with_name f i s k =
     with_at (ch_Consts (fr_ch f)) i s f (\<lambda>c. case c of VStr name \<Rightarrow> k name
       | _ \<Rightarrow> Throw (EHost ''interface conversion'') s f)"

definition read_global :: "mstate \<Rightarrow> val \<Rightarrow> val" where
  "read_global s g = (case g of VCell a \<Rightarrow> c_Elem (cell_at s a) | _ \<Rightarrow> g)"

definition step_global :: "hooks \<Rightarrow> mstate \<Rightarrow> frame \<Rightarrow> instruction \<Rightarrow> action" where
  "step_global hk s f ins =
     (case i_Op ins of
        OpGlobal \<Rightarrow>
          with_name f (i_A ins) s (\<lambda>name.
            case m_globals s name of
              Some g \<Rightarrow> Next s (push (read_global s g) f)
            | None \<Rightarrow>
                (case hk_global hk name of
                   Some b \<Rightarrow> Next s (push b f)
                 | None \<Rightarrow> Throw (ETrap (''undefined: '' @ name)) s f))
      | OpGlobalTyp \<Rightarrow>
          with_name f (i_A ins) s (\<lambda>name.
            case m_globals s name of
              Some (VCell a) \<Rightarrow> Next s (push (cell_type (cell_at s a)) f)
            | _ \<Rightarrow> Next s (push VNil f))
      | OpNewGlobal \<Rightarrow>
          with_pop s f (\<lambda>x f. bind_value hk ins x s f (\<lambda>y. with_name f (i_A ins) s (\<lambda>name.
            let (a, s') = new_cell \<lparr>c_Elem = y, c_Typ = None, c_ReadOnly = i_B ins \<noteq> 0\<rparr> s
            in Next (s'\<lparr>m_globals := (m_globals s')(name \<mapsto> VCell a)\<rparr>) f)))
      | OpSetGlobal \<Rightarrow>
          with_name f (i_A ins) s (\<lambda>name. with_pop s f (\<lambda>x f.
            case m_globals s name of
              Some (VCell a) \<Rightarrow>
                if c_ReadOnly (cell_at s a) then Throw (ETrap (''cannot assign to '' @ name)) s f
                else assign_cell hk a x s f (\<lambda>s'. Next s' f)
            | _ \<Rightarrow> Next (s\<lparr>m_globals := (m_globals s)(name \<mapsto> hk_valueCopy hk x)\<rparr>) f))
      | OpGlobalRef \<Rightarrow>
          with_name f (i_A ins) s (\<lambda>name.
            case m_globals s name of
              Some (VCell a) \<Rightarrow> Next s (push (VCell a) f)
            | _ \<Rightarrow> Throw (ETrap (''cannot take address of '' @ name)) s f)
      | _ \<Rightarrow> Stuck)"

text \<open>
  \<open>assignRef\<close> on cells and on the blank; the stores of \<open>OpSetRefs\<close> run left to right after every reference
  and every value has been evaluated.
\<close>

fun assign_refs :: "hooks \<Rightarrow> (val \<times> val) list \<Rightarrow> mstate \<Rightarrow> frame \<Rightarrow> action" where
  "assign_refs hk [] s f = Next s f"
| "assign_refs hk ((ref, x) # rest) s f =
     (case ref of
        VCell a \<Rightarrow> assign_cell hk a x s f (\<lambda>s'. assign_refs hk rest s' f)
      | VNil \<Rightarrow> assign_refs hk rest s f
      | _ \<Rightarrow> Stuck)"

definition set_refs :: "hooks \<Rightarrow> mstate \<Rightarrow> frame \<Rightarrow> instruction \<Rightarrow> action" where
  "set_refs hk s f ins =
     (let n = nat (i_A ins) in
      if i_B ins = 1
      then with_popn n s f (\<lambda>refs f. with_popn n s f (\<lambda>vals f. assign_refs hk (zip refs vals) s f))
      else with_popn n s f (\<lambda>vals f. with_popn n s f (\<lambda>refs f. assign_refs hk (zip refs vals) s f)))"

definition do_box :: "hooks \<Rightarrow> mstate \<Rightarrow> frame \<Rightarrow> action" where
  "do_box hk s f =
     with_pop s f (\<lambda>x f. let (a, s') = new_cell \<lparr>c_Elem = x, c_Typ = hk_declaredTag hk x, c_ReadOnly = False\<rparr> s
       in Next s' (push (VCell a) f))"

definition step_refs :: "hooks \<Rightarrow> mstate \<Rightarrow> frame \<Rightarrow> instruction \<Rightarrow> action" where
  "step_refs hk s f ins =
     (case i_Op ins of OpSetRefs \<Rightarrow> set_refs hk s f ins | OpBox \<Rightarrow> do_box hk s f | _ \<Rightarrow> Stuck)"

text \<open>The cells a closure captures: the frame's locals and its own captured cells.\<close>

fun capture :: "frame \<Rightarrow> upval_desc list \<Rightarrow> nat list option" where
  "capture f [] = Some []"
| "capture f (d # ds) =
     (case at (if FromParentUpval d then fr_upvals f else fr_locals f) (int (uv_Index d)) of
        None \<Rightarrow> None
      | Some a \<Rightarrow> map_option (\<lambda>as. a # as) (capture f ds))"

text \<open>
  \<open>popArgsBuf\<close> without the spread of a slice (mode 1): the declared types of the arguments lie on top and
  serve inference only; in mode 2 a lone tuple is spread.
\<close>

definition pop_args :: "instruction \<Rightarrow> mstate \<Rightarrow> frame \<Rightarrow> (val list \<Rightarrow> frame \<Rightarrow> action) \<Rightarrow> action" where
  "pop_args ins s f k =
     (if i_B ins = 1 then Stuck
      else with_popn (nat (i_A ins)) s f (\<lambda>statics f. with_popn (nat (i_A ins)) s f (\<lambda>args f.
        k (if i_B ins = 2 then (case args of [VTuple el] \<Rightarrow> el | _ \<Rightarrow> args) else args) f)))"

definition do_call :: "mstate \<Rightarrow> frame \<Rightarrow> instruction \<Rightarrow> action" where
  "do_call s f ins = pop_args ins s f (\<lambda>args f. with_pop s f (\<lambda>fn f. Invoke fn args s f))"

definition do_defer :: "mstate \<Rightarrow> frame \<Rightarrow> instruction \<Rightarrow> action" where
  "do_defer s f ins = pop_args ins s f (\<lambda>args f. with_pop s f (\<lambda>fn f.
     Next s (f\<lparr>fr_defers := \<lparr>dc_fn = fn, dc_args = args\<rparr> # fr_defers f\<rparr>)))"

definition do_pack :: "mstate \<Rightarrow> frame \<Rightarrow> instruction \<Rightarrow> action" where
  "do_pack s f ins = with_popn (nat (i_A ins)) s f (\<lambda>el f. Next s (push (VTuple el) f))"

definition do_unpack :: "mstate \<Rightarrow> frame \<Rightarrow> instruction \<Rightarrow> action" where
  "do_unpack s f ins =
     with_pop s f (\<lambda>x f.
       case x of
         VTuple el \<Rightarrow>
           if int (length el) \<noteq> i_A ins then Throw (ETrap ''unpack mismatch'') s f
           else Next s (f\<lparr>fr_stack := rev el @ fr_stack f\<rparr>)
       | _ \<Rightarrow> if i_A ins = 1 then Next s (push x f)
              else Throw (ETrap ''multi-assign from non-tuple'') s f)"

text \<open>A function literal outside generic functions: without captures it is the function itself.\<close>

definition make_closure :: "hooks \<Rightarrow> mstate \<Rightarrow> frame \<Rightarrow> instruction \<Rightarrow> action" where
  "make_closure hk s f ins =
     with_at (ch_Consts (fr_ch f)) (i_A ins) s f (\<lambda>c.
       case c of
         VFun n \<Rightarrow>
           let ups = ch_Upvals (fn_Chunk (hk_fun hk n)) in
           if ups = [] then Next s (push (VFun n) f)
           else (case capture f ups of
             None \<Rightarrow> out_of_range s f
           | Some as \<Rightarrow> Next s (push (VClosure n as) f))
       | _ \<Rightarrow> Throw (EHost ''interface conversion'') s f)"

definition step_call :: "hooks \<Rightarrow> mstate \<Rightarrow> frame \<Rightarrow> instruction \<Rightarrow> action" where
  "step_call hk s f ins =
     (case i_Op ins of
        OpCall \<Rightarrow> do_call s f ins
      | OpDefer \<Rightarrow> do_defer s f ins
      | OpPack \<Rightarrow> do_pack s f ins
      | OpUnpack \<Rightarrow> do_unpack s f ins
      | OpMakeClosure \<Rightarrow> make_closure hk s f ins
      | _ \<Rightarrow> Stuck)"

definition step_flow :: "hooks \<Rightarrow> mstate \<Rightarrow> frame \<Rightarrow> instruction \<Rightarrow> action" where
  "step_flow hk s f ins =
     (case i_Op ins of
        OpBinary \<Rightarrow>
          with_pop s f (\<lambda>b f. with_pop s f (\<lambda>a f.
            case hk_binary hk (i_A ins) a b (i_B ins) of
              Inl e \<Rightarrow> throw_failure e s f
            | Inr r \<Rightarrow> Next s (push r f)))
      | OpUnary \<Rightarrow>
          with_pop s f (\<lambda>a f.
            case hk_unary hk (i_A ins) a of Inl e \<Rightarrow> throw_failure e s f | Inr r \<Rightarrow> Next s (push r f))
      | OpJump \<Rightarrow> Next s (f\<lparr>fr_ip := nat (i_A ins)\<rparr>)
      | OpJumpFalse \<Rightarrow>
          with_pop s f (\<lambda>x f. Next s (if truthy hk x then f else f\<lparr>fr_ip := nat (i_A ins)\<rparr>))
      | OpJumpTrue \<Rightarrow>
          with_pop s f (\<lambda>x f. Next s (if truthy hk x then f\<lparr>fr_ip := nat (i_A ins)\<rparr> else f))
      | _ \<Rightarrow> Stuck)"

text \<open>Stores of the explicit results of a return into the named result slots, last first.\<close>

fun store_results :: "nat list \<Rightarrow> val list \<Rightarrow> frame \<Rightarrow> mstate \<Rightarrow> mstate" where
  "store_results (slot # slots) (x # xs) f s =
     set_elem (fr_locals f ! slot) x (store_results slots xs f s)"
| "store_results _ _ f s = s"

definition step_exit :: "mstate \<Rightarrow> frame \<Rightarrow> instruction \<Rightarrow> action" where
  "step_exit s f ins =
     (case i_Op ins of
        OpPanic \<Rightarrow> with_pop s f (\<lambda>x f. let (e, s') = raise_val x s in Throw e s' f)
      | OpTrap \<Rightarrow>
          with_at (ch_Consts (fr_ch f)) (i_A ins) s f (\<lambda>c.
            Throw (ETrap (case c of VStr msg \<Rightarrow> msg | _ \<Rightarrow> [])) s f)
      | OpReturn \<Rightarrow>
          let n = i_A ins; slots = ch_NamedSlots (fr_ch f); stop = length (ch_Code (fr_ch f)) in
          if n < 0 then Next s (f\<lparr>fr_retNamed := True, fr_ip := stop\<rparr>)
          else if n > 0 \<and> int (length slots) = n then
            (if \<not> (\<forall>slot\<in>set slots. slot < length (fr_locals f)) then out_of_range s f
             else with_popn (nat n) s f (\<lambda>xs f.
               Next (store_results slots xs f s) (f\<lparr>fr_retNamed := True, fr_ip := stop\<rparr>)))
          else with_popn (nat n) s f (\<lambda>xs f. Next s (f\<lparr>fr_results := xs, fr_ip := stop\<rparr>))
      | _ \<Rightarrow> Stuck)"

text \<open>The switch of the loop: the groups in turn.\<close>

definition or_else :: "action \<Rightarrow> action \<Rightarrow> action" where
  "or_else a b = (case a of Stuck \<Rightarrow> b | _ \<Rightarrow> a)"

definition step_ins :: "hooks \<Rightarrow> mstate \<Rightarrow> frame \<Rightarrow> instruction \<Rightarrow> action" where
  "step_ins hk s f ins =
     or_else (step_stack s f ins) (or_else (step_local hk s f ins) (or_else (step_global hk s f ins)
       (or_else (step_refs hk s f ins) (or_else (step_call hk s f ins) (or_else (step_flow hk s f ins)
         (step_exit s f ins))))))"

section \<open>Frames\<close>

definition finalResult :: "hooks \<Rightarrow> mstate \<Rightarrow> frame \<Rightarrow> val" where
  "finalResult hk s f =
     (let results = (if ch_NamedSlots (fr_ch f) \<noteq> []
                     then map (\<lambda>slot. c_Elem (cell_at s (fr_locals f ! slot))) (ch_NamedSlots (fr_ch f))
                     else fr_results f);
          results = (if results = [] \<and> ch_NResults (fr_ch f) > 0 then hk_zeroResults hk (fr_fn f) else results)
      in case results of [] \<Rightarrow> VNil | [r] \<Rightarrow> r | _ \<Rightarrow> VTuple results)"

definition maxFrames :: nat where
  "maxFrames = 10000"

fun new_cells :: "val list \<Rightarrow> mstate \<Rightarrow> nat list \<times> mstate" where
  "new_cells [] s = ([], s)"
| "new_cells (x # xs) s =
     (let (a, s1) = new_cell \<lparr>c_Elem = x, c_Typ = None, c_ReadOnly = False\<rparr> s;
          (as, s2) = new_cells xs s1
      in (a # as, s2))"

text \<open>
  The values the local cells of a new frame hold: the parameters, a variadic parameter collecting the rest
  as a tuple of values, and nil in the other slots.
\<close>

definition param_values :: "hooks \<Rightarrow> val chunk \<Rightarrow> val list \<Rightarrow> val list" where
  "param_values hk ch args =
     (let n = ch_NParams ch;
          ps = map (\<lambda>i.
            if ch_IsVararg ch \<and> i = n - 1 then (if i < length args then VTuple (drop i args) else VNil)
            else if i < length args then hk_valueCopy hk (args ! i) else VNil) [0..<n]
      in ps @ replicate (ch_NLocals ch - n) VNil)"

datatype prep =
    Frame frame mstate
  | PrepErr string
  | PrepPanic val

definition prep_fun :: "hooks \<Rightarrow> nat \<Rightarrow> nat list \<Rightarrow> val list \<Rightarrow> mstate \<Rightarrow> prep" where
  "prep_fun hk n ups args s =
     (let fn = hk_fun hk n; ch = fn_Chunk fn;
          want = (if ch_IsVararg ch then ch_NParams ch - 1 else ch_NParams ch) in
      if length (m_frames s) \<ge> maxFrames then PrepErr ''stack exhausted''
      else if length args < want then PrepErr (''not enough arguments to '' @ fn_Name fn)
      else if \<not> ch_IsVararg ch \<and> length args > ch_NParams ch then PrepErr (''too many arguments to '' @ fn_Name fn)
      else
        let (locals, s') = new_cells (param_values hk ch args) s in
        Frame \<lparr>fr_fn = n, fr_name = fn_Name fn, fr_ch = ch, fr_locals = locals, fr_upvals = ups, fr_stack = [],
          fr_ip = 0, fr_defers = [], fr_retNamed = False, fr_results = [], fr_boundLo = 0, fr_boundHi = 0\<rparr> s')"

definition prepFrame :: "hooks \<Rightarrow> val \<Rightarrow> val list \<Rightarrow> mstate \<Rightarrow> prep" where
  "prepFrame hk callee args s =
     (case callee of
        VFun n \<Rightarrow> prep_fun hk n [] args s
      | VClosure n ups \<Rightarrow> prep_fun hk n ups args s
      | VBound n recv direct \<Rightarrow>
          let fn = hk_fun hk n in
          if \<not> fn_PtrRecv fn \<and> recv = VTypedNil True then
            (if direct then PrepPanic nil_deref
             else PrepPanic (VError (''value method '' @ fn_Qual fn @ fn_Name fn @ '' called using nil *'' @
               fn_Recv fn @ '' pointer'')))
          else prep_fun hk n [] (recv # args) s
      | _ \<Rightarrow> PrepErr ''value is not callable'')"

end
