(* ===== verification/Unwind.thy ===== *)
theory Unwind
  imports Machine
begin

text \<open>
  Calls, deferred calls, panics and recovery (\<open>vm/vm.go\<close>: \<open>call\<close>, \<open>exec\<close>, \<open>loop\<close>, \<open>unwind\<close>,
  \<open>runOneDefer\<close>, \<open>invokeDeferred\<close>, \<open>Recover\<close>, \<open>failProc\<close>). Every function that runs script code takes
  the function that runs a frame as an argument, with the contract of the locale \<open>frame_runner\<close>;
  \<open>run\<close> ties the knot with a bound on the depth of nested calls, which also bounds the instructions of a
  frame. Running out of it is the outcome \<open>NoFuel\<close>; \<open>Unmodelled\<close> is an instruction the model does not have.
\<close>

datatype result = Ret val mstate | Err string mstate | Raise exc mstate | Unmodelled | NoFuel

datatype loop_result = LDone frame mstate | LRaise exc frame mstate | LUnmodelled | LNoFuel

section \<open>The frame stack and the panic in flight\<close>

definition push_tag :: "string \<Rightarrow> bool \<Rightarrow> mstate \<Rightarrow> mstate" where
  "push_tag name sentinel s = s\<lparr>m_frames := \<lparr>ft_name = name, ft_sentinel = sentinel\<rparr> # m_frames s\<rparr>"

definition framesPop :: "mstate \<Rightarrow> mstate" where
  "framesPop s = s\<lparr>m_frames := tl (m_frames s)\<rparr>"

definition pushDeferredSentinel :: "string \<Rightarrow> mstate \<Rightarrow> mstate" where
  "pushDeferredSentinel name s = push_tag name True s"

text \<open>\<open>dropUnwound\<close>: the unwound frames of one panic.\<close>

definition dropUnwound :: "nat option \<Rightarrow> mstate \<Rightarrow> mstate" where
  "dropUnwound p s =
     (case p of None \<Rightarrow> s | Some q \<Rightarrow> s\<lparr>m_unwinding := filter (\<lambda>e. snd e \<noteq> q) (m_unwinding s)\<rparr>)"

text \<open>
  \<open>Recover\<close>: the frames between the call and the boundary of the unwind, sentinels left out, must be one.
\<close>

definition recover_distance :: "mstate \<Rightarrow> nat" where
  "recover_distance s =
     length (filter (\<lambda>t. \<not> ft_sentinel t) (take (length (m_frames s) - m_unwindDepth s) (m_frames s)))"

definition recovered_value :: "hooks \<Rightarrow> val \<Rightarrow> val" where
  "recovered_value hk x =
     (let y = (case hk_materialize hk x of Inr y \<Rightarrow> y | Inl e \<Rightarrow> x)
      in case y of VTypedNil b \<Rightarrow> VIfaceNil True | _ \<Rightarrow> y)"

definition panic_at :: "mstate \<Rightarrow> nat \<Rightarrow> panic_rec" where
  "panic_at s p =
     (if p < length (m_panics s) then m_panics s ! p
      else \<lparr>pn_Value = VNil, pn_Prev = None, pn_Recovered = False\<rparr>)"

definition Recover :: "hooks \<Rightarrow> mstate \<Rightarrow> val \<times> mstate" where
  "Recover hk s =
     (case m_inflight s of
        None \<Rightarrow> (VNil, s)
      | Some p \<Rightarrow>
          if recover_distance s \<noteq> 1 then (VNil, s)
          else (recovered_value hk (pn_Value (panic_at s p)),
                s\<lparr>m_consumed := Some p, m_panics := (m_panics s)[p := (panic_at s p)\<lparr>pn_Recovered := True\<rparr>],
                  m_inflight := None\<rparr>))"

text \<open>The start of \<open>unwind\<close>: a panic on top of another links to it.\<close>

definition link_prev :: "nat \<Rightarrow> mstate \<Rightarrow> mstate" where
  "link_prev p s =
     (let set_prev = (\<lambda>q. s\<lparr>m_panics := (m_panics s)[p := (panic_at s p)\<lparr>pn_Prev := Some q\<rparr>]\<rparr>) in
      if pn_Prev (panic_at s p) \<noteq> None then s
      else if m_inflight s \<noteq> None \<and> m_inflight s \<noteq> Some p then set_prev (the (m_inflight s))
      else if m_consumed s \<noteq> None \<and> m_consumed s \<noteq> Some p then set_prev (the (m_consumed s))
      else s)"

text \<open>\<open>failProc\<close> with \<open>proc.fail\<close>: only at the root of a goroutine, outside any drain.\<close>

definition failProc :: "exc \<Rightarrow> mstate \<Rightarrow> mstate" where
  "failProc e s =
     (if m_frames s \<noteq> [] \<or> m_draining s \<noteq> 0 \<or> \<not> m_hasProc s \<or> m_syncCall s then s
      else case e of
        EPanic p \<Rightarrow> s\<lparr>m_fatal := (if m_fatal s = None then Some e else m_fatal s), m_done := True\<rparr>
      | ETrap msg \<Rightarrow> s\<lparr>m_fatal := (if m_fatal s = None then Some e else m_fatal s), m_done := True\<rparr>
      | _ \<Rightarrow> s)"

section \<open>Calls\<close>

text \<open>A builtin's failure; the deferred function of \<open>callBuiltin\<close> wraps a host panic at once.\<close>

definition raise_failure :: "failure \<Rightarrow> mstate \<Rightarrow> result" where
  "raise_failure e s =
     (case e of
        FTrap msg \<Rightarrow> Raise (ETrap msg) s
      | FPanic x \<Rightarrow> let (e, s') = raise_val x s in Raise e s'
      | FHost msg \<Rightarrow> let (e, s') = asScriptPanic (EHost msg) s in Raise e s'
      | FExit code \<Rightarrow> Raise (EExit code) s)"

definition callBuiltin :: "hooks \<Rightarrow> string \<Rightarrow> val list \<Rightarrow> mstate \<Rightarrow> result" where
  "callBuiltin hk name args s =
     (if name = ''recover'' then (let (x, s') = Recover hk s in Ret x s')
      else case hk_builtin hk name args of
        Inl e \<Rightarrow> raise_failure e s
      | Inr (Inl msg) \<Rightarrow> Err msg s
      | Inr (Inr x) \<Rightarrow> Ret x s)"

definition convert_arg :: "hooks \<Rightarrow> nat \<Rightarrow> val \<Rightarrow> mstate \<Rightarrow> result" where
  "convert_arg hk t x s = (case hk_convert hk t x of Inl msg \<Rightarrow> Err msg s | Inr y \<Rightarrow> Ret y s)"

text \<open>
  The loop over the callee: a named value is unwrapped, a cell dereferenced. Cells can point at themselves,
  so the chain is bounded.
\<close>

fun callee_of :: "nat \<Rightarrow> mstate \<Rightarrow> val \<Rightarrow> val option" where
  "callee_of n s (VNamed t x) = callee_of n s x"
| "callee_of (Suc n) s (VCell a) = callee_of n s (c_Elem (cell_at s a))"
| "callee_of 0 s (VCell a) = None"
| "callee_of n s x = Some x"

definition is_nil_callee :: "val \<Rightarrow> bool" where
  "is_nil_callee c \<longleftrightarrow> (case c of VNil \<Rightarrow> True | VTypedNil b \<Rightarrow> True | VIfaceNil b \<Rightarrow> True | _ \<Rightarrow> False)"

text \<open>A deferred nil interface, unlike a typed nil boxed in one, is left to the preparation of its frame.\<close>

definition is_nil_deferred :: "val \<Rightarrow> bool" where
  "is_nil_deferred c \<longleftrightarrow> (case c of VNil \<Rightarrow> True | VTypedNil b \<Rightarrow> True | VIfaceNil b \<Rightarrow> b | _ \<Rightarrow> False)"

type_synonym runner = "frame \<Rightarrow> mstate \<Rightarrow> result"

definition call_prepared :: "runner \<Rightarrow> hooks \<Rightarrow> val \<Rightarrow> val list \<Rightarrow> mstate \<Rightarrow> result" where
  "call_prepared ex hk c args s =
     (case prepFrame hk c args s of
        PrepErr msg \<Rightarrow> Err msg s
      | PrepPanic x \<Rightarrow> let (e, s') = raise_val x s in Raise e s'
      | Frame f s' \<Rightarrow> ex f s')"

definition call :: "runner \<Rightarrow> hooks \<Rightarrow> nat \<Rightarrow> val \<Rightarrow> val list \<Rightarrow> mstate \<Rightarrow> result" where
  "call ex hk n callee args s =
     (if m_hasProc s \<and> m_done s then Raise EProcExit s
      else case callee_of n s callee of
        None \<Rightarrow> NoFuel
      | Some c \<Rightarrow>
          (case c of
             VBuiltin name \<Rightarrow> callBuiltin hk name args s
           | VConv t \<Rightarrow>
               (case args of
                  [x] \<Rightarrow> convert_arg hk t x s
                | _ \<Rightarrow> Err ''conversion needs exactly one argument'' s)
           | _ \<Rightarrow>
               if is_nil_callee c then (let (e, s') = raise_val nil_deref s in Raise e s')
               else call_prepared ex hk c args s))"

text \<open>The bounds of a re-entrant run: it halts on either edge.\<close>

definition in_bounds :: "frame \<Rightarrow> bool" where
  "in_bounds f \<longleftrightarrow> fr_ip f < length (ch_Code (fr_ch f)) \<and>
     (fr_boundHi f = 0 \<or> fr_boundLo f < fr_ip f \<and> fr_ip f < fr_boundHi f)"

fun loop :: "runner \<Rightarrow> hooks \<Rightarrow> nat \<Rightarrow> nat \<Rightarrow> frame \<Rightarrow> mstate \<Rightarrow> loop_result" where
  "loop ex hk k 0 f s = LNoFuel"
| "loop ex hk k (Suc n) f s =
     (if \<not> in_bounds f then LDone f s
      else
        case step_ins hk s (f\<lparr>fr_ip := fr_ip f + 1\<rparr>) (ch_Code (fr_ch f) ! fr_ip f) of
          Next s' f' \<Rightarrow> loop ex hk k n f' s'
        | Throw e s' f' \<Rightarrow> LRaise e f' s'
        | Invoke fn args s' f' \<Rightarrow>
            (case call ex hk k fn args s' of
               Ret x t \<Rightarrow> loop ex hk k n (push x f') t
             | Err msg t \<Rightarrow> LRaise (ETrap msg) f' t
             | Raise e t \<Rightarrow> LRaise e f' t
             | Unmodelled \<Rightarrow> LUnmodelled
             | NoFuel \<Rightarrow> LNoFuel)
        | Stuck \<Rightarrow> LUnmodelled)"

section \<open>Deferred calls\<close>

text \<open>A deferred call of a callee without a frame of its own runs on a sentinel; its error is a trap.\<close>

definition on_sentinel :: "string \<Rightarrow> (mstate \<Rightarrow> result) \<Rightarrow> mstate \<Rightarrow> result" where
  "on_sentinel name body s =
     (case body (pushDeferredSentinel name s) of
        Ret x t \<Rightarrow> Ret x (framesPop t)
      | Err msg t \<Rightarrow> Raise (ETrap msg) (framesPop t)
      | Raise e t \<Rightarrow> Raise e (framesPop t)
      | r \<Rightarrow> r)"

definition firstArg :: "val list \<Rightarrow> val" where
  "firstArg args = (case args of [] \<Rightarrow> VNil | x # xs \<Rightarrow> x)"

definition deferred_frame :: "runner \<Rightarrow> hooks \<Rightarrow> val \<Rightarrow> val list \<Rightarrow> mstate \<Rightarrow> result" where
  "deferred_frame ex hk c args s =
     (case call_prepared ex hk c args s of Err msg t \<Rightarrow> Raise (ETrap msg) t | r \<Rightarrow> r)"

definition invokeDeferred :: "runner \<Rightarrow> hooks \<Rightarrow> nat \<Rightarrow> deferred_call \<Rightarrow> mstate \<Rightarrow> result" where
  "invokeDeferred ex hk n d s =
     (case callee_of n s (dc_fn d) of
        None \<Rightarrow> NoFuel
      | Some c \<Rightarrow>
          (case c of
             VBuiltin name \<Rightarrow> on_sentinel name (callBuiltin hk name (dc_args d)) s
           | VConv t \<Rightarrow> on_sentinel [] (convert_arg hk t (firstArg (dc_args d))) s
           | _ \<Rightarrow>
               if is_nil_deferred c then (let (e, s') = raise_val nil_deref s in Raise e s')
               else deferred_frame ex hk c (dc_args d) s))"

text \<open>\<open>runOneDefer\<close>: a panic of the deferred call becomes the panic in flight; its boundary is the slot the
  call occupied. The end of the process is swallowed, everything else goes on up.\<close>

datatype drain_result = Drained "nat option" mstate | DRaise exc mstate | DUnmodelled | DNoFuel

definition runOneDefer :: "runner \<Rightarrow> hooks \<Rightarrow> nat \<Rightarrow> deferred_call \<Rightarrow> nat option \<Rightarrow> mstate \<Rightarrow> drain_result" where
  "runOneDefer ex hk n d p s =
     (case invokeDeferred ex hk n d s of
        Ret x t \<Rightarrow> Drained p t
      | Err msg t \<Rightarrow> DRaise (ETrap msg) t
      | Raise e t \<Rightarrow>
          (let (e', t') = asScriptPanic e t in
           case e' of
             EPanic q \<Rightarrow> Drained p (t'\<lparr>m_inflight := Some q, m_unwindDepth := length (m_frames s)\<rparr>)
           | EProcExit \<Rightarrow> Drained p t'
           | _ \<Rightarrow> DRaise e' t')
      | Unmodelled \<Rightarrow> DUnmodelled
      | NoFuel \<Rightarrow> DNoFuel)"

definition map_drained :: "(mstate \<Rightarrow> mstate) \<Rightarrow> drain_result \<Rightarrow> drain_result" where
  "map_drained g r = (case r of Drained p s \<Rightarrow> Drained p (g s) | DRaise e s \<Rightarrow> DRaise e (g s) | r \<Rightarrow> r)"

text \<open>
  The drain of a frame's deferred calls. A panic consumed part-way hands the rest of the list to the panic
  state the unwind found (\<open>saved\<close>, \<open>savedD\<close>), with the frame back on the stack.
\<close>

definition hand_over :: "string \<Rightarrow> nat option \<Rightarrow> nat \<Rightarrow> nat option \<Rightarrow> mstate \<Rightarrow> mstate" where
  "hand_over name saved savedD p s =
     (let s = s\<lparr>m_inflight := saved, m_unwindDepth := savedD\<rparr>;
          s = dropUnwound (m_consumed s) (dropUnwound p s)
      in push_tag name False (s\<lparr>m_consumed := None\<rparr>))"

fun drain :: "runner \<Rightarrow> hooks \<Rightarrow> nat \<Rightarrow> string \<Rightarrow> nat option \<Rightarrow> nat \<Rightarrow> deferred_call list \<Rightarrow> nat option \<Rightarrow>
    mstate \<Rightarrow> drain_result" where
  "drain ex hk n name saved savedD [] p s = Drained p s"
| "drain ex hk n name saved savedD (d # ds) p s =
     (if p \<noteq> None \<and> m_inflight s = None
      then map_drained framesPop
        (case runOneDefer ex hk n d None (hand_over name saved savedD p s) of
           Drained q t \<Rightarrow> drain ex hk n name saved savedD ds None t
         | r \<Rightarrow> r)
      else case runOneDefer ex hk n d p s of
          Drained q t \<Rightarrow> drain ex hk n name saved savedD ds p t
        | r \<Rightarrow> r)"

section \<open>Unwinding a frame\<close>

text \<open>After the drain: the panic to propagate, if any, and what the frame returns otherwise.\<close>

definition leftover :: "exc option \<Rightarrow> nat option \<Rightarrow> nat \<Rightarrow> nat option \<Rightarrow> mstate \<Rightarrow> nat option \<times> mstate" where
  "leftover r saved savedD p s =
     (if r \<noteq> None \<and> p \<noteq> None \<or> m_inflight s \<noteq> saved \<and> m_inflight s \<noteq> None
      then (m_inflight s, s\<lparr>m_inflight := saved, m_unwindDepth := savedD\<rparr>)
      else (p, s))"

definition bury :: "exc option \<Rightarrow> nat option \<Rightarrow> mstate \<Rightarrow> mstate" where
  "bury r p s =
     (if r \<noteq> None \<and> p = None
      then (let s = (case r of Some (EPanic sp) \<Rightarrow> dropUnwound (Some sp) s | _ \<Rightarrow> s)
            in (dropUnwound (m_consumed s) s)\<lparr>m_consumed := None\<rparr>)
      else s)"

definition settle :: "hooks \<Rightarrow> frame \<Rightarrow> exc option \<Rightarrow> nat option \<Rightarrow> mstate \<Rightarrow> result" where
  "settle hk f r p s =
     (case p of
        Some q \<Rightarrow> Raise (EPanic q) (failProc (EPanic q) s)
      | None \<Rightarrow>
          (case r of
             None \<Rightarrow> Ret (finalResult hk s f) s
           | Some (EPanic q) \<Rightarrow> Ret (finalResult hk s f) s
           | Some e \<Rightarrow> Raise e (failProc e s)))"

definition map_result :: "(mstate \<Rightarrow> mstate) \<Rightarrow> result \<Rightarrow> result" where
  "map_result g r =
     (case r of Ret x s \<Rightarrow> Ret x (g s) | Err m s \<Rightarrow> Err m (g s) | Raise e s \<Rightarrow> Raise e (g s) | r \<Rightarrow> r)"

definition is_exit :: "exc option \<Rightarrow> bool" where
  "is_exit r \<longleftrightarrow> (case r of Some (EExit c) \<Rightarrow> True | _ \<Rightarrow> False)"

definition panic_of :: "exc option \<Rightarrow> nat option" where
  "panic_of r = (case r of Some (EPanic p) \<Rightarrow> Some p | _ \<Rightarrow> None)"

text \<open>The state the deferred calls start in: a frame that ends normally stays on the stack.\<close>

definition unwind_enter :: "frame \<Rightarrow> exc option \<Rightarrow> mstate \<Rightarrow> mstate" where
  "unwind_enter f r s =
     (if r = None then push_tag (fr_name f) False s
      else s\<lparr>m_inflight := panic_of r, m_unwindDepth := length (m_frames s)\<rparr>)"

definition drain_all :: "runner \<Rightarrow> hooks \<Rightarrow> nat \<Rightarrow> frame \<Rightarrow> nat option \<Rightarrow> nat \<Rightarrow> exc option \<Rightarrow> mstate \<Rightarrow> drain_result"
where
  "drain_all ex hk n f saved savedD r s =
     (if is_exit r then Drained None s
      else map_drained (\<lambda>t. t\<lparr>m_draining := m_draining t - 1\<rparr>)
        (drain ex hk n (fr_name f) saved savedD (fr_defers f) (panic_of r) (s\<lparr>m_draining := m_draining s + 1\<rparr>)))"

definition unwind :: "runner \<Rightarrow> hooks \<Rightarrow> nat \<Rightarrow> frame \<Rightarrow> exc option \<Rightarrow> mstate \<Rightarrow> result" where
  "unwind ex hk n f r s =
     (let s0 = (case panic_of r of Some p \<Rightarrow> link_prev p s | None \<Rightarrow> s) in
      map_result (if r = None then framesPop else id)
        (case drain_all ex hk n f (m_inflight s0) (m_unwindDepth s0) r (unwind_enter f r s0) of
           Drained p t \<Rightarrow>
             (let (p', t') = leftover r (m_inflight s0) (m_unwindDepth s0) p t
              in settle hk f r p' (bury r p' t'))
         | DRaise e t \<Rightarrow> Raise e t
         | DUnmodelled \<Rightarrow> Unmodelled
         | DNoFuel \<Rightarrow> NoFuel))"

section \<open>Running a frame\<close>

text \<open>
  \<open>exec\<close>: the loop, then the unwind. What the loop raised is wrapped twice: once for the record of the
  unwound frame, once for the unwind.
\<close>

definition note_unwound :: "frame \<Rightarrow> exc \<Rightarrow> mstate \<Rightarrow> mstate" where
  "note_unwound f e s =
     (let (e', s') = asScriptPanic e s
      in case e' of EPanic p \<Rightarrow> s'\<lparr>m_unwinding := m_unwinding s' @ [(fr_name f, p)]\<rparr> | _ \<Rightarrow> s')"

definition exec :: "runner \<Rightarrow> hooks \<Rightarrow> nat \<Rightarrow> frame \<Rightarrow> mstate \<Rightarrow> result" where
  "exec ex hk n f s =
     (case loop ex hk n n f (push_tag (fr_name f) False s) of
        LDone f' t \<Rightarrow> unwind ex hk n f' None (framesPop t)
      | LRaise e f' t \<Rightarrow>
          (let (e', t') = asScriptPanic e (note_unwound f' e (framesPop t)) in unwind ex hk n f' (Some e') t')
      | LUnmodelled \<Rightarrow> Unmodelled
      | LNoFuel \<Rightarrow> NoFuel)"

primrec run :: "hooks \<Rightarrow> nat \<Rightarrow> runner" where
  "run hk 0 = (\<lambda>f s. NoFuel)"
| "run hk (Suc n) = exec (run hk n) hk n"

end
