(* ===== verification/Panics.thy ===== *)
theory Panics
  imports Unwind
begin

text \<open>
  What the calls of the virtual machine keep and how panics end: the balance of the frame stack and of the
  drain count on every outcome, the outcomes an unwind can have, recovery, the order of deferred calls, the
  bound on nested calls, and which frames record a fatal and end the process.
\<close>

section \<open>What every operation keeps\<close>

text \<open>Where \<open>failProc\<close> records: outside every frame and drain, in a goroutine of a process, not in a synchronous call.\<close>

definition at_root :: "mstate \<Rightarrow> bool" where
  "at_root s \<longleftrightarrow> m_frames s = [] \<and> m_draining s \<le> 0 \<and> m_hasProc s \<and> \<not> m_syncCall s"

definition kept :: "mstate \<Rightarrow> mstate \<Rightarrow> bool" where
  "kept s t \<longleftrightarrow>
     m_frames t = m_frames s \<and> m_draining t = m_draining s \<and> m_hasProc t = m_hasProc s \<and>
     m_syncCall t = m_syncCall s \<and> length (m_heap s) \<le> length (m_heap t) \<and>
     length (m_panics s) \<le> length (m_panics t) \<and> (m_done s \<longrightarrow> m_done t) \<and>
     (\<forall>e. m_fatal s = Some e \<longrightarrow> m_fatal t = Some e) \<and>
     (\<not> at_root s \<longrightarrow> m_done t = m_done s \<and> m_fatal t = m_fatal s)"

lemma kept_refl [simp, inv_intros]: "kept s s"
  by (simp add: kept_def)

lemma kept_trans: "kept s t \<Longrightarrow> kept t u \<Longrightarrow> kept s u"
  unfolding kept_def at_root_def by (metis (no_types, lifting) le_trans)

lemma kept_ops [simp, inv_intros]:
  "kept s (set_elem a x s)"
  "kept s (s\<lparr>m_heap := m_heap s @ cs\<rparr>)"
  "kept s (s\<lparr>m_panics := m_panics s @ ps\<rparr>)"
  "kept s (s\<lparr>m_panics := (m_panics s)[p := q]\<rparr>)"
  "kept s (s\<lparr>m_globals := g\<rparr>)"
  "kept s (s\<lparr>m_inflight := i\<rparr>)"
  "kept s (s\<lparr>m_unwindDepth := d\<rparr>)"
  "kept s (s\<lparr>m_consumed := c\<rparr>)"
  "kept s (s\<lparr>m_unwinding := u\<rparr>)"
  "kept s (s\<lparr>m_consumed := c, m_panics := (m_panics s)[p := q], m_inflight := i\<rparr>)"
  by (simp_all add: kept_def at_root_def set_elem_def)

lemma kept_raise_val: "raise_val x s = (e, t) \<Longrightarrow> kept s t"
  by (auto simp: raise_val_def new_panic_def Let_def)

lemma kept_asScriptPanic: "asScriptPanic e s = (e', t) \<Longrightarrow> kept s t"
  by (auto simp: asScriptPanic_def split: exc.splits intro: kept_raise_val)

lemma kept_Recover: "Recover hk s = (x, t) \<Longrightarrow> kept s t"
  by (auto simp: Recover_def split: option.splits if_splits)

lemma kept_failProc [simp]: "kept s (failProc e s)"
  by (auto simp: failProc_def kept_def at_root_def split: exc.split)

lemma kept_dropUnwound [simp]: "kept s (dropUnwound p s)"
  by (simp add: dropUnwound_def split: option.split)

lemma kept_link_prev [simp]: "kept s (link_prev p s)"
  by (simp add: link_prev_def Let_def)

lemma kept_new_cells: "new_cells xs s = (as, t) \<Longrightarrow> kept s t"
proof (induction xs arbitrary: s as)
  case Nil
  then show ?case by simp
next
  case (Cons x xs)
  from Cons.prems obtain a s1 as' where
    "new_cell \<lparr>c_Elem = x, c_Typ = None, c_ReadOnly = False\<rparr> s = (a, s1)" "new_cells xs s1 = (as', t)"
    by (auto simp: Let_def split: prod.splits)
  with Cons.IH have "kept s s1" "kept s1 t" by (auto simp: new_cell_def)
  then show ?case by (rule kept_trans)
qed

section \<open>Instructions\<close>

definition action_kept :: "mstate \<Rightarrow> action \<Rightarrow> bool" where
  "action_kept s a \<longleftrightarrow>
     (case a of Next t f \<Rightarrow> kept s t | Throw e t f \<Rightarrow> kept s t | Invoke c args t f \<Rightarrow> kept s t | Stuck \<Rightarrow> True)"

lemma action_kept_simps [simp]:
  "action_kept s (Next t f) = kept s t"
  "action_kept s (Throw e t f) = kept s t"
  "action_kept s (Invoke c args t f) = kept s t"
  "action_kept s Stuck"
  by (simp_all add: action_kept_def)

lemma action_kept_throw [simp]: "action_kept s (out_of_range s f)" "action_kept s (throw_failure e s f)"
  by (auto simp: out_of_range_def throw_failure_def split: failure.split prod.split intro: kept_raise_val)

lemma action_kept_with:
  "(\<And>x. action_kept s (k x)) \<Longrightarrow> action_kept s (with_at xs i s f k)"
  "(\<And>x f. action_kept s (h x f)) \<Longrightarrow> action_kept s (with_pop s f h)"
  "(\<And>xs f. action_kept s (g xs f)) \<Longrightarrow> action_kept s (with_popn n s f g)"
  "(\<And>x. action_kept s (b x)) \<Longrightarrow> action_kept s (bind_value hk ins y s f b)"
  "(\<And>name. action_kept s (w name)) \<Longrightarrow> action_kept s (with_name f i s w)"
  by (auto simp: with_at_def with_pop_def with_popn_def bind_value_def with_name_def
    split: option.split list.split sum.split val.split)

lemma action_kept_mono: "action_kept t a \<Longrightarrow> kept s t \<Longrightarrow> action_kept s a"
  by (cases a) (auto intro: kept_trans)

lemma action_kept_assign_cell:
  "(\<And>t. kept s t \<Longrightarrow> action_kept s (k t)) \<Longrightarrow> action_kept s (assign_cell hk a x s f k)"
  by (auto simp: assign_cell_def split: sum.split)

lemma action_kept_assign_refs: "action_kept s (assign_refs hk rs s f)"
proof (induction rs arbitrary: s)
  case Nil
  then show ?case by simp
next
  case (Cons r rs)
  obtain ref x where r: "r = (ref, x)" by (cases r)
  have "action_kept s (assign_refs hk rs t f)" if "kept s t" for t
    using action_kept_mono [OF Cons.IH that] .
  then show ?case using Cons.IH by (auto simp: r intro: action_kept_assign_cell split: val.split)
qed

lemma kept_store_results: "kept s (store_results slots xs f s)"
  by (induction slots xs f s rule: store_results.induct) (auto intro: kept_trans)

lemma kept_new_cell: "new_cell c s = (a, t) \<Longrightarrow> kept s t"
  by (auto simp: new_cell_def)

lemma kept_global: "kept s t \<Longrightarrow> kept s (t\<lparr>m_globals := g\<rparr>)"
  by (simp add: kept_def)

lemmas step_kept_rules = action_kept_with action_kept_assign_cell action_kept_assign_refs kept_store_results
  kept_new_cell kept_global

lemma step_stack_kept: "action_kept s (step_stack s f ins)"
  by (auto simp: step_stack_def intro!: step_kept_rules split: op.split list.split)

lemma step_local_kept: "action_kept s (step_local hk s f ins)"
  by (auto simp: step_local_def intro!: step_kept_rules split: op.split prod.split)

lemma step_global_kept: "action_kept s (step_global hk s f ins)"
  by (auto simp: step_global_def intro!: step_kept_rules split: op.split prod.split option.split val.split)

lemma step_refs_kept: "action_kept s (step_refs hk s f ins)"
  by (auto simp: step_refs_def set_refs_def do_box_def Let_def intro!: step_kept_rules split: op.split prod.split)

lemma step_call_kept: "action_kept s (step_call hk s f ins)"
  by (auto simp: step_call_def pop_args_def do_call_def do_defer_def do_pack_def do_unpack_def make_closure_def Let_def
      intro!: step_kept_rules split: op.split val.split option.split)

lemma step_flow_kept: "action_kept s (step_flow hk s f ins)"
  by (auto simp: step_flow_def intro!: step_kept_rules split: op.split sum.split)

lemma step_exit_kept: "action_kept s (step_exit s f ins)"
  by (auto simp: step_exit_def Let_def intro!: step_kept_rules kept_raise_val split: op.split prod.split)

lemma action_kept_or_else: "action_kept s a \<Longrightarrow> action_kept s b \<Longrightarrow> action_kept s (or_else a b)"
  by (cases a) (simp_all add: or_else_def)

lemma step_ins_kept: "action_kept s (step_ins hk s f ins)"
  unfolding step_ins_def
  by (intro action_kept_or_else step_stack_kept step_local_kept step_global_kept step_refs_kept
    step_call_kept step_flow_kept step_exit_kept)

section \<open>Calls, drains and unwinds\<close>

definition result_kept :: "mstate \<Rightarrow> result \<Rightarrow> bool" where
  "result_kept s r \<longleftrightarrow>
     (case r of Ret x t \<Rightarrow> kept s t | Err m t \<Rightarrow> kept s t | Raise e t \<Rightarrow> kept s t | _ \<Rightarrow> True)"

definition loop_kept :: "mstate \<Rightarrow> loop_result \<Rightarrow> bool" where
  "loop_kept s r \<longleftrightarrow> (case r of LDone f t \<Rightarrow> kept s t | LRaise e f t \<Rightarrow> kept s t | _ \<Rightarrow> True)"

definition drain_kept :: "mstate \<Rightarrow> drain_result \<Rightarrow> bool" where
  "drain_kept s r \<longleftrightarrow> (case r of Drained p t \<Rightarrow> kept s t | DRaise e t \<Rightarrow> kept s t | _ \<Rightarrow> True)"

lemma result_kept_simps [simp]:
  "result_kept s (Ret x t) = kept s t"
  "result_kept s (Err m t) = kept s t"
  "result_kept s (Raise e t) = kept s t"
  "result_kept s Unmodelled"
  "result_kept s NoFuel"
  "loop_kept s (LDone f t) = kept s t"
  "loop_kept s (LRaise e f t) = kept s t"
  "loop_kept s LUnmodelled"
  "loop_kept s LNoFuel"
  "drain_kept s (Drained p t) = kept s t"
  "drain_kept s (DRaise e t) = kept s t"
  "drain_kept s DUnmodelled"
  "drain_kept s DNoFuel"
  by (simp_all add: result_kept_def loop_kept_def drain_kept_def)

lemma result_kept_mono: "result_kept t r \<Longrightarrow> kept s t \<Longrightarrow> result_kept s r"
  by (cases r) (auto intro: kept_trans)

lemma loop_kept_mono: "loop_kept t r \<Longrightarrow> kept s t \<Longrightarrow> loop_kept s r"
  by (cases r) (auto intro: kept_trans)

lemma drain_kept_mono: "drain_kept t r \<Longrightarrow> kept s t \<Longrightarrow> drain_kept s r"
  by (cases r) (auto intro: kept_trans)

lemma raise_failure_kept: "result_kept s (raise_failure e s)"
  by (auto simp: raise_failure_def split: failure.split prod.split intro: kept_raise_val kept_asScriptPanic)

lemma callBuiltin_kept: "result_kept s (callBuiltin hk name args s)"
  by (auto simp: callBuiltin_def raise_failure_kept split: sum.split prod.split intro: kept_Recover)

lemma convert_arg_kept: "result_kept s (convert_arg hk t x s)"
  by (simp add: convert_arg_def split: sum.split)

lemma raise_val_kept: "result_kept s (let (e, s') = raise_val x s in Raise e s')"
  by (auto split: prod.split intro: kept_raise_val)

lemma prepFrame_kept: "prepFrame hk c args s = Frame f t \<Longrightarrow> kept s t"
  by (auto simp: prepFrame_def prep_fun_def Let_def intro: kept_new_cells split: val.splits if_splits prod.splits)

text \<open>What lies between a push and a pop.\<close>

lemma kept_framed:
  "kept (push_tag name b s) t \<Longrightarrow> kept s (framesPop t)"
  by (simp add: kept_def at_root_def push_tag_def framesPop_def)

text \<open>
  The contract of a runner: what running a frame keeps. The operations that call back into script code keep
  the same.
\<close>

locale frame_runner =
  fixes ex :: runner
  assumes ex_kept: "result_kept s (ex f s)"
begin

lemma call_prepared_kept: "result_kept s (call_prepared ex hk c args s)"
  unfolding call_prepared_def
  by (cases "prepFrame hk c args s")
    (auto intro: kept_raise_val result_kept_mono [OF ex_kept] prepFrame_kept split: prod.split)

lemma call_kept: "result_kept s (call ex hk n c args s)"
  by (auto simp: call_def callBuiltin_kept convert_arg_kept call_prepared_kept kept_raise_val
    split: option.split val.split list.split prod.split)

lemma loop_kept_run: "loop_kept s (loop ex hk k n f s)"
proof (induction n arbitrary: f s)
  case 0
  then show ?case by simp
next
  case (Suc n)
  let ?a = "step_ins hk s (f\<lparr>fr_ip := fr_ip f + 1\<rparr>) (ch_Code (fr_ch f) ! fr_ip f)"
  have a: "action_kept s ?a" by (rule step_ins_kept)
  show ?case
  proof (cases ?a)
    case (Invoke c args t g)
    with a have st: "kept s t" by simp
    have "result_kept s (call ex hk k c args t)"
      by (rule result_kept_mono [OF call_kept st])
    with Invoke show ?thesis
      by (auto split: result.split intro: loop_kept_mono [OF Suc.IH])
  qed (use a in \<open>auto intro: loop_kept_mono [OF Suc.IH]\<close>)
qed

lemma on_sentinel_kept:
  "(\<And>s. result_kept s (body s)) \<Longrightarrow> result_kept s (on_sentinel name body s)"
proof -
  assume "\<And>s. result_kept s (body s)"
  then have "result_kept (pushDeferredSentinel name s) (body (pushDeferredSentinel name s))" .
  then show ?thesis
    by (auto simp: on_sentinel_def pushDeferredSentinel_def split: result.split dest: kept_framed)
qed

lemma invokeDeferred_kept: "result_kept s (invokeDeferred ex hk n d s)"
proof -
  have "result_kept s (deferred_frame ex hk c (dc_args d) s)" for c
    using call_prepared_kept [of s hk c "dc_args d"] by (auto simp: deferred_frame_def split: result.split)
  then show ?thesis
    by (auto simp: invokeDeferred_def callBuiltin_kept convert_arg_kept kept_raise_val
      intro!: on_sentinel_kept split: option.split val.split prod.split)
qed

lemma runOneDefer_kept: "drain_kept s (runOneDefer ex hk n d p s)"
proof -
  have k: "result_kept s (invokeDeferred ex hk n d s)" by (rule invokeDeferred_kept)
  have "drain_kept s (let (e', t') = asScriptPanic e t in case e' of
      EPanic q \<Rightarrow> Drained p (t'\<lparr>m_inflight := Some q, m_unwindDepth := length (m_frames s)\<rparr>)
    | EProcExit \<Rightarrow> Drained p t' | _ \<Rightarrow> DRaise e' t')" if "kept s t" for e t
  proof -
    obtain e' t' where e': "asScriptPanic e t = (e', t')" by fastforce
    with that have "kept s t'" by (blast intro: kept_trans kept_asScriptPanic)
    then show ?thesis by (simp add: e' kept_def at_root_def split: exc.split)
  qed
  with k show ?thesis by (auto simp: runOneDefer_def split: result.split)
qed

lemma kept_hand_over:
  "kept (hand_over name saved savedD p s) t \<Longrightarrow> kept s (framesPop t)"
  by (simp add: kept_def at_root_def hand_over_def push_tag_def framesPop_def Let_def dropUnwound_def split: option.splits)

lemma drain_kept_run: "drain_kept s (drain ex hk n name saved savedD ds p s)"
proof (induction ds arbitrary: p s)
  case Nil
  then show ?case by simp
next
  case (Cons d ds)
  have step: "drain_kept u (case runOneDefer ex hk n d q u of
      Drained q' t \<Rightarrow> drain ex hk n name saved savedD ds q t | r \<Rightarrow> r)" for q u
    using runOneDefer_kept [of u hk n d q] Cons.IH [of _ q]
    by (cases "runOneDefer ex hk n d q u") (auto intro: drain_kept_mono)
  have "drain_kept s (map_drained framesPop (case runOneDefer ex hk n d None (hand_over name saved savedD p s) of
      Drained q t \<Rightarrow> drain ex hk n name saved savedD ds None t | r \<Rightarrow> r))"
    using step [of "hand_over name saved savedD p s" None]
    by (cases "case runOneDefer ex hk n d None (hand_over name saved savedD p s) of
      Drained q t \<Rightarrow> drain ex hk n name saved savedD ds None t | r \<Rightarrow> r")
      (auto simp: map_drained_def intro: kept_hand_over)
  with step [of s p] show ?case by simp
qed

lemma drain_all_kept: "drain_kept s (drain_all ex hk n f saved savedD r s)"
proof -
  have "drain_kept s (map_drained (\<lambda>t. t\<lparr>m_draining := m_draining t - 1\<rparr>) q)"
    if "drain_kept (s\<lparr>m_draining := m_draining s + 1\<rparr>) q" for q
    using that by (cases q) (simp_all add: map_drained_def kept_def at_root_def)
  then show ?thesis using drain_kept_run by (simp add: drain_all_def)
qed

end

lemma leftover_kept: "leftover r saved savedD p s = (p', t) \<Longrightarrow> kept s t"
  by (auto simp: leftover_def kept_def at_root_def split: if_splits)

lemma bury_kept: "kept s (bury r p s)"
  by (auto simp: bury_def kept_def at_root_def dropUnwound_def Let_def split: option.split exc.split)

lemma settle_kept: "result_kept s (settle hk f r p s)"
  by (simp add: settle_def split: option.split exc.split)

lemma unwind_enter_kept: "r \<noteq> None \<Longrightarrow> kept s (unwind_enter f r s)"
  by (auto simp: unwind_enter_def kept_def at_root_def)

lemma map_result_framed:
  assumes "result_kept (push_tag name b s) r"
  shows "result_kept s (map_result framesPop r)"
  using assms by (cases r) (auto simp: map_result_def dest: kept_framed)

lemma note_unwound_kept: "kept s (note_unwound f e s)"
proof -
  obtain e' s' where e': "asScriptPanic e s = (e', s')" by fastforce
  then have "kept s s'" by (rule kept_asScriptPanic)
  then show ?thesis by (simp add: note_unwound_def e' kept_def at_root_def split: exc.split)
qed

context frame_runner
begin

lemma unwind_kept: "result_kept s (unwind ex hk n f r s)"
proof -
  define s0 where "s0 = (case panic_of r of Some p \<Rightarrow> link_prev p s | None \<Rightarrow> s)"
  have s0: "kept s s0" by (simp add: s0_def split: option.split)
  let ?d = "drain_all ex hk n f (m_inflight s0) (m_unwindDepth s0) r (unwind_enter f r s0)"
  let ?rest = "case ?d of
      Drained p t \<Rightarrow> (let (p', t') = leftover r (m_inflight s0) (m_unwindDepth s0) p t
        in settle hk f r p' (bury r p' t'))
    | DRaise e t \<Rightarrow> Raise e t | DUnmodelled \<Rightarrow> Unmodelled | DNoFuel \<Rightarrow> NoFuel"
  have tail: "result_kept t (let (p', t') = leftover r (m_inflight s0) (m_unwindDepth s0) p t
      in settle hk f r p' (bury r p' t'))" for p t
  proof -
    obtain p' t' where l: "leftover r (m_inflight s0) (m_unwindDepth s0) p t = (p', t')" by fastforce
    have "kept t (bury r p' t')" by (rule kept_trans [OF leftover_kept [OF l] bury_kept])
    then show ?thesis by (simp add: l result_kept_mono [OF settle_kept])
  qed
  have d: "drain_kept (unwind_enter f r s0) ?d" by (rule drain_all_kept)
  have rest: "result_kept (unwind_enter f r s0) ?rest"
    using d tail by (cases ?d) (auto intro: result_kept_mono)
  have "result_kept s0 (map_result (if r = None then framesPop else id) ?rest)"
  proof (cases "r = None")
    case True
    then show ?thesis using rest by (auto simp: unwind_enter_def intro: map_result_framed)
  next
    case False
    moreover have "result_kept s0 ?rest"
      by (rule result_kept_mono [OF rest unwind_enter_kept [OF False]])
    ultimately show ?thesis by (cases ?rest) (auto simp: map_result_def)
  qed
  then have "result_kept s (map_result (if r = None then framesPop else id) ?rest)"
    using s0 by (rule result_kept_mono)
  then show ?thesis by (simp only: unwind_def s0_def Let_def)
qed

lemma exec_kept: "result_kept s (exec ex hk n f s)"
proof (cases "loop ex hk n n f (push_tag (fr_name f) False s)")
  case (LDone g t)
  with loop_kept_run [of "push_tag (fr_name f) False s" hk n n f] have "kept s (framesPop t)"
    by (auto dest: kept_framed)
  then show ?thesis by (simp add: exec_def LDone result_kept_mono [OF unwind_kept])
next
  case (LRaise e g t)
  with loop_kept_run [of "push_tag (fr_name f) False s" hk n n f] have t: "kept s (framesPop t)"
    by (auto dest: kept_framed)
  obtain e' t' where e': "asScriptPanic e (note_unwound g e (framesPop t)) = (e', t')" by fastforce
  have "kept s t'"
    using t note_unwound_kept kept_asScriptPanic [OF e'] by (blast intro: kept_trans)
  then show ?thesis by (simp add: exec_def LRaise e' result_kept_mono [OF unwind_kept])
qed (simp_all add: exec_def)

end

lemma frame_runner_run: "frame_runner (run hk n)"
proof (induction n)
  case 0
  show ?case by unfold_locales simp
next
  case (Suc n)
  show ?case by unfold_locales (simp add: frame_runner.exec_kept [OF Suc])
qed

interpretation machine: frame_runner "run hk n" for hk n
  by (rule frame_runner_run)

section \<open>More fuel\<close>

text \<open>A runner that gives the result of another wherever that one has fuel enough.\<close>

locale more_fuel =
  fixes ex ex' :: runner and n n' :: nat
  assumes ex_le: "ex f s \<noteq> NoFuel \<Longrightarrow> ex' f s = ex f s" and fuel_le: "n \<le> n'"

lemma callee_of_more: "callee_of n s c = Some d \<Longrightarrow> n \<le> n' \<Longrightarrow> callee_of n' s c = Some d"
proof (induction n s c arbitrary: n' rule: callee_of.induct)
  case (2 n s a)
  then show ?case by (cases n') auto
qed auto

context more_fuel
begin

lemma call_prepared_more:
  "call_prepared ex hk c args s \<noteq> NoFuel \<Longrightarrow> call_prepared ex' hk c args s = call_prepared ex hk c args s"
  by (auto simp: call_prepared_def ex_le split: prep.splits prod.splits)

lemma call_more: "call ex hk n c args s \<noteq> NoFuel \<Longrightarrow> call ex' hk n' c args s = call ex hk n c args s"
proof (cases "callee_of n s c")
  case (Some d)
  then have "callee_of n' s c = Some d" using fuel_le by (rule callee_of_more)
  moreover assume "call ex hk n c args s \<noteq> NoFuel"
  ultimately show ?thesis using Some call_prepared_more [of hk d args s]
    by (cases d) (auto simp: call_def is_nil_callee_def)
qed (auto simp: call_def)

lemma loop_more:
  "loop ex hk n k f s \<noteq> LNoFuel \<Longrightarrow> k \<le> k' \<Longrightarrow> loop ex' hk n' k' f s = loop ex hk n k f s"
proof (induction k arbitrary: k' f s)
  case 0
  then show ?case by simp
next
  case (Suc k)
  then obtain j where j: "k' = Suc j" "k \<le> j" by (cases k') auto
  show ?case
  proof (cases "in_bounds f")
    case True
    show ?thesis
    proof (cases "step_ins hk s (f\<lparr>fr_ip := fr_ip f + 1\<rparr>) (ch_Code (fr_ch f) ! fr_ip f)")
      case (Next t g)
      then show ?thesis using Suc j True by simp
    next
      case (Invoke c args t g)
      with Suc.prems(1) True have ne: "call ex hk n c args t \<noteq> NoFuel" by auto
      note call_more [OF this]
      with Suc.prems(1) Suc.IH [OF _ j(2)] Invoke True j(1) show ?thesis
        by (cases "call ex hk n c args t") simp_all
    qed (simp_all add: j True)
  next
    case False
    then show ?thesis by (simp add: j)
  qed
qed

lemma deferred_frame_more:
  "deferred_frame ex hk c args s \<noteq> NoFuel \<Longrightarrow> deferred_frame ex' hk c args s = deferred_frame ex hk c args s"
  using call_prepared_more [of hk c args s]
  by (cases "call_prepared ex hk c args s") (auto simp: deferred_frame_def)

lemma invokeDeferred_more:
  "invokeDeferred ex hk n d s \<noteq> NoFuel \<Longrightarrow> invokeDeferred ex' hk n' d s = invokeDeferred ex hk n d s"
proof (cases "callee_of n s (dc_fn d)")
  case (Some c)
  then have "callee_of n' s (dc_fn d) = Some c" using fuel_le by (rule callee_of_more)
  moreover assume "invokeDeferred ex hk n d s \<noteq> NoFuel"
  ultimately show ?thesis using Some deferred_frame_more [of hk c "dc_args d" s]
    by (cases c) (auto simp: invokeDeferred_def is_nil_deferred_def split: if_splits)
qed (simp add: invokeDeferred_def)

lemma runOneDefer_more:
  "runOneDefer ex hk n d p s \<noteq> DNoFuel \<Longrightarrow> runOneDefer ex' hk n' d p s = runOneDefer ex hk n d p s"
  using invokeDeferred_more [of hk d s] by (cases "invokeDeferred ex hk n d s") (auto simp: runOneDefer_def)

lemma map_drained_fuel [simp]: "map_drained g r = DNoFuel \<longleftrightarrow> r = DNoFuel"
  by (cases r) (simp_all add: map_drained_def)

lemma drain_more:
  "drain ex hk n name saved savedD ds p s \<noteq> DNoFuel \<Longrightarrow>
   drain ex' hk n' name saved savedD ds p s = drain ex hk n name saved savedD ds p s"
proof (induction ds arbitrary: p s)
  case Nil
  then show ?case by simp
next
  case (Cons d ds)
  have step: "(case runOneDefer ex' hk n' d q u of
        Drained q' t \<Rightarrow> drain ex' hk n' name saved savedD ds q t | r \<Rightarrow> r) =
      (case runOneDefer ex hk n d q u of
        Drained q' t \<Rightarrow> drain ex hk n name saved savedD ds q t | r \<Rightarrow> r)"
    if "(case runOneDefer ex hk n d q u of
        Drained q' t \<Rightarrow> drain ex hk n name saved savedD ds q t | r \<Rightarrow> r) \<noteq> DNoFuel" for q u
    using that runOneDefer_more [of hk d q u] Cons.IH
    by (cases "runOneDefer ex hk n d q u") auto
  from Cons.prems show ?case
    using step [of None "hand_over name saved savedD p s"] step [of p s]
    by (cases "p \<noteq> None \<and> m_inflight s = None") (simp_all only: drain.simps map_drained_fuel if_True if_False simp_thms)
qed

lemma unwind_more: "unwind ex hk n f r s \<noteq> NoFuel \<Longrightarrow> unwind ex' hk n' f r s = unwind ex hk n f r s"
proof -
  define s0 where "s0 = (case panic_of r of Some p \<Rightarrow> link_prev p s | None \<Rightarrow> s)"
  let ?d = "\<lambda>ex n. drain_all ex hk n f (m_inflight s0) (m_unwindDepth s0) r (unwind_enter f r s0)"
  assume "unwind ex hk n f r s \<noteq> NoFuel"
  then have "?d ex n \<noteq> DNoFuel" by (auto simp: unwind_def s0_def Let_def map_result_def)
  then have "?d ex' n' = ?d ex n" using drain_more by (auto simp: drain_all_def)
  then show ?thesis by (simp add: unwind_def s0_def Let_def)
qed

lemma exec_more: "exec ex hk n f s \<noteq> NoFuel \<Longrightarrow> exec ex' hk n' f s = exec ex hk n f s"
proof -
  assume *: "exec ex hk n f s \<noteq> NoFuel"
  let ?s = "push_tag (fr_name f) False s"
  from * have "loop ex hk n n f ?s \<noteq> LNoFuel" by (auto simp: exec_def)
  from loop_more [OF this fuel_le] have l: "loop ex' hk n' n' f ?s = loop ex hk n n f ?s" .
  show ?thesis
    using * unwind_more by (cases "loop ex hk n n f ?s") (auto simp: exec_def l split: prod.split)
qed

end

lemma run_Suc: "run hk n f s \<noteq> NoFuel \<Longrightarrow> run hk (Suc n) f s = run hk n f s"
proof (induction n arbitrary: f s)
  case 0
  then show ?case by simp
next
  case (Suc n)
  have "more_fuel (run hk n) (run hk (Suc n)) n (Suc n)"
    by unfold_locales (use Suc.IH in auto)
  from more_fuel.exec_more [OF this] Suc.prems show ?case by simp
qed

lemma run_le: "run hk n f s \<noteq> NoFuel \<Longrightarrow> n \<le> n' \<Longrightarrow> run hk n' f s = run hk n f s"
proof (induction n')
  case 0
  then show ?case by simp
next
  case (Suc m)
  show ?case
  proof (cases "n = Suc m")
    case False
    with Suc have "run hk m f s = run hk n f s" by simp
    with Suc.prems(1) run_Suc [of hk m f s] show ?thesis by simp
  qed simp
qed

interpretation fuel: more_fuel "run hk n" "run hk (n + k)" n "n + k" for hk n k
  by unfold_locales (blast intro: run_le le_add1, rule le_add1)

section \<open>The outcome of an unwind\<close>

lemma map_result_id [simp]: "map_result id r = r"
  by (cases r) (simp_all add: map_result_def)

lemma map_result_simps [simp]:
  "map_result g (Ret x s) = Ret x (g s)"
  "map_result g (Raise e s) = Raise e (g s)"
  by (simp_all add: map_result_def)

lemma unwind_unrecoverable:
  assumes "\<forall>p. e \<noteq> EPanic p"
  shows "unwind ex hk n f (Some e) s \<noteq> Ret x t"
proof -
  have p: "panic_of (Some e) = None" using assms by (cases e) (simp_all add: panic_of_def)
  have "settle hk f (Some e) q u \<noteq> Ret x t" for q u
    using assms by (cases e) (simp_all add: settle_def split: option.split)
  then show ?thesis by (auto simp: unwind_def p split: drain_result.split prod.split)
qed

lemma unwind_exit:
  "unwind ex hk n f (Some (EExit c)) s =
   (let t = bury (Some (EExit c)) None (s\<lparr>m_inflight := None, m_unwindDepth := length (m_frames s)\<rparr>)
    in Raise (EExit c) t)"
  by (simp add: unwind_def panic_of_def drain_all_def is_exit_def leftover_def unwind_enter_def settle_def
    failProc_def Let_def)

text \<open>Deferred calls keep the panic bookkeeping of the drain in step with the panic in flight.\<close>

lemma drained_panic:
  "drain ex hk n name saved savedD ds p s = Drained q t \<Longrightarrow> q = p \<or> q = None"
proof (induction ds arbitrary: p s t)
  case Nil
  then show ?case by simp
next
  case (Cons d ds)
  show ?case
  proof (cases "p \<noteq> None \<and> m_inflight s = None")
    case True
    with Cons.prems show ?thesis
      by (auto simp: map_drained_def split: drain_result.splits dest!: Cons.IH)
  next
    case False
    with Cons.prems obtain q' u where "drain ex hk n name saved savedD ds p u = Drained q t"
      by (auto split: drain_result.splits if_splits)
    then show ?thesis by (rule Cons.IH)
  qed
qed

lemma drain_all_panic:
  "drain_all ex hk n f saved savedD r s = Drained q t \<Longrightarrow> q = panic_of r \<or> q = None"
  by (auto simp: drain_all_def map_drained_def split: if_splits drain_result.splits dest: drained_panic)

lemma settle_outcome:
  assumes "r = None \<or> (\<exists>p. r = Some (EPanic p))"
  shows "settle hk f r p s =
    (case p of Some q \<Rightarrow> Raise (EPanic q) (failProc (EPanic q) s) | None \<Rightarrow> Ret (finalResult hk s f) s)"
  using assms by (auto simp: settle_def split: option.split)

lemma leftover_unsaved:
  assumes "q = panic_of r \<or> q = None" "r = None \<or> (\<exists>p. r = Some (EPanic p))"
  shows "fst (leftover r None d q t) = m_inflight t"
  using assms by (auto simp: leftover_def panic_of_def)

lemma m_inflight_link_prev [simp]: "m_inflight (link_prev p s) = m_inflight s"
  "m_unwindDepth (link_prev p s) = m_unwindDepth s"
  by (simp_all add: link_prev_def Let_def)

lemma cell_at_framesPop: "cell_at (framesPop s) a = cell_at s a"
  by (simp add: cell_at_def framesPop_def)

lemma unwind_drained:
  assumes "m_inflight s = None" "r = None \<or> (\<exists>p. r = Some (EPanic p))"
    and "s0 = (case panic_of r of Some p \<Rightarrow> link_prev p s | None \<Rightarrow> s)"
    and "drain_all ex hk n f None (m_unwindDepth s) r (unwind_enter f r s0) = Drained q t"
  shows "(case m_inflight t of
      Some p \<Rightarrow> \<exists>u. unwind ex hk n f r s = Raise (EPanic p) u
    | None \<Rightarrow> \<exists>u. unwind ex hk n f r s = Ret (finalResult hk u f) u)"
proof -
  have s0: "m_inflight s0 = None" "m_unwindDepth s0 = m_unwindDepth s"
    using assms(1) by (simp_all add: assms(3) split: option.split)
  obtain p' t' where l: "leftover r None (m_unwindDepth s) q t = (p', t')" by fastforce
  have "q = panic_of r \<or> q = None" using assms(4) by (rule drain_all_panic)
  from leftover_unsaved [OF this assms(2), of "m_unwindDepth s" t] l have p': "p' = m_inflight t" by simp
  let ?g = "if r = None then framesPop else id"
  have u: "unwind ex hk n f r s = map_result ?g (settle hk f r p' (bury r p' t'))"
    using assms(4) s0 by (simp add: unwind_def assms(3) [symmetric] l)
  have fin: "finalResult hk (framesPop v) f = finalResult hk v f" for v
    by (simp add: finalResult_def cell_at_framesPop)
  show ?thesis
    using u p' fin by (cases "m_inflight t") (auto simp: settle_outcome [OF assms(2)])
qed

section \<open>The root frame\<close>

lemma runOneDefer_no_panic: "runOneDefer ex hk n d p s \<noteq> DRaise (EPanic q) t"
proof
  assume *: "runOneDefer ex hk n d p s = DRaise (EPanic q) t"
  then obtain e u where e: "invokeDeferred ex hk n d s = Raise e u"
    by (auto simp: runOneDefer_def split: result.splits)
  obtain e' u' where "asScriptPanic e u = (e', u')" by fastforce
  with * e show False by (cases e') (simp_all add: runOneDefer_def)
qed

lemma drain_no_panic: "drain ex hk n name saved savedD ds p s \<noteq> DRaise (EPanic q) t"
proof (induction ds arbitrary: p s t)
  case Nil
  then show ?case by simp
next
  case (Cons d ds)
  have "(case runOneDefer ex hk n d p' s' of
      Drained q' t \<Rightarrow> drain ex hk n name saved savedD ds p' t | r \<Rightarrow> r) \<noteq> DRaise (EPanic q) u" for p' s' u
    using Cons.IH runOneDefer_no_panic by (auto split: drain_result.split)
  moreover have "map_drained g r \<noteq> DRaise (EPanic q) u" if "\<And>u. r \<noteq> DRaise (EPanic q) u" for g r u
    using that by (cases r) (auto simp: map_drained_def)
  ultimately show ?case by simp
qed

lemma drain_all_no_panic: "drain_all ex hk n f saved savedD r s \<noteq> DRaise (EPanic q) t"
  using drain_no_panic by (auto simp: drain_all_def map_drained_def split: drain_result.split)

lemma failProc_root:
  "m_frames s = [] \<Longrightarrow> m_draining s = 0 \<Longrightarrow> m_hasProc s \<Longrightarrow> \<not> m_syncCall s \<Longrightarrow>
   m_done (failProc (EPanic p) s) \<and> m_fatal (failProc (EPanic p) s) \<noteq> None"
  by (simp add: failProc_def)

lemma settle_panic:
  "settle hk f r p s = Raise (EPanic q) u \<Longrightarrow> p = Some q \<and> u = failProc (EPanic q) s"
  by (auto simp: settle_def split: option.splits exc.splits)

context frame_runner
begin

lemma unwind_root_panic:
  assumes "unwind ex hk n f (Some e) s = Raise (EPanic p) u"
    and "m_frames s = []" "m_draining s = 0" "m_hasProc s" "\<not> m_syncCall s"
  shows "m_done u \<and> m_fatal u \<noteq> None"
proof -
  define s0 where "s0 = (case panic_of (Some e) of Some p \<Rightarrow> link_prev p s | None \<Rightarrow> s)"
  let ?d = "drain_all ex hk n f (m_inflight s0) (m_unwindDepth s0) (Some e) (unwind_enter f (Some e) s0)"
  have s0: "kept s s0" by (simp add: s0_def split: option.split)
  obtain q t where d: "?d = Drained q t"
    using assms(1) drain_all_no_panic by (cases ?d) (auto simp: unwind_def s0_def)
  obtain p' t' where l: "leftover (Some e) (m_inflight s0) (m_unwindDepth s0) q t = (p', t')" by fastforce
  have "settle hk f (Some e) p' (bury (Some e) p' t') = Raise (EPanic p) u"
    using assms(1) d l by (simp add: unwind_def s0_def)
  then have u: "u = failProc (EPanic p) (bury (Some e) p' t')" by (auto dest: settle_panic)
  have "kept (unwind_enter f (Some e) s0) t"
    using drain_all_kept [of "unwind_enter f (Some e) s0" hk n f "m_inflight s0" "m_unwindDepth s0" "Some e"] d
    by simp
  with s0 have "kept s t" using unwind_enter_kept [of "Some e" s0 f] by (blast intro: kept_trans)
  then have "kept s (bury (Some e) p' t')"
    using leftover_kept [OF l] bury_kept [of t' "Some e" p'] by (blast intro: kept_trans)
  with assms(2-5) show ?thesis unfolding u by (intro failProc_root) (simp_all add: kept_def)
qed

text \<open>What a frame that runs at the root records: nothing while it is on the stack or drains, else its own failure.\<close>

lemma kept_spared: "kept s t \<Longrightarrow> \<not> at_root s \<Longrightarrow> m_done t = m_done s \<and> m_fatal t = m_fatal s"
  by (simp add: kept_def)

definition recorded :: "mstate \<Rightarrow> result \<Rightarrow> bool" where
  "recorded s r \<longleftrightarrow>
     (case r of
        Ret x u \<Rightarrow> m_done u = m_done s \<and> m_fatal u = m_fatal s
      | Err m u \<Rightarrow> m_done u = m_done s \<and> m_fatal u = m_fatal s
      | Raise e u \<Rightarrow> m_done u = m_done s \<and> m_fatal u = m_fatal s \<or>
          ((\<exists>p. e = EPanic p) \<or> (\<exists>msg. e = ETrap msg)) \<and> m_draining s = 0 \<and>
          m_fatal u = (case m_fatal s of None \<Rightarrow> Some e | Some e' \<Rightarrow> Some e')
      | _ \<Rightarrow> True)"

lemma recorded_cong:
  "m_done s = m_done t \<Longrightarrow> m_fatal s = m_fatal t \<Longrightarrow> m_draining s = m_draining t \<Longrightarrow> recorded s r = recorded t r"
  by (cases r) (simp_all add: recorded_def)

lemma settle_recorded: "recorded s (settle hk f r p s)"
  by (auto simp: recorded_def settle_def failProc_def split: option.split exc.split)

lemma drain_all_spared:
  assumes "m_frames s \<noteq> [] \<or> 0 \<le> m_draining s"
  shows "drain_all ex hk n f saved savedD r s = Drained q t \<Longrightarrow> m_done t = m_done s \<and> m_fatal t = m_fatal s"
    and "drain_all ex hk n f saved savedD r s = DRaise e t \<Longrightarrow> m_done t = m_done s \<and> m_fatal t = m_fatal s"
proof -
  let ?s = "s\<lparr>m_draining := m_draining s + 1\<rparr>"
  let ?d = "drain ex hk n (fr_name f) saved savedD (fr_defers f) (panic_of r) ?s"
  have k: "drain_kept ?s ?d" by (rule drain_kept_run)
  have root: "\<not> at_root ?s" using assms by (auto simp: at_root_def)
  show "drain_all ex hk n f saved savedD r s = Drained q t \<Longrightarrow> m_done t = m_done s \<and> m_fatal t = m_fatal s"
    using k kept_spared [OF _ root]
    by (cases ?d) (auto simp: drain_all_def map_drained_def split: if_splits)
  show "drain_all ex hk n f saved savedD r s = DRaise e t \<Longrightarrow> m_done t = m_done s \<and> m_fatal t = m_fatal s"
    using k kept_spared [OF _ root]
    by (cases ?d) (auto simp: drain_all_def map_drained_def split: if_splits)
qed

lemma unwind_spared:
  assumes "unwind ex hk n f None s = r"
  shows "recorded s r \<and> (\<forall>e u. r = Raise e u \<longrightarrow> m_done u = m_done s \<and> m_fatal u = m_fatal s)"
proof -
  let ?s = "unwind_enter f None s"
  have root: "m_frames ?s \<noteq> []" by (simp add: unwind_enter_def push_tag_def)
  have s: "m_done ?s = m_done s" "m_fatal ?s = m_fatal s" by (simp_all add: unwind_enter_def push_tag_def)
  let ?d = "drain_all ex hk n f (m_inflight s) (m_unwindDepth s) None ?s"
  have k: "drain_kept ?s ?d" by (rule drain_all_kept)
  have tail: "result_kept ?s (settle hk f None p' (bury None p' t'))"
    if "kept ?s t" "leftover None (m_inflight s) (m_unwindDepth s) q t = (p', t')" for q t p' t'
    using that by (blast intro: result_kept_mono settle_kept bury_kept leftover_kept kept_trans)
  let ?r = "case ?d of
      Drained q t \<Rightarrow> (let (p', t') = leftover None (m_inflight s) (m_unwindDepth s) q t
        in settle hk f None p' (bury None p' t'))
    | DRaise e t \<Rightarrow> Raise e t | DUnmodelled \<Rightarrow> Unmodelled | DNoFuel \<Rightarrow> NoFuel"
  have "result_kept ?s ?r" using k tail by (cases ?d) (auto split: prod.split)
  moreover have "r = map_result framesPop ?r" using assms by (simp add: unwind_def panic_of_def)
  ultimately show ?thesis
    using root s by (cases ?r) (auto simp: recorded_def map_result_def framesPop_def at_root_def dest!: kept_spared)
qed

lemma unwind_recorded:
  assumes "0 \<le> m_draining s"
  shows "recorded s (unwind ex hk n f (Some e) s)"
proof -
  define s0 where "s0 = (case panic_of (Some e) of Some p \<Rightarrow> link_prev p s | None \<Rightarrow> s)"
  let ?s = "unwind_enter f (Some e) s0"
  have s: "m_done ?s = m_done s" "m_fatal ?s = m_fatal s" "m_draining ?s = m_draining s"
    by (simp_all add: unwind_enter_def s0_def link_prev_def Let_def split: option.split)
  let ?d = "drain_all ex hk n f (m_inflight s0) (m_unwindDepth s0) (Some e) ?s"
  have k: "drain_kept ?s ?d" by (rule drain_all_kept)
  show ?thesis
  proof (cases ?d)
    case (Drained q t)
    obtain p' t' where l: "leftover (Some e) (m_inflight s0) (m_unwindDepth s0) q t = (p', t')" by fastforce
    have t: "m_done t = m_done s" "m_fatal t = m_fatal s" "m_draining t = m_draining s"
      using drain_all_spared(1) [OF _ Drained] k assms s by (simp_all add: Drained kept_def)
    moreover have "m_done (bury (Some e) p' t') = m_done t" "m_fatal (bury (Some e) p' t') = m_fatal t"
      "m_draining (bury (Some e) p' t') = m_draining t"
      using l by (auto simp: bury_def leftover_def dropUnwound_def Let_def split: option.split exc.split if_splits)
    ultimately have "recorded s (settle hk f (Some e) p' (bury (Some e) p' t'))"
      by (simp add: recorded_cong [of s "bury (Some e) p' t'"] settle_recorded)
    then show ?thesis by (simp add: unwind_def s0_def [symmetric] Drained l map_result_def recorded_def split: result.splits)
  next
    case (DRaise d t)
    then show ?thesis
      using drain_all_spared(2) [OF _ DRaise] assms s by (simp add: unwind_def s0_def [symmetric] map_result_def recorded_def)
  qed (simp_all add: unwind_def s0_def [symmetric] map_result_def recorded_def)
qed

text \<open>So a frame that changed the process's end was a root frame whose body raised, and raises what it recorded.\<close>

lemma exec_recorded:
  assumes "exec ex hk n f s = Ret x u \<or> exec ex hk n f s = Raise e u"
    and "m_done u \<noteq> m_done s \<or> m_fatal u \<noteq> m_fatal s" and "0 \<le> m_draining s"
  shows "at_root s \<and> m_draining s = 0 \<and> exec ex hk n f s = Raise e u \<and> ((\<exists>p. e = EPanic p) \<or> (\<exists>msg. e = ETrap msg)) \<and>
    m_fatal u = (case m_fatal s of None \<Rightarrow> Some e | Some e' \<Rightarrow> Some e') \<and>
    (\<exists>e' g t. loop ex hk n n f (push_tag (fr_name f) False s) = LRaise e' g t)"
proof -
  let ?l = "loop ex hk n n f (push_tag (fr_name f) False s)"
  have root: "at_root s"
    using exec_kept [of s hk n f] assms(1,2) kept_spared [of s u] by (cases "at_root s") auto
  have framed: "m_done (framesPop t) = m_done s \<and> m_fatal (framesPop t) = m_fatal s \<and> kept s (framesPop t)"
    if "kept (push_tag (fr_name f) False s) t" for t
    using kept_spared [OF that] kept_framed [OF that] by (simp add: at_root_def push_tag_def framesPop_def)
  have k: "loop_kept (push_tag (fr_name f) False s) ?l" by (rule loop_kept_run)
  show ?thesis
  proof (cases ?l)
    case (LDone g t)
    have "m_done (framesPop t) = m_done s" "m_fatal (framesPop t) = m_fatal s"
      using k framed [of t] by (simp_all add: LDone)
    then have False
      using unwind_spared [of hk n g "framesPop t"] assms(1,2) by (auto simp: exec_def LDone recorded_def)
    then show ?thesis ..
  next
    case (LRaise d g t)
    obtain d' t' where d': "asScriptPanic d (note_unwound g d (framesPop t)) = (d', t')" by fastforce
    have f: "m_done (framesPop t) = m_done s" "m_fatal (framesPop t) = m_fatal s" "kept s (framesPop t)"
      using k framed [of t] by (simp_all add: LRaise)
    have u: "exec ex hk n f s = unwind ex hk n g (Some d') t'" by (simp add: exec_def LRaise d')
    have n: "m_done (snd (asScriptPanic c v)) = m_done v" "m_fatal (snd (asScriptPanic c v)) = m_fatal v" for c v
      by (simp_all add: asScriptPanic_def raise_val_def new_panic_def Let_def split: exc.split)
    have w: "m_done (note_unwound g d v) = m_done v" "m_fatal (note_unwound g d v) = m_fatal v" for v
      using n [of d v] by (cases "asScriptPanic d v"; simp add: note_unwound_def split: exc.split)+
    have t': "m_done t' = m_done s" "m_fatal t' = m_fatal s"
      using n [of d "note_unwound g d (framesPop t)"] by (simp_all add: d' w f)
    have "m_draining t' = m_draining s"
      using kept_trans [OF f(3) kept_trans [OF note_unwound_kept kept_asScriptPanic [OF d']]] by (simp add: kept_def)
    moreover have "recorded t' (unwind ex hk n g (Some d') t')"
      using assms(3) calculation by (intro unwind_recorded) simp
    ultimately show ?thesis using root assms(1,2) t' LRaise unfolding u by (auto simp: recorded_def)
  qed (use assms(1) in \<open>simp_all add: exec_def\<close>)
qed

end

end
