(* ===== verification/Recovery.thy ===== *)
theory Recovery
  imports Panics
begin

text \<open>
  The properties of calls and panics, and small programs that show them on concrete code.
\<close>

section \<open>Programs\<close>

definition ins :: "op \<Rightarrow> int \<Rightarrow> instruction" where
  "ins p a = \<lparr>i_Op = p, i_A = a, i_B = 0, i_C = -1, i_Pos = 0\<rparr>"

definition chunk_of :: "instruction list \<Rightarrow> val list \<Rightarrow> nat \<Rightarrow> nat \<Rightarrow> nat list \<Rightarrow> upval_desc list \<Rightarrow> val chunk" where
  "chunk_of code consts nlocals nresults named ups =
     \<lparr>ch_Name = [], ch_Code = code, ch_Consts = consts, ch_NLocals = nlocals, ch_NParams = 0,
      ch_NResults = nresults, ch_NamedSlots = named, ch_Upvals = ups, ch_IsVararg = False, ch_Escapes = 0\<rparr>"

definition func_of :: "string \<Rightarrow> val chunk \<Rightarrow> func" where
  "func_of name ch = \<lparr>fn_Name = name, fn_Qual = [], fn_Recv = [], fn_PtrRecv = False, fn_Chunk = ch\<rparr>"

text \<open>Hooks without operators; a comparison is one the host panics on.\<close>

definition prog_hooks :: "func list \<Rightarrow> hooks" where
  "prog_hooks fs =
     \<lparr>hk_fun = (\<lambda>n. fs ! n), hk_materialize = Inr, hk_valueCopy = (\<lambda>x. x), hk_assign = (\<lambda>c x. Inr x),
      hk_binary = (\<lambda>p a b c. Inl (FHost ''comparing uncomparable type'')),
      hk_unary = (\<lambda>p a. Inl (FTrap ''unary'')), hk_convert = (\<lambda>t x. Inr x),
      hk_builtin = (\<lambda>name args. Inl (if name = ''exit'' then FExit 3 else FTrap name)), hk_global = (\<lambda>name. None), hk_truthy = (\<lambda>n. True),
      hk_zeroResults = (\<lambda>n. [VInt 0]), hk_declaredTag = (\<lambda>x. None)\<rparr>"

definition init_state :: mstate where
  "init_state =
     \<lparr>m_heap = [], m_panics = [], m_globals = Map.empty, m_frames = [], m_inflight = None, m_unwindDepth = 0,
      m_consumed = None, m_draining = 0, m_unwinding = [], m_hasProc = True, m_done = False, m_fatal = None,
      m_syncCall = False\<rparr>"

definition run_main :: "func list \<Rightarrow> nat \<Rightarrow> mstate \<Rightarrow> result" where
  "run_main fs n s =
     (case prepFrame (prog_hooks fs) (VFun 0) [] s of Frame f t \<Rightarrow> run (prog_hooks fs) n f t | _ \<Rightarrow> Unmodelled)"

text \<open>\<open>func main() (r string) { defer func() { r = recover() }(); panic("boom") }\<close>\<close>

definition recover_prog :: "func list" where
  "recover_prog =
     [func_of ''main'' (chunk_of [ins OpMakeClosure 0, ins OpDefer 0, ins OpConst 1, ins OpPanic 0]
        [VFun 1, VStr ''boom''] 1 1 [0] []),
      func_of ''main.func1'' (chunk_of [ins OpConst 0, ins OpCall 0, ins OpSetUpval 0, ins OpReturn 0]
        [VBuiltin ''recover''] 0 0 [] [\<lparr>FromParentUpval = False, uv_Index = 0\<rparr>])]"

text \<open>
  \<open>func main() { defer func() { defer func() { recover() }(); defer func() { panic("inner") }() }(); panic("outer") }\<close>
\<close>

definition nested_prog :: "func list" where
  "nested_prog =
     [func_of ''main'' (chunk_of [ins OpConst 0, ins OpDefer 0, ins OpConst 1, ins OpPanic 0]
        [VFun 1, VStr ''outer''] 0 0 [] []),
      func_of ''main.func1'' (chunk_of [ins OpConst 0, ins OpDefer 0, ins OpConst 1, ins OpDefer 0, ins OpReturn 0]
        [VFun 2, VFun 3] 0 0 [] []),
      func_of ''main.func1.1'' (chunk_of [ins OpConst 0, ins OpCall 0, ins OpPop 0, ins OpReturn 0]
        [VBuiltin ''recover''] 0 0 [] []),
      func_of ''main.func1.2'' (chunk_of [ins OpConst 0, ins OpPanic 0] [VStr ''inner''] 0 0 [] [])]"

text \<open>A program with a host panic, recovered, and one whose deferred call panics.\<close>

definition host_prog :: "func list" where
  "host_prog =
     [func_of ''main'' (chunk_of [ins OpConst 0, ins OpDefer 0, ins OpNil 0, ins OpNil 0, ins OpBinary 0]
        [VFun 1] 0 0 [] []),
      func_of ''main.func1'' (chunk_of [ins OpConst 0, ins OpCall 0, ins OpPop 0, ins OpReturn 0]
        [VBuiltin ''recover''] 0 0 [] [])]"

definition dying_prog :: "func list" where
  "dying_prog =
     [func_of ''main'' (chunk_of [ins OpConst 0, ins OpDefer 0, ins OpReturn 0] [VFun 1] 0 0 [] []),
      func_of ''main.func1'' (chunk_of [ins OpConst 0, ins OpPanic 0] [VStr ''late''] 0 0 [] [])]"

definition exit_prog :: "func list" where
  "exit_prog =
     [func_of ''main'' (chunk_of [ins OpConst 0, ins OpDefer 0, ins OpConst 1, ins OpCall 0] [VFun 1, VBuiltin ''exit'']
        0 0 [] []),
      func_of ''main.func1'' (chunk_of [ins OpNil 0, ins OpNewGlobal 0] [VStr ''g''] 0 0 [] [])]"

definition trap_prog :: "func list" where
  "trap_prog =
     [func_of ''main'' (chunk_of [ins OpConst 0, ins OpDefer 0, ins OpConst 1, ins OpCall 0] [VFun 1, VBuiltin ''trap'']
        0 0 [] []),
      func_of ''main.func1'' (chunk_of [ins OpConst 0, ins OpCall 0, ins OpPop 0] [VBuiltin ''recover''] 0 0 [] [])]"

definition panic_prog :: "func list" where
  "panic_prog = [func_of ''main'' (chunk_of [ins OpConst 0, ins OpPanic 0] [VStr ''boom''] 0 0 [] [])]"

text \<open>The frame a program without locals starts with, and reading the outcome of a run.\<close>

definition start_frame :: "func list \<Rightarrow> deferred_call list \<Rightarrow> frame" where
  "start_frame fs ds =
     \<lparr>fr_fn = 0, fr_name = ''main'', fr_ch = fn_Chunk (fs ! 0), fr_locals = [], fr_upvals = [],
      fr_stack = [], fr_ip = 0, fr_defers = ds, fr_retNamed = False, fr_results = [], fr_boundLo = 0,
      fr_boundHi = 0\<rparr>"

definition returns :: "result \<Rightarrow> (val \<Rightarrow> mstate \<Rightarrow> bool) \<Rightarrow> bool" where
  "returns r P = (case r of Ret x t \<Rightarrow> P x t | _ \<Rightarrow> False)"

definition raises :: "result \<Rightarrow> (exc \<Rightarrow> mstate \<Rightarrow> bool) \<Rightarrow> bool" where
  "raises r P = (case r of Raise e t \<Rightarrow> P e t | _ \<Rightarrow> False)"

lemma returnsE: "returns r P \<Longrightarrow> (\<And>x t. r = Ret x t \<Longrightarrow> P x t \<Longrightarrow> thesis) \<Longrightarrow> thesis"
  by (cases r) (simp_all add: returns_def)

lemma raisesE: "raises r P \<Longrightarrow> (\<And>e t. r = Raise e t \<Longrightarrow> P e t \<Longrightarrow> thesis) \<Longrightarrow> thesis"
  by (cases r) (simp_all add: raises_def)

lemma run_recover_prog:
  "returns (run_main recover_prog 8 init_state)
     (\<lambda>x t. x = VStr ''boom'' \<and> m_frames t = [] \<and> m_inflight t = None \<and> m_unwinding t = [])"
  by code_simp

section \<open>The discipline of the stacks\<close>

text \<open>
  C20: whatever a frame does, whether it returns or raises, the frame stack and the drain count are what they
  were when it started, and cells and panics are never taken away.
\<close>

theorem exec_balanced:
  assumes "run hk n f s = Ret x t \<or> run hk n f s = Raise e t"
  shows "m_frames t = m_frames s \<and> m_draining t = m_draining s \<and>
    length (m_heap s) \<le> length (m_heap t) \<and> length (m_panics s) \<le> length (m_panics t) \<and>
    (m_done s \<longrightarrow> m_done t) \<and> (\<forall>e. m_fatal s = Some e \<longrightarrow> m_fatal t = Some e)"
  using machine.ex_kept [of s hk n f] assms by (auto simp: kept_def)

section \<open>How a frame ends\<close>

text \<open>
  C23: a trap, or the end of the process, is not recoverable: a frame whose body ended with one does not
  return, whatever its deferred calls do.
\<close>

theorem trap_never_returns:
  assumes "loop (run hk n) hk n n f (push_tag (fr_name f) False s) = LRaise e g t"
    and "\<forall>p. e \<noteq> EPanic p" "\<forall>msg. e \<noteq> EHost msg"
  shows "run hk (Suc n) f s \<noteq> Ret x u"
proof -
  have "asScriptPanic e v = (e, v)" for v
    using assms(3) by (cases e) (simp_all add: asScriptPanic_def)
  then show ?thesis using assms unwind_unrecoverable [OF assms(2)] by (simp add: exec_def)
qed

text \<open>
  C24: \<open>os.Exit\<close> runs no deferred call: a frame whose body asked for the end of the process raises the same
  request, with cells and globals as the body left them.
\<close>

theorem exit_skips_defers:
  assumes "loop (run hk n) hk n n f (push_tag (fr_name f) False s) = LRaise (EExit c) g t"
  shows "\<exists>u. run hk (Suc n) f s = Raise (EExit c) u \<and> m_heap u = m_heap t \<and> m_globals u = m_globals t \<and>
    m_done u = m_done t \<and> m_fatal u = m_fatal t"
proof -
  have *: "asScriptPanic (EExit c) v = (EExit c, v)" "note_unwound g (EExit c) v = v" for v
    by (simp_all add: asScriptPanic_def note_unwound_def)
  have b: "m_heap (bury r p v) = m_heap v" "m_globals (bury r p v) = m_globals v" "m_done (bury r p v) = m_done v"
    "m_fatal (bury r p v) = m_fatal v" for r p v
    by (simp_all add: bury_def Let_def dropUnwound_def split: option.split exc.split)
  show ?thesis using assms by (simp add: exec_def * unwind_exit Let_def b framesPop_def)
qed

text \<open>
  C21: with no outer panic in flight, what the deferred calls leave decides: the frame raises the panic that
  is in flight after the last one, and returns its results when there is none.
\<close>

theorem unwind_outcome:
  assumes "m_inflight s = None" "r = None \<or> (\<exists>p. r = Some (EPanic p))"
    and "drain_all (run hk n) hk n f None (m_unwindDepth s) r
      (unwind_enter f r (case panic_of r of Some p \<Rightarrow> link_prev p s | None \<Rightarrow> s)) = Drained q t"
  shows "(case m_inflight t of
      Some p \<Rightarrow> \<exists>u. unwind (run hk n) hk n f r s = Raise (EPanic p) u
    | None \<Rightarrow> \<exists>u. unwind (run hk n) hk n f r s = Ret (finalResult hk u f) u)"
  by (rule unwind_drained [OF assms(1,2) refl assms(3)])

text \<open>
  C22: \<open>recover\<close> takes the panic in flight exactly when one frame that is not a sentinel lies above the
  boundary of the unwind: the deferred function calls it directly. Deferred itself, or called one function
  further down, it returns nil and changes nothing.
\<close>

theorem recover_rule:
  assumes "m_frames s = upper @ base" "length base = m_unwindDepth s" "m_inflight s = Some p"
  shows "(case filter (\<lambda>tag. \<not> ft_sentinel tag) upper of
      [tag] \<Rightarrow> fst (Recover hk s) = recovered_value hk (pn_Value (panic_at s p)) \<and>
        m_inflight (snd (Recover hk s)) = None \<and> m_consumed (snd (Recover hk s)) = Some p
    | _ \<Rightarrow> Recover hk s = (VNil, s))"
proof -
  have "recover_distance s = length (filter (\<lambda>tag. \<not> ft_sentinel tag) upper)"
    using assms(1,2) by (simp add: recover_distance_def)
  then show ?thesis using assms(3) by (auto simp: Recover_def split: list.split)
qed

section \<open>The root frame of a goroutine\<close>

text \<open>
  C25: a panic that leaves the root frame of a goroutine has ended the process, with a fatal recorded, when
  the body of the frame raised.
\<close>

theorem root_panic_fatal:
  assumes "loop (run hk n) hk n n f (push_tag (fr_name f) False s) = LRaise e g t"
    and "run hk (Suc n) f s = Raise (EPanic p) u"
    and "m_frames s = []" "m_draining s = 0" "m_hasProc s" "\<not> m_syncCall s"
  shows "m_done u \<and> m_fatal u \<noteq> None"
proof -
  obtain e' t' where e': "asScriptPanic e (note_unwound g e (framesPop t)) = (e', t')" by fastforce
  have "kept s (framesPop t)"
    using machine.loop_kept_run [of "push_tag (fr_name f) False s" hk n hk n n f] assms(1)
    by (auto dest: kept_framed)
  then have "kept s t'" using note_unwound_kept kept_asScriptPanic [OF e'] by (blast intro: kept_trans)
  then show ?thesis
    using assms e' by (intro machine.unwind_root_panic [of hk n hk n g e' t' p u]) (simp_all add: exec_def kept_def)
qed

text \<open>
  C26: before the host boundary, nothing but a root frame whose body raised ends the process: if running a frame
  changed the end of the process or its fatal, the frame was the root of a goroutine, outside every drain, its
  body raised, and the fatal is the panic or trap the frame goes on to raise, unless one was there before. So a
  frame whose body returned records nothing, not even when one of its deferred calls then panics: that failure is
  left to the function that spawned the goroutine.
\<close>

theorem process_ended_by_root:
  assumes "run hk (Suc n) f s = Ret x u \<or> run hk (Suc n) f s = Raise e u"
    and "m_done u \<noteq> m_done s \<or> m_fatal u \<noteq> m_fatal s" and "0 \<le> m_draining s"
  shows "m_frames s = [] \<and> m_draining s = 0 \<and> m_hasProc s \<and> \<not> m_syncCall s \<and>
    run hk (Suc n) f s = Raise e u \<and> ((\<exists>p. e = EPanic p) \<or> (\<exists>msg. e = ETrap msg)) \<and>
    m_fatal u = (case m_fatal s of None \<Rightarrow> Some e | Some e' \<Rightarrow> Some e') \<and>
    (\<exists>e' g t. loop (run hk n) hk n n f (push_tag (fr_name f) False s) = LRaise e' g t)"
  using machine.exec_recorded [of hk n hk n f s x u e] assms by (simp add: at_root_def)

section \<open>Where the bookkeeping loses track\<close>

definition plain_prog :: "func list" where
  "plain_prog = nested_prog[3 := func_of ''main.func1.2'' (chunk_of [ins OpReturn 0] [] 0 0 [] [])]"

text \<open>
  A deferred call that itself recovers a panic raised while it drains makes its caller lose the panic
  that was unwinding: the outer panic of \<open>nested_prog\<close> is never recovered, yet the program returns. Without
  the inner panic it is raised.
\<close>

lemma nested_recovery_loses_panic:
  "returns (run_main nested_prog 8 init_state)
     (\<lambda>x t. \<not> pn_Recovered (panic_at t 0) \<and> pn_Value (panic_at t 0) = VStr ''outer'') \<and>
   raises (run_main plain_prog 8 init_state) (\<lambda>e t. e = EPanic 0)"
  by code_simp

text \<open>
  The frame of a recovered panic of the host's own stays listed as unwound for ever: the record and the
  unwind wrap the host's panic in two different panics, and only the second is dropped.
\<close>

lemma host_panic_leaves_frame:
  "returns (run_main host_prog 8 init_state)
     (\<lambda>x t. m_unwinding t = [(''main'', 0)] \<and> pn_Recovered (panic_at t 1) \<and> m_inflight t = None)"
  by code_simp

section \<open>Witnesses\<close>

definition loop_raises :: "loop_result \<Rightarrow> (exc \<Rightarrow> mstate \<Rightarrow> bool) \<Rightarrow> bool" where
  "loop_raises r P = (case r of LRaise e f t \<Rightarrow> P e t | _ \<Rightarrow> False)"

lemma loop_raisesE: "loop_raises r P \<Longrightarrow> (\<And>e f t. r = LRaise e f t \<Longrightarrow> P e t \<Longrightarrow> thesis) \<Longrightarrow> thesis"
  by (cases r) (simp_all add: loop_raises_def)

definition drains :: "drain_result \<Rightarrow> (mstate \<Rightarrow> bool) \<Rightarrow> bool" where
  "drains r P = (case r of Drained q t \<Rightarrow> P t | _ \<Rightarrow> False)"

lemma drainsE: "drains r P \<Longrightarrow> (\<And>q t. r = Drained q t \<Longrightarrow> P t \<Longrightarrow> thesis) \<Longrightarrow> thesis"
  by (cases r) (simp_all add: drains_def)

lemma dying_run: "raises (run (prog_hooks dying_prog) 6 (start_frame dying_prog []) init_state) (\<lambda>e t. e = EPanic 0)"
  by code_simp

lemma exec_balanced_witness:
  "\<exists>t. run (prog_hooks dying_prog) 6 (start_frame dying_prog []) init_state = Raise (EPanic 0) t \<and>
     m_frames t = [] \<and> m_draining t = 0"
proof -
  obtain t where t: "run (prog_hooks dying_prog) 6 (start_frame dying_prog []) init_state = Raise (EPanic 0) t"
    using dying_run by (auto elim: raisesE)
  from exec_balanced [OF disjI2, OF t] t show ?thesis by (simp add: init_state_def)
qed

lemma trap_loop:
  "loop_raises (loop (run (prog_hooks trap_prog) 5) (prog_hooks trap_prog) 5 5 (start_frame trap_prog [])
     (push_tag (fr_name (start_frame trap_prog [])) False init_state)) (\<lambda>e t. e = ETrap ''trap'')"
  by code_simp

lemma trap_never_returns_witness:
  "\<not> returns (run (prog_hooks trap_prog) (Suc 5) (start_frame trap_prog []) init_state) (\<lambda>x t. True)"
proof -
  obtain g t where "loop (run (prog_hooks trap_prog) 5) (prog_hooks trap_prog) 5 5 (start_frame trap_prog [])
      (push_tag (fr_name (start_frame trap_prog [])) False init_state) = LRaise (ETrap ''trap'') g t"
    using trap_loop by (auto elim: loop_raisesE)
  from trap_never_returns [OF this] show ?thesis by (auto simp: returns_def split: result.split)
qed

lemma exit_loop:
  "loop_raises (loop (run (prog_hooks exit_prog) 5) (prog_hooks exit_prog) 5 5 (start_frame exit_prog [])
     (push_tag (fr_name (start_frame exit_prog [])) False init_state)) (\<lambda>e t. e = EExit 3 \<and> m_globals t ''g'' = None)"
  by code_simp

lemma exit_skips_defers_witness:
  "\<exists>u. run (prog_hooks exit_prog) (Suc 5) (start_frame exit_prog []) init_state = Raise (EExit 3) u \<and>
     m_globals u ''g'' = None"
proof -
  obtain g t where "loop (run (prog_hooks exit_prog) 5) (prog_hooks exit_prog) 5 5 (start_frame exit_prog [])
      (push_tag (fr_name (start_frame exit_prog [])) False init_state) = LRaise (EExit 3) g t"
    and "m_globals t ''g'' = None"
    using exit_loop by (auto elim: loop_raisesE)
  with exit_skips_defers show ?thesis by metis
qed

lemma recover_drain:
  "drains (drain_all (run (prog_hooks host_prog) 6) (prog_hooks host_prog) 6
     (start_frame host_prog [\<lparr>dc_fn = VFun 1, dc_args = []\<rparr>]) None (m_unwindDepth init_state) (Some (EPanic 0))
     (unwind_enter (start_frame host_prog [\<lparr>dc_fn = VFun 1, dc_args = []\<rparr>]) (Some (EPanic 0))
       (case panic_of (Some (EPanic 0)) of Some p \<Rightarrow> link_prev p init_state | None \<Rightarrow> init_state)))
     (\<lambda>t. m_inflight t = None)"
  by code_simp

lemma unwind_outcome_witness:
  "returns (unwind (run (prog_hooks host_prog) 6) (prog_hooks host_prog) 6
     (start_frame host_prog [\<lparr>dc_fn = VFun 1, dc_args = []\<rparr>]) (Some (EPanic 0)) init_state) (\<lambda>x t. True)"
proof -
  obtain q t where "drain_all (run (prog_hooks host_prog) 6) (prog_hooks host_prog) 6
     (start_frame host_prog [\<lparr>dc_fn = VFun 1, dc_args = []\<rparr>]) None (m_unwindDepth init_state) (Some (EPanic 0))
     (unwind_enter (start_frame host_prog [\<lparr>dc_fn = VFun 1, dc_args = []\<rparr>]) (Some (EPanic 0))
       (case panic_of (Some (EPanic 0)) of Some p \<Rightarrow> link_prev p init_state | None \<Rightarrow> init_state)) = Drained q t"
    and "m_inflight t = None"
    using recover_drain by (rule drainsE)
  from unwind_outcome [OF _ _ this(1)] this(2) show ?thesis by (auto simp: returns_def init_state_def)
qed

definition unwinding_state :: mstate where
  "unwinding_state = init_state\<lparr>m_inflight := Some 0, m_unwindDepth := 1,
     m_panics := [\<lparr>pn_Value = VInt 7, pn_Prev = None, pn_Recovered = False\<rparr>],
     m_frames := [\<lparr>ft_name = ''f'', ft_sentinel = False\<rparr>, \<lparr>ft_name = ''main'', ft_sentinel = False\<rparr>]\<rparr>"

lemma recover_rule_witness: "fst (Recover (prog_hooks []) unwinding_state) = VInt 7"
  using recover_rule [of unwinding_state "[\<lparr>ft_name = ''f'', ft_sentinel = False\<rparr>]"
      "[\<lparr>ft_name = ''main'', ft_sentinel = False\<rparr>]" 0 "prog_hooks []"]
  by (simp add: unwinding_state_def recovered_value_def prog_hooks_def panic_at_def)

lemma panic_loop:
  "loop_raises (loop (run (prog_hooks panic_prog) 4) (prog_hooks panic_prog) 4 4 (start_frame panic_prog [])
     (push_tag (fr_name (start_frame panic_prog [])) False init_state)) (\<lambda>e t. e = EPanic 0)"
  "raises (run (prog_hooks panic_prog) (Suc 4) (start_frame panic_prog []) init_state) (\<lambda>e t. e = EPanic 0)"
  by code_simp+

lemma panic_ends:
  "raises (run (prog_hooks panic_prog) (Suc 4) (start_frame panic_prog []) init_state) (\<lambda>e t. e = EPanic 0 \<and> m_done t)"
  by code_simp

lemma root_panic_fatal_witness:
  "\<exists>u. run (prog_hooks panic_prog) (Suc 4) (start_frame panic_prog []) init_state = Raise (EPanic 0) u \<and> m_done u"
proof -
  obtain g t where l: "loop (run (prog_hooks panic_prog) 4) (prog_hooks panic_prog) 4 4 (start_frame panic_prog [])
     (push_tag (fr_name (start_frame panic_prog [])) False init_state) = LRaise (EPanic 0) g t"
    using panic_loop(1) by (auto elim: loop_raisesE)
  obtain u where u: "run (prog_hooks panic_prog) (Suc 4) (start_frame panic_prog []) init_state = Raise (EPanic 0) u"
    using panic_loop(2) by (auto elim: raisesE)
  from root_panic_fatal [OF l u] u show ?thesis by (simp add: init_state_def)
qed

lemma process_ended_by_root_witness:
  "\<exists>u. run (prog_hooks panic_prog) (Suc 4) (start_frame panic_prog []) init_state = Raise (EPanic 0) u \<and>
     m_done u \<and> m_fatal u = Some (EPanic 0)"
proof -
  obtain u where u: "run (prog_hooks panic_prog) (Suc 4) (start_frame panic_prog []) init_state = Raise (EPanic 0) u"
    and d: "m_done u"
    using panic_ends by (auto elim: raisesE)
  from process_ended_by_root [OF disjI2, OF u] d u show ?thesis by (simp add: init_state_def)
qed

end
