(* ===== verification/MapStore.thy ===== *)
theory MapStore
  imports Prelude Runs
begin

text \<open>
  Script maps (\<open>runtime/value.go\<close>, types \<open>Map\<close> and \<open>MapWalk\<close>): a Go map from canonical keys to values, with
  the script keys and the canonical keys of the entries in insertion order in two Go slices. Slices alias
  their backing arrays, so arrays and Go maps live in a store; a slice is an array with a length. The
  copy-on-write of the order slices, for walks and for second headers, is what the theory is about.
\<close>

section \<open>The store\<close>

text \<open>Arrays and Go maps by address; \<open>st_nonce\<close> numbers the calls of \<open>CanonicalKey\<close>.\<close>

record 'v store =
  st_arrs :: "'v list list"
  st_maps :: "('v \<rightharpoonup> 'v) list"
  st_nonce :: nat

text \<open>A slice from the start of its array, or nil.\<close>

record gslice =
  sl_arr :: "nat option"
  sl_len :: nat

record map_header =
  Pairs :: "nat option"
  Order :: gslice
  Keys :: gslice
  shared :: bool
  aliased :: bool
  dels :: nat

record map_walk =
  w_display :: gslice
  w_canonical :: gslice
  w_dels :: nat

text \<open>
  What the model takes from outside: the zero value, the spare room \<open>append\<close> leaves in a new array, and the
  canonical key of a value at its \<open>n\<close>-th computation: the same for every \<open>n\<close>, but for a NaN a new one each.
\<close>

record 'v key_env =
  zero :: 'v
  spare :: "nat \<Rightarrow> nat"
  canon :: "nat \<Rightarrow> 'v \<Rightarrow> 'v"

definition nil_slice :: gslice where
  "nil_slice = \<lparr>sl_arr = None, sl_len = 0\<rparr>"

definition backing :: "'v store \<Rightarrow> gslice \<Rightarrow> 'v list" where
  "backing st s = (case sl_arr s of None \<Rightarrow> [] | Some a \<Rightarrow> st_arrs st ! a)"

definition elems :: "'v store \<Rightarrow> gslice \<Rightarrow> 'v list" where
  "elems st s = take (sl_len s) (backing st s)"

text \<open>A new array.\<close>

definition alloc :: "'v key_env \<Rightarrow> 'v list \<Rightarrow> 'v store \<Rightarrow> gslice \<times> 'v store" where
  "alloc e xs st =
     (\<lparr>sl_arr = Some (length (st_arrs st)), sl_len = length xs\<rparr>,
      st\<lparr>st_arrs := st_arrs st @ [xs @ replicate (spare e (length xs)) (zero e)]\<rparr>)"

text \<open>\<open>append(s, x)\<close>: in place when the array has room.\<close>

definition append1 :: "'v key_env \<Rightarrow> gslice \<Rightarrow> 'v \<Rightarrow> 'v store \<Rightarrow> gslice \<times> 'v store" where
  "append1 e s x st =
     (if sl_len s < length (backing st s)
      then (s\<lparr>sl_len := sl_len s + 1\<rparr>,
            st\<lparr>st_arrs := (st_arrs st)[the (sl_arr s) := (backing st s)[sl_len s := x]]\<rparr>)
      else alloc e (elems st s @ [x]) st)"

definition without :: "nat \<Rightarrow> 'a list \<Rightarrow> 'a list" where
  "without i xs = take i xs @ drop (Suc i) xs"

text \<open>\<open>append(s[:i], s[i+1:]...)\<close>: the rest moves down in the array, its last slot stays.\<close>

definition shift_out :: "nat \<Rightarrow> gslice \<Rightarrow> 'v store \<Rightarrow> gslice \<times> 'v store" where
  "shift_out i s st =
     (s\<lparr>sl_len := sl_len s - 1\<rparr>,
      st\<lparr>st_arrs := (st_arrs st)[the (sl_arr s) := without i (elems st s) @ drop (sl_len s - 1) (backing st s)]\<rparr>)"

text \<open>\<open>slices.Delete(slices.Clone(s), i, i+1)\<close>: a new array, the vacated slot zeroed.\<close>

definition clone_out :: "'v key_env \<Rightarrow> nat \<Rightarrow> gslice \<Rightarrow> 'v store \<Rightarrow> gslice \<times> 'v store" where
  "clone_out e i s st =
     (let (c, st') = alloc e (elems st s) st;
          (d, st'') = shift_out i c st'
      in (d, st''\<lparr>st_arrs := (st_arrs st'')[the (sl_arr d) := (backing st'' d)[sl_len d := zero e]]\<rparr>))"

section \<open>The operations\<close>

definition table :: "'v store \<Rightarrow> map_header \<Rightarrow> 'v \<rightharpoonup> 'v" where
  "table st m = (case Pairs m of None \<Rightarrow> Map.empty | Some t \<Rightarrow> st_maps st ! t)"

definition canonicalKey :: "'v key_env \<Rightarrow> 'v \<Rightarrow> 'v store \<Rightarrow> 'v \<times> 'v store" where
  "canonicalKey e k st = (canon e (st_nonce st) k, st\<lparr>st_nonce := st_nonce st + 1\<rparr>)"

definition emptyMap :: map_header where
  "emptyMap = \<lparr>Pairs = None, Order = nil_slice, Keys = nil_slice, shared = False, aliased = False, dels = 0\<rparr>"

definition Len :: "map_header \<Rightarrow> nat" where
  "Len m = sl_len (Order m)"

definition EntryAt :: "'v store \<Rightarrow> map_header \<Rightarrow> nat \<Rightarrow> 'v \<times> 'v option" where
  "EntryAt st m i = (elems st (Order m) ! i, table st m (elems st (Keys m) ! i))"

definition Get :: "'v key_env \<Rightarrow> 'v \<Rightarrow> map_header \<Rightarrow> 'v store \<Rightarrow> 'v option \<times> 'v store" where
  "Get e k m st = (let (ck, st') = canonicalKey e k st in (table st' m ck, st'))"

definition SnapshotKeys :: "'v store \<Rightarrow> map_header \<Rightarrow> 'v list \<times> 'v list" where
  "SnapshotKeys st m = (elems st (Order m), elems st (Keys m))"

definition LookupCanonical :: "'v store \<Rightarrow> map_header \<Rightarrow> 'v \<Rightarrow> 'v option" where
  "LookupCanonical st m ck = table st m ck"

definition ensure_pairs :: "map_header \<Rightarrow> 'v store \<Rightarrow> map_header \<times> 'v store" where
  "ensure_pairs m st =
     (if Pairs m = None
      then (m\<lparr>Pairs := Some (length (st_maps st))\<rparr>, st\<lparr>st_maps := st_maps st @ [Map.empty]\<rparr>)
      else (m, st))"

definition set_pair :: "'v \<Rightarrow> 'v option \<Rightarrow> map_header \<Rightarrow> 'v store \<Rightarrow> 'v store" where
  "set_pair ck x m st = st\<lparr>st_maps := (st_maps st)[the (Pairs m) := (table st m)(ck := x)]\<rparr>"

definition Insert :: "'v key_env \<Rightarrow> 'v \<Rightarrow> 'v \<Rightarrow> map_header \<Rightarrow> 'v store \<Rightarrow> map_header \<times> 'v store" where
  "Insert e k x m st =
     (let (ck, st) = canonicalKey e k st;
          (m, st) = ensure_pairs m st
      in if table st m ck = None
         then (let (ord, st) = append1 e (Order m) k st;
                   (keys, st) = append1 e (Keys m) ck st
               in (m\<lparr>Order := ord, Keys := keys\<rparr>, set_pair ck (Some x) m st))
         else (m, set_pair ck (Some x) m st))"

text \<open>The slot of a canonical key, and the removal of a slot.\<close>

fun slot_of :: "'v \<Rightarrow> 'v list \<Rightarrow> nat option" where
  "slot_of ck [] = None"
| "slot_of ck (x # xs) = (if x = ck then Some 0 else map_option Suc (slot_of ck xs))"

definition drop_slot :: "'v key_env \<Rightarrow> nat \<Rightarrow> map_header \<Rightarrow> 'v store \<Rightarrow> map_header \<times> 'v store" where
  "drop_slot e i m st =
     (if shared m
      then (let (ord, st) = clone_out e i (Order m) st;
                (keys, st) = clone_out e i (Keys m) st
            in (m\<lparr>Order := ord, Keys := keys, shared := False\<rparr>, st))
      else (let (ord, st) = shift_out i (Order m) st;
                (keys, st) = shift_out i (Keys m) st
            in (m\<lparr>Order := ord, Keys := keys\<rparr>, st)))"

definition Delete :: "'v key_env \<Rightarrow> 'v \<Rightarrow> map_header \<Rightarrow> 'v store \<Rightarrow> bool \<times> map_header \<times> 'v store" where
  "Delete e k m st =
     (let (ck, st) = canonicalKey e k st
      in if table st m ck = None then (False, m, st)
         else (let st = set_pair ck None m st; m = m\<lparr>dels := dels m + 1\<rparr>
               in (True, case slot_of ck (elems st (Keys m)) of None \<Rightarrow> (m, st) | Some i \<Rightarrow> drop_slot e i m st)))"

definition Clear :: "map_header \<Rightarrow> 'v store \<Rightarrow> map_header \<times> 'v store" where
  "Clear m st =
     (m\<lparr>Pairs := Some (length (st_maps st)), Order := nil_slice, Keys := nil_slice, dels := dels m + 1\<rparr>,
      st\<lparr>st_maps := st_maps st @ [Map.empty]\<rparr>)"

text \<open>A second header: both are marked.\<close>

definition Header :: "map_header \<Rightarrow> map_header \<times> map_header" where
  "Header m =
     (let m = m\<lparr>shared := True, aliased := True\<rparr>
      in (m, \<lparr>Pairs = Pairs m, Order = Order m, Keys = Keys m, shared = True, aliased = True, dels = 0\<rparr>))"

definition BeginWalk :: "map_header \<Rightarrow> map_walk \<times> map_header" where
  "BeginWalk m = (\<lparr>w_display = Order m, w_canonical = Keys m, w_dels = dels m\<rparr>, m\<lparr>shared := True\<rparr>)"

definition walk_len :: "map_walk \<Rightarrow> nat" where
  "walk_len w = sl_len (w_display w)"

definition walk_at :: "'v store \<Rightarrow> map_header \<Rightarrow> map_walk \<Rightarrow> nat \<Rightarrow> 'v \<times> 'v option" where
  "walk_at st m w i = (elems st (w_display w) ! i, table st m (elems st (w_canonical w) ! i))"

definition walk_key :: "'v store \<Rightarrow> map_header \<Rightarrow> map_walk \<Rightarrow> nat \<Rightarrow> 'v \<times> bool" where
  "walk_key st m w i =
     (if dels m = w_dels w \<and> \<not> aliased m then (elems st (w_display w) ! i, True)
      else (elems st (w_display w) ! i, table st m (elems st (w_canonical w) ! i) \<noteq> None))"

section \<open>Slices\<close>

definition slice_ok :: "'v store \<Rightarrow> gslice \<Rightarrow> bool" where
  "slice_ok st s \<longleftrightarrow>
     (case sl_arr s of
        None \<Rightarrow> sl_len s = 0
      | Some a \<Rightarrow> a < length (st_arrs st) \<and> sl_len s \<le> length (st_arrs st ! a))"

lemma length_elems: "slice_ok st s \<Longrightarrow> length (elems st s) = sl_len s"
  by (auto simp: slice_ok_def elems_def backing_def split: option.splits)

lemma slice_ok_nil [simp]: "slice_ok st nil_slice" and elems_nil [simp]: "elems st nil_slice = []"
  by (simp_all add: slice_ok_def nil_slice_def elems_def backing_def)

lemma other_store [simp]:
  "elems (st\<lparr>st_maps := ms\<rparr>) s = elems st s" "elems (st\<lparr>st_nonce := n\<rparr>) s = elems st s"
  "slice_ok (st\<lparr>st_maps := ms\<rparr>) s = slice_ok st s" "slice_ok (st\<lparr>st_nonce := n\<rparr>) s = slice_ok st s"
  "backing (st\<lparr>st_maps := ms\<rparr>) s = backing st s" "backing (st\<lparr>st_nonce := n\<rparr>) s = backing st s"
  by (simp_all add: elems_def backing_def slice_ok_def cong: option.case_cong)

text \<open>What a slice operation does: its own elements, the maps, and the arrays of the other slices.\<close>

definition apart :: "gslice \<Rightarrow> gslice \<Rightarrow> bool" where
  "apart s t \<longleftrightarrow> sl_arr s = None \<or> sl_arr t = None \<or> sl_arr s \<noteq> sl_arr t"

lemma apart_nil: "apart nil_slice t" "apart t nil_slice"
  by (simp_all add: apart_def nil_slice_def)

lemma apart_sym: "apart s t \<Longrightarrow> apart t s"
  by (auto simp: apart_def)

lemma alloc_spec:
  assumes "alloc e xs st = (s', st')"
  shows "elems st' s' = xs" "slice_ok st' s'" "st_maps st' = st_maps st" "st_nonce st' = st_nonce st"
    "slice_ok st t \<Longrightarrow> slice_ok st' t \<and> elems st' t = elems st t \<and> backing st' t = backing st t \<and> apart s' t"
  using assms
  by (auto simp: alloc_def elems_def backing_def slice_ok_def apart_def nth_append split: option.splits)

lemma append1_spec:
  assumes "append1 e s x st = (s', st')" "slice_ok st s"
  shows "elems st' s' = elems st s @ [x]" "slice_ok st' s'" "st_maps st' = st_maps st" "st_nonce st' = st_nonce st"
    "slice_ok st t \<Longrightarrow> slice_ok st' t"
    "slice_ok st t \<Longrightarrow> apart s t \<or> sl_len t \<le> sl_len s \<Longrightarrow> elems st' t = elems st t"
    "slice_ok st t \<Longrightarrow> apart s t \<Longrightarrow> apart s' t"
    "slice_ok st t \<Longrightarrow> apart s' t \<or> sl_arr s' = sl_arr s \<and> sl_len s \<le> sl_len s'"
proof -
  have "elems st' s' = elems st s @ [x] \<and> slice_ok st' s' \<and> st_maps st' = st_maps st \<and> st_nonce st' = st_nonce st \<and>
    (slice_ok st t \<longrightarrow> slice_ok st' t) \<and>
    (slice_ok st t \<longrightarrow> apart s t \<or> sl_len t \<le> sl_len s \<longrightarrow> elems st' t = elems st t) \<and>
    (slice_ok st t \<longrightarrow> apart s t \<longrightarrow> apart s' t) \<and>
    (slice_ok st t \<longrightarrow> apart s' t \<or> sl_arr s' = sl_arr s \<and> sl_len s \<le> sl_len s')" for t
  proof (cases "sl_len s < length (backing st s)")
    case True
    then obtain a where a: "sl_arr s = Some a" "a < length (st_arrs st)" "sl_len s < length (st_arrs st ! a)"
      using assms(2) by (auto simp: backing_def slice_ok_def split: option.splits)
    with assms(1) True have s': "s' = s\<lparr>sl_len := sl_len s + 1\<rparr>"
      "st' = st\<lparr>st_arrs := (st_arrs st)[a := (st_arrs st ! a)[sl_len s := x]]\<rparr>"
      by (simp_all add: append1_def backing_def)
    show ?thesis
      using a unfolding s'
      by (auto simp: elems_def backing_def slice_ok_def apart_def take_Suc_conv_app_nth nth_list_update
          take_update_cancel split: option.splits)
  next
    case False
    with assms(1) have "alloc e (elems st s @ [x]) st = (s', st')" by (simp add: append1_def)
    from alloc_spec [OF this] show ?thesis by blast
  qed
  then show "elems st' s' = elems st s @ [x]" "slice_ok st' s'" "st_maps st' = st_maps st" "st_nonce st' = st_nonce st"
    "slice_ok st t \<Longrightarrow> slice_ok st' t"
    "slice_ok st t \<Longrightarrow> apart s t \<or> sl_len t \<le> sl_len s \<Longrightarrow> elems st' t = elems st t"
    "slice_ok st t \<Longrightarrow> apart s t \<Longrightarrow> apart s' t"
    "slice_ok st t \<Longrightarrow> apart s' t \<or> sl_arr s' = sl_arr s \<and> sl_len s \<le> sl_len s'"
    by blast+
qed

lemma length_without: "i < length xs \<Longrightarrow> length (without i xs) = length xs - 1"
  by (simp add: without_def)

lemma shift_out_spec:
  assumes "shift_out i s st = (s', st')" "slice_ok st s" "i < sl_len s"
  shows "elems st' s' = without i (elems st s)" "slice_ok st' s'" "st_maps st' = st_maps st"
    "st_nonce st' = st_nonce st" "sl_arr s' = sl_arr s" "sl_len s' = sl_len s - 1"
    "slice_ok st t \<Longrightarrow> slice_ok st' t"
    "slice_ok st t \<Longrightarrow> apart s t \<Longrightarrow> elems st' t = elems st t"
proof -
  obtain a where a: "sl_arr s = Some a" "a < length (st_arrs st)" "sl_len s \<le> length (st_arrs st ! a)"
    using assms(2,3) by (auto simp: slice_ok_def split: option.splits)
  have len: "length (without i (elems st s)) = sl_len s - 1"
    using assms(3) length_elems [OF assms(2)] by (simp add: length_without)
  have s': "s' = s\<lparr>sl_len := sl_len s - 1\<rparr>"
    "st' = st\<lparr>st_arrs := (st_arrs st)[a := without i (elems st s) @ drop (sl_len s - 1) (st_arrs st ! a)]\<rparr>"
    using assms(1) a by (simp_all add: shift_out_def backing_def)
  show "elems st' s' = without i (elems st s)"
    using a len unfolding s' by (simp add: elems_def backing_def)
  show "slice_ok st' s'" "sl_arr s' = sl_arr s" "sl_len s' = sl_len s - 1"
    using a len unfolding s' by (simp_all add: slice_ok_def)
  show "st_maps st' = st_maps st" "st_nonce st' = st_nonce st" by (simp_all add: s')
  show "slice_ok st t \<Longrightarrow> slice_ok st' t"
    using a len unfolding s' by (auto simp: slice_ok_def nth_list_update split: option.splits)
  show "slice_ok st t \<Longrightarrow> apart s t \<Longrightarrow> elems st' t = elems st t"
    using a unfolding s' by (auto simp: apart_def elems_def backing_def slice_ok_def split: option.splits)
qed

lemma clone_out_spec:
  assumes "clone_out e i s st = (s', st')" "slice_ok st s" "i < sl_len s"
  shows "elems st' s' = without i (elems st s)" "slice_ok st' s'" "st_maps st' = st_maps st"
    "st_nonce st' = st_nonce st" "sl_len s' = sl_len s - 1"
    "slice_ok st t \<Longrightarrow> slice_ok st' t \<and> elems st' t = elems st t \<and> apart s' t"
proof -
  obtain c st1 where c: "alloc e (elems st s) st = (c, st1)" by fastforce
  obtain d st2 where d: "shift_out i c st1 = (d, st2)" by fastforce
  have s': "s' = d" "st' = st2\<lparr>st_arrs := (st_arrs st2)[the (sl_arr d) := (backing st2 d)[sl_len d := zero e]]\<rparr>"
    using assms(1) by (auto simp: clone_out_def c d)
  have len: "sl_len c = sl_len s" using c length_elems [OF assms(2)] by (auto simp: alloc_def)
  note A = alloc_spec [OF c]
  note D = shift_out_spec [OF d A(2), unfolded len, OF assms(3)]
  obtain a where a: "sl_arr d = Some a" "a < length (st_arrs st2)" "sl_len d \<le> length (st_arrs st2 ! a)"
    using D(2,5,6) c by (auto simp: slice_ok_def alloc_def split: option.splits)
  have same: "elems st' d = elems st2 d" "slice_ok st' d"
    using a by (auto simp: s' elems_def backing_def slice_ok_def take_update_cancel)
  show "elems st' s' = without i (elems st s)" using same D(1) A(1) by (simp add: s'(1))
  show "slice_ok st' s'" using same by (simp add: s'(1))
  show "st_maps st' = st_maps st" "st_nonce st' = st_nonce st" using D A by (simp_all add: s')
  show "sl_len s' = sl_len s - 1" using D by (simp add: s')
  assume t: "slice_ok st t"
  from A(5) [OF this] have t1: "slice_ok st1 t" "elems st1 t = elems st t" "apart c t" by blast+
  then have t2: "slice_ok st2 t" "elems st2 t = elems st t" "apart d t"
    using D(7,8) D(5) by (auto simp: apart_def)
  then show "slice_ok st' t \<and> elems st' t = elems st t \<and> apart s' t"
    using a by (auto simp: s' slice_ok_def elems_def backing_def apart_def nth_list_update split: option.splits)
qed

section \<open>The representation\<close>

definition map_ok :: "'v store \<Rightarrow> map_header \<Rightarrow> bool" where
  "map_ok st m \<longleftrightarrow>
     (\<forall>t. Pairs m = Some t \<longrightarrow> t < length (st_maps st)) \<and>
     slice_ok st (Order m) \<and> slice_ok st (Keys m) \<and> apart (Order m) (Keys m) \<and>
     sl_len (Order m) = sl_len (Keys m) \<and> distinct (elems st (Keys m)) \<and>
     set (elems st (Keys m)) = dom (table st m)"

text \<open>The entries of a map: script key, canonical key, value, in insertion order.\<close>

definition entries :: "'v store \<Rightarrow> map_header \<Rightarrow> ('v \<times> 'v \<times> 'v) list" where
  "entries st m =
     map (\<lambda>(k, ck). (k, ck, the (table st m ck))) (zip (elems st (Order m)) (elems st (Keys m)))"

definition put_entry :: "'v \<Rightarrow> 'v \<Rightarrow> 'v \<Rightarrow> ('v \<times> 'v \<times> 'v) list \<Rightarrow> ('v \<times> 'v \<times> 'v) list" where
  "put_entry k ck x es =
     (if ck \<in> (fst \<circ> snd) ` set es then map (\<lambda>(d, c, y). (d, c, if c = ck then x else y)) es
      else es @ [(k, ck, x)])"

definition del_entry :: "'v \<Rightarrow> ('v \<times> 'v \<times> 'v) list \<Rightarrow> ('v \<times> 'v \<times> 'v) list" where
  "del_entry ck es = filter (\<lambda>(d, c, y). c \<noteq> ck) es"

lemma map_ok_length: "map_ok st m \<Longrightarrow> length (elems st (Order m)) = length (elems st (Keys m))"
  by (simp add: map_ok_def length_elems)

lemma entries_keys: "map_ok st m \<Longrightarrow> map (fst \<circ> snd) (entries st m) = elems st (Keys m)"
  by (simp add: entries_def map_ok_length comp_def case_prod_unfold map_snd_zip [unfolded comp_def])

lemma entries_key_set: "map_ok st m \<Longrightarrow> (fst \<circ> snd) ` set (entries st m) = dom (table st m)"
  using entries_keys [of st m] by (metis list.set_map map_ok_def)

lemma entries_cong:
  assumes "elems st' (Order m') = elems st (Order m)" "elems st' (Keys m') = elems st (Keys m)"
    "\<And>ck. ck \<in> set (elems st (Keys m)) \<Longrightarrow> table st' m' ck = table st m ck"
  shows "entries st' m' = entries st m"
  unfolding entries_def assms(1,2) by (auto simp: assms(3) dest: set_zip_rightD)

section \<open>Insertion\<close>

lemma canonicalKey_ok:
  assumes "canonicalKey e k st = (ck, st')"
  shows "ck = canon e (st_nonce st) k" "map_ok st' m = map_ok st m" "table st' m = table st m"
    "elems st' = elems st" "slice_ok st' = slice_ok st" "entries st' m = entries st m" "st_maps st' = st_maps st"
proof -
  have st': "st' = st\<lparr>st_nonce := st_nonce st + 1\<rparr>" "ck = canon e (st_nonce st) k"
    using assms by (auto simp: canonicalKey_def)
  then show "ck = canon e (st_nonce st) k" by simp
  show t: "table st' m = table st m" by (simp add: table_def st' cong: option.case_cong)
  show el: "elems st' = elems st" by (rule ext) (simp add: st')
  show ok: "slice_ok st' = slice_ok st" by (rule ext) (simp add: st')
  show "st_maps st' = st_maps st" by (simp add: st')
  show "map_ok st' m = map_ok st m" unfolding map_ok_def t el ok by (simp add: st')
  show "entries st' m = entries st m" by (simp add: entries_def t el)
qed

lemma ensure_pairs_ok:
  assumes "ensure_pairs m st = (m', st')" "map_ok st m"
  shows "map_ok st' m'" "table st' m' = table st m" "entries st' m' = entries st m" "Pairs m' \<noteq> None"
    "elems st' = elems st" "slice_ok st' = slice_ok st" "Order m' = Order m" "Keys m' = Keys m" "shared m' = shared m"
    "dels m' = dels m" "aliased m' = aliased m"
    "\<And>t. t < length (st_maps st) \<Longrightarrow> t < length (st_maps st') \<and> st_maps st' ! t = st_maps st ! t"
proof -
  have el: "elems st' = elems st" and ok: "slice_ok st' = slice_ok st"
    using assms(1) by (auto simp: ensure_pairs_def split: if_splits intro!: ext)
  have h: "Order m' = Order m" "Keys m' = Keys m" "shared m' = shared m" "dels m' = dels m" "aliased m' = aliased m"
    "Pairs m' \<noteq> None" using assms(1) by (auto simp: ensure_pairs_def split: if_splits)
  have t: "table st' m' = table st m"
    using assms(1) by (auto simp: ensure_pairs_def table_def split: if_splits)
  show "elems st' = elems st" "slice_ok st' = slice_ok st" "Order m' = Order m" "Keys m' = Keys m"
    "shared m' = shared m" "dels m' = dels m" "aliased m' = aliased m" "Pairs m' \<noteq> None" "table st' m' = table st m"
    by (fact el ok h t)+
  show "map_ok st' m'"
    using assms unfolding map_ok_def el ok h t by (auto simp: ensure_pairs_def split: if_splits)
  show "entries st' m' = entries st m" by (simp add: entries_def el h t)
  show "\<And>t. t < length (st_maps st) \<Longrightarrow> t < length (st_maps st') \<and> st_maps st' ! t = st_maps st ! t"
    using assms(1) by (auto simp: ensure_pairs_def nth_append split: if_splits)
qed

lemma table_set_pair:
  "Pairs m = Some t \<Longrightarrow> t < length (st_maps st) \<Longrightarrow> table (set_pair ck x m st) m = (table st m)(ck := x)"
  by (simp add: table_def set_pair_def)

lemma set_pair_slices [simp]:
  "elems (set_pair ck x m st) s = elems st s" "slice_ok (set_pair ck x m st) s = slice_ok st s"
  "length (st_maps (set_pair ck x m st)) = length (st_maps st)"
  by (simp_all add: set_pair_def)

lemma put_old:
  assumes ok: "map_ok st m" and t: "Pairs m = Some t" and ck: "table st m ck \<noteq> None"
  shows "map_ok (set_pair ck (Some x) m st) m"
    "entries (set_pair ck (Some x) m st) m = put_entry k ck x (entries st m)"
proof -
  have tl: "t < length (st_maps st)" using ok t by (simp add: map_ok_def)
  note tab = table_set_pair [OF t tl, of ck "Some x"]
  show "map_ok (set_pair ck (Some x) m st) m"
    using ok ck by (auto simp: map_ok_def tab)
  have "ck \<in> (fst \<circ> snd) ` set (entries st m)"
    using ck by (simp only: entries_key_set [OF ok] domIff simp_thms)
  then show "entries (set_pair ck (Some x) m st) m = put_entry k ck x (entries st m)"
    by (auto simp: put_entry_def entries_def tab)
qed

lemma put_new:
  assumes ok: "map_ok st m" and t: "Pairs m = Some t" and ck: "table st m ck = None"
    and a: "append1 e (Order m) k st = (ord, st1)" and b: "append1 e (Keys m) ck st1 = (keys, st2)"
  shows "map_ok (set_pair ck (Some x) (m\<lparr>Order := ord, Keys := keys\<rparr>) st2) (m\<lparr>Order := ord, Keys := keys\<rparr>)"
    "entries (set_pair ck (Some x) (m\<lparr>Order := ord, Keys := keys\<rparr>) st2) (m\<lparr>Order := ord, Keys := keys\<rparr>) =
      put_entry k ck x (entries st m)"
proof -
  let ?m = "m\<lparr>Order := ord, Keys := keys\<rparr>" and ?st = "set_pair ck (Some x) (m\<lparr>Order := ord, Keys := keys\<rparr>) st2"
  from ok have o: "slice_ok st (Order m)" "slice_ok st (Keys m)" "apart (Order m) (Keys m)"
    "sl_len (Order m) = sl_len (Keys m)" by (simp_all add: map_ok_def)
  note A = append1_spec [OF a o(1)]
  have k1: "slice_ok st1 (Keys m)" "elems st1 (Keys m) = elems st (Keys m)" "apart ord (Keys m)"
    using A(5-7) [OF o(2)] o(3) by blast+
  note B = append1_spec [OF b k1(1)]
  have o2: "slice_ok st2 ord" "elems st2 ord = elems st (Order m) @ [k]" "apart keys ord"
    using B(5-7) [OF A(2)] apart_sym [OF k1(3)] A(1) by auto
  have k2: "elems st2 keys = elems st (Keys m) @ [ck]" using B(1) k1(2) by simp
  have tl: "t < length (st_maps st2)" using ok t A(3) B(3) by (simp add: map_ok_def)
  have tab2: "table st2 ?m = table st m" using A(3) B(3) by (simp add: table_def cong: option.case_cong)
  have tab: "table ?st ?m = (table st m)(ck := Some x)"
    using table_set_pair [of ?m t st2 ck "Some x"] t tl tab2 by simp
  have new: "ck \<notin> set (elems st (Keys m))" using ok ck by (auto simp: map_ok_def)
  have len: "sl_len ord = sl_len keys"
    using length_elems [OF o2(1)] length_elems [OF B(2)] o2(2) k2 map_ok_length [OF ok] by simp
  show ok': "map_ok ?st ?m"
    unfolding map_ok_def tab
    using t tl o2 B(2) apart_sym [OF o2(3)] len new ok by (auto simp: k2 map_ok_def)
  have e1: "entries ?st ?m = map (\<lambda>(k, ck). (k, ck, the (table ?st ?m ck)))
      (zip (elems st (Order m)) (elems st (Keys m)) @ [(k, ck)])"
    using map_ok_length [OF ok] by (simp add: entries_def o2 k2)
  have "map (\<lambda>(k, ck). (k, ck, the (table ?st ?m ck))) (zip (elems st (Order m)) (elems st (Keys m))) = entries st m"
    using new by (auto simp: entries_def tab dest: set_zip_rightD)
  then have "entries ?st ?m = entries st m @ [(k, ck, x)]" using e1 by (simp add: tab)
  moreover have "ck \<notin> (fst \<circ> snd) ` set (entries st m)" using ck by (simp only: entries_key_set [OF ok] domIff simp_thms)
  ultimately show "entries ?st ?m = put_entry k ck x (entries st m)" by (simp add: put_entry_def)
qed

lemma Insert_ok:
  assumes "Insert e k x m st = (m', st')" "map_ok st m"
  shows "map_ok st' m'" "entries st' m' = put_entry k (canon e (st_nonce st) k) x (entries st m)"
proof -
  obtain ck st1 where c: "canonicalKey e k st = (ck, st1)" by fastforce
  obtain m2 st2 where p: "ensure_pairs m st1 = (m2, st2)" by fastforce
  note C = canonicalKey_ok [OF c]
  have ok1: "map_ok st1 m" using assms(2) C(2) by simp
  note P = ensure_pairs_ok [OF p ok1]
  obtain t where t: "Pairs m2 = Some t" using P(4) by auto
  have "map_ok st' m' \<and> entries st' m' = put_entry k ck x (entries st2 m2)"
  proof (cases "table st2 m2 ck = None")
    case True
    obtain ord st3 where a: "append1 e (Order m2) k st2 = (ord, st3)" by fastforce
    obtain keys st4 where b: "append1 e (Keys m2) ck st3 = (keys, st4)" by fastforce
    from assms(1) c p True a b have "m' = m2\<lparr>Order := ord, Keys := keys\<rparr>"
      "st' = set_pair ck (Some x) (m2\<lparr>Order := ord, Keys := keys\<rparr>) st4"
      by (auto simp: Insert_def set_pair_def table_def)
    with put_new [OF P(1) t True a b] show ?thesis by simp
  next
    case False
    with assms(1) c p have "m' = m2" "st' = set_pair ck (Some x) m2 st2" by (auto simp: Insert_def)
    with put_old [OF P(1) t False] show ?thesis by simp
  qed
  with P(3) C(1,6) show "map_ok st' m'" "entries st' m' = put_entry k (canon e (st_nonce st) k) x (entries st m)"
    by auto
qed

section \<open>Deletion\<close>

lemma slot_of_Some: "slot_of ck xs = Some i \<Longrightarrow> i < length xs \<and> xs ! i = ck"
  by (induction xs arbitrary: i) (auto split: if_splits)

lemma slot_of_None: "slot_of ck xs = None \<longleftrightarrow> ck \<notin> set xs"
  by (induction xs) auto

lemma without_filter:
  "distinct (map g xs) \<Longrightarrow> i < length xs \<Longrightarrow> without i xs = filter (\<lambda>x. g x \<noteq> g (xs ! i)) xs"
proof (induction xs arbitrary: i)
  case Nil
  then show ?case by simp
next
  case (Cons x xs)
  show ?case
  proof (cases i)
    case 0
    from Cons.prems have "g x \<notin> g ` set xs" by simp
    then have "\<forall>y\<in>set xs. g y \<noteq> g x" by (metis imageI)
    then show ?thesis by (simp add: 0 without_def filter_id_conv)
  next
    case (Suc j)
    with Cons.prems have "j < length xs" "g x \<noteq> g (xs ! j)" by auto
    with Suc Cons show ?thesis by (simp add: without_def)
  qed
qed

lemma zip_without:
  "length xs = length ys \<Longrightarrow> zip (without i xs) (without i ys) = without i (zip xs ys)"
  by (simp add: without_def zip_append take_zip drop_zip)

lemma set_without: "distinct xs \<Longrightarrow> i < length xs \<Longrightarrow> set (without i xs) = set xs - {xs ! i}"
  using without_filter [of id xs i] by auto

lemma distinct_without: "distinct xs \<Longrightarrow> i < length xs \<Longrightarrow> distinct (without i xs)"
  using without_filter [of id xs i] by simp

lemma drop_slot_ok:
  assumes d: "drop_slot e i m st = (m', st')"
    and o: "slice_ok st (Order m)" "slice_ok st (Keys m)" "apart (Order m) (Keys m)" "i < sl_len (Order m)"
    "sl_len (Order m) = sl_len (Keys m)"
  shows "elems st' (Order m') = without i (elems st (Order m))" "elems st' (Keys m') = without i (elems st (Keys m))"
    "slice_ok st' (Order m')" "slice_ok st' (Keys m')" "apart (Order m') (Keys m')" "sl_len (Order m') = sl_len (Keys m')"
    "st_maps st' = st_maps st" "Pairs m' = Pairs m"
proof -
  have "elems st' (Order m') = without i (elems st (Order m)) \<and> elems st' (Keys m') = without i (elems st (Keys m)) \<and>
    slice_ok st' (Order m') \<and> slice_ok st' (Keys m') \<and> apart (Order m') (Keys m') \<and>
    sl_len (Order m') = sl_len (Keys m') \<and> st_maps st' = st_maps st \<and> Pairs m' = Pairs m"
  proof (cases "shared m")
    case True
    obtain ord st1 where a: "clone_out e i (Order m) st = (ord, st1)" by fastforce
    obtain keys st2 where b: "clone_out e i (Keys m) st1 = (keys, st2)" by fastforce
    from d True a b have m': "m' = m\<lparr>Order := ord, Keys := keys, shared := False\<rparr>" "st' = st2"
      by (simp_all add: drop_slot_def)
    note A = clone_out_spec [OF a o(1,4)]
    from A(6) [OF o(2)] have k: "slice_ok st1 (Keys m)" "elems st1 (Keys m) = elems st (Keys m)" by blast+
    note B = clone_out_spec [OF b k(1)]
    show ?thesis using A B [OF o(4) [unfolded o(5)]] k(2) o(5) by (simp add: m' apart_sym)
  next
    case False
    obtain ord st1 where a: "shift_out i (Order m) st = (ord, st1)" by fastforce
    obtain keys st2 where b: "shift_out i (Keys m) st1 = (keys, st2)" by fastforce
    from d False a b have m': "m' = m\<lparr>Order := ord, Keys := keys\<rparr>" "st' = st2" by (simp_all add: drop_slot_def)
    note A = shift_out_spec [OF a o(1,4)]
    have k: "slice_ok st1 (Keys m)" "elems st1 (Keys m) = elems st (Keys m)" "apart ord (Keys m)"
      using A(5,7,8) o(2,3) by (auto simp: apart_def)
    note B = shift_out_spec [OF b k(1) o(4) [unfolded o(5)]]
    have "elems st2 ord = elems st1 ord" "slice_ok st2 ord" "apart ord keys"
      using B(5,7,8) A(2) apart_sym [OF k(3)] k(3) by (auto simp: apart_def)
    then show ?thesis using A B k(2) o(5) by (simp add: m')
  qed
  then show "elems st' (Order m') = without i (elems st (Order m))" "elems st' (Keys m') = without i (elems st (Keys m))"
    "slice_ok st' (Order m')" "slice_ok st' (Keys m')" "apart (Order m') (Keys m')" "sl_len (Order m') = sl_len (Keys m')"
    "st_maps st' = st_maps st" "Pairs m' = Pairs m"
    by blast+
qed

lemma Delete_ok:
  assumes "Delete e k m st = (b, m', st')" "map_ok st m"
  shows "map_ok st' m'" "entries st' m' = del_entry (canon e (st_nonce st) k) (entries st m)"
    "b \<longleftrightarrow> canon e (st_nonce st) k \<in> dom (table st m)"
proof -
  obtain ck st1 where c: "canonicalKey e k st = (ck, st1)" by fastforce
  note C = canonicalKey_ok [OF c]
  have ok: "map_ok st1 m" using assms(2) C(2) by simp
  have "map_ok st' m' \<and> entries st' m' = del_entry ck (entries st1 m) \<and> (b \<longleftrightarrow> ck \<in> dom (table st1 m))"
  proof (cases "table st1 m ck = None")
    case True
    have "ck \<notin> (fst \<circ> snd) ` set (entries st1 m)"
      using True by (simp only: entries_key_set [OF ok] domIff simp_thms)
    then have "del_entry ck (entries st1 m) = entries st1 m"
      by (force simp: del_entry_def filter_id_conv)
    then show ?thesis using assms(1) c True ok by (auto simp: Delete_def domIff)
  next
    case False
    let ?m = "m\<lparr>dels := dels m + 1\<rparr>" and ?st = "set_pair ck None m st1"
    obtain t where t: "Pairs m = Some t" using False by (auto simp: table_def split: option.splits)
    have tl: "t < length (st_maps st1)" using ok t by (simp add: map_ok_def)
    have o: "slice_ok st1 (Order m)" "slice_ok st1 (Keys m)" "apart (Order m) (Keys m)"
      "sl_len (Order m) = sl_len (Keys m)" "distinct (elems st1 (Keys m))"
      "set (elems st1 (Keys m)) = dom (table st1 m)"
      using ok by (simp_all add: map_ok_def)
    have "ck \<in> set (elems st1 (Keys m))" using False o(6) by auto
    then obtain i where i: "slot_of ck (elems st1 (Keys m)) = Some i" using slot_of_None by fastforce
    with slot_of_Some have il: "i < sl_len (Keys m)" "elems st1 (Keys m) ! i = ck"
      using length_elems [OF o(2)] by fastforce+
    from assms(1) c False i have b: "b" "drop_slot e i ?m ?st = (m', st')"
      by (auto simp: Delete_def Let_def)
    note D = drop_slot_ok [OF b(2), simplified, OF o(1-3) il(1) o(4)]
    have tab: "table st' m' = (table st1 m)(ck := None)"
      using table_set_pair [OF t tl, of ck None] D(7,8) by (simp add: table_def cong: option.case_cong)
    have kl: "i < length (elems st1 (Keys m))" using il(1) length_elems [OF o(2)] by simp
    have ol: "length (elems st1 (Order m)) = length (elems st1 (Keys m))" using map_ok_length [OF ok] .
    have ok': "map_ok st' m'"
      unfolding map_ok_def tab D(1,2)
      using D(3-8) t tl o(5,6) il(2) kl by (auto simp: set_without distinct_without)
    have "distinct (map snd (zip (elems st1 (Order m)) (elems st1 (Keys m))))" using o(5) ol by simp
    from without_filter [OF this, of i] kl ol il(2)
    have z: "zip (elems st' (Order m')) (elems st' (Keys m')) =
        filter (\<lambda>x. snd x \<noteq> ck) (zip (elems st1 (Order m)) (elems st1 (Keys m)))"
      by (simp add: D(1,2) zip_without)
    have "entries st' m' = del_entry ck (entries st1 m)"
      unfolding entries_def z del_entry_def filter_map
      by (rule map_cong) (auto simp: tab comp_def case_prod_unfold)
    then show ?thesis using ok' b(1) False by (simp add: domIff)
  qed
  with C(1,3,6) show "map_ok st' m'" "entries st' m' = del_entry (canon e (st_nonce st) k) (entries st m)"
    "b \<longleftrightarrow> canon e (st_nonce st) k \<in> dom (table st m)"
    by auto
qed

lemma Clear_ok:
  assumes "Clear m st = (m', st')" "map_ok st m"
  shows "map_ok st' m'" "entries st' m' = []"
  using assms by (auto simp: Clear_def map_ok_def entries_def table_def apart_nil)

section \<open>Walks\<close>

text \<open>
  What keeps a slice a walk holds from changing under it: the header's slice of the same kind (\<open>hs\<close>) is on
  another array, or the map is marked shared and only grows past it; the other slice (\<open>os\<close>) is always on
  another array.
\<close>

definition held :: "'v store \<Rightarrow> gslice \<Rightarrow> gslice \<Rightarrow> gslice \<Rightarrow> bool \<Rightarrow> bool" where
  "held st hs os s b \<longleftrightarrow>
     slice_ok st s \<and> apart os s \<and> (b \<or> apart hs s) \<and> (apart hs s \<or> sl_len s \<le> sl_len hs)"

lemma held_append:
  assumes "append1 e hs x st = (hs', st')" "slice_ok st hs" "held st hs os s b"
  shows "held st' hs' os s b" "elems st' s = elems st s"
  using append1_spec(5-8) [OF assms(1,2), of s] assms(3) by (auto simp: held_def)

lemma held_append_other:
  assumes "append1 e os x st = (os', st')" "slice_ok st os" "held st hs os s b"
  shows "held st' hs os' s b" "elems st' s = elems st s"
  using append1_spec(5-8) [OF assms(1,2), of s] assms(3) by (auto simp: held_def)

lemma held_shift:
  assumes "shift_out i hs st = (hs', st')" "slice_ok st hs" "i < sl_len hs" "held st hs os s False"
  shows "held st' hs' os s False" "elems st' s = elems st s"
  using shift_out_spec(7,8) [OF assms(1-3), of s] shift_out_spec(5) [OF assms(1-3)] assms(4) by (auto simp: held_def apart_def)

lemma held_shift_other:
  assumes "shift_out i os st = (os', st')" "slice_ok st os" "i < sl_len os" "held st hs os s b"
  shows "held st' hs os' s b" "elems st' s = elems st s"
  using shift_out_spec(7,8) [OF assms(1-3), of s] shift_out_spec(5) [OF assms(1-3)] assms(4) by (auto simp: held_def apart_def)

lemma held_clone:
  assumes "clone_out e i hs st = (hs', st')" "slice_ok st hs" "i < sl_len hs" "held st hs os s b"
  shows "held st' hs' os s c" "elems st' s = elems st s"
  using clone_out_spec(6) [OF assms(1-3), of s] assms(4) by (auto simp: held_def)

lemma held_clone_other:
  assumes "clone_out e i os st = (os', st')" "slice_ok st os" "i < sl_len os" "held st hs os s b"
  shows "held st' hs os' s b" "elems st' s = elems st s"
  using clone_out_spec(6) [OF assms(1-3), of s] assms(4) by (auto simp: held_def)

lemma held_store:
  "elems st' = elems st \<Longrightarrow> slice_ok st' = slice_ok st \<Longrightarrow> held st' hs os s b = held st hs os s b"
  by (simp add: held_def)

lemma held_set_pair [simp]: "held (set_pair ck x m st) hs os s b = held st hs os s b"
  by (simp add: held_def)

definition walk_held :: "'v store \<Rightarrow> map_header \<Rightarrow> map_walk \<Rightarrow> bool" where
  "walk_held st m w \<longleftrightarrow>
     held st (Order m) (Keys m) (w_display w) (shared m) \<and> held st (Keys m) (Order m) (w_canonical w) (shared m)"

text \<open>What a step keeps of a walk: its two slices are held and have the elements they had.\<close>

definition walk_same :: "map_walk \<Rightarrow> map_header \<Rightarrow> 'v store \<Rightarrow> map_header \<Rightarrow> 'v store \<Rightarrow> bool" where
  "walk_same w m st m' st' \<longleftrightarrow>
     walk_held st' m' w \<and> elems st' (w_display w) = elems st (w_display w) \<and>
     elems st' (w_canonical w) = elems st (w_canonical w)"

lemma walk_append:
  assumes "append1 e (Order m) k st = (ord, st1)" "append1 e (Keys m) ck st1 = (keys, st2)"
    "slice_ok st (Order m)" "slice_ok st (Keys m)" "walk_held st m w"
  shows "walk_same w m st (m\<lparr>Order := ord, Keys := keys\<rparr>) st2"
proof -
  note o = assms(3,4)
  have h: "held st (Order m) (Keys m) (w_display w) (shared m)" "held st (Keys m) (Order m) (w_canonical w) (shared m)"
    using assms(5) by (simp_all add: walk_held_def)
  have k: "slice_ok st1 (Keys m)" using append1_spec(5) [OF assms(1) o(1) o(2)] .
  note d1 = held_append [OF assms(1) o(1) h(1)] and c1 = held_append_other [OF assms(1) o(1) h(2)]
  note d2 = held_append_other [OF assms(2) k d1(1)] and c2 = held_append [OF assms(2) k c1(1)]
  show ?thesis using d1 c1 d2 c2 by (simp add: walk_same_def walk_held_def)
qed

lemma walk_drop_slot:
  assumes "drop_slot e i m st = (m', st')" "slice_ok st (Order m)" "slice_ok st (Keys m)"
    "i < sl_len (Order m)" "i < sl_len (Keys m)" "walk_held st m w"
  shows "walk_same w m st m' st'"
proof (cases "shared m")
  case True
  obtain ord st1 where a: "clone_out e i (Order m) st = (ord, st1)" by fastforce
  obtain keys st2 where b: "clone_out e i (Keys m) st1 = (keys, st2)" by fastforce
  have k: "slice_ok st1 (Keys m)" using clone_out_spec(6) [OF a assms(2,4,3)] by blast
  have h: "held st (Order m) (Keys m) (w_display w) True" "held st (Keys m) (Order m) (w_canonical w) True"
    using assms(6) True by (simp_all add: walk_held_def)
  note d1 = held_clone [OF a assms(2,4) h(1)] and c1 = held_clone_other [OF a assms(2,4) h(2)]
  note d2 = held_clone_other [OF b k assms(5) d1(1)] and c2 = held_clone [OF b k assms(5) c1(1)]
  from assms(1) True a b have "m' = m\<lparr>Order := ord, Keys := keys, shared := False\<rparr>" "st' = st2"
    by (simp_all add: drop_slot_def)
  then show ?thesis using d1 c1 d2 c2 by (simp add: walk_same_def walk_held_def)
next
  case False
  obtain ord st1 where a: "shift_out i (Order m) st = (ord, st1)" by fastforce
  obtain keys st2 where b: "shift_out i (Keys m) st1 = (keys, st2)" by fastforce
  have k: "slice_ok st1 (Keys m)" using shift_out_spec(7) [OF a assms(2,4,3)] .
  have h: "held st (Order m) (Keys m) (w_display w) False" "held st (Keys m) (Order m) (w_canonical w) False"
    using assms(6) False by (simp_all add: walk_held_def)
  note d1 = held_shift [OF a assms(2,4) h(1)] and c1 = held_shift_other [OF a assms(2,4) h(2)]
  note d2 = held_shift_other [OF b k assms(5) d1(1)] and c2 = held_shift [OF b k assms(5) c1(1)]
  from assms(1) False a b have "m' = m\<lparr>Order := ord, Keys := keys\<rparr>" "st' = st2"
    by (simp_all add: drop_slot_def)
  then show ?thesis using d1 c1 d2 c2 False by (simp add: walk_same_def walk_held_def)
qed

lemma walk_same_refl: "walk_held st m w \<Longrightarrow> walk_same w m st m st"
  by (simp add: walk_same_def)

lemma Insert_walk:
  assumes "Insert e k x m st = (m', st')" "map_ok st m" "walk_held st m w"
  shows "walk_same w m st m' st'" "aliased m' = aliased m" "dels m' = dels m"
    "dom (table st m) \<subseteq> dom (table st' m')"
proof -
  obtain ck st1 where c: "canonicalKey e k st = (ck, st1)" by fastforce
  obtain m2 st2 where p: "ensure_pairs m st1 = (m2, st2)" by fastforce
  note C = canonicalKey_ok [OF c]
  have ok1: "map_ok st1 m" using assms(2) C(2) by simp
  note P = ensure_pairs_ok [OF p ok1]
  have same: "elems st2 = elems st" "slice_ok st2 = slice_ok st" using C(4,5) P(5,6) by simp_all
  have w2: "walk_held st2 m2 w"
    using assms(3) by (simp add: walk_held_def held_store [OF same] P)
  have "walk_same w m2 st2 m' st' \<and> aliased m' = aliased m \<and> dels m' = dels m"
  proof (cases "table st2 m2 ck = None")
    case True
    obtain ord st3 where a: "append1 e (Order m2) k st2 = (ord, st3)" by fastforce
    obtain keys st4 where b: "append1 e (Keys m2) ck st3 = (keys, st4)" by fastforce
    from assms(1) c p True a b have "m' = m2\<lparr>Order := ord, Keys := keys\<rparr>" "st' = set_pair ck (Some x) m2 st4"
      by (auto simp: Insert_def)
    moreover have "slice_ok st2 (Order m2)" "slice_ok st2 (Keys m2)" using P(1) by (simp_all add: map_ok_def)
    ultimately show ?thesis using walk_append [OF a b _ _ w2] P(10,11) by (simp add: walk_same_def walk_held_def)
  next
    case False
    with assms(1) c p have "m' = m2" "st' = set_pair ck (Some x) m2 st2" by (auto simp: Insert_def)
    with w2 P(10,11) show ?thesis by (simp add: walk_same_def walk_held_def)
  qed
  then show "walk_same w m st m' st'" "aliased m' = aliased m" "dels m' = dels m"
    using same by (simp_all add: walk_same_def)
  have "set (elems st (Keys m)) = dom (table st m)" using assms(2) by (simp add: map_ok_def)
  have "dom (table st m) = (fst \<circ> snd) ` set (entries st m)" using entries_key_set [OF assms(2)] by simp
  also have "\<dots> \<subseteq> (fst \<circ> snd) ` set (put_entry k (canon e (st_nonce st) k) x (entries st m))"
    by (force simp: put_entry_def)
  also have "\<dots> = dom (table st' m')"
    using entries_key_set [OF Insert_ok(1) [OF assms(1,2)]] Insert_ok(2) [OF assms(1,2)] by simp
  finally show "dom (table st m) \<subseteq> dom (table st' m')" .
qed

lemma Delete_walk:
  assumes "Delete e k m st = (b, m', st')" "map_ok st m" "walk_held st m w"
  shows "walk_same w m st m' st'" "aliased m' = aliased m"
    "(m' = m \<and> table st' m' = table st m) \<or> dels m' = dels m + 1"
proof -
  obtain ck st1 where c: "canonicalKey e k st = (ck, st1)" by fastforce
  note C = canonicalKey_ok [OF c]
  have ok: "map_ok st1 m" using assms(2) C(2) by simp
  have w1: "walk_held st1 m w" using assms(3) by (simp add: walk_held_def held_store [OF C(4,5)])
  have "walk_same w m st1 m' st' \<and> aliased m' = aliased m \<and> (m' = m \<and> table st' m' = table st m \<or> dels m' = dels m + 1)"
  proof (cases "table st1 m ck = None")
    case True
    then show ?thesis using assms(1) c w1 C(3) by (auto simp: Delete_def walk_same_refl)
  next
    case False
    let ?m = "m\<lparr>dels := dels m + 1\<rparr>" and ?st = "set_pair ck None m st1"
    have o: "slice_ok st1 (Order m)" "slice_ok st1 (Keys m)" "sl_len (Order m) = sl_len (Keys m)"
      "set (elems st1 (Keys m)) = dom (table st1 m)" using ok by (simp_all add: map_ok_def)
    have "ck \<in> set (elems st1 (Keys m))" using False o(4) by auto
    then obtain i where i: "slot_of ck (elems st1 (Keys m)) = Some i" using slot_of_None by fastforce
    with slot_of_Some have il: "i < sl_len (Keys m)" using length_elems [OF o(2)] by fastforce
    from assms(1) c False i have b: "drop_slot e i ?m ?st = (m', st')" by (auto simp: Delete_def Let_def)
    have "walk_held ?st ?m w" using w1 by (simp add: walk_held_def)
    with walk_drop_slot [OF b] o(1-3) il have "walk_same w ?m ?st m' st'" by simp
    moreover have "aliased m' = aliased m" "dels m' = dels m + 1"
      using b by (auto simp: drop_slot_def split: if_splits prod.splits)
    ultimately show ?thesis by (simp add: walk_same_def)
  qed
  then show "walk_same w m st m' st'" "aliased m' = aliased m"
    "(m' = m \<and> table st' m' = table st m) \<or> dels m' = dels m + 1"
    using C(4) by (simp_all add: walk_same_def)
qed

lemma Clear_walk:
  assumes "Clear m st = (m', st')" "walk_held st m w"
  shows "walk_same w m st m' st'" "aliased m' = aliased m" "dels m' = dels m + 1"
  using assms by (auto simp: Clear_def walk_same_def walk_held_def held_def apart_nil)

text \<open>What the program can do through one header, while a walk over it runs.\<close>

inductive map_step :: "'v key_env \<Rightarrow> map_header \<times> 'v store \<Rightarrow> map_header \<times> 'v store \<Rightarrow> bool" for e where
  ins: "Insert e k x m st = (m', st') \<Longrightarrow> map_step e (m, st) (m', st')"
| del: "Delete e k m st = (b, m', st') \<Longrightarrow> map_step e (m, st) (m', st')"
| clr: "Clear m st = (m', st') \<Longrightarrow> map_step e (m, st) (m', st')"
| wlk: "BeginWalk m = (w, m') \<Longrightarrow> map_step e (m, st) (m', st)"
| get: "Get e k m st = (r, st') \<Longrightarrow> map_step e (m, st) (m, st')"

inductive_cases map_stepE: "map_step e (m, st) (m', st')"

text \<open>The invariant of a walk: its slices, and the removals it has seen.\<close>

definition walk_inv :: "map_walk \<Rightarrow> 'v list \<Rightarrow> 'v list \<Rightarrow> bool \<Rightarrow> map_header \<times> 'v store \<Rightarrow> bool" where
  "walk_inv w xs ys al ms \<longleftrightarrow>
     (case ms of (m, st) \<Rightarrow>
        map_ok st m \<and> walk_held st m w \<and> elems st (w_display w) = xs \<and> elems st (w_canonical w) = ys \<and>
        aliased m = al \<and> w_dels w \<le> dels m \<and> (dels m = w_dels w \<longrightarrow> set ys \<subseteq> dom (table st m)))"

lemma walk_inv_same:
  "walk_inv w xs ys al (m, st) \<Longrightarrow> walk_same w m st m' st' \<Longrightarrow> map_ok st' m' \<Longrightarrow> aliased m' = aliased m \<Longrightarrow>
   (dels m' = dels m \<and> dom (table st m) \<subseteq> dom (table st' m')) \<or> dels m' = dels m + 1 \<Longrightarrow>
   walk_inv w xs ys al (m', st')"
  unfolding walk_inv_def walk_same_def prod.case using subset_trans [of "set ys" "dom (table st m)"]
  by (elim conjE disjE) simp_all

lemma walk_inv_step:
  assumes "walk_inv w xs ys al ms" "map_step e ms ms'"
  shows "walk_inv w xs ys al ms'"
  using assms(2)
proof cases
  case (ins k x m st m' st')
  with assms(1) have i: "walk_inv w xs ys al (m, st)" "map_ok st m" "walk_held st m w" by (simp_all add: walk_inv_def)
  from Insert_walk [OF ins(3) i(2,3)] Insert_ok(1) [OF ins(3) i(2)] show ?thesis
    unfolding ins(2) by (intro walk_inv_same [OF i(1)]) simp_all
next
  case (del k m st b m' st')
  with assms(1) have i: "walk_inv w xs ys al (m, st)" "map_ok st m" "walk_held st m w" by (simp_all add: walk_inv_def)
  from Delete_walk [OF del(3) i(2,3)] Delete_ok(1) [OF del(3) i(2)] show ?thesis
    unfolding del(2) by (intro walk_inv_same [OF i(1)]) auto
next
  case (clr m st m' st')
  with assms(1) have i: "walk_inv w xs ys al (m, st)" "map_ok st m" "walk_held st m w" by (simp_all add: walk_inv_def)
  from Clear_walk [OF clr(3) i(3)] Clear_ok(1) [OF clr(3) i(2)] show ?thesis
    unfolding clr(2) by (intro walk_inv_same [OF i(1)]) simp_all
next
  case (wlk m v m' st)
  then have m': "m' = m\<lparr>shared := True\<rparr>" by (simp add: BeginWalk_def)
  have "map_ok st m' = map_ok st m" "table st m' = table st m" "walk_held st m w \<Longrightarrow> walk_held st m' w"
    by (simp_all add: m' map_ok_def table_def walk_held_def held_def)
  then show ?thesis using assms(1) unfolding wlk(1,2) walk_inv_def by (simp add: m')
next
  case (get k m st r st')
  then obtain ck where c: "canonicalKey e k st = (ck, st')" by (auto simp: Get_def split: prod.splits)
  note C = canonicalKey_ok [OF c]
  from assms(1) show ?thesis unfolding get(1,2)
    by (simp add: walk_inv_def walk_held_def C held_store [OF C(4,5)])
qed

lemma walk_inv_start:
  assumes "map_ok st m" "BeginWalk m = (w, m')"
  shows "walk_inv w (elems st (Order m)) (elems st (Keys m)) (aliased m) (m', st)"
  using assms
  by (auto simp: BeginWalk_def walk_inv_def walk_held_def held_def map_ok_def table_def dest: apart_sym)

interpretation walks: transition "map_step e" "walk_inv w xs ys al" for e w xs ys al
  by unfold_locales (rule walk_inv_step)

lemma reach_map_ok: "(map_step e)\<^sup>*\<^sup>* (m, st) (m', st') \<Longrightarrow> BeginWalk m0 = (w, m) \<Longrightarrow> map_ok st m0 \<Longrightarrow> map_ok st' m'"
  by (drule walks.run_keeps, erule (1) walk_inv_start) (simp add: walk_inv_def)

lemma put_entry_in: "\<exists>d. (d, ck, x) \<in> set (put_entry k ck x es)"
proof (cases "ck \<in> (fst \<circ> snd) ` set es")
  case True
  then obtain d y where "(d, ck, y) \<in> set es" by auto
  then have "(d, ck, x) \<in> (\<lambda>(d, c, y). (d, c, if c = ck then x else y)) ` set es"
    by (rule image_eqI [rotated]) simp
  moreover have "set (put_entry k ck x es) = (\<lambda>(d, c, y). (d, c, if c = ck then x else y)) ` set es"
    using True by (simp add: put_entry_def)
  ultimately show ?thesis by blast
qed (auto simp: put_entry_def)

lemma entry_lookup:
  assumes "map_ok st m" "(d, c, y) \<in> set (entries st m)"
  shows "table st m c = Some y"
proof -
  have "(fst \<circ> snd) (d, c, y) \<in> (fst \<circ> snd) ` set (entries st m)" using assms(2) by (rule imageI)
  then have "c \<in> dom (table st m)" using entries_key_set [OF assms(1)] by simp
  with assms(2) show ?thesis by (auto simp: entries_def)
qed

section \<open>Properties\<close>

text \<open>
  C34: insertion keeps the representation and refines the insertion into the list of entries: the value of an
  entry with the same canonical key is replaced where it stands, a new key goes to the end.
\<close>

theorem Insert_refines:
  assumes "map_ok st m" "Insert e k x m st = (m', st')"
  shows "map_ok st' m' \<and> entries st' m' = put_entry k (canon e (st_nonce st) k) x (entries st m)"
  using Insert_ok [OF assms(2,1)] by blast

text \<open>
  C33: deletion keeps the representation, whether it shifts in place or copies, and refines the removal from
  the list of entries; it answers whether the key was there.
\<close>

theorem Delete_refines:
  assumes "map_ok st m" "Delete e k m st = (b, m', st')"
  shows "map_ok st' m' \<and> entries st' m' = del_entry (canon e (st_nonce st) k) (entries st m) \<and>
    (b \<longleftrightarrow> canon e (st_nonce st) k \<in> (fst \<circ> snd) ` set (entries st m))"
  using Delete_ok [OF assms(2,1)] entries_key_set [OF assms(1)] by auto

text \<open>
  C35: a key with one canonical form is found under the value it was stored with, and is gone once deleted.
\<close>

theorem insert_get_delete:
  assumes "map_ok st m" "\<forall>n n'. canon e n k = canon e n' k"
    and "Insert e k x m st = (m1, st1)" "Delete e k m1 st1 = (b, m2, st2)"
  shows "fst (Get e k m1 st1) = Some x \<and> b \<and> fst (Get e k m2 st2) = None"
proof -
  let ?ck = "canon e (st_nonce st) k"
  have ck: "canon e n k = ?ck" for n using assms(2) by blast
  have ok1: "map_ok st1 m1" and e1: "entries st1 m1 = put_entry k ?ck x (entries st m)"
    using Insert_ok [OF assms(3,1)] by simp_all
  have ok2: "map_ok st2 m2" and e2: "entries st2 m2 = del_entry ?ck (entries st1 m1)"
    and b: "b \<longleftrightarrow> ?ck \<in> dom (table st1 m1)"
    using Delete_ok [OF assms(4) ok1] unfolding ck [of "st_nonce st1"] by simp_all
  have get: "fst (Get e k m' s') = table s' m' ?ck" for m' s'
    using ck [of "st_nonce s'"] by (simp add: Get_def canonicalKey_def table_def cong: option.case_cong)
  obtain d where "(d, ?ck, x) \<in> set (entries st1 m1)" using put_entry_in unfolding e1 by metis
  with ok1 have t1: "table st1 m1 ?ck = Some x" by (rule entry_lookup)
  have "?ck \<notin> (fst \<circ> snd) ` set (entries st2 m2)" by (auto simp: e2 del_entry_def)
  then have "table st2 m2 ?ck = None" by (simp only: entries_key_set [OF ok2] domIff simp_thms)
  with t1 b show ?thesis by (auto simp: get)
qed

text \<open>
  \<open>Key\<close> answers what \<open>At\<close> answers, also where it skips the lookup because nothing was removed.
\<close>

theorem walk_key_agrees:
  assumes "map_ok st m" "BeginWalk m = (w, m1)" "(map_step e)\<^sup>*\<^sup>* (m1, st) (m2, st2)" "i < walk_len w"
  shows "walk_key st2 m2 w i = (fst (walk_at st2 m2 w i), snd (walk_at st2 m2 w i) \<noteq> None)"
proof -
  have inv: "walk_inv w (elems st (Order m)) (elems st (Keys m)) (aliased m) (m2, st2)"
    using walks.run_keeps [OF assms(3) walk_inv_start [OF assms(1,2)]] .
  have "i < sl_len (Order m)" using assms(2,4) by (auto simp: walk_len_def BeginWalk_def)
  then have "i < length (elems st (Keys m))"
    using assms(1) length_elems [of st "Keys m"] by (simp add: map_ok_def)
  then have "elems st (Keys m) ! i \<in> set (elems st (Keys m))" by simp
  with inv show ?thesis by (auto simp: walk_inv_def walk_key_def walk_at_def)
qed

text \<open>
  a second header is not the same map: a key inserted through it is found through the first header, which
  neither counts nor lists it.
\<close>

theorem header_insert_unlisted:
  assumes "map_ok st m" "Pairs m \<noteq> None" "Header m = (m1, h)"
    and "Insert e k x h st = (h', st')" "canon e (st_nonce st) k \<notin> dom (table st m)"
  shows "LookupCanonical st' m1 (canon e (st_nonce st) k) = Some x \<and> Len m1 = Len m \<and>
    canon e (st_nonce st) k \<notin> set (elems st' (Keys m1)) \<and> \<not> map_ok st' m1"
proof -
  obtain ck st1 where c: "canonicalKey e k st = (ck, st1)" by fastforce
  note C = canonicalKey_ok [OF c]
  have h: "m1 = m\<lparr>shared := True, aliased := True\<rparr>" "Pairs h = Pairs m" "Order h = Order m" "Keys h = Keys m"
    using assms(3) by (auto simp: Header_def Let_def)
  have tab: "table st1 h = table st m" using C(3) [of h] h(2) by (simp add: table_def cong: option.case_cong)
  have new: "table st1 h ck = None" using assms(5) C(1) tab by (simp add: domIff)
  have p: "ensure_pairs h st1 = (h, st1)" using assms(2) h(2) by (auto simp: ensure_pairs_def)
  obtain ord st2 where a: "append1 e (Order m) k st1 = (ord, st2)" by fastforce
  obtain keys st3 where b: "append1 e (Keys m) ck st2 = (keys, st3)" by fastforce
  have st': "st' = set_pair ck (Some x) h st3"
    using assms(4) by (simp add: Insert_def c p new a b h)
  have o: "slice_ok st1 (Order m)" "slice_ok st1 (Keys m)" "apart (Order m) (Keys m)"
    using assms(1) C(5) by (simp_all add: map_ok_def)
  note A = append1_spec [OF a o(1)]
  have k: "slice_ok st2 (Keys m)" "elems st2 (Keys m) = elems st1 (Keys m)" using A(5,6) [OF o(2)] o(3) by blast+
  note B = append1_spec [OF b k(1)]
  have keys: "elems st' (Keys m1) = elems st (Keys m)"
    using B(6) [OF k(1)] k(2) C(4) by (simp add: st' h(1))
  obtain t where t: "Pairs m = Some t" "t < length (st_maps st)" using assms(1,2) by (auto simp: map_ok_def)
  have "t < length (st_maps st3)" using t(2) A(3) B(3) C(7) by simp
  with t have found: "table st' m1 ck = Some x"
    by (simp add: st' table_def set_pair_def h(1) h(2))
  have "ck \<notin> set (elems st (Keys m))" using assms(1,5) C(1) by (simp add: map_ok_def)
  then show ?thesis
    using found keys C(1) by (auto simp: LookupCanonical_def Len_def h(1) map_ok_def)
qed

section \<open>Witnesses\<close>

definition nat_env :: "nat key_env" where
  "nat_env = \<lparr>zero = 0, spare = (\<lambda>n. n), canon = (\<lambda>n k. k)\<rparr>"

definition store0 :: "nat store" where
  "store0 = \<lparr>st_arrs = [], st_maps = [], st_nonce = 0\<rparr>"

lemma empty_ok: "map_ok store0 emptyMap"
  by (simp add: map_ok_def emptyMap_def table_def apart_nil)

lemma Insert_refines_witness:
  "entries (snd (Insert nat_env 5 50 emptyMap store0)) (fst (Insert nat_env 5 50 emptyMap store0)) = [(5, 5, 50)]"
  using Insert_refines [OF empty_ok prod.collapse [symmetric], of nat_env 5 50]
  by (simp add: entries_def emptyMap_def put_entry_def nat_env_def)

definition one_map :: map_header where
  "one_map = fst (Insert nat_env 5 50 emptyMap store0)"

definition one_store :: "nat store" where
  "one_store = snd (Insert nat_env 5 50 emptyMap store0)"

lemma one_ok: "map_ok one_store one_map" "entries one_store one_map = [(5, 5, 50)]"
  using Insert_ok [OF prod.collapse [symmetric] empty_ok, of nat_env 5 50]
  by (simp_all add: one_map_def one_store_def entries_def emptyMap_def put_entry_def nat_env_def)

lemma Delete_refines_witness:
  "entries (snd (snd (Delete nat_env 5 one_map one_store))) (fst (snd (Delete nat_env 5 one_map one_store))) = []"
  using Delete_refines [OF one_ok(1), of nat_env 5] one_ok(2)
  by (cases "Delete nat_env 5 one_map one_store") (simp add: del_entry_def nat_env_def)

lemma insert_get_delete_witness: "fst (Get nat_env 5 one_map one_store) = Some 50"
  using insert_get_delete [of store0 emptyMap nat_env 5 50 one_map one_store] empty_ok
  by (cases "Delete nat_env 5 one_map one_store") (simp add: one_map_def one_store_def nat_env_def)

lemma one_walk: "walk_len (fst (BeginWalk one_map)) = 1" "elems one_store (Order one_map) = [5]"
  "elems one_store (Keys one_map) = [5]"
  by code_simp+

definition deleted :: "bool \<times> map_header \<times> nat store" where
  "deleted = Delete nat_env 5 (snd (BeginWalk one_map)) one_store"

lemma one_run: "(map_step nat_env)\<^sup>*\<^sup>* (snd (BeginWalk one_map), one_store) (snd deleted)"
  by (rule r_into_rtranclp) (metis del deleted_def prod.collapse)

lemma walk_key_agrees_witness:
  "snd (walk_key (snd (snd deleted)) (fst (snd deleted)) (fst (BeginWalk one_map)) 0) =
   (snd (walk_at (snd (snd deleted)) (fst (snd deleted)) (fst (BeginWalk one_map)) 0) \<noteq> None)"
  using walk_key_agrees [OF one_ok(1) prod.collapse [symmetric], of nat_env "fst (snd deleted)" "snd (snd deleted)" 0]
    one_run one_walk by simp

lemma header_insert_unlisted_witness:
  "LookupCanonical (snd (Insert nat_env 6 60 (snd (Header one_map)) one_store)) (fst (Header one_map)) 6 = Some 60 \<and>
   Len (fst (Header one_map)) = 1"
proof -
  have "dom (table one_store one_map) = {5}" using entries_key_set [OF one_ok(1)] by (simp add: one_ok(2))
  then have "6 \<notin> dom (table one_store one_map)" by simp
  moreover have "Pairs one_map \<noteq> None" by code_simp
  moreover have "Len one_map = 1" by code_simp
  ultimately show ?thesis
    using header_insert_unlisted [OF one_ok(1) _ prod.collapse [symmetric] prod.collapse [symmetric], of nat_env 6 60]
    by (simp add: nat_env_def)
qed

end
