(* ===== verification/MapHeaders.thy ===== *)
theory MapHeaders
  imports MapStore
begin

text \<open>
  All the maps of a program together: headers over one store, several of which may share a map and its order slices
  (\<open>Map.Header\<close> in \<open>runtime/value.go\<close>), with the operations through any of them. What a walk over one header is
  guaranteed whatever happens through all of them, and the case in which it is not.
\<close>

section \<open>Headers over one store\<close>

type_synonym 'v family = "map_header list \<times> 'v store"

inductive fam_step :: "'v key_env \<Rightarrow> 'v family \<Rightarrow> 'v family \<Rightarrow> bool" for e where
  new_map: "fam_step e (hs, st) (hs @ [emptyMap], st)"
| through: "i < length hs \<Longrightarrow> map_step e (hs ! i, st) (m', st') \<Longrightarrow> fam_step e (hs, st) (hs[i := m'], st')"
| second: "i < length hs \<Longrightarrow> Header (hs ! i) = (m', h) \<Longrightarrow> fam_step e (hs, st) (hs[i := m'] @ [h], st)"

definition no_maps :: "'v family" where
  "no_maps = ([], \<lparr>st_arrs = [], st_maps = [], st_nonce = 0\<rparr>)"

definition fam_reached :: "'v key_env \<Rightarrow> 'v family \<Rightarrow> bool" where
  "fam_reached e c \<longleftrightarrow> (fam_step e)\<^sup>*\<^sup>* no_maps c"

section \<open>One operation\<close>

definition header_ok :: "'v store \<Rightarrow> map_header \<Rightarrow> bool" where
  "header_ok st m \<longleftrightarrow>
     (\<forall>t. Pairs m = Some t \<longrightarrow> t < length (st_maps st)) \<and> slice_ok st (Order m) \<and> slice_ok st (Keys m) \<and>
     apart (Order m) (Keys m) \<and> sl_len (Order m) = sl_len (Keys m)"

text \<open>A slice on an array of its own, and a slice that stayed on its array or moved to one of its own.\<close>

definition fresh :: "'v store \<Rightarrow> gslice \<Rightarrow> bool" where
  "fresh st s \<longleftrightarrow> (\<forall>t. slice_ok st t \<longrightarrow> apart s t)"

definition moved :: "'v store \<Rightarrow> gslice \<Rightarrow> gslice \<Rightarrow> bool" where
  "moved st s s' \<longleftrightarrow> sl_arr s' = sl_arr s \<or> fresh st s'"

lemma moved_apart: "moved st s s' \<Longrightarrow> slice_ok st t \<Longrightarrow> apart s t \<Longrightarrow> apart s' t"
  by (auto simp: moved_def fresh_def apart_def)

lemma moved_refl [simp]: "moved st s s"
  by (simp add: moved_def)

definition slices_kept :: "'v store \<Rightarrow> 'v store \<Rightarrow> bool" where
  "slices_kept st st' \<longleftrightarrow> length (st_maps st) \<le> length (st_maps st') \<and> (\<forall>t. slice_ok st t \<longrightarrow> slice_ok st' t)"

text \<open>What an operation through a header keeps: the header, the other slices, and the walks it holds.\<close>

definition op_ok :: "map_header \<Rightarrow> 'v store \<Rightarrow> map_header \<Rightarrow> 'v store \<Rightarrow> bool" where
  "op_ok m st m' st' \<longleftrightarrow>
     header_ok st' m' \<and> slices_kept st st' \<and> moved st (Order m) (Order m') \<and> moved st (Keys m) (Keys m') \<and>
     (shared m \<longrightarrow> shared m' \<or> fresh st (Order m') \<and> fresh st (Keys m')) \<and>
     (\<forall>w. walk_held st m w \<longrightarrow> walk_same w m st m' st')"

lemma op_okI:
  assumes "header_ok st' m'" "slices_kept st st'" "moved st (Order m) (Order m')" "moved st (Keys m) (Keys m')"
    "shared m \<Longrightarrow> shared m' \<or> fresh st (Order m') \<and> fresh st (Keys m')"
    "\<And>w. walk_held st m w \<Longrightarrow> walk_same w m st m' st'"
  shows "op_ok m st m' st'"
  using assms by (simp add: op_ok_def)

text \<open>The store may change where no slice looks, before and after.\<close>

definition same_slices :: "'v store \<Rightarrow> 'v store \<Rightarrow> bool" where
  "same_slices st st' \<longleftrightarrow> elems st' = elems st \<and> slice_ok st' = slice_ok st \<and> length (st_maps st) \<le> length (st_maps st')"

lemma same_slices_refl [simp]: "same_slices st st"
  by (simp add: same_slices_def)

lemma same_slices_trans: "same_slices a b \<Longrightarrow> same_slices b c \<Longrightarrow> same_slices a c"
  by (simp add: same_slices_def)

lemma same_canonical: "canonicalKey e k st = (ck, st') \<Longrightarrow> same_slices st st'"
  by (auto simp: canonicalKey_def same_slices_def fun_eq_iff)

lemma same_set_pair [simp]: "same_slices st (set_pair ck x m st)"
  by (auto simp: same_slices_def fun_eq_iff)

lemma same_ensure: "ensure_pairs m st = (m', st') \<Longrightarrow> same_slices st st'"
  by (auto simp: same_slices_def ensure_pairs_def fun_eq_iff split: if_splits)

lemma same_held: "same_slices st st' \<Longrightarrow> walk_held st' m w = walk_held st m w"
  unfolding walk_held_def same_slices_def using held_store [of st' st] by (elim conjE) simp

lemma same_header: "same_slices st st' \<Longrightarrow> header_ok st m \<Longrightarrow> header_ok st' m"
  unfolding same_slices_def header_ok_def by (elim conjE) (simp only:, auto)

lemma ensure_header:
  assumes "ensure_pairs m st = (m', st')" "header_ok st m"
  shows "header_ok st' m'"
proof (cases "Pairs m")
  case None
  then have "m' = m\<lparr>Pairs := Some (length (st_maps st))\<rparr>" "st' = st\<lparr>st_maps := st_maps st @ [Map.empty]\<rparr>"
    using assms(1) by (simp_all add: ensure_pairs_def)
  then show ?thesis using assms(2) by (simp add: header_ok_def)
next
  case (Some t)
  then show ?thesis using assms by (simp add: ensure_pairs_def)
qed

lemma op_ok_before:
  assumes "same_slices st st1" "Order m1 = Order m" "Keys m1 = Keys m" "shared m1 = shared m" "op_ok m1 st1 m' st'"
  shows "op_ok m st m' st'"
proof -
  have [simp]: "slice_ok st1 = slice_ok st" "elems st1 = elems st" and l: "length (st_maps st) \<le> length (st_maps st1)"
    using assms(1) by (simp_all add: same_slices_def)
  have "fresh st1 = fresh st" "moved st1 = moved st" by (auto simp: fresh_def moved_def fun_eq_iff)
  moreover have "walk_held st1 m1 w = walk_held st m w" for w using same_held [OF assms(1)] assms(2-4) by (simp add: walk_held_def)
  ultimately show ?thesis using assms(2-5) by (auto simp: op_ok_def slices_kept_def walk_same_def intro: le_trans [OF l])
qed

lemma op_ok_after:
  assumes "op_ok m st m' st1" "same_slices st1 st'"
  shows "op_ok m st m' st'"
proof -
  have [simp]: "slice_ok st' = slice_ok st1" "elems st' = elems st1" and l: "length (st_maps st1) \<le> length (st_maps st')"
    using assms(2) by (simp_all add: same_slices_def)
  have "header_ok st' m'" using assms(1) l by (fastforce simp: op_ok_def header_ok_def)
  moreover have "walk_held st' m' w = walk_held st1 m' w" for w using same_held [OF assms(2)] .
  ultimately show ?thesis using assms by (auto simp: op_ok_def slices_kept_def walk_same_def intro: le_trans [OF _ l])
qed

lemma op_ok_refl: "header_ok st m \<Longrightarrow> op_ok m st m st"
  by (simp add: op_ok_def slices_kept_def walk_same_refl)

lemma append1_moved:
  assumes "append1 e s x st = (s', st')"
  shows "moved st s s'"
proof (cases "sl_len s < length (backing st s)")
  case True
  then show ?thesis using assms by (auto simp: append1_def moved_def)
next
  case False
  with assms have "alloc e (elems st s @ [x]) st = (s', st')" by (simp add: append1_def)
  from alloc_spec(5) [OF this] show ?thesis by (simp add: moved_def fresh_def)
qed

lemma append_op:
  assumes "append1 e (Order m) k st = (ord, st1)" "append1 e (Keys m) ck st1 = (keys, st2)" "header_ok st m"
  shows "op_ok m st (m\<lparr>Order := ord, Keys := keys\<rparr>) st2"
proof (rule op_okI)
  have o: "slice_ok st (Order m)" "slice_ok st (Keys m)" "apart (Order m) (Keys m)" "sl_len (Order m) = sl_len (Keys m)"
    using assms(3) by (simp_all add: header_ok_def)
  note A = append1_spec [OF assms(1) o(1)]
  have k1: "slice_ok st1 (Keys m)" "elems st1 (Keys m) = elems st (Keys m)" "apart ord (Keys m)"
    using A(5-7) [OF o(2)] o(3) by blast+
  note B = append1_spec [OF assms(2) k1(1)]
  have o2: "slice_ok st2 ord" "elems st2 ord = elems st (Order m) @ [k]" "apart keys ord"
    using B(5-7) [OF A(2)] apart_sym [OF k1(3)] A(1) by auto
  have "length (elems st2 ord) = length (elems st2 keys)"
    unfolding o2(2) B(1) k1(2) length_append length_elems [OF o(1)] length_elems [OF o(2)] o(4) list.size ..
  then have len: "sl_len ord = sl_len keys" using length_elems [OF o2(1)] length_elems [OF B(2)] by (rule box_equals)
  have "st_maps st2 = st_maps st" using A(3) B(3) by simp
  then show "header_ok st2 (m\<lparr>Order := ord, Keys := keys\<rparr>)"
    using assms(3) o2(1) B(2) len apart_sym [OF o2(3)] by (simp add: header_ok_def)
  show "slices_kept st st2" using A(3,5) B(3,5) by (simp add: slices_kept_def)
  show "moved st (Order m) (Order (m\<lparr>Order := ord, Keys := keys\<rparr>))" using append1_moved [OF assms(1)] by simp
  have "moved st1 (Keys m) keys" by (rule append1_moved [OF assms(2)])
  then show "moved st (Keys m) (Keys (m\<lparr>Order := ord, Keys := keys\<rparr>))" using A(5) by (auto simp: moved_def fresh_def)
  show "walk_same w m st (m\<lparr>Order := ord, Keys := keys\<rparr>) st2" if "walk_held st m w" for w
    by (rule walk_append [OF assms(1,2) o(1,2) that])
qed simp

lemma insert_op:
  assumes "Insert e k x m st = (m', st')" "header_ok st m"
  shows "op_ok m st m' st'"
proof -
  obtain ck st1 where c: "canonicalKey e k st = (ck, st1)" by fastforce
  obtain m2 st2 where p: "ensure_pairs m st1 = (m2, st2)" by fastforce
  have same: "same_slices st st2" using same_slices_trans [OF same_canonical [OF c] same_ensure [OF p]] .
  have h: "Order m2 = Order m" "Keys m2 = Keys m" "shared m2 = shared m"
    using p by (auto simp: ensure_pairs_def split: if_splits)
  have ok2: "header_ok st2 m2" using ensure_header [OF p same_header [OF same_canonical [OF c] assms(2)]] .
  have "op_ok m2 st2 m' st'"
  proof (cases "table st2 m2 ck = None")
    case True
    obtain ord st3 where a: "append1 e (Order m2) k st2 = (ord, st3)" by fastforce
    obtain keys st4 where b: "append1 e (Keys m2) ck st3 = (keys, st4)" by fastforce
    from assms(1) c p True a b have "m' = m2\<lparr>Order := ord, Keys := keys\<rparr>" "st' = set_pair ck (Some x) m2 st4"
      by (auto simp: Insert_def)
    then show ?thesis using op_ok_after [OF append_op [OF a b ok2]] by simp
  next
    case False
    with assms(1) c p have "m' = m2" "st' = set_pair ck (Some x) m2 st2" by (auto simp: Insert_def)
    then show ?thesis using op_ok_after [OF op_ok_refl [OF ok2]] by simp
  qed
  then show ?thesis by (rule op_ok_before [OF same h])
qed

lemma drop_op:
  assumes "drop_slot e i m st = (m', st')" "header_ok st m" "i < sl_len (Order m)"
  shows "op_ok m st m' st'"
proof (rule op_okI)
  have o: "slice_ok st (Order m)" "slice_ok st (Keys m)" "apart (Order m) (Keys m)" "sl_len (Order m) = sl_len (Keys m)"
    using assms(2) by (simp_all add: header_ok_def)
  have ik: "i < sl_len (Keys m)" using assms(3) o(4) by simp
  note D = drop_slot_ok [OF assms(1) o(1-3) assms(3) o(4)]
  show "header_ok st' m'" using assms(2) D by (simp add: header_ok_def)
  show "walk_same w m st m' st'" if "walk_held st m w" for w
    by (rule walk_drop_slot [OF assms(1) o(1,2) assms(3) ik that])
  have rest: "slices_kept st st' \<and> moved st (Order m) (Order m') \<and> moved st (Keys m) (Keys m') \<and>
    (shared m \<longrightarrow> fresh st (Order m') \<and> fresh st (Keys m'))"
  proof (cases "shared m")
    case True
    obtain ord st1 where a: "clone_out e i (Order m) st = (ord, st1)" by fastforce
    obtain keys st2 where b: "clone_out e i (Keys m) st1 = (keys, st2)" by fastforce
    note A = clone_out_spec(6) [OF a o(1) assms(3)]
    have k: "slice_ok st1 (Keys m)" using A [OF o(2)] by blast
    note B = clone_out_spec(6) [OF b k ik]
    from assms(1) True a b have "m' = m\<lparr>Order := ord, Keys := keys, shared := False\<rparr>" "st' = st2"
      by (simp_all add: drop_slot_def)
    moreover have "fresh st ord" "fresh st keys" using A B by (auto simp: fresh_def)
    ultimately show ?thesis using A B D(7) by (auto simp: slices_kept_def moved_def)
  next
    case False
    obtain ord st1 where a: "shift_out i (Order m) st = (ord, st1)" by fastforce
    obtain keys st2 where b: "shift_out i (Keys m) st1 = (keys, st2)" by fastforce
    note A = shift_out_spec(5,7) [OF a o(1) assms(3)]
    have k: "slice_ok st1 (Keys m)" using A(2) [OF o(2)] .
    note B = shift_out_spec(5,7) [OF b k ik]
    from assms(1) False a b have "m' = m\<lparr>Order := ord, Keys := keys\<rparr>" "st' = st2" by (simp_all add: drop_slot_def)
    then show ?thesis using A B D(7) False by (auto simp: slices_kept_def moved_def)
  qed
  then show "slices_kept st st'" "moved st (Order m) (Order m')" "moved st (Keys m) (Keys m')"
    "shared m \<Longrightarrow> shared m' \<or> fresh st (Order m') \<and> fresh st (Keys m')" by blast+
qed

lemma delete_op:
  assumes "Delete e k m st = (b, m', st')" "header_ok st m"
  shows "op_ok m st m' st'"
proof -
  obtain ck st1 where c: "canonicalKey e k st = (ck, st1)" by fastforce
  let ?m = "m\<lparr>dels := dels m + 1\<rparr>" and ?st = "set_pair ck None m st1"
  have same: "same_slices st ?st" using same_slices_trans [OF same_canonical [OF c] same_set_pair] .
  have ok: "header_ok ?st ?m" using same_header [OF same assms(2)] by (simp add: header_ok_def)
  have same1: "same_slices st st1" using same_canonical [OF c] .
  have ok1: "header_ok st1 m" using same_header [OF same1 assms(2)] .
  show ?thesis
  proof (cases "table st1 m ck = None")
    case True
    then have "m' = m" "st' = st1" using assms(1) c by (auto simp: Delete_def)
    then show ?thesis using op_ok_after [OF op_ok_refl [OF assms(2)] same1] by simp
  next
    case False
    have "op_ok ?m ?st m' st'"
    proof (cases "slot_of ck (elems st1 (Keys m))")
      case None
      with assms(1) c False have "m' = ?m" "st' = ?st" by (auto simp: Delete_def Let_def)
      then show ?thesis using op_ok_refl [OF ok] by simp
    next
      case (Some i)
      with assms(1) c False have d: "drop_slot e i ?m ?st = (m', st')" by (auto simp: Delete_def Let_def)
      have "slice_ok st1 (Keys m)" "sl_len (Order m) = sl_len (Keys m)" using ok1 by (simp_all add: header_ok_def)
      then have "i < sl_len (Order ?m)" using slot_of_Some [OF Some] length_elems by fastforce
      from drop_op [OF d ok this] show ?thesis .
    qed
    then show ?thesis by (rule op_ok_before [OF same, rotated -1]) simp_all
  qed
qed

lemma map_step_op: "map_step e (m, st) (m', st') \<Longrightarrow> header_ok st m \<Longrightarrow> op_ok m st m' st'"
proof (erule map_stepE)
  fix k x assume "Insert e k x m st = (m', st')" "header_ok st m"
  then show "op_ok m st m' st'" by (rule insert_op)
next
  fix k b assume "Delete e k m st = (b, m', st')" "header_ok st m"
  then show "op_ok m st m' st'" by (rule delete_op)
next
  assume c: "Clear m st = (m', st')" and ok: "header_ok st m"
  have "walk_same w m st m' st'" if "walk_held st m w" for w using Clear_walk(1) [OF c that] .
  moreover have "fresh st nil_slice" by (simp add: fresh_def apart_nil)
  ultimately show "op_ok m st m' st'"
    using c ok by (intro op_okI) (auto simp: Clear_def header_ok_def slices_kept_def moved_def apart_nil)
next
  fix w assume b: "st' = st" "BeginWalk m = (w, m')" and ok: "header_ok st m"
  then have m': "m' = m\<lparr>shared := True\<rparr>" by (simp add: BeginWalk_def)
  have "walk_held st m' v" if "walk_held st m v" for v using that by (simp add: m' walk_held_def held_def)
  with ok show "op_ok m st m' st'"
    by (auto simp: op_ok_def b m' header_ok_def slices_kept_def walk_same_def)
next
  fix k r assume g: "m' = m" "Get e k m st = (r, st')" and ok: "header_ok st m"
  then obtain ck where "canonicalKey e k st = (ck, st')" by (auto simp: Get_def split: prod.splits)
  from op_ok_after [OF op_ok_refl [OF ok] same_canonical [OF this]] show "op_ok m st m' st'" by (simp add: g)
qed

section \<open>All headers\<close>

text \<open>
  Every header is well formed, order slices and key slices never share an array, and a header that is not marked shares
  no array with another one.
\<close>

definition own_arrays :: "map_header \<Rightarrow> map_header \<Rightarrow> bool" where
  "own_arrays h h' \<longleftrightarrow> apart (Order h) (Order h') \<and> apart (Keys h) (Keys h')"

definition fam_ok :: "'v family \<Rightarrow> bool" where
  "fam_ok c \<longleftrightarrow>
     (\<forall>h\<in>set (fst c). header_ok (snd c) h) \<and>
     (\<forall>i<length (fst c). \<forall>j<length (fst c). apart (Order (fst c ! i)) (Keys (fst c ! j))) \<and>
     (\<forall>i<length (fst c). \<forall>j<length (fst c). i \<noteq> j \<longrightarrow> \<not> shared (fst c ! i) \<longrightarrow> own_arrays (fst c ! i) (fst c ! j))"

lemma fam_okD:
  assumes "fam_ok (hs, st)"
  shows "i < length hs \<Longrightarrow> header_ok st (hs ! i)"
    and "i < length hs \<Longrightarrow> j < length hs \<Longrightarrow> apart (Order (hs ! i)) (Keys (hs ! j))"
    and "i < length hs \<Longrightarrow> j < length hs \<Longrightarrow> i \<noteq> j \<Longrightarrow> \<not> shared (hs ! i) \<Longrightarrow> own_arrays (hs ! i) (hs ! j)"
  using assms by (auto simp: fam_ok_def)

lemma own_sym: "own_arrays h h' \<Longrightarrow> own_arrays h' h"
  by (simp add: own_arrays_def apart_sym)

lemma own_moved:
  "own_arrays h h' \<Longrightarrow> header_ok st h' \<Longrightarrow> moved st (Order h) (Order g) \<Longrightarrow> moved st (Keys h) (Keys g) \<Longrightarrow> own_arrays g h'"
  unfolding own_arrays_def header_ok_def using moved_apart by blast

lemma fam_through:
  assumes ok: "fam_ok (hs, st)" and i: "i < length hs" and op: "op_ok (hs ! i) st m' st'"
  shows "fam_ok (hs[i := m'], st')"
proof -
  note D = fam_okD [OF ok]
  have O: "header_ok st' m'" "slices_kept st st'" "moved st (Order (hs ! i)) (Order m')" "moved st (Keys (hs ! i)) (Keys m')"
    "shared (hs ! i) \<Longrightarrow> shared m' \<or> fresh st (Order m') \<and> fresh st (Keys m')"
    using op by (simp_all add: op_ok_def)
  have others: "header_ok st' (hs ! j)" if "j < length hs" for j
    using D(1) [OF that] O(2) by (auto simp: header_ok_def slices_kept_def intro: less_le_trans)
  have slices: "slice_ok st (Order (hs ! j))" "slice_ok st (Keys (hs ! j))" if "j < length hs" for j
    using D(1) [OF that] by (simp_all add: header_ok_def)
  have self: "apart (Order m') (Keys m')" using O(1) by (simp add: header_ok_def)
  have ok_keys: "apart (Order m') (Keys (hs ! j))" "apart (Order (hs ! j)) (Keys m')" if j: "j < length hs" for j
  proof -
    show "apart (Order m') (Keys (hs ! j))" by (rule moved_apart [OF O(3) slices(2) [OF j] D(2) [OF i j]])
    show "apart (Order (hs ! j)) (Keys m')"
      by (rule apart_sym, rule moved_apart [OF O(4) slices(1) [OF j] apart_sym [OF D(2) [OF j i]]])
  qed
  have mine: "own_arrays m' (hs ! j)" if j: "j < length hs" "j \<noteq> i" and n: "\<not> shared m' \<or> \<not> shared (hs ! j)" for j
  proof (cases "shared (hs ! i) \<and> shared (hs ! j)")
    case True
    with n O(5) have "fresh st (Order m')" "fresh st (Keys m')" by blast+
    with slices [OF j(1)] show ?thesis by (simp add: own_arrays_def fresh_def)
  next
    case False
    then have "own_arrays (hs ! i) (hs ! j)" using D(3) [OF i j(1)] own_sym [OF D(3) [OF j(1) i]] j(2) by blast
    then show ?thesis using D(1) [OF j(1)] O(3,4) by (rule own_moved)
  qed
  show ?thesis
    unfolding fam_ok_def fst_conv snd_conv length_list_update
  proof (intro conjI allI impI ballI)
    fix h assume "h \<in> set (hs[i := m'])"
    then obtain j where "j < length hs" "h = hs[i := m'] ! j" by (auto simp: in_set_conv_nth)
    then show "header_ok st' h" using O(1) others by (cases "j = i") simp_all
  next
    fix j k assume "j < length hs" "k < length hs"
    then show "apart (Order (hs[i := m'] ! j)) (Keys (hs[i := m'] ! k))"
      using self ok_keys D(2) i by (cases "j = i"; cases "k = i") simp_all
  next
    fix j k assume "j < length hs" "k < length hs" "j \<noteq> k" "\<not> shared (hs[i := m'] ! j)"
    then show "own_arrays (hs[i := m'] ! j) (hs[i := m'] ! k)"
      using mine [of k] own_sym [OF mine [of j]] D(3) by (cases "j = i"; cases "k = i") simp_all
  qed
qed

lemma fam_second:
  assumes ok: "fam_ok (hs, st)" and i: "i < length hs" and "Header (hs ! i) = (m', h)"
  shows "fam_ok (hs[i := m'] @ [h], st)"
proof -
  have h: "Order m' = Order (hs ! i)" "Keys m' = Keys (hs ! i)" "Pairs m' = Pairs (hs ! i)" "shared m'"
    "Order h = Order (hs ! i)" "Keys h = Keys (hs ! i)" "Pairs h = Pairs (hs ! i)" "shared h"
    using assms(3) by (auto simp: Header_def Let_def)
  let ?of = "\<lambda>j. if j < length hs then j else i"
  let ?hs = "hs[i := m'] @ [h]"
  note D = fam_okD [OF ok]
  have same: "Order (?hs ! j) = Order (hs ! ?of j)" "Keys (?hs ! j) = Keys (hs ! ?of j)" "Pairs (?hs ! j) = Pairs (hs ! ?of j)"
    "?of j < length hs" "\<not> shared (?hs ! j) \<Longrightarrow> \<not> shared (hs ! ?of j) \<and> j < length hs \<and> j \<noteq> i" if "j < length ?hs" for j
    using that h i by (auto simp: nth_append nth_list_update less_Suc_eq split: if_splits)
  show ?thesis
    unfolding fam_ok_def fst_conv snd_conv
  proof (intro conjI allI impI ballI)
    fix g assume "g \<in> set ?hs"
    then obtain j where j: "j < length ?hs" "g = ?hs ! j" by (metis in_set_conv_nth)
    from D(1) [OF same(4) [OF j(1)]] show "header_ok st g" unfolding j(2) header_ok_def same(1-3) [OF j(1)] .
  next
    fix j k assume j: "j < length ?hs" "k < length ?hs"
    from D(2) [OF same(4) [OF j(1)] same(4) [OF j(2)]] show "apart (Order (?hs ! j)) (Keys (?hs ! k))"
      unfolding same(1) [OF j(1)] same(2) [OF j(2)] .
  next
    fix j k assume j: "j < length ?hs" "k < length ?hs" "j \<noteq> k" "\<not> shared (?hs ! j)"
    from same(5) [OF j(1,4)] j(3) have "?of j \<noteq> ?of k" "\<not> shared (hs ! ?of j)" by auto
    from D(3) [OF same(4) [OF j(1)] same(4) [OF j(2)] this] show "own_arrays (?hs ! j) (?hs ! k)"
      unfolding own_arrays_def same(1,2) [OF j(1)] same(1,2) [OF j(2)] .
  qed
qed

lemma fam_new: "fam_ok (hs, st) \<Longrightarrow> fam_ok (hs @ [emptyMap], st)"
  by (auto simp: fam_ok_def nth_append less_Suc_eq emptyMap_def apart_nil own_arrays_def header_ok_def)

lemma fam_ok_step: "fam_ok c \<Longrightarrow> fam_step e c c' \<Longrightarrow> fam_ok c'"
proof (erule fam_step.cases)
  fix i hs st m' st'
  assume "fam_ok c" "c = (hs, st)" "c' = (hs[i := m'], st')" "i < length hs" "map_step e (hs ! i, st) (m', st')"
  then show "fam_ok c'" using fam_through map_step_op fam_okD(1) by metis
qed (simp_all add: fam_second fam_new)

interpretation fam: transition "fam_step e" fam_ok for e
  by unfold_locales (rule fam_ok_step)

lemma fam_reached_ok: "fam_reached e c \<Longrightarrow> fam_ok c"
proof -
  have "fam_ok no_maps" by (simp add: fam_ok_def no_maps_def)
  then show "fam_reached e c \<Longrightarrow> fam_ok c" unfolding fam_reached_def using fam.run_keeps by blast
qed

section \<open>A walk among all headers\<close>

definition fam_walk :: "map_walk \<Rightarrow> 'v list \<Rightarrow> 'v list \<Rightarrow> 'v family \<Rightarrow> bool" where
  "fam_walk w xs ys c \<longleftrightarrow>
     fam_ok c \<and> slice_ok (snd c) (w_display w) \<and> slice_ok (snd c) (w_canonical w) \<and> (\<forall>h\<in>set (fst c). walk_held (snd c) h w) \<and>
     elems (snd c) (w_display w) = xs \<and> elems (snd c) (w_canonical w) = ys"

lemma held_kept: "slices_kept st st' \<Longrightarrow> walk_held st h w \<Longrightarrow> walk_held st' h w"
  by (auto simp: walk_held_def held_def slices_kept_def)

lemma fam_walk_step:
  assumes "fam_walk w xs ys c" "fam_step e c c'"
  shows "fam_walk w xs ys c'"
  using assms(2)
proof cases
  case (new_map hs st)
  have "walk_held st emptyMap w" using assms(1) by (simp add: fam_walk_def new_map walk_held_def held_def emptyMap_def apart_nil)
  then show ?thesis using assms(1) fam_new [of hs st] by (simp add: fam_walk_def new_map)
next
  case (through i hs st m' st')
  have ok: "fam_ok (hs, st)" and held: "\<And>h. h \<in> set hs \<Longrightarrow> walk_held st h w"
    and sl: "slice_ok st (w_display w)" "slice_ok st (w_canonical w)"
    using assms(1) by (simp_all add: fam_walk_def through)
  have op: "op_ok (hs ! i) st m' st'" using map_step_op [OF through(4) fam_okD(1) [OF ok through(3)]] .
  have kept: "slices_kept st st'" and same: "walk_same w (hs ! i) st m' st'"
    using op held [OF nth_mem [OF through(3)]] by (simp_all add: op_ok_def)
  have "walk_held st' h w" if "h \<in> set (hs[i := m'])" for h
    using set_update_subset_insert [of hs i m'] that held held_kept [OF kept] same by (auto simp: walk_same_def)
  then show ?thesis
    using assms(1) fam_through [OF ok through(3) op] same kept sl by (simp add: fam_walk_def through walk_same_def slices_kept_def)
next
  case (second i hs m' h st)
  have h: "Order m' = Order (hs ! i)" "Keys m' = Keys (hs ! i)" "shared m'" "Order h = Order (hs ! i)" "Keys h = Keys (hs ! i)" "shared h"
    using second(4) by (auto simp: Header_def Let_def)
  have ok: "fam_ok (hs, st)" and held: "\<And>h. h \<in> set hs \<Longrightarrow> walk_held st h w"
    using assms(1) by (simp_all add: fam_walk_def second)
  have "walk_held st m' w" "walk_held st h w"
    using held [OF nth_mem [OF second(3)]] by (simp_all add: walk_held_def held_def h)
  moreover have "g \<in> set (hs[i := m'] @ [h]) \<Longrightarrow> g = m' \<or> g = h \<or> g \<in> set hs" for g
    using set_update_subset_insert [of hs i m'] by auto
  ultimately have "walk_held st g w" if "g \<in> set (hs[i := m'] @ [h])" for g using held that by blast
  then show ?thesis using assms(1) fam_second [OF ok second(3,4)] by (simp add: fam_walk_def second)
qed

interpretation fam_walks: transition "fam_step e" "fam_walk w xs ys" for e w xs ys
  by unfold_locales (rule fam_walk_step)

text \<open>Two headers share an array of keys, or of canonical keys.\<close>

definition shares :: "map_header \<Rightarrow> map_header \<Rightarrow> bool" where
  "shares h h' \<longleftrightarrow> \<not> own_arrays h h'"

lemma fam_walk_start:
  assumes ok: "fam_ok (hs, st)" and i: "i < length hs" and b: "BeginWalk (hs ! i) = (w, m')"
    and longer: "\<forall>h\<in>set hs. shares (hs ! i) h \<longrightarrow> Len (hs ! i) \<le> Len h"
  shows "fam_walk w (elems st (Order (hs ! i))) (elems st (Keys (hs ! i))) (hs[i := m'], st)"
proof -
  let ?m = "hs ! i"
  have w: "w_display w = Order ?m" "w_canonical w = Keys ?m" and m': "m' = ?m\<lparr>shared := True\<rparr>"
    using b by (auto simp: BeginWalk_def)
  note D = fam_okD [OF ok]
  have sl: "slice_ok st (Order ?m)" "slice_ok st (Keys ?m)" "sl_len (Order ?m) = sl_len (Keys ?m)"
    using D(1) [OF i] by (simp_all add: header_ok_def)
  have step: "map_step e (?m, st) (m', st)" for e using map_step.wlk [OF b] .
  have "walk_held st (hs[i := m'] ! j) w" if j: "j < length hs" for j
  proof -
    have cross: "apart (Keys (hs ! j)) (Order ?m)" "apart (Order (hs ! j)) (Keys ?m)"
      using apart_sym [OF D(2) [OF i j]] D(2) [OF j i] by blast+
    have lens: "sl_len (Order (hs ! j)) = sl_len (Keys (hs ! j))" using D(1) [OF j] by (simp add: header_ok_def)
    show ?thesis
    proof (cases "j = i")
      case True
      then show ?thesis using cross sl i by (simp add: walk_held_def held_def w m')
    next
      case False
      have "shared (hs ! j) \<or> own_arrays (hs ! j) ?m" using D(3) [OF j i False] by blast
      moreover have "own_arrays (hs ! j) ?m \<or> Len ?m \<le> Len (hs ! j)"
        using longer nth_mem [OF j] own_sym by (auto simp: shares_def)
      ultimately show ?thesis
        using False cross sl lens by (auto simp: walk_held_def held_def w own_arrays_def Len_def)
    qed
  qed
  then have "\<forall>h\<in>set (hs[i := m']). walk_held st h w" by (metis in_set_conv_nth length_list_update)
  moreover have "fam_ok (hs[i := m'], st)" using fam_through [OF ok i map_step_op [OF step D(1) [OF i]]] .
  ultimately show ?thesis using sl by (simp add: fam_walk_def w)
qed

text \<open>
  C31: A walk is not disturbed: after any operations through any headers of any maps, the walked one's own and further second
  headers of it included, its slots hold the keys the header had when the walk began, in their order, each with its value of
  the moment, provided no header that shares an array with the walked one had fewer keys when the walk began. (A header with
  fewer keys comes from inserting through one of two headers; \<open>header_overwrites_walk\<close> is what happens then.)
\<close>

theorem walk_stable:
  assumes "fam_reached e (hs, st)" "i < length hs" "BeginWalk (hs ! i) = (w, m')"
    and "\<forall>h\<in>set hs. shares (hs ! i) h \<longrightarrow> Len (hs ! i) \<le> Len h"
    and "(fam_step e)\<^sup>*\<^sup>* (hs[i := m'], st) (hs2, st2)" "k < walk_len w"
  shows "walk_len w = Len (hs ! i) \<and>
    walk_at st2 (hs2 ! i) w k = (elems st (Order (hs ! i)) ! k, table st2 (hs2 ! i) (elems st (Keys (hs ! i)) ! k))"
  using fam_walks.run_keeps [OF assms(5) fam_walk_start [OF fam_reached_ok [OF assms(1)] assms(2-4)]] assms(3)
  by (auto simp: fam_walk_def walk_at_def walk_len_def Len_def BeginWalk_def)

text \<open>
  C32: Two headers write over each other: when a second header is taken and a key is inserted through the first one into the
  room its arrays have left, the next new key inserted through the second header takes the same slot, so that a walk over
  the first header, begun in between, finds the second header's key where the first one's was, and the first header lists
  it.
\<close>

theorem header_overwrites_walk:
  assumes "map_ok st m" "Pairs m \<noteq> None" "Len m < length (backing st (Order m))" "Len m < length (backing st (Keys m))"
    and "Header m = (m1, h)" "Insert e k x m1 st = (m2, st2)" "canon e (st_nonce st) k \<notin> dom (table st m)"
    and "BeginWalk m2 = (w, m3)"
    and "Insert e k' x' h st2 = (h', st3)" "canon e (st_nonce st2) k' \<notin> dom (table st2 m)"
  shows "fst (walk_at st2 m3 w (Len m)) = k \<and> fst (walk_at st3 m3 w (Len m)) = k' \<and>
    last (fst (SnapshotKeys st3 m3)) = k'"
proof -
  obtain ck st1 where c: "canonicalKey e k st = (ck, st1)" by fastforce
  have ck: "ck = canon e (st_nonce st) k" and st1: "st1 = st\<lparr>st_nonce := st_nonce st + 1\<rparr>"
    using c by (auto simp: canonicalKey_def)
  have h: "m1 = m\<lparr>shared := True, aliased := True\<rparr>" "Pairs h = Pairs m" "Order h = Order m" "Keys h = Keys m"
    using assms(5) by (auto simp: Header_def Let_def)
  have t1: "table st1 m1 = table st m" by (simp add: table_def st1 h(1) cong: option.case_cong)
  have m1: "Order m1 = Order m" "Keys m1 = Keys m" by (simp_all add: h(1))
  have new: "table st m ck = None" using assms(7) by (simp add: ck domIff)
  have p: "ensure_pairs m1 st1 = (m1, st1)" using assms(2) by (auto simp: ensure_pairs_def h(1))
  obtain ord st4 where a: "append1 e (Order m) k st1 = (ord, st4)" by fastforce
  obtain keys st5 where b: "append1 e (Keys m) ck st4 = (keys, st5)" by fastforce
  have m2: "m2 = m1\<lparr>Order := ord, Keys := keys\<rparr>" and st2: "st2 = set_pair ck (Some x) m1 st5"
    using assms(6) by (simp_all add: Insert_def c p t1 new a b m1)
  have o: "slice_ok st (Order m)" "slice_ok st (Keys m)" "apart (Order m) (Keys m)" "sl_len (Order m) = sl_len (Keys m)"
    using assms(1) by (simp_all add: map_ok_def)
  obtain ao where ao: "sl_arr (Order m) = Some ao" "ao < length (st_arrs st)" "Len m < length (st_arrs st ! ao)"
    using o(1) assms(3) by (auto simp: slice_ok_def backing_def split: option.splits)
  obtain ak where ak: "sl_arr (Keys m) = Some ak" "ak < length (st_arrs st)" "Len m < length (st_arrs st ! ak)"
    using o(2) assms(4) by (auto simp: slice_ok_def backing_def split: option.splits)
  have ne: "ao \<noteq> ak" using o(3) ao(1) ak(1) by (simp add: apart_def)
  have ord: "ord = (Order m)\<lparr>sl_len := Len m + 1\<rparr>" "st4 = st1\<lparr>st_arrs := (st_arrs st)[ao := (st_arrs st ! ao)[Len m := k]]\<rparr>"
    using a ao by (auto simp: append1_def backing_def st1 Len_def)
  have keys: "keys = (Keys m)\<lparr>sl_len := Len m + 1\<rparr>"
    "st5 = st4\<lparr>st_arrs := (st_arrs st4)[ak := (st_arrs st ! ak)[Len m := ck]]\<rparr>"
    using b ak ne o(4) by (auto simp: append1_def backing_def ord(2) Len_def)
  have arr2: "st_arrs st2 ! ao = (st_arrs st ! ao)[Len m := k]" "length (st_arrs st2) = length (st_arrs st)"
    "length (st_arrs st2 ! ak) = length (st_arrs st ! ak)"
    using ao ak ne by (simp_all add: st2 set_pair_def keys(2) ord(2) st1)
  obtain ck' st6 where c': "canonicalKey e k' st2 = (ck', st6)" by fastforce
  have ck': "ck' = canon e (st_nonce st2) k'" and st6: "st6 = st2\<lparr>st_nonce := st_nonce st2 + 1\<rparr>"
    using c' by (auto simp: canonicalKey_def)
  have t6: "table st6 h = table st2 m" by (simp add: table_def st6 h(2) cong: option.case_cong)
  have new': "table st2 m ck' = None" using assms(10) by (simp add: ck' domIff)
  have p': "ensure_pairs h st6 = (h, st6)" using assms(2) by (auto simp: ensure_pairs_def h(2))
  obtain ord' st7 where a': "append1 e (Order m) k' st6 = (ord', st7)" by fastforce
  obtain keys' st8 where b': "append1 e (Keys m) ck' st7 = (keys', st8)" by fastforce
  have st3: "st3 = set_pair ck' (Some x') h st8"
    using assms(9) by (simp add: Insert_def c' p' t6 new' a' b' h(3,4))
  have st7: "st7 = st6\<lparr>st_arrs := (st_arrs st2)[ao := (st_arrs st2 ! ao)[Len m := k']]\<rparr>"
    using a' ao arr2 by (auto simp: append1_def backing_def st6 Len_def)
  have st8: "st_arrs st8 ! ao = (st_arrs st2 ! ao)[Len m := k']"
    using b' ak ne arr2 ao o(4) by (auto simp: append1_def backing_def st7 Len_def)
  have arr3: "st_arrs st3 ! ao = (st_arrs st ! ao)[Len m := k']" by (simp add: st3 set_pair_def st8 arr2(1))
  have w: "w_display w = ord" "m3 = m2\<lparr>shared := True\<rparr>" using assms(8) by (auto simp: BeginWalk_def m2)
  have el: "elems st2 ord ! Len m = k" "elems st3 ord ! Len m = k'" "length (elems st3 ord) = Len m + 1"
    using ao by (simp_all add: elems_def backing_def ord(1) arr2(1) arr3)
  then have "last (elems st3 ord) = k'" by (metis add_diff_cancel_right' last_conv_nth length_0_conv Suc_eq_plus1 Zero_not_Suc)
  then show ?thesis using el by (simp add: walk_at_def w SnapshotKeys_def m2)
qed

section \<open>Witnesses\<close>

definition two_headers :: "map_header list" where
  "two_headers = [fst (Header one_map), snd (Header one_map)]"

lemma two_reached: "fam_reached nat_env (two_headers, one_store)"
proof -
  have "fam_step nat_env no_maps ([emptyMap], store0)"
    using fam_step.new_map [of nat_env "[]" store0] by (simp add: no_maps_def store0_def)
  moreover have "fam_step nat_env ([emptyMap], store0) ([one_map], one_store)"
    using fam_step.through [of 0 "[emptyMap]" nat_env store0 one_map one_store]
      map_step.ins [of nat_env 5 50 emptyMap store0 one_map one_store] by (simp add: one_map_def one_store_def)
  moreover have "fam_step nat_env ([one_map], one_store) (two_headers, one_store)"
    using fam_step.second [of 0 "[one_map]" "fst (Header one_map)" "snd (Header one_map)" nat_env one_store]
    by (simp add: two_headers_def)
  ultimately show ?thesis unfolding fam_reached_def by (meson rtranclp.rtrancl_into_rtrancl rtranclp.rtrancl_refl)
qed

definition both_walked :: map_header where
  "both_walked = snd (BeginWalk (fst (Header one_map)))"

definition after_second :: "map_header \<times> nat store" where
  "after_second = Insert nat_env 6 60 (snd (Header one_map)) one_store"

text \<open>A key inserted through the second header during a walk over the first.\<close>

theorem walk_stable_witness: "fst (walk_at (snd after_second) both_walked (fst (BeginWalk (two_headers ! 0))) 0) = 5"
proof -
  have step: "fam_step nat_env (two_headers[0 := both_walked], one_store) ([both_walked, fst after_second], snd after_second)"
    using fam_step.through [of 1 "[both_walked, snd (Header one_map)]" nat_env one_store "fst after_second" "snd after_second"]
      map_step.ins [of nat_env 6 60 "snd (Header one_map)" one_store "fst after_second" "snd after_second"]
    by (simp add: two_headers_def after_second_def)
  have bw: "BeginWalk (two_headers ! 0) = (fst (BeginWalk (two_headers ! 0)), both_walked)"
    by (simp add: both_walked_def two_headers_def)
  have len: "\<forall>h\<in>set two_headers. shares (two_headers ! 0) h \<longrightarrow> Len (two_headers ! 0) \<le> Len h"
    by (simp add: two_headers_def Header_def Let_def Len_def)
  have one: "0 < walk_len (fst (BeginWalk (two_headers ! 0)))" "elems one_store (Order (two_headers ! 0)) = [5]"
    using one_walk by (simp_all add: two_headers_def Header_def Let_def BeginWalk_def walk_len_def)
  from walk_stable [OF two_reached _ bw len r_into_rtranclp [of "fam_step nat_env", OF step] one(1)] one(2)
  show ?thesis by (simp add: two_headers_def)
qed

definition first_insert :: "map_header \<times> nat store" where
  "first_insert = Insert nat_env 6 60 (fst (Header one_map)) one_store"

theorem header_overwrites_walk_witness:
  "fst (walk_at (snd first_insert) (snd (BeginWalk (fst first_insert))) (fst (BeginWalk (fst first_insert))) 1) = 6 \<and>
   fst (walk_at (snd (Insert nat_env 7 70 (snd (Header one_map)) (snd first_insert))) (snd (BeginWalk (fst first_insert)))
     (fst (BeginWalk (fst first_insert))) 1) = 7"
proof -
  have facts: "Pairs one_map \<noteq> None" "Len one_map = 1" "length (backing one_store (Order one_map)) = 2"
    "length (backing one_store (Keys one_map)) = 2" "table one_store one_map 6 = None" "table (snd first_insert) one_map 7 = None"
    by code_simp+
  show ?thesis
    using header_overwrites_walk [OF one_ok(1) facts(1) _ _ prod.collapse [symmetric] prod.collapse [symmetric] _
        prod.collapse [symmetric] prod.collapse [symmetric], of nat_env 6 60 7 70] facts
    by (simp add: first_insert_def nat_env_def domIff)
qed

end
