(* ===== verification/Ints.thy ===== *)
theory Ints
  imports Prelude Bytecode "HOL-Library.Word" "HOL-Library.Signed_Division"
begin

unbundle bit_operations_syntax

text \<open>
  Machine integers (\<open>vm/vm.go\<close>: \<open>intBinOp\<close>, \<open>uintBinOp\<close>, the shifts, \<open>maskInt\<close>), string operators, the
  bounds of slice expressions with the texts of their panics, and the panic payloads of
  \<open>runtime/errors.go\<close>. An \<open>int64\<close> and a \<open>uint64\<close> are a \<open>64 word\<close>, read by \<open>sint\<close> and \<open>uint\<close>.
\<close>

section \<open>Binary operators\<close>

datatype bin_result = RInt "64 word" | RBool bool | RStr string | RHost string | RTrap string

text \<open>Go's division truncates; a division by zero is a panic of the host's.\<close>

definition quo64 :: "64 word \<Rightarrow> 64 word \<Rightarrow> bin_result" where
  "quo64 a b = (if b = 0 then RHost ''integer divide by zero'' else RInt (word_of_int (sint a sdiv sint b)))"

definition rem64 :: "64 word \<Rightarrow> 64 word \<Rightarrow> bin_result" where
  "rem64 a b = (if b = 0 then RHost ''integer divide by zero'' else RInt (word_of_int (sint a smod sint b)))"

definition uquo64 :: "64 word \<Rightarrow> 64 word \<Rightarrow> bin_result" where
  "uquo64 a b = (if b = 0 then RHost ''integer divide by zero'' else RInt (a div b))"

definition urem64 :: "64 word \<Rightarrow> 64 word \<Rightarrow> bin_result" where
  "urem64 a b = (if b = 0 then RHost ''integer divide by zero'' else RInt (a mod b))"

fun intBinOp :: "binop \<Rightarrow> 64 word \<Rightarrow> 64 word \<Rightarrow> bin_result" where
  "intBinOp BinAdd a b = RInt (a + b)"
| "intBinOp BinSub a b = RInt (a - b)"
| "intBinOp BinMul a b = RInt (a * b)"
| "intBinOp BinQuo a b = quo64 a b"
| "intBinOp BinRem a b = rem64 a b"
| "intBinOp BinAnd a b = RInt (a AND b)"
| "intBinOp BinOr a b = RInt (a OR b)"
| "intBinOp BinXor a b = RInt (a XOR b)"
| "intBinOp BinAndNot a b = RInt (a AND NOT b)"
| "intBinOp BinLss a b = RBool (a <s b)"
| "intBinOp BinLeq a b = RBool (a \<le>s b)"
| "intBinOp BinGtr a b = RBool (b <s a)"
| "intBinOp BinGeq a b = RBool (b \<le>s a)"
| "intBinOp p a b = RTrap (''int binary '' @ binOpSyms p)"

fun uintBinOp :: "binop \<Rightarrow> 64 word \<Rightarrow> 64 word \<Rightarrow> bin_result" where
  "uintBinOp BinAdd a b = RInt (a + b)"
| "uintBinOp BinSub a b = RInt (a - b)"
| "uintBinOp BinMul a b = RInt (a * b)"
| "uintBinOp BinQuo a b = uquo64 a b"
| "uintBinOp BinRem a b = urem64 a b"
| "uintBinOp BinAnd a b = RInt (a AND b)"
| "uintBinOp BinOr a b = RInt (a OR b)"
| "uintBinOp BinXor a b = RInt (a XOR b)"
| "uintBinOp BinAndNot a b = RInt (a AND NOT b)"
| "uintBinOp BinLss a b = RBool (a < b)"
| "uintBinOp BinLeq a b = RBool (a \<le> b)"
| "uintBinOp BinGtr a b = RBool (b < a)"
| "uintBinOp BinGeq a b = RBool (b \<le> a)"
| "uintBinOp BinEql a b = RBool (a = b)"
| "uintBinOp BinNeq a b = RBool (a \<noteq> b)"
| "uintBinOp p a b = RTrap (''uint binary '' @ binOpSyms p)"

text \<open>Strings compare by their bytes.\<close>

fun bytes_less :: "string \<Rightarrow> string \<Rightarrow> bool" where
  "bytes_less _ [] = False"
| "bytes_less [] (y # ys) = True"
| "bytes_less (x # xs) (y # ys) =
     ((of_char x :: nat) < of_char y \<or> x = y \<and> bytes_less xs ys)"

fun stringBinOp :: "binop \<Rightarrow> string \<Rightarrow> string \<Rightarrow> bin_result" where
  "stringBinOp BinAdd a s = RStr (a @ s)"
| "stringBinOp BinLss a s = RBool (bytes_less a s)"
| "stringBinOp BinLeq a s = RBool (bytes_less a s \<or> a = s)"
| "stringBinOp BinGtr a s = RBool (bytes_less s a)"
| "stringBinOp BinGeq a s = RBool (bytes_less s a \<or> a = s)"
| "stringBinOp p a s = RTrap (''string binary '' @ binOpSyms p)"

section \<open>Shifts and widths\<close>

definition shiftInt :: "binop \<Rightarrow> 64 word \<Rightarrow> 64 word \<Rightarrow> 64 word" where
  "shiftInt p a c =
     (if c \<ge> 64 then (if p = BinShl \<or> 0 \<le>s a then 0 else -1)
      else if p = BinShl then push_bit (unat c) a
      else signed_drop_bit (unat c) a)"

definition shiftUint :: "binop \<Rightarrow> 64 word \<Rightarrow> 64 word \<Rightarrow> 64 word" where
  "shiftUint p a c =
     (if c \<ge> 64 then 0
      else if p = BinShl then push_bit (unat c) a
      else drop_bit (unat c) a)"

definition unsignedName :: "string \<Rightarrow> bool" where
  "unsignedName name \<longleftrightarrow>
     name \<in> {''uint'', ''uint8'', ''byte'', ''uint16'', ''uint32'', ''uint64'', ''uintptr''}"

text \<open>Conversion to a declared width and back; \<open>scast\<close> and \<open>ucast\<close> are Go's conversions.\<close>

definition maskInt :: "64 word \<Rightarrow> string \<Rightarrow> 64 word" where
  "maskInt n name =
     (if name = ''int8'' then scast (ucast n :: 8 word)
      else if name = ''int16'' then scast (ucast n :: 16 word)
      else if name \<in> {''int32'', ''rune''} then scast (ucast n :: 32 word)
      else if name \<in> {''uint8'', ''byte''} then ucast (ucast n :: 8 word)
      else if name = ''uint16'' then ucast (ucast n :: 16 word)
      else if name = ''uint32'' then ucast (ucast n :: 32 word)
      else n)"

section \<open>Bounds of slice expressions\<close>

record bound =
  bo_i :: "64 word"
  bo_u :: "64 word"
  bo_unsigned :: bool

definition neg :: "bound \<Rightarrow> bool" where
  "neg b \<longleftrightarrow> \<not> bo_unsigned b \<and> bo_i b <s 0"

definition gt :: "bound \<Rightarrow> bound \<Rightarrow> bool" where
  "gt b x \<longleftrightarrow> (if bo_unsigned b \<or> bo_unsigned x then bo_u x < bo_u b else bo_i x <s bo_i b)"

definition gtc :: "bound \<Rightarrow> 64 word \<Rightarrow> bool" where
  "gtc b cap \<longleftrightarrow> (if bo_unsigned b then cap < bo_u b else cap <s bo_i b)"

definition disp :: "bound \<Rightarrow> string" where
  "disp b = (if bo_unsigned b then show_int (uint (bo_u b)) else show_int (sint (bo_i b)))"

text \<open>
  An operand: its small integer (\<open>SmallIntOf\<close>), else its boxed unsigned integer (\<open>hostUint\<close>), else the
  default; \<open>uns\<close> is the sign of its declared domain (\<open>boundUnsigned\<close>).
\<close>

definition boundOperand :: "64 word option \<Rightarrow> 64 word option \<Rightarrow> bool \<Rightarrow> 64 word \<Rightarrow> bound" where
  "boundOperand small boxed uns def =
     (case small of
        Some iv \<Rightarrow> \<lparr>bo_i = iv, bo_u = iv, bo_unsigned = uns\<rparr>
      | None \<Rightarrow>
          (case boxed of
             Some u \<Rightarrow> \<lparr>bo_i = u, bo_u = u, bo_unsigned = True\<rparr>
           | None \<Rightarrow> \<lparr>bo_i = def, bo_u = def, bo_unsigned = False\<rparr>))"

abbreviation range_text :: string where
  "range_text \<equiv> ''slice bounds out of range''"

definition with_word :: "string \<Rightarrow> 64 word \<Rightarrow> string" where
  "with_word w cap = '' with '' @ w @ '' '' @ show_int (sint cap)"

definition sliceBoundsReason :: "bound \<Rightarrow> bound \<Rightarrow> bound \<Rightarrow> 64 word \<Rightarrow> bool \<Rightarrow> string \<Rightarrow> string" where
  "sliceBoundsReason l h m cap three w =
     (if three then
        (if neg m then range_text @ '' [::'' @ disp m @ '']''
         else if gtc m cap then range_text @ '' [::'' @ disp m @ '']'' @ with_word w cap
         else if neg h then range_text @ '' [:'' @ disp h @ '':]''
         else if gt h m then range_text @ '' [:'' @ disp h @ '':'' @ disp m @ '']''
         else if neg l then range_text @ '' ['' @ disp l @ ''::]''
         else if gt l h then range_text @ '' ['' @ disp l @ '':'' @ disp h @ '':]''
         else [])
      else if neg h then range_text @ '' [:'' @ disp h @ '']''
      else if gtc h cap then range_text @ '' [:'' @ disp h @ '']'' @ with_word w cap
      else if neg l then range_text @ '' ['' @ disp l @ '':]''
      else if gt l h then range_text @ '' ['' @ disp l @ '':'' @ disp h @ '']''
      else [])"

section \<open>Panic payloads\<close>

datatype payload = RuntimeError string string | PlainError string | TypeAssertionError string

definition RuntimePanic :: "string \<Rightarrow> payload" where
  "RuntimePanic msg = RuntimeError msg []"

definition RuntimePanicKind :: "string \<Rightarrow> string \<Rightarrow> payload" where
  "RuntimePanicKind msg kind = RuntimeError msg kind"

definition PlainPanic :: "string \<Rightarrow> payload" where
  "PlainPanic msg = PlainError msg"

text \<open>
  \<open>BoundsPanic\<close>: the index arrives as a Go value; a negative one is seen when it is an \<open>int\<close> or \<open>int64\<close>.
\<close>

datatype go_index = GoInt "64 word" | GoInt64 "64 word" | GoOther int

definition show_index :: "go_index \<Rightarrow> string" where
  "show_index i = (case i of GoInt n \<Rightarrow> show_int (sint n) | GoInt64 n \<Rightarrow> show_int (sint n) | GoOther n \<Rightarrow> show_int n)"

definition BoundsPanic :: "go_index \<Rightarrow> int \<Rightarrow> payload" where
  "BoundsPanic i n =
     (let negative = (case i of GoInt64 iv \<Rightarrow> iv <s 0 | GoInt iv \<Rightarrow> iv <s 0 | GoOther _ \<Rightarrow> False) in
      if negative then RuntimePanicKind (''index out of range ['' @ show_index i @ '']'') ''boundsError''
      else RuntimePanicKind (''index out of range ['' @ show_index i @ ''] with length '' @ show_int n) ''boundsError'')"

definition SliceBoundsPanic :: "string \<Rightarrow> payload" where
  "SliceBoundsPanic msg = RuntimePanicKind msg ''boundsError''"

definition NegativeShiftPanic :: payload where
  "NegativeShiftPanic = RuntimePanic ''negative shift amount''"

text \<open>The bounds check of a two-index or three-index slice of something of capacity \<open>cap\<close>.\<close>

definition check_slice :: "bound \<Rightarrow> bound \<Rightarrow> bound \<Rightarrow> 64 word \<Rightarrow> bool \<Rightarrow> string \<Rightarrow> payload option" where
  "check_slice l h m cap three w =
     (let r = sliceBoundsReason l h m cap three w in if r \<noteq> [] then Some (SliceBoundsPanic r) else None)"

section \<open>Words as integers\<close>

lemma uint_sint: "uint (a :: 64 word) = sint a mod 2 ^ 64"
  using uint_word_of_int [of "sint a", where 'a = 64] by simp

lemma sint_nonneg_uint: "0 \<le> sint (a :: 64 word) \<Longrightarrow> uint a = sint a"
  using sint_lt [of a] by (simp add: uint_sint)

lemma sint_of_int: "- (2 ^ 63) \<le> i \<Longrightarrow> i < 2 ^ 63 \<Longrightarrow> sint (word_of_int i :: 64 word) = i"
  by (simp add: sint_sbintrunc' signed_take_bit_int_eq_self)

lemma sint_bounds: "- (2 ^ 63) \<le> sint (a :: 64 word)" "sint a < 2 ^ 63"
  using sint_ge [of a] sint_lt [of a] by simp_all

text \<open>The value of a bound in its own domain.\<close>

definition bound_val :: "bound \<Rightarrow> int" where
  "bound_val b = (if bo_unsigned b then uint (bo_u b) else sint (bo_i b))"

definition bound_ok :: "bound \<Rightarrow> bool" where
  "bound_ok b \<longleftrightarrow> bo_u b = bo_i b"

lemma bound_ok_operand: "bound_ok (boundOperand small boxed uns def)"
  by (simp add: bound_ok_def boundOperand_def split: option.split)

lemma neg_val: "neg b \<longleftrightarrow> bound_val b < 0"
  by (auto simp: neg_def bound_val_def word_sless_alt)

lemma gt_val: "bound_ok b \<Longrightarrow> bound_ok x \<Longrightarrow> 0 \<le> bound_val b \<Longrightarrow> 0 \<le> bound_val x \<Longrightarrow>
  gt b x \<longleftrightarrow> bound_val x < bound_val b"
  by (auto simp: gt_def bound_val_def bound_ok_def word_sless_alt word_less_def sint_nonneg_uint split: if_splits)

lemma gtc_val: "bound_ok b \<Longrightarrow> 0 \<le> bound_val b \<Longrightarrow> 0 \<le> sint cap \<Longrightarrow> gtc b cap \<longleftrightarrow> sint cap < bound_val b"
  by (auto simp: gtc_def bound_val_def bound_ok_def word_sless_alt word_less_def sint_nonneg_uint split: if_splits)

lemma word_of_int_shift: "word_of_int (i * 2 ^ n) = (word_of_int i :: 64 word) * 2 ^ n"
  by simp

lemma big_shift:
  assumes "(c :: 64 word) \<ge> 64"
  shows "(2 :: 64 word) ^ unat c = 0" "(2 :: int) ^ 64 \<le> 2 ^ unat c"
proof -
  have c: "64 \<le> unat c" using assms by (simp add: word_le_nat_alt)
  then show "(2 :: 64 word) ^ unat c = 0" by (simp add: exp_eq_zero_iff)
  show "(2 :: int) ^ 64 \<le> 2 ^ unat c" using c by (intro power_increasing) simp_all
qed

lemma shiftInt_left: "shiftInt BinShl a c = word_of_int (sint a * 2 ^ unat c)"
  by (cases "c \<ge> 64")
    (simp_all only: shiftInt_def push_bit_eq_mult word_of_int_shift big_shift(1) if_True if_False refl simp_thms
      mult_zero_right of_int_sint of_int_uint scast_id ucast_id)

lemma shiftUint_left: "shiftUint BinShl a c = word_of_int (uint a * 2 ^ unat c)"
  by (cases "c \<ge> 64")
    (simp_all only: shiftUint_def push_bit_eq_mult word_of_int_shift big_shift(1) if_True if_False refl simp_thms
      mult_zero_right of_int_sint of_int_uint scast_id ucast_id)

lemma shiftInt_right: "sint (shiftInt BinShr a c) = sint a div 2 ^ unat c"
proof (cases "c \<ge> 64")
  case True
  have lim: "sint a < 2 ^ unat c" "- (2 ^ unat c) \<le> sint a"
    using big_shift(2) [OF True] sint_bounds [of a] by simp_all
  show ?thesis
  proof (cases "0 \<le> sint a")
    case True
    with lim \<open>c \<ge> 64\<close> show ?thesis by (simp add: shiftInt_def word_sle_eq)
  next
    case False
    then have "sint a div 2 ^ unat c = -1"
      using lim by (intro int_div_pos_eq [where r = "sint a + 2 ^ unat c"]) simp_all
    with False \<open>c \<ge> 64\<close> show ?thesis by (simp add: shiftInt_def word_sle_eq)
  qed
qed (simp add: shiftInt_def sint_signed_drop_bit_eq drop_bit_eq_div)

lemma uint_drop_bit: "uint (drop_bit n (a :: 64 word)) = uint a div 2 ^ n"
proof -
  have "take_bit 64 (uint a) = uint a" using uint_lt2p [of a] by (simp add: take_bit_int_eq_self)
  then show ?thesis by (simp add: unsigned_drop_bit_eq flip: drop_bit_eq_div)
qed

lemma shiftUint_right: "uint (shiftUint BinShr a c) = uint a div 2 ^ unat c"
proof (cases "c \<ge> 64")
  case True
  have "uint a < 2 ^ unat c" using big_shift(2) [OF True] uint_lt2p [of a] by simp
  then show ?thesis using True by (simp add: shiftUint_def)
qed (simp add: shiftUint_def uint_drop_bit)

section \<open>Properties\<close>

text \<open>
  C38: the bounds check of a slice expression passes exactly when low, high and, with three indices, max are
  in order and within the capacity, each operand read in its own signed or unsigned domain.
\<close>

theorem slice_check_iff:
  assumes "bound_ok l" "bound_ok h" "bound_ok m" "0 \<le> sint cap"
  shows "check_slice l h m cap three w = None \<longleftrightarrow>
    (if three then 0 \<le> bound_val l \<and> bound_val l \<le> bound_val h \<and> bound_val h \<le> bound_val m \<and> bound_val m \<le> sint cap
     else 0 \<le> bound_val l \<and> bound_val l \<le> bound_val h \<and> bound_val h \<le> sint cap)"
proof -
  have "sliceBoundsReason l h m cap True w = [] \<longleftrightarrow>
      \<not> neg m \<and> \<not> gtc m cap \<and> \<not> neg h \<and> \<not> gt h m \<and> \<not> neg l \<and> \<not> gt l h"
    "sliceBoundsReason l h m cap False w = [] \<longleftrightarrow> \<not> neg h \<and> \<not> gtc h cap \<and> \<not> neg l \<and> \<not> gt l h"
    by (simp_all add: sliceBoundsReason_def)
  then show ?thesis
    using gt_val [of l h] gt_val [of h m] gtc_val [of m cap] gtc_val [of h cap] assms
    by (cases three) (auto simp: check_slice_def Let_def neg_val)
qed

text \<open>
  C39: integer division truncates towards zero also at the ends of the range: quotient and remainder recompose
  the dividend, and the remainder is smaller than the divisor and has the dividend's sign.
\<close>

theorem quo_rem:
  assumes "b \<noteq> 0"
  shows "\<exists>q r. intBinOp BinQuo a b = RInt q \<and> intBinOp BinRem a b = RInt r \<and> a = q * b + r \<and>
    \<bar>sint r\<bar> < \<bar>sint b\<bar> \<and> (sint r = 0 \<or> sgn (sint r) = sgn (sint a))"
proof -
  let ?q = "sint a sdiv sint b" and ?r = "sint a smod sint b"
  have b: "sint b \<noteq> 0" using assms word_eq_iff_signed [of b 0] by simp
  define n where "n = \<bar>sint a\<bar> mod \<bar>sint b\<bar>"
  have n: "0 \<le> n" "n < \<bar>sint b\<bar>" using b by (simp_all add: n_def)
  have "?r = sgn (sint a) * n" by (simp add: signed_modulo_int_def n_def)
  then have r: "\<bar>?r\<bar> < \<bar>sint b\<bar>" "?r = 0 \<or> sgn ?r = sgn (sint a)"
    using n b by (auto simp: abs_mult sgn_if)
  have "(of_int (?q * sint b + ?r) :: 64 word) = of_int ?q * of_int (sint b) + of_int ?r"
    by (simp only: of_int_add of_int_mult)
  then have "word_of_int ?q * b + word_of_int ?r = word_of_int (?q * sint b + ?r)" by simp
  also have "?q * sint b + ?r = sint a" by (rule sdiv_mult_smod_eq)
  finally have 1: "a = word_of_int ?q * b + word_of_int ?r" by simp
  have "sint (word_of_int ?r :: 64 word) = ?r"
    using r(1) sint_bounds [of b] by (intro sint_of_int) auto
  with 1 r assms show ?thesis by (simp add: quo64_def rem64_def)
qed

text \<open>
  shifts saturate: for every count, a right shift divides by the power of two, rounding down, and a left
  shift multiplies by it, modulo the width; the unsigned shifts likewise on the unsigned reading.
\<close>

theorem shift_arith:
  "sint (shiftInt BinShr a c) = sint a div 2 ^ unat c \<and>
   shiftInt BinShl a c = word_of_int (sint a * 2 ^ unat c) \<and>
   uint (shiftUint BinShr a c) = uint a div 2 ^ unat c \<and>
   shiftUint BinShl a c = word_of_int (uint a * 2 ^ unat c)"
  by (intro conjI shiftInt_right shiftInt_left shiftUint_right shiftUint_left)

text \<open>The widths \<open>maskInt\<close> knows and whether they are signed; the rest keeps all bits.\<close>

definition sized :: "string \<Rightarrow> (nat \<times> bool) option" where
  "sized name =
     (if name = ''int8'' then Some (8, True)
      else if name = ''int16'' then Some (16, True)
      else if name \<in> {''int32'', ''rune''} then Some (32, True)
      else if name \<in> {''uint8'', ''byte''} then Some (8, False)
      else if name = ''uint16'' then Some (16, False)
      else if name = ''uint32'' then Some (32, False)
      else None)"

lemma take_sint: "take_bit w (sint (n :: 64 word)) = take_bit w (uint n)" if "w \<le> 64"
  using that by (simp add: sint_uint take_bit_signed_take_bit min_def)

lemma ucast_back:
  "sint (ucast (ucast (n :: 64 word) :: 'w::len word) :: 64 word) = uint n mod 2 ^ LENGTH('w)"
  if "LENGTH('w) < 64"
proof -
  let ?x = "take_bit LENGTH('w) (uint n)"
  have "?x < 2 ^ 63"
    by (rule order.strict_trans2 [OF take_bit_int_less_exp]) (rule power_increasing, use that in simp_all)
  moreover have "0 \<le> ?x" by simp
  ultimately have "signed_take_bit 63 ?x = ?x" by (intro signed_take_bit_int_eq_self) linarith+
  moreover have "sint (ucast y :: 64 word) = signed_take_bit 63 (uint y)" for y :: "'w word"
    by (simp add: signed_ucast_eq)
  moreover have "uint (ucast n :: 'w word) = ?x" by (simp add: unsigned_ucast_eq)
  ultimately show ?thesis by (simp only: take_bit_eq_mod)
qed

lemma scast_back:
  "sint (scast (ucast (n :: 64 word) :: 'w::len word) :: 64 word) = signed_take_bit (LENGTH('w) - 1) (uint n)"
  if "LENGTH('w) < 64"
proof -
  let ?x = "signed_take_bit (LENGTH('w) - 1) (uint n)"
  have "- (2 ^ (LENGTH('w) - 1)) \<le> ?x" "?x < 2 ^ (LENGTH('w) - 1)"
    by (rule signed_take_bit_int_greater_eq_minus_exp, rule signed_take_bit_int_less_exp)
  moreover have "(2 :: int) ^ (LENGTH('w) - 1) \<le> 2 ^ 63" using that by (intro power_increasing) simp_all
  ultimately have "- (2 ^ 63) \<le> ?x" "?x < 2 ^ 63" by linarith+
  then have "signed_take_bit 63 ?x = ?x" by (rule signed_take_bit_int_eq_self)
  moreover have "sint (scast y :: 64 word) = signed_take_bit 63 (sint y)" for y :: "'w word"
    by (simp add: signed_scast_eq)
  moreover have "sint (ucast n :: 'w word) = ?x" by (simp add: signed_ucast_eq)
  ultimately show ?thesis by (simp only:)
qed

lemma unsigned_mask:
  "r = uint n mod 2 ^ w \<Longrightarrow> w \<le> 64 \<Longrightarrow> 0 \<le> r \<and> r < 2 ^ w \<and> r mod 2 ^ w = sint (n :: 64 word) mod 2 ^ w"
  using take_sint [of w n] by (simp add: take_bit_eq_mod)

lemma signed_mask:
  "r = signed_take_bit (w - 1) (uint n) \<Longrightarrow> 0 < w \<Longrightarrow> w \<le> 64 \<Longrightarrow>
   - (2 ^ (w - 1)) \<le> r \<and> r < 2 ^ (w - 1) \<and> r mod 2 ^ w = sint (n :: 64 word) mod 2 ^ w"
  using take_sint [of w n] signed_take_bit_int_greater_eq_minus_exp [of "w - 1" "uint n"]
    signed_take_bit_int_less_exp [of "w - 1" "uint n"]
  by (simp add: take_bit_signed_take_bit flip: take_bit_eq_mod)

text \<open>
  C40: \<open>maskInt\<close> wraps a value into the range of the sized type: the result lies in the range and agrees with
  the value modulo the width.
\<close>

theorem maskInt_wraps:
  assumes "sized name = Some (w, is_signed)"
  shows "(if is_signed then - (2 ^ (w - 1)) \<le> sint (maskInt n name) \<and> sint (maskInt n name) < 2 ^ (w - 1)
     else 0 \<le> sint (maskInt n name) \<and> sint (maskInt n name) < 2 ^ w) \<and>
    sint (maskInt n name) mod 2 ^ w = sint n mod 2 ^ w"
proof -
  have "w \<in> {8, 16, 32} \<and>
      sint (maskInt n name) = (if is_signed then signed_take_bit (w - 1) (uint n) else uint n mod 2 ^ w)"
    using assms scast_back [of n, where 'w = 8] scast_back [of n, where 'w = 16] scast_back [of n, where 'w = 32]
      ucast_back [of n, where 'w = 8] ucast_back [of n, where 'w = 16] ucast_back [of n, where 'w = 32]
    by (auto simp: sized_def maskInt_def split: if_splits)
  moreover from this have "0 < w" "w \<le> 64" by auto
  ultimately show ?thesis
    using signed_mask [of "sint (maskInt n name)" w n] unsigned_mask [of "sint (maskInt n name)" n w]
    by (cases is_signed) (simp_all only: if_True if_False)
qed

section \<open>Witnesses\<close>

lemma slice_check_iff_witness:
  "check_slice (boundOperand (Some 1) None False 0) (boundOperand None (Some 9223372036854775808) False 0)
     (boundOperand None None False 3) 3 False ''length'' \<noteq> None"
proof -
  have "\<not> bound_val (boundOperand None (Some 9223372036854775808) False 0) \<le> sint (3 :: 64 word)"
    by (simp add: boundOperand_def bound_val_def)
  then show ?thesis
    using slice_check_iff [OF bound_ok_operand bound_ok_operand bound_ok_operand, of 3 "Some 1" None False 0
      None "Some 9223372036854775808" False 0 None None False 3 False "''length''"] by simp
qed

lemma quo_rem_witness: "\<exists>q r. intBinOp BinQuo (-7) 2 = RInt q \<and> intBinOp BinRem (-7) 2 = RInt r \<and> -7 = q * 2 + r"
  using quo_rem [of 2 "-7"] by auto

lemma maskInt_wraps_witness: "sint (maskInt 300 ''int8'') mod 2 ^ 8 = sint (300 :: 64 word) mod 2 ^ 8"
  using maskInt_wraps [of "''int8''" 8 True 300] by (simp add: sized_def)

end
