(* ===== verification/GoPath.thy ===== *)
theory GoPath
  imports Prelude
begin

text \<open>
  Slash-separated paths as the standard library's \<open>path/filepath\<close> treats them on a Unix system, and the
  lines a \<open>bufio.Scanner\<close> reads: what the locator uses of them.
\<close>

section \<open>Cleaning and joining\<close>

text \<open>The segments of a clean path; \<open>rooted\<close> drops a leading \<open>..\<close>. The accumulator is innermost first.\<close>

fun clean_segs :: "bool \<Rightarrow> string list \<Rightarrow> string list \<Rightarrow> string list" where
  "clean_segs rooted acc [] = rev acc"
| "clean_segs rooted acc (s # ss) =
     (if s = [] \<or> s = ''.'' then clean_segs rooted acc ss
      else if s = ''..''
      then (case acc of
              [] \<Rightarrow> clean_segs rooted (if rooted then [] else [s]) ss
            | a # as \<Rightarrow> clean_segs rooted (if a = ''..'' then s # acc else as) ss)
      else clean_segs rooted (s # acc) ss)"

definition IsAbs :: "string \<Rightarrow> bool" where
  "IsAbs p \<longleftrightarrow> has_prefix p ''/''"

definition segments :: "string \<Rightarrow> string list" where
  "segments p = clean_segs (IsAbs p) [] (split_on (CHR ''/'') p)"

definition render :: "bool \<Rightarrow> string list \<Rightarrow> string" where
  "render rooted ss =
     (if rooted then ''/'' @ join_with ''/'' ss else if ss = [] then ''.'' else join_with ''/'' ss)"

definition Clean :: "string \<Rightarrow> string" where
  "Clean p = render (IsAbs p) (segments p)"

definition Join :: "string list \<Rightarrow> string" where
  "Join ps =
     (let qs = filter (\<lambda>p. p \<noteq> []) ps in if qs = [] then [] else Clean (join_with ''/'' qs))"

text \<open>\<open>filepath.Dir\<close>: up to the last slash, cleaned.\<close>

definition Dir :: "string \<Rightarrow> string" where
  "Dir p = Clean (rev (dropWhile (\<lambda>c. c \<noteq> CHR ''/'') (rev p)))"

definition Abs :: "string \<Rightarrow> string \<Rightarrow> string" where
  "Abs cwd p = (if IsAbs p then Clean p else Join [cwd, p])"

text \<open>\<open>filepath.Rel\<close> of two absolute paths.\<close>

fun drop_common :: "'a list \<Rightarrow> 'a list \<Rightarrow> 'a list \<times> 'a list" where
  "drop_common (x # xs) (y # ys) = (if x = y then drop_common xs ys else (x # xs, y # ys))"
| "drop_common xs ys = (xs, ys)"

definition Rel :: "string \<Rightarrow> string \<Rightarrow> string" where
  "Rel base target =
     (let (bs, ts) = drop_common (segments base) (segments target)
      in render False (map (\<lambda>_. ''..'') bs @ ts))"

section \<open>Lines\<close>

definition drop_cr :: "string \<Rightarrow> string" where
  "drop_cr l = (if has_suffix l [CHR 0x0D] then butlast l else l)"

text \<open>The lines of a text: a last line that is empty is not one; a line over the buffer stops the scan.\<close>

definition raw_lines :: "string \<Rightarrow> string list" where
  "raw_lines s = (let ls = split_on (CHR 0x0A) s in if last ls = [] then butlast ls else ls)"

definition max_token :: nat where
  "max_token = 65536"

definition scan_lines :: "string \<Rightarrow> string list \<times> bool" where
  "scan_lines s =
     (let ls = raw_lines s; ok = takeWhile (\<lambda>l. length l < max_token) ls
      in (map drop_cr ok, length ok < length ls))"

section \<open>Plain segments\<close>

text \<open>A segment that stands for itself in a clean path.\<close>

definition plain :: "string \<Rightarrow> bool" where
  "plain s \<longleftrightarrow> s \<noteq> [] \<and> s \<noteq> ''.'' \<and> s \<noteq> ''..'' \<and> CHR ''/'' \<notin> set s"

lemma clean_segs_plain: "\<forall>s\<in>set ss. plain s \<Longrightarrow> clean_segs r acc ss = rev acc @ ss"
  by (induction ss arbitrary: acc) (auto simp: plain_def)

lemma clean_segs_append_plain:
  "\<forall>s\<in>set ss. plain s \<Longrightarrow> clean_segs r acc (ss @ ts) = clean_segs r (rev ss @ acc) ts"
  by (induction ss arbitrary: acc) (auto simp: plain_def)

lemma split_abs: "ss \<noteq> [] \<Longrightarrow> \<forall>s\<in>set ss. plain s \<Longrightarrow>
  split_on (CHR ''/'') (''/'' @ join_with ''/'' ss) = [] # ss"
  by (simp add: split_join plain_def)

lemma segments_abs: "\<forall>s\<in>set ss. plain s \<Longrightarrow> segments (''/'' @ join_with ''/'' ss) = ss"
  by (cases "ss = []") (simp_all add: segments_def IsAbs_def split_join plain_def clean_segs_plain [unfolded plain_def])

lemma Clean_abs: "\<forall>s\<in>set ss. plain s \<Longrightarrow> Clean (''/'' @ join_with ''/'' ss) = ''/'' @ join_with ''/'' ss"
  using segments_abs [of ss] by (simp add: Clean_def render_def IsAbs_def)

lemma drop_common_prefix: "drop_common xs (xs @ ys) = ([], ys)"
  by (induction xs) (auto split: list.split elim: drop_common.elims)

section \<open>Absolute paths\<close>

definition abs_path :: "string list \<Rightarrow> string" where
  "abs_path ss = ''/'' @ join_with ''/'' ss"

lemma split_on_middle: "split_on c (a @ c # b) = split_on c a @ split_on c b"
  by (induction a) auto

lemma IsAbs_abs_path [simp]: "IsAbs (abs_path ss)"
  by (simp add: IsAbs_def abs_path_def)

lemma IsAbs_append [simp]: "IsAbs (abs_path ss @ p)"
  by (simp add: IsAbs_def abs_path_def)

lemma abs_path_not_nil [simp]: "abs_path ss \<noteq> []"
  by (simp add: abs_path_def)

lemma segments_abs_path: "\<forall>s\<in>set ss. plain s \<Longrightarrow> segments (abs_path ss) = ss"
  using segments_abs [of ss] by (simp add: abs_path_def)

lemma Clean_render: "IsAbs p \<Longrightarrow> Clean p = abs_path (segments p)"
  by (simp add: Clean_def render_def abs_path_def)

lemma clean_segs_blank: "clean_segs r acc ([] # ss) = clean_segs r acc ss"
  by simp

lemma segments_abs_then:
  assumes "\<forall>s\<in>set ss. plain s"
  shows "segments (abs_path ss @ ''/'' @ p) = clean_segs True (rev ss) (split_on (CHR ''/'') p)"
proof (cases "ss = []")
  case True
  then show ?thesis by (simp add: segments_def abs_path_def IsAbs_def)
next
  case False
  have "split_on (CHR ''/'') (abs_path ss @ ''/'' @ p) = ([] # ss) @ split_on (CHR ''/'') p"
    using split_on_middle [of "CHR ''/''" "abs_path ss" p] split_abs [OF False assms] by (simp add: abs_path_def)
  then show ?thesis using clean_segs_append_plain [OF assms, of True "[]"]
    by (simp add: segments_def)
qed

lemma Join_rest:
  assumes "\<forall>s\<in>set ss. plain s" and "p \<noteq> []"
  shows "Join [abs_path ss, p] = abs_path (clean_segs True (rev ss) (split_on (CHR ''/'') p))"
  using segments_abs_then [OF assms(1), of p] assms(2) Clean_render [of "abs_path ss @ ''/'' @ p"]
  by (simp add: Join_def)

lemma Join_plain:
  assumes "\<forall>s\<in>set ss. plain s" and "\<forall>s\<in>set ts. plain s" and "ts \<noteq> []"
  shows "Join [abs_path ss, join_with ''/'' ts] = abs_path (ss @ ts)"
    and "Join [abs_path ss, ''/'' @ join_with ''/'' ts] = abs_path (ss @ ts)"
proof -
  have ts: "split_on (CHR ''/'') (join_with ''/'' ts) = ts"
    using assms(2,3) by (intro split_join) (auto simp: plain_def)
  have "\<not> plain []" by (simp add: plain_def)
  then have "join_with ''/'' ts \<noteq> []" using ts assms(2) by (metis list.set_intros(1) split_on.simps(1))
  then show "Join [abs_path ss, join_with ''/'' ts] = abs_path (ss @ ts)"
    using Join_rest [OF assms(1), of "join_with ''/'' ts"] ts clean_segs_plain [OF assms(2)] by simp
  show "Join [abs_path ss, ''/'' @ join_with ''/'' ts] = abs_path (ss @ ts)"
    using Join_rest [OF assms(1), of "''/'' @ join_with ''/'' ts"] ts clean_segs_plain [OF assms(2)] by simp
qed

lemma Join_self: "\<forall>s\<in>set ss. plain s \<Longrightarrow> Join [abs_path ss, []] = abs_path ss"
  by (simp add: Join_def Clean_render segments_abs_path)

lemma abs_path_snoc: "abs_path (ss @ [s]) = (if ss = [] then ''/'' @ s else abs_path ss @ ''/'' @ s)"
proof -
  have "ss \<noteq> [] \<Longrightarrow> join_with ''/'' (ss @ [s]) = join_with ''/'' ss @ ''/'' @ s"
    by (induction ss rule: induct_list012) auto
  then show ?thesis by (simp add: abs_path_def)
qed

lemma upto_slash: "CHR ''/'' \<notin> set s \<Longrightarrow> rev (dropWhile (\<lambda>c. c \<noteq> CHR ''/'') (rev (p @ CHR ''/'' # s))) = p @ ''/''"
proof -
  assume "CHR ''/'' \<notin> set s"
  then have "dropWhile (\<lambda>c. c \<noteq> CHR ''/'') (rev s @ CHR ''/'' # rev p) = CHR ''/'' # rev p"
    by (subst dropWhile_append2) auto
  then show ?thesis by simp
qed

lemma Dir_snoc:
  assumes "\<forall>s\<in>set (ss @ [s]). plain s"
  shows "Dir (abs_path (ss @ [s])) = abs_path ss"
proof (cases "ss = []")
  case True
  have "Dir (abs_path ([] @ [s])) = Clean ''/''"
    using upto_slash [of s "[]"] assms True by (simp add: Dir_def abs_path_def plain_def)
  moreover have "Clean ''/'' = abs_path []" by code_simp
  ultimately show ?thesis using True by simp
next
  case False
  have "Dir (abs_path (ss @ [s])) = Clean (abs_path ss @ ''/'')"
    using upto_slash [of s "abs_path ss"] assms False by (simp add: Dir_def abs_path_snoc plain_def)
  also have "\<dots> = abs_path ss"
    using segments_abs_then [of ss "[]"] assms by (simp add: Clean_render)
  finally show ?thesis .
qed

lemma Rel_under:
  assumes "\<forall>s\<in>set ss. plain s" and "\<forall>s\<in>set ts. plain s"
  shows "Rel (abs_path ss) (abs_path (ss @ ts)) = (if ts = [] then ''.'' else join_with ''/'' ts)"
proof -
  have "\<forall>s\<in>set (ss @ ts). plain s" using assms by auto
  from segments_abs_path [OF this] segments_abs_path [OF assms(1)] show ?thesis
    by (simp only: Rel_def drop_common_prefix) (simp add: render_def)
qed

lemma join_with_append:
  "ss \<noteq> [] \<Longrightarrow> ts \<noteq> [] \<Longrightarrow> join_with sep (ss @ ts) = join_with sep ss @ sep @ join_with sep ts"
  by (induction ss rule: induct_list012) (auto simp: join_with_Cons)

lemma abs_path_append: "ss \<noteq> [] \<Longrightarrow> ts \<noteq> [] \<Longrightarrow> abs_path (ss @ ts) = abs_path ss @ ''/'' @ join_with ''/'' ts"
  by (simp add: abs_path_def join_with_append)

lemma abs_path_eq: "\<forall>s\<in>set ss. plain s \<Longrightarrow> \<forall>s\<in>set ts. plain s \<Longrightarrow> abs_path ss = abs_path ts \<longleftrightarrow> ss = ts"
  using segments_abs_path by metis

lemma length_join: "\<forall>s\<in>set ss. s \<noteq> [] \<Longrightarrow> length ss \<le> length (join_with sep ss)"
proof (induction ss rule: induct_list012)
  case (2 s)
  then show ?case by (cases s) auto
next
  case (3 s t ts)
  then show ?case by (cases s) auto
qed simp

lemma join_not_nil: "\<forall>s\<in>set ss. plain s \<Longrightarrow> ss \<noteq> [] \<Longrightarrow> join_with ''/'' ss \<noteq> []"
proof -
  assume ss: "\<forall>s\<in>set ss. plain s" "ss \<noteq> []"
  then have "length ss \<le> length (join_with ''/'' ss)" by (intro length_join) (simp add: plain_def)
  then show ?thesis using ss(2) by (cases "join_with ''/'' ss") simp_all
qed

lemma length_abs_path: "\<forall>s\<in>set ss. plain s \<Longrightarrow> length ss < length (abs_path ss)"
  using length_join [of ss "''/''"] by (simp add: abs_path_def plain_def le_imp_less_Suc)

end
