(* ===== verification/Locator.thy ===== *)
theory Locator
  imports GoPath "HOL-Library.Multiset"
begin

text \<open>
  The module locator (\<open>pkg/locator/locator.go\<close>): reading a \<open>go.mod\<close>, choosing the module that claims an
  import path, the directory of a package and the way back. The file system, the environment of the \<open>go\<close>
  command and \<open>module.EscapePath\<close> are in the argument \<open>world\<close>; a Go map of requirements is the list of
  its pairs in the order an iteration meets them.
\<close>

section \<open>The state\<close>

record replace_directive =
  OldPath :: string
  OldVersion :: string
  NewPath :: string
  NewVersion :: string
  IsLocal :: bool

record locator =
  modulePath :: string
  rootDir :: string
  replaces :: "replace_directive list"
  UseGoModuleResolver :: bool
  goRoot :: string
  goModCache :: string
  requires :: "(string \<times> string) list"

record world =
  is_dir :: "string \<Rightarrow> bool"
  file_exists :: "string \<Rightarrow> bool"
  read_file :: "string \<Rightarrow> string option"
  cwd :: string
  escape_path :: "string \<Rightarrow> string option"
  go_env :: "string \<Rightarrow> string option"

datatype loc_error =
    NoModule string
  | BadGoMod string
  | NoGoEnv string
  | Broken string
  | MissingDir string string string
  | Unresolved string
  | NoImportFor string
  | NoPath string

section \<open>Reading go.mod\<close>

fun first_module :: "string list \<Rightarrow> string option" where
  "first_module [] = None"
| "first_module (line # ls) =
     (if has_prefix line ''module''
      then (case Prelude.fields line of [m, p] \<Rightarrow> Some p | _ \<Rightarrow> first_module ls)
      else first_module ls)"

definition getModulePathFromBytes :: "string \<Rightarrow> loc_error + string" where
  "getModulePathFromBytes content =
     (if content = [] then Inl (BadGoMod ''empty'')
      else let (ls, too_long) = scan_lines content in
        case first_module ls of
          Some p \<Rightarrow> Inr p
        | None \<Rightarrow> Inl (BadGoMod (if too_long then ''error reading go.mod'' else ''module path not found'')))"

text \<open>The words before and after the first arrow.\<close>

fun split_arrow :: "string list \<Rightarrow> (string list \<times> string list) option" where
  "split_arrow [] = None"
| "split_arrow (p # ps) =
     (if p = ''=>'' then Some ([], ps)
      else map_option (\<lambda>(xs, ys). (p # xs, ys)) (split_arrow ps))"

definition is_local_path :: "string \<Rightarrow> bool" where
  "is_local_path p \<longleftrightarrow> has_prefix p ''./'' \<or> has_prefix p ''../'' \<or> IsAbs p"

definition parseReplaceLine :: "string \<Rightarrow> string + replace_directive" where
  "parseReplaceLine line =
     (case split_arrow (Prelude.fields line) of
        Some (old # olds, new # news) \<Rightarrow>
          let oldv = (case olds of [] \<Rightarrow> [] | v # _ \<Rightarrow> v) in
          if is_local_path new
          then (if news \<noteq> [] then Inl ''local replacement should not have a version''
                else Inr \<lparr>OldPath = old, OldVersion = oldv, NewPath = new, NewVersion = [], IsLocal = True\<rparr>)
          else (case news of
              v # _ \<Rightarrow> Inr \<lparr>OldPath = old, OldVersion = oldv, NewPath = new, NewVersion = v, IsLocal = False\<rparr>
            | [] \<Rightarrow> Inl ''non-local replacement requires a version'')
      | _ \<Rightarrow> Inl ''malformed replace directive line'')"

definition add_directive :: "string \<Rightarrow> replace_directive list \<Rightarrow> replace_directive list" where
  "add_directive line ds = (case parseReplaceLine line of Inl e \<Rightarrow> ds | Inr d \<Rightarrow> ds @ [d])"

text \<open>One line of the scan for replace directives: whether a block is open, and the directives so far.\<close>

definition replace_line :: "string \<Rightarrow> bool \<times> replace_directive list \<Rightarrow> bool \<times> replace_directive list" where
  "replace_line raw st =
     (let (inblock, ds) = st; line = trim_space raw in
      if has_prefix line ''//'' \<or> line = [] then st
      else if has_prefix line ''replace''
      then (if CHR ''('' \<in> set line
            then (let rest = trim_space (trim_prefix (trim_space (trim_prefix line ''replace'')) ''('')
                  in (True, if rest \<noteq> [] then add_directive rest ds else ds))
            else (inblock, add_directive (join_with '' '' (tl (Prelude.fields line))) ds))
      else if inblock then (if line = '')'' then (False, ds) else (True, add_directive line ds))
      else st)"

definition getReplaceDirectives :: "string list \<Rightarrow> replace_directive list" where
  "getReplaceDirectives ls = snd (fold replace_line ls (False, []))"

definition getReplaceDirectivesFromBytes :: "string \<Rightarrow> loc_error + replace_directive list" where
  "getReplaceDirectivesFromBytes content =
     (if content = [] then Inr []
      else let (ls, too_long) = scan_lines content in
        if too_long then Inl (BadGoMod ''error reading go.mod'') else Inr (getReplaceDirectives ls))"

definition set_require :: "string \<Rightarrow> string \<Rightarrow> (string \<times> string) list \<Rightarrow> (string \<times> string) list" where
  "set_require k v rs =
     (if k \<in> fst ` set rs then map (\<lambda>(m, x). (m, if m = k then v else x)) rs else rs @ [(k, v)])"

definition block_require :: "string \<Rightarrow> (string \<times> string) list \<Rightarrow> bool \<times> (string \<times> string) list" where
  "block_require line rs =
     (if line = '')'' then (False, rs)
      else (True, case Prelude.fields line of m # v # _ \<Rightarrow> set_require m v rs | _ \<Rightarrow> rs))"

definition require_line :: "string \<Rightarrow> bool \<times> (string \<times> string) list \<Rightarrow> bool \<times> (string \<times> string) list" where
  "require_line raw st =
     (let (inblock, rs) = st; line = trim_space raw in
      if has_prefix line ''//'' \<or> line = [] then st
      else if has_prefix line ''require''
      then (if CHR ''('' \<in> set line
            then block_require (trim_space (trim_prefix (trim_space (trim_prefix line ''require'')) ''('')) rs
            else (inblock, case Prelude.fields line of [k, m, v] \<Rightarrow> set_require m v rs | _ \<Rightarrow> rs))
      else if inblock then block_require line rs
      else st)"

definition getRequireDirectivesFromBytes :: "string \<Rightarrow> loc_error + (string \<times> string) list" where
  "getRequireDirectivesFromBytes content =
     (if content = [] then Inr []
      else let (ls, too_long) = scan_lines content in
        if too_long then Inl (BadGoMod ''error reading go.mod'')
        else Inr (snd (fold require_line ls (False, []))))"

section \<open>The root of a module\<close>

text \<open>The walk to the parent directories; \<open>n\<close> bounds it.\<close>

fun findModuleRoot :: "world \<Rightarrow> nat \<Rightarrow> string \<Rightarrow> string option" where
  "findModuleRoot w 0 dir = None"
| "findModuleRoot w (Suc n) dir =
     (if file_exists w (Join [dir, ''go.mod'']) then Some dir
      else if Dir dir = dir then None
      else findModuleRoot w n (Dir dir))"

text \<open>\<open>New\<close>: \<open>overlay\<close> is the overlay's go.mod.\<close>

definition go_mod_content :: "world \<Rightarrow> string option \<Rightarrow> string \<Rightarrow> string" where
  "go_mod_content w overlay root =
     (case overlay of
        Some c \<Rightarrow> c
      | None \<Rightarrow>
          if root \<noteq> [] then (case read_file w (Join [root, ''go.mod'']) of Some c \<Rightarrow> c | None \<Rightarrow> []) else [])"

definition read_go_mod :: "string \<Rightarrow> locator \<Rightarrow> loc_error + locator" where
  "read_go_mod content l =
     (if content = [] then Inr l
      else bind_err (getModulePathFromBytes content) (\<lambda>p.
        let rs = (case getReplaceDirectivesFromBytes content of Inl e \<Rightarrow> [] | Inr rs \<Rightarrow> rs);
            qs = (case getRequireDirectivesFromBytes content of Inl e \<Rightarrow> [] | Inr qs \<Rightarrow> qs)
        in Inr (l\<lparr>modulePath := p, replaces := rs, requires := if UseGoModuleResolver l then qs else requires l\<rparr>)))"

definition read_env :: "world \<Rightarrow> locator \<Rightarrow> loc_error + locator" where
  "read_env w l =
     (if \<not> UseGoModuleResolver l then Inr l
      else case go_env w ''GOROOT'' of
        None \<Rightarrow> Inl (NoGoEnv ''GOROOT'')
      | Some root \<Rightarrow>
          (case go_env w ''GOMODCACHE'' of
             None \<Rightarrow> Inl (NoGoEnv ''GOMODCACHE'')
           | Some cache \<Rightarrow> Inr (l\<lparr>goRoot := trim_space root, goModCache := trim_space cache\<rparr>)))"

definition New :: "world \<Rightarrow> nat \<Rightarrow> string \<Rightarrow> string option \<Rightarrow> bool \<Rightarrow> loc_error + locator" where
  "New w n startPath overlay use =
     (let l = \<lparr>modulePath = [], rootDir = [], replaces = [], UseGoModuleResolver = use, goRoot = [],
        goModCache = [], requires = []\<rparr>;
          absPath = Abs (cwd w) startPath in
      case findModuleRoot w n absPath of
        None \<Rightarrow>
          if \<not> use then Inl (NoModule absPath)
          else bind_err (read_go_mod (go_mod_content w overlay absPath) (l\<lparr>rootDir := absPath\<rparr>)) (read_env w)
      | Some root \<Rightarrow>
          bind_err (read_go_mod (go_mod_content w overlay root) (l\<lparr>rootDir := root\<rparr>)) (read_env w))"

section \<open>Which module claims an import\<close>

datatype claim_kind = claimNone | claimRequire | claimReplace | claimMain

fun claim_rank :: "claim_kind \<Rightarrow> nat" where
  "claim_rank claimNone = 0"
| "claim_rank claimRequire = 1"
| "claim_rank claimReplace = 2"
| "claim_rank claimMain = 3"

lemma claim_rank_inj: "claim_rank a = claim_rank b \<Longrightarrow> a = b"
  by (cases a; cases b) simp_all

instantiation claim_kind :: linorder
begin

definition less_eq_claim_kind :: "claim_kind \<Rightarrow> claim_kind \<Rightarrow> bool" where
  "less_eq_claim_kind a b \<longleftrightarrow> claim_rank a \<le> claim_rank b"

definition less_claim_kind :: "claim_kind \<Rightarrow> claim_kind \<Rightarrow> bool" where
  "less_claim_kind a b \<longleftrightarrow> claim_rank a < claim_rank b"

instance
  by standard (auto simp: less_eq_claim_kind_def less_claim_kind_def intro: claim_rank_inj)

end

definition matchModulePath :: "string \<Rightarrow> string \<Rightarrow> bool" where
  "matchModulePath m path \<longleftrightarrow> m \<noteq> [] \<and> (path = m \<or> has_prefix path (m @ ''/''))"

record claim =
  cl_mod :: string
  cl_kind :: claim_kind
  cl_rep :: "nat option"

definition no_claim :: claim where
  "no_claim = \<lparr>cl_mod = [], cl_kind = claimNone, cl_rep = None\<rparr>"

definition consider_claim :: "string \<Rightarrow> claim \<Rightarrow> claim \<Rightarrow> claim" where
  "consider_claim path c best =
     (if matchModulePath (cl_mod c) path \<and>
         (length (cl_mod c) > length (cl_mod best) \<or>
          length (cl_mod c) = length (cl_mod best) \<and> cl_kind c > cl_kind best)
      then c else best)"

definition replace_claims :: "replace_directive list \<Rightarrow> claim list" where
  "replace_claims rs =
     map (\<lambda>(i, r). \<lparr>cl_mod = OldPath r, cl_kind = claimReplace, cl_rep = Some i\<rparr>) (enumerate 0 rs)"

definition require_claims :: "(string \<times> string) list \<Rightarrow> claim list" where
  "require_claims qs = map (\<lambda>(m, v). \<lparr>cl_mod = m, cl_kind = claimRequire, cl_rep = None\<rparr>) qs"

definition claimants :: "locator \<Rightarrow> claim list" where
  "claimants l =
     \<lparr>cl_mod = modulePath l, cl_kind = claimMain, cl_rep = None\<rparr> # replace_claims (replaces l) @
     require_claims (requires l)"

definition best_claim :: "locator \<Rightarrow> string \<Rightarrow> claim" where
  "best_claim l path = fold (consider_claim path) (claimants l) no_claim"

section \<open>The directory of an import\<close>

definition dir_or :: "world \<Rightarrow> string \<Rightarrow> loc_error \<Rightarrow> loc_error + string" where
  "dir_or w d e = (if is_dir w d then Inr d else Inl e)"

definition from_goroot :: "world \<Rightarrow> locator \<Rightarrow> string \<Rightarrow> loc_error + string" where
  "from_goroot w l path =
     (if UseGoModuleResolver l \<and> goRoot l \<noteq> []
      then dir_or w (Join [goRoot l, ''src'', path]) (Unresolved path)
      else Inl (Unresolved path))"

text \<open>\<open>resolveImport\<close> at depth \<open>9 - n\<close>: the code's bound on chains of replacements is \<open>n = 0\<close>.\<close>

fun resolveImport :: "world \<Rightarrow> locator \<Rightarrow> nat \<Rightarrow> string \<Rightarrow> loc_error + string" where
  "resolveImport w l 0 path = Inl (Broken path)"
| "resolveImport w l (Suc n) path =
     (let b = best_claim l path; best = cl_mod b in
      case cl_kind b of
        claimMain \<Rightarrow>
          let d = Join [rootDir l, trim_prefix path best] in dir_or w d (MissingDir path best d)
      | claimReplace \<Rightarrow>
          let r = replaces l ! the (cl_rep b);
              rest = trim_prefix (trim_prefix path best) ''/'' in
          if IsLocal r
          then (let d = Abs (cwd w) (if IsAbs (NewPath r) then Join [NewPath r, rest]
                                     else Join [rootDir l, NewPath r, rest])
                in dir_or w d (MissingDir path (OldPath r) d))
          else resolveImport w l n (if rest \<noteq> [] then NewPath r @ ''/'' @ rest else NewPath r)
      | claimRequire \<Rightarrow>
          (case (if goModCache l \<noteq> [] then escape_path w best else None) of
             Some esc \<Rightarrow>
               let version = (case map_of (requires l) best of Some v \<Rightarrow> v | None \<Rightarrow> []);
                   d = Join [Join [goModCache l, esc @ ''@'' @ version], trim_prefix path best]
               in dir_or w d (MissingDir path (best @ ''@'' @ version) d)
           | None \<Rightarrow> from_goroot w l path)
      | claimNone \<Rightarrow> from_goroot w l path)"

definition isWithinDir :: "string \<Rightarrow> string \<Rightarrow> bool" where
  "isWithinDir root path \<longleftrightarrow> path = root \<or> has_prefix path (root @ ''/'')"

fun vendor_walk :: "world \<Rightarrow> string \<Rightarrow> string \<Rightarrow> nat \<Rightarrow> string \<Rightarrow> string option" where
  "vendor_walk w srcRoot path 0 d = None"
| "vendor_walk w srcRoot path (Suc n) d =
     (let c = Join [d, ''vendor'', path] in
      if is_dir w c then Some c
      else if d = srcRoot then None
      else vendor_walk w srcRoot path n (Dir d))"

definition findInVendor :: "world \<Rightarrow> locator \<Rightarrow> string \<Rightarrow> string \<Rightarrow> string option" where
  "findInVendor w l fromDir path =
     (if goRoot l = [] \<or> fromDir = [] then None
      else let srcRoot = Join [goRoot l, ''src''] in
        if \<not> isWithinDir srcRoot fromDir then None
        else vendor_walk w srcRoot path (length fromDir + 1) fromDir)"

definition FindPackageDirFrom :: "world \<Rightarrow> locator \<Rightarrow> string \<Rightarrow> string \<Rightarrow> loc_error + string" where
  "FindPackageDirFrom w l fromDir path =
     (case findInVendor w l fromDir path of Some d \<Rightarrow> Inr d | None \<Rightarrow> resolveImport w l 9 path)"

definition FindPackageDir :: "world \<Rightarrow> locator \<Rightarrow> string \<Rightarrow> loc_error + string" where
  "FindPackageDir w l path = FindPackageDirFrom w l [] path"

section \<open>The import of a directory\<close>

definition import_under :: "string \<Rightarrow> string \<Rightarrow> string \<Rightarrow> string" where
  "import_under base m absPath =
     (let rel = Rel base absPath in if rel = ''.'' then m else Join [m, rel])"

fun import_replaced :: "locator \<Rightarrow> string \<Rightarrow> replace_directive list \<Rightarrow> loc_error + string" where
  "import_replaced l absPath [] = Inl (NoImportFor absPath)"
| "import_replaced l absPath (r # rs) =
     (if \<not> IsLocal r then import_replaced l absPath rs
      else let d = (if IsAbs (NewPath r) then NewPath r else Join [rootDir l, NewPath r]) in
        if has_prefix absPath d then Inr (import_under d (OldPath r) absPath)
        else import_replaced l absPath rs)"

definition PathToImport :: "world \<Rightarrow> locator \<Rightarrow> string \<Rightarrow> loc_error + string" where
  "PathToImport w l path =
     (let absPath = Abs (cwd w) path in
      if has_prefix absPath (rootDir l) then Inr (import_under (rootDir l) (modulePath l) absPath)
      else import_replaced l absPath (replaces l))"

definition ResolvePkgPath :: "world \<Rightarrow> nat \<Rightarrow> string \<Rightarrow> loc_error + string" where
  "ResolvePkgPath w n path =
     (if \<not> file_exists w path
      then (if has_prefix path ''.'' \<or> IsAbs path then Inl (NoPath path) else Inr path)
      else
        let absPath = Abs (cwd w) path; searchDir = (if is_dir w path then absPath else Dir absPath) in
        case findModuleRoot w n searchDir of
          None \<Rightarrow> Inl (NoModule path)
        | Some root \<Rightarrow>
            (case read_file w (Join [root, ''go.mod'']) of
               None \<Rightarrow> Inl (BadGoMod root)
             | Some content \<Rightarrow>
                 bind_err (getModulePathFromBytes content) (\<lambda>m.
                   let rel = Rel root searchDir in Inr (if rel = ''.'' then m else m @ ''/'' @ rel))))"

section \<open>The claim that wins\<close>

lemma matching_equal: "matchModulePath m path \<Longrightarrow> matchModulePath m' path \<Longrightarrow> length m = length m' \<Longrightarrow> m = m'"
  by (auto simp: matchModulePath_def prefix_def)

text \<open>Whether a claim is worth more than another: the longer module path, then the kind.\<close>

definition beats :: "claim \<Rightarrow> claim \<Rightarrow> bool" where
  "beats c b \<longleftrightarrow> length (cl_mod c) > length (cl_mod b) \<or>
     length (cl_mod c) = length (cl_mod b) \<and> cl_kind c > cl_kind b"

lemma consider_if: "consider_claim path c b = (if matchModulePath (cl_mod c) path \<and> beats c b then c else b)"
  by (simp add: consider_claim_def beats_def)

lemma beats_irrefl [simp]: "\<not> beats c c"
  by (simp add: beats_def)

lemma beats_trans: "beats a b \<Longrightarrow> beats b c \<Longrightarrow> beats a c"
  by (auto simp: beats_def)

lemma unbeaten_trans: "\<not> beats a b \<Longrightarrow> \<not> beats b c \<Longrightarrow> \<not> beats a c"
  by (auto simp: beats_def)

lemma beats_over: "beats b a \<Longrightarrow> \<not> beats a b"
  by (auto simp: beats_def)

lemma consider_unbeaten: "\<not> beats b0 b \<Longrightarrow> \<not> beats b0 (consider_claim path c b)"
  by (auto simp: consider_if dest: beats_over beats_trans intro: unbeaten_trans)

lemma fold_keeps: "\<not> beats c b \<Longrightarrow> \<not> beats c (fold (consider_claim path) cs b)"
  by (induction cs arbitrary: b) (simp_all add: consider_unbeaten)

lemma fold_best: "c \<in> set cs \<Longrightarrow> matchModulePath (cl_mod c) path \<Longrightarrow> \<not> beats c (fold (consider_claim path) cs b)"
proof (induction cs arbitrary: b)
  case (Cons d cs)
  show ?case
  proof (cases "c = d")
    case True
    have "\<not> beats c (consider_claim path c b)" using Cons.prems(2) by (simp add: consider_if)
    then show ?thesis using True fold_keeps by simp
  next
    case False
    then show ?thesis using Cons by simp
  qed
qed simp

lemma fold_from:
  "fold (consider_claim path) cs b = b \<or>
   (fold (consider_claim path) cs b \<in> set cs \<and> matchModulePath (cl_mod (fold (consider_claim path) cs b)) path)"
proof (induction cs arbitrary: b)
  case (Cons c cs)
  show ?case using Cons.IH [of "consider_claim path c b"] by (auto simp: consider_if split: if_splits)
qed simp

lemma consider_commute:
  assumes "cl_mod x = cl_mod y \<Longrightarrow> x = y"
  shows "consider_claim path x (consider_claim path y b) = consider_claim path y (consider_claim path x b)"
proof (cases "matchModulePath (cl_mod x) path \<and> matchModulePath (cl_mod y) path \<and> x \<noteq> y")
  case True
  then have "length (cl_mod x) \<noteq> length (cl_mod y)" using assms matching_equal by blast
  then show ?thesis by (auto simp: consider_if beats_def)
next
  case False
  then show ?thesis by (auto simp: consider_if)
qed

lemma require_claims_commute:
  "x \<in> set (require_claims qs) \<Longrightarrow> y \<in> set (require_claims qs) \<Longrightarrow>
   consider_claim path x \<circ> consider_claim path y = consider_claim path y \<circ> consider_claim path x"
  by (auto simp: fun_eq_iff require_claims_def intro!: consider_commute)

lemma best_claim_order:
  assumes "mset qs = mset (requires l)"
  shows "best_claim (l\<lparr>requires := qs\<rparr>) path = best_claim l path"
proof -
  have "fold (consider_claim path) (require_claims (requires l)) = fold (consider_claim path) (require_claims qs)"
    by (rule fold_multiset_equiv [OF require_claims_commute]) (use assms in \<open>simp_all add: require_claims_def\<close>)
  then show ?thesis by (simp add: best_claim_def claimants_def)
qed

text \<open>
  C27: an import is claimed by the module whose path is its longest match, at equal length the main module
  before a replacement before a requirement; when no module path matches nothing claims it.
\<close>

theorem claim_longest:
  "(if \<exists>c\<in>set (claimants l). matchModulePath (cl_mod c) path
    then best_claim l path \<in> set (claimants l) \<and> matchModulePath (cl_mod (best_claim l path)) path \<and>
      (\<forall>c\<in>set (claimants l). matchModulePath (cl_mod c) path \<longrightarrow>
        length (cl_mod c) < length (cl_mod (best_claim l path)) \<or>
        cl_mod c = cl_mod (best_claim l path) \<and> cl_kind c \<le> cl_kind (best_claim l path))
    else best_claim l path = no_claim)"
proof (cases "\<exists>c\<in>set (claimants l). matchModulePath (cl_mod c) path")
  case True
  let ?b = "best_claim l path"
  obtain c where c: "c \<in> set (claimants l)" "matchModulePath (cl_mod c) path" using True by blast
  have top: "\<not> beats d ?b" if "d \<in> set (claimants l)" "matchModulePath (cl_mod d) path" for d
    using fold_best [OF that] by (simp add: best_claim_def)
  have "?b \<noteq> no_claim" using top [OF c] c(2) by (auto simp: beats_def no_claim_def matchModulePath_def)
  then have b: "?b \<in> set (claimants l)" "matchModulePath (cl_mod ?b) path"
    using fold_from [of path "claimants l" no_claim] by (auto simp: best_claim_def)
  have "length (cl_mod d) < length (cl_mod ?b) \<or> cl_mod d = cl_mod ?b \<and> cl_kind d \<le> cl_kind ?b"
    if "d \<in> set (claimants l)" "matchModulePath (cl_mod d) path" for d
    using top [OF that] matching_equal [OF that(2) b(2)] by (auto simp: beats_def)
  then show ?thesis using True b by simp
next
  case False
  then have "best_claim l path = no_claim" using fold_from [of path "claimants l" no_claim] by (auto simp: best_claim_def)
  then show ?thesis using False by simp
qed

section \<open>Requirements in any order\<close>

lemma map_of_order: "mset qs = mset rs \<Longrightarrow> distinct (map fst rs) \<Longrightarrow> map_of qs = map_of rs"
  by (metis map_of_inject_set mset_eq_imp_distinct_iff mset_eq_setD mset_map)

text \<open>
  C28: the directory of an import does not depend on the order in which the map of requirements is iterated.
\<close>

theorem resolve_map_order:
  assumes "mset qs = mset (requires l)" and "distinct (map fst (requires l))"
  shows "resolveImport w (l\<lparr>requires := qs\<rparr>) n path = resolveImport w l n path"
proof (induction n arbitrary: path)
  case (Suc n)
  have "map_of qs = map_of (requires l)" using map_of_order assms by blast
  then show ?case using best_claim_order [OF assms(1)]
    by (simp add: Suc Let_def from_goroot_def cong: option.case_cong split: claim_kind.split option.split)
qed simp

section \<open>Printing replace directives\<close>

definition replace_words :: "replace_directive \<Rightarrow> string list" where
  "replace_words d =
     OldPath d # (if OldVersion d = [] then [] else [OldVersion d]) @
     ''=>'' # NewPath d # (if IsLocal d then [] else [NewVersion d])"

definition replace_text :: "replace_directive \<Rightarrow> string" where
  "replace_text d = join_with '' '' (replace_words d)"

definition replace_block :: "replace_directive list \<Rightarrow> string" where
  "replace_block ds =
     join_with [CHR 0x0A] ((''replace ('' # map (\<lambda>d. CHR 0x09 # replace_text d) ds) @ ['')'', []])"

definition is_word :: "string \<Rightarrow> bool" where
  "is_word w \<longleftrightarrow> w \<noteq> [] \<and> (\<forall>c\<in>set w. \<not> is_space c)"

definition printable :: "replace_directive \<Rightarrow> bool" where
  "printable d \<longleftrightarrow>
     (\<forall>w\<in>set (replace_words d). is_word w) \<and> OldPath d \<noteq> ''=>'' \<and> OldVersion d \<noteq> ''=>'' \<and>
     IsLocal d = is_local_path (NewPath d) \<and> (IsLocal d \<longrightarrow> NewVersion d = []) \<and>
     \<not> has_prefix (OldPath d) ''//'' \<and> \<not> has_prefix (OldPath d) ''replace'' \<and>
     length (replace_text d) + 1 < max_token"

lemma fields_words: "\<forall>w\<in>set ws. is_word w \<Longrightarrow> Prelude.fields (join_with '' '' ws) = ws"
  by (rule fields_join) (simp add: is_word_def)

lemma parse_replace_text: "printable d \<Longrightarrow> parseReplaceLine (replace_text d) = Inr d"
  by (simp add: parseReplaceLine_def replace_text_def printable_def fields_words)
    (auto simp: replace_words_def)

lemma drop_space_id: "s \<noteq> [] \<Longrightarrow> \<not> is_space (hd s) \<Longrightarrow> dropWhile is_space s = s"
  by (cases s) auto

lemma trim_space_id: "s \<noteq> [] \<Longrightarrow> \<not> is_space (hd s) \<Longrightarrow> \<not> is_space (last s) \<Longrightarrow> trim_space s = s"
  by (simp add: trim_space_def drop_space_id hd_rev)

lemma join_words_ends:
  "ws \<noteq> [] \<Longrightarrow> \<forall>w\<in>set ws. w \<noteq> [] \<Longrightarrow>
   join_with '' '' ws \<noteq> [] \<and> hd (join_with '' '' ws) = hd (hd ws) \<and> last (join_with '' '' ws) = last (last ws)"
  by (induction ws rule: induct_list012) auto

lemma words_not_nil: "replace_words d \<noteq> []"
  by (simp add: replace_words_def)

lemma replace_text_ends:
  assumes "printable d"
  shows "replace_text d \<noteq> [] \<and> \<not> is_space (hd (replace_text d)) \<and> \<not> is_space (last (replace_text d))"
proof -
  have words: "\<forall>w\<in>set (replace_words d). is_word w" using assms by (simp add: printable_def)
  then have "is_word (hd (replace_words d))" "is_word (last (replace_words d))"
    using words_not_nil [of d] hd_in_set last_in_set by blast+
  then show ?thesis using join_words_ends [OF words_not_nil [of d]] words
    by (auto simp: is_word_def replace_text_def)
qed

lemma trim_space_Cons: "is_space c \<Longrightarrow> trim_space (c # s) = trim_space s"
  by (simp add: trim_space_def)

lemma replace_text_trim: "printable d \<Longrightarrow> trim_space (CHR 0x09 # replace_text d) = replace_text d"
  using replace_text_ends [of d] trim_space_id [of "replace_text d"]
  by (simp add: trim_space_Cons is_space_def)

lemma prefix_word: "prefix p (w @ CHR '' '' # s) \<Longrightarrow> CHR '' '' \<notin> set p \<Longrightarrow> prefix p w"
  by (auto simp: prefix_append prefix_Cons)

lemma replace_text_head: "replace_text d = OldPath d @ CHR '' '' # join_with '' '' (tl (replace_words d))"
  by (simp add: replace_text_def replace_words_def join_with_Cons)

lemma replace_text_no_prefix: "prefix p (replace_text d) \<Longrightarrow> CHR '' '' \<notin> set p \<Longrightarrow> prefix p (OldPath d)"
  unfolding replace_text_head by (rule prefix_word)

lemma block_line:
  assumes "printable d"
  shows "replace_line (CHR 0x09 # replace_text d) (True, ds) = (True, ds @ [d])"
proof -
  have "\<not> has_prefix (replace_text d) ''//''" "\<not> has_prefix (replace_text d) ''replace''"
    using assms replace_text_no_prefix [of _ d] by (fastforce simp: printable_def)+
  moreover have "replace_text d \<noteq> '')''" unfolding replace_text_head by (auto simp: append_eq_Cons_conv)
  ultimately show ?thesis using assms replace_text_ends [of d]
    by (simp add: replace_line_def replace_text_trim add_directive_def parse_replace_text)
qed

lemma block_lines:
  "\<forall>d\<in>set ds. printable d \<Longrightarrow>
   fold replace_line (map (\<lambda>d. CHR 0x09 # replace_text d) ds) (True, cs) = (True, cs @ ds)"
  by (induction ds arbitrary: cs) (simp_all add: block_line)

lemma open_line: "replace_line ''replace ('' (False, []) = (True, [])"
  by code_simp

lemma close_line: "replace_line '')'' (True, ds) = (False, ds)"
  by (simp add: replace_line_def trim_space_def is_space_def)

lemma word_line:
  assumes "printable d"
  shows "CHR 0x0A \<notin> set (replace_text d)" and "\<not> has_suffix (replace_text d) [CHR 0x0D]"
proof -
  have "CHR 0x0A \<notin> set (join_with '' '' ws)" if "\<forall>w\<in>set ws. is_word w" for ws
    using that by (induction ws rule: induct_list012) (auto simp: is_word_def is_space_def)
  then show "CHR 0x0A \<notin> set (replace_text d)" using assms by (simp add: replace_text_def printable_def)
  show "\<not> has_suffix (replace_text d) [CHR 0x0D]"
    using replace_text_ends [OF assms] by (auto simp: suffix_def is_space_def)
qed

lemma scan_block:
  assumes "\<forall>d\<in>set ds. printable d"
  shows "scan_lines (replace_block ds) = (''replace ('' # map (\<lambda>d. CHR 0x09 # replace_text d) ds @ ['')''], False)"
proof -
  let ?ls = "''replace ('' # map (\<lambda>d. CHR 0x09 # replace_text d) ds @ ['')'']"
  have "split_on (CHR 0x0A) (replace_block ds) = ?ls @ [[]]"
    unfolding replace_block_def by (subst split_join) (use assms word_line(1) in auto)
  then have raw: "raw_lines (replace_block ds) = ?ls" by (simp add: raw_lines_def butlast_append)
  have "\<forall>l\<in>set ?ls. length l < max_token" using assms by (auto simp: printable_def max_token_def)
  then have take: "takeWhile (\<lambda>l. length l < max_token) ?ls = ?ls" by (simp only: takeWhile_eq_all_conv)
  have "drop_cr (CHR 0x09 # replace_text d) = CHR 0x09 # replace_text d" if "d \<in> set ds" for d
    using word_line(2) [of d] replace_text_ends [of d] that assms by (auto simp: drop_cr_def suffix_Cons)
  moreover have "drop_cr ''replace ('' = ''replace (''" "drop_cr '')'' = '')''" by code_simp+
  ultimately have "map drop_cr ?ls = ?ls" by simp
  then show ?thesis by (simp only: scan_lines_def raw take Let_def less_irrefl)
qed

text \<open>
  C30: the block of replace directives printed from a list of directives is read back as that list.
\<close>

theorem replace_block_roundtrip:
  assumes "\<forall>d\<in>set ds. printable d"
  shows "getReplaceDirectivesFromBytes (replace_block ds) = Inr ds"
proof -
  have "replace_block ds \<noteq> []" by (cases ds) (simp_all add: replace_block_def)
  then show ?thesis using block_lines [OF assms, of "[]"]
    by (simp add: getReplaceDirectivesFromBytes_def scan_block [OF assms] getReplaceDirectives_def open_line close_line)
qed

section \<open>The vendor search\<close>

text \<open>The directories of the search: \<open>base\<close> extended by \<open>ts\<close>, then by ever fewer of its segments.\<close>

definition ancestors :: "string list \<Rightarrow> string list \<Rightarrow> string list" where
  "ancestors base ts = map (\<lambda>k. abs_path (base @ take k ts)) (rev [0..<Suc (length ts)])"

lemma ancestors_snoc: "ancestors base (ts @ [t]) = abs_path (base @ ts @ [t]) # ancestors base ts"
proof -
  have "map (\<lambda>k. abs_path (base @ take k (ts @ [t]))) (rev [0..<Suc (length ts)]) = ancestors base ts"
    unfolding ancestors_def by (rule map_cong) auto
  then show ?thesis by (simp add: ancestors_def)
qed

lemma vendor_walk_ancestors:
  assumes "\<forall>s\<in>set (base @ ts). plain s" and "length ts < n"
  shows "vendor_walk w (abs_path base) path n (abs_path (base @ ts)) =
    find (is_dir w) (map (\<lambda>d. Join [d, ''vendor'', path]) (ancestors base ts))"
  using assms
proof (induction ts arbitrary: n rule: rev_induct)
  case Nil
  then obtain m where "n = Suc m" by (cases n) auto
  then show ?case by (simp add: ancestors_def Let_def)
next
  case (snoc t ts)
  then obtain m where n: "n = Suc m" "length ts < m" by (cases n) auto
  have plain: "\<forall>s\<in>set (base @ ts). plain s" "\<forall>s\<in>set base. plain s" "\<forall>s\<in>set ((base @ ts) @ [t]). plain s"
    using snoc.prems(1) by auto
  have "abs_path (base @ ts @ [t]) \<noteq> abs_path base"
    using abs_path_eq [OF plain(3,2)] by simp
  moreover have "Dir (abs_path (base @ ts @ [t])) = abs_path (base @ ts)"
    using Dir_snoc [OF plain(3)] by simp
  ultimately show ?case using snoc.IH [OF plain(1) n(2)] n(1) by (simp add: ancestors_snoc Let_def)
qed

text \<open>
  for an importer inside the sources of GOROOT the search tries the vendor directory of the importer and
  of each directory above it up to the root of the sources, and answers the first that holds the package: the
  loop ends, and no directory above the root is tried.
\<close>

theorem vendor_nearest:
  assumes "goRoot l = abs_path gs" and "\<forall>s\<in>set (gs @ ts). plain s"
  shows "findInVendor w l (abs_path (gs @ ''src'' # ts)) path =
    find (is_dir w) (map (\<lambda>d. Join [d, ''vendor'', path]) (ancestors (gs @ [''src'']) ts))"
proof -
  let ?b = "gs @ [''src'']"
  have src: "plain ''src''" by code_simp
  then have plain: "\<forall>s\<in>set (?b @ ts). plain s" using assms(2) by auto
  have "Join [goRoot l, ''src''] = abs_path ?b"
    using Join_plain(1) [of gs "[''src'']"] assms src by simp
  moreover have "isWithinDir (abs_path ?b) (abs_path (?b @ ts))"
    using abs_path_append [of ?b ts] by (cases "ts = []") (simp_all add: isWithinDir_def)
  moreover have "length ts < length (abs_path (?b @ ts)) + 1" using length_abs_path [OF plain] by simp
  ultimately show ?thesis using vendor_walk_ancestors [OF plain] assms(1)
    by (simp add: findInVendor_def del: vendor_walk.simps)
qed

section \<open>Directory to import and back\<close>

definition import_path :: "string list \<Rightarrow> string" where
  "import_path ss = join_with ''/'' ss"

lemma Join_relative:
  assumes "\<forall>s\<in>set (ms @ ts). plain s" and "ms \<noteq> []" and "ts \<noteq> []"
  shows "Join [import_path ms, import_path ts] = import_path (ms @ ts)"
proof -
  let ?p = "import_path (ms @ ts)"
  have "import_path ms \<noteq> []" "import_path ts \<noteq> []"
    using join_not_nil [of ms] join_not_nil [of ts] assms by (simp_all add: import_path_def)
  note ne = this
  have split: "split_on (CHR ''/'') ?p = ms @ ts"
    unfolding import_path_def using assms by (intro split_join) (auto simp: plain_def)
  have "\<not> IsAbs ?p"
  proof
    assume "IsAbs ?p"
    then obtain q where "?p = CHR ''/'' # q" by (auto simp: IsAbs_def prefix_def)
    with split have "[] \<in> set (ms @ ts)" by (metis list.set_intros(1) split_on.simps(2))
    then show False using assms(1) by (auto simp: plain_def)
  qed
  then have "Clean ?p = ?p"
    using split clean_segs_plain [OF assms(1)] assms(2) by (simp add: Clean_def render_def segments_def import_path_def)
  then show ?thesis using ne assms(2,3)
    by (simp add: Join_def import_path_def join_with_append)
qed

text \<open>The main module claims an import when no replaced or required module path that matches it is longer.\<close>

lemma main_claims:
  assumes "matchModulePath (modulePath l) path"
    and "\<forall>m\<in>set (map OldPath (replaces l) @ map fst (requires l)). matchModulePath m path \<longrightarrow> length m \<le> length (modulePath l)"
  shows "best_claim l path = \<lparr>cl_mod = modulePath l, cl_kind = claimMain, cl_rep = None\<rparr>"
proof -
  let ?b = "best_claim l path" and ?main = "\<lparr>cl_mod = modulePath l, cl_kind = claimMain, cl_rep = None\<rparr>"
  have top: "\<not> beats ?main ?b" using fold_best [of ?main "claimants l" path] assms(1) by (simp add: best_claim_def claimants_def)
  then have "?b \<noteq> no_claim" using assms(1) by (auto simp: beats_def no_claim_def matchModulePath_def)
  then have b: "?b \<in> set (claimants l)" "matchModulePath (cl_mod ?b) path"
    using fold_from [of path "claimants l" no_claim] by (auto simp: best_claim_def)
  have "?b = ?main \<or> cl_kind ?b < claimMain \<and> cl_mod ?b \<in> set (map OldPath (replaces l) @ map fst (requires l))"
    using b(1) by (force simp: claimants_def replace_claims_def require_claims_def less_claim_kind_def in_set_enumerate_eq)
  then consider "?b = ?main" | "cl_kind ?b < claimMain" "length (cl_mod ?b) \<le> length (modulePath l)"
    using assms(2) b(2) by blast
  then show ?thesis
    using top by cases (auto simp: beats_def)
qed

text \<open>
  C29: In a module, the import path of a directory below the module's root resolves to that directory, whatever modules the
  go.mod file replaces and requires, unless one of them has a longer path that matches the import (the directory then belongs
  to that module's paths).
\<close>

theorem path_import_roundtrip:
  assumes "rootDir l = abs_path rs" and "modulePath l = import_path ms"
    and "\<forall>m\<in>set (map OldPath (replaces l) @ map fst (requires l)).
      matchModulePath m (import_path (ms @ ts)) \<longrightarrow> length m \<le> length (modulePath l)"
    and "ms \<noteq> []" and "rs \<noteq> []" and "\<forall>s\<in>set (rs @ ms @ ts). plain s" and "is_dir w (abs_path (rs @ ts))"
  shows "bind_err (PathToImport w l (abs_path (rs @ ts))) (FindPackageDir w l) = Inr (abs_path (rs @ ts))"
proof -
  have plain: "\<forall>s\<in>set rs. plain s" "\<forall>s\<in>set ts. plain s" "\<forall>s\<in>set (rs @ ts). plain s" "\<forall>s\<in>set (ms @ ts). plain s"
    using assms(6) by auto
  let ?i = "import_path (ms @ ts)"
  have mp: "modulePath l \<noteq> []" using join_not_nil [of ms] assms(2,4) plain(4) by (simp add: import_path_def)
  have "import_path ts \<noteq> ''.''" if "ts \<noteq> []"
  proof
    assume dot: "import_path ts = ''.''"
    have "split_on (CHR ''/'') (import_path ts) = ts"
      unfolding import_path_def by (rule split_join [OF that]) (use plain(2) in \<open>simp add: plain_def\<close>)
    then have "ts = [''.'']" using dot by simp
    then show False using plain(2) by (simp add: plain_def)
  qed
  then have "import_under (rootDir l) (modulePath l) (abs_path (rs @ ts)) = ?i"
    using Rel_under [OF plain(1,2)] Join_relative [OF plain(4) assms(4)] assms(1,2)
    by (auto simp: import_under_def Let_def import_path_def)
  moreover have "has_prefix (abs_path (rs @ ts)) (rootDir l)"
    using abs_path_append [OF assms(5), of ts] assms(1) by (cases "ts = []") simp_all
  moreover have "Abs (cwd w) (abs_path (rs @ ts)) = abs_path (rs @ ts)"
    using segments_abs_path [OF plain(3)] by (simp add: Abs_def Clean_render)
  ultimately have "PathToImport w l (abs_path (rs @ ts)) = Inr ?i" by (simp add: PathToImport_def)
  moreover have i: "?i = modulePath l @ (if ts = [] then [] else ''/'' @ import_path ts)"
    using assms(2,4) by (simp add: import_path_def join_with_append)
  then have match: "matchModulePath (modulePath l) ?i" using mp by (simp add: matchModulePath_def)
  then have b: "best_claim l ?i = \<lparr>cl_mod = modulePath l, cl_kind = claimMain, cl_rep = None\<rparr>"
    using main_claims assms(3) by simp
  have "Join [rootDir l, trim_prefix ?i (modulePath l)] = abs_path (rs @ ts)"
    using Join_plain(2) [OF plain(1,2)] Join_self [OF plain(1)] i assms(1) by (simp add: import_path_def)
  then have "resolveImport w l 9 ?i = Inr (abs_path (rs @ ts))"
    using assms(7) by (simp add: numeral_eq_Suc b Let_def dir_or_def)
  ultimately show ?thesis by (simp add: FindPackageDir_def FindPackageDirFrom_def findInVendor_def)
qed

section \<open>Concrete locators\<close>

definition small_locator :: locator where
  "small_locator = \<lparr>modulePath = ''ex.com/m'', rootDir = ''/w/m'', replaces = [], UseGoModuleResolver = True,
     goRoot = ''/go'', goModCache = ''/c'', requires = []\<rparr>"

definition small_replace :: replace_directive where
  "small_replace = \<lparr>OldPath = ''ex.com/m/x'', OldVersion = ''v1'', NewPath = ''../x'', NewVersion = [], IsLocal = True\<rparr>"

definition full_locator :: locator where
  "full_locator = small_locator\<lparr>replaces := [small_replace], requires := [(''ex.com/m/x'', ''v1''), (''q'', ''v2'')]\<rparr>"

definition small_world :: world where
  "small_world = \<lparr>is_dir = (\<lambda>d. d \<in> {''/w/m/sub'', ''/w/x'', ''/go/src/vendor/q''}), file_exists = (\<lambda>f. f = ''/w/m/go.mod''),
     read_file = (\<lambda>_. None), cwd = ''/w'', escape_path = Some, go_env = (\<lambda>_. None)\<rparr>"

lemma full_locator_claims:
  "claimants full_locator =
    [\<lparr>cl_mod = ''ex.com/m'', cl_kind = claimMain, cl_rep = None\<rparr>,
     \<lparr>cl_mod = ''ex.com/m/x'', cl_kind = claimReplace, cl_rep = Some 0\<rparr>,
     \<lparr>cl_mod = ''ex.com/m/x'', cl_kind = claimRequire, cl_rep = None\<rparr>,
     \<lparr>cl_mod = ''q'', cl_kind = claimRequire, cl_rep = None\<rparr>]"
  by code_simp

lemma full_locator_best:
  "best_claim full_locator ''ex.com/m/x/y'' = \<lparr>cl_mod = ''ex.com/m/x'', cl_kind = claimReplace, cl_rep = Some 0\<rparr>"
  by code_simp

lemma claim_longest_witness:
  "length ''ex.com/m'' < length ''ex.com/m/x'' \<and> best_claim full_locator ''ex.com/m/x/y'' \<in> set (claimants full_locator)"
  using claim_longest [of full_locator "''ex.com/m/x/y''"]
  by (simp add: full_locator_claims full_locator_best matchModulePath_def)

lemma resolve_map_order_witness:
  "resolveImport small_world (full_locator\<lparr>requires := [(''q'', ''v2''), (''ex.com/m/x'', ''v1'')]\<rparr>) 9 ''ex.com/m/x'' =
   Inr ''/w/x''"
proof -
  have "resolveImport small_world full_locator 9 ''ex.com/m/x'' = Inr ''/w/x''" by code_simp
  then show ?thesis
    by (subst resolve_map_order) (simp_all add: full_locator_def)
qed

lemma replace_block_roundtrip_witness:
  "getReplaceDirectivesFromBytes (replace_block [small_replace, small_replace]) = Inr [small_replace, small_replace]"
proof -
  have "printable small_replace"
    by (simp add: printable_def small_replace_def replace_words_def replace_text_def is_word_def is_space_def
        is_local_path_def max_token_def)
  then show ?thesis by (intro replace_block_roundtrip) simp
qed

lemma vendor_nearest_witness:
  "findInVendor small_world small_locator ''/go/src/net'' ''q'' = Some ''/go/src/vendor/q''"
proof -
  have go: "goRoot small_locator = abs_path [''go'']" "\<forall>s\<in>set ([''go''] @ [''net'']). plain s" by code_simp+
  have "findInVendor small_world small_locator (abs_path ([''go''] @ ''src'' # [''net''])) ''q'' =
    find (is_dir small_world) (map (\<lambda>d. Join [d, ''vendor'', ''q'']) (ancestors ([''go''] @ [''src'']) [''net'']))"
    by (rule vendor_nearest [OF go])
  moreover have "ancestors ([''go''] @ [''src'']) [''net''] = [''/go/src/net'', ''/go/src'']"
    by (simp add: ancestors_def abs_path_def)
  moreover have "\<not> is_dir small_world (Join [''/go/src/net'', ''vendor'', ''q''])"
    "is_dir small_world (Join [''/go/src'', ''vendor'', ''q''])"
    "Join [''/go/src'', ''vendor'', ''q''] = ''/go/src/vendor/q''" by code_simp+
  moreover have "abs_path ([''go''] @ ''src'' # [''net'']) = ''/go/src/net''" by code_simp
  ultimately show ?thesis by (simp only: list.map find.simps if_True if_False)
qed

lemma path_import_roundtrip_witness:
  "bind_err (PathToImport small_world full_locator ''/w/m/sub'') (FindPackageDir small_world full_locator) =
   Inr ''/w/m/sub'' \<and> replaces full_locator \<noteq> [] \<and> requires full_locator \<noteq> []"
proof -
  have shape: "rootDir full_locator = abs_path [''w'', ''m'']" "modulePath full_locator = import_path [''ex.com'', ''m'']"
    "\<forall>m\<in>set (map OldPath (replaces full_locator) @ map fst (requires full_locator)).
      matchModulePath m (import_path ([''ex.com'', ''m''] @ [''sub''])) \<longrightarrow> length m \<le> length (modulePath full_locator)"
    "[''ex.com'', ''m''] \<noteq> []" "[''w'', ''m''] \<noteq> []"
    "\<forall>s\<in>set ([''w'', ''m''] @ [''ex.com'', ''m''] @ [''sub'']). plain s"
    "is_dir small_world (abs_path ([''w'', ''m''] @ [''sub'']))"
    by code_simp+
  have "abs_path ([''w'', ''m''] @ [''sub'']) = ''/w/m/sub''" by code_simp
  moreover have "replaces full_locator \<noteq> []" "requires full_locator \<noteq> []" by (simp_all add: full_locator_def)
  ultimately show ?thesis using path_import_roundtrip [OF shape] by simp
qed

text \<open>
  The prefix test on directory names is not a test on segments: a sibling of the root whose name begins with
  the root's name is taken to lie inside the module, and gets an import path outside it.
\<close>

lemma sibling_taken_inside:
  "PathToImport small_world small_locator ''/w/m2'' = Inr ''ex.com/m2'' \<and>
   \<not> matchModulePath (modulePath small_locator) ''ex.com/m2''"
  by code_simp

text \<open>
  A line of a block whose module path begins with the keyword is read as a directive of its own, and a
  requirement on a line of its own is dropped when a comment follows it.
\<close>

lemma keyword_module_misread:
  "snd (fold require_line [''require ('', ''requirements.org/a v1'', ''b v1'', '')''] (False, [])) = [(''b'', ''v1'')]"
  by code_simp

lemma commented_requirement_dropped:
  "snd (require_line ''require a v1 // indirect'' (False, [])) = []"
  by code_simp

end
