(* ===== verification/FScope.thy ===== *)
theory FScope
  imports GoAst Machine "HOL-Library.AList"
begin

text \<open>
  The static scopes of the function being compiled (\<open>compile/compile.go\<close>: \<open>binding\<close>, \<open>fscope\<close> and its
  methods). The parent pointers make a chain: it is the list of the scopes, the function being compiled
  first, then the functions it is nested in; a capture changes the scopes further out. A block is the
  association list of its names, and the blocks (and their ids) of a scope are kept innermost first. What a
  binding records of a type definition is of the type parameter \<open>'t\<close>. The last part puts the captures next to
  the machine: frames of nested functions, each made by evaluating a literal in a frame of the next one, and
  which cells their captured names are.
\<close>

section \<open>Bindings and scopes\<close>

record 't binding =
  b_slot :: nat
  b_pos :: nat
  b_typeDecl :: bool
  b_tspec :: "node option"
  b_tdef :: "'t option"
  b_ifaceT :: bool
  b_ifaceVar :: bool
  b_declTyp :: "node option"
  b_untypedConst :: bool
  b_constDecl :: bool
  b_dte :: "node option"

record 't fscope =
  fs_blocks :: "(string \<times> 't binding) list list"
  fs_blockIDs :: "nat list"
  fs_nextID :: nat
  fs_iota :: "nat option"
  fs_nlocals :: nat
  fs_upvals :: "upval_desc list"
  fs_upmap :: "string \<rightharpoonup> nat"

type_synonym 't scopes = "'t fscope list"

definition bind_at :: "nat \<Rightarrow> nat \<Rightarrow> 't binding" where
  "bind_at slot pos =
     \<lparr>b_slot = slot, b_pos = pos, b_typeDecl = False, b_tspec = None, b_tdef = None, b_ifaceT = False,
      b_ifaceVar = False, b_declTyp = None, b_untypedConst = False, b_constDecl = False, b_dte = None\<rparr>"

definition newFScope :: "'t fscope" where
  "newFScope =
     \<lparr>fs_blocks = [], fs_blockIDs = [], fs_nextID = 0, fs_iota = None, fs_nlocals = 0, fs_upvals = [],
      fs_upmap = Map.empty\<rparr>"

definition pushBlock :: "'t fscope \<Rightarrow> 't fscope" where
  "pushBlock s =
     s\<lparr>fs_nextID := fs_nextID s + 1, fs_blocks := [] # fs_blocks s, fs_blockIDs := (fs_nextID s + 1) # fs_blockIDs s\<rparr>"

definition popBlock :: "'t fscope \<Rightarrow> 't fscope" where
  "popBlock s = s\<lparr>fs_blocks := tl (fs_blocks s), fs_blockIDs := tl (fs_blockIDs s)\<rparr>"

section \<open>Declarations\<close>

definition in_some_block :: "'t fscope \<Rightarrow> 't fscope" where
  "in_some_block s = (if fs_blocks s = [] then pushBlock s else s)"

definition put :: "string \<Rightarrow> 't binding \<Rightarrow> 't fscope \<Rightarrow> 't fscope" where
  "put x b s = s\<lparr>fs_blocks := AList.update x b (hd (fs_blocks s)) # tl (fs_blocks s)\<rparr>"

definition fs_declare :: "string \<Rightarrow> nat \<Rightarrow> 't fscope \<Rightarrow> nat \<times> 't fscope" where
  "fs_declare x pos s =
     (let slot = fs_nlocals s
      in (slot, put x (bind_at slot pos) (in_some_block (s\<lparr>fs_nlocals := slot + 1\<rparr>))))"

text \<open>The marks on a name of the innermost block; a name that is not there is left alone.\<close>

definition mark_name :: "('t binding \<Rightarrow> 't binding) \<Rightarrow> string \<Rightarrow> 't fscope \<Rightarrow> 't fscope" where
  "mark_name f x s =
     (case fs_blocks s of
        [] \<Rightarrow> s
      | b # bs \<Rightarrow> (case map_of b x of None \<Rightarrow> s | Some r \<Rightarrow> put x (f r) s))"

definition recordType :: "string \<Rightarrow> node option \<Rightarrow> 't option \<Rightarrow> bool \<Rightarrow> 't fscope \<Rightarrow> 't fscope" where
  "recordType x ts td iface =
     mark_name (\<lambda>b. b\<lparr>b_typeDecl := True, b_tspec := ts, b_tdef := td, b_ifaceT := iface\<rparr>) x"

definition markIface :: "string \<Rightarrow> 't fscope \<Rightarrow> 't fscope" where
  "markIface = mark_name (\<lambda>b. b\<lparr>b_ifaceVar := True\<rparr>)"

definition noteDeclTyp :: "string \<Rightarrow> node option \<Rightarrow> 't fscope \<Rightarrow> 't fscope" where
  "noteDeclTyp x te s = (case te of None \<Rightarrow> s | Some t \<Rightarrow> mark_name (\<lambda>b. b\<lparr>b_declTyp := Some t\<rparr>) x s)"

definition noteConstDecl :: "string \<Rightarrow> 't fscope \<Rightarrow> 't fscope" where
  "noteConstDecl = mark_name (\<lambda>b. b\<lparr>b_constDecl := True\<rparr>)"

definition noteUntypedConst :: "string \<Rightarrow> node option \<Rightarrow> 't fscope \<Rightarrow> 't fscope" where
  "noteUntypedConst x dte = mark_name (\<lambda>b. b\<lparr>b_untypedConst := True, b_dte := dte\<rparr>) x"

section \<open>Lookup\<close>

text \<open>\<open>first_binding\<close> is the walk through the blocks of one scope, innermost first.\<close>

fun first_binding :: "(string \<times> 't binding) list list \<Rightarrow> string \<Rightarrow> 't binding option" where
  "first_binding [] x = None"
| "first_binding (b # bs) x = (case map_of b x of Some r \<Rightarrow> Some r | None \<Rightarrow> first_binding bs x)"

definition lookupLocal :: "'t fscope \<Rightarrow> string \<Rightarrow> nat option" where
  "lookupLocal s x = map_option b_slot (first_binding (fs_blocks s) x)"

definition inCurrentBlock :: "'t fscope \<Rightarrow> string \<Rightarrow> bool" where
  "inCurrentBlock s x = (case fs_blocks s of [] \<Rightarrow> False | b # bs \<Rightarrow> map_of b x \<noteq> None)"

fun lookupBinding :: "'t scopes \<Rightarrow> string \<Rightarrow> 't binding option" where
  "lookupBinding [] x = None"
| "lookupBinding (s # ps) x =
     (case first_binding (fs_blocks s) x of Some b \<Rightarrow> Some b | None \<Rightarrow> lookupBinding ps x)"

definition isIfaceVar :: "'t scopes \<Rightarrow> string \<Rightarrow> bool" where
  "isIfaceVar ch x = (case lookupBinding ch x of Some b \<Rightarrow> b_ifaceVar b | None \<Rightarrow> False)"

definition isTypeDeclName :: "'t scopes \<Rightarrow> string \<Rightarrow> bool" where
  "isTypeDeclName ch x = (case lookupBinding ch x of Some b \<Rightarrow> b_typeDecl b | None \<Rightarrow> False)"

text \<open>The hidden slot of \<open>iota\<close>.\<close>

definition iotaSlot :: "'t fscope \<Rightarrow> nat \<times> 't fscope" where
  "iotaSlot s =
     (case fs_iota s of
        None \<Rightarrow> (let (slot, s1) = fs_declare ''iota'' 0 s in (slot, s1\<lparr>fs_iota := Some slot\<rparr>))
      | Some i \<Rightarrow>
          (i, if lookupLocal s ''iota'' = None
              then put ''iota'' ((bind_at i 0)\<lparr>b_untypedConst := True\<rparr>) (in_some_block s) else s))"

text \<open>The type definitions visible from the scope: of every name its innermost binding counts.\<close>

fun visible :: "string list \<Rightarrow> (string \<times> 't binding) list \<Rightarrow> (string \<times> 't binding) list" where
  "visible seen [] = []"
| "visible seen ((x, b) # bs) =
     (if x \<in> set seen then visible seen bs else (x, b) # visible (x # seen) bs)"

definition localTypeDefs :: "'t scopes \<Rightarrow> (string \<times> 't) list" where
  "localTypeDefs ch =
     concat (map (\<lambda>(x, b). case b_tdef b of None \<Rightarrow> [] | Some td \<Rightarrow> [(x, td)])
       (visible [] (concat (concat (map fs_blocks ch)))))"

text \<open>The blocks that are open and the variables that are visible, each with its declaring position.\<close>

definition scopeSnapshot :: "'t scopes \<Rightarrow> nat list \<times> (string \<times> nat) list" where
  "scopeSnapshot ch =
     (case ch of
        [] \<Rightarrow> ([], [])
      | s # ps \<Rightarrow>
          (fs_blockIDs s,
           map (\<lambda>(x, b). (x, b_pos b))
             (visible [] (filter (\<lambda>(x, b). \<not> (isTypeDeclName ch x \<or> take 1 x = ''$''))
               (concat (fs_blocks s))))))"

section \<open>Capture\<close>

text \<open>
  How a name is reached from the frame of the innermost scope: \<open>(False, i)\<close> is slot \<open>i\<close> of the frame,
  \<open>(True, i)\<close> its upvalue \<open>i\<close>.
\<close>

fun find_name :: "'t scopes \<Rightarrow> string \<Rightarrow> (bool \<times> nat) option \<times> 't scopes" where
  "find_name [] x = (None, [])"
| "find_name (s # ps) x =
     (case lookupLocal s x of
        Some slot \<Rightarrow> (Some (False, slot), s # ps)
      | None \<Rightarrow>
          (case fs_upmap s x of
             Some i \<Rightarrow> (Some (True, i), s # ps)
           | None \<Rightarrow>
               if ps = [] then (None, [s])
               else (case find_name ps x of
                 (None, ps') \<Rightarrow> (None, s # ps')
               | (Some (up, idx), ps') \<Rightarrow>
                   (Some (True, length (fs_upvals s)),
                    s\<lparr>fs_upvals := fs_upvals s @ [\<lparr>FromParentUpval = up, uv_Index = idx\<rparr>],
                      fs_upmap := (fs_upmap s)(x \<mapsto> length (fs_upvals s))\<rparr> # ps'))))"

section \<open>The blocks of a scope\<close>

lemma first_binding_put:
  "fs_blocks s \<noteq> [] \<Longrightarrow> first_binding (fs_blocks (put x b s)) y = (if y = x then Some b else first_binding (fs_blocks s) y)"
  by (cases "fs_blocks s") (auto simp: put_def update_conv split: option.split)

lemma put_more [simp]:
  "fs_upvals (put x b s) = fs_upvals s" "fs_upmap (put x b s) = fs_upmap s" "fs_nlocals (put x b s) = fs_nlocals s"
  "fs_iota (put x b s) = fs_iota s" "fs_blockIDs (put x b s) = fs_blockIDs s"
  by (simp_all add: put_def)

lemma in_some_block_more [simp]:
  "fs_upvals (in_some_block s) = fs_upvals s" "fs_upmap (in_some_block s) = fs_upmap s"
  "fs_nlocals (in_some_block s) = fs_nlocals s" "fs_iota (in_some_block s) = fs_iota s" "fs_blocks (in_some_block s) \<noteq> []"
  "first_binding (fs_blocks (in_some_block s)) x = first_binding (fs_blocks s) x"
  by (simp_all add: in_some_block_def pushBlock_def)

lemma mark_name_more [simp]:
  "fs_upvals (mark_name f x s) = fs_upvals s" "fs_upmap (mark_name f x s) = fs_upmap s"
  "fs_nlocals (mark_name f x s) = fs_nlocals s" "fs_iota (mark_name f x s) = fs_iota s"
  by (simp_all add: mark_name_def split: list.split option.split)

lemma fs_declare_upvals [simp]:
  "fs_upvals (snd (fs_declare x pos s)) = fs_upvals s" "fs_upmap (snd (fs_declare x pos s)) = fs_upmap s"
  "fs_nlocals (snd (fs_declare x pos s)) = Suc (fs_nlocals s)" "fst (fs_declare x pos s) = fs_nlocals s"
  by (simp_all add: fs_declare_def Let_def)

lemma lookup_declared:
  "lookupLocal (snd (fs_declare x pos s)) y = (if y = x then Some (fs_nlocals s) else lookupLocal s y)"
  by (simp add: lookupLocal_def fs_declare_def Let_def first_binding_put bind_at_def in_some_block_def pushBlock_def)

section \<open>What a reference stands for\<close>

text \<open>
  A variable is named by the number of functions between its declaration and the current one, and its slot
  there. \<open>lookup_at\<close> is the innermost declaration of a name.
\<close>

fun lookup_at :: "'t scopes \<Rightarrow> string \<Rightarrow> (nat \<times> nat) option" where
  "lookup_at [] x = None"
| "lookup_at (s # ps) x =
     (case lookupLocal s x of Some slot \<Rightarrow> Some (0, slot) | None \<Rightarrow> map_option (\<lambda>(k, slot). (Suc k, slot)) (lookup_at ps x))"

fun stands_for :: "'t scopes \<Rightarrow> bool \<times> nat \<Rightarrow> (nat \<times> nat) option" where
  "stands_for [] r = None"
| "stands_for (s # ps) (False, slot) = Some (0, slot)"
| "stands_for (s # ps) (True, i) =
     (if i < length (fs_upvals s)
      then map_option (\<lambda>(k, slot). (Suc k, slot))
        (stands_for ps (FromParentUpval (fs_upvals s ! i), uv_Index (fs_upvals s ! i)))
      else None)"

lemma lookup_at_binding: "lookup_at ch x = None \<longleftrightarrow> lookupBinding ch x = None"
  by (induction ch) (auto simp: lookupLocal_def split: option.split)

lemma lookup_at_slot: "lookup_at ch x = Some (k, slot) \<Longrightarrow> k < length ch \<and> lookupLocal (ch ! k) x = Some slot"
  by (induction ch arbitrary: k) (auto split: option.splits)

text \<open>Every captured name stands for what it means outside.\<close>

fun scopes_ok :: "'t scopes \<Rightarrow> bool" where
  "scopes_ok [] = True"
| "scopes_ok (s # ps) \<longleftrightarrow>
     (\<forall>x i. fs_upmap s x = Some i \<longrightarrow> lookup_at ps x \<noteq> None \<and>
        stands_for (s # ps) (True, i) = map_option (\<lambda>(k, slot). (Suc k, slot)) (lookup_at ps x)) \<and> scopes_ok ps"

text \<open>Capturing only adds upvalues.\<close>

definition captured :: "'t scopes \<Rightarrow> 't scopes \<Rightarrow> bool" where
  "captured ch ch' \<longleftrightarrow> list_all2 (\<lambda>s s'. fs_blocks s' = fs_blocks s \<and> fs_blockIDs s' = fs_blockIDs s \<and> fs_nextID s' = fs_nextID s \<and>
     fs_iota s' = fs_iota s \<and> fs_nlocals s' = fs_nlocals s \<and> (\<exists>us. fs_upvals s' = fs_upvals s @ us)) ch ch'"

lemma captured_refl: "captured ch ch"
  by (auto simp: captured_def intro: list.rel_refl)

lemma captured_Cons:
  "captured (s # ps) (s' # ps') \<longleftrightarrow> (fs_blocks s' = fs_blocks s \<and> fs_blockIDs s' = fs_blockIDs s \<and> fs_nextID s' = fs_nextID s \<and>
     fs_iota s' = fs_iota s \<and> fs_nlocals s' = fs_nlocals s \<and> (\<exists>us. fs_upvals s' = fs_upvals s @ us)) \<and> captured ps ps'"
  by (auto simp: captured_def)

lemma captured_lookup: "captured ch ch' \<Longrightarrow> lookup_at ch' x = lookup_at ch x"
proof (induction ch arbitrary: ch')
  case Nil
  then show ?case by (simp add: captured_def)
next
  case (Cons s ps)
  then obtain s' ps' where "ch' = s' # ps'" by (cases ch') (auto simp: captured_def)
  then show ?case using Cons.IH [of ps'] Cons.prems by (auto simp: captured_Cons lookupLocal_def split: option.split)
qed

lemma captured_stands: "captured ch ch' \<Longrightarrow> stands_for ch r = Some v \<Longrightarrow> stands_for ch' r = Some v"
proof (induction ch r arbitrary: ch' v rule: stands_for.induct)
  case (2 s ps slot)
  then obtain s' ps' where "ch' = s' # ps'" by (cases ch') (auto simp: captured_def)
  then show ?case using 2 by simp
next
  case (3 s ps i)
  then obtain s' ps' where ch': "ch' = s' # ps'" by (cases ch') (auto simp: captured_def)
  with "3.prems"(1) obtain us where "fs_upvals s' = fs_upvals s @ us" "captured ps ps'" by (auto simp: captured_Cons)
  then show ?case using 3 ch' by (auto simp: nth_append split: if_splits)
qed simp

lemma find_name_captured: "captured ch (snd (find_name ch x))"
proof (induction ch x rule: find_name.induct)
  case (2 s ps x)
  then show ?case
    by (auto simp: captured_Cons captured_refl split: option.split prod.split)
qed (simp add: captured_refl)

lemma scopes_ok_captured:
  assumes "scopes_ok (s # ps)" and "scopes_ok ps'" and "captured (s # ps) (s' # ps')"
    and "\<And>y i. fs_upmap s' y = Some i \<Longrightarrow> fs_upmap s y = Some i \<or>
      lookup_at ps y \<noteq> None \<and> stands_for (s' # ps') (True, i) = map_option (\<lambda>(k, slot). (Suc k, slot)) (lookup_at ps y)"
  shows "scopes_ok (s' # ps')"
  unfolding scopes_ok.simps(2)
proof (intro conjI allI impI assms(2))
  fix y i
  assume y: "fs_upmap s' y = Some i"
  have look: "lookup_at ps' y = lookup_at ps y" using captured_lookup assms(3) by (auto simp: captured_Cons)
  have "lookup_at ps y \<noteq> None \<and>
      stands_for (s' # ps') (True, i) = map_option (\<lambda>(k, slot). (Suc k, slot)) (lookup_at ps y)"
  proof (cases "fs_upmap s y = Some i")
    case True
    then have n: "lookup_at ps y \<noteq> None"
      and e: "stands_for (s # ps) (True, i) = map_option (\<lambda>(k, slot). (Suc k, slot)) (lookup_at ps y)"
      using assms(1) unfolding scopes_ok.simps(2) by blast+
    then obtain v where "stands_for (s # ps) (True, i) = Some v" by (auto simp del: stands_for.simps)
    then show ?thesis using captured_stands [OF assms(3)] n e by (metis (no_types))
  qed (use assms(4) [OF y] in blast)
  then show "lookup_at ps' y \<noteq> None"
    "stands_for (s' # ps') (True, i) = map_option (\<lambda>(k, slot). (Suc k, slot)) (lookup_at ps' y)"
    unfolding look by blast+
qed

lemma find_name_ok:
  "scopes_ok ch \<Longrightarrow> scopes_ok (snd (find_name ch x)) \<and>
   (case fst (find_name ch x) of None \<Rightarrow> lookup_at ch x = None
    | Some r \<Rightarrow> lookup_at ch x \<noteq> None \<and> stands_for (snd (find_name ch x)) r = lookup_at ch x)"
proof (induction ch x rule: find_name.induct)
  case (2 s ps x)
  show ?case
  proof (cases "lookupLocal s x \<noteq> None \<or> fs_upmap s x \<noteq> None \<or> ps = []")
    case True
    then show ?thesis using "2.prems" by (fastforce split: option.split)
  next
    case False
    obtain r ps' where fp: "find_name ps x = (r, ps')" by fastforce
    then have cap: "captured ps ps'" using find_name_captured [of ps x] by simp
    have IH: "scopes_ok ps' \<and> (case r of None \<Rightarrow> lookup_at ps x = None
        | Some r \<Rightarrow> lookup_at ps x \<noteq> None \<and> stands_for ps' r = lookup_at ps x)"
      using "2.IH" False "2.prems" by (auto simp: fp split: option.split)
    show ?thesis
    proof (cases r)
      case None
      have "scopes_ok (s # ps')"
        using scopes_ok_captured [OF "2.prems", of ps' s] IH cap by (simp add: captured_Cons)
      then show ?thesis using None False fp IH captured_lookup [OF cap] by (auto simp del: scopes_ok.simps)
    next
      case (Some q)
      obtain up idx where q: "q = (up, idx)" by fastforce
      let ?s = "s\<lparr>fs_upvals := fs_upvals s @ [\<lparr>FromParentUpval = up, uv_Index = idx\<rparr>],
        fs_upmap := (fs_upmap s)(x \<mapsto> length (fs_upvals s))\<rparr>"
      have new: "stands_for (?s # ps') (True, length (fs_upvals s)) = map_option (\<lambda>(k, slot). (Suc k, slot)) (lookup_at ps x)"
        "lookup_at ps x \<noteq> None"
        using IH Some q by simp_all
      have grown: "captured (s # ps) (?s # ps')" using cap by (simp add: captured_Cons)
      have "scopes_ok (?s # ps')"
      proof (rule scopes_ok_captured [OF "2.prems" _ grown])
        fix y i
        assume "fs_upmap ?s y = Some i"
        then have "y = x \<and> i = length (fs_upvals s) \<or> fs_upmap s y = Some i" by (simp split: if_splits)
        then show "fs_upmap s y = Some i \<or> lookup_at ps y \<noteq> None \<and>
            stands_for (?s # ps') (True, i) = map_option (\<lambda>(k, slot). (Suc k, slot)) (lookup_at ps y)"
          using new by blast
      qed (use IH in blast)
      then show ?thesis using False fp Some q new by (auto simp: option.map_disc_iff simp del: scopes_ok.simps stands_for.simps)
    qed
  qed
qed simp

text \<open>The other operations change the blocks of the current function only.\<close>

lemma scopes_ok_current:
  assumes "scopes_ok (s # ps)" and "fs_upvals s' = fs_upvals s" and "fs_upmap s' = fs_upmap s"
  shows "scopes_ok (s' # ps)"
proof -
  have "stands_for (s' # ps) (True, i) = stands_for (s # ps) (True, i)" for i using assms(2) by simp
  then show ?thesis using assms(1,3) unfolding scopes_ok.simps(2) by simp
qed

lemma scopes_ok_declare: "scopes_ok (s # ps) \<Longrightarrow> scopes_ok (snd (fs_declare x pos s) # ps)"
  by (erule scopes_ok_current) simp_all

lemma scopes_ok_blocks:
  "scopes_ok (s # ps) \<Longrightarrow> scopes_ok (pushBlock s # ps)" "scopes_ok (s # ps) \<Longrightarrow> scopes_ok (popBlock s # ps)"
  "scopes_ok (s # ps) \<Longrightarrow> scopes_ok (mark_name f x s # ps)"
  by (erule scopes_ok_current; simp add: pushBlock_def popBlock_def)+

lemma scopes_ok_literal: "scopes_ok ps \<Longrightarrow> scopes_ok (newFScope # ps)"
  by (simp add: newFScope_def)

lemma lookup_at_inner: "lookup_at ch x = Some (k, slot) \<Longrightarrow> j < k \<Longrightarrow> lookupLocal (ch ! j) x = None"
proof (induction ch arbitrary: k j)
  case (Cons s ps)
  then show ?case by (cases j) (auto split: option.splits)
qed simp

text \<open>
  C10: resolving a name finds the declaration the walk through the scopes finds, the innermost one, and captures it
  through every function in between; the references handed out before keep their meaning.
\<close>

theorem find_name_innermost:
  assumes "scopes_ok ch" and "find_name ch x = (r, ch')"
  shows "scopes_ok ch' \<and> (r = None \<longleftrightarrow> lookupBinding ch x = None) \<and>
    (\<forall>q. r = Some q \<longrightarrow> (\<exists>k slot. stands_for ch' q = Some (k, slot) \<and> k < length ch \<and>
       lookupLocal (ch ! k) x = Some slot \<and> list_all (\<lambda>s. lookupLocal s x = None) (take k ch))) \<and>
    (\<forall>q v. stands_for ch q = Some v \<longrightarrow> stands_for ch' q = Some v)"
proof (intro conjI allI impI)
  note ok = find_name_ok [OF assms(1), of x, unfolded assms(2), simplified]
  show "scopes_ok ch'" using ok by simp
  show "r = None \<longleftrightarrow> lookupBinding ch x = None" using ok by (auto simp: lookup_at_binding split: option.splits)
  show "stands_for ch' q = Some v" if "stands_for ch q = Some v" for q v
    using captured_stands [OF _ that] find_name_captured [of ch x] assms(2) by simp
  fix q
  assume "r = Some q"
  then obtain k slot where l: "lookup_at ch x = Some (k, slot)" "stands_for ch' q = Some (k, slot)" using ok by auto
  have "list_all (\<lambda>s. lookupLocal s x = None) (take k ch)"
    using lookup_at_inner [OF l(1)] by (auto simp: list_all_length)
  then show "\<exists>k slot. stands_for ch' q = Some (k, slot) \<and> k < length ch \<and> lookupLocal (ch ! k) x = Some slot \<and>
      list_all (\<lambda>s. lookupLocal s x = None) (take k ch)"
    using l lookup_at_slot [OF l(1)] by blast
qed

text \<open>\<open>func() { x := 0; func() { func() { x } } }\<close>: the innermost literal reads \<open>x\<close>.\<close>

definition nested_scopes :: "unit scopes" where
  "nested_scopes = [pushBlock newFScope, pushBlock newFScope, snd (fs_declare ''x'' 7 (pushBlock newFScope))]"

theorem find_name_innermost_witness:
  "fst (find_name nested_scopes ''x'') = Some (True, 0) \<and>
   stands_for (snd (find_name nested_scopes ''x'')) (True, 0) = Some (2, 0)"
proof -
  have ok: "scopes_ok nested_scopes"
    by (simp add: nested_scopes_def newFScope_def pushBlock_def fs_declare_def put_def in_some_block_def)
  have r: "fst (find_name nested_scopes ''x'') = Some (True, 0)"
    by (simp add: nested_scopes_def newFScope_def pushBlock_def fs_declare_def put_def in_some_block_def lookupLocal_def bind_at_def)
  have l: "lookupLocal (nested_scopes ! 0) ''x'' = None" "lookupLocal (nested_scopes ! 1) ''x'' = None"
    "lookupLocal (nested_scopes ! 2) ''x'' = Some 0"
    by (simp_all add: nested_scopes_def newFScope_def pushBlock_def fs_declare_def put_def in_some_block_def lookupLocal_def bind_at_def)
  obtain k slot where k: "stands_for (snd (find_name nested_scopes ''x'')) (True, 0) = Some (k, slot)" "k < length nested_scopes"
    "lookupLocal (nested_scopes ! k) ''x'' = Some slot"
    using find_name_innermost [OF ok prod.collapse [symmetric], of "''x''"] r by blast
  have "k = 0 \<or> k = 1 \<or> k = 2" using k(2) by (auto simp: nested_scopes_def)
  then show ?thesis using k l r by auto
qed

section \<open>Closures\<close>

text \<open>
  How the frames of nested functions come to be on the machine. A chain of frames has the running frame first, then the
  frame of the function around it as it was when it evaluated the literal, and so on outwards: \<open>func_frame\<close> is the call of
  a declared function, \<open>literal\<close> evaluates a function literal in the running frame and calls the value it pushed, in any
  later state, \<open>step\<close> and \<open>resume\<close> run an instruction of the loop, the second one a call that came back with a value.
\<close>

definition current_ins :: "frame \<Rightarrow> instruction" where
  "current_ins f = ch_Code (fr_ch f) ! fr_ip f"

definition advanced :: "frame \<Rightarrow> frame" where
  "advanced f = f\<lparr>fr_ip := fr_ip f + 1\<rparr>"

inductive nested :: "hooks \<Rightarrow> frame list \<Rightarrow> bool" for hk where
  func_frame: "prepFrame hk callee args s = Frame g s' \<Longrightarrow> (\<And>n ups. callee \<noteq> VClosure n ups) \<Longrightarrow> nested hk [g]"
| literal: "nested hk (f # fs) \<Longrightarrow> i_Op (current_ins f) = OpMakeClosure \<Longrightarrow>
    make_closure hk s (advanced f) (current_ins f) = Next s' f' \<Longrightarrow>
    prepFrame hk (hd (fr_stack f')) args t = Frame g t' \<Longrightarrow> nested hk (g # f # fs)"
| step: "nested hk (f # fs) \<Longrightarrow> step_ins hk s (advanced f) (current_ins f) = Next s' f' \<Longrightarrow> nested hk (f' # fs)"
| resume: "nested hk (f # fs) \<Longrightarrow> step_ins hk s (advanced f) (current_ins f) = Invoke callee args s' f' \<Longrightarrow>
    nested hk (push r f' # fs)"

text \<open>An instruction leaves the captured cells and the code of its frame alone.\<close>

definition keeps :: "frame \<Rightarrow> action \<Rightarrow> bool" where
  "keeps f a =
     (case a of
        Next s f' \<Rightarrow> fr_upvals f' = fr_upvals f \<and> fr_ch f' = fr_ch f
      | Invoke fn args s f' \<Rightarrow> fr_upvals f' = fr_upvals f \<and> fr_ch f' = fr_ch f
      | _ \<Rightarrow> True)"

lemma keeps_simps [simp]:
  "keeps f (Next s f') \<longleftrightarrow> fr_upvals f' = fr_upvals f \<and> fr_ch f' = fr_ch f"
  "keeps f (Invoke fn args s f') \<longleftrightarrow> fr_upvals f' = fr_upvals f \<and> fr_ch f' = fr_ch f"
  "keeps f (Throw e s f')" "keeps f Stuck"
  by (simp_all add: keeps_def)

lemma keeps_cong: "fr_upvals g = fr_upvals f \<Longrightarrow> fr_ch g = fr_ch f \<Longrightarrow> keeps g a = keeps f a"
  by (simp add: keeps_def split: action.split)

lemma keeps_or_else: "keeps f a \<Longrightarrow> keeps f b \<Longrightarrow> keeps f (or_else a b)"
  by (cases a) (simp_all add: or_else_def)

lemma keeps_out [simp]: "keeps f (out_of_range s g)"
  by (simp add: out_of_range_def)

lemma keeps_failure [simp]: "keeps f (throw_failure e s g)"
  by (cases e) (simp_all add: throw_failure_def split: prod.split)

lemma keeps_at: "(\<And>x. keeps f (k x)) \<Longrightarrow> keeps f (with_at xs i s g k)"
  by (simp add: with_at_def split: option.split)

lemma keeps_pop:
  "(\<And>x st. keeps f (k x (g\<lparr>fr_stack := st\<rparr>))) \<Longrightarrow> keeps f (with_pop s g k)"
  by (simp add: with_pop_def split: list.split)

lemma keeps_popn:
  "(\<And>xs st. keeps f (k xs (g\<lparr>fr_stack := st\<rparr>))) \<Longrightarrow> keeps f (with_popn n s g k)"
  by (simp add: with_popn_def)

lemma keeps_assign: "(\<And>s'. keeps f (k s')) \<Longrightarrow> keeps f (assign_cell hk a x s g k)"
  by (simp add: assign_cell_def split: sum.split)

lemma keeps_bind: "(\<And>y. keeps f (k y)) \<Longrightarrow> keeps f (bind_value hk ins x s g k)"
  by (simp add: bind_value_def split: sum.split)

lemma keeps_name: "(\<And>x. keeps f (k x)) \<Longrightarrow> keeps f (with_name g i s k)"
  by (auto simp: with_name_def intro!: keeps_at split: val.split)

lemma keeps_refs: "fr_upvals g = fr_upvals f \<Longrightarrow> fr_ch g = fr_ch f \<Longrightarrow> keeps f (assign_refs hk rs s g)"
  by (induction hk rs s g rule: assign_refs.induct) (auto intro!: keeps_assign split: val.split)

lemmas keeps_intros = keeps_at keeps_pop keeps_popn keeps_assign keeps_bind keeps_name keeps_refs

lemma keeps_closure: "keeps f (make_closure hk s f ins)"
  by (auto simp: make_closure_def push_def Let_def intro!: keeps_intros split: val.split option.split)

lemmas keeps_op = op.case keeps_simps Let_def

lemma keeps_stack: "keeps f (step_stack s f ins)"
  by (cases "i_Op ins", simp_all only: step_stack_def keeps_op)
    (auto simp: push_def intro!: keeps_intros split: list.split)

lemma keeps_local: "keeps f (step_local hk s f ins)"
  by (cases "i_Op ins", simp_all only: step_local_def keeps_op)
    (auto simp: push_def new_cell_def intro!: keeps_intros)

lemma keeps_global: "keeps f (step_global hk s f ins)"
  by (cases "i_Op ins", simp_all only: step_global_def keeps_op)
    (auto simp: push_def new_cell_def intro!: keeps_intros split: option.split val.split)

lemma keeps_refs_ins: "keeps f (step_refs hk s f ins)"
  by (cases "i_Op ins", simp_all only: step_refs_def set_refs_def do_box_def keeps_op)
    (auto simp: push_def new_cell_def intro!: keeps_intros)

lemma keeps_call: "keeps f (step_call hk s f ins)"
  by (cases "i_Op ins",
      simp_all only: step_call_def do_call_def do_defer_def do_pack_def do_unpack_def pop_args_def keeps_op keeps_closure)
    (auto simp: push_def intro!: keeps_intros split: val.split)

lemma keeps_flow: "keeps f (step_flow hk s f ins)"
  by (cases "i_Op ins", simp_all only: step_flow_def keeps_op)
    (auto simp: push_def intro!: keeps_intros split: sum.split)

lemma keeps_exit: "keeps f (step_exit s f ins)"
  by (cases "i_Op ins", simp_all only: step_exit_def keeps_op)
    (auto simp: raise_val_def new_panic_def intro!: keeps_intros)

lemma keeps_ins: "keeps f (step_ins hk s f ins)"
  unfolding step_ins_def
  by (intro keeps_or_else keeps_stack keeps_local keeps_global keeps_refs_ins keeps_call keeps_flow keeps_exit)

lemma keeps_next: "step_ins hk s g ins = Next s' f' \<Longrightarrow> fr_upvals f' = fr_upvals g \<and> fr_ch f' = fr_ch g"
  using keeps_ins [of g hk s ins] by simp

lemma keeps_invoke: "step_ins hk s g ins = Invoke fn args s' f' \<Longrightarrow> fr_upvals f' = fr_upvals g \<and> fr_ch f' = fr_ch g"
  using keeps_ins [of g hk s ins] by simp

text \<open>In a chain every frame holds what its literal captured from the frame around it.\<close>

fun linked :: "frame list \<Rightarrow> bool" where
  "linked (g # f # fs) \<longleftrightarrow> capture f (ch_Upvals (fr_ch g)) = Some (fr_upvals g) \<and> linked (f # fs)"
| "linked fs \<longleftrightarrow> True"

lemma linked_cong: "linked (f # fs) \<Longrightarrow> fr_upvals f' = fr_upvals f \<Longrightarrow> fr_ch f' = fr_ch f \<Longrightarrow> linked (f' # fs)"
  by (cases fs) simp_all

lemma capture_cong: "fr_upvals f' = fr_upvals f \<Longrightarrow> fr_locals f' = fr_locals f \<Longrightarrow> capture f' ds = capture f ds"
  by (induction ds) (auto split: option.splits)

lemma prep_fun_frame:
  "prep_fun hk n ups args s = Frame g s' \<Longrightarrow> fr_upvals g = ups \<and> fr_ch g = fn_Chunk (hk_fun hk n)"
  by (auto simp: prep_fun_def Let_def split: if_splits prod.splits)

lemma literal_captures:
  assumes "make_closure hk s f ins = Next s' f'" and "prepFrame hk (hd (fr_stack f')) args t = Frame g t'"
  shows "capture f (ch_Upvals (fr_ch g)) = Some (fr_upvals g)"
proof -
  from assms(1) obtain n where "ch_Upvals (fn_Chunk (hk_fun hk n)) = [] \<and> f' = push (VFun n) f \<or>
      (\<exists>as. capture f (ch_Upvals (fn_Chunk (hk_fun hk n))) = Some as \<and> f' = push (VClosure n as) f)"
    by (auto simp: make_closure_def with_at_def out_of_range_def Let_def split: option.splits val.splits if_splits)
  then show ?thesis
    using assms(2) by (auto simp: push_def prepFrame_def dest!: prep_fun_frame)
qed

lemma nested_linked: "nested hk fs \<Longrightarrow> linked fs"
proof (induction rule: nested.induct)
  case (literal f fs s s' f' args t g t')
  then have "capture (advanced f) (ch_Upvals (fr_ch g)) = Some (fr_upvals g)" using literal_captures by blast
  then have "capture f (ch_Upvals (fr_ch g)) = Some (fr_upvals g)"
    using capture_cong [of "advanced f" f] by (simp add: advanced_def)
  with literal show ?case by simp
next
  case (step f fs s s' f')
  then show ?case using keeps_next [of hk s "advanced f"] linked_cong [of f fs f'] by (simp add: advanced_def)
next
  case (resume f fs s callee args s' f' r)
  then show ?case using keeps_invoke [of hk s "advanced f"] linked_cong [of f fs "push r f'"] by (simp add: advanced_def push_def)
qed simp

lemma capture_nth:
  "capture f ds = Some as \<Longrightarrow> i < length ds \<Longrightarrow>
   at (if FromParentUpval (ds ! i) then fr_upvals f else fr_locals f) (int (uv_Index (ds ! i))) = Some (as ! i)"
proof (induction ds arbitrary: as i)
  case (Cons d ds)
  then obtain a as' where "at (if FromParentUpval d then fr_upvals f else fr_locals f) (int (uv_Index d)) = Some a"
    "capture f ds = Some as'" "as = a # as'"
    by (auto split: option.splits)
  then show ?case using Cons.IH [of as'] Cons.prems(2) by (cases i) (simp_all split: if_splits)
qed simp

lemma capture_length: "capture f ds = Some as \<Longrightarrow> length as = length ds"
  by (induction ds arbitrary: as) (auto split: option.splits)

text \<open>The code of a frame was compiled in its scope: it captures at least what the scope has recorded so far.\<close>

definition compiled_in :: "'t fscope \<Rightarrow> frame \<Rightarrow> bool" where
  "compiled_in s g \<longleftrightarrow> (\<exists>later. ch_Upvals (fr_ch g) = fs_upvals s @ later)"

lemma captured_cell:
  "linked gs \<Longrightarrow> list_all2 compiled_in ch gs \<Longrightarrow> stands_for ch (True, i) = Some (k, slot) \<Longrightarrow>
   k < length gs \<and> slot < length (fr_locals (gs ! k)) \<and> i < length (fr_upvals (hd gs)) \<and>
   fr_upvals (hd gs) ! i = fr_locals (gs ! k) ! slot"
proof (induction gs arbitrary: ch i k rule: linked.induct)
  case (1 g f fs)
  then obtain s s2 ps where ch: "ch = s # s2 # ps" by (auto simp: list_all2_Cons2)
  let ?d = "fs_upvals s ! i"
  have i: "i < length (fs_upvals s)"
    and "\<exists>k'. k = Suc k' \<and> stands_for (s2 # ps) (FromParentUpval ?d, uv_Index ?d) = Some (k', slot)"
    using "1.prems"(3) by (auto simp: ch split: if_splits)
  then obtain k' where k': "k = Suc k'" "stands_for (s2 # ps) (FromParentUpval ?d, uv_Index ?d) = Some (k', slot)"
    by blast
  have cap: "capture f (ch_Upvals (fr_ch g)) = Some (fr_upvals g)" using "1.prems"(1) by simp
  obtain later where ups: "ch_Upvals (fr_ch g) = fs_upvals s @ later"
    using "1.prems"(2) by (auto simp: ch compiled_in_def)
  have got: "at (if FromParentUpval ?d then fr_upvals f else fr_locals f) (int (uv_Index ?d)) = Some (fr_upvals g ! i)"
    using capture_nth [OF cap, of i] i by (simp add: ups nth_append)
  have len: "i < length (fr_upvals g)" using capture_length [OF cap] i by (simp add: ups)
  show ?case
  proof (cases "FromParentUpval ?d")
    case True
    then have "stands_for (s2 # ps) (True, uv_Index ?d) = Some (k', slot)" using k' by simp
    moreover have "linked (f # fs)" "list_all2 compiled_in (s2 # ps) (f # fs)"
      using "1.prems" by (simp_all add: ch)
    ultimately have "k' < length (f # fs) \<and> slot < length (fr_locals ((f # fs) ! k')) \<and>
        fr_upvals f ! uv_Index ?d = fr_locals ((f # fs) ! k') ! slot"
      using "1.IH" by fastforce
    with True got k' len show ?thesis by (auto simp: at_def split: if_splits)
  next
    case False
    with k' got len show ?thesis by (auto simp: at_def split: if_splits)
  qed
qed (auto simp: list_all2_Cons2 split: if_splits)

text \<open>
  C11: A closure means what the scopes say. When the compiler resolves a name to an upvalue or a local of the innermost of
  a chain of nested functions, then on the machine, in every frame of that function that a run of the functions around it
  can lead to, that upvalue or local is the cell which the frame of the function with the innermost declaration of the name
  held in the declaration's slot when it evaluated the literal, through however many functions in between.
\<close>

theorem closure_binds:
  assumes "scopes_ok ch" and "find_name ch x = (Some (up, i), ch')"
    and "nested hk gs" and "list_all2 compiled_in ch' gs"
  shows "\<exists>k slot. k < length ch \<and> lookupLocal (ch ! k) x = Some slot \<and> (\<forall>j<k. lookupLocal (ch ! j) x = None) \<and>
    (if up then i < length (fr_upvals (hd gs)) \<and> fr_upvals (hd gs) ! i = fr_locals (gs ! k) ! slot \<and> 0 < k
     else k = 0 \<and> slot = i)"
proof -
  note ok = find_name_ok [OF assms(1), of x, unfolded assms(2), simplified]
  obtain k slot where l: "lookup_at ch x = Some (k, slot)" and st: "stands_for ch' (up, i) = Some (k, slot)"
    using ok by auto
  have "k < length ch" "lookupLocal (ch ! k) x = Some slot" using lookup_at_slot [OF l] by simp_all
  moreover have "\<forall>j<k. lookupLocal (ch ! j) x = None" using lookup_at_inner [OF l] by blast
  moreover have "if up then i < length (fr_upvals (hd gs)) \<and> fr_upvals (hd gs) ! i = fr_locals (gs ! k) ! slot \<and> 0 < k
     else k = 0 \<and> slot = i"
  proof (cases up)
    case True
    with st captured_cell [OF nested_linked [OF assms(3)] assms(4)] have
      "i < length (fr_upvals (hd gs))" "fr_upvals (hd gs) ! i = fr_locals (gs ! k) ! slot" by simp_all
    moreover from st True have "0 < k" by (cases ch') (auto split: if_splits)
    ultimately show ?thesis using True by simp
  next
    case False
    with st show ?thesis by (cases ch') auto
  qed
  ultimately show ?thesis by blast
qed

text \<open>
  \<open>func() { x := 0; func() { func() { x } } }\<close> on the machine, every function called where it is written: the frames, the
  innermost first, with the cells 2, 1 and 0 as their locals.
\<close>

definition nest_code :: "upval_desc list \<Rightarrow> nat \<Rightarrow> val chunk" where
  "nest_code ups n =
     \<lparr>ch_Name = [], ch_Code = [\<lparr>i_Op = OpMakeClosure, i_A = 0, i_B = 0, i_C = 0, i_Pos = 0\<rparr>], ch_Consts = [VFun n], ch_NLocals = 1,
      ch_NParams = 0, ch_NResults = 0, ch_NamedSlots = [], ch_Upvals = ups, ch_IsVararg = False, ch_Escapes = 0\<rparr>"

definition nest_chunk :: "nat \<Rightarrow> val chunk" where
  "nest_chunk n = nest_code
     (if n = 0 then [] else [\<lparr>FromParentUpval = (n \<noteq> 1), uv_Index = 0\<rparr>]) (Suc n)"

definition nest_hooks :: hooks where
  "nest_hooks =
     \<lparr>hk_fun = (\<lambda>n. \<lparr>fn_Name = [], fn_Qual = [], fn_Recv = [], fn_PtrRecv = False, fn_Chunk = nest_chunk n\<rparr>),
      hk_materialize = Inr, hk_valueCopy = (\<lambda>x. x), hk_assign = (\<lambda>c x. Inr x), hk_binary = (\<lambda>opn x y b. Inr x),
      hk_unary = (\<lambda>opn x. Inr x), hk_convert = (\<lambda>n x. Inr x), hk_builtin = (\<lambda>name args. Inr (Inr VNil)),
      hk_global = (\<lambda>name. None), hk_truthy = (\<lambda>n. True), hk_zeroResults = (\<lambda>n. []), hk_declaredTag = (\<lambda>x. None)\<rparr>"

definition nest_state :: "nat \<Rightarrow> mstate" where
  "nest_state n =
     \<lparr>m_heap = replicate n \<lparr>c_Elem = VNil, c_Typ = None, c_ReadOnly = False\<rparr>, m_panics = [], m_globals = Map.empty,
      m_frames = [], m_inflight = None, m_unwindDepth = 0, m_consumed = None, m_draining = 0, m_unwinding = [],
      m_hasProc = True, m_done = False, m_fatal = None, m_syncCall = False\<rparr>"

definition nest_frame :: "nat \<Rightarrow> nat list \<Rightarrow> frame" where
  "nest_frame n ups =
     \<lparr>fr_fn = n, fr_name = [], fr_ch = nest_chunk n, fr_locals = [n], fr_upvals = ups, fr_stack = [], fr_ip = 0,
      fr_defers = [], fr_retNamed = False, fr_results = [], fr_boundLo = 0, fr_boundHi = 0\<rparr>"

lemma nest_prep: "prep_fun nest_hooks n ups [] (nest_state n) = Frame (nest_frame n ups) (nest_state (Suc n))"
  by (simp add: prep_fun_def nest_hooks_def nest_chunk_def nest_code_def nest_state_def nest_frame_def maxFrames_def
      param_values_def new_cell_def replicate_append_same)

lemma nest_ins: "i_Op (current_ins (nest_frame n ups)) = OpMakeClosure"
  by (simp add: current_ins_def nest_frame_def nest_chunk_def nest_code_def)

lemma nest_closure:
  assumes "capture (nest_frame n ups) (ch_Upvals (nest_chunk (Suc n))) = Some as"
  shows "make_closure nest_hooks s (advanced (nest_frame n ups)) (current_ins (nest_frame n ups)) =
    Next s (push (VClosure (Suc n) as) (advanced (nest_frame n ups)))"
proof -
  have "capture (advanced (nest_frame n ups)) (ch_Upvals (nest_chunk (Suc n))) = Some as"
    using assms capture_cong [of "advanced (nest_frame n ups)" "nest_frame n ups"] by (simp add: advanced_def)
  then show ?thesis
    by (simp add: make_closure_def with_at_def at_def current_ins_def nest_frame_def nest_hooks_def nest_chunk_def
        nest_code_def advanced_def)
qed

lemma nest_frames: "nested nest_hooks [nest_frame 2 [0], nest_frame 1 [0], nest_frame 0 []]"
proof -
  have "prepFrame nest_hooks (VFun 0) [] (nest_state 0) = Frame (nest_frame 0 []) (nest_state 1)"
    using nest_prep [of 0 "[]"] by (simp add: prepFrame_def)
  then have 0: "nested nest_hooks [nest_frame 0 []]" by (rule nested.func_frame) simp
  have in_one: "capture (nest_frame 0 []) (ch_Upvals (nest_chunk (Suc 0))) = Some [0]"
    and in_two: "capture (nest_frame 1 [0]) (ch_Upvals (nest_chunk (Suc 1))) = Some [0]"
    by (simp_all add: nest_chunk_def nest_code_def nest_frame_def at_def)
  have step: "nested nest_hooks (nest_frame (Suc n) [0] # nest_frame n ups # fs)"
    if "nested nest_hooks (nest_frame n ups # fs)" "capture (nest_frame n ups) (ch_Upvals (nest_chunk (Suc n))) = Some [0]" for n ups fs
    by (rule nested.literal [OF that(1) nest_ins nest_closure [OF that(2)], where t = "nest_state (Suc n)" and args = "[]"])
      (simp add: push_def prepFrame_def nest_prep)
  from step [OF step [OF 0 in_one, folded One_nat_def] in_two] show ?thesis by (simp add: numeral_2_eq_2)
qed

theorem closure_binds_witness:
  "fst (find_name nested_scopes ''x'') = Some (True, 0) \<and>
   nested nest_hooks [nest_frame 2 [0], nest_frame 1 [0], nest_frame 0 []] \<and>
   fr_upvals (nest_frame 2 [0]) ! 0 = fr_locals (nest_frame 0 []) ! 0"
proof -
  let ?ch = "snd (find_name nested_scopes ''x'')" and ?gs = "[nest_frame 2 [0], nest_frame 1 [0], nest_frame 0 []]"
  note eval = nested_scopes_def newFScope_def pushBlock_def fs_declare_def put_def in_some_block_def lookupLocal_def bind_at_def
  have ok: "scopes_ok nested_scopes" by (simp add: eval)
  have r: "find_name nested_scopes ''x'' = (Some (True, 0), ?ch)" by (simp add: eval)
  have code: "list_all2 compiled_in ?ch ?gs"
    by (simp add: eval compiled_in_def nest_frame_def nest_chunk_def nest_code_def)
  have l: "lookupLocal (nested_scopes ! 0) ''x'' = None" "lookupLocal (nested_scopes ! 1) ''x'' = None"
    "lookupLocal (nested_scopes ! 2) ''x'' = Some 0"
    by (simp_all add: eval)
  from closure_binds [OF ok r nest_frames code] obtain k slot where k: "k < length nested_scopes"
    "lookupLocal (nested_scopes ! k) ''x'' = Some slot" "fr_upvals (hd ?gs) ! 0 = fr_locals (?gs ! k) ! slot"
    by auto
  have "k = 0 \<or> k = 1 \<or> k = 2" using k(1) by (auto simp: nested_scopes_def)
  then have "k = 2 \<and> slot = 0" using k(2) l by auto
  then show ?thesis using k(3) r nest_frames by (simp add: prod_eq_iff)
qed

end
