(* ===== verification/Compile.thy ===== *)
theory Compile
  imports FScope Index
begin

text \<open>
  The compiler from syntax to bytecode (\<open>compile/compile.go\<close>): the state of a compilation, the emission of
  instructions, and one definition per method of \<open>compiler\<close>. What the static type analysis answers (\<open>staticOpTyp\<close> and
  the predicates over it, the folding of constants, the import tables, the typedef a type expression makes) and what a registered special form quotes are fields of the
  argument \<open>chooks\<close>. The recursion over the tree is bounded by a fuel, \<open>c_oof\<close> says that it ran out; a panic of the
  compiler itself (an index past a list) sets \<open>c_crash\<close>. \<open>int32\<close> conversions of operands are the identity.
\<close>

section \<open>The state\<close>

text \<open>
  Constants of a chunk: a name or message, an \<open>int64\<close>, an untyped constant (an integer, a bool, a literal still to be
  read), what the analysis folded or a typedef (\<open>'t\<close>), a compiled function literal by its number, the running index of
  an array literal.
\<close>

datatype 't konst =
    KStr string
  | KInt int
  | KUInt int
  | KUBool bool
  | KLit token string
  | KOpaque 't
  | KFun nat
  | KImplicit

record label_info =
  li_name :: string
  li_ip :: nat
  li_blocks :: "nat list"
  li_vars :: "(string \<times> nat) list"

record pending_goto =
  pg_ins :: nat
  pg_name :: string
  pg_pos :: nat
  pg_blocks :: "nat list"
  pg_vars :: "(string \<times> nat) list"

record ctrl_ctx =
  cx_isLoop :: bool
  cx_labels :: "string list"
  cx_continueIP :: "nat option"
  cx_continues :: "nat list"
  cx_breaks :: "nat list"

text \<open>
  The contexts are kept innermost first, and so are the lists of fallthroughs of the clauses being compiled: the
  pointer \<open>falls\<close> is to the innermost one (\<open>c_inClause\<close>) or nil. Function literals are objects of their own: \<open>c_funs\<close> holds the chunks of
  those compiled so far, in the order their compilation ended.
\<close>

record 't cstate =
  c_fs :: "'t scopes"
  c_ch :: "'t konst chunk"
  c_ctrl :: "ctrl_ctx list"
  c_binds :: "string \<rightharpoonup> 't"
  c_index :: "index option"
  c_results :: "node list"
  c_labels :: "string \<rightharpoonup> label_info"
  c_pendingGotos :: "pending_goto list"
  c_pendingLabels :: "string list"
  c_falls :: "nat list list"
  c_inClause :: bool
  c_symName :: string
  c_litCount :: nat
  c_iotaVal :: "nat option"
  c_synthSeq :: nat
  c_funs :: "'t konst chunk list"
  c_oof :: bool
  c_crash :: bool

text \<open>The static type of an operand (\<open>opTyp\<close>), as far as it is read here.\<close>

record op_typ =
  t_te :: "node option"
  t_untyped :: bool
  t_iface :: bool
  t_dte :: "node option"

datatype 't fold_result = NoFold | FoldTo 't | FoldTrap string

record 't chooks =
  q_tdef :: "node \<Rightarrow> 't cstate \<Rightarrow> 't"
  q_fold :: "node \<Rightarrow> 't cstate \<Rightarrow> 't fold_result"
  q_constOperand :: "node \<Rightarrow> 't cstate \<Rightarrow> 't option"
  q_constValue :: "node \<Rightarrow> 't option"
  q_badLit :: "token \<Rightarrow> string \<Rightarrow> string option"
  q_opGate :: "node \<Rightarrow> node \<Rightarrow> bool \<Rightarrow> 't cstate \<Rightarrow> string option"
  q_staticOpTyp :: "node \<Rightarrow> 't cstate \<Rightarrow> op_typ"
  q_nthResult :: "node \<Rightarrow> nat \<Rightarrow> 't cstate \<Rightarrow> op_typ"
  q_inferredBind :: "nat \<Rightarrow> node list \<Rightarrow> nat \<Rightarrow> 't cstate \<Rightarrow> node option"
  q_isIfaceName :: "string \<Rightarrow> 't cstate \<Rightarrow> bool"
  q_isIfaceGlobal :: "string \<Rightarrow> 't cstate \<Rightarrow> bool"
  q_importRef :: "string \<Rightarrow> 't cstate \<Rightarrow> string option"
  q_selIsType :: "string \<Rightarrow> string \<Rightarrow> 't cstate \<Rightarrow> bool"
  q_isConst :: "node \<Rightarrow> 't cstate \<Rightarrow> bool"
  q_nonConst :: "node \<Rightarrow> 't cstate \<Rightarrow> bool"
  q_mapLit :: "node option \<Rightarrow> 't cstate \<Rightarrow> bool"
  q_litTypeAt :: "node option \<Rightarrow> nat \<Rightarrow> 't cstate \<Rightarrow> node option \<times> bool"
  q_logicalNamed :: "node \<Rightarrow> 't cstate \<Rightarrow> node option"
  q_bareScalar :: "node \<Rightarrow> 't cstate \<Rightarrow> bool"
  q_rangeVarTyps :: "node \<Rightarrow> 't cstate \<Rightarrow> node option \<times> node option"
  q_chanElem :: "node \<Rightarrow> 't cstate \<Rightarrow> node option"
  q_ellipsis :: "node \<Rightarrow> bool"
  q_brack :: "node \<Rightarrow> nat"
  q_special :: "string \<Rightarrow> string \<Rightarrow> 't option"
  q_quote :: "node \<Rightarrow> (string \<rightharpoonup> nat) \<Rightarrow> (string \<rightharpoonup> nat) \<Rightarrow> 't"

section \<open>Emission\<close>

definition here :: "'t cstate \<Rightarrow> nat" where
  "here c = length (ch_Code (c_ch c))"

definition sites :: "instruction list \<Rightarrow> int" where
  "sites code = int (length (filter (\<lambda>i. i_Op i = OpGlobal) code))"

text \<open>An \<open>OpGlobal\<close> numbers its resolution site in C. \<open>emit\<close> puts the instruction at index \<open>here\<close>.\<close>

definition emit :: "op \<Rightarrow> int \<Rightarrow> int \<Rightarrow> nat \<Rightarrow> 't cstate \<Rightarrow> 't cstate" where
  "emit opc a b pos c =
     c\<lparr>c_ch := (c_ch c)\<lparr>ch_Code := ch_Code (c_ch c) @
       [\<lparr>i_Op = opc, i_A = a, i_B = b, i_C = (if opc = OpGlobal then sites (ch_Code (c_ch c)) else -1), i_Pos = pos\<rparr>]\<rparr>\<rparr>"

definition emit3 :: "op \<Rightarrow> int \<Rightarrow> int \<Rightarrow> int \<Rightarrow> nat \<Rightarrow> 't cstate \<Rightarrow> 't cstate" where
  "emit3 opc a b cc pos c =
     c\<lparr>c_ch := (c_ch c)\<lparr>ch_Code := ch_Code (c_ch c) @ [\<lparr>i_Op = opc, i_A = a, i_B = b, i_C = cc, i_Pos = pos\<rparr>]\<rparr>\<rparr>"

definition patchA :: "nat \<Rightarrow> nat \<Rightarrow> 't cstate \<Rightarrow> 't cstate" where
  "patchA i target c =
     c\<lparr>c_ch := (c_ch c)\<lparr>ch_Code := (ch_Code (c_ch c))[i := (ch_Code (c_ch c) ! i)\<lparr>i_A := int target\<rparr>]\<rparr>\<rparr>"

definition patch_all :: "nat list \<Rightarrow> nat \<Rightarrow> 't cstate \<Rightarrow> 't cstate" where
  "patch_all is target c = fold (\<lambda>i. patchA i target) is c"

text \<open>An instruction whose operand A is the index of a fresh constant.\<close>

definition emit_k :: "op \<Rightarrow> 't konst \<Rightarrow> int \<Rightarrow> nat \<Rightarrow> 't cstate \<Rightarrow> 't cstate" where
  "emit_k opc k b pos c =
     emit opc (int (length (ch_Consts (c_ch c)))) b pos (c\<lparr>c_ch := (c_ch c)\<lparr>ch_Consts := ch_Consts (c_ch c) @ [k]\<rparr>\<rparr>)"

definition trap :: "nat \<Rightarrow> string \<Rightarrow> 't cstate \<Rightarrow> 't cstate" where
  "trap pos msg = emit_k OpTrap (KStr msg) 0 pos"

definition crash :: "'t cstate \<Rightarrow> 't cstate" where
  "crash c = trap 0 [] (c\<lparr>c_crash := True\<rparr>)"

definition out_of_fuel :: "'t cstate \<Rightarrow> 't cstate" where
  "out_of_fuel c = trap 0 [] (c\<lparr>c_oof := True\<rparr>)"

text \<open>Steps of the compiler one after the other.\<close>

definition seq :: "('t cstate \<Rightarrow> 't cstate) list \<Rightarrow> 't cstate \<Rightarrow> 't cstate" where
  "seq ps c = fold (\<lambda>p c. p c) ps c"

definition skip :: "'t cstate \<Rightarrow> 't cstate" where
  "skip c = c"

definition on_scope :: "('t fscope \<Rightarrow> 't fscope) \<Rightarrow> 't cstate \<Rightarrow> 't cstate" where
  "on_scope f c = c\<lparr>c_fs := (case c_fs c of [] \<Rightarrow> [] | s # ps \<Rightarrow> f s # ps)\<rparr>"

definition cur_scope :: "'t cstate \<Rightarrow> 't fscope" where
  "cur_scope c = (case c_fs c of [] \<Rightarrow> newFScope | s # ps \<Rightarrow> s)"

definition push_block :: "'t cstate \<Rightarrow> 't cstate" where
  "push_block = on_scope pushBlock"

definition pop_block :: "'t cstate \<Rightarrow> 't cstate" where
  "pop_block = on_scope popBlock"

text \<open>\<open>declare_name\<close> in the current block: the slot it gets is the number of slots so far.\<close>

definition next_slot :: "'t cstate \<Rightarrow> nat" where
  "next_slot c = fs_nlocals (cur_scope c)"

definition declare_local :: "string \<Rightarrow> nat \<Rightarrow> 't cstate \<Rightarrow> 't cstate" where
  "declare_local x pos = on_scope (\<lambda>s. snd (fs_declare x pos s))"

text \<open>\<open>fresh\<close> numbers every name the compiler makes up.\<close>

definition fresh :: "string \<Rightarrow> 't cstate \<Rightarrow> string \<times> 't cstate" where
  "fresh base c = (base @ show_nat (c_synthSeq c), c\<lparr>c_synthSeq := c_synthSeq c + 1\<rparr>)"

section \<open>Names\<close>

text \<open>The reference of a name, capturing it when it is of an enclosing function.\<close>

definition with_ref :: "string \<Rightarrow> ((bool \<times> nat) option \<Rightarrow> 't cstate \<Rightarrow> 't cstate) \<Rightarrow> 't cstate \<Rightarrow> 't cstate" where
  "with_ref x k c = (let (r, fs) = find_name (c_fs c) x in k r (c\<lparr>c_fs := fs\<rparr>))"

definition getRef :: "string \<Rightarrow> nat \<Rightarrow> 't cstate \<Rightarrow> 't cstate" where
  "getRef x pos = with_ref x (\<lambda>r c.
     case r of
       None \<Rightarrow>
         (case c_binds c x of
            Some t \<Rightarrow> emit_k OpConst (KOpaque t) 0 pos c
          | None \<Rightarrow> emit_k OpGlobal (KStr x) 0 pos c)
     | Some (False, idx) \<Rightarrow>
         (case c_iotaVal c of
            Some v \<Rightarrow>
              if fs_iota (cur_scope c) = Some idx then emit_k OpConst (KUInt (int v)) 0 pos c
              else emit OpLocal (int idx) 0 pos c
          | None \<Rightarrow> emit OpLocal (int idx) 0 pos c)
     | Some (True, idx) \<Rightarrow> emit OpUpval (int idx) 0 pos c)"

definition setRef :: "string \<Rightarrow> nat \<Rightarrow> 't cstate \<Rightarrow> 't cstate" where
  "setRef x pos = with_ref x (\<lambda>r.
     case r of
       None \<Rightarrow> emit_k OpSetGlobal (KStr x) 0 pos
     | Some (False, idx) \<Rightarrow> emit OpSetLocal (int idx) 0 pos
     | Some (True, idx) \<Rightarrow> emit OpSetUpval (int idx) 0 pos)"

definition refRef :: "string \<Rightarrow> nat \<Rightarrow> 't cstate \<Rightarrow> 't cstate" where
  "refRef x pos = with_ref x (\<lambda>r.
     case r of
       None \<Rightarrow> emit_k OpGlobalRef (KStr x) 0 pos
     | Some (False, idx) \<Rightarrow> emit OpLocalRef (int idx) 0 pos
     | Some (True, idx) \<Rightarrow> emit OpUpvalRef (int idx) 0 pos)"

definition predeclaredTypeNames :: "string list" where
  "predeclaredTypeNames =
     [''bool'', ''byte'', ''rune'', ''string'', ''error'', ''any'', ''complex64'', ''complex128'', ''float32'', ''float64'',
      ''int'', ''int8'', ''int16'', ''int32'', ''int64'', ''uint'', ''uint8'', ''uint16'', ''uint32'', ''uint64'', ''uintptr'']"

text \<open>\<open>resolveName\<close>: whether a name is declared and, if it is, whether it names a type.\<close>

definition index_type :: "'t cstate \<Rightarrow> string \<Rightarrow> bool" where
  "index_type c x = (case c_index c of None \<Rightarrow> False | Some ix \<Rightarrow> ix_Types ix x \<noteq> None)"

definition index_value :: "'t cstate \<Rightarrow> string \<Rightarrow> bool" where
  "index_value c x =
     (case c_index c of None \<Rightarrow> False
      | Some ix \<Rightarrow> ix_Vars ix x \<noteq> None \<or> ix_Funcs ix x \<noteq> None \<or> ix_Consts ix x \<noteq> None)"

definition resolveName :: "'t cstate \<Rightarrow> string \<Rightarrow> bool option" where
  "resolveName c x =
     (case lookupBinding (c_fs c) x of
        Some b \<Rightarrow> Some (b_typeDecl b)
      | None \<Rightarrow>
          if fs_upmap (cur_scope c) x \<noteq> None then Some False
          else if c_binds c x \<noteq> None then Some True
          else if index_type c x then Some True
          else if index_value c x then Some False
          else if x \<in> set predeclaredTypeNames then Some True
          else None)"

definition declared_name :: "'t cstate \<Rightarrow> string \<Rightarrow> bool" where
  "declared_name c x \<longleftrightarrow> resolveName c x \<noteq> None"

definition names_value :: "'t cstate \<Rightarrow> string \<Rightarrow> bool" where
  "names_value c x \<longleftrightarrow> resolveName c x = Some False"

section \<open>Shapes of expressions\<close>

text \<open>
  The compiler's own recursion: expressions, type expressions, storage references (pinned or not), composite literals
  of a base type at a depth, statements. A base type is one the source writes or one the analysis found.
\<close>

datatype lit_base = Written "node option" | Found node

record 't comp =
  k_expr :: "node \<Rightarrow> 't cstate \<Rightarrow> 't cstate"
  k_type :: "node \<Rightarrow> 't cstate \<Rightarrow> 't cstate"
  k_ref :: "bool \<Rightarrow> node \<Rightarrow> 't cstate \<Rightarrow> 't cstate"
  k_lit :: "lit_base \<Rightarrow> nat \<Rightarrow> node \<Rightarrow> 't cstate \<Rightarrow> 't cstate"
  k_stmt :: "node \<Rightarrow> 't cstate \<Rightarrow> 't cstate"

fun unparen :: "node \<Rightarrow> node" where
  "unparen (ParenExpr m x) = unparen x"
| "unparen e = e"

definition storageShape :: "node \<Rightarrow> bool \<Rightarrow> bool" where
  "storageShape e indexList =
     (case unparen e of
        Ident m x \<Rightarrow> True
      | SelectorExpr m x sel \<Rightarrow> True
      | IndexExpr m x i \<Rightarrow> True
      | StarExpr m x \<Rightarrow> True
      | IndexListExpr m x is \<Rightarrow> indexList
      | _ \<Rightarrow> False)"

fun starOperandIsValue :: "'t cstate \<Rightarrow> node \<Rightarrow> bool" where
  "starOperandIsValue c (Ident m x) = names_value c x"
| "starOperandIsValue c (SelectorExpr m x sel) = (case x of Ident m y \<Rightarrow> names_value c y | _ \<Rightarrow> False)"
| "starOperandIsValue c (IndexExpr m x i) = starOperandIsValue c x"
| "starOperandIsValue c (IndexListExpr m x is) = starOperandIsValue c x"
| "starOperandIsValue c (UnaryExpr m t x) = True"
| "starOperandIsValue c (CallExpr m f as) = True"
| "starOperandIsValue c (CompositeLit m t es) = True"
| "starOperandIsValue c (BasicLit m t v) = True"
| "starOperandIsValue c (BinaryExpr m x t y) = True"
| "starOperandIsValue c (SliceExpr m x l h mx) = True"
| "starOperandIsValue c (TypeAssertExpr m x t) = True"
| "starOperandIsValue c (FuncLit m t b) = True"
| "starOperandIsValue c (ParenExpr m x) = starOperandIsValue c x"
| "starOperandIsValue c (StarExpr m x) = starOperandIsValue c x"
| "starOperandIsValue c e = False"

fun isTypeForm :: "'t cstate \<Rightarrow> node \<Rightarrow> bool" where
  "isTypeForm c (ParenExpr m x) = isTypeForm c x"
| "isTypeForm c (StarExpr m x) = (\<not> starOperandIsValue c x)"
| "isTypeForm c (ArrayType m l e) = True"
| "isTypeForm c (MapType m k v) = True"
| "isTypeForm c (StructType m fs) = True"
| "isTypeForm c (FuncType m tps ps rs) = True"
| "isTypeForm c (InterfaceType m ms) = True"
| "isTypeForm c (ChanType m v) = True"
| "isTypeForm c e = False"

text \<open>An operand that is an import's name; looking it up captures it first.\<close>

definition isImportName :: "'t chooks \<Rightarrow> string \<Rightarrow> 't cstate \<Rightarrow> bool" where
  "isImportName hk x c \<longleftrightarrow> fst (find_name (c_fs c) x) = None \<and> q_importRef hk x c \<noteq> None"

fun selectorBaseIsVar :: "'t cstate \<Rightarrow> node \<Rightarrow> bool" where
  "selectorBaseIsVar c (ParenExpr m x) = selectorBaseIsVar c x"
| "selectorBaseIsVar c (Ident m x) = names_value c x"
| "selectorBaseIsVar c (SelectorExpr m x sel) = selectorBaseIsVar c x"
| "selectorBaseIsVar c (StarExpr m x) = starOperandIsValue c x"
| "selectorBaseIsVar c e = False"

definition captures :: "string \<Rightarrow> 't cstate \<Rightarrow> 't cstate" where
  "captures x c = c\<lparr>c_fs := snd (find_name (c_fs c) x)\<rparr>"

definition refableIndexBase :: "'t chooks \<Rightarrow> node \<Rightarrow> 't cstate \<Rightarrow> bool \<times> 't cstate" where
  "refableIndexBase hk e c =
     (case unparen e of
        Ident m x \<Rightarrow> (names_value c x, c)
      | SelectorExpr m x sel \<Rightarrow>
          (case x of Ident m y \<Rightarrow> (\<not> isImportName hk y c, captures y c) | _ \<Rightarrow> (False, c))
      | IndexExpr m x i \<Rightarrow> (True, c)
      | StarExpr m x \<Rightarrow> (True, c)
      | _ \<Rightarrow> (False, c))"

fun isIfaceTypeExpr :: "'t chooks \<Rightarrow> 't cstate \<Rightarrow> node \<Rightarrow> bool" where
  "isIfaceTypeExpr hk c (InterfaceType m ms) = True"
| "isIfaceTypeExpr hk c (ParenExpr m x) = isIfaceTypeExpr hk c x"
| "isIfaceTypeExpr hk c (Ident m x) = q_isIfaceName hk x c"
| "isIfaceTypeExpr hk c e = False"

definition single_result :: "node \<Rightarrow> node option" where
  "single_result t = (case ft_Results t of Some rs \<Rightarrow> (case field_list (Some rs) of [f] \<Rightarrow> field_type f | _ \<Rightarrow> None) | None \<Rightarrow> None)"

definition fd_type :: "node \<Rightarrow> node" where
  "fd_type d = (case d of FuncDecl m recv name ft body \<Rightarrow> ft | _ \<Rightarrow> d)"

definition iface_result :: "'t chooks \<Rightarrow> 't cstate \<Rightarrow> node \<Rightarrow> bool" where
  "iface_result hk c t = (case single_result t of Some r \<Rightarrow> isIfaceTypeExpr hk c r | None \<Rightarrow> False)"

definition iface_call :: "'t chooks \<Rightarrow> 't cstate \<Rightarrow> node \<Rightarrow> bool" where
  "iface_call hk c f =
     (case f of
        FuncLit m t b \<Rightarrow> iface_result hk c t
      | Ident m x \<Rightarrow>
          lookupBinding (c_fs c) x = None \<and>
          (case c_index c of
             None \<Rightarrow> False
           | Some ix \<Rightarrow> (case ix_Funcs ix x of
               Some d \<Rightarrow> (case d_Func d of Some n \<Rightarrow> iface_result hk c (fd_type n) | None \<Rightarrow> False)
             | None \<Rightarrow> False))
      | _ \<Rightarrow> False)"

fun isIfaceExpr :: "'t chooks \<Rightarrow> 't cstate \<Rightarrow> node \<Rightarrow> bool" where
  "isIfaceExpr hk c (ParenExpr m x) = isIfaceExpr hk c x"
| "isIfaceExpr hk c (CallExpr m f as) = (length as = 1 \<and> isIfaceTypeExpr hk c f \<or> iface_call hk c f)"
| "isIfaceExpr hk c (TypeAssertExpr m x t) = (case t of Some t \<Rightarrow> isIfaceTypeExpr hk c t | None \<Rightarrow> False)"
| "isIfaceExpr hk c (Ident m x) =
     (isIfaceVar (c_fs c) x \<or> lookupBinding (c_fs c) x = None \<and> q_isIfaceGlobal hk x c)"
| "isIfaceExpr hk c e = False"

text \<open>Whether the callee of a call is a type: the call is then a conversion.\<close>

definition isTypeName :: "'t cstate \<Rightarrow> string \<Rightarrow> bool" where
  "isTypeName c x \<longleftrightarrow> resolveName c x = Some True"

definition selTypRef :: "'t chooks \<Rightarrow> 't cstate \<Rightarrow> node \<Rightarrow> (string \<times> string) option" where
  "selTypRef hk c e =
     (case e of
        SelectorExpr m x sel \<Rightarrow>
          (case x of Ident m' y \<Rightarrow> map_option (\<lambda>path. (path, ident_name sel)) (q_importRef hk y c) | _ \<Rightarrow> None)
      | _ \<Rightarrow> None)"

definition names_type :: "'t chooks \<Rightarrow> 't cstate \<Rightarrow> node \<Rightarrow> bool" where
  "names_type hk c e =
     (case e of
        Ident m x \<Rightarrow> isTypeName c x
      | _ \<Rightarrow> (case selTypRef hk c e of Some (path, x) \<Rightarrow> q_selIsType hk path x c | None \<Rightarrow> False))"

definition conversionCall :: "'t chooks \<Rightarrow> 't cstate \<Rightarrow> node \<Rightarrow> bool" where
  "conversionCall hk c f \<longleftrightarrow>
     isTypeForm c f \<or>
     (case f of
        IndexExpr m x i \<Rightarrow> names_type hk c x
      | IndexListExpr m x is \<Rightarrow> names_type hk c x
      | _ \<Rightarrow> names_type hk c f)"

text \<open>What may be read after the other operand has been evaluated.\<close>

definition lit_parts :: "node list \<Rightarrow> node list" where
  "lit_parts es = concat (map (\<lambda>x. case x of KeyValueExpr m k v \<Rightarrow> [k, v] | _ \<Rightarrow> [x]) es)"

lemma node_size_elem: "x \<in> set xs \<Longrightarrow> size (x :: node) < Suc (size_list size xs + n)"
  by (simp add: less_Suc_eq_le size_list_estimation' trans_le_add1)

lemma size_lit_parts: "x \<in> set (lit_parts es) \<Longrightarrow> size x < Suc (size_list size es + n)"
proof -
  assume "x \<in> set (lit_parts es)"
  then obtain e where e: "e \<in> set es" "x \<in> set (case e of KeyValueExpr m k v \<Rightarrow> [k, v] | _ \<Rightarrow> [e])"
    by (auto simp: lit_parts_def)
  from e(2) have "size x \<le> size e" by (cases e) auto
  then show "size x < Suc (size_list size es + n)" using node_size_elem [OF e(1), of n] by simp
qed

function pureOperand :: "'t chooks \<Rightarrow> 't cstate \<Rightarrow> node \<Rightarrow> bool" where
  "pureOperand hk c e =
     (case e of
        Ident m x \<Rightarrow> True
      | BasicLit m t v \<Rightarrow> True
      | FuncLit m t b \<Rightarrow> True
      | ParenExpr m x \<Rightarrow> pureOperand hk c x
      | StarExpr m x \<Rightarrow> pureOperand hk c x
      | UnaryExpr m t x \<Rightarrow> t \<noteq> ARROW \<and> pureOperand hk c x
      | BinaryExpr m x t y \<Rightarrow> t \<noteq> LAND \<and> t \<noteq> LOR \<and> pureOperand hk c x \<and> pureOperand hk c y
      | SelectorExpr m x sel \<Rightarrow> pureOperand hk c x
      | IndexExpr m x i \<Rightarrow> pureOperand hk c x \<and> pureOperand hk c i
      | IndexListExpr m x is \<Rightarrow> pureOperand hk c x \<and> (\<forall>i\<in>set is. pureOperand hk c i)
      | CallExpr m f as \<Rightarrow> conversionCall hk c f \<and> (\<forall>a\<in>set as. pureOperand hk c a)
      | CompositeLit m t es \<Rightarrow>
          \<not> q_mapLit hk t c \<and> (\<forall>x\<in>set (lit_parts es). pureOperand hk c x)
      | _ \<Rightarrow> False)"
  by pat_completeness auto

termination
  by (relation "measure (\<lambda>(hk, c, e). size e)")
    (auto simp: node_size_elem less_SucI trans_less_add2 dest!: size_lit_parts [where n = 0])

declare pureOperand.simps [simp del]

section \<open>Expressions\<close>

definition ident_expr :: "string \<Rightarrow> nat \<Rightarrow> 't cstate \<Rightarrow> 't cstate" where
  "ident_expr x pos c =
     (if x \<in> {''nil'', ''true'', ''false''} \<and> \<not> declared_name c x
      then (if x = ''nil'' then emit OpNil 0 0 pos c
            else emit_k OpConst (KUBool (x = ''true'')) 0 pos c)
      else getRef x pos c)"

definition basic_lit :: "'t chooks \<Rightarrow> token \<Rightarrow> string \<Rightarrow> nat \<Rightarrow> 't cstate \<Rightarrow> 't cstate" where
  "basic_lit hk k v pos =
     (case q_badLit hk k v of
        Some err \<Rightarrow> trap pos (''bad literal: '' @ err)
      | None \<Rightarrow> emit_k OpConst (KLit k v) 0 pos)"

text \<open>\<open>refTargetBase\<close>: a storage reference for what has storage, the value of anything else.\<close>

definition refTargetBase :: "'t chooks \<Rightarrow> 't comp \<Rightarrow> node \<Rightarrow> bool \<Rightarrow> 't cstate \<Rightarrow> 't cstate" where
  "refTargetBase hk K e pin c =
     (case e of
        Ident m x \<Rightarrow>
          if isImportName hk x c then k_expr K e (captures x c) else k_ref K pin e (captures x c)
      | _ \<Rightarrow> if storageShape e False then k_ref K pin e c else k_expr K e c)"

definition selectorBase :: "'t chooks \<Rightarrow> 't comp \<Rightarrow> node \<Rightarrow> 't cstate \<Rightarrow> 't cstate" where
  "selectorBase hk K x c =
     (case unparen x of
        IndexExpr m b i \<Rightarrow>
          if isTypeForm c i then k_expr K x c
          else (case refableIndexBase hk b c of
            (True, c) \<Rightarrow> seq [refTargetBase hk K b False, k_expr K i, emit OpIndexRef 0 1 (q_brack hk (unparen x))] c
          | (False, c) \<Rightarrow> k_expr K x c)
      | _ \<Rightarrow> if selectorBaseIsVar c x then refTargetBase hk K x False c else k_expr K x c)"

definition selector_expr :: "'t chooks \<Rightarrow> 't comp \<Rightarrow> node \<Rightarrow> node \<Rightarrow> 't cstate \<Rightarrow> 't cstate" where
  "selector_expr hk K x sel = seq [selectorBase hk K x, emit_k OpSelect (KStr (ident_name sel)) 0 (pos_of sel)]"

lemma size_opt_elem: "x \<in> set (opt n) \<Longrightarrow> size x < Suc (size_option size n)"
  by (cases n) auto

text \<open>The lengths of arrays in a type that are expressions (\<open>runtime.ArrayLenNodes\<close>).\<close>

function array_lens :: "node \<Rightarrow> node list" where
  "array_lens e =
     (case e of
        ArrayType m l t \<Rightarrow>
          (case l of
             None \<Rightarrow> []
           | Some n \<Rightarrow> (case n of BasicLit m k v \<Rightarrow> [] | Ellipsis m t \<Rightarrow> [] | _ \<Rightarrow> [n])) @ array_lens t
      | MapType m k v \<Rightarrow> array_lens k @ array_lens v
      | StarExpr m x \<Rightarrow> array_lens x
      | ParenExpr m x \<Rightarrow> array_lens x
      | ChanType m v \<Rightarrow> array_lens v
      | FuncType m tps ps rs \<Rightarrow> concat (map array_lens (opt ps)) @ concat (map array_lens (opt rs))
      | StructType m fs \<Rightarrow> concat (map array_lens (opt fs))
      | InterfaceType m ms \<Rightarrow> concat (map array_lens (opt ms))
      | FieldList m fs \<Rightarrow> concat (map array_lens fs)
      | Field m ns t tag \<Rightarrow> concat (map array_lens (opt t))
      | Ellipsis m t \<Rightarrow> concat (map array_lens (opt t))
      | IndexExpr m x i \<Rightarrow> array_lens i
      | IndexListExpr m x is \<Rightarrow> concat (map array_lens is)
      | _ \<Rightarrow> [])"
  by pat_completeness auto

termination
  by (relation "measure size") (auto dest: size_opt_elem node_size_elem [where n = 0] intro: less_SucI trans_less_add1 trans_less_add2)

declare array_lens.simps [simp del]

definition emitLenFolds :: "'t comp \<Rightarrow> node \<Rightarrow> 't cstate \<Rightarrow> 't cstate" where
  "emitLenFolds K e = seq (concat (map (\<lambda>n. [k_expr K n, emit OpFoldArrayLen 0 0 (pos_of e)]) (array_lens e)))"

definition type_const :: "'t chooks \<Rightarrow> 't comp \<Rightarrow> node \<Rightarrow> 't cstate \<Rightarrow> 't cstate" where
  "type_const hk K e c = emitLenFolds K e (emit_k OpConst (KOpaque (q_tdef hk e c)) 0 (pos_of e) c)"

definition typeIdent :: "string \<Rightarrow> nat \<Rightarrow> 't cstate \<Rightarrow> 't cstate" where
  "typeIdent x pos c =
     (case lookupBinding (c_fs c) x of
        None \<Rightarrow> ident_expr x pos c
      | Some b \<Rightarrow>
          if b_typeDecl b
          then (case b_tdef b of Some td \<Rightarrow> emit_k OpConst (KOpaque td) 0 pos c | None \<Rightarrow> ident_expr x pos c)
          else (case c_binds c x of
            Some t \<Rightarrow> emit_k OpConst (KOpaque t) 0 pos c
          | None \<Rightarrow>
              if index_type c x \<or> x \<in> set predeclaredTypeNames then emit_k OpGlobal (KStr x) 0 pos c
              else ident_expr x pos c))"

definition type_expr :: "'t chooks \<Rightarrow> 't comp \<Rightarrow> node \<Rightarrow> 't cstate \<Rightarrow> 't cstate" where
  "type_expr hk K e =
     seq [case e of
            Ident m x \<Rightarrow> typeIdent x (npos m)
          | SelectorExpr m x sel \<Rightarrow> selector_expr hk K x sel
          | ArrayType m l t \<Rightarrow> type_const hk K e
          | MapType m k v \<Rightarrow> type_const hk K e
          | StarExpr m x \<Rightarrow> type_const hk K e
          | StructType m fs \<Rightarrow> type_const hk K e
          | FuncType m tps ps rs \<Rightarrow> type_const hk K e
          | InterfaceType m ms \<Rightarrow> type_const hk K e
          | ParenExpr m x \<Rightarrow> k_type K x
          | IndexExpr m x i \<Rightarrow> seq [k_expr K x, k_type K i, emit OpInstantiate 1 0 (q_brack hk e)]
          | IndexListExpr m x is \<Rightarrow>
              seq ([k_expr K x] @ map (k_type K) is @ [emit OpInstantiate (int (length is)) 0 (q_brack hk e)])
          | Ellipsis m t \<Rightarrow> type_const hk K e
          | ChanType m v \<Rightarrow> type_const hk K e
          | _ \<Rightarrow> trap (pos_of e) ''unsupported type expression'',
          emit OpLocalType 0 0 (pos_of e)]"

text \<open>The declared type an operand is bound under, or nil.\<close>

fun staticTyp :: "'t chooks \<Rightarrow> 't comp \<Rightarrow> node \<Rightarrow> 't cstate \<Rightarrow> 't cstate" where
  "staticTyp hk K (ParenExpr m x) c = staticTyp hk K x c"
| "staticTyp hk K (CallExpr m f as) c =
     (if conversionCall hk c f then k_type K f c
      else (case f of
        FuncLit m' t b \<Rightarrow>
          (case field_list (ft_Results t) of
             [r] \<Rightarrow> (case (length (field_names r) \<le> 1, field_type r) of
                 (True, Some rt) \<Rightarrow> k_type K rt c
               | _ \<Rightarrow> emit OpNil 0 0 (npos m) c)
           | _ \<Rightarrow> emit OpNil 0 0 (npos m) c)
      | _ \<Rightarrow> emit OpNil 0 0 (npos m) c))"
| "staticTyp hk K (Ident m x) c =
     with_ref x (\<lambda>r c. case r of
         None \<Rightarrow> (if c_binds c x \<noteq> None then emit OpNil 0 0 (npos m) c else emit_k OpGlobalTyp (KStr x) 0 (npos m) c)
       | Some (False, idx) \<Rightarrow> emit OpLocalTyp (int idx) 0 (npos m) c
       | Some (True, idx) \<Rightarrow> emit OpUpvalTyp (int idx) 0 (npos m) c) c"
| "staticTyp hk K e c = emit OpNil 0 0 (pos_of e) c"

fun lenDerefStaticTyp :: "'t chooks \<Rightarrow> 't comp \<Rightarrow> node \<Rightarrow> 't cstate \<Rightarrow> 't cstate" where
  "lenDerefStaticTyp hk K (ParenExpr m x) c = lenDerefStaticTyp hk K x c"
| "lenDerefStaticTyp hk K (IndexExpr m x i) c = emit OpElemTypeOrNil 0 0 (npos m) (lenDerefStaticTyp hk K x c)"
| "lenDerefStaticTyp hk K (SliceExpr m x l h mx) c = lenDerefStaticTyp hk K x c"
| "lenDerefStaticTyp hk K (TypeAssertExpr m x t) c =
     (case t of Some t \<Rightarrow> k_type K t c | None \<Rightarrow> emit OpNil 0 0 (npos m) c)"
| "lenDerefStaticTyp hk K e c = staticTyp hk K e c"

section \<open>Operators\<close>

text \<open>The outcome of folding: an instruction in place of the operation, or none.\<close>

definition fold_const :: "'t chooks \<Rightarrow> node \<Rightarrow> 't cstate \<Rightarrow> 't cstate option" where
  "fold_const hk e c =
     (case q_fold hk e c of
        NoFold \<Rightarrow> None
      | FoldTo v \<Rightarrow> Some (emit_k OpConst (KOpaque v) 0 (pos_of e) c)
      | FoldTrap msg \<Rightarrow> Some (trap (pos_of e) msg c))"

definition unop_number :: "token \<Rightarrow> int" where
  "unop_number t = (if t = ADD then 0 else if t = SUB then 1 else if t = NOT_T then 2 else 3)"

definition address_of :: "'t chooks \<Rightarrow> 't comp \<Rightarrow> meta \<Rightarrow> node \<Rightarrow> 't cstate \<Rightarrow> 't cstate" where
  "address_of hk K m x =
     (case x of
        Ident m' y \<Rightarrow> refRef y (npos m')
      | CompositeLit m' t es \<Rightarrow> seq [k_expr K x, emit OpBox 0 0 (npos m)]
      | SelectorExpr m' b sel \<Rightarrow>
          seq [refTargetBase hk K b False, emit_k OpFieldRef (KStr (ident_name sel)) 0 (npos m')]
      | IndexExpr m' b i \<Rightarrow> seq [k_expr K b, k_expr K i, emit OpIndexRef 0 0 (q_brack hk x)]
      | StarExpr m' b \<Rightarrow> seq [k_expr K b, emit OpNilPtrCheck 0 0 (npos m)]
      | ParenExpr m' b \<Rightarrow> k_expr K (UnaryExpr m AND_T b)
      | _ \<Rightarrow> trap (npos m) ''address-of is not supported'')"

definition unary :: "'t chooks \<Rightarrow> 't comp \<Rightarrow> meta \<Rightarrow> token \<Rightarrow> node \<Rightarrow> 't cstate \<Rightarrow> 't cstate" where
  "unary hk K m t x c =
     (if t = AND_T then address_of hk K m x c
      else if t \<in> {ADD, SUB, NOT_T, XOR_T}
      then (case fold_const hk (UnaryExpr m t x) c of
          Some c' \<Rightarrow> c'
        | None \<Rightarrow> seq [k_expr K x, emit OpUnary (unop_number t) 0 (npos m)] c)
      else if t = ARROW then seq [k_expr K x, emit OpRecv 0 0 (npos m)] c
      else trap (npos m) ''unsupported unary'' c)"

definition binOpOf :: "token \<Rightarrow> binop option" where
  "binOpOf t =
     (case t of
        ADD \<Rightarrow> Some BinAdd | SUB \<Rightarrow> Some BinSub | MUL \<Rightarrow> Some BinMul | QUO \<Rightarrow> Some BinQuo | REM \<Rightarrow> Some BinRem
      | AND_T \<Rightarrow> Some BinAnd | OR_T \<Rightarrow> Some BinOr | XOR_T \<Rightarrow> Some BinXor | AND_NOT \<Rightarrow> Some BinAndNot
      | SHL \<Rightarrow> Some BinShl | SHR \<Rightarrow> Some BinShr | LAND \<Rightarrow> Some BinLAnd | LOR \<Rightarrow> Some BinLOr
      | EQL \<Rightarrow> Some BinEql | NEQ \<Rightarrow> Some BinNeq | LSS \<Rightarrow> Some BinLss | LEQ \<Rightarrow> Some BinLeq | GTR \<Rightarrow> Some BinGtr
      | GEQ \<Rightarrow> Some BinGeq
      | ADD_ASSIGN \<Rightarrow> Some BinAdd | SUB_ASSIGN \<Rightarrow> Some BinSub | MUL_ASSIGN \<Rightarrow> Some BinMul | QUO_ASSIGN \<Rightarrow> Some BinQuo
      | REM_ASSIGN \<Rightarrow> Some BinRem | AND_ASSIGN \<Rightarrow> Some BinAnd | OR_ASSIGN \<Rightarrow> Some BinOr | XOR_ASSIGN \<Rightarrow> Some BinXor
      | SHL_ASSIGN \<Rightarrow> Some BinShl | SHR_ASSIGN \<Rightarrow> Some BinShr | AND_NOT_ASSIGN \<Rightarrow> Some BinAndNot
      | _ \<Rightarrow> None)"

text \<open>The number an operator has in operand A.\<close>

fun index_of :: "'a \<Rightarrow> 'a list \<Rightarrow> nat" where
  "index_of x [] = 0"
| "index_of x (y # ys) = (if x = y then 0 else Suc (index_of x ys))"

definition binop_number :: "binop \<Rightarrow> int" where
  "binop_number b = int (index_of b all_binops)"

definition opCmpGate :: "'t chooks \<Rightarrow> node \<Rightarrow> node \<Rightarrow> nat \<Rightarrow> 't cstate \<Rightarrow> 't cstate option" where
  "opCmpGate hk x y pos c = map_option (\<lambda>msg. trap pos msg c) (q_opGate hk x y False c)"

definition opCaseGate :: "'t chooks \<Rightarrow> node \<Rightarrow> node \<Rightarrow> nat \<Rightarrow> 't cstate \<Rightarrow> 't cstate option" where
  "opCaseGate hk e tag pos c = map_option (\<lambda>msg. trap pos msg c) (q_opGate hk e tag True c)"

section \<open>Eager operations\<close>

text \<open>
  The operations of an operand that are evaluated before the rest of it, in lexical order, or \<open>None\<close> when one of them
  is conditional.
\<close>

definition hoist_visit :: "'t chooks \<Rightarrow> 't cstate \<Rightarrow> node list \<times> bool \<Rightarrow> node \<Rightarrow> bool \<times> node list \<times> bool" where
  "hoist_visit hk c st n =
     (let (calls, ok) = st; stop = (False, st); down = (True, st); eager = (False, calls @ [n], ok) in
      if \<not> ok then stop
      else case n of
        FuncLit m t b \<Rightarrow> stop
      | BinaryExpr m x t y \<Rightarrow> if t = LAND \<or> t = LOR then (False, calls, False) else down
      | CallExpr m f as \<Rightarrow> if conversionCall hk c f then down else if q_isConst hk n c then stop else eager
      | UnaryExpr m t x \<Rightarrow> if t = ARROW then eager else down
      | SliceExpr m x l h mx \<Rightarrow> eager
      | TypeAssertExpr m x t \<Rightarrow> eager
      | CompositeLit m t es \<Rightarrow> if q_mapLit hk t c then eager else down
      | _ \<Rightarrow> down)"

definition hoistedArgCalls :: "'t chooks \<Rightarrow> 't cstate \<Rightarrow> node \<Rightarrow> node list option" where
  "hoistedArgCalls hk c e =
     (let (calls, ok) = inspect (hoist_visit hk c) (\<lambda>s. s) e ([], True) in if ok then Some calls else None)"

text \<open>Whether the operand of \<open>len\<close> or \<open>cap\<close> must be evaluated.\<close>

definition len_visit :: "'t chooks \<Rightarrow> 't cstate \<Rightarrow> bool \<Rightarrow> node \<Rightarrow> bool \<times> bool" where
  "len_visit hk c calls n =
     (if calls then (False, calls)
      else case n of
        FuncLit m t b \<Rightarrow> (False, False)
      | CallExpr m f as \<Rightarrow> if conversionCall hk c f then (True, False) else (False, True)
      | UnaryExpr m t x \<Rightarrow> if t = ARROW then (False, True) else (True, False)
      | _ \<Rightarrow> (True, False))"

definition lenOperandCalls :: "'t chooks \<Rightarrow> 't cstate \<Rightarrow> node \<Rightarrow> bool" where
  "lenOperandCalls hk c e = inspect (len_visit hk c) (\<lambda>s. s) e False"

text \<open>The operand with its hoisted operations replaced by the names of their scratch slots.\<close>

fun substCallArg :: "(node \<rightharpoonup> string) \<Rightarrow> node \<Rightarrow> node" where
  "substCallArg subs e =
     (case subs e of
        Some x \<Rightarrow> Ident (Meta (nid (nmeta e)) (pos_of e) (pos_of e + length x)) x
      | None \<Rightarrow>
          (case e of
             ParenExpr m x \<Rightarrow> ParenExpr m (substCallArg subs x)
           | BinaryExpr m x t y \<Rightarrow> BinaryExpr m (substCallArg subs x) t (substCallArg subs y)
           | UnaryExpr m t x \<Rightarrow> UnaryExpr m t (substCallArg subs x)
           | StarExpr m x \<Rightarrow> StarExpr m (substCallArg subs x)
           | SelectorExpr m x sel \<Rightarrow> SelectorExpr m (substCallArg subs x) sel
           | IndexExpr m x i \<Rightarrow> IndexExpr m (substCallArg subs x) (substCallArg subs i)
           | IndexListExpr m x is \<Rightarrow> IndexListExpr m (substCallArg subs x) (map (substCallArg subs) is)
           | SliceExpr m x l h mx \<Rightarrow>
               SliceExpr m (substCallArg subs x) (map_option (substCallArg subs) l) (map_option (substCallArg subs) h)
                 (map_option (substCallArg subs) mx)
           | TypeAssertExpr m x t \<Rightarrow> TypeAssertExpr m (substCallArg subs x) t
           | CallExpr m f as \<Rightarrow> CallExpr m f (map (substCallArg subs) as)
           | CompositeLit m t es \<Rightarrow> CompositeLit m t (map (substCallArg subs) es)
           | KeyValueExpr m k v \<Rightarrow> KeyValueExpr m (substCallArg subs k) (substCallArg subs v)
           | _ \<Rightarrow> e))"

declare substCallArg.simps [simp del]

text \<open>The first phase: each operation into a scratch slot, in order.\<close>

fun hoist_calls :: "'t chooks \<Rightarrow> 't comp \<Rightarrow> string \<Rightarrow> node list \<Rightarrow> 't cstate \<Rightarrow> (node \<times> string) list \<times> 't cstate" where
  "hoist_calls hk K pre [] c = ([], c)"
| "hoist_calls hk K pre (e # es) c =
     (let (x, c1) = fresh pre (k_expr K e c); slot = next_slot c1;
          c2 = declare_local x (pos_of e) c1;
          c3 = (if isIfaceExpr hk c2 e then on_scope (markIface x) c2 else c2);
          t = t_te (q_staticOpTyp hk e c3);
          c4 = (if t = None then c3 else on_scope (noteDeclTyp x t) c3);
          (ns, c5) = hoist_calls hk K pre es (emit OpNewLocal (int slot) 0 (pos_of e) c4)
      in ((e, x) # ns, c5))"

text \<open>Whether every operand before the last eager one is an eager operation itself, so that their order is kept anyway.\<close>

fun in_order :: "bool \<Rightarrow> (node \<times> node list) list \<Rightarrow> bool" where
  "in_order deferred [] = True"
| "in_order deferred ((e, calls) # r) =
     (if calls = [] then in_order True r else \<not> deferred \<and> calls = [unparen e] \<and> in_order deferred r)"

definition hoistEagerOps ::
    "'t chooks \<Rightarrow> 't comp \<Rightarrow> string \<Rightarrow> node list \<Rightarrow> 't cstate \<Rightarrow> (node list \<times> 't cstate) option" where
  "hoistEagerOps hk K pre es c =
     (let rs = map (hoistedArgCalls hk c) es; calls = map the rs in
      if None \<in> set rs \<or> concat calls = [] \<or> in_order False (zip es calls) then None
      else
        let (ns, c') = hoist_calls hk K pre (concat calls) c
        in Some (map (substCallArg (map_of (rev ns))) es, c'))"

definition binaryOperands :: "'t chooks \<Rightarrow> 't comp \<Rightarrow> node \<Rightarrow> node \<Rightarrow> 't cstate \<Rightarrow> 't cstate" where
  "binaryOperands hk K x y c =
     (case hoistEagerOps hk K ''$bin'' [x, y] c of
        Some (subs, c') \<Rightarrow> seq (map (k_expr K) subs) c'
      | None \<Rightarrow>
          if pureOperand hk c x \<and> \<not> pureOperand hk c y then seq [k_expr K y, k_expr K x, emit OpSwap 0 0 (pos_of x)] c
          else seq [k_expr K x, k_expr K y] c)"

text \<open>\<open>&&\<close> and \<open>||\<close>: the left value stays when it decides.\<close>

definition logical :: "'t chooks \<Rightarrow> 't comp \<Rightarrow> meta \<Rightarrow> node \<Rightarrow> token \<Rightarrow> node \<Rightarrow> 't cstate \<Rightarrow> 't cstate" where
  "logical hk K m x t y c =
     (let c1 = seq [k_expr K x, emit OpDup 0 0 (npos m)] c;
          j = here c1;
          c2 = seq [emit (if t = LOR then OpJumpTrue else OpJumpFalse) 0 0 (npos m), emit OpPop 0 0 (npos m), k_expr K y] c1;
          c3 = patchA j (here c2) c2
      in case q_logicalNamed hk (BinaryExpr m x t y) c3 of
           None \<Rightarrow> c3
         | Some te \<Rightarrow> seq [k_type K te, emit OpCoerceTop 0 0 (npos m)] c3)"

definition shift_flag :: "'t chooks \<Rightarrow> node \<Rightarrow> node \<Rightarrow> 't cstate \<Rightarrow> nat" where
  "shift_flag hk x y c =
     (if q_isConst hk y c then ShiftConstCount else if q_nonConst hk y c then ShiftNonConstCount else 0) +
     (let t = q_staticOpTyp hk x c in if t_te t \<noteq> None \<and> \<not> t_untyped t then ShiftTypedLeft else 0)"

definition binary :: "'t chooks \<Rightarrow> 't comp \<Rightarrow> meta \<Rightarrow> node \<Rightarrow> token \<Rightarrow> node \<Rightarrow> 't cstate \<Rightarrow> 't cstate" where
  "binary hk K m x t y c =
     (if t = LAND \<or> t = LOR
      then (case opCmpGate hk x y (npos m) c of Some c' \<Rightarrow> c' | None \<Rightarrow> logical hk K m x t y c)
      else case fold_const hk (BinaryExpr m x t y) c of
        Some c' \<Rightarrow> c'
      | None \<Rightarrow>
          (case binOpOf t of
             None \<Rightarrow> trap (npos m) ''unsupported binary'' c
           | Some b \<Rightarrow>
               (case (if b = BinShl \<or> b = BinShr then None else opCmpGate hk x y (npos m) c) of
                  Some c' \<Rightarrow> c'
                | None \<Rightarrow>
                    let c1 = binaryOperands hk K x y c in
                    if (b = BinEql \<or> b = BinNeq) \<and> (isIfaceExpr hk c1 x \<or> isIfaceExpr hk c1 y)
                    then seq [emit OpBinary (binop_number BinEqlIface) 0 (npos m),
                      if b = BinNeq then emit OpUnary (unop_number NOT_T) 0 (npos m) else skip] c1
                    else emit OpBinary (binop_number b)
                      (if b = BinShl \<or> b = BinShr then int (shift_flag hk x y c1) else 0) (npos m) c1)))"

section \<open>Calls\<close>

definition callArgs :: "'t chooks \<Rightarrow> 't comp \<Rightarrow> node list \<Rightarrow> 't cstate \<Rightarrow> 't cstate" where
  "callArgs hk K as c =
     (case hoistEagerOps hk K ''$arg'' as c of
        Some (subs, c') \<Rightarrow> seq (map (k_expr K) subs) c'
      | None \<Rightarrow> seq (map (k_expr K) as) c)"

definition argStatics :: "'t chooks \<Rightarrow> 't comp \<Rightarrow> node list \<Rightarrow> 't cstate \<Rightarrow> 't cstate" where
  "argStatics hk K as = seq (map (staticTyp hk K) as)"

definition callSpread :: "node list \<Rightarrow> bool \<Rightarrow> int" where
  "callSpread as ellipsis =
     (if ellipsis then 1
      else case as of [a] \<Rightarrow> (case unparen a of CallExpr m f bs \<Rightarrow> 2 | _ \<Rightarrow> 0) | _ \<Rightarrow> 0)"

definition calleeExpr :: "'t chooks \<Rightarrow> 't comp \<Rightarrow> node \<Rightarrow> 't cstate \<Rightarrow> 't cstate" where
  "calleeExpr hk K f c =
     (if isTypeForm c f then k_type K f c
      else case f of
        SelectorExpr m x sel \<Rightarrow>
          (case unparen x of
             Ident m' y \<Rightarrow>
               if fst (find_name (c_fs c) y) \<noteq> None
               then seq [selectorBase hk K x, emit_k OpSelectCall (KStr (ident_name sel)) 0 (pos_of sel)] (captures y c)
               else k_expr K f (captures y c)
           | _ \<Rightarrow> k_expr K f c)
      | _ \<Rightarrow> k_expr K f c)"

fun unwrap_callee :: "node \<Rightarrow> node" where
  "unwrap_callee (IndexExpr m x i) = unwrap_callee x"
| "unwrap_callee (IndexListExpr m x is) = unwrap_callee x"
| "unwrap_callee (ParenExpr m x) = unwrap_callee x"
| "unwrap_callee f = f"

text \<open>\<open>len\<close> and \<open>cap\<close> of one operand: the call is skipped when the machine finds the length is a constant.\<close>

definition len_index :: "'t chooks \<Rightarrow> 't comp \<Rightarrow> nat \<Rightarrow> node \<Rightarrow> node \<Rightarrow> node \<Rightarrow> node \<Rightarrow> 't cstate \<Rightarrow> 't cstate" where
  "len_index hk K pos f a b i c =
     (let c1 = seq [calleeExpr hk K f, k_expr K b] c;
          j = here c1;
          c2 = seq [emit OpLenIdxFold 0 0 pos, k_expr K i, emit OpIndex 0 0 (q_brack hk a), emit OpNil 0 0 pos,
            emit OpCall 1 0 pos] c1
      in patchA j (here c2) c2)"

definition len_deref :: "'t chooks \<Rightarrow> 't comp \<Rightarrow> nat \<Rightarrow> node \<Rightarrow> node \<Rightarrow> node \<Rightarrow> 't cstate \<Rightarrow> 't cstate" where
  "len_deref hk K pos f a p c =
     (let c1 = seq [calleeExpr hk K f, lenDerefStaticTyp hk K p] c;
          j0 = here c1;
          c2 = seq [emit OpLenDerefFold 0 0 pos, k_expr K p] c1;
          j1 = here c2;
          c3 = seq [emit OpLenDerefFold 0 1 pos, emit OpDeref 0 0 (pos_of a), emit OpNil 0 0 pos, emit OpCall 1 0 pos] c2
      in patchA j1 (here c3) (patchA j0 (here c3) c3))"

definition len_call :: "'t chooks \<Rightarrow> 't comp \<Rightarrow> nat \<Rightarrow> node \<Rightarrow> node list \<Rightarrow> bool \<Rightarrow> bool \<Rightarrow> 't cstate \<Rightarrow> 't cstate" where
  "len_call hk K pos f as ellipsis is_cap c =
     (let c1 = seq [calleeExpr hk K f, callArgs hk K as] c;
          j = here c1;
          c2 = seq [emit OpLenCallFold 0 (if is_cap then 1 else 0) pos, staticTyp hk K (hd as),
            emit OpCall 1 (callSpread as ellipsis) pos] c1
      in patchA j (here c2) c2)"

definition plain_call :: "'t chooks \<Rightarrow> 't comp \<Rightarrow> nat \<Rightarrow> node \<Rightarrow> node list \<Rightarrow> bool \<Rightarrow> 't cstate \<Rightarrow> 't cstate" where
  "plain_call hk K pos f as ellipsis c =
     (let c1 = calleeExpr hk K f c;
          is_new = (case f of Ident m x \<Rightarrow> x = ''new'' | _ \<Rightarrow> False);
          is_make = (case f of Ident m x \<Rightarrow> x = ''make'' | _ \<Rightarrow> False);
          c2 = (case as of
            [] \<Rightarrow> callArgs hk K [] c1
          | a # rest \<Rightarrow>
              if is_make \<or> is_new \<and> isTypeForm c1 a then seq [k_type K a, callArgs hk K rest] c1 else callArgs hk K as c1)
      in seq [argStatics hk K as, emit OpCall (int (length as)) (callSpread as ellipsis) pos] c2)"

text \<open>The calls with a form of their own: \<open>unsafe.Offsetof\<close>, \<open>unsafe.Sizeof\<close> and the registered special forms.\<close>

definition goQuote :: "string \<Rightarrow> string" where
  "goQuote x = CHR 34 # x @ [CHR 34]"

definition offset_call :: "'t chooks \<Rightarrow> 't comp \<Rightarrow> nat \<Rightarrow> node \<Rightarrow> node \<Rightarrow> node \<Rightarrow> 't cstate \<Rightarrow> 't cstate" where
  "offset_call hk K pos f b sel =
     (let as = [b, BasicLit (nmeta sel) STRING (goQuote (ident_name sel))]
      in seq [calleeExpr hk K f, callArgs hk K as, argStatics hk K as, emit OpCall 2 0 pos])"

definition size_call :: "'t chooks \<Rightarrow> 't comp \<Rightarrow> nat \<Rightarrow> node \<Rightarrow> node \<Rightarrow> 't cstate \<Rightarrow> 't cstate" where
  "size_call hk K pos f a =
     (let x = unparen a
      in seq [calleeExpr hk K f, k_expr K a, staticTyp hk K x,
           case x of IndexExpr m b i \<Rightarrow> staticTyp hk K b | _ \<Rightarrow> emit OpNil 0 0 pos,
           staticTyp hk K x, emit OpNil 0 0 pos, emit OpNil 0 0 pos, emit OpCall 3 0 pos])"

text \<open>The names a quoted call may use: the slots of the locals in scope and the captured cells known so far.\<close>

definition visible_locals :: "'t cstate \<Rightarrow> string \<rightharpoonup> nat" where
  "visible_locals c = map_option b_slot \<circ> foldl (\<lambda>m b. m ++ map_of b) Map.empty (rev (fs_blocks (cur_scope c)))"

definition trySpecial :: "'t chooks \<Rightarrow> nat \<Rightarrow> string \<Rightarrow> string \<Rightarrow> node \<Rightarrow> 't cstate \<Rightarrow> 't cstate option" where
  "trySpecial hk pos path x call c =
     map_option (\<lambda>sym.
         let i = length (ch_Consts (c_ch c));
             quoted = q_quote hk call (visible_locals c) (fs_upmap (cur_scope c))
         in emit3 OpSpecialCall (int i) (int (Suc i)) 0 pos
              (c\<lparr>c_ch := (c_ch c)\<lparr>ch_Consts := ch_Consts (c_ch c) @ [KOpaque sym, KOpaque quoted]\<rparr>\<rparr>))
       (q_special hk path x)"

definition special_call :: "'t chooks \<Rightarrow> 't comp \<Rightarrow> nat \<Rightarrow> node \<Rightarrow> node \<Rightarrow> node list \<Rightarrow> 't cstate \<Rightarrow> 't cstate option" where
  "special_call hk K pos call f as c =
     (case selTypRef hk c (unwrap_callee f) of
        None \<Rightarrow> None
      | Some (path, x) \<Rightarrow>
          (case (path = ''unsafe'', as) of
             (True, [a]) \<Rightarrow>
               if x = ''Sizeof'' \<or> x = ''Alignof'' then Some (size_call hk K pos f a c)
               else (case a of
                   SelectorExpr m b sel \<Rightarrow>
                     if x = ''Offsetof'' then Some (offset_call hk K pos f b sel c) else trySpecial hk pos path x call c
                 | _ \<Rightarrow> trySpecial hk pos path x call c)
           | _ \<Rightarrow> trySpecial hk pos path x call c))"

definition call_expr :: "'t chooks \<Rightarrow> 't comp \<Rightarrow> nat \<Rightarrow> node \<Rightarrow> node \<Rightarrow> node list \<Rightarrow> bool \<Rightarrow> 't cstate \<Rightarrow> 't cstate" where
  "call_expr hk K pos call f as ellipsis c =
     (case special_call hk K pos call f as c of
        Some c' \<Rightarrow> c'
      | None \<Rightarrow>
          (case unwrap_callee f of
             Ident m x \<Rightarrow>
               if (x = ''len'' \<or> x = ''cap'') \<and> length as = 1 \<and> \<not> ellipsis \<and> \<not> declared_name c x
               then (case hd as of
                   IndexExpr m' b i \<Rightarrow>
                     if hoistedArgCalls hk c (hd as) = Some [] then len_index hk K pos f (hd as) b i c
                     else len_call hk K pos f as ellipsis (x = ''cap'') c
                 | StarExpr m' p \<Rightarrow>
                     if \<not> lenOperandCalls hk c (hd as) then len_deref hk K pos f (hd as) p c
                     else len_call hk K pos f as ellipsis (x = ''cap'') c
                 | _ \<Rightarrow> len_call hk K pos f as ellipsis (x = ''cap'') c)
               else plain_call hk K pos f as ellipsis c
           | _ \<Rightarrow> plain_call hk K pos f as ellipsis c))"

section \<open>Composite literals\<close>

definition base_node :: "lit_base \<Rightarrow> node option" where
  "base_node b = (case b of Written n \<Rightarrow> n | Found n \<Rightarrow> Some n)"

definition emit_base :: "'t chooks \<Rightarrow> 't comp \<Rightarrow> lit_base \<Rightarrow> 't cstate \<Rightarrow> 't cstate" where
  "emit_base hk K b =
     (case b of Written None \<Rightarrow> crash | Written (Some t) \<Rightarrow> k_type K t | Found t \<Rightarrow> k_type K t)"

definition elided_lit :: "node \<Rightarrow> bool" where
  "elided_lit e = (case e of CompositeLit m None es \<Rightarrow> True | _ \<Rightarrow> False)"

definition lit_value_expr :: "'t chooks \<Rightarrow> 't comp \<Rightarrow> lit_base \<Rightarrow> nat \<Rightarrow> node \<Rightarrow> 't cstate \<Rightarrow> 't cstate" where
  "lit_value_expr hk K b depth e c =
     (if elided_lit e
      then k_lit K b (if snd (q_litTypeAt hk (base_node b) depth c) then depth + 2 else depth + 1) e c
      else k_expr K e c)"

text \<open>A key: an elided literal of the map's key type, a field name, or an expression.\<close>

definition lit_key_expr :: "'t chooks \<Rightarrow> 't comp \<Rightarrow> lit_base \<Rightarrow> nat \<Rightarrow> bool \<Rightarrow> node \<Rightarrow> 't cstate \<Rightarrow> 't cstate" where
  "lit_key_expr hk K b depth keysAreExprs k c =
     (if elided_lit k
      then (case fst (q_litTypeAt hk (base_node b) depth c) of
          Some (MapType m kt vt) \<Rightarrow> k_lit K (Found kt) 0 k c
        | _ \<Rightarrow> k_expr K k c)
      else case k of
        Ident m x \<Rightarrow> if keysAreExprs then k_expr K k c else emit_k OpConst (KStr x) 0 (npos m) c
      | _ \<Rightarrow> k_expr K k c)"

definition is_kv :: "node \<Rightarrow> bool" where
  "is_kv e = (case e of KeyValueExpr m k v \<Rightarrow> True | _ \<Rightarrow> False)"

definition ident_key :: "node \<Rightarrow> bool" where
  "ident_key e = (case e of KeyValueExpr m k v \<Rightarrow> (case k of Ident m' x \<Rightarrow> True | _ \<Rightarrow> False) | _ \<Rightarrow> False)"

definition lit_element :: "'t chooks \<Rightarrow> 't comp \<Rightarrow> lit_base \<Rightarrow> nat \<Rightarrow> bool \<Rightarrow> bool \<Rightarrow> node \<Rightarrow> 't cstate \<Rightarrow> 't cstate" where
  "lit_element hk K b depth kv keysAreExprs e =
     (case e of
        KeyValueExpr m k v \<Rightarrow> seq [lit_key_expr hk K b depth keysAreExprs k, lit_value_expr hk K b depth v]
      | _ \<Rightarrow>
          if kv then seq [emit_k OpConst KImplicit 0 (pos_of e), lit_value_expr hk K b depth e]
          else lit_value_expr hk K b depth e)"

definition compileLit :: "'t chooks \<Rightarrow> 't comp \<Rightarrow> lit_base \<Rightarrow> nat \<Rightarrow> meta \<Rightarrow> node list \<Rightarrow> 't cstate \<Rightarrow> 't cstate" where
  "compileLit hk K b depth m es c =
     (let c1 = seq (emit_base hk K b # replicate depth (emit OpElemType 0 0 (npos m))) c;
          kv = list_ex is_kv es;
          keysAreExprs = (list_ex ident_key es \<and>
            (case fst (q_litTypeAt hk (base_node b) depth c1) of
               Some (MapType m kt vt) \<Rightarrow> True | Some (ArrayType m l t) \<Rightarrow> True | _ \<Rightarrow> False))
      in seq (map (lit_element hk K b depth kv keysAreExprs) es @
           [emit OpMakeComposite (int (length es)) (if kv then 1 else 0) (npos m)]) c1)"

section \<open>Targets of assignments\<close>

definition refTarget :: "'t chooks \<Rightarrow> 't comp \<Rightarrow> bool \<Rightarrow> node \<Rightarrow> 't cstate \<Rightarrow> 't cstate" where
  "refTarget hk K pin lhs =
     (case unparen lhs of
        Ident m x \<Rightarrow> if x = ''_'' then emit OpNil 0 0 (npos m) else refRef x (npos m)
      | SelectorExpr m b sel \<Rightarrow>
          seq [refTargetBase hk K b pin, emit_k OpFieldRef (KStr (ident_name sel)) (if pin then 3 else 1) (npos m)]
      | IndexExpr m b i \<Rightarrow>
          seq [if pin then k_expr K b else refTargetBase hk K b pin, k_expr K i,
            emit OpIndexRef 0 1 (q_brack hk (unparen lhs))]
      | StarExpr m b \<Rightarrow>
          if pin then k_expr K b
          else if storageShape b False then seq [refTargetBase hk K b pin, emit OpDerefRef 0 0 (npos m)]
          else k_expr K b
      | _ \<Rightarrow> trap (pos_of lhs) ''unsupported assignment target'')"

definition storeTarget :: "'t chooks \<Rightarrow> 't comp \<Rightarrow> node \<Rightarrow> bool \<Rightarrow> 't cstate \<Rightarrow> 't cstate" where
  "storeTarget hk K lhs isDefine c =
     (case lhs of
        Ident m x \<Rightarrow>
          if x = ''_'' then emit OpPop 0 0 (npos m) c
          else if isDefine \<and> \<not> inCurrentBlock (cur_scope c) x
          then emit OpNewLocal (int (next_slot c)) 0 (npos m) (declare_local x (npos m) c)
          else setRef x (npos m) c
      | SelectorExpr m b sel \<Rightarrow>
          seq [k_expr K b, emit OpSwap 0 0 (npos m), emit_k OpSetField (KStr (ident_name sel)) 0 (npos m)] c
      | IndexExpr m b i \<Rightarrow>
          seq [k_expr K b, k_expr K i, emit OpRot3 0 0 (npos m), emit OpSetIndex 0 0 (q_brack hk lhs)] c
      | StarExpr m b \<Rightarrow> seq [k_expr K b, emit OpSwap 0 0 (npos m), emit OpSetInd 0 0 (npos m)] c
      | _ \<Rightarrow> trap (pos_of lhs) ''unsupported assignment target'' c)"

section \<open>Functions\<close>

text \<open>The state of a fresh compiler for a function nested in the current one.\<close>

definition inner_compiler :: "string \<Rightarrow> 't cstate \<Rightarrow> 't cstate" where
  "inner_compiler name c =
     \<lparr>c_fs = newFScope # c_fs c,
      c_ch = \<lparr>ch_Name = name, ch_Code = [], ch_Consts = [], ch_NLocals = 0, ch_NParams = 0, ch_NResults = 0,
        ch_NamedSlots = [], ch_Upvals = [], ch_IsVararg = False, ch_Escapes = 0\<rparr>,
      c_ctrl = [], c_binds = c_binds c, c_index = c_index c, c_results = [], c_labels = Map.empty,
      c_pendingGotos = [], c_pendingLabels = [], c_falls = [], c_inClause = False, c_symName = name, c_litCount = 0, c_iotaVal = None,
      c_synthSeq = 0, c_funs = c_funs c, c_oof = c_oof c, c_crash = c_crash c\<rparr>"

text \<open>A type of the signature is resolved with the function's own names hidden.\<close>

definition sigTypeExpr :: "'t comp \<Rightarrow> node \<Rightarrow> 't cstate \<Rightarrow> 't cstate" where
  "sigTypeExpr K t c =
     (let saved = fs_blocks (cur_scope c)
      in on_scope (\<lambda>s. s\<lparr>fs_blocks := saved\<rparr>)
           (k_type K t (on_scope (\<lambda>s. s\<lparr>fs_blocks := replicate (length saved) []\<rparr>) c)))"

definition emitSigTypeCoerce :: "'t comp \<Rightarrow> nat \<Rightarrow> node option \<Rightarrow> nat \<Rightarrow> 't cstate \<Rightarrow> 't cstate" where
  "emitSigTypeCoerce K slot t pos =
     (case t of None \<Rightarrow> skip | Some t \<Rightarrow> seq [sigTypeExpr K t, emit OpCoerce (int slot) 0 pos])"

text \<open>The parameters of a field list are declared first, then coerced in the prologue.\<close>

fun declare_names :: "bool \<Rightarrow> node option \<Rightarrow> (string \<times> nat) list \<Rightarrow> 't cstate \<Rightarrow> (nat \<times> node option) list \<times> 't cstate"
where
  "declare_names iface t [] c = ([], c)"
| "declare_names iface t ((x, pos) # xs) c =
     (let slot = next_slot c;
          c1 = on_scope (noteDeclTyp x t) ((if iface then on_scope (markIface x) else skip) (declare_local x pos c));
          (rest, c2) = declare_names iface t xs c1
      in ((slot, t) # rest, c2))"

fun declare_params :: "('t cstate \<Rightarrow> node option \<Rightarrow> bool) \<Rightarrow> node list \<Rightarrow> 't cstate \<Rightarrow> (nat \<times> node option) list \<times> 't cstate"
where
  "declare_params iface [] c = ([], c)"
| "declare_params iface (f # fs) c =
     (let (names, c1) =
            (if field_names f = [] then (let (x, c1) = fresh ''$arg'' c in ([(x, 0)], c1))
             else (map (\<lambda>n. (ident_name n, pos_of n)) (field_names f), c));
          (ps, c2) = declare_names (iface c1 (field_type f)) (field_type f) names c1;
          c3 = (case field_type f of Some (Ellipsis m t) \<Rightarrow> c2\<lparr>c_ch := (c_ch c2)\<lparr>ch_IsVararg := True\<rparr>\<rparr> | _ \<Rightarrow> c2);
          (rest, c4) = declare_params iface fs c3
      in (ps @ rest, c4))"

definition emitParamCoerces :: "'t comp \<Rightarrow> (nat \<times> node option) list \<Rightarrow> 't cstate \<Rightarrow> 't cstate" where
  "emitParamCoerces K ps =
     seq (map (\<lambda>(slot, t). emitSigTypeCoerce K slot t (case t of Some t \<Rightarrow> pos_of t | None \<Rightarrow> 0)) ps)"

definition named_result :: "'t comp \<Rightarrow> ('t cstate \<Rightarrow> node option \<Rightarrow> bool) \<Rightarrow> node option \<Rightarrow> node \<Rightarrow> 't cstate \<Rightarrow> 't cstate" where
  "named_result K iface t n c =
     (let slot = next_slot c; x = ident_name n; pos = pos_of n;
          c1 = declare_local x pos c;
          c2 = on_scope (noteDeclTyp x t) ((if iface c1 t then on_scope (markIface x) else skip) c1)
      in seq [emit OpNil 0 0 pos, emit OpNewLocal (int slot) 0 pos, emitSigTypeCoerce K slot t pos]
           (c2\<lparr>c_ch := (c_ch c2)\<lparr>ch_NamedSlots := ch_NamedSlots (c_ch c2) @ [slot]\<rparr>\<rparr>))"

definition named_results :: "'t comp \<Rightarrow> ('t cstate \<Rightarrow> node option \<Rightarrow> bool) \<Rightarrow> node list \<Rightarrow> 't cstate \<Rightarrow> 't cstate" where
  "named_results K iface fs =
     seq (concat (map (\<lambda>f. map (named_result K iface (field_type f)) (field_names f)) fs))"

definition resultTypes :: "node list \<Rightarrow> node list" where
  "resultTypes fs =
     concat (map (\<lambda>f. case field_type f of
         None \<Rightarrow> [] | Some t \<Rightarrow> replicate (if field_names f = [] then 1 else length (field_names f)) t) fs)"

definition countResults :: "node list \<Rightarrow> nat" where
  "countResults fs = sum_list (map (\<lambda>f. if field_names f = [] then 1 else length (field_names f)) fs)"

text \<open>Labels and gotos at the end of a function.\<close>

definition gotoViolation :: "label_info \<Rightarrow> nat list \<Rightarrow> (string \<times> nat) list \<Rightarrow> string option" where
  "gotoViolation li blocks vars =
     (if \<not> set (li_blocks li) \<subseteq> set blocks then Some (''goto '' @ li_name li @ '' jumps into a block'')
      else case filter (\<lambda>(x, pos). map_of vars x \<noteq> Some pos) (li_vars li) of
        [] \<Rightarrow> None
      | (x, pos) # _ \<Rightarrow> Some (''goto '' @ li_name li @ '' jumps over declaration of '' @ x))"

definition resolve_goto :: "pending_goto \<Rightarrow> 't cstate \<Rightarrow> 't cstate" where
  "resolve_goto pg c =
     (case c_labels c (pg_name pg) of
        Some li \<Rightarrow>
          (case gotoViolation li (pg_blocks pg) (pg_vars pg) of
             Some why \<Rightarrow> patchA (pg_ins pg) (here c) (trap (pg_pos pg) why c)
           | None \<Rightarrow> patchA (pg_ins pg) (li_ip li) c)
      | None \<Rightarrow>
          patchA (pg_ins pg) (here c) (trap (pg_pos pg) (''goto '' @ pg_name pg @ '': label not defined'') c))"

definition resolveGotos :: "'t cstate \<Rightarrow> 't cstate" where
  "resolveGotos c = (fold resolve_goto (c_pendingGotos c) c)\<lparr>c_pendingGotos := []\<rparr>"

definition block_list :: "node \<Rightarrow> node list" where
  "block_list b = (case b of BlockStmt m ss \<Rightarrow> ss | _ \<Rightarrow> [])"

definition set_results :: "node list \<Rightarrow> 't cstate \<Rightarrow> 't cstate" where
  "set_results fs c = c\<lparr>c_ch := (c_ch c)\<lparr>ch_NResults := countResults fs\<rparr>, c_results := resultTypes fs\<rparr>"

text \<open>The implicit return and the counts of the chunk.\<close>

definition finish_function :: "nat \<Rightarrow> 't cstate \<Rightarrow> 't cstate" where
  "finish_function pos c =
     (let c1 = emit OpReturn (int (ch_NResults (c_ch c))) 0 pos c
      in c1\<lparr>c_ch := (c_ch c1)\<lparr>ch_NLocals := fs_nlocals (cur_scope c1), ch_Upvals := fs_upvals (cur_scope c1)\<rparr>\<rparr>)"

definition set_nparams :: "nat \<Rightarrow> 't cstate \<Rightarrow> 't cstate" where
  "set_nparams n c = c\<lparr>c_ch := (c_ch c)\<lparr>ch_NParams := n\<rparr>\<rparr>"

text \<open>A function literal: its parameters are never marked as interface-typed.\<close>

definition literal_body :: "'t comp \<Rightarrow> node \<Rightarrow> node \<Rightarrow> nat \<Rightarrow> 't cstate \<Rightarrow> 't cstate" where
  "literal_body K t body pos c =
     (let (ps, c1) = declare_params (\<lambda>c t. False) (field_list (ft_Params t)) (push_block c);
          results = field_list (ft_Results t)
      in seq ([set_nparams (length ps), emitParamCoerces K ps, named_results K (\<lambda>c t. False) results, set_results results] @
           map (k_stmt K) (block_list body) @ [resolveGotos, finish_function pos]) c1)"

definition literal_name :: "'t cstate \<Rightarrow> string" where
  "literal_name c =
     (if c_symName c = [] then ''<funclit>'' else c_symName c @ ''.func'' @ show_nat (c_litCount c + 1))"

definition funcLit :: "'t comp \<Rightarrow> meta \<Rightarrow> node \<Rightarrow> node \<Rightarrow> 't cstate \<Rightarrow> 't cstate" where
  "funcLit K m t body c =
     (let ic = literal_body K t body (nend m) (inner_compiler (literal_name c) c)
      in emit_k OpMakeClosure (KFun (length (c_funs ic))) 0 (npos m)
           (c\<lparr>c_fs := tl (c_fs ic), c_funs := c_funs ic @ [c_ch ic], c_litCount := c_litCount c + 1,
              c_oof := c_oof ic, c_crash := c_crash ic\<rparr>))"

section \<open>The switch over expressions\<close>

definition slice_operand :: "'t chooks \<Rightarrow> 't comp \<Rightarrow> node \<Rightarrow> 't cstate \<Rightarrow> 't cstate" where
  "slice_operand hk K x c =
     (case unparen x of
        IndexExpr m b i \<Rightarrow>
          (case refableIndexBase hk b c of
             (True, c) \<Rightarrow> seq [k_expr K b, k_expr K i, emit OpIndexRef 0 2 (q_brack hk (unparen x))] c
           | (False, c) \<Rightarrow> k_expr K x c)
      | _ \<Rightarrow> k_expr K x c)"

definition expr_or_nil :: "'t comp \<Rightarrow> node option \<Rightarrow> nat \<Rightarrow> 't cstate \<Rightarrow> 't cstate" where
  "expr_or_nil K e pos = (case e of Some e \<Rightarrow> k_expr K e | None \<Rightarrow> emit OpNil 0 0 pos)"

definition expr_body :: "'t chooks \<Rightarrow> 't comp \<Rightarrow> node \<Rightarrow> 't cstate \<Rightarrow> 't cstate" where
  "expr_body hk K e =
     (case e of
        BasicLit m k v \<Rightarrow> basic_lit hk k v (npos m)
      | Ident m x \<Rightarrow> ident_expr x (npos m)
      | SelectorExpr m x sel \<Rightarrow> selector_expr hk K x sel
      | IndexExpr m x i \<Rightarrow>
          seq [k_expr K x, \<lambda>c. if isTypeForm c i then k_type K i c else k_expr K i c, emit OpInstantiate 1 0 (q_brack hk e)]
      | SliceExpr m x l h mx \<Rightarrow>
          seq [slice_operand hk K x, expr_or_nil K l (npos m), expr_or_nil K h (npos m),
            case mx of None \<Rightarrow> emit OpSlice 0 0 (q_brack hk e)
            | Some v \<Rightarrow> seq [k_expr K v, emit OpSlice 0 1 (q_brack hk e)]]
      | StarExpr m x \<Rightarrow> seq [k_expr K x, emit OpDeref 0 0 (npos m)]
      | ParenExpr m x \<Rightarrow> k_expr K x
      | UnaryExpr m t x \<Rightarrow> unary hk K m t x
      | BinaryExpr m x t y \<Rightarrow> binary hk K m x t y
      | CallExpr m f as \<Rightarrow> call_expr hk K (npos m) e f as (q_ellipsis hk e)
      | CompositeLit m t es \<Rightarrow> compileLit hk K (Written t) 0 m es
      | FuncLit m t b \<Rightarrow> funcLit K m t b
      | TypeAssertExpr m x t \<Rightarrow>
          (case t of
             None \<Rightarrow> seq [k_expr K x, trap (npos m) ''.(type) outside type switch'']
           | Some t \<Rightarrow> seq [k_expr K x, staticTyp hk K x, k_type K t, emit OpAssert 0 1 (npos m)])
      | IndexListExpr m x is \<Rightarrow>
          seq ([k_expr K x] @ map (k_type K) is @ [emit OpInstantiate (int (length is)) 0 (q_brack hk e)])
      | Ellipsis m t \<Rightarrow> trap (npos m) ''bare ellipsis is not supported''
      | KeyValueExpr m k v \<Rightarrow> trap (npos m) ''key:value outside composite literal''
      | InterfaceType m ms \<Rightarrow> type_expr hk K e
      | StructType m fs \<Rightarrow> type_expr hk K e
      | FuncType m tps ps rs \<Rightarrow> type_expr hk K e
      | ArrayType m l t \<Rightarrow> type_expr hk K e
      | MapType m k v \<Rightarrow> type_expr hk K e
      | ChanType m v \<Rightarrow> type_expr hk K e
      | _ \<Rightarrow> trap (pos_of e) ''unsupported expression'')"

end
