(* ===== verification/CompileStmt.thy ===== *)
theory CompileStmt
  imports Compile
begin

text \<open>
  The statements of \<open>compile/compile.go\<close>: assignments, local declarations, the control statements with their jumps,
  and the compilation of a whole function. The recursion of the compiler is tied here, by \<open>comp_n\<close>.
\<close>

section \<open>Assignments\<close>

definition note_type :: "string \<Rightarrow> node option \<Rightarrow> 't cstate \<Rightarrow> 't cstate" where
  "note_type x t = on_scope (noteDeclTyp x t)"

text \<open>\<open>compiler.noteDeclTyp\<close>: what a declaration tells about the static type of its name.\<close>

definition note_decl :: "'t chooks \<Rightarrow> string \<Rightarrow> node option \<Rightarrow> bool \<Rightarrow> node option \<Rightarrow> 't cstate \<Rightarrow> 't cstate" where
  "note_decl hk x effType isConst rhs c =
     (let c1 = (if isConst then on_scope (noteConstDecl x) c else c) in
      case (effType, rhs) of
        (None, Some r) \<Rightarrow>
          (let t = q_staticOpTyp hk r c1;
               te = (if t_te t \<noteq> None \<or> isConst then t_te t
                     else if t_untyped t \<and> t_dte t \<noteq> None then t_dte t
                     else q_inferredBind hk 1 [r] 0 c1)
           in if te \<noteq> None then note_type x te c1
              else if isConst \<and> t_untyped t then on_scope (noteUntypedConst x (t_dte t)) c1
              else if isConst then on_scope (noteUntypedConst x None) c1
              else c1)
      | _ \<Rightarrow>
          if effType \<noteq> None then note_type x effType c1
          else if isConst then on_scope (noteUntypedConst x None) c1
          else c1)"

definition bool_type :: "node option" where
  "bool_type = Some (Ident (Meta 0 0 0) ''bool'')"

definition commaOkStatic :: "node \<Rightarrow> bool" where
  "commaOkStatic e =
     (case unparen e of
        IndexExpr m x i \<Rightarrow> True
      | TypeAssertExpr m x t \<Rightarrow> True
      | UnaryExpr m t x \<Rightarrow> t = ARROW
      | _ \<Rightarrow> False)"

text \<open>A coercion of each inferred name to the type its initializer spells.\<close>

fun stampInferredTyps :: "'t chooks \<Rightarrow> 't comp \<Rightarrow> nat \<Rightarrow> node list \<Rightarrow> nat \<Rightarrow> node list \<Rightarrow> 't cstate \<Rightarrow> 't cstate" where
  "stampInferredTyps hk K n rhs i [] c = c"
| "stampInferredTyps hk K n rhs i (l # ls) c =
     stampInferredTyps hk K n rhs (Suc i) ls
       (case l of
          Ident m x \<Rightarrow>
            if x = ''_'' then c
            else (case q_inferredBind hk n rhs i c of
                None \<Rightarrow> c
              | Some t \<Rightarrow>
                  (case lookupBinding (c_fs c) x of
                     None \<Rightarrow> c
                   | Some b \<Rightarrow> seq [k_type K t, emit OpCoerce (int (b_slot b)) 0 (npos m)] c))
        | _ \<Rightarrow> c)"

text \<open>What a \<open>:=\<close> tells about the names it binds.\<close>

definition note_bind :: "'t chooks \<Rightarrow> node list \<Rightarrow> node list \<Rightarrow> nat \<Rightarrow> string \<Rightarrow> 't cstate \<Rightarrow> 't cstate" where
  "note_bind hk lhs rhs i x c =
     (let r = (if length rhs = length lhs then rhs ! i else hd rhs);
          c1 = (if isIfaceExpr hk c r then on_scope (markIface x) c else c)
      in if length rhs = length lhs then note_decl hk x None False (Some (rhs ! i)) c1
         else if length rhs = 1 \<and> commaOkStatic (hd rhs)
         then (if i = 0 then note_decl hk x None False (Some (hd rhs)) c1 else note_type x bool_type c1)
         else if length rhs = 1
         then (let t = q_nthResult hk (hd rhs) i c1 in
               if t_te t \<noteq> None \<or> t_iface t
               then note_type x (t_te t) (if t_iface t then on_scope (markIface x) c1 else c1)
               else if i = 0 then note_decl hk x None False (Some (hd rhs)) c1 else c1)
         else c1)"

fun note_binds :: "'t chooks \<Rightarrow> node list \<Rightarrow> node list \<Rightarrow> nat \<Rightarrow> node list \<Rightarrow> 't cstate \<Rightarrow> 't cstate" where
  "note_binds hk lhs rhs i [] c = c"
| "note_binds hk lhs rhs i (l # ls) c =
     note_binds hk lhs rhs (Suc i) ls
       (case l of Ident m x \<Rightarrow> if x = ''_'' then c else note_bind hk lhs rhs i x c | _ \<Rightarrow> c)"

definition noteIfaceBinds :: "'t chooks \<Rightarrow> 't comp \<Rightarrow> node list \<Rightarrow> token \<Rightarrow> node list \<Rightarrow> 't cstate \<Rightarrow> 't cstate" where
  "noteIfaceBinds hk K lhs tok rhs c =
     (if tok \<noteq> DEFINE then c
      else stampInferredTyps hk K (length lhs) rhs 0 lhs (note_binds hk lhs rhs 0 lhs c))"

definition commaOkRhs :: "'t chooks \<Rightarrow> 't comp \<Rightarrow> node \<Rightarrow> ('t cstate \<Rightarrow> 't cstate) option" where
  "commaOkRhs hk K e =
     (case unparen e of
        UnaryExpr m t x \<Rightarrow> if t = ARROW then Some (seq [k_expr K x, emit OpRecvOK 0 0 (npos m)]) else None
      | IndexExpr m x i \<Rightarrow> Some (seq [k_expr K x, k_expr K i, emit OpIndexOK 0 0 (q_brack hk (unparen e))])
      | TypeAssertExpr m x t \<Rightarrow>
          (case t of None \<Rightarrow> None
           | Some t \<Rightarrow> Some (seq [k_expr K x, k_type K t, emit OpAssertOK 0 0 (npos m)]))
      | _ \<Rightarrow> None)"

definition storeAll :: "'t chooks \<Rightarrow> 't comp \<Rightarrow> node list \<Rightarrow> bool \<Rightarrow> bool \<Rightarrow> nat \<Rightarrow> 't cstate \<Rightarrow> 't cstate" where
  "storeAll hk K lhs isDefine useRefs pos =
     (if useRefs then emit OpSetRefs (int (length lhs)) 0 pos
      else seq (map (\<lambda>l. storeTarget hk K l isDefine) (rev lhs)))"

definition compound_assign :: "'t chooks \<Rightarrow> 't comp \<Rightarrow> node list \<Rightarrow> token \<Rightarrow> node list \<Rightarrow> nat \<Rightarrow> 't cstate \<Rightarrow> 't cstate" where
  "compound_assign hk K lhs tok rhs pos =
     (case (lhs, rhs) of
        ([l], [r]) \<Rightarrow>
          (case binOpOf tok of
             None \<Rightarrow> trap pos ''unsupported assign op''
           | Some b \<Rightarrow>
               let target = unparen l in
               if \<not> storageShape target False then trap pos ''compound assignment is not supported''
               else seq [k_ref K False target, k_expr K r, emit OpSwap 0 0 (pos_of target), emit OpDup 0 0 (pos_of target),
                 emit OpDeref 0 0 (pos_of target), emit OpRot3 0 0 (pos_of target),
                 emit OpBinary (binop_number b) 0 pos, emit OpSetRefs 1 0 pos])
      | _ \<Rightarrow> trap pos ''compound assignment requires single operands'')"

definition assign :: "'t chooks \<Rightarrow> 't comp \<Rightarrow> node list \<Rightarrow> token \<Rightarrow> node list \<Rightarrow> nat \<Rightarrow> 't cstate \<Rightarrow> 't cstate" where
  "assign hk K lhs tok rhs pos =
     (let isDefine = (tok = DEFINE); n = length lhs in
      if tok \<noteq> ASSIGN \<and> \<not> isDefine then compound_assign hk K lhs tok rhs pos
      else seq [
        seq (if isDefine then [] else map (k_ref K (n > 1)) lhs),
        if length rhs = 1 \<and> n > 1
        then (case (if n = 2 then commaOkRhs hk K (hd rhs) else None) of
            Some p \<Rightarrow> seq [p, emit3 OpUnpack 2 0 0 pos]
          | None \<Rightarrow> seq [k_expr K (hd rhs), emit3 OpUnpack (int n) 0 0 pos])
        else seq (map (k_expr K) rhs),
        storeAll hk K lhs isDefine (\<not> isDefine) pos,
        noteIfaceBinds hk K lhs tok rhs])"

section \<open>Local declarations\<close>

definition bind_local :: "string \<Rightarrow> nat \<Rightarrow> bool \<Rightarrow> 't cstate \<Rightarrow> 't cstate" where
  "bind_local x pos isConst c =
     (if x = ''_'' then emit OpPop 0 0 pos c
      else emit OpNewLocal (int (next_slot c)) (if isConst then 1 else 0) pos (declare_local x pos c))"

definition coerce_top :: "'t comp \<Rightarrow> node option \<Rightarrow> nat \<Rightarrow> 't cstate \<Rightarrow> 't cstate" where
  "coerce_top K t pos =
     (case t of None \<Rightarrow> skip | Some t \<Rightarrow> seq [k_type K t, emit OpCoerceTop 0 0 pos])"

text \<open>The bind of a name and, unless it already has its type, the coercion of its cell.\<close>

definition bind_coerced :: "'t comp \<Rightarrow> node option \<Rightarrow> bool \<Rightarrow> bool \<Rightarrow> node \<Rightarrow> 't cstate \<Rightarrow> 't cstate" where
  "bind_coerced K t isConst typedConst n c =
     (let x = ident_name n; slot = next_slot c; c1 = bind_local x (pos_of n) isConst c
      in case t of
           Some t \<Rightarrow>
             if typedConst \<or> x = ''_'' then c1
             else seq [k_type K t, emit OpCoerce (int slot) 0 (pos_of n)] c1
         | None \<Rightarrow> c1)"

definition mark_iface :: "'t chooks \<Rightarrow> bool \<Rightarrow> node option \<Rightarrow> string \<Rightarrow> node option \<Rightarrow> 't cstate \<Rightarrow> 't cstate" where
  "mark_iface hk ifaceType t x rhs c =
     (if x \<noteq> ''_'' \<and> (ifaceType \<or> t = None \<and> (case rhs of Some r \<Rightarrow> isIfaceExpr hk c r | None \<Rightarrow> False))
      then on_scope (markIface x) c else c)"

text \<open>\<open>var a, b = f()\<close>: the values are bound last name first.\<close>

definition unpacked_name :: "'t chooks \<Rightarrow> 't comp \<Rightarrow> node option \<Rightarrow> bool \<Rightarrow> bool \<Rightarrow> bool \<Rightarrow> node \<Rightarrow> nat \<Rightarrow> nat \<times> node \<Rightarrow> 't cstate \<Rightarrow> 't cstate"
where
  "unpacked_name hk K t isConst ifaceType isCommaOk val pos ni c =
     (let (i, n) = ni; x = ident_name n;
          c1 = seq [coerce_top K t pos, bind_coerced K t isConst False n, mark_iface hk ifaceType t x (Some val)] c
      in if isCommaOk \<and> i = 1 then note_type x bool_type c1
         else (case t_te (q_nthResult hk val i c1) of
             Some te \<Rightarrow> note_type x (Some te) c1
           | None \<Rightarrow> note_decl hk x t isConst None c1))"

definition typed_const :: "'t chooks \<Rightarrow> 't comp \<Rightarrow> node \<Rightarrow> node \<Rightarrow> 't cstate \<Rightarrow> 't cstate" where
  "typed_const hk K t e = call_expr hk K (pos_of t) (CallExpr (nmeta t) t [e]) t [e] False"

definition const_expr :: "'t chooks \<Rightarrow> 't comp \<Rightarrow> node \<Rightarrow> 't cstate \<Rightarrow> 't cstate" where
  "const_expr hk K e =
     (case q_constValue hk e of Some v \<Rightarrow> emit_k OpConst (KOpaque v) 0 (pos_of e) | None \<Rightarrow> k_expr K e)"

text \<open>One name of a specification with a value each, or none.\<close>

definition spec_name :: "'t chooks \<Rightarrow> 't comp \<Rightarrow> node option \<Rightarrow> bool \<Rightarrow> bool \<Rightarrow> node list \<Rightarrow> nat \<Rightarrow> nat \<times> node \<Rightarrow> 't cstate \<Rightarrow> 't cstate"
where
  "spec_name hk K t isConst ifaceType vals pos ni c =
     (let (i, n) = ni; x = ident_name n;
          rhs = (if i < length vals then Some (vals ! i) else None);
          typed = (case (t, rhs) of (Some te, Some e) \<Rightarrow> isConst \<and> \<not> q_bareScalar hk te c | _ \<Rightarrow> False);
          c1 = (case rhs of
              None \<Rightarrow> if vals = [] then emit OpNil 0 0 (pos_of n) c else crash c
            | Some e \<Rightarrow>
                if typed then typed_const hk K (the t) e c
                else seq [if isConst then const_expr hk K e else k_expr K e, coerce_top K t pos] c)
      in seq [bind_coerced K t isConst typed n, mark_iface hk ifaceType t x rhs, note_decl hk x t isConst rhs] c1)"

definition iota_start :: "nat \<Rightarrow> nat \<Rightarrow> 't cstate \<Rightarrow> 't cstate" where
  "iota_start i pos c =
     (let c1 = emit_k OpConst (KInt (int i)) 0 pos c; (slot, s) = iotaSlot (cur_scope c1)
      in (emit OpSetLocal (int slot) 0 pos (on_scope (\<lambda>_. s) c1))\<lparr>c_iotaVal := Some i\<rparr>)"

definition local_spec :: "'t chooks \<Rightarrow> 't comp \<Rightarrow> bool \<Rightarrow> nat \<Rightarrow> effective_spec \<Rightarrow> 't cstate \<Rightarrow> 't cstate" where
  "local_spec hk K isConst i eff c =
     (let spec = es_Spec eff; vals = es_Values eff; t = es_Type eff; names = vs_Names spec; pos = pos_of spec;
          c1 = (if isConst then iota_start i pos c else c);
          ifaceType = (case t of Some te \<Rightarrow> isIfaceTypeExpr hk c1 te | None \<Rightarrow> False);
          c2 = (if length vals = 1 \<and> length names > 1
            then (let ok = (if \<not> isConst \<and> length names = 2 then commaOkRhs hk K (hd vals) else None)
                  in seq ([case ok of Some p \<Rightarrow> p | None \<Rightarrow> k_expr K (hd vals), emit3 OpUnpack (int (length names)) 0 0 pos] @
                      map (unpacked_name hk K t isConst ifaceType (ok \<noteq> None) (hd vals) pos) (rev (enumerate 0 names))) c1)
            else seq (map (spec_name hk K t isConst ifaceType vals pos) (enumerate 0 names)) c1);
          c3 = (if isConst \<or> t \<noteq> None then c2 else stampInferredTyps hk K (length names) vals 0 names c2)
      in c3\<lparr>c_iotaVal := None\<rparr>)"

text \<open>A local type: the analysis makes its typedef; it is bound like a value.\<close>

definition is_iface_spec :: "node \<Rightarrow> bool" where
  "is_iface_spec ts = (case ts of TypeSpec m n tps alias t \<Rightarrow> (case t of InterfaceType m' ms \<Rightarrow> True | _ \<Rightarrow> False) | _ \<Rightarrow> False)"

definition localTypeDecl :: "'t chooks \<Rightarrow> node \<Rightarrow> 't cstate \<Rightarrow> 't cstate" where
  "localTypeDecl hk ts c =
     (let td = q_tdef hk ts c; x = ident_name (ts_Name ts); slot = next_slot c; pos = pos_of ts
      in seq [declare_local x pos, on_scope (recordType x (Some ts) (Some td) (is_iface_spec ts)),
           emit_k OpConst (KOpaque td) 0 pos, emit OpLocalType 0 0 pos, emit OpNewLocal (int slot) 0 pos] c)"

definition decl_stmt :: "'t chooks \<Rightarrow> 't comp \<Rightarrow> node \<Rightarrow> nat \<Rightarrow> 't cstate \<Rightarrow> 't cstate" where
  "decl_stmt hk K gd pos =
     (case gd of
        GenDecl m tok specs \<Rightarrow>
          if tok = VAR_T \<or> tok = CONST_T
          then seq (map (\<lambda>(i, eff). local_spec hk K (tok = CONST_T) i eff) (value_specs gd))
          else if tok = TYPE_T then seq (map (localTypeDecl hk) specs)
          else if tok = IMPORT_T then trap pos ''import inside function is not valid Go''
          else skip
      | _ \<Rightarrow> crash)"

section \<open>Control statements\<close>

definition push_ctrl :: "ctrl_ctx \<Rightarrow> 't cstate \<Rightarrow> 't cstate" where
  "push_ctrl cx c = c\<lparr>c_ctrl := cx # c_ctrl c\<rparr>"

definition pop_ctrl :: "'t cstate \<Rightarrow> 't cstate" where
  "pop_ctrl c = c\<lparr>c_ctrl := tl (c_ctrl c)\<rparr>"

definition top_ctrl :: "'t cstate \<Rightarrow> ctrl_ctx" where
  "top_ctrl c = hd (c_ctrl c)"

definition set_continueIP :: "nat \<Rightarrow> 't cstate \<Rightarrow> 't cstate" where
  "set_continueIP ip c = c\<lparr>c_ctrl := (hd (c_ctrl c))\<lparr>cx_continueIP := Some ip\<rparr> # tl (c_ctrl c)\<rparr>"

text \<open>\<open>takeLabels\<close>: the labels waiting for a construct go to the context it opens.\<close>

definition open_ctrl :: "bool \<Rightarrow> 't cstate \<Rightarrow> 't cstate" where
  "open_ctrl isLoop c =
     push_ctrl \<lparr>cx_isLoop = isLoop, cx_labels = c_pendingLabels c, cx_continueIP = None, cx_continues = [], cx_breaks = []\<rparr>
       (c\<lparr>c_pendingLabels := []\<rparr>)"

text \<open>The breaks of the innermost construct go to its end, and its context is closed.\<close>

definition close_ctrl :: "'t cstate \<Rightarrow> 't cstate" where
  "close_ctrl c = pop_ctrl (patch_all (cx_breaks (top_ctrl c)) (here c) c)"

definition stmts :: "'t comp \<Rightarrow> node list \<Rightarrow> 't cstate \<Rightarrow> 't cstate" where
  "stmts K ss = seq (map (k_stmt K) ss)"

definition opt_stmt :: "'t comp \<Rightarrow> node option \<Rightarrow> 't cstate \<Rightarrow> 't cstate" where
  "opt_stmt K s = (case s of Some s \<Rightarrow> k_stmt K s | None \<Rightarrow> skip)"

definition ifStmt :: "'t comp \<Rightarrow> nat \<Rightarrow> node option \<Rightarrow> node \<Rightarrow> node \<Rightarrow> node option \<Rightarrow> 't cstate \<Rightarrow> 't cstate" where
  "ifStmt K pos init cond body els c =
     (let c1 = seq [push_block, opt_stmt K init, k_expr K cond] c;
          jElse = here c1;
          c2 = seq [emit OpJumpFalse 0 0 (pos_of cond), k_stmt K body] c1;
          jEnd = here c2;
          c3 = emit OpJump 0 0 pos c2;
          c4 = opt_stmt K els (patchA jElse (here c3) c3)
      in pop_block (patchA jEnd (here c4) c4))"

definition loopInitNames :: "node option \<Rightarrow> (string \<times> nat) list" where
  "loopInitNames s =
     (case s of
        Some (AssignStmt m lhs tok rhs) \<Rightarrow>
          if tok = DEFINE
          then concat (map (\<lambda>l. case l of Ident m x \<Rightarrow> if x = ''_'' then [] else [(x, npos m)] | _ \<Rightarrow> []) lhs)
          else []
      | _ \<Rightarrow> [])"

text \<open>Each iteration has its own cells: the slots are pairs of the loop's and the body's.\<close>

fun shadow_names :: "(string \<times> nat) list \<Rightarrow> 't cstate \<Rightarrow> (nat \<times> nat) list \<times> 't cstate" where
  "shadow_names [] c = ([], c)"
| "shadow_names ((x, pos) # xs) c =
     (let outer = (case lookupLocal (cur_scope c) x of Some i \<Rightarrow> i | None \<Rightarrow> 0); slot = next_slot c;
          c1 = seq [declare_local x pos, emit OpLocal (int outer) 0 pos, emit OpNewLocal (int slot) 0 pos] c;
          (ps, c2) = shadow_names xs c1
      in ((outer, slot) # ps, c2))"

definition copy_back :: "nat \<Rightarrow> (nat \<times> nat) list \<Rightarrow> 't cstate \<Rightarrow> 't cstate" where
  "copy_back pos ps =
     seq (concat (map (\<lambda>(outer, slot). [emit OpLocal (int slot) 0 pos, emit OpSetLocal (int outer) 0 pos]) ps))"

definition forStmt ::
    "'t comp \<Rightarrow> nat \<Rightarrow> node option \<Rightarrow> node option \<Rightarrow> node option \<Rightarrow> node \<Rightarrow> 't cstate \<Rightarrow> 't cstate" where
  "forStmt K pos init cond post body c =
     (let c1 = seq [push_block, opt_stmt K init, open_ctrl True] c;
          condIP = here c1;
          c2 = (case cond of Some e \<Rightarrow> k_expr K e c1 | None \<Rightarrow> c1);
          jEnd = here c2;
          c3 = (case cond of Some e \<Rightarrow> emit OpJumpFalse 0 0 (pos_of e) c2 | None \<Rightarrow> c2);
          (ps, c4) = shadow_names (loopInitNames init) (push_block c3);
          c5 = pop_block (stmts K (block_list body) c4);
          c6 = set_continueIP (here c5) c5;
          c7 = seq [copy_back (case init of Some s \<Rightarrow> pos_of s | None \<Rightarrow> 0) ps, opt_stmt K post] c6;
          c8 = patch_all (cx_continues (top_ctrl c7)) (here c5) c7;
          c9 = emit OpJump (int condIP) 0 pos c8;
          c10 = (case cond of Some e \<Rightarrow> patchA jEnd (here c9) c9 | None \<Rightarrow> c9)
      in pop_block (close_ctrl c10))"

definition blank_ident :: "node \<Rightarrow> bool" where
  "blank_ident e = (case unparen e of Ident m x \<Rightarrow> x = ''_'' | _ \<Rightarrow> False)"

definition bindRangeVar :: "'t chooks \<Rightarrow> 't comp \<Rightarrow> node \<Rightarrow> bool \<Rightarrow> 't cstate \<Rightarrow> 't cstate" where
  "bindRangeVar hk K e define =
     (case e of
        Ident m x \<Rightarrow> if x = ''_'' then emit OpPop 0 0 (npos m) else storeTarget hk K e define
      | _ \<Rightarrow> storeTarget hk K e define)"

definition noteBindVar :: "node \<Rightarrow> node option \<Rightarrow> bool \<Rightarrow> 't cstate \<Rightarrow> 't cstate" where
  "noteBindVar e te define =
     (case e of Ident m x \<Rightarrow> if \<not> define \<or> x = ''_'' then skip else note_type x te | _ \<Rightarrow> skip)"

definition bind_range :: "'t chooks \<Rightarrow> 't comp \<Rightarrow> node option \<Rightarrow> node option \<Rightarrow> 't cstate \<Rightarrow> 't cstate" where
  "bind_range hk K e te =
     (case e of None \<Rightarrow> skip | Some e \<Rightarrow> seq [bindRangeVar hk K e True, noteBindVar e te True])"

definition lazy_star :: "'t chooks \<Rightarrow> node \<Rightarrow> node option \<Rightarrow> 't cstate \<Rightarrow> node option" where
  "lazy_star hk x v c =
     (case unparen x of
        StarExpr m y \<Rightarrow> if v = None \<and> storageShape y True \<and> \<not> lenOperandCalls hk c y then Some y else None
      | _ \<Rightarrow> None)"

definition rangeStmt ::
    "'t chooks \<Rightarrow> 't comp \<Rightarrow> nat \<Rightarrow> node option \<Rightarrow> node option \<Rightarrow> token \<Rightarrow> node \<Rightarrow> node \<Rightarrow> 't cstate \<Rightarrow> 't cstate" where
  "rangeStmt hk K pos key v tok x body c =
     (let c0 = push_block c;
          star = lazy_star hk x v c0;
          rx = (case star of Some y \<Rightarrow> y | None \<Rightarrow> unparen x);
          c1 = seq [k_expr K rx, emit OpIter 0 (if star = None then 0 else 1) (pos_of x)] c0;
          (it, c2) = fresh ''$it'' c1;
          itSlot = next_slot c2;
          c3 = seq [declare_local it 0, emit OpNewLocal (int itSlot) 0 (pos_of x)] c2;
          nvars = (if key = None then 0 else 1) + (if v = None then 0 else 1);
          nc = nvars + (case v of Some e \<Rightarrow> if blank_ident e then 0 else 4 | None \<Rightarrow> 0);
          c4 = open_ctrl True c3;
          topIP = here c4;
          c5 = set_continueIP topIP (emit3 OpRangeNext 0 (int itSlot) nc pos c4);
          c6 = (if tok \<noteq> DEFINE
            then seq [case key of Some e \<Rightarrow> k_ref K True e | None \<Rightarrow> skip, case v of Some e \<Rightarrow> k_ref K True e | None \<Rightarrow> skip,
              emit3 OpSetRefs nvars 1 0 pos] c5
            else (let (kt, vt) = q_rangeVarTyps hk x c5
                  in seq [bind_range hk K v vt, bind_range hk K key kt] c5));
          c7 = seq [k_stmt K body, emit OpJump (int topIP) 0 pos] c6
      in pop_block (close_ctrl (patchA topIP (here c7) c7)))"

section \<open>Switches\<close>

definition case_exprs :: "node \<Rightarrow> node list" where
  "case_exprs s = (case s of CaseClause m es b \<Rightarrow> es | _ \<Rightarrow> [])"

definition case_body :: "node \<Rightarrow> node list" where
  "case_body s = (case s of CaseClause m es b \<Rightarrow> b | _ \<Rightarrow> [])"

text \<open>The tests of a clause: the jumps to its body.\<close>

definition case_value :: "'t chooks \<Rightarrow> 't comp \<Rightarrow> node \<Rightarrow> 't cstate \<Rightarrow> 't cstate" where
  "case_value hk K e c =
     (case q_constOperand hk e c of Some v \<Rightarrow> emit_k OpConst (KOpaque v) 0 (pos_of e) c | None \<Rightarrow> k_expr K e c)"

fun case_tests :: "'t chooks \<Rightarrow> 't comp \<Rightarrow> (nat \<times> node \<times> bool) option \<Rightarrow> node list \<Rightarrow> 't cstate \<Rightarrow> nat list \<times> 't cstate" where
  "case_tests hk K tag [] c = ([], c)"
| "case_tests hk K tag (e # es) c =
     (case (case tag of None \<Rightarrow> None | Some (slot, t, strict) \<Rightarrow> opCaseGate hk e t (pos_of e) c) of
        Some c' \<Rightarrow> case_tests hk K tag es c'
      | None \<Rightarrow>
          let c1 = (case tag of
                None \<Rightarrow> k_expr K e c
              | Some (slot, t, strict) \<Rightarrow>
                  seq [emit OpLocal (int slot) 0 (pos_of e), case_value hk K e,
                    emit OpBinary (binop_number (if strict then BinEqlIface else BinEql)) 0 (pos_of e)] c);
              (js, c2) = case_tests hk K tag es (emit OpJumpTrue 0 0 (pos_of e) c1)
          in (here c1 # js, c2))"

text \<open>
  What the loop over the clauses carries: the jumps out, the fallthroughs of the clause before, the body of the
  default clause, and the jump taken when every test of the last clause has failed.
\<close>

record sw_state =
  sw_outs :: "nat list"
  sw_falls :: "nat list"
  sw_default :: "nat option"
  sw_next :: "nat option"

definition clause_body :: "'t comp \<Rightarrow> node list \<Rightarrow> 't cstate \<Rightarrow> nat list \<times> 't cstate" where
  "clause_body K body c =
     (let c1 = stmts K body (c\<lparr>c_falls := [] # c_falls c, c_inClause := True\<rparr>)
      in (hd (c_falls c1), pop_block (c1\<lparr>c_falls := tl (c_falls c1), c_inClause := False\<rparr>)))"

definition switch_clause ::
    "'t chooks \<Rightarrow> 't comp \<Rightarrow> (nat \<times> node \<times> bool) option \<Rightarrow> bool \<Rightarrow> node \<Rightarrow> sw_state \<Rightarrow> 't cstate \<Rightarrow> sw_state \<times> 't cstate"
where
  "switch_clause hk K tag isLast s st c =
     (let isDefault = (case_exprs s = []);
          (js, c1) = case_tests hk K tag (case_exprs s) c;
          jNext = (if isDefault \<and> isLast then None else Some (here c1));
          c2 = (if isDefault \<and> isLast then c1 else emit OpJump 0 0 (pos_of s) c1);
          start = here c2;
          c3 = patch_all (sw_falls st) start (patch_all js start c2);
          (falls, c4) = clause_body K (case_body s) (push_block c3);
          out = here c4;
          c5 = emit OpJump 0 0 (pos_of s) c4;
          c6 = (case jNext of Some j \<Rightarrow> patchA j (here c5) c5 | None \<Rightarrow> c5)
      in (\<lparr>sw_outs = sw_outs st @ [out], sw_falls = falls, sw_default = (if isDefault then Some start else sw_default st),
           sw_next = (case jNext of Some j \<Rightarrow> Some j | None \<Rightarrow> sw_next st)\<rparr>, c6))"

fun switch_clauses ::
    "'t chooks \<Rightarrow> 't comp \<Rightarrow> (nat \<times> node \<times> bool) option \<Rightarrow> node list \<Rightarrow> sw_state \<Rightarrow> 't cstate \<Rightarrow> sw_state \<times> 't cstate" where
  "switch_clauses hk K tag [] st c = (st, c)"
| "switch_clauses hk K tag (s # ss) st c =
     (let (st', c') = switch_clause hk K tag (ss = []) s st c in switch_clauses hk K tag ss st' c')"

text \<open>Fallthroughs of the last clause go to a trap.\<close>

definition dangling_falls :: "nat \<Rightarrow> nat list \<Rightarrow> 't cstate \<Rightarrow> 't cstate" where
  "dangling_falls pos falls c =
     (if falls = [] then c
      else patch_all falls (here c) (trap pos ''fallthrough out of the final case clause'' c))"

definition switchStmt :: "'t chooks \<Rightarrow> 't comp \<Rightarrow> nat \<Rightarrow> node option \<Rightarrow> node option \<Rightarrow> node \<Rightarrow> 't cstate \<Rightarrow> 't cstate" where
  "switchStmt hk K pos init tag body c =
     (let c1 = seq [push_block, opt_stmt K init] c;
          (t, c2) = (case tag of
              None \<Rightarrow> (None, c1)
            | Some e \<Rightarrow>
                let (x, c2) = fresh ''$tag'' (k_expr K e c1); slot = next_slot c2;
                    c3 = seq [declare_local x 0, emit OpNewLocal (int slot) 0 (pos_of e)] c2
                in (Some (slot, e, isIfaceExpr hk c3 e), c3));
          c3 = open_ctrl False c2;
          (st, c4) = switch_clauses hk K t (block_list body)
            \<lparr>sw_outs = [], sw_falls = [], sw_default = None, sw_next = None\<rparr> c3;
          c5 = (case (sw_default st, sw_next st) of (Some d, Some j) \<Rightarrow> patchA j d c4 | _ \<Rightarrow> c4);
          c6 = dangling_falls pos (sw_falls st) c5;
          c7 = patch_all (sw_outs st) (here c6) c6
      in pop_block (close_ctrl c7))"

text \<open>
  A type switch: every test leaves the value its clause binds on the stack. \<open>subj\<close> and \<open>x\<close> are the operand and the
  name of \<open>switch x := subj.(type)\<close>.
\<close>

definition type_switch_parts :: "node \<Rightarrow> node option \<times> string" where
  "type_switch_parts a =
     (case a of
        ExprStmt m e \<Rightarrow> ((case e of TypeAssertExpr m' y t \<Rightarrow> Some y | _ \<Rightarrow> None), [])
      | AssignStmt m lhs tok rhs \<Rightarrow>
          ((case rhs of [TypeAssertExpr m' y t] \<Rightarrow> Some y | _ \<Rightarrow> None),
           (case lhs of Ident m' x # _ \<Rightarrow> x | _ \<Rightarrow> []))
      | _ \<Rightarrow> (None, []))"

fun type_tests :: "'t comp \<Rightarrow> nat \<Rightarrow> node list \<Rightarrow> 't cstate \<Rightarrow> nat list \<times> 't cstate" where
  "type_tests K slot [] c = ([], c)"
| "type_tests K slot (e # es) c =
     (let pos = pos_of e;
          is_nil = (case e of Ident m x \<Rightarrow> x = ''nil'' | _ \<Rightarrow> False);
          c1 = (if is_nil
            then seq [emit OpLocal (int slot) 0 pos, emit OpLocal (int slot) 0 pos, emit OpNil 0 0 pos,
              emit OpBinary (binop_number BinEql) 0 pos] c
            else seq [emit OpLocal (int slot) 0 pos, k_type K e, emit OpAssertOK 0 0 pos, emit3 OpUnpack 2 0 0 pos] c);
          (js, c2) = type_tests K slot es (seq [emit OpJumpTrue 0 0 pos, emit OpPop 0 0 pos] c1)
      in (here c1 # js, c2))"

definition bind_subject :: "string \<Rightarrow> nat \<Rightarrow> 't cstate \<Rightarrow> 't cstate" where
  "bind_subject x pos c =
     (if x \<noteq> [] \<and> x \<noteq> ''_'' then emit OpNewLocal (int (next_slot c)) 0 pos (declare_local x pos c)
      else emit OpPop 0 0 pos c)"

definition type_clause :: "'t comp \<Rightarrow> nat \<Rightarrow> string \<Rightarrow> node \<Rightarrow> sw_state \<Rightarrow> 't cstate \<Rightarrow> sw_state \<times> 't cstate" where
  "type_clause K slot x s st c =
     (let (js, c1) = type_tests K slot (case_exprs s) c;
          jNext = here c1;
          c2 = emit OpJump 0 0 (pos_of s) c1;
          start = here c2;
          c3 = patch_all (sw_falls st) start (patch_all js start c2);
          (falls, c4) = clause_body K (case_body s) (bind_subject x (pos_of s) (push_block c3));
          out = here c4;
          c5 = emit OpJump 0 0 (pos_of s) c4
      in (st\<lparr>sw_outs := sw_outs st @ [out], sw_falls := falls\<rparr>, patchA jNext (here c5) c5))"

text \<open>The default clause is compiled last, and only if it has statements.\<close>

fun type_clauses :: "'t comp \<Rightarrow> nat \<Rightarrow> string \<Rightarrow> node list \<Rightarrow> sw_state \<Rightarrow> 't cstate \<Rightarrow> sw_state \<times> 't cstate" where
  "type_clauses K slot x [] st c = (st, c)"
| "type_clauses K slot x (s # ss) st c =
     (if case_exprs s = [] then type_clauses K slot x ss st c
      else let (st', c') = type_clause K slot x s st c in type_clauses K slot x ss st' c')"

definition default_bodies :: "node list \<Rightarrow> node list list" where
  "default_bodies ss = map case_body (filter (\<lambda>s. case_exprs s = []) ss)"

definition type_default :: "'t comp \<Rightarrow> nat \<Rightarrow> string \<Rightarrow> nat \<Rightarrow> node list \<Rightarrow> 't cstate \<Rightarrow> 't cstate" where
  "type_default K slot x pos body c =
     (let c1 = push_block c;
          c2 = (if x \<noteq> [] \<and> x \<noteq> ''_''
            then (let s = next_slot c1
                  in seq [declare_local x pos, emit OpLocal (int slot) 0 pos, emit OpNewLocal (int s) 0 pos] c1)
            else c1)
      in pop_block (stmts K body c2))"

definition typeSwitchStmt :: "'t comp \<Rightarrow> nat \<Rightarrow> node option \<Rightarrow> node \<Rightarrow> node \<Rightarrow> 't cstate \<Rightarrow> 't cstate" where
  "typeSwitchStmt K pos init a body c =
     (let c1 = seq [push_block, opt_stmt K init] c; (subj, x) = type_switch_parts a in
      case subj of
        None \<Rightarrow> pop_block (trap pos ''type switch without a type assertion'' c1)
      | Some e \<Rightarrow>
          let (tn, c2) = fresh ''$tsubj'' (k_expr K e c1); slot = next_slot c2;
              c3 = open_ctrl False (seq [declare_local tn 0, emit OpNewLocal (int slot) 0 (pos_of e)] c2);
              (st, c4) = type_clauses K slot x (block_list body)
                \<lparr>sw_outs = [], sw_falls = [], sw_default = None, sw_next = None\<rparr> c3;
              (falls, c5) = (case rev (default_bodies (block_list body)) of
                  [] \<Rightarrow> (sw_falls st, c4)
                | b # _ \<Rightarrow>
                    if b = [] then (sw_falls st, c4)
                    else ([], type_default K slot x pos b (patch_all (sw_falls st) (here c4) c4)));
              c6 = dangling_falls pos falls c5;
              c7 = patch_all (sw_outs st) (here c6) c6
          in pop_block (close_ctrl c7))"

section \<open>Select\<close>

record sel_case =
  sc_body :: "node list"
  sc_pos :: nat
  sc_chan :: nat
  sc_val :: nat
  sc_lhs :: "node list"
  sc_define :: bool
  sc_send :: bool
  sc_recv :: "node option"

definition arrow_operand :: "node \<Rightarrow> node option" where
  "arrow_operand e = (case e of UnaryExpr m t x \<Rightarrow> if t = ARROW then Some x else None | _ \<Rightarrow> None)"

definition selectRecv :: "node \<Rightarrow> (node \<times> node list \<times> bool) option" where
  "selectRecv comm =
     (case comm of
        ExprStmt m e \<Rightarrow> map_option (\<lambda>x. (x, [], False)) (arrow_operand e)
      | AssignStmt m lhs tok rhs \<Rightarrow>
          (case rhs of [r] \<Rightarrow> map_option (\<lambda>x. (x, lhs, tok = DEFINE)) (arrow_operand r) | _ \<Rightarrow> None)
      | _ \<Rightarrow> None)"

definition comm_body :: "node \<Rightarrow> node list" where
  "comm_body s = (case s of CommClause m comm b \<Rightarrow> b | _ \<Rightarrow> [])"

definition comm_of :: "node \<Rightarrow> node option" where
  "comm_of s = (case s of CommClause m comm b \<Rightarrow> comm | _ \<Rightarrow> None)"

text \<open>The operands of the cases, evaluated once into scratch slots.\<close>

definition scratch_slot :: "'t cstate \<Rightarrow> nat \<times> 't cstate" where
  "scratch_slot c = (let (x, c1) = fresh ''$sel'' c in (next_slot c1, declare_local x 0 c1))"

definition select_case :: "'t comp \<Rightarrow> node \<Rightarrow> node \<Rightarrow> 't cstate \<Rightarrow> sel_case option \<times> 't cstate" where
  "select_case K s comm c =
     (case comm of
        SendStmt m ch v \<Rightarrow>
          (let (cs, c1) = scratch_slot c; (vs, c2) = scratch_slot c1
           in (Some \<lparr>sc_body = comm_body s, sc_pos = pos_of s, sc_chan = cs, sc_val = vs, sc_lhs = [], sc_define = False,
                 sc_send = True, sc_recv = None\<rparr>,
               seq [k_expr K ch, emit OpSetLocal (int cs) 0 (pos_of ch), k_expr K v, emit OpSetLocal (int vs) 0 (pos_of v)] c2))
      | _ \<Rightarrow>
          (case selectRecv comm of
             None \<Rightarrow> (None, trap (pos_of comm) ''unsupported select case'' c)
           | Some (x, lhs, define) \<Rightarrow>
               (let (cs, c1) = scratch_slot c
                in (Some \<lparr>sc_body = comm_body s, sc_pos = pos_of s, sc_chan = cs, sc_val = 0, sc_lhs = lhs,
                      sc_define = define, sc_send = False, sc_recv = Some x\<rparr>,
                    seq [k_expr K x, emit OpSetLocal (int cs) 0 (pos_of x)] c1))))"

fun select_cases :: "'t comp \<Rightarrow> node list \<Rightarrow> 't cstate \<Rightarrow> sel_case list \<times> 't cstate" where
  "select_cases K [] c = ([], c)"
| "select_cases K (s # ss) c =
     (case comm_of s of
        None \<Rightarrow> select_cases K ss c
      | Some comm \<Rightarrow>
          (let (sc, c1) = select_case K s comm c; (scs, c2) = select_cases K ss c1
           in ((case sc of Some sc \<Rightarrow> sc # scs | None \<Rightarrow> scs), c2)))"

definition select_arm :: "sel_case \<Rightarrow> 't cstate \<Rightarrow> 't cstate" where
  "select_arm sc =
     (if sc_send sc
      then seq [emit OpLocal (int (sc_chan sc)) 0 (sc_pos sc), emit OpLocal (int (sc_val sc)) 0 (sc_pos sc),
        emit OpSelArm 0 1 (sc_pos sc)]
      else seq [emit OpLocal (int (sc_chan sc)) 0 (sc_pos sc), emit OpSelArm (int (length (sc_lhs sc))) 0 (sc_pos sc)])"

definition bindRecv :: "'t chooks \<Rightarrow> 't comp \<Rightarrow> node list \<Rightarrow> bool \<Rightarrow> node option \<Rightarrow> 't cstate \<Rightarrow> 't cstate" where
  "bindRecv hk K lhs define ch c =
     (let elem = (if define \<and> lhs \<noteq> [] then (case ch of Some e \<Rightarrow> q_chanElem hk e c | None \<Rightarrow> None) else None) in
      case lhs of
        [] \<Rightarrow> emit OpPop 0 0 0 c
      | [l] \<Rightarrow> seq [storeTarget hk K l define, noteBindVar l elem define] c
      | l # ls \<Rightarrow>
          seq ([emit3 OpUnpack (int (length lhs)) 0 0 0] @ map (\<lambda>l. storeTarget hk K l define) (rev lhs) @
            [noteBindVar l elem define] @ map (\<lambda>l. noteBindVar l bool_type define) ls) c)"

fun select_bodies :: "'t chooks \<Rightarrow> 't comp \<Rightarrow> (nat \<times> sel_case) list \<Rightarrow> 't cstate \<Rightarrow> nat list \<times> 't cstate" where
  "select_bodies hk K [] c = ([], c)"
| "select_bodies hk K ((j, sc) # scs) c =
     (let c1 = push_block (patchA j (here c) c);
          c2 = (if sc_send sc then c1 else bindRecv hk K (sc_lhs sc) (sc_define sc) (sc_recv sc) c1);
          c3 = pop_block (stmts K (sc_body sc) c2);
          (outs, c4) = select_bodies hk K scs (emit OpJump 0 0 (sc_pos sc) c3)
      in (here c3 # outs, c4))"

definition selectStmt :: "'t chooks \<Rightarrow> 't comp \<Rightarrow> nat \<Rightarrow> node \<Rightarrow> 't cstate \<Rightarrow> 't cstate" where
  "selectStmt hk K pos body c =
     (let c1 = open_ctrl False (push_block c);
          clauses = block_list body;
          (cases, c2) = select_cases K clauses c1;
          defaults = filter (\<lambda>s. comm_of s = None) clauses;
          hasDefault = (defaults \<noteq> []);
          c3 = seq (map select_arm cases @ [emit OpSelWait (int (length cases)) (if hasDefault then 1 else 0) pos]) c2;
          table = here c3;
          c4 = seq (map (\<lambda>sc. emit OpJump 0 0 (sc_pos sc)) cases @ (if hasDefault then [emit OpJump 0 0 pos] else [])) c3;
          (outs, c5) = select_bodies hk K (enumerate table cases) c4;
          c6 = (if hasDefault
            then stmts K (comm_body (last defaults)) (patchA (table + length cases) (here c5) c5) else c5);
          c7 = patch_all outs (here c6) c6
      in pop_block (close_ctrl c7))"

section \<open>Jumps\<close>

definition returnStmt :: "'t comp \<Rightarrow> nat \<Rightarrow> node list \<Rightarrow> 't cstate \<Rightarrow> 't cstate" where
  "returnStmt K pos rs c =
     (let results = c_results c; n = length results in
      if rs = []
      then seq (map (\<lambda>(i, slot). if i < n then emitSigTypeCoerce K slot (Some (results ! i)) pos else skip)
          (enumerate 0 (ch_NamedSlots (c_ch c))) @ [emit OpReturn (-1) 0 pos]) c
      else if length rs = 1 \<and> n > 1
      then seq ([k_expr K (hd rs)] @ map (sigTypeExpr K) results @
          [emit OpCoerceN (int n) 0 (pos_of (hd rs)), emit3 OpUnpack (int n) 0 0 pos, emit OpReturn (int n) 0 pos]) c
      else seq (map (\<lambda>(i, r). if i < n then seq [k_expr K r, sigTypeExpr K (results ! i), emit OpCoerceTop 0 0 (pos_of r)]
            else k_expr K r) (enumerate 0 rs) @ [emit OpReturn (int (length rs)) 0 pos]) c)"

text \<open>The first context, innermost first, with a property: the contexts before it, it, and those after.\<close>

fun split_ctrl :: "(ctrl_ctx \<Rightarrow> bool) \<Rightarrow> ctrl_ctx list \<Rightarrow> (ctrl_ctx list \<times> ctrl_ctx \<times> ctrl_ctx list) option" where
  "split_ctrl p [] = None"
| "split_ctrl p (cx # cs) =
     (if p cx then Some ([], cx, cs) else map_option (\<lambda>(a, x, b). (cx # a, x, b)) (split_ctrl p cs))"

definition break_to :: "(ctrl_ctx \<Rightarrow> bool) \<Rightarrow> nat \<Rightarrow> 't cstate \<Rightarrow> 't cstate option" where
  "break_to p pos c =
     map_option (\<lambda>(a, cx, b). emit OpJump 0 0 pos (c\<lparr>c_ctrl := a @ cx\<lparr>cx_breaks := cx_breaks cx @ [here c]\<rparr> # b\<rparr>))
       (split_ctrl p (c_ctrl c))"

definition continue_to :: "(ctrl_ctx \<Rightarrow> bool) \<Rightarrow> nat \<Rightarrow> 't cstate \<Rightarrow> 't cstate option" where
  "continue_to p pos c =
     map_option (\<lambda>(a, cx, b).
         case cx_continueIP cx of
           Some ip \<Rightarrow> emit OpJump (int ip) 0 pos c
         | None \<Rightarrow> emit OpJump 0 0 pos (c\<lparr>c_ctrl := a @ cx\<lparr>cx_continues := cx_continues cx @ [here c]\<rparr> # b\<rparr>))
       (split_ctrl p (c_ctrl c))"

definition goto_label :: "string \<Rightarrow> nat \<Rightarrow> 't cstate \<Rightarrow> 't cstate" where
  "goto_label l pos c =
     (let (blocks, vars) = scopeSnapshot (c_fs c) in
      case c_labels c l of
        Some li \<Rightarrow>
          (case gotoViolation li blocks vars of
             Some why \<Rightarrow> trap pos why c
           | None \<Rightarrow> emit OpJump (int (li_ip li)) 0 pos c)
      | None \<Rightarrow>
          emit OpJump 0 0 pos (c\<lparr>c_pendingGotos := c_pendingGotos c @
            [\<lparr>pg_ins = here c, pg_name = l, pg_pos = pos, pg_blocks = blocks, pg_vars = vars\<rparr>]\<rparr>))"

definition or_trap :: "nat \<Rightarrow> string \<Rightarrow> 't cstate option \<Rightarrow> 't cstate \<Rightarrow> 't cstate" where
  "or_trap pos msg r c = (case r of Some c' \<Rightarrow> c' | None \<Rightarrow> trap pos msg c)"

definition branchStmt :: "nat \<Rightarrow> token \<Rightarrow> node option \<Rightarrow> 't cstate \<Rightarrow> 't cstate" where
  "branchStmt pos tok label c =
     (case label of
        Some ln \<Rightarrow>
          (let l = ident_name ln in
           if tok = BREAK
           then or_trap pos (''break label '' @ l @ '' is not defined'') (break_to (\<lambda>cx. l \<in> set (cx_labels cx)) pos c) c
           else if tok = CONTINUE
           then or_trap pos (''continue label '' @ l @ '' is not defined'')
             (continue_to (\<lambda>cx. cx_isLoop cx \<and> l \<in> set (cx_labels cx)) pos c) c
           else if tok = GOTO then goto_label l pos c
           else if tok = FALLTHROUGH then trap pos ''fallthrough cannot have a label'' c
           else c)
      | None \<Rightarrow>
          if tok = BREAK then or_trap pos ''break outside loop/switch'' (break_to (\<lambda>_. True) pos c) c
          else if tok = CONTINUE then or_trap pos ''continue outside loop'' (continue_to cx_isLoop pos c) c
          else if tok = FALLTHROUGH
          then (if c_inClause c
            then emit OpJump 0 0 pos (c\<lparr>c_falls := (hd (c_falls c) @ [here c]) # tl (c_falls c)\<rparr>)
            else trap pos ''fallthrough outside switch case'' c)
          else c)"

definition is_construct :: "node \<Rightarrow> bool" where
  "is_construct s =
     (case s of
        ForStmt m i e p b \<Rightarrow> True | RangeStmt m k v t x b \<Rightarrow> True | SwitchStmt m i t b \<Rightarrow> True
      | SelectStmt m b \<Rightarrow> True | TypeSwitchStmt m i a b \<Rightarrow> True | _ \<Rightarrow> False)"

definition labeledStmt :: "'t comp \<Rightarrow> nat \<Rightarrow> string \<Rightarrow> node \<Rightarrow> 't cstate \<Rightarrow> 't cstate" where
  "labeledStmt K pos l s c =
     (if l = ''_'' then k_stmt K s c
      else
        let (blocks, vars) = scopeSnapshot (c_fs c);
            li = \<lparr>li_name = l, li_ip = here c, li_blocks = blocks, li_vars = vars\<rparr>;
            c1 = (if c_labels c l = None then c else trap pos (''label '' @ l @ '' redeclared'') c);
            c2 = c1\<lparr>c_labels := (c_labels c1)(l \<mapsto> li)\<rparr>
        in if is_construct s
           then (k_stmt K s (c2\<lparr>c_pendingLabels := c_pendingLabels c2 @ [l]\<rparr>))\<lparr>c_pendingLabels := []\<rparr>
           else k_stmt K s c2)"

section \<open>The switch over statements\<close>

definition callStmt :: "'t chooks \<Rightarrow> 't comp \<Rightarrow> node \<Rightarrow> op \<Rightarrow> nat \<Rightarrow> 't cstate \<Rightarrow> 't cstate" where
  "callStmt hk K ce opc pos =
     (case ce of
        CallExpr m f as \<Rightarrow>
          seq [calleeExpr hk K f, callArgs hk K as, argStatics hk K as,
            emit opc (int (length as)) (callSpread as (q_ellipsis hk ce)) pos]
      | _ \<Rightarrow> crash)"

definition incDec :: "'t comp \<Rightarrow> nat \<Rightarrow> node \<Rightarrow> token \<Rightarrow> 't cstate \<Rightarrow> 't cstate" where
  "incDec K pos x tok =
     (let b = binop_number (if tok = DEC then BinSub else BinAdd);
          one = emit_k OpConst (KUInt 1) 0 pos;
          xe = unparen x in
      case xe of
        Ident m y \<Rightarrow> seq [getRef y (npos m), one, emit OpBinary b 0 pos, setRef y (npos m)]
      | _ \<Rightarrow>
          if storageShape xe False
          then seq [k_ref K False xe, emit OpDup 0 0 (pos_of xe), emit OpDeref 0 0 (pos_of xe), one, emit OpBinary b 0 pos,
            emit OpSetRefs 1 0 pos]
          else trap pos ''++/-- is not supported'')"

definition stmt_body :: "'t chooks \<Rightarrow> 't comp \<Rightarrow> node \<Rightarrow> 't cstate \<Rightarrow> 't cstate" where
  "stmt_body hk K s =
     (case s of
        BlockStmt m ss \<Rightarrow> seq [push_block, stmts K ss, pop_block]
      | ExprStmt m x \<Rightarrow> seq [k_expr K x, emit OpPop 0 0 (npos m)]
      | DeclStmt m d \<Rightarrow> decl_stmt hk K d (npos m)
      | AssignStmt m lhs tok rhs \<Rightarrow> assign hk K lhs tok rhs (npos m)
      | IncDecStmt m x tok \<Rightarrow> incDec K (npos m) x tok
      | IfStmt m i e b el \<Rightarrow> ifStmt K (npos m) i e b el
      | ForStmt m i e p b \<Rightarrow> forStmt K (npos m) i e p b
      | RangeStmt m k v tok x b \<Rightarrow> rangeStmt hk K (npos m) k v tok x b
      | SwitchStmt m i t b \<Rightarrow> switchStmt hk K (npos m) i t b
      | ReturnStmt m rs \<Rightarrow> returnStmt K (npos m) rs
      | BranchStmt m tok l \<Rightarrow> branchStmt (npos m) tok l
      | EmptyStmt m \<Rightarrow> skip
      | DeferStmt m e \<Rightarrow> callStmt hk K e OpDefer (npos m)
      | GoStmt m e \<Rightarrow> callStmt hk K e OpGo (npos m)
      | SendStmt m ch v \<Rightarrow> seq [k_expr K ch, k_expr K v, emit OpSend 0 0 (npos m)]
      | SelectStmt m b \<Rightarrow> selectStmt hk K (npos m) b
      | LabeledStmt m l b \<Rightarrow> labeledStmt K (npos m) (ident_name l) b
      | TypeSwitchStmt m i a b \<Rightarrow> typeSwitchStmt K (npos m) i a b
      | CaseClause m es b \<Rightarrow> trap (npos m) ''case clause outside switch''
      | CommClause m cm b \<Rightarrow> trap (npos m) ''case clause outside switch''
      | _ \<Rightarrow> trap (pos_of s) ''unsupported statement'')"

text \<open>The recursion tied with fuel.\<close>

definition lit_body :: "'t chooks \<Rightarrow> 't comp \<Rightarrow> lit_base \<Rightarrow> nat \<Rightarrow> node \<Rightarrow> 't cstate \<Rightarrow> 't cstate" where
  "lit_body hk K b depth e =
     (case e of CompositeLit m t es \<Rightarrow> compileLit hk K b depth m es | _ \<Rightarrow> crash)"

definition comp_step :: "'t chooks \<Rightarrow> 't comp \<Rightarrow> 't comp" where
  "comp_step hk K =
     \<lparr>k_expr = expr_body hk K, k_type = type_expr hk K, k_ref = refTarget hk K, k_lit = lit_body hk K, k_stmt = stmt_body hk K\<rparr>"

primrec comp_n :: "'t chooks \<Rightarrow> nat \<Rightarrow> 't comp" where
  "comp_n hk 0 =
     \<lparr>k_expr = \<lambda>e. out_of_fuel, k_type = \<lambda>e. out_of_fuel, k_ref = \<lambda>pin e. out_of_fuel, k_lit = \<lambda>b d e. out_of_fuel,
      k_stmt = \<lambda>s. out_of_fuel\<rparr>"
| "comp_n hk (Suc n) = comp_step hk (comp_n hk n)"

section \<open>Whole functions\<close>

text \<open>\<open>recvTypeExpr\<close> rewrites blank type arguments of the receiver; what it makes of the type is an argument.\<close>

definition receiver_field :: "node \<Rightarrow> node option" where
  "receiver_field d =
     (case d of FuncDecl m recv name ft body \<Rightarrow> (case field_list recv of f # _ \<Rightarrow> Some f | [] \<Rightarrow> None) | _ \<Rightarrow> None)"

definition declare_receiver :: "(node option \<Rightarrow> node option) \<Rightarrow> node \<Rightarrow> 't cstate \<Rightarrow> (nat \<times> node option) list \<times> 't cstate" where
  "declare_receiver recvType d c =
     (case receiver_field d of
        None \<Rightarrow> ([], c)
      | Some f \<Rightarrow>
          (let t = recvType (field_type f); (x0, c1) = fresh ''$recv'' c;
               (x, pos) = (case field_names f of
                   n # _ \<Rightarrow> (ident_name n, pos_of n)
                 | [] \<Rightarrow> (x0, case t of Some t \<Rightarrow> pos_of t | None \<Rightarrow> 0));
               slot = next_slot c1
           in (if t = None then [] else [(slot, t)], note_type x t (declare_local x pos c1))))"

definition fd_body :: "node \<Rightarrow> node option" where
  "fd_body d = (case d of FuncDecl m recv name ft body \<Rightarrow> body | _ \<Rightarrow> None)"

text \<open>A declaration without a body returns the zero values of its results.\<close>

definition zero_results :: "'t comp \<Rightarrow> nat \<Rightarrow> 't cstate \<Rightarrow> 't cstate" where
  "zero_results K pos c =
     seq (concat (map (\<lambda>t. [emit OpNil 0 0 pos, sigTypeExpr K t, emit OpCoerceTop 0 0 pos]) (c_results c))) c"

definition function_body :: "'t chooks \<Rightarrow> 't comp \<Rightarrow> (node option \<Rightarrow> node option) \<Rightarrow> node \<Rightarrow> 't cstate \<Rightarrow> 't cstate" where
  "function_body hk K recvType d c =
     (let ft = fd_type d; results = field_list (ft_Results ft);
          iface = (\<lambda>c t. case t of Some t \<Rightarrow> isIfaceTypeExpr hk c t | None \<Rightarrow> False);
          (rc, c1) = declare_receiver recvType d (push_block c);
          (ps, c2) = declare_params iface (field_list (ft_Params ft)) c1;
          nrecv = (if receiver_field d = None then 0 else 1)
      in seq ([set_nparams (nrecv + length ps), emitParamCoerces K (rc @ ps), named_results K iface results,
             set_results results] @
           (case fd_body d of
              Some b \<Rightarrow> map (k_stmt K) (block_list b) @ [resolveGotos]
            | None \<Rightarrow> [zero_results K (end_of d)]) @ [finish_function (end_of d)]) c2)"

definition compileFunc ::
    "'t chooks \<Rightarrow> nat \<Rightarrow> (node option \<Rightarrow> node option) \<Rightarrow> index option \<Rightarrow> string \<Rightarrow> (string \<rightharpoonup> 't) \<Rightarrow> string \<Rightarrow> node \<Rightarrow> 't cstate"
where
  "compileFunc hk n recvType ix pkg binds name d =
     function_body hk (comp_n hk n) recvType d
       \<lparr>c_fs = [newFScope],
        c_ch = \<lparr>ch_Name = name, ch_Code = [], ch_Consts = [], ch_NLocals = 0, ch_NParams = 0, ch_NResults = 0,
          ch_NamedSlots = [], ch_Upvals = [], ch_IsVararg = False, ch_Escapes = 0\<rparr>,
        c_ctrl = [], c_binds = binds, c_index = ix, c_results = [], c_labels = Map.empty, c_pendingGotos = [],
        c_pendingLabels = [], c_falls = [], c_inClause = False, c_symName = pkg @ ''.'' @ name, c_litCount = 0,
        c_iotaVal = None, c_synthSeq = 0, c_funs = [], c_oof = False, c_crash = False\<rparr>"

end
