(* ===== verification/StackTyping.thy ===== *)
theory StackTyping
  imports Machine
begin

text \<open>
  A type system for compiled code: a height of the operand stack for every position, what an instruction takes and
  leaves on each way out (read off the switch of \<open>VM.loop\<close> in \<open>vm/vm.go\<close>), and bounds on its operands. Typed code
  neither takes from an empty stack nor reads past the locals, the captured cells or the constants.
\<close>

section \<open>Effects\<close>

abbreviation arg_A :: "instruction \<Rightarrow> nat" where
  "arg_A ins \<equiv> nat (i_A ins)"

text \<open>What the instruction takes and leaves when the next one runs, or nothing if it never does.\<close>

definition falls_to :: "instruction \<Rightarrow> (nat \<times> nat) option" where
  "falls_to ins =
     (case i_Op ins of
        OpNop \<Rightarrow> Some (0, 0) | OpConst \<Rightarrow> Some (0, 1) | OpNil \<Rightarrow> Some (0, 1) | OpDup \<Rightarrow> Some (1, 2) | OpDup2 \<Rightarrow> Some (2, 4)
      | OpSwap \<Rightarrow> Some (2, 2) | OpRot3 \<Rightarrow> Some (3, 3) | OpPop \<Rightarrow> Some (1, 0)
      | OpNewLocal \<Rightarrow> Some (1, 0) | OpRenewVar \<Rightarrow> Some (0, 0) | OpLocal \<Rightarrow> Some (0, 1) | OpLocalTyp \<Rightarrow> Some (0, 1)
      | OpSetLocal \<Rightarrow> Some (1, 0) | OpLocalRef \<Rightarrow> Some (0, 1) | OpUpval \<Rightarrow> Some (0, 1) | OpUpvalTyp \<Rightarrow> Some (0, 1)
      | OpSetUpval \<Rightarrow> Some (1, 0) | OpUpvalRef \<Rightarrow> Some (0, 1)
      | OpGlobal \<Rightarrow> Some (0, 1) | OpGlobalTyp \<Rightarrow> Some (0, 1) | OpNewGlobal \<Rightarrow> Some (1, 0) | OpSetGlobal \<Rightarrow> Some (1, 0)
      | OpGlobalRef \<Rightarrow> Some (0, 1)
      | OpSelect \<Rightarrow> Some (1, 1) | OpSelectCall \<Rightarrow> Some (1, 1) | OpSetField \<Rightarrow> Some (2, 0) | OpIndex \<Rightarrow> Some (2, 1)
      | OpIndexOK \<Rightarrow> Some (2, 1) | OpSetIndex \<Rightarrow> Some (3, 0) | OpSlice \<Rightarrow> Some (if i_B ins = 1 then 4 else 3, 1)
      | OpDeref \<Rightarrow> Some (1, 1) | OpSetInd \<Rightarrow> Some (2, 0) | OpSetRefs \<Rightarrow> Some (2 * arg_A ins, 0) | OpBox \<Rightarrow> Some (1, 1)
      | OpFieldRef \<Rightarrow> Some (1, 1) | OpIndexRef \<Rightarrow> Some (2, 1) | OpNilPtrCheck \<Rightarrow> Some (1, 1) | OpDerefRef \<Rightarrow> Some (1, 1)
      | OpCall \<Rightarrow> Some (2 * arg_A ins + 1, 1) | OpDefer \<Rightarrow> Some (2 * arg_A ins + 1, 0) | OpGo \<Rightarrow> Some (2 * arg_A ins + 1, 0)
      | OpPack \<Rightarrow> Some (arg_A ins, 1) | OpUnpack \<Rightarrow> Some (1, arg_A ins)
      | OpMakeComposite \<Rightarrow> Some ((if i_B ins = 1 then 2 * arg_A ins else arg_A ins) + 1, 1)
      | OpMakeClosure \<Rightarrow> Some (0, 1) | OpEvalAST \<Rightarrow> Some (0, 1) | OpSpecialCall \<Rightarrow> Some (0, 1)
      | OpBinary \<Rightarrow> Some (2, 1) | OpUnary \<Rightarrow> Some (1, 1)
      | OpJump \<Rightarrow> None | OpJumpFalse \<Rightarrow> Some (1, 0) | OpJumpTrue \<Rightarrow> Some (1, 0)
      | OpLenIdxFold \<Rightarrow> Some (2, 2) | OpLenDerefFold \<Rightarrow> Some (2, if i_B ins = 0 then 1 else 2) | OpLenCallFold \<Rightarrow> Some (2, 2)
      | OpIter \<Rightarrow> Some (1, 1) | OpRangeNext \<Rightarrow> Some (0, nat (i_C ins) mod 4)
      | OpSend \<Rightarrow> Some (2, 0) | OpRecv \<Rightarrow> Some (1, 1) | OpRecvOK \<Rightarrow> Some (1, 1)
      | OpSelArm \<Rightarrow> Some (if i_B ins = 1 then 2 else 1, 1) | OpSelWait \<Rightarrow> None
      | OpPanic \<Rightarrow> None | OpTrap \<Rightarrow> None | OpReturn \<Rightarrow> None
      | OpAssert \<Rightarrow> Some (if i_B ins = 1 then 3 else 2, 1) | OpAssertOK \<Rightarrow> Some (2, 1)
      | OpInstantiate \<Rightarrow> Some (arg_A ins + 1, 1) | OpElemType \<Rightarrow> Some (1, 1) | OpElemTypeOrNil \<Rightarrow> Some (1, 1)
      | OpLocalType \<Rightarrow> Some (1, 1) | OpFoldArrayLen \<Rightarrow> Some (2, 1)
      | OpCoerce \<Rightarrow> Some (1, 0) | OpCoerceTop \<Rightarrow> Some (2, 1) | OpCoerceN \<Rightarrow> Some (arg_A ins + 1, 1)
      | OpCoerceGlobal \<Rightarrow> Some (1, 0))"

text \<open>The same when it jumps to its operand A.\<close>

definition branches_to :: "instruction \<Rightarrow> (nat \<times> nat) option" where
  "branches_to ins =
     (case i_Op ins of
        OpJump \<Rightarrow> Some (0, 0) | OpJumpFalse \<Rightarrow> Some (1, 0) | OpJumpTrue \<Rightarrow> Some (1, 0) | OpRangeNext \<Rightarrow> Some (0, 0)
      | OpLenIdxFold \<Rightarrow> Some (2, 1) | OpLenDerefFold \<Rightarrow> Some (2, 1) | OpLenCallFold \<Rightarrow> Some (2, 1)
      | _ \<Rightarrow> None)"

text \<open>
  A select takes its arms and goes to the jump after it that belongs to the arm chosen, leaving a value when the arm
  receives: the arms are those last made before it.
\<close>

definition arms_before :: "instruction list \<Rightarrow> nat \<Rightarrow> nat \<Rightarrow> bool list" where
  "arms_before code i n =
     rev (take n (rev (map (\<lambda>ins. i_B ins = 1) (filter (\<lambda>ins. i_Op ins = OpSelArm) (take i code)))))"

section \<open>Typed code\<close>

definition takes :: "(nat \<times> nat) option \<Rightarrow> nat \<Rightarrow> nat \<Rightarrow> bool" where
  "takes e h h' = (case e of None \<Rightarrow> True | Some (p, q) \<Rightarrow> p \<le> h \<and> h' = h - p + q)"

definition select_ok :: "instruction list \<Rightarrow> nat list \<Rightarrow> nat \<Rightarrow> bool" where
  "select_ok code ht i =
     (let n = arg_A (code ! i); d = (if i_B (code ! i) = 1 then 1 else 0); sends = arms_before code i n in
      n \<le> ht ! i \<and> length sends = n \<and> i + n + d < length ht \<and>
      (\<forall>k < n. ht ! (i + 1 + k) = ht ! i - n + (if sends ! k then 0 else 1)) \<and>
      (d = 1 \<longrightarrow> ht ! (i + 1 + n) = ht ! i - n))"

text \<open>One position of the code; the implicit return at the end may be reached with an empty stack.\<close>

definition flow_ok :: "instruction list \<Rightarrow> nat list \<Rightarrow> nat \<Rightarrow> bool" where
  "flow_ok code ht i =
     (let ins = code ! i; h = ht ! i in
      takes (falls_to ins) h (ht ! Suc i) \<and>
      (branches_to ins \<noteq> None \<longrightarrow> 0 \<le> i_A ins \<and> arg_A ins < length ht \<and> takes (branches_to ins) h (ht ! arg_A ins)) \<and>
      (i_Op ins = OpPanic \<longrightarrow> 0 < h) \<and>
      (i_Op ins = OpReturn \<longrightarrow> arg_A ins \<le> h \<or> Suc i = length code) \<and>
      (i_Op ins = OpSelWait \<longrightarrow> select_ok code ht i))"

text \<open>
  Operands: \<open>nl\<close> locals, \<open>nu\<close> captured cells, the constants \<open>ks\<close>; \<open>nm\<close> tells the constants that are names and \<open>fn\<close>
  what the function a constant stands for captures.
\<close>

definition captures_ok :: "nat \<Rightarrow> nat \<Rightarrow> upval_desc list \<Rightarrow> bool" where
  "captures_ok nl nu ds = list_all (\<lambda>d. uv_Index d < (if FromParentUpval d then nu else nl)) ds"

definition operands_ok ::
    "nat \<Rightarrow> nat \<Rightarrow> ('c \<Rightarrow> bool) \<Rightarrow> ('c \<Rightarrow> upval_desc list option) \<Rightarrow> 'c list \<Rightarrow> instruction \<Rightarrow> bool" where
  "operands_ok nl nu nm fn ks ins =
     (let a = arg_A ins; count = 0 \<le> i_A ins; slot = count \<and> a < nl; upval = count \<and> a < nu; const = count \<and> a < length ks;
          name = const \<and> nm (ks ! a) in
      case i_Op ins of
        OpNewLocal \<Rightarrow> slot | OpRenewVar \<Rightarrow> slot | OpLocal \<Rightarrow> slot | OpLocalTyp \<Rightarrow> slot | OpSetLocal \<Rightarrow> slot
      | OpLocalRef \<Rightarrow> slot | OpCoerce \<Rightarrow> slot
      | OpUpval \<Rightarrow> upval | OpUpvalTyp \<Rightarrow> upval | OpSetUpval \<Rightarrow> upval | OpUpvalRef \<Rightarrow> upval
      | OpConst \<Rightarrow> const | OpTrap \<Rightarrow> const
      | OpMakeClosure \<Rightarrow> const \<and> (case fn (ks ! a) of Some ds \<Rightarrow> captures_ok nl nu ds | None \<Rightarrow> False)
      | OpGlobal \<Rightarrow> name | OpGlobalTyp \<Rightarrow> name | OpNewGlobal \<Rightarrow> name | OpSetGlobal \<Rightarrow> name | OpGlobalRef \<Rightarrow> name
      | OpSelect \<Rightarrow> name | OpSelectCall \<Rightarrow> name | OpSetField \<Rightarrow> name | OpFieldRef \<Rightarrow> name | OpCoerceGlobal \<Rightarrow> name
      | OpRangeNext \<Rightarrow> 0 \<le> i_B ins \<and> nat (i_B ins) < nl
      | OpSetRefs \<Rightarrow> count | OpCall \<Rightarrow> count | OpDefer \<Rightarrow> count | OpGo \<Rightarrow> count | OpPack \<Rightarrow> count | OpUnpack \<Rightarrow> count
      | OpMakeComposite \<Rightarrow> count | OpInstantiate \<Rightarrow> count | OpCoerceN \<Rightarrow> count | OpSelWait \<Rightarrow> count
      | _ \<Rightarrow> True)"

definition chunk_typed :: "('c \<Rightarrow> bool) \<Rightarrow> ('c \<Rightarrow> upval_desc list option) \<Rightarrow> 'c chunk \<Rightarrow> nat list \<Rightarrow> bool" where
  "chunk_typed nm fn ch ht \<longleftrightarrow>
     length ht = Suc (length (ch_Code ch)) \<and> ht ! 0 = 0 \<and>
     (\<forall>i < length (ch_Code ch). flow_ok (ch_Code ch) ht i \<and>
        operands_ok (ch_NLocals ch) (length (ch_Upvals ch)) nm fn (ch_Consts ch) (ch_Code ch ! i)) \<and>
     (\<forall>slot\<in>set (ch_NamedSlots ch). slot < ch_NLocals ch) \<and> ch_NParams ch \<le> ch_NLocals ch"

section \<open>Typed frames of the machine\<close>

definition is_name :: "val \<Rightarrow> bool" where
  "is_name x = (case x of VStr s \<Rightarrow> True | _ \<Rightarrow> False)"

definition captured_by :: "hooks \<Rightarrow> val \<Rightarrow> upval_desc list option" where
  "captured_by hk x = (case x of VFun n \<Rightarrow> Some (ch_Upvals (fn_Chunk (hk_fun hk n))) | _ \<Rightarrow> None)"

definition frame_typed :: "hooks \<Rightarrow> nat list \<Rightarrow> frame \<Rightarrow> bool" where
  "frame_typed hk ht f \<longleftrightarrow>
     chunk_typed is_name (captured_by hk) (fr_ch f) ht \<and> fr_ip f \<le> length (ch_Code (fr_ch f)) \<and>
     (fr_ip f < length (ch_Code (fr_ch f)) \<longrightarrow> length (fr_stack f) = ht ! fr_ip f) \<and>
     length (fr_locals f) = ch_NLocals (fr_ch f) \<and> length (fr_upvals f) = length (ch_Upvals (fr_ch f))"

text \<open>The hooks do not fail with the machine's own host panics.\<close>

definition own_panics :: "string list" where
  "own_panics = [''index out of range'', ''interface conversion'']"

definition foreign :: "failure \<Rightarrow> bool" where
  "foreign e = (case e of FHost msg \<Rightarrow> msg \<notin> set own_panics | _ \<Rightarrow> True)"

definition hooks_quiet :: "hooks \<Rightarrow> bool" where
  "hooks_quiet hk \<longleftrightarrow>
     (\<forall>x e. hk_materialize hk x = Inl e \<longrightarrow> foreign e) \<and> (\<forall>c x e. hk_assign hk c x = Inl e \<longrightarrow> foreign e) \<and>
     (\<forall>o' x y b e. hk_binary hk o' x y b = Inl e \<longrightarrow> foreign e) \<and> (\<forall>o' x e. hk_unary hk o' x = Inl e \<longrightarrow> foreign e)"

section \<open>One step of a typed frame\<close>

text \<open>What an instruction may end in: the next frame has \<open>Q\<close>, whatever a call returns, and no host panic of the machine's own.\<close>

definition well :: "bool \<Rightarrow> (frame \<Rightarrow> bool) \<Rightarrow> action \<Rightarrow> bool" where
  "well fin Q a =
     (case a of
        Next s f \<Rightarrow> Q f
      | Invoke fn args s f \<Rightarrow> (\<forall>r. Q (push r f))
      | Throw e s f \<Rightarrow> e \<in> EHost ` set own_panics \<longrightarrow> fin
      | Stuck \<Rightarrow> True)"

lemma well_simps [simp]:
  "well l Q (Next s f) = Q f"
  "well l Q (Invoke fn args s f) = (\<forall>r. Q (push r f))"
  "well l Q (Throw e s f) = (e \<in> EHost ` set own_panics \<longrightarrow> l)"
  "well l Q Stuck"
  by (auto simp: well_def)

lemma well_or_else: "well l Q a \<Longrightarrow> well l Q b \<Longrightarrow> well l Q (or_else a b)"
  by (cases a) (simp_all add: or_else_def)

lemma well_popn:
  "n \<le> length (fr_stack f) \<Longrightarrow>
   (\<And>xs. length xs = n \<Longrightarrow> well l Q (k xs (f\<lparr>fr_stack := drop n (fr_stack f)\<rparr>))) \<Longrightarrow> well l Q (with_popn n s f k)"
  by (simp add: with_popn_def)

lemma well_pop:
  "0 < length (fr_stack f) \<Longrightarrow> (\<And>x. well l Q (k x (f\<lparr>fr_stack := tl (fr_stack f)\<rparr>))) \<Longrightarrow> well l Q (with_pop s f k)"
  by (auto simp: with_pop_def split: list.splits)

lemma well_at:
  "0 \<le> i \<Longrightarrow> nat i < length xs \<Longrightarrow> well l Q (k (xs ! nat i)) \<Longrightarrow> well l Q (with_at xs i s f k)"
  by (auto simp: with_at_def at_def)

lemma well_failure: "foreign e \<Longrightarrow> well l Q (throw_failure e s f)"
  by (cases e) (auto simp: throw_failure_def raise_val_def new_panic_def foreign_def)

lemma quietD:
  assumes "hooks_quiet hk"
  shows "hk_materialize hk x = Inl e \<Longrightarrow> foreign e"
    and "hk_assign hk c x = Inl e \<Longrightarrow> foreign e"
    and "hk_binary hk o' x y b = Inl e \<Longrightarrow> foreign e"
    and "hk_unary hk o' x = Inl e \<Longrightarrow> foreign e"
  using assms unfolding hooks_quiet_def by simp_all

lemma well_sum:
  "(\<And>e. r = Inl e \<Longrightarrow> foreign e) \<Longrightarrow> (\<And>y. well l Q (k y)) \<Longrightarrow>
   well l Q (case r of Inl e \<Rightarrow> throw_failure e s f | Inr y \<Rightarrow> k y)"
  by (cases r) (simp_all add: well_failure)

lemma well_assign:
  assumes "hooks_quiet hk" and "\<And>s'. well l Q (k s')"
  shows "well l Q (assign_cell hk a x s f k)"
proof (cases "c_ReadOnly (cell_at s a)")
  case True
  then show ?thesis by (auto simp: assign_cell_def)
next
  case False
  have "well l Q (case hk_assign hk (cell_at s a) x of Inl e \<Rightarrow> throw_failure e s f
      | Inr y \<Rightarrow> k (set_elem a (hk_valueCopy hk y) s))"
    by (rule well_sum [OF quietD(2) [OF assms(1)] assms(2)])
  with False show ?thesis by (simp add: assign_cell_def)
qed

lemma well_bind:
  assumes "hooks_quiet hk" and "\<And>y. well l Q (k y)"
  shows "well l Q (bind_value hk ins x s f k)"
  unfolding bind_value_def by (auto intro!: well_sum assms(2) dest: quietD(1) [OF assms(1)])

lemma well_name:
  "0 \<le> i \<Longrightarrow> nat i < length (ch_Consts (fr_ch f)) \<Longrightarrow> is_name (ch_Consts (fr_ch f) ! nat i) \<Longrightarrow> (\<And>x. well l Q (k x)) \<Longrightarrow>
   well l Q (with_name f i s k)"
  by (auto simp: with_name_def is_name_def intro!: well_at split: val.splits)

lemma well_assign_refs: "hooks_quiet hk \<Longrightarrow> Q f \<Longrightarrow> well l Q (assign_refs hk rs s f)"
  by (induction hk rs s f rule: assign_refs.induct) (auto intro!: well_assign split: val.splits)

lemmas well_intros = well_sum well_popn well_pop well_at well_failure well_assign well_bind well_name well_assign_refs

text \<open>A typed frame about to run an instruction.\<close>

definition ready :: "hooks \<Rightarrow> nat list \<Rightarrow> frame \<Rightarrow> instruction \<Rightarrow> bool" where
  "ready hk ht f ins \<longleftrightarrow>
     frame_typed hk ht f \<and> fr_ip f < length (ch_Code (fr_ch f)) \<and> ins = ch_Code (fr_ch f) ! fr_ip f"

lemma ready_flow: "ready hk ht f ins \<Longrightarrow> flow_ok (ch_Code (fr_ch f)) ht (fr_ip f)"
  by (simp add: ready_def frame_typed_def chunk_typed_def)

lemma takes_the: "takes e h h' \<longleftrightarrow> (e \<noteq> None \<longrightarrow> fst (the e) \<le> h \<and> h' = h - fst (the e) + snd (the e))"
  by (auto simp: takes_def split: option.splits)

lemma ready_shape:
  "ready hk ht f ins \<Longrightarrow> length ht = Suc (length (ch_Code (fr_ch f)))"
  "ready hk ht f ins \<Longrightarrow> fr_ip f < length (ch_Code (fr_ch f))"
  "ready hk ht f ins \<Longrightarrow> ht ! fr_ip f = length (fr_stack f)"
  "ready hk ht f ins \<Longrightarrow> ins = ch_Code (fr_ch f) ! fr_ip f"
  by (simp_all add: ready_def frame_typed_def chunk_typed_def)

lemma ready_takes:
  assumes "ready hk ht f ins"
  shows "takes (falls_to ins) (length (fr_stack f)) (ht ! Suc (fr_ip f))"
    and "branches_to ins \<noteq> None \<Longrightarrow>
      arg_A ins < length ht \<and> takes (branches_to ins) (length (fr_stack f)) (ht ! arg_A ins)"
  using ready_flow [OF assms] by (simp_all add: flow_ok_def Let_def ready_shape [OF assms])

lemma ready_operands:
  "ready hk ht f ins \<Longrightarrow>
   operands_ok (length (fr_locals f)) (length (fr_upvals f)) is_name (captured_by hk) (ch_Consts (fr_ch f)) ins"
  by (simp add: ready_def frame_typed_def chunk_typed_def)

lemma ready_frame:
  "ready hk ht f ins \<Longrightarrow> fr_ch f' = fr_ch f \<Longrightarrow> length (fr_locals f') = length (fr_locals f) \<Longrightarrow>
   length (fr_upvals f') = length (fr_upvals f) \<Longrightarrow> fr_ip f' < length ht \<Longrightarrow>
   fr_ip f' < length (ch_Code (fr_ch f)) \<longrightarrow> length (fr_stack f') = ht ! fr_ip f' \<Longrightarrow> frame_typed hk ht f'"
  by (auto simp: ready_def frame_typed_def chunk_typed_def)

lemma ready_next:
  "ready hk ht f ins \<Longrightarrow> falls_to ins \<noteq> None \<Longrightarrow> fr_ch f' = fr_ch f \<Longrightarrow> length (fr_locals f') = length (fr_locals f) \<Longrightarrow>
   length (fr_upvals f') = length (fr_upvals f) \<Longrightarrow> fr_ip f' = Suc (fr_ip f) \<Longrightarrow>
   length (fr_stack f') = length (fr_stack f) - fst (the (falls_to ins)) + snd (the (falls_to ins)) \<Longrightarrow> frame_typed hk ht f'"
  by (rule ready_frame) (auto simp: ready_shape takes_the dest!: ready_takes(1))

lemma ready_needs:
  "ready hk ht f ins \<Longrightarrow> falls_to ins \<noteq> None \<Longrightarrow> fst (the (falls_to ins)) \<le> length (fr_stack f)"
  by (auto simp: takes_the dest!: ready_takes(1))

lemma ready_branch:
  "ready hk ht f ins \<Longrightarrow> branches_to ins \<noteq> None \<Longrightarrow> fr_ch f' = fr_ch f \<Longrightarrow> length (fr_locals f') = length (fr_locals f) \<Longrightarrow>
   length (fr_upvals f') = length (fr_upvals f) \<Longrightarrow> fr_ip f' = nat (i_A ins) \<Longrightarrow>
   length (fr_stack f') = length (fr_stack f) - fst (the (branches_to ins)) + snd (the (branches_to ins)) \<Longrightarrow>
   frame_typed hk ht f'"
  by (rule ready_frame) (auto simp: takes_the ready_shape(1) [symmetric] dest!: ready_takes(2))

lemma ready_leave:
  "ready hk ht f ins \<Longrightarrow> fr_ch f' = fr_ch f \<Longrightarrow> length (fr_locals f') = length (fr_locals f) \<Longrightarrow>
   length (fr_upvals f') = length (fr_upvals f) \<Longrightarrow> fr_ip f' = length (ch_Code (fr_ch f)) \<Longrightarrow> frame_typed hk ht f'"
  by (rule ready_frame) (auto simp: ready_def frame_typed_def chunk_typed_def)

lemma ready_return:
  "ready hk ht f ins \<Longrightarrow> i_Op ins = OpReturn \<Longrightarrow>
   nat (i_A ins) \<le> length (fr_stack f) \<or> Suc (fr_ip f) = length (ch_Code (fr_ch f))"
  by (auto simp: ready_def frame_typed_def chunk_typed_def flow_ok_def Let_def)

lemma ready_panic: "ready hk ht f ins \<Longrightarrow> i_Op ins = OpPanic \<Longrightarrow> 0 < length (fr_stack f)"
  by (auto simp: ready_def frame_typed_def chunk_typed_def flow_ok_def Let_def)

lemma ready_slots:
  "ready hk ht f ins \<Longrightarrow> slot \<in> set (ch_NamedSlots (fr_ch f)) \<Longrightarrow> slot < length (fr_locals f)"
  by (auto simp: ready_def frame_typed_def chunk_typed_def)

abbreviation past :: "frame \<Rightarrow> frame" where
  "past f \<equiv> f\<lparr>fr_ip := Suc (fr_ip f)\<rparr>"

lemmas case_op = op.case well_simps falls_to_def operands_ok_def Let_def option.sel fst_conv snd_conv

lemma typed_stack:
  assumes r: "ready hk ht f ins"
  shows "well l (frame_typed hk ht) (step_stack s (past f) ins)"
  using ready_needs [OF r] ready_operands [OF r]
  by (cases "i_Op ins", simp_all only: step_stack_def case_op)
    (auto simp: push_def out_of_range_def length_Suc_conv falls_to_def
       intro!: well_intros ready_next [OF r] split: list.split)

lemma typed_local:
  assumes r: "ready hk ht f ins" and q: "hooks_quiet hk"
  shows "well l (frame_typed hk ht) (step_local hk s (past f) ins)"
  using ready_needs [OF r] ready_operands [OF r] q
  by (cases "i_Op ins", simp_all only: step_local_def case_op)
    (auto simp: push_def new_cell_def falls_to_def intro!: well_intros ready_next [OF r])

lemma typed_global:
  assumes r: "ready hk ht f ins" and q: "hooks_quiet hk"
  shows "well l (frame_typed hk ht) (step_global hk s (past f) ins)"
  using ready_needs [OF r] ready_operands [OF r] q
  by (cases "i_Op ins", simp_all only: step_global_def case_op)
    (auto simp: push_def new_cell_def falls_to_def intro!: well_intros ready_next [OF r] split: option.split val.split)

lemma typed_refs:
  assumes r: "ready hk ht f ins" and q: "hooks_quiet hk"
  shows "well l (frame_typed hk ht) (step_refs hk s (past f) ins)"
  using ready_needs [OF r] ready_operands [OF r] q
  by (cases "i_Op ins", simp_all only: step_refs_def set_refs_def do_box_def case_op)
    (auto simp: push_def new_cell_def falls_to_def intro!: well_intros ready_next [OF r])

lemma capture_total:
  "captures_ok (length (fr_locals f)) (length (fr_upvals f)) ds \<Longrightarrow> \<exists>as. capture f ds = Some as"
  by (induction ds) (auto simp: captures_ok_def at_def)

lemma typed_closure:
  assumes r: "ready hk ht f ins" and op: "i_Op ins = OpMakeClosure"
  shows "well l (frame_typed hk ht) (make_closure hk s (past f) ins)"
proof -
  let ?c = "ch_Consts (fr_ch f) ! nat (i_A ins)"
  have a: "0 \<le> i_A ins" "nat (i_A ins) < length (ch_Consts (fr_ch f))"
    and c: "case captured_by hk ?c of Some ds \<Rightarrow> captures_ok (length (fr_locals f)) (length (fr_upvals f)) ds | None \<Rightarrow> False"
    using ready_operands [OF r] op by (simp_all add: operands_ok_def Let_def)
  obtain n where n: "?c = VFun n" using c by (auto simp: captured_by_def split: val.splits option.splits)
  let ?ups = "ch_Upvals (fn_Chunk (hk_fun hk n))"
  obtain as where as: "capture (past f) ?ups = Some as"
    using c n capture_total [of "past f" ?ups] by (auto simp: captured_by_def)
  show ?thesis
    unfolding make_closure_def
    by (rule well_at) (use a op n as in \<open>auto simp: push_def Let_def falls_to_def intro!: ready_next [OF r]\<close>)
qed

lemma typed_call:
  assumes r: "ready hk ht f ins"
  shows "well l (frame_typed hk ht) (step_call hk s (past f) ins)"
proof (cases "i_Op ins = OpMakeClosure")
  case True
  then show ?thesis using typed_closure [OF r] by (simp add: step_call_def)
next
  case False
  then show ?thesis
    using ready_needs [OF r] ready_operands [OF r]
    by (cases "i_Op ins",
        simp_all only: step_call_def do_call_def do_defer_def do_pack_def do_unpack_def pop_args_def case_op)
      (auto simp: push_def falls_to_def own_panics_def intro!: well_intros ready_next [OF r] split: val.split)
qed

lemma tl_Nil: "tl xs = [] \<longleftrightarrow> length xs \<le> 1"
  by (cases xs) auto

lemma typed_jump:
  assumes r: "ready hk ht f ins" and op: "i_Op ins = OpJump \<or> i_Op ins = OpJumpFalse \<or> i_Op ins = OpJumpTrue"
  shows "well l (frame_typed hk ht) (step_flow hk s (past f) ins)"
proof -
  let ?f = "past f\<lparr>fr_stack := tl (fr_stack f)\<rparr>" and ?target = "nat (i_A ins)"
  have jump: "frame_typed hk ht (past f\<lparr>fr_ip := ?target\<rparr>)" if "i_Op ins = OpJump"
    by (rule ready_branch [OF r]) (use that in \<open>simp_all add: branches_to_def\<close>)
  have fall: "frame_typed hk ht ?f" "0 < length (fr_stack f)" if "i_Op ins = OpJumpFalse \<or> i_Op ins = OpJumpTrue"
    using ready_needs [OF r] that by (auto simp: falls_to_def intro!: ready_next [OF r])
  have taken: "frame_typed hk ht (?f\<lparr>fr_ip := ?target\<rparr>)" if "i_Op ins = OpJumpFalse \<or> i_Op ins = OpJumpTrue"
    by (rule ready_branch [OF r]) (use that in \<open>auto simp: branches_to_def\<close>)
  show ?thesis
    using op jump fall taken by (elim disjE) (simp_all add: step_flow_def well_pop)
qed

lemma typed_flow:
  assumes r: "ready hk ht f ins" and q: "hooks_quiet hk"
  shows "well l (frame_typed hk ht) (step_flow hk s (past f) ins)"
proof (cases "i_Op ins = OpJump \<or> i_Op ins = OpJumpFalse \<or> i_Op ins = OpJumpTrue")
  case True
  then show ?thesis by (rule typed_jump [OF r])
next
  case False
  then show ?thesis
    using ready_needs [OF r] q
    by (cases "i_Op ins", simp_all only: step_flow_def case_op)
      (auto simp: push_def falls_to_def tl_Nil intro!: well_intros ready_next [OF r] dest: quietD(3,4))
qed

lemma typed_exit:
  assumes r: "ready hk ht f ins"
  shows "well (i_Op ins = OpReturn \<and> Suc (fr_ip f) = length (ch_Code (fr_ch f))) (frame_typed hk ht) (step_exit s (past f) ins)"
  using ready_needs [OF r] ready_operands [OF r] ready_return [OF r] ready_panic [OF r] ready_slots [OF r]
  by (cases "i_Op ins", simp_all only: step_exit_def case_op)
    (auto simp: push_def falls_to_def out_of_range_def with_popn_def raise_val_def new_panic_def
      intro!: well_intros intro: ready_leave [OF r])

lemma typed_ins:
  assumes "frame_typed hk ht f" and "fr_ip f < length (ch_Code (fr_ch f))" and "hooks_quiet hk"
  shows "well (i_Op (ch_Code (fr_ch f) ! fr_ip f) = OpReturn \<and> Suc (fr_ip f) = length (ch_Code (fr_ch f)))
    (frame_typed hk ht) (step_ins hk s (past f) (ch_Code (fr_ch f) ! fr_ip f))"
proof -
  have "ready hk ht f (ch_Code (fr_ch f) ! fr_ip f)" using assms(1,2) by (simp add: ready_def)
  then show ?thesis
    unfolding step_ins_def using assms(3)
    by (intro well_or_else typed_stack typed_local typed_global typed_refs typed_call typed_flow typed_exit)
qed

text \<open>
  C17: Typed code is sound on the machine: from a typed frame every instruction of the loop leads to a typed frame again,
  at the height the typing gives the position reached, also when it goes on after the value of a call; it never pops an
  empty stack, never reads a local, a captured cell or a constant past the end and never meets a constant of the wrong kind
  (the host panics of the machine itself), the implicit return at the end of a function excepted.
\<close>

theorem typed_step:
  assumes "frame_typed hk ht f" and "fr_ip f < length (ch_Code (fr_ch f))" and "hooks_quiet hk"
  shows "case step_ins hk s (f\<lparr>fr_ip := Suc (fr_ip f)\<rparr>) (ch_Code (fr_ch f) ! fr_ip f) of
      Next s' f' \<Rightarrow> frame_typed hk ht f'
    | Invoke fn args s' f' \<Rightarrow> (\<forall>r. frame_typed hk ht (push r f'))
    | Throw e s' f' \<Rightarrow> e \<in> EHost ` set own_panics \<longrightarrow>
        i_Op (ch_Code (fr_ch f) ! fr_ip f) = OpReturn \<and> Suc (fr_ip f) = length (ch_Code (fr_ch f))
    | Stuck \<Rightarrow> True"
  using typed_ins [OF assms, of s] by (simp add: well_def)

definition ins_at :: "op \<Rightarrow> int \<Rightarrow> instruction" where
  "ins_at opc a = \<lparr>i_Op = opc, i_A = a, i_B = 0, i_C = -1, i_Pos = 0\<rparr>"

text \<open>The frame of \<open>x := true; for x {}; return x\<close> about to test the condition.\<close>

definition loop_chunk :: "val chunk" where
  "loop_chunk =
     \<lparr>ch_Name = ''f'',
      ch_Code = [ins_at OpConst 0, ins_at OpNewLocal 0, ins_at OpLocal 0, ins_at OpJumpFalse 5, ins_at OpJump 2,
        ins_at OpLocal 0, ins_at OpReturn 1, ins_at OpReturn 1],
      ch_Consts = [VBool True], ch_NLocals = 1, ch_NParams = 0, ch_NResults = 1, ch_NamedSlots = [], ch_Upvals = [],
      ch_IsVararg = False, ch_Escapes = 0\<rparr>"

definition loop_frame :: frame where
  "loop_frame =
     \<lparr>fr_fn = 0, fr_name = ''f'', fr_ch = loop_chunk, fr_locals = [0], fr_upvals = [], fr_stack = [VBool False], fr_ip = 3,
      fr_defers = [], fr_retNamed = False, fr_results = [], fr_boundLo = 0, fr_boundHi = 0\<rparr>"

definition plain_hooks :: hooks where
  "plain_hooks =
     \<lparr>hk_fun = (\<lambda>n. \<lparr>fn_Name = ''f'', fn_Qual = [], fn_Recv = [], fn_PtrRecv = False, fn_Chunk = loop_chunk\<rparr>),
      hk_materialize = Inr, hk_valueCopy = (\<lambda>x. x), hk_assign = (\<lambda>c x. Inr x), hk_binary = (\<lambda>opn x y b. Inr x),
      hk_unary = (\<lambda>opn x. Inr x), hk_convert = (\<lambda>n x. Inr x), hk_builtin = (\<lambda>name args. Inr (Inr VNil)),
      hk_global = (\<lambda>name. None), hk_truthy = (\<lambda>n. True), hk_zeroResults = (\<lambda>n. []), hk_declaredTag = (\<lambda>x. None)\<rparr>"

lemma loop_typed: "frame_typed plain_hooks [0, 1, 0, 1, 0, 0, 1, 0, 0] loop_frame" "hooks_quiet plain_hooks"
  by code_simp (simp add: hooks_quiet_def plain_hooks_def)

theorem typed_step_witness:
  "\<forall>s. case step_ins plain_hooks s (loop_frame\<lparr>fr_ip := 4\<rparr>) (ins_at OpJumpFalse 5) of
     Next s' f' \<Rightarrow> fr_ip f' = 5 \<and> frame_typed plain_hooks [0, 1, 0, 1, 0, 0, 1, 0, 0] f'
   | _ \<Rightarrow> False"
proof
  fix s
  have i: "ch_Code (fr_ch loop_frame) ! fr_ip loop_frame = ins_at OpJumpFalse 5" "Suc (fr_ip loop_frame) = 4"
    "fr_ip loop_frame < length (ch_Code (fr_ch loop_frame))"
    by (simp_all add: loop_frame_def loop_chunk_def)
  have "step_ins plain_hooks s (loop_frame\<lparr>fr_ip := 4\<rparr>) (ins_at OpJumpFalse 5) =
      Next s (loop_frame\<lparr>fr_stack := [], fr_ip := 5\<rparr>)"
    by (simp add: step_ins_def or_else_def step_stack_def step_local_def step_global_def step_refs_def step_call_def
      step_flow_def with_pop_def ins_at_def loop_frame_def)
  then show "case step_ins plain_hooks s (loop_frame\<lparr>fr_ip := 4\<rparr>) (ins_at OpJumpFalse 5) of
      Next s' f' \<Rightarrow> fr_ip f' = 5 \<and> frame_typed plain_hooks [0, 1, 0, 1, 0, 0, 1, 0, 0] f' | _ \<Rightarrow> False"
    using typed_step [OF loop_typed(1) i(3) loop_typed(2), where s = s] by (simp add: i)
qed

end
