(* ===== verification/Emission.thy ===== *)
theory Emission
  imports CompileStmt StackTyping
begin

text \<open>
  When code being compiled is well typed: the positions emitted so far have heights of the operand stack, except that
  a jump still to be patched (a hole) has the height its target must have. \<open>leads\<close> says that a step of the compiler
  extends typed code and takes the stack from one height to another; its rules follow the ways the compiler builds code.
\<close>

section \<open>The source programs\<close>

text \<open>The statements compiled in the same clause of a switch as the statement they are part of.\<close>

definition same_clause :: "node \<Rightarrow> node list" where
  "same_clause s =
     (case s of
        BlockStmt m ss \<Rightarrow> ss
      | IfStmt m i e b el \<Rightarrow> opt i @ [b] @ opt el
      | ForStmt m i e p b \<Rightarrow> opt i @ opt p @ [b]
      | RangeStmt m k v tok x b \<Rightarrow> [b]
      | LabeledStmt m l b \<Rightarrow> [b]
      | SwitchStmt m i t b \<Rightarrow> opt i
      | TypeSwitchStmt m i a b \<Rightarrow> opt i @ [b]
      | SelectStmt m b \<Rightarrow> [b]
      | CaseClause m es b \<Rightarrow> b
      | CommClause m cm b \<Rightarrow> b
      | _ \<Rightarrow> [])"

lemma same_clause_children: "set (same_clause s) \<subseteq> set (children s)"
  by (cases s) (auto simp: same_clause_def)

definition is_fallthrough :: "node \<Rightarrow> bool" where
  "is_fallthrough s = (case s of BranchStmt m tok l \<Rightarrow> tok = FALLTHROUGH \<and> l = None | _ \<Rightarrow> False)"

function falls_free :: "node \<Rightarrow> bool" where
  "falls_free s \<longleftrightarrow> \<not> is_fallthrough s \<and> list_all falls_free (same_clause s)"
  by pat_completeness auto
termination
  by (relation "measure size") (use same_clause_children size_children in \<open>auto\<close>)

declare falls_free.simps [simp del]

text \<open>
  What the compiler relies on the checker for: an assignment has a value for each target or one for all, and no clause
  of a type switch falls through.
\<close>

definition local_ok :: "node \<Rightarrow> bool" where
  "local_ok n =
     (case n of
        AssignStmt m lhs tok rhs \<Rightarrow> length rhs = length lhs \<or> length rhs = 1 \<and> 1 < length lhs
      | TypeSwitchStmt m i a b \<Rightarrow> list_all (\<lambda>s. list_all falls_free (case_body s)) (block_list b)
      | _ \<Rightarrow> True)"

definition well_formed :: "node \<Rightarrow> bool" where
  "well_formed n = list_all local_ok (preorder n)"

lemma well_formed_iff: "well_formed n \<longleftrightarrow> local_ok n \<and> (\<forall>c\<in>set (children n). well_formed c)"
  unfolding well_formed_def by (subst preorder_children) (auto simp: list_all_iff)

lemma well_formed_child: "well_formed n \<Longrightarrow> c \<in> set (children n) \<Longrightarrow> well_formed c"
  using well_formed_iff by blast

section \<open>Typed code with holes\<close>

abbreviation code :: "'t cstate \<Rightarrow> instruction list" where
  "code c \<equiv> ch_Code (c_ch c)"

definition settled :: "instruction list \<Rightarrow> nat list \<Rightarrow> nat \<Rightarrow> bool" where
  "settled is ht i =
     (let ins = is ! i; h = ht ! i in
      takes (falls_to ins) h (ht ! Suc i) \<and>
      (branches_to ins \<noteq> None \<longrightarrow> 0 \<le> i_A ins \<and> arg_A ins < length ht \<and> takes (branches_to ins) h (ht ! arg_A ins)) \<and>
      (i_Op ins = OpPanic \<longrightarrow> 0 < h) \<and>
      (i_Op ins = OpReturn \<longrightarrow> arg_A ins \<le> h) \<and>
      (i_Op ins = OpSelWait \<longrightarrow> select_ok is ht i))"

definition hole_ok :: "instruction list \<Rightarrow> nat list \<Rightarrow> nat \<Rightarrow> nat \<Rightarrow> bool" where
  "hole_ok is ht i t \<longleftrightarrow>
     i < length is \<and> branches_to (is ! i) \<noteq> None \<and> takes (falls_to (is ! i)) (ht ! i) (ht ! Suc i) \<and>
     takes (branches_to (is ! i)) (ht ! i) t"

text \<open>The holes the state records: all jumps between statements, where the stack is empty.\<close>

definition recorded :: "'t cstate \<Rightarrow> nat set" where
  "recorded c =
     (\<Union>cx\<in>set (c_ctrl c). set (cx_breaks cx) \<union> set (cx_continues cx)) \<union> \<Union> (set ` set (c_falls c)) \<union>
     pg_ins ` set (c_pendingGotos c)"

definition holes :: "(nat \<times> nat) set \<Rightarrow> 't cstate \<Rightarrow> (nat \<times> nat) set" where
  "holes L c = L \<union> recorded c \<times> {0}"

definition at_zero :: "nat list \<Rightarrow> nat \<Rightarrow> bool" where
  "at_zero ht ip \<longleftrightarrow> ip < length ht \<and> ht ! ip = 0"

definition flows :: "(nat \<times> nat) set \<Rightarrow> 't cstate \<Rightarrow> nat list \<Rightarrow> bool" where
  "flows L c ht \<longleftrightarrow>
     length ht = Suc (here c) \<and> ht ! 0 = 0 \<and>
     (\<forall>i < here c. settled (code c) ht i \<or> i \<in> fst ` holes L c) \<and>
     (\<forall>(i, t)\<in>holes L c. hole_ok (code c) ht i t) \<and>
     (\<forall>li\<in>ran (c_labels c). at_zero ht (li_ip li)) \<and>
     (\<forall>cx\<in>set (c_ctrl c). \<forall>ip. cx_continueIP cx = Some ip \<longrightarrow> at_zero ht ip)"

section \<open>Bounds on operands\<close>

definition name_const :: "'t konst \<Rightarrow> bool" where
  "name_const k = (case k of KStr s \<Rightarrow> True | _ \<Rightarrow> False)"

definition fun_upvals :: "'t konst chunk list \<Rightarrow> 't konst \<Rightarrow> upval_desc list option" where
  "fun_upvals fs k = (case k of KFun j \<Rightarrow> if j < length fs then Some (ch_Upvals (fs ! j)) else None | _ \<Rightarrow> None)"

definition scope_bound :: "'t fscope \<Rightarrow> bool" where
  "scope_bound s \<longleftrightarrow>
     fs_blocks s \<noteq> [] \<and> (\<forall>b\<in>set (fs_blocks s). \<forall>r\<in>ran (map_of b). b_slot r < fs_nlocals s) \<and>
     (\<forall>i. fs_iota s = Some i \<longrightarrow> i < fs_nlocals s) \<and> (\<forall>i\<in>ran (fs_upmap s). i < length (fs_upvals s))"

fun scopes_bound :: "'t scopes \<Rightarrow> bool" where
  "scopes_bound [] = True"
| "scopes_bound (s # ps) \<longleftrightarrow>
     scope_bound s \<and>
     (case ps of [] \<Rightarrow> fs_upvals s = []
      | p # _ \<Rightarrow> captures_ok (fs_nlocals p) (length (fs_upvals p)) (fs_upvals s)) \<and>
     scopes_bound ps"

definition funs_typed :: "'t konst chunk list \<Rightarrow> bool" where
  "funs_typed fs \<longleftrightarrow> (\<forall>f\<in>set fs. \<exists>ht. chunk_typed name_const (fun_upvals fs) f ht)"

abbreviation ins_bound :: "'t cstate \<Rightarrow> instruction \<Rightarrow> bool" where
  "ins_bound c \<equiv> operands_ok (next_slot c) (length (fs_upvals (cur_scope c))) name_const (fun_upvals (c_funs c)) (ch_Consts (c_ch c))"

definition bounded :: "'t cstate \<Rightarrow> bool" where
  "bounded c \<longleftrightarrow>
     list_all (ins_bound c) (code c) \<and> c_fs c \<noteq> [] \<and> scopes_bound (c_fs c) \<and>
     (\<forall>slot\<in>set (ch_NamedSlots (c_ch c)). slot < next_slot c) \<and> funs_typed (c_funs c) \<and>
     list_all well_formed (c_results c) \<and> (c_inClause c \<longrightarrow> c_falls c \<noteq> []) \<and> ch_NParams (c_ch c) \<le> next_slot c"

definition typed :: "(nat \<times> nat) set \<Rightarrow> 't cstate \<Rightarrow> nat list \<Rightarrow> bool" where
  "typed L c ht \<longleftrightarrow> flows L c ht \<and> bounded c"

section \<open>Growth\<close>

definition extends :: "'a list \<Rightarrow> 'a list \<Rightarrow> bool" where
  "extends xs ys \<longleftrightarrow> (\<exists>zs. ys = xs @ zs)"

lemma extends_refl [simp]: "extends xs xs"
  by (simp add: extends_def)

lemma extends_trans: "extends xs ys \<Longrightarrow> extends ys zs \<Longrightarrow> extends xs zs"
  by (auto simp: extends_def)

lemma extends_append [simp]: "extends xs (xs @ ys)"
  by (simp add: extends_def)

lemma extends_length: "extends xs ys \<Longrightarrow> length xs \<le> length ys"
  by (auto simp: extends_def)

lemma extends_nth: "extends xs ys \<Longrightarrow> i < length xs \<Longrightarrow> ys ! i = xs ! i"
  by (auto simp: extends_def nth_append)

lemma extends_update: "extends xs ys \<Longrightarrow> length xs \<le> i \<Longrightarrow> extends xs (ys[i := y])"
  by (auto simp: extends_def list_update_append)

definition scope_grows :: "'t fscope \<Rightarrow> 't fscope \<Rightarrow> bool" where
  "scope_grows s s' \<longleftrightarrow>
     fs_nlocals s \<le> fs_nlocals s' \<and> extends (fs_upvals s) (fs_upvals s') \<and>
     list_all2 (\<lambda>b b'. dom (map_of b) \<subseteq> dom (map_of b')) (fs_blocks s) (fs_blocks s')"

text \<open>Jumps recorded since position \<open>n\<close>.\<close>

definition more_from :: "nat \<Rightarrow> nat list \<Rightarrow> nat list \<Rightarrow> bool" where
  "more_from n xs ys \<longleftrightarrow> (\<exists>zs. ys = xs @ zs \<and> (\<forall>i\<in>set zs. n \<le> i))"

text \<open>A construct takes further breaks, and further continues as long as their target is not known.\<close>

definition ctrl_grows :: "nat \<Rightarrow> ctrl_ctx \<Rightarrow> ctrl_ctx \<Rightarrow> bool" where
  "ctrl_grows n cx cx' \<longleftrightarrow>
     cx_isLoop cx' = cx_isLoop cx \<and> (cx_continueIP cx \<noteq> None \<longrightarrow> cx_continueIP cx' = cx_continueIP cx) \<and>
     more_from n (cx_breaks cx) (cx_breaks cx') \<and>
     (if cx_isLoop cx \<and> cx_continueIP cx = None then more_from n (cx_continues cx) (cx_continues cx')
      else cx_continues cx' = cx_continues cx)"

definition falls_grow :: "nat \<Rightarrow> nat list list \<Rightarrow> nat list list \<Rightarrow> bool" where
  "falls_grow n xs ys = (case xs of [] \<Rightarrow> ys = [] | x # xs' \<Rightarrow> (\<exists>y. ys = y # xs' \<and> more_from n x y))"

text \<open>What a step may record: an expression no jumps but breaks and continues, a statement gotos, a clause fallthroughs too.\<close>

datatype reach = InExpr | InStmt | InClause

definition grown :: "reach \<Rightarrow> 't cstate \<Rightarrow> nat list \<Rightarrow> 't cstate \<Rightarrow> nat list \<Rightarrow> bool" where
  "grown b c ht c' ht' \<longleftrightarrow>
     extends ht ht' \<and> extends (code c) (code c') \<and> extends (ch_Consts (c_ch c)) (ch_Consts (c_ch c')) \<and>
     list_all2 scope_grows (c_fs c) (c_fs c') \<and> extends (c_funs c) (c_funs c') \<and>
     list_all2 (ctrl_grows (here c)) (c_ctrl c) (c_ctrl c') \<and>
     (if b = InClause then falls_grow (here c) (c_falls c) (c_falls c') else c_falls c' = c_falls c) \<and>
     (b = InExpr \<longrightarrow> c_pendingGotos c' = c_pendingGotos c)"

lemma more_from_refl [simp]: "more_from n xs xs"
  by (simp add: more_from_def)

lemma more_from_trans: "more_from n xs ys \<Longrightarrow> more_from m ys zs \<Longrightarrow> n \<le> m \<Longrightarrow> more_from n xs zs"
  by (fastforce simp: more_from_def)

lemma ctrl_grows_refl [simp]: "ctrl_grows n cx cx"
  by (simp add: ctrl_grows_def)

lemma ctrl_grows_trans: "ctrl_grows n a b \<Longrightarrow> ctrl_grows m b c \<Longrightarrow> n \<le> m \<Longrightarrow> ctrl_grows n a c"
  unfolding ctrl_grows_def by (auto split: if_splits intro: more_from_trans)

lemma scope_grows_refl [simp]: "scope_grows s s"
  by (simp add: scope_grows_def list_all2_refl)

lemma scope_grows_trans: "scope_grows a b \<Longrightarrow> scope_grows b c \<Longrightarrow> scope_grows a c"
  unfolding scope_grows_def
  by (elim conjE, intro conjI)
    (erule (1) le_trans extends_trans list_all2_trans [rotated] | assumption | rule subset_trans)+

lemma scopes_grow_trans: "list_all2 scope_grows a b \<Longrightarrow> list_all2 scope_grows b c \<Longrightarrow> list_all2 scope_grows a c"
  by (rule list_all2_trans [OF scope_grows_trans])

lemma ctrls_grow_trans:
  "list_all2 (ctrl_grows n) a b \<Longrightarrow> list_all2 (ctrl_grows m) b c \<Longrightarrow> n \<le> m \<Longrightarrow> list_all2 (ctrl_grows n) a c"
  by (rule list_all2_trans [where ?P1.0 = "ctrl_grows n" and ?P2.0 = "ctrl_grows m"]) (auto intro: ctrl_grows_trans)

lemma falls_grow_refl [simp]: "falls_grow n xs xs"
  by (cases xs) (simp_all add: falls_grow_def)

lemma falls_grow_trans: "falls_grow n a b \<Longrightarrow> falls_grow m b c \<Longrightarrow> n \<le> m \<Longrightarrow> falls_grow n a c"
  by (auto simp: falls_grow_def split: list.splits intro: more_from_trans)

lemma grown_refl [simp]: "grown b c ht c ht"
  by (simp add: grown_def list_all2_refl)

lemma grown_here: "grown b c ht c' ht' \<Longrightarrow> here c \<le> here c'"
  by (simp add: grown_def here_def extends_length)

lemma grown_trans:
  assumes "grown b c ht c1 ht1" and "grown b c1 ht1 c2 ht2"
  shows "grown b c ht c2 ht2"
  using assms grown_here [OF assms(1)] unfolding grown_def
  by (auto intro: extends_trans scopes_grow_trans ctrls_grow_trans falls_grow_trans)

lemma grown_weaken: "grown InExpr c ht c' ht' \<Longrightarrow> grown b c ht c' ht'"
  by (auto simp: grown_def list_all2_refl)

lemma grown_slot: "grown b c ht c' ht' \<Longrightarrow> c_fs c \<noteq> [] \<Longrightarrow> next_slot c \<le> next_slot c'"
  by (cases "c_fs c"; cases "c_fs c'") (auto simp: grown_def next_slot_def cur_scope_def scope_grows_def)

section \<open>Typed code stays typed when code is added\<close>

lemma select_ok_append:
  assumes "select_ok is ht i" and "i < length is"
  shows "select_ok (is @ js) (ht @ hs) i"
proof -
  have "arms_before (is @ js) i n = arms_before is i n" for n using assms(2) by (simp add: arms_before_def)
  then show ?thesis using assms by (auto simp: select_ok_def Let_def nth_append)
qed

lemma settled_append:
  "settled is ht i \<Longrightarrow> i < length is \<Longrightarrow> length ht = Suc (length is) \<Longrightarrow> settled (is @ js) (ht @ hs) i"
  unfolding settled_def Let_def by (auto simp: nth_append select_ok_append)

lemma hole_ok_append: "hole_ok is ht i t \<Longrightarrow> length ht = Suc (length is) \<Longrightarrow> hole_ok (is @ js) (ht @ hs) i t"
  by (auto simp: hole_ok_def nth_append)

lemma at_zero_append: "at_zero ht ip \<Longrightarrow> at_zero (ht @ hs) ip"
  by (simp add: at_zero_def nth_append)

lemma last_height: "length ht = Suc n \<Longrightarrow> last ht = ht ! n"
  by (subst last_conv_nth) auto

lemma flows_add:
  assumes f: "flows L c ht" and code: "code c' = code c @ [ins]"
    and falls: "takes (falls_to ins) (last ht) h'"
    and holes: "holes L c \<subseteq> holes L' c'" "holes L' c' \<subseteq> insert (here c, t) (holes L c)"
    and new: "(here c, t) \<in> holes L' c' \<and> branches_to ins \<noteq> None \<and> takes (branches_to ins) (last ht) t \<or>
      settled (code c') (ht @ [h']) (here c) \<and> (here c, t) \<notin> holes L' c'"
    and labels: "ran (c_labels c') = ran (c_labels c)"
    and ctrl: "cx_continueIP ` set (c_ctrl c') = cx_continueIP ` set (c_ctrl c)"
  shows "flows L' c' (ht @ [h'])"
proof -
  have len: "length ht = Suc (length (code c))" using f by (simp add: flows_def here_def)
  then have top: "last ht = ht ! length (code c)" by (rule last_height)
  have old: "settled (code c') (ht @ [h']) i \<or> i \<in> fst ` holes L' c'" if "i < here c" for i
  proof -
    from that f have "settled (code c) ht i \<or> i \<in> fst ` holes L c" by (simp add: flows_def)
    then show ?thesis
      using settled_append [of "code c" ht i "[ins]" "[h']"] that len holes(1) by (auto simp: code here_def)
  qed
  have old_hole: "hole_ok (code c') (ht @ [h']) i u" if "(i, u) \<in> holes L c" for i u
    using f that len by (auto simp: flows_def code intro!: hole_ok_append)
  have ctrl_ips: "at_zero (ht @ [h']) ip" if "cx \<in> set (c_ctrl c')" "cx_continueIP cx = Some ip" for cx ip
  proof -
    have "Some ip \<in> cx_continueIP ` set (c_ctrl c)" using that ctrl by force
    then show ?thesis using f by (auto simp: flows_def intro!: at_zero_append)
  qed
  have new_hole: "hole_ok (code c') (ht @ [h']) (here c) t" if "(here c, t) \<in> holes L' c'"
    using that new falls len top by (auto simp: hole_ok_def code here_def nth_append)
  have all_holes: "hole_ok (code c') (ht @ [h']) i u" if "(i, u) \<in> holes L' c'" for i u
    using that holes(2) old_hole new_hole by blast
  have last_pos: "settled (code c') (ht @ [h']) (here c) \<or> here c \<in> fst ` holes L' c'"
    using new by force
  have "settled (code c') (ht @ [h']) i \<or> i \<in> fst ` holes L' c'" if "i < here c'" for i
  proof (cases "i < here c")
    case False
    then have "i = here c" using that by (simp add: here_def code)
    then show ?thesis using last_pos by simp
  qed (rule old)
  moreover have "at_zero (ht @ [h']) (li_ip li)" if "li \<in> ran (c_labels c')" for li
    using that labels f by (auto simp: flows_def intro!: at_zero_append)
  moreover have "length (ht @ [h']) = Suc (here c')" "(ht @ [h']) ! 0 = 0"
    using f len by (simp_all add: flows_def here_def code nth_append)
  ultimately show ?thesis using all_holes ctrl_ips unfolding flows_def by blast
qed

lemma settled_new:
  assumes "length ht = Suc (length is)" and "takes (falls_to ins) (last ht) h'"
    and "branches_to ins \<noteq> None \<Longrightarrow> 0 \<le> i_A ins \<and> arg_A ins < length ht \<and> takes (branches_to ins) (last ht) (ht ! arg_A ins)"
    and "i_Op ins = OpPanic \<Longrightarrow> 0 < last ht" and "i_Op ins = OpReturn \<Longrightarrow> arg_A ins \<le> last ht" and "i_Op ins \<noteq> OpSelWait"
  shows "settled (is @ [ins]) (ht @ [h']) (length is)"
proof -
  have "last ht = ht ! length is" using assms(1) by (rule last_height)
  then show ?thesis using assms unfolding settled_def Let_def by (auto simp: nth_append)
qed

section \<open>Bounds stay when the state grows\<close>

lemma captures_ok_mono: "captures_ok nl nu ds \<Longrightarrow> nl \<le> nl' \<Longrightarrow> nu \<le> nu' \<Longrightarrow> captures_ok nl' nu' ds"
  unfolding captures_ok_def by (erule list.pred_mono_strong) auto

lemma operands_ok_mono:
  assumes "operands_ok nl nu nm fn ks ins" and "nl \<le> nl'" and "nu \<le> nu'" and "extends ks ks'"
    and "\<And>k ds. fn k = Some ds \<Longrightarrow> fn' k = Some ds"
  shows "operands_ok nl' nu' nm fn' ks' ins"
proof -
  have k: "arg_A ins < length ks \<Longrightarrow> arg_A ins < length ks' \<and> ks' ! arg_A ins = ks ! arg_A ins"
    using assms(4) extends_nth [of ks ks'] extends_length [of ks ks'] by auto
  show ?thesis
  proof (cases "i_Op ins = OpMakeClosure")
    case True
    then obtain ds where "fn (ks ! arg_A ins) = Some ds" "captures_ok nl nu ds" "0 \<le> i_A ins" "arg_A ins < length ks"
      using assms(1) by (auto simp: operands_ok_def Let_def split: option.splits)
    then show ?thesis using True k assms(5) captures_ok_mono [OF _ assms(2,3)] by (simp add: operands_ok_def Let_def)
  next
    case False
    then show ?thesis using assms(1-3) k
      by (cases "i_Op ins"; simp only: operands_ok_def Let_def op.case) auto
  qed
qed

lemma fun_upvals_mono: "fun_upvals fs k = Some ds \<Longrightarrow> extends fs fs' \<Longrightarrow> fun_upvals fs' k = Some ds"
  by (auto simp: fun_upvals_def extends_def nth_append split: konst.splits if_splits)

lemma flow_ok_settled: "settled is ht i \<Longrightarrow> flow_ok is ht i"
  by (auto simp: settled_def flow_ok_def Let_def)

lemma chunk_typed_mono:
  "chunk_typed nm fn ch ht \<Longrightarrow> (\<And>k ds. fn k = Some ds \<Longrightarrow> fn' k = Some ds) \<Longrightarrow> chunk_typed nm fn' ch ht"
  unfolding chunk_typed_def
  using operands_ok_mono [of "ch_NLocals ch" "length (ch_Upvals ch)" nm fn "ch_Consts ch" _ "ch_NLocals ch" "length (ch_Upvals ch)" "ch_Consts ch" fn']
  by auto

lemma funs_typed_append:
  assumes "funs_typed fs" and "chunk_typed name_const (fun_upvals fs) f ht"
  shows "funs_typed (fs @ [f])"
proof -
  have "chunk_typed name_const (fun_upvals (fs @ [f])) g hts" if "chunk_typed name_const (fun_upvals fs) g hts" for g hts
    by (rule chunk_typed_mono [OF that]) (auto intro: fun_upvals_mono)
  then show ?thesis using assms unfolding funs_typed_def by fastforce
qed

text \<open>The state after a step that keeps what the bounds are of.\<close>

lemma ins_bound_grown:
  assumes "ins_bound c ins" and "grown b c ht c' ht'" and "c_fs c \<noteq> []"
  shows "ins_bound c' ins"
proof (rule operands_ok_mono [OF assms(1) grown_slot [OF assms(2,3)]])
  obtain s ps s' ps' where fs: "c_fs c = s # ps" "c_fs c' = s' # ps'" "scope_grows s s'"
    using assms(2,3) by (cases "c_fs c"; cases "c_fs c'") (auto simp: grown_def)
  then show "length (fs_upvals (cur_scope c)) \<le> length (fs_upvals (cur_scope c'))"
    by (simp add: cur_scope_def scope_grows_def extends_length)
qed (use assms(2) in \<open>auto simp: grown_def intro: fun_upvals_mono\<close>)

end
