(* ===== verification/EmitRules.thy ===== *)
theory EmitRules
  imports Emission
begin

text \<open>
  The judgement \<open>leads\<close> on steps of the compiler, and its rules for the ways code is emitted without jumps: sequences,
  instructions with their effects, scopes, blocks and references to names.
\<close>

section \<open>Steps of the compiler\<close>

text \<open>
  A step takes typed code from height \<open>h\<close> to height \<open>h'\<close>, in a function with at least \<open>n\<close> locals, whatever holes the
  constructs around it keep.
\<close>

definition leads :: "reach \<Rightarrow> nat \<Rightarrow> nat \<Rightarrow> nat \<Rightarrow> 't cstate \<Rightarrow> 't cstate \<Rightarrow> bool" where
  "leads b n h h' c c' \<longleftrightarrow>
     (\<forall>L ht. typed L c ht \<longrightarrow> last ht = h \<longrightarrow> n \<le> next_slot c \<longrightarrow>
        (\<exists>ht'. grown b c ht c' ht' \<and> typed L c' ht' \<and> last ht' = h'))"

lemma leadsI:
  "(\<And>L ht. typed L c ht \<Longrightarrow> last ht = h \<Longrightarrow> n \<le> next_slot c \<Longrightarrow>
      \<exists>ht'. grown b c ht c' ht' \<and> typed L c' ht' \<and> last ht' = h') \<Longrightarrow> leads b n h h' c c'"
  by (simp add: leads_def)

lemma leadsE:
  assumes "leads b n h h' c c'" and "typed L c ht" and "last ht = h" and "n \<le> next_slot c"
  obtains ht' where "grown b c ht c' ht'" and "typed L c' ht'" and "last ht' = h'"
  using assms unfolding leads_def by blast

lemma typed_fs: "typed L c ht \<Longrightarrow> c_fs c \<noteq> []"
  by (simp add: typed_def bounded_def)

lemma typed_length: "typed L c ht \<Longrightarrow> length ht = Suc (here c)"
  by (simp add: typed_def flows_def)

lemma leads_refl: "leads b n h h c c"
  by (rule leadsI) (use grown_refl in blast)

lemma leads_trans:
  assumes "leads b n h h1 c c1" and "leads b n h1 h2 c1 c2"
  shows "leads b n h h2 c c2"
proof (rule leadsI)
  fix L ht
  assume t: "typed L c ht" "last ht = h" "n \<le> next_slot c"
  obtain ht1 where 1: "grown b c ht c1 ht1" "typed L c1 ht1" "last ht1 = h1" by (rule leadsE [OF assms(1) t])
  then have "n \<le> next_slot c1" using grown_slot [OF 1(1) typed_fs [OF t(1)]] t(3) by simp
  then obtain ht2 where "grown b c1 ht1 c2 ht2" "typed L c2 ht2" "last ht2 = h2" by (rule leadsE [OF assms(2) 1(2,3)])
  then show "\<exists>ht'. grown b c ht c2 ht' \<and> typed L c2 ht' \<and> last ht' = h2" using 1(1) grown_trans by blast
qed

lemma leads_weaken:
  assumes "leads InExpr n h h' c c'" and "n \<le> m"
  shows "leads b m h h' c c'"
proof (rule leadsI)
  fix L ht
  assume t: "typed L c ht" "last ht = h" "m \<le> next_slot c"
  then have "n \<le> next_slot c" using assms(2) by simp
  then obtain ht' where "grown InExpr c ht c' ht'" "typed L c' ht'" "last ht' = h'" by (rule leadsE [OF assms(1) t(1,2)])
  then show "\<exists>ht'. grown b c ht c' ht' \<and> typed L c' ht' \<and> last ht' = h'" using grown_weaken by blast
qed

lemma leads_seq_Nil: "h' = h \<Longrightarrow> leads b n h h' c (seq [] c)"
  by (simp add: seq_def leads_refl)

lemma leads_seq_Cons:
  "leads b n h h1 c (p c) \<Longrightarrow> (\<And>c. leads b n h1 h2 c (seq ps c)) \<Longrightarrow> leads b n h h2 c (seq (p # ps) c)"
  by (simp add: seq_def leads_trans)

lemma leads_seq_append:
  "leads b n h h1 c (seq ps c) \<Longrightarrow> (\<And>c. leads b n h1 h2 c (seq qs c)) \<Longrightarrow> leads b n h h2 c (seq (ps @ qs) c)"
  by (simp add: seq_def leads_trans)

lemma leads_seq_map:
  "(\<And>x c h. x \<in> set xs \<Longrightarrow> leads b n h (k + h) c (f x c)) \<Longrightarrow> leads b n h (k * length xs + h) c (seq (map f xs) c)"
proof (induction xs arbitrary: h c)
  case Nil
  then show ?case by (simp add: leads_seq_Nil)
next
  case (Cons x xs)
  have "leads b n (k + h) (k * length xs + (k + h)) c (seq (map f xs) c)" for c by (rule Cons.IH) (use Cons.prems in simp)
  then show ?case
    by (simp only: list.map) (rule leads_seq_Cons, rule Cons.prems, simp, simp add: algebra_simps)
qed

lemma leads_skip: "h' = h \<Longrightarrow> leads b n h h' c (skip c)"
  by (simp add: skip_def leads_refl)

section \<open>Added instructions\<close>

definition add_ins :: "instruction \<Rightarrow> 't konst list \<Rightarrow> 't cstate \<Rightarrow> 't cstate" where
  "add_ins ins ks c = c\<lparr>c_ch := (c_ch c)\<lparr>ch_Code := code c @ [ins], ch_Consts := ch_Consts (c_ch c) @ ks\<rparr>\<rparr>"

lemma emit_add:
  "emit opc a b' pos c =
     add_ins \<lparr>i_Op = opc, i_A = a, i_B = b', i_C = (if opc = OpGlobal then sites (code c) else -1), i_Pos = pos\<rparr> [] c"
  by (simp add: emit_def add_ins_def)

lemma emit3_add: "emit3 opc a b' cc pos c = add_ins \<lparr>i_Op = opc, i_A = a, i_B = b', i_C = cc, i_Pos = pos\<rparr> [] c"
  by (simp add: emit3_def add_ins_def)

lemma emit_k_add:
  "emit_k opc k b' pos c =
     add_ins \<lparr>i_Op = opc, i_A = int (length (ch_Consts (c_ch c))), i_B = b', i_C = (if opc = OpGlobal then sites (code c) else -1),
       i_Pos = pos\<rparr> [k] c"
  by (simp add: emit_k_def emit_def add_ins_def)

lemma add_ins_sel [simp]:
  "code (add_ins ins ks c) = code c @ [ins]" "ch_Consts (c_ch (add_ins ins ks c)) = ch_Consts (c_ch c) @ ks"
  "c_fs (add_ins ins ks c) = c_fs c" "c_ctrl (add_ins ins ks c) = c_ctrl c" "c_labels (add_ins ins ks c) = c_labels c"
  "c_falls (add_ins ins ks c) = c_falls c" "c_pendingGotos (add_ins ins ks c) = c_pendingGotos c"
  "c_funs (add_ins ins ks c) = c_funs c" "c_inClause (add_ins ins ks c) = c_inClause c" "c_results (add_ins ins ks c) = c_results c"
  "ch_NamedSlots (c_ch (add_ins ins ks c)) = ch_NamedSlots (c_ch c)" "ch_NParams (c_ch (add_ins ins ks c)) = ch_NParams (c_ch c)"
  "here (add_ins ins ks c) = Suc (here c)" "next_slot (add_ins ins ks c) = next_slot c"
  "cur_scope (add_ins ins ks c) = cur_scope c" "recorded (add_ins ins ks c) = recorded c"
  by (simp_all add: add_ins_def here_def next_slot_def cur_scope_def recorded_def)

lemma grown_add: "grown b c ht (add_ins ins ks c) (ht @ [h'])"
  by (simp add: grown_def list_all2_refl)

lemma bounded_step:
  assumes "bounded c" and "grown b c ht c' ht'" and "code c' = code c @ js" and "list_all (ins_bound c') js"
    and "scopes_bound (c_fs c')" and "\<forall>slot\<in>set (ch_NamedSlots (c_ch c')). slot < next_slot c'" and "funs_typed (c_funs c')"
    and "list_all well_formed (c_results c')" and "c_inClause c' \<longrightarrow> c_falls c' \<noteq> []"
    and "ch_NParams (c_ch c') \<le> next_slot c'"
  shows "bounded c'"
proof -
  have fs: "c_fs c \<noteq> []" using assms(1) by (simp add: bounded_def)
  then have "c_fs c' \<noteq> []" using assms(2) by (auto simp: grown_def)
  moreover have "list_all (ins_bound c') (code c)"
    using assms(1) ins_bound_grown [OF _ assms(2) fs] by (auto simp: bounded_def list_all_iff)
  ultimately show ?thesis using assms(3-) by (simp add: bounded_def)
qed

lemma bounded_add:
  assumes "bounded c" and "ins_bound (add_ins ins ks c) ins"
  shows "bounded (add_ins ins ks c)"
  by (rule bounded_step [OF assms(1) grown_add [of InExpr c "[]" ins ks 0], where js = "[ins]"]) (use assms in \<open>simp_all add: bounded_def\<close>)

text \<open>An instruction that is no jump.\<close>

definition plain :: "nat \<Rightarrow> nat \<Rightarrow> instruction \<Rightarrow> bool" where
  "plain h h' ins \<longleftrightarrow>
     takes (falls_to ins) h h' \<and> branches_to ins = None \<and> (i_Op ins = OpPanic \<longrightarrow> 0 < h) \<and>
     (i_Op ins = OpReturn \<longrightarrow> arg_A ins \<le> h) \<and> i_Op ins \<noteq> OpSelWait"

lemma typed_add:
  assumes "typed L c ht" and "plain (last ht) h' ins" and "ins_bound (add_ins ins ks c) ins"
  shows "typed L (add_ins ins ks c) (ht @ [h'])"
proof -
  have f: "flows L c ht" and b: "bounded c" using assms(1) by (simp_all add: typed_def)
  have len: "length ht = Suc (length (code c))" using typed_length [OF assms(1)] by (simp add: here_def)
  have old: "i < here c" if "(i, u) \<in> holes L c" for i u
    using f that by (auto simp: flows_def hole_ok_def here_def)
  then have nohole: "(here c, 0) \<notin> holes L c" by blast
  have "settled (code c @ [ins]) (ht @ [h']) (length (code c))"
    by (rule settled_new [OF len]) (use assms(2) in \<open>simp_all add: plain_def\<close>)
  then have "flows L (add_ins ins ks c) (ht @ [h'])"
    by (intro flows_add [OF f, where t = 0])
      (use assms(2) nohole in \<open>auto simp: plain_def here_def holes_def\<close>)
  then show ?thesis using bounded_add [OF b assms(3)] by (simp add: typed_def)
qed

lemma leads_add:
  assumes "plain h h' ins" and "n \<le> next_slot c \<Longrightarrow> bounded c \<Longrightarrow> ins_bound (add_ins ins ks c) ins"
  shows "leads b n h h' c (add_ins ins ks c)"
  by (rule leadsI) (use assms grown_add typed_add in \<open>fastforce simp: typed_def\<close>)

text \<open>Instructions without a constant.\<close>

definition after_op :: "nat \<Rightarrow> instruction \<Rightarrow> nat" where
  "after_op h ins = (case falls_to ins of None \<Rightarrow> h | Some (p, q) \<Rightarrow> h - p + q)"

definition emits_ok :: "nat \<Rightarrow> nat \<Rightarrow> instruction \<Rightarrow> bool" where
  "emits_ok n h ins \<longleftrightarrow>
     branches_to ins = None \<and> (case falls_to ins of None \<Rightarrow> False | Some (p, q) \<Rightarrow> p \<le> h) \<and> i_Op ins \<noteq> OpPanic \<and>
     i_Op ins \<noteq> OpReturn \<and> i_Op ins \<noteq> OpSelWait \<and> operands_ok n 0 (\<lambda>_. False) (\<lambda>_. None) ([] :: unit list) ins"

lemma operands_free:
  "operands_ok n 0 (\<lambda>_. False) (\<lambda>_. None) ([] :: unit list) ins \<Longrightarrow> n \<le> nl \<Longrightarrow> operands_ok nl nu nm fn ks ins"
  by (cases "i_Op ins"; simp only: operands_ok_def Let_def op.case) auto

lemma leads_emits:
  "emits_ok n h ins \<Longrightarrow> leads b n h (after_op h ins) c (add_ins ins [] c)"
  by (rule leads_add)
    (auto simp: emits_ok_def plain_def takes_def after_op_def intro: operands_free split: option.splits)

abbreviation plain_ins :: "op \<Rightarrow> int \<Rightarrow> int \<Rightarrow> instruction" where
  "plain_ins opc a b' \<equiv> \<lparr>i_Op = opc, i_A = a, i_B = b', i_C = -1, i_Pos = 0\<rparr>"

text \<open>The instruction \<open>OpRangeNext\<close> is emitted with its count in C, all others without.\<close>

definition next_op :: "nat \<Rightarrow> op \<Rightarrow> int \<Rightarrow> int \<Rightarrow> nat" where
  "next_op h opc a b' = after_op h (plain_ins opc a b')"

definition op_ok :: "nat \<Rightarrow> nat \<Rightarrow> op \<Rightarrow> int \<Rightarrow> int \<Rightarrow> bool" where
  "op_ok n h opc a b' \<longleftrightarrow> opc \<noteq> OpRangeNext \<and> emits_ok n h (plain_ins opc a b')"

lemma effects_free_C:
  "opc \<noteq> OpRangeNext \<Longrightarrow> falls_to \<lparr>i_Op = opc, i_A = a, i_B = b', i_C = cc, i_Pos = pos\<rparr> = falls_to (plain_ins opc a b')"
  "branches_to \<lparr>i_Op = opc, i_A = a, i_B = b', i_C = cc, i_Pos = pos\<rparr> = branches_to (plain_ins opc a b')"
  "operands_ok nl nu nm fn ks \<lparr>i_Op = opc, i_A = a, i_B = b', i_C = cc, i_Pos = pos\<rparr> = operands_ok nl nu nm fn ks (plain_ins opc a b')"
  by (cases opc; simp only: falls_to_def op.case instruction.select_convs simp_thms)
    (cases opc; simp only: branches_to_def operands_ok_def Let_def op.case instruction.select_convs)+


lemma leads_op:
  assumes "op_ok n h opc a b'"
  shows "leads b n h (next_op h opc a b') c (add_ins \<lparr>i_Op = opc, i_A = a, i_B = b', i_C = cc, i_Pos = pos\<rparr> [] c)"
proof -
  let ?ins = "\<lparr>i_Op = opc, i_A = a, i_B = b', i_C = cc, i_Pos = pos\<rparr>"
  have r: "opc \<noteq> OpRangeNext" and e: "emits_ok n h (plain_ins opc a b')" using assms by (simp_all add: op_ok_def)
  have eqs: "falls_to ?ins = falls_to (plain_ins opc a b')" "branches_to ?ins = branches_to (plain_ins opc a b')"
    "operands_ok n 0 (\<lambda>_. False) (\<lambda>_. None) ([] :: unit list) ?ins =
     operands_ok n 0 (\<lambda>_. False) (\<lambda>_. None) ([] :: unit list) (plain_ins opc a b')"
    by (rule effects_free_C r)+
  have "emits_ok n h ?ins" using e unfolding emits_ok_def eqs instruction.select_convs .
  moreover have "after_op h ?ins = next_op h opc a b'" unfolding next_op_def after_op_def eqs ..
  ultimately show ?thesis using leads_emits [of n h ?ins b c] by simp
qed

lemma leads_emit: "op_ok n h opc a b' \<Longrightarrow> leads b n h (next_op h opc a b') c (emit opc a b' pos c)"
  unfolding emit_add by (rule leads_op)

lemma leads_emit3: "op_ok n h opc a b' \<Longrightarrow> leads b n h (next_op h opc a b') c (emit3 opc a b' cc pos c)"
  unfolding emit3_add by (rule leads_op)

text \<open>What the instructions the compiler emits without a constant need and leave.\<close>

lemmas op_effect =
  op_ok_def emits_ok_def next_op_def after_op_def falls_to_def branches_to_def operands_ok_def Let_def op.case
  instruction.select_convs

lemma op_needs [simp]:
  "op_ok n h OpNil a b' \<longleftrightarrow> True" "op_ok n h OpDup a b' \<longleftrightarrow> 1 \<le> h"
  "op_ok n h OpSwap a b' \<longleftrightarrow> 2 \<le> h" "op_ok n h OpRot3 a b' \<longleftrightarrow> 3 \<le> h"
  "op_ok n h OpPop a b' \<longleftrightarrow> 1 \<le> h" "op_ok n h OpIndex a b' \<longleftrightarrow> 2 \<le> h"
  "op_ok n h OpIndexOK a b' \<longleftrightarrow> 2 \<le> h"
  "op_ok n h OpSetIndex a b' \<longleftrightarrow> 3 \<le> h" "op_ok n h OpDeref a b' \<longleftrightarrow> 1 \<le> h"
  "op_ok n h OpSetInd a b' \<longleftrightarrow> 2 \<le> h" "op_ok n h OpBox a b' \<longleftrightarrow> 1 \<le> h"
  "op_ok n h OpIndexRef a b' \<longleftrightarrow> 2 \<le> h"
  "op_ok n h OpNilPtrCheck a b' \<longleftrightarrow> 1 \<le> h"
  "op_ok n h OpDerefRef a b' \<longleftrightarrow> 1 \<le> h"
  "op_ok n h OpBinary a b' \<longleftrightarrow> 2 \<le> h" "op_ok n h OpUnary a b' \<longleftrightarrow> 1 \<le> h"
  "op_ok n h OpIter a b' \<longleftrightarrow> 1 \<le> h" "op_ok n h OpSend a b' \<longleftrightarrow> 2 \<le> h"
  "op_ok n h OpRecv a b' \<longleftrightarrow> 1 \<le> h" "op_ok n h OpRecvOK a b' \<longleftrightarrow> 1 \<le> h"
  "op_ok n h OpAssertOK a b' \<longleftrightarrow> 2 \<le> h"
  "op_ok n h OpElemType a b' \<longleftrightarrow> 1 \<le> h"
  "op_ok n h OpElemTypeOrNil a b' \<longleftrightarrow> 1 \<le> h"
  "op_ok n h OpLocalType a b' \<longleftrightarrow> 1 \<le> h"
  "op_ok n h OpFoldArrayLen a b' \<longleftrightarrow> 2 \<le> h"
  "op_ok n h OpCoerceTop a b' \<longleftrightarrow> 2 \<le> h"
  "op_ok n h OpNewLocal (int i) b' \<longleftrightarrow> 1 \<le> h \<and> i < n"
  "op_ok n h OpLocal (int i) b' \<longleftrightarrow> i < n"
  "op_ok n h OpLocalTyp (int i) b' \<longleftrightarrow> i < n"
  "op_ok n h OpSetLocal (int i) b' \<longleftrightarrow> 1 \<le> h \<and> i < n"
  "op_ok n h OpLocalRef (int i) b' \<longleftrightarrow> i < n"
  "op_ok n h OpCoerce (int i) b' \<longleftrightarrow> 1 \<le> h \<and> i < n"
  "op_ok n h OpSetRefs (int k) b' \<longleftrightarrow> 2 * k \<le> h"
  "op_ok n h OpCall (int k) b' \<longleftrightarrow> 2 * k + 1 \<le> h"
  "op_ok n h OpDefer (int k) b' \<longleftrightarrow> 2 * k + 1 \<le> h"
  "op_ok n h OpGo (int k) b' \<longleftrightarrow> 2 * k + 1 \<le> h"
  "op_ok n h OpInstantiate (int k) b' \<longleftrightarrow> k + 1 \<le> h"
  "op_ok n h OpCoerceN (int k) b' \<longleftrightarrow> k + 1 \<le> h"
  "op_ok n h OpUnpack (int k) b' \<longleftrightarrow> 1 \<le> h"
  "op_ok n h OpSlice a b' \<longleftrightarrow> (if b' = 1 then 4 else 3) \<le> h"
  "op_ok n h OpAssert a b' \<longleftrightarrow> (if b' = 1 then 3 else 2) \<le> h"
  "op_ok n h OpSelArm a b' \<longleftrightarrow> (if b' = 1 then 2 else 1) \<le> h"
  "op_ok n h OpMakeComposite (int k) b' \<longleftrightarrow> (if b' = 1 then 2 * k else k) + 1 \<le> h"
  by (simp_all only: op_effect) auto

lemma op_leaves [simp]:
  "next_op h OpNil a b' = h - 0 + 1" "next_op h OpDup a b' = h - 1 + 2" "next_op h OpSwap a b' = h - 2 + 2"
  "next_op h OpRot3 a b' = h - 3 + 3" "next_op h OpPop a b' = h - 1 + 0" "next_op h OpIndex a b' = h - 2 + 1"
  "next_op h OpIndexOK a b' = h - 2 + 1" "next_op h OpSetIndex a b' = h - 3 + 0" "next_op h OpDeref a b' = h - 1 + 1"
  "next_op h OpSetInd a b' = h - 2 + 0" "next_op h OpBox a b' = h - 1 + 1" "next_op h OpIndexRef a b' = h - 2 + 1"
  "next_op h OpNilPtrCheck a b' = h - 1 + 1" "next_op h OpDerefRef a b' = h - 1 + 1"
  "next_op h OpBinary a b' = h - 2 + 1" "next_op h OpUnary a b' = h - 1 + 1" "next_op h OpIter a b' = h - 1 + 1"
  "next_op h OpSend a b' = h - 2 + 0" "next_op h OpRecv a b' = h - 1 + 1" "next_op h OpRecvOK a b' = h - 1 + 1"
  "next_op h OpAssertOK a b' = h - 2 + 1" "next_op h OpElemType a b' = h - 1 + 1"
  "next_op h OpElemTypeOrNil a b' = h - 1 + 1" "next_op h OpLocalType a b' = h - 1 + 1"
  "next_op h OpFoldArrayLen a b' = h - 2 + 1" "next_op h OpCoerceTop a b' = h - 2 + 1"
  "next_op h OpNewLocal a b' = h - 1 + 0" "next_op h OpLocal a b' = h - 0 + 1" "next_op h OpLocalTyp a b' = h - 0 + 1"
  "next_op h OpSetLocal a b' = h - 1 + 0" "next_op h OpLocalRef a b' = h - 0 + 1"
  "next_op h OpCoerce a b' = h - 1 + 0" "next_op h OpSetRefs (int k) b' = h - (2 * k) + 0"
  "next_op h OpCall (int k) b' = h - (2 * k + 1) + 1" "next_op h OpDefer (int k) b' = h - (2 * k + 1) + 0"
  "next_op h OpGo (int k) b' = h - (2 * k + 1) + 0" "next_op h OpInstantiate (int k) b' = h - (k + 1) + 1"
  "next_op h OpCoerceN (int k) b' = h - (k + 1) + 1" "next_op h OpUnpack (int k) b' = h - (1) + k"
  "next_op h OpSlice a b' = h - (if b' = 1 then 4 else 3) + 1"
  "next_op h OpAssert a b' = h - (if b' = 1 then 3 else 2) + 1"
  "next_op h OpSelArm a b' = h - (if b' = 1 then 2 else 1) + 1"
  "next_op h OpMakeComposite (int k) b' = h - ((if b' = 1 then 2 * k else k) + 1) + 1"
  by (simp_all only: op_effect) auto


text \<open>Instructions with a fresh constant.\<close>

lemma leads_const: "leads b n h (Suc h) c (emit_k OpConst k b' pos c)"
  unfolding emit_k_add
  by (rule leads_add) (simp_all add: plain_def takes_def falls_to_def branches_to_def operands_ok_def)

lemma leads_trap: "leads b n h h' c (trap pos msg c)"
  unfolding trap_def emit_k_add
  by (rule leads_add) (simp_all add: plain_def takes_def falls_to_def branches_to_def operands_ok_def)

definition name_effect :: "op \<Rightarrow> (nat \<times> nat) option" where
  "name_effect opc =
     (case opc of
        OpGlobal \<Rightarrow> Some (0, 1) | OpGlobalTyp \<Rightarrow> Some (0, 1) | OpGlobalRef \<Rightarrow> Some (0, 1) | OpSetGlobal \<Rightarrow> Some (1, 0)
      | OpSelect \<Rightarrow> Some (1, 1) | OpSelectCall \<Rightarrow> Some (1, 1) | OpFieldRef \<Rightarrow> Some (1, 1) | OpSetField \<Rightarrow> Some (2, 0)
      | OpNewGlobal \<Rightarrow> Some (1, 0) | OpCoerceGlobal \<Rightarrow> Some (1, 0)
      | _ \<Rightarrow> None)"

lemma name_effect_ok:
  assumes "name_effect opc = Some e"
  shows "falls_to \<lparr>i_Op = opc, i_A = a, i_B = b', i_C = cc, i_Pos = pos\<rparr> = Some e"
    and "branches_to \<lparr>i_Op = opc, i_A = a, i_B = b', i_C = cc, i_Pos = pos\<rparr> = None"
    and "opc \<noteq> OpPanic \<and> opc \<noteq> OpReturn \<and> opc \<noteq> OpSelWait"
    and "operands_ok nl nu nm fn ks \<lparr>i_Op = opc, i_A = int i, i_B = b', i_C = cc, i_Pos = pos\<rparr> \<longleftrightarrow> i < length ks \<and> nm (ks ! i)"
  using assms
  by (cases opc; simp only: name_effect_def falls_to_def branches_to_def operands_ok_def Let_def op.case instruction.select_convs
      option.distinct op.distinct simp_thms nat_int of_nat_0_le_iff)+

lemma leads_name:
  assumes "name_effect opc = Some (p, q)" and "p \<le> h" and "h' = h - p + q"
  shows "leads b n h h' c (emit_k opc (KStr x) b' pos c)"
  unfolding emit_k_add
  by (rule leads_add) (use assms in \<open>simp_all add: plain_def takes_def name_effect_ok [OF assms(1)] name_const_def\<close>)

lemma name_effect_simps [simp]:
  "name_effect OpGlobal = Some (0, 1)" "name_effect OpGlobalTyp = Some (0, 1)" "name_effect OpGlobalRef = Some (0, 1)"
  "name_effect OpSetGlobal = Some (1, 0)" "name_effect OpSelect = Some (1, 1)" "name_effect OpSelectCall = Some (1, 1)"
  "name_effect OpFieldRef = Some (1, 1)" "name_effect OpSetField = Some (2, 0)"
  "name_effect OpNewGlobal = Some (1, 0)" "name_effect OpCoerceGlobal = Some (1, 0)"
  by (simp_all add: name_effect_def)

section \<open>Scopes\<close>

lemma leads_bounded: "(bounded c \<Longrightarrow> leads b n h h' c c') \<Longrightarrow> leads b n h h' c c'"
  by (rule leadsI) (auto simp: typed_def leads_def)

text \<open>The slots there are may always be used.\<close>

lemma leads_slots: "leads b (next_slot c) h h' c c' \<Longrightarrow> leads b n h h' c c'"
  by (rule leadsI) (simp add: leads_def)

text \<open>The part of the state the judgement is about.\<close>

definition core :: "'t cstate \<Rightarrow> _" where
  "core c =
     (c_ch c, c_fs c, c_ctrl c, c_labels c, c_falls c, c_pendingGotos c, c_funs c, c_results c, c_inClause c)"

lemma typed_core: "core c' = core c \<Longrightarrow> typed L c' ht = typed L c ht"
  by (simp add: core_def typed_def flows_def bounded_def holes_def recorded_def here_def next_slot_def cur_scope_def)

lemma grown_core: "core c' = core c \<Longrightarrow> grown b c ht c' ht"
  by (simp add: core_def grown_def list_all2_refl)

lemma leads_core: "core c' = core c \<Longrightarrow> leads b n h h c c'"
  by (rule leadsI) (use grown_core typed_core in blast)

lemma core_updates [simp]:
  "core (c\<lparr>c_synthSeq := k\<rparr>) = core c" "core (c\<lparr>c_iotaVal := v\<rparr>) = core c" "core (c\<lparr>c_pendingLabels := ls\<rparr>) = core c"
  "core (c\<lparr>c_litCount := k\<rparr>) = core c" "core (c\<lparr>c_oof := p\<rparr>) = core c" "core (c\<lparr>c_crash := p\<rparr>) = core c"
  by (simp_all add: core_def)

lemma typed_scopes:
  assumes "typed L c ht" and "list_all2 scope_grows (c_fs c) fs'" and "scopes_bound fs'"
  shows "typed L (c\<lparr>c_fs := fs'\<rparr>) ht" and "grown b c ht (c\<lparr>c_fs := fs'\<rparr>) ht"
proof -
  have g: "grown b' c ht (c\<lparr>c_fs := fs'\<rparr>) ht" for b' using assms(2) by (simp add: grown_def list_all2_refl)
  then show "grown b c ht (c\<lparr>c_fs := fs'\<rparr>) ht" .
  have b: "bounded c" using assms(1) by (simp add: typed_def)
  have "bounded (c\<lparr>c_fs := fs'\<rparr>)"
    by (rule bounded_step [OF b g, where js = "[]"])
      (use b assms(3) grown_slot [OF g typed_fs [OF assms(1)]] in \<open>auto simp: bounded_def\<close>)
  moreover have "flows L (c\<lparr>c_fs := fs'\<rparr>) ht"
    using assms(1) by (simp add: typed_def flows_def holes_def recorded_def here_def)
  ultimately show "typed L (c\<lparr>c_fs := fs'\<rparr>) ht" by (simp add: typed_def)
qed

lemma leads_scopes:
  "(bounded c \<Longrightarrow> list_all2 scope_grows (c_fs c) fs' \<and> scopes_bound fs') \<Longrightarrow> leads b n h h c (c\<lparr>c_fs := fs'\<rparr>)"
  by (rule leadsI) (use typed_scopes in \<open>fastforce simp: typed_def\<close>)

lemma ran_upd: "r \<in> ran (m(x \<mapsto> v)) \<Longrightarrow> r = v \<or> r \<in> ran m"
  by (auto simp: ran_def split: if_splits)

lemma scope_bound_put:
  assumes "scope_bound s" and "b_slot r < fs_nlocals s"
  shows "scope_bound (put x r s)" and "scope_grows s (put x r s)"
proof -
  obtain b bs where s: "fs_blocks s = b # bs" using assms(1) by (cases "fs_blocks s") (auto simp: scope_bound_def)
  then show "scope_bound (put x r s)"
    using assms by (auto simp: scope_bound_def put_def update_conv' dest!: ran_upd)
  show "scope_grows s (put x r s)" using s by (auto simp: scope_grows_def put_def update_conv' list_all2_refl)
qed

lemma leads_on_scope:
  assumes "\<And>s. scope_bound s \<Longrightarrow> scope_bound (f s) \<and> scope_grows s (f s) \<and> fs_upvals (f s) = fs_upvals s"
  shows "leads b n h h c (on_scope f c)"
proof -
  have "leads b n h h c (c\<lparr>c_fs := (case c_fs c of [] \<Rightarrow> [] | s # ps \<Rightarrow> f s # ps)\<rparr>)"
  proof (rule leads_scopes)
    assume "bounded c"
    then obtain s ps where c: "c_fs c = s # ps" "scopes_bound (s # ps)" by (cases "c_fs c") (auto simp: bounded_def)
    then show "list_all2 scope_grows (c_fs c) (case c_fs c of [] \<Rightarrow> [] | s # ps \<Rightarrow> f s # ps) \<and>
        scopes_bound (case c_fs c of [] \<Rightarrow> [] | s # ps \<Rightarrow> f s # ps)"
      using assms [of s] by (auto simp: list_all2_refl split: list.splits)
  qed
  then show ?thesis by (simp add: on_scope_def)
qed

lemma mark_name_bound:
  assumes "scope_bound s" and "\<And>r. b_slot (f r) = b_slot r"
  shows "scope_bound (mark_name f x s) \<and> scope_grows s (mark_name f x s) \<and> fs_upvals (mark_name f x s) = fs_upvals s"
proof (cases "fs_blocks s")
  case (Cons b bs)
  show ?thesis
  proof (cases "map_of b x")
    case (Some r)
    then have "b_slot r < fs_nlocals s" using assms(1) Cons by (auto simp: scope_bound_def ran_def)
    then show ?thesis using Some Cons scope_bound_put [OF assms(1), of "f r" x] assms(2) by (simp add: mark_name_def)
  qed (use Cons assms(1) in \<open>simp add: mark_name_def\<close>)
qed (use assms(1) in \<open>simp add: mark_name_def\<close>)

lemma leads_marks:
  "leads b n h h c (on_scope (markIface x) c)" "leads b n h h c (on_scope (noteDeclTyp x te) c)"
  "leads b n h h c (on_scope (noteConstDecl x) c)" "leads b n h h c (on_scope (noteUntypedConst x dte) c)"
  "leads b n h h c (on_scope (recordType x ts td i) c)"
proof -
  have id: "scope_bound s \<Longrightarrow> scope_bound s \<and> scope_grows s s \<and> fs_upvals s = fs_upvals s" for s :: "'t fscope" by simp
  show "leads b n h h c (on_scope (markIface x) c)" "leads b n h h c (on_scope (noteConstDecl x) c)"
    "leads b n h h c (on_scope (noteUntypedConst x dte) c)" "leads b n h h c (on_scope (recordType x ts td i) c)"
    by (rule leads_on_scope, simp add: markIface_def noteConstDecl_def noteUntypedConst_def recordType_def mark_name_bound)+
  show "leads b n h h c (on_scope (noteDeclTyp x te) c)"
    by (rule leads_on_scope, cases te) (simp_all add: noteDeclTyp_def mark_name_bound)
qed

lemma declare_bound:
  assumes "scope_bound s"
  shows "scope_bound (snd (fs_declare x pos s)) \<and> scope_grows s (snd (fs_declare x pos s)) \<and>
    fs_upvals (snd (fs_declare x pos s)) = fs_upvals s"
proof -
  let ?s = "s\<lparr>fs_nlocals := fs_nlocals s + 1\<rparr>"
  have b: "scope_bound ?s" "fs_blocks s \<noteq> []" using assms by (auto simp: scope_bound_def less_SucI)
  then have e: "snd (fs_declare x pos s) = put x (bind_at (fs_nlocals s) pos) ?s"
    by (simp add: fs_declare_def Let_def in_some_block_def)
  have "scope_bound (put x (bind_at (fs_nlocals s) pos) ?s)" "scope_grows ?s (put x (bind_at (fs_nlocals s) pos) ?s)"
    by (rule scope_bound_put [OF b(1)]; simp add: bind_at_def)+
  moreover have "scope_grows s ?s" by (simp add: scope_grows_def list_all2_refl)
  ultimately show ?thesis unfolding e using scope_grows_trans by simp
qed

lemma leads_declare: "leads b n h h c (declare_local x pos c)"
  unfolding declare_local_def by (rule leads_on_scope) (rule declare_bound)

lemma next_slot_declare [simp]: "c_fs c \<noteq> [] \<Longrightarrow> next_slot (declare_local x pos c) = Suc (next_slot c)"
  by (cases "c_fs c") (simp_all add: declare_local_def next_slot_def cur_scope_def on_scope_def)

lemma leads_iotaSlot:
  assumes "iotaSlot (cur_scope c) = (slot, s)"
  shows "leads b n h h c (on_scope (\<lambda>_. s) c)" and "bounded c \<Longrightarrow> slot < next_slot (on_scope (\<lambda>_. s) c)"
proof -
  have iota: "scope_bound (snd (iotaSlot s0)) \<and> scope_grows s0 (snd (iotaSlot s0)) \<and> fs_upvals (snd (iotaSlot s0)) = fs_upvals s0 \<and>
      fst (iotaSlot s0) < fs_nlocals (snd (iotaSlot s0))" if "scope_bound s0" for s0 :: "'t fscope"
  proof (cases "fs_iota s0")
    case None
    have d: "scope_bound (snd (fs_declare ''iota'' 0 s0))" "scope_grows s0 (snd (fs_declare ''iota'' 0 s0))"
      using declare_bound [OF that] by blast+
    have "scope_bound (snd (fs_declare ''iota'' 0 s0)\<lparr>fs_iota := Some (fs_nlocals s0)\<rparr>)"
      using d(1) by (simp add: scope_bound_def)
    moreover have "scope_grows s0 (snd (fs_declare ''iota'' 0 s0)\<lparr>fs_iota := Some (fs_nlocals s0)\<rparr>)"
      using d(2) by (simp add: scope_grows_def)
    moreover have "fst (fs_declare ''iota'' 0 s0) = fs_nlocals s0" by simp
    ultimately show ?thesis
      using None by (simp add: iotaSlot_def Let_def case_prod_beta)
  next
    case (Some i)
    then have i: "i < fs_nlocals s0" and ne: "fs_blocks s0 \<noteq> []" using that by (auto simp: scope_bound_def)
    then show ?thesis
      using Some that scope_bound_put [OF that, of "bind_at i 0\<lparr>b_untypedConst := True\<rparr>" "''iota''"]
      by (simp add: iotaSlot_def in_some_block_def bind_at_def)
  qed
  have s: "s = snd (iotaSlot (cur_scope c))" "slot = fst (iotaSlot (cur_scope c))" using assms by simp_all
  show "leads b n h h c (on_scope (\<lambda>_. s) c)"
  proof -
    have "leads b n h h c (c\<lparr>c_fs := (case c_fs c of [] \<Rightarrow> [] | s0 # ps \<Rightarrow> s # ps)\<rparr>)"
    proof (rule leads_scopes)
      assume "bounded c"
      then obtain s0 ps where c: "c_fs c = s0 # ps" "scopes_bound (s0 # ps)" by (cases "c_fs c") (auto simp: bounded_def)
      then show "list_all2 scope_grows (c_fs c) (case c_fs c of [] \<Rightarrow> [] | s0 # ps \<Rightarrow> s # ps) \<and>
          scopes_bound (case c_fs c of [] \<Rightarrow> [] | s0 # ps \<Rightarrow> s # ps)"
        using iota [of s0] s by (auto simp: cur_scope_def list_all2_refl split: list.splits)
    qed
    then show ?thesis by (simp add: on_scope_def)
  qed
  show "slot < next_slot (on_scope (\<lambda>_. s) c)" if b: "bounded c"
  proof -
    obtain s0 ps where "c_fs c = s0 # ps" "scope_bound s0" using b by (cases "c_fs c") (auto simp: bounded_def)
    then show ?thesis using iota [of s0] s by (simp add: on_scope_def next_slot_def cur_scope_def)
  qed
qed

text \<open>Blocks.\<close>

lemma typed_push: "typed L c ht \<Longrightarrow> typed L (push_block c) ht"
proof -
  assume t: "typed L c ht"
  then obtain s ps where c: "c_fs c = s # ps" by (cases "c_fs c") (auto simp: typed_def bounded_def)
  have "scope_bound (pushBlock s)" if "scope_bound s" using that by (auto simp: scope_bound_def pushBlock_def)
  then have "bounded (push_block c)" if "bounded c"
    using that c by (auto simp: bounded_def push_block_def on_scope_def next_slot_def cur_scope_def pushBlock_def split: list.splits)
  moreover have "flows L (push_block c) ht" if "flows L c ht"
    using that by (simp add: flows_def push_block_def on_scope_def holes_def recorded_def here_def)
  ultimately show ?thesis using t by (simp add: typed_def)
qed

lemma push_block_sel [simp]:
  "code (push_block c) = code c" "c_ch (push_block c) = c_ch c" "c_ctrl (push_block c) = c_ctrl c" "c_falls (push_block c) = c_falls c"
  "c_funs (push_block c) = c_funs c" "c_pendingGotos (push_block c) = c_pendingGotos c" "here (push_block c) = here c" "next_slot (push_block c) = next_slot c"
  by (auto simp: push_block_def on_scope_def here_def next_slot_def cur_scope_def pushBlock_def split: list.split)

lemma pop_block_sel [simp]:
  "code (pop_block c) = code c" "c_ch (pop_block c) = c_ch c" "c_ctrl (pop_block c) = c_ctrl c" "c_falls (pop_block c) = c_falls c"
  "c_funs (pop_block c) = c_funs c" "c_pendingGotos (pop_block c) = c_pendingGotos c" "here (pop_block c) = here c" "next_slot (pop_block c) = next_slot c"
  "c_inClause (pop_block c) = c_inClause c"
  by (auto simp: pop_block_def on_scope_def here_def next_slot_def cur_scope_def popBlock_def split: list.split)

lemma grown_pop:
  assumes "grown b (push_block c) ht c' ht'" and "c_fs c \<noteq> []"
  shows "grown b c ht (pop_block c') ht'"
proof -
  obtain s ps where c: "c_fs c = s # ps" using assms(2) by (cases "c_fs c") auto
  then have "c_fs (push_block c) = pushBlock s # ps" by (simp add: push_block_def on_scope_def)
  then obtain s' ps' where c': "c_fs c' = s' # ps'" "scope_grows (pushBlock s) s'" "list_all2 scope_grows ps ps'"
    using assms(1) by (auto simp: grown_def list_all2_Cons1)
  then have "scope_grows s (popBlock s')"
    by (cases "fs_blocks s'") (auto simp: scope_grows_def pushBlock_def popBlock_def)
  then have "list_all2 scope_grows (c_fs c) (c_fs (pop_block c'))" using c c' by (simp add: pop_block_def on_scope_def)
  then show ?thesis using assms(1) by (cases b) (simp_all add: grown_def)
qed

lemma typed_pop:
  assumes "typed L c' ht'" and "grown b (push_block c) ht c' ht'" and "typed L0 c ht"
  shows "typed L (pop_block c') ht'"
proof -
  obtain s ps where c: "c_fs c = s # ps" "fs_blocks s \<noteq> []"
    using assms(3) by (cases "c_fs c") (auto simp: typed_def bounded_def scope_bound_def)
  obtain s' ps' where c': "c_fs c' = s' # ps'" "scope_bound s'" using assms(1) by (cases "c_fs c'") (auto simp: typed_def bounded_def)
  have "length (fs_blocks s') = Suc (length (fs_blocks s))"
    using assms(2) c c' by (auto simp: grown_def push_block_def on_scope_def pushBlock_def scope_grows_def dest: list_all2_lengthD)
  then have "scope_bound (popBlock s')"
    using c'(2) c(2) by (cases "fs_blocks s'") (auto simp: scope_bound_def popBlock_def)
  then have "bounded (pop_block c')" if "bounded c'"
    using that c' by (auto simp: bounded_def pop_block_def on_scope_def next_slot_def cur_scope_def popBlock_def split: list.splits)
  moreover have "flows L (pop_block c') ht'" if "flows L c' ht'"
    using that by (simp add: flows_def pop_block_def on_scope_def holes_def recorded_def here_def)
  ultimately show ?thesis using assms(1) by (simp add: typed_def)
qed

lemma leads_block:
  assumes "leads b n h h' (push_block c) c'"
  shows "leads b n h h' c (pop_block c')"
proof (rule leadsI)
  fix L ht
  assume t: "typed L c ht" "last ht = h" "n \<le> next_slot c"
  then have "n \<le> next_slot (push_block c)" by simp
  then obtain ht' where "grown b (push_block c) ht c' ht'" "typed L c' ht'" "last ht' = h'"
    by (rule leadsE [OF assms typed_push [OF t(1)] t(2)])
  then show "\<exists>ht'. grown b c ht (pop_block c') ht' \<and> typed L (pop_block c') ht' \<and> last ht' = h'"
    using grown_pop typed_pop typed_fs t(1) by blast
qed

section \<open>References\<close>

lemma lookupLocal_bound: "scope_bound s \<Longrightarrow> lookupLocal s x = Some i \<Longrightarrow> i < fs_nlocals s"
proof -
  have "first_binding bs x = Some r \<Longrightarrow> \<exists>b\<in>set bs. r \<in> ran (map_of b)" for bs :: "(string \<times> 'a binding) list list" and r
    by (induction bs) (auto simp: ran_def split: option.splits)
  then show "scope_bound s \<Longrightarrow> lookupLocal s x = Some i \<Longrightarrow> i < fs_nlocals s"
    by (fastforce simp: lookupLocal_def scope_bound_def)
qed

definition ref_ok :: "'t scopes \<Rightarrow> (bool \<times> nat) option \<Rightarrow> bool" where
  "ref_ok ch r =
     (case (ch, r) of
        (s # ps, Some (up, i)) \<Rightarrow> i < (if up then length (fs_upvals s) else fs_nlocals s)
      | (_, None) \<Rightarrow> True | _ \<Rightarrow> False)"

lemma find_name_bound:
  "scopes_bound ch \<Longrightarrow>
   list_all2 scope_grows ch (snd (find_name ch x)) \<and> scopes_bound (snd (find_name ch x)) \<and>
   ref_ok (snd (find_name ch x)) (fst (find_name ch x))"
proof (induction ch x rule: find_name.induct)
  case (2 s ps x)
  then have s: "scope_bound s" "scopes_bound ps" by simp_all
  show ?case
  proof (cases "lookupLocal s x \<noteq> None \<or> fs_upmap s x \<noteq> None \<or> ps = []")
    case True
    then show ?thesis
      using "2.prems" s lookupLocal_bound [OF s(1), of x]
      by (auto simp: list_all2_refl ref_ok_def scope_bound_def ran_def split: option.split)
  next
    case False
    then obtain p ps1 where ps: "ps = p # ps1" by (cases ps) auto
    obtain r ps' where fp: "find_name ps x = (r, ps')" by fastforce
    have IH: "list_all2 scope_grows ps ps'" "scopes_bound ps'" "ref_ok ps' r"
      using "2.IH" False s(2) by (auto simp: fp split: option.splits)
    then obtain p' ps1' where ps': "ps' = p' # ps1'" "scope_grows p p'" by (cases ps') (auto simp: ps)
    have caps: "captures_ok (fs_nlocals p') (length (fs_upvals p')) (fs_upvals s)"
      using "2.prems" ps' by (auto simp: ps scope_grows_def intro: captures_ok_mono extends_length)
    show ?thesis
    proof (cases r)
      case None
      then show ?thesis using False fp IH s caps ps' by (auto simp: ref_ok_def)
    next
      case (Some q)
      obtain up idx where q: "q = (up, idx)" by fastforce
      then have "idx < (if up then length (fs_upvals p') else fs_nlocals p')" using IH(3) Some ps' by (simp add: ref_ok_def)
      moreover have "scope_bound (s\<lparr>fs_upvals := fs_upvals s @ [d], fs_upmap := (fs_upmap s)(x \<mapsto> length (fs_upvals s))\<rparr>)" for d
        using s(1) by (auto simp: scope_bound_def less_SucI dest!: ran_upd)
      moreover have "scope_grows s (s\<lparr>fs_upvals := fs_upvals s @ [d], fs_upmap := m\<rparr>)" for d m
        by (simp add: scope_grows_def list_all2_refl)
      ultimately show ?thesis using False fp IH s caps ps'(1) Some q by (auto simp: ref_ok_def captures_ok_def)
    qed
  qed
qed (simp add: ref_ok_def)

lemma leads_with_ref:
  assumes "\<And>r fs'. ref_ok fs' r \<Longrightarrow> fs' \<noteq> [] \<Longrightarrow> leads b n h h' (c\<lparr>c_fs := fs'\<rparr>) (k r (c\<lparr>c_fs := fs'\<rparr>))"
  shows "leads b n h h' c (with_ref x k c)"
proof (rule leads_bounded)
  assume b: "bounded c"
  let ?fs = "snd (find_name (c_fs c) x)"
  have f: "list_all2 scope_grows (c_fs c) ?fs" "scopes_bound ?fs" "ref_ok ?fs (fst (find_name (c_fs c) x))"
    using find_name_bound b by (auto simp: bounded_def)
  then have "?fs \<noteq> []" using b by (auto simp: bounded_def)
  then have "leads b n h h' (c\<lparr>c_fs := ?fs\<rparr>) (k (fst (find_name (c_fs c) x)) (c\<lparr>c_fs := ?fs\<rparr>))" using assms f(3) by blast
  moreover have "leads b n h h c (c\<lparr>c_fs := ?fs\<rparr>)" by (rule leads_scopes) (use f in blast)
  ultimately show "leads b n h h' c (with_ref x k c)"
    by (simp add: with_ref_def case_prod_beta leads_trans)
qed

lemma leads_captures: "leads b n h h c (captures x c)"
  unfolding captures_def by (rule leads_scopes) (use find_name_bound in \<open>auto simp: bounded_def\<close>)

lemma leads_upval:
  assumes "i < length (fs_upvals (cur_scope c))"
  shows "leads b n h (Suc h) c (emit OpUpval (int i) 0 pos c)" "leads b n h (Suc h) c (emit OpUpvalTyp (int i) 0 pos c)"
    "leads b n h (Suc h) c (emit OpUpvalRef (int i) 0 pos c)" "leads b n (Suc h) h c (emit OpSetUpval (int i) 0 pos c)"
  unfolding emit_add
  by (rule leads_add; use assms in \<open>simp add: plain_def takes_def falls_to_def branches_to_def operands_ok_def\<close>)+

lemma leads_local:
  assumes "i < next_slot c" and "op_ok (next_slot c) h opc (int i) b'"
  shows "leads b n h (next_op h opc (int i) b') c (emit opc (int i) b' pos c)"
  by (rule leads_slots) (rule leads_emit [OF assms(2)])

end
