(* ===== verification/Patches.thy ===== *)
theory Patches
  imports EmitRules
begin

text \<open>
  Holes: jumps emitted before their target is known, and the patches that fill them. Typed code stays typed when a
  hole is patched with a position of the height its target must have.
\<close>

section \<open>Holes and patches\<close>

lemma branch_cases:
  assumes "branches_to ins \<noteq> None"
  obtains "i_Op ins = OpJump" | "i_Op ins = OpJumpFalse" | "i_Op ins = OpJumpTrue" | "i_Op ins = OpRangeNext"
    | "i_Op ins = OpLenIdxFold" | "i_Op ins = OpLenDerefFold" | "i_Op ins = OpLenCallFold"
  using assms by (simp add: branches_to_def split: op.splits)

lemma branch_free_A:
  "branches_to ins \<noteq> None \<Longrightarrow> falls_to (ins\<lparr>i_A := a\<rparr>) = falls_to ins"
  "branches_to (ins\<lparr>i_A := a\<rparr>) = branches_to ins"
  "branches_to ins \<noteq> None \<Longrightarrow> operands_ok nl nu nm fn ks (ins\<lparr>i_A := a\<rparr>) = operands_ok nl nu nm fn ks ins"
proof -
  show "falls_to (ins\<lparr>i_A := a\<rparr>) = falls_to ins" if "branches_to ins \<noteq> None"
    by (rule branch_cases [OF that]) (simp_all add: falls_to_def)
  show "branches_to (ins\<lparr>i_A := a\<rparr>) = branches_to ins" by (simp add: branches_to_def)
  show "operands_ok nl nu nm fn ks (ins\<lparr>i_A := a\<rparr>) = operands_ok nl nu nm fn ks ins" if "branches_to ins \<noteq> None"
    by (rule branch_cases [OF that]) (simp_all add: operands_ok_def)
qed

lemma branch_op: "branches_to ins \<noteq> None \<Longrightarrow> i_Op ins \<notin> {OpPanic, OpReturn, OpSelWait, OpSelArm}"
  by (auto simp: branches_to_def)

lemma arms_before_patch:
  assumes "j < length is"
  shows "arms_before (is[j := (is ! j)\<lparr>i_A := a\<rparr>]) i n = arms_before is i n"
proof -
  have arms: "map (\<lambda>ins. i_B ins = 1) (filter (\<lambda>ins. i_Op ins = OpSelArm) xs) =
      map (\<lambda>p. snd p = 1) (filter (\<lambda>p. fst p = OpSelArm) (map (\<lambda>ins. (i_Op ins, i_B ins)) xs))" for xs
    by (induction xs) auto
  have "map (\<lambda>ins. (i_Op ins, i_B ins)) (is[j := (is ! j)\<lparr>i_A := a\<rparr>]) = map (\<lambda>ins. (i_Op ins, i_B ins)) is"
    using assms by (simp add: map_update) (metis (no_types, lifting) list_update_id nth_map)
  then show ?thesis unfolding arms_before_def arms by (simp add: take_map [symmetric])
qed

lemma select_ok_patch:
  assumes "j < length is" and "i \<noteq> j"
  shows "select_ok (is[j := (is ! j)\<lparr>i_A := a\<rparr>]) ht i = select_ok is ht i"
  using assms by (simp add: select_ok_def arms_before_patch Let_def)

lemma settled_patch_other:
  "j < length is \<Longrightarrow> i \<noteq> j \<Longrightarrow> settled (is[j := (is ! j)\<lparr>i_A := a\<rparr>]) ht i = settled is ht i"
  by (simp add: settled_def Let_def select_ok_patch)

lemma settled_patched:
  assumes "hole_ok is ht i t" and "tgt < length ht" and "ht ! tgt = t"
  shows "settled (is[i := (is ! i)\<lparr>i_A := int tgt\<rparr>]) ht i"
proof -
  have b: "branches_to (is ! i) \<noteq> None" "i < length is" using assms(1) by (simp_all add: hole_ok_def)
  then have "is[i := (is ! i)\<lparr>i_A := int tgt\<rparr>] ! i = (is ! i)\<lparr>i_A := int tgt\<rparr>" by simp
  moreover note branch_free_A [where ins = "is ! i" and a = "int tgt"] branch_op [OF b(1)]
  ultimately show ?thesis using assms b(1) by (auto simp: settled_def Let_def hole_ok_def)
qed

lemma hole_ok_patch: "j < length is \<Longrightarrow> hole_ok (is[j := (is ! j)\<lparr>i_A := a\<rparr>]) ht i t \<longleftrightarrow> hole_ok is ht i t"
  using branch_free_A [where ins = "is ! j" and a = a] by (cases "i = j") (auto simp: hole_ok_def)

lemma patchA_sel [simp]:
  "code (patchA i tgt c) = (code c)[i := (code c ! i)\<lparr>i_A := int tgt\<rparr>]" "c_fs (patchA i tgt c) = c_fs c"
  "c_ctrl (patchA i tgt c) = c_ctrl c" "c_labels (patchA i tgt c) = c_labels c" "c_falls (patchA i tgt c) = c_falls c"
  "c_pendingGotos (patchA i tgt c) = c_pendingGotos c" "c_funs (patchA i tgt c) = c_funs c"
  "c_inClause (patchA i tgt c) = c_inClause c" "c_results (patchA i tgt c) = c_results c" "here (patchA i tgt c) = here c"
  "next_slot (patchA i tgt c) = next_slot c" "cur_scope (patchA i tgt c) = cur_scope c" "recorded (patchA i tgt c) = recorded c"
  "holes L (patchA i tgt c) = holes L c" "ch_Consts (c_ch (patchA i tgt c)) = ch_Consts (c_ch c)"
  "ch_NamedSlots (c_ch (patchA i tgt c)) = ch_NamedSlots (c_ch c)" "ch_NParams (c_ch (patchA i tgt c)) = ch_NParams (c_ch c)"
  by (simp_all add: patchA_def here_def next_slot_def cur_scope_def recorded_def holes_def)

lemma typed_hole_at: "typed L c ht \<Longrightarrow> (i, t) \<in> holes L c \<Longrightarrow> hole_ok (code c) ht i t"
  by (auto simp: typed_def flows_def)

lemma bounded_patch:
  assumes "bounded c" and "branches_to (code c ! i) \<noteq> None" and "i < here c"
  shows "bounded (patchA i tgt c)"
proof -
  have "ins_bound c (code c ! i)" using assms(1,3) by (simp add: bounded_def list_all_length here_def)
  then have "ins_bound c ((code c ! i)\<lparr>i_A := int tgt\<rparr>)" by (rule branch_free_A(3) [OF assms(2), THEN iffD2])
  moreover have "\<forall>x\<in>set (code c). ins_bound c x" using assms(1) by (simp add: bounded_def list_all_iff)
  ultimately have "\<forall>x\<in>set ((code c)[i := (code c ! i)\<lparr>i_A := int tgt\<rparr>]). ins_bound c x"
    using set_update_subset_insert [of "code c" i "(code c ! i)\<lparr>i_A := int tgt\<rparr>"] by blast
  then show ?thesis using assms(1) by (simp add: bounded_def list_all_iff)
qed

lemma typed_patch:
  assumes "typed L c ht" and "(i, t) \<in> holes L c" and "tgt < length ht" and "ht ! tgt = t"
  shows "typed L (patchA i tgt c) ht" and "settled (code (patchA i tgt c)) ht i"
proof -
  have f: "flows L c ht" and b: "bounded c" using assms(1) by (simp_all add: typed_def)
  have h: "hole_ok (code c) ht i t" by (rule typed_hole_at [OF assms(1,2)])
  then have i: "i < length (code c)" "branches_to (code c ! i) \<noteq> None" by (simp_all add: hole_ok_def)
  show s: "settled (code (patchA i tgt c)) ht i" using settled_patched [OF h assms(3,4)] by simp
  have "settled (code (patchA i tgt c)) ht j \<or> j \<in> fst ` holes L c" if "j < here c" for j
    using f that s settled_patch_other [OF i(1), of j] by (cases "j = i") (auto simp: flows_def)
  then have "flows L (patchA i tgt c) ht"
    using f hole_ok_patch [OF i(1)] by (auto simp: flows_def)
  then show "typed L (patchA i tgt c) ht" using bounded_patch [OF b i(2)] i(1) by (simp add: typed_def here_def)
qed

text \<open>A position that is settled stays so, whatever is patched.\<close>

lemma settled_keeps:
  assumes "typed L c ht" and "(i, t) \<in> holes L c" and "tgt < length ht" and "ht ! tgt = t" and "settled (code c) ht j"
  shows "settled (code (patchA i tgt c)) ht j"
proof (cases "j = i")
  case True
  then show ?thesis using typed_patch(2) [OF assms(1-4)] by simp
next
  case False
  have "i < length (code c)" using typed_hole_at [OF assms(1,2)] by (simp add: hole_ok_def)
  then show ?thesis using settled_patch_other [of i "code c" j] False assms(5) by simp
qed

lemma typed_settle:
  assumes "typed (insert (i, t) L) c ht" and "settled (code c) ht i"
  shows "typed L c ht"
  using assms unfolding typed_def flows_def holes_def by fastforce

lemma typed_patch_hole:
  assumes "typed (insert (i, t) L) c ht" and "tgt < length ht" and "ht ! tgt = t"
  shows "typed L (patchA i tgt c) ht"
proof -
  have "(i, t) \<in> holes (insert (i, t) L) c" by (simp add: holes_def)
  then show ?thesis using typed_patch [OF assms(1) _ assms(2,3)] typed_settle by blast
qed

lemma patch_all_simps [simp]:
  "patch_all [] tgt c = c" "patch_all (i # is) tgt c = patch_all is tgt (patchA i tgt c)"
  by (simp_all add: patch_all_def)

lemma patch_all_sel [simp]:
  "c_fs (patch_all is tgt c) = c_fs c" "c_ctrl (patch_all is tgt c) = c_ctrl c" "c_labels (patch_all is tgt c) = c_labels c"
  "c_falls (patch_all is tgt c) = c_falls c" "c_pendingGotos (patch_all is tgt c) = c_pendingGotos c"
  "c_funs (patch_all is tgt c) = c_funs c" "c_inClause (patch_all is tgt c) = c_inClause c"
  "c_results (patch_all is tgt c) = c_results c" "here (patch_all is tgt c) = here c"
  "next_slot (patch_all is tgt c) = next_slot c" "cur_scope (patch_all is tgt c) = cur_scope c"
  "recorded (patch_all is tgt c) = recorded c" "holes L (patch_all is tgt c) = holes L c"
  "ch_Consts (c_ch (patch_all is tgt c)) = ch_Consts (c_ch c)" "ch_NamedSlots (c_ch (patch_all is tgt c)) = ch_NamedSlots (c_ch c)"
  "ch_NParams (c_ch (patch_all is tgt c)) = ch_NParams (c_ch c)"
  by (induction "is" arbitrary: c) simp_all

lemma typed_patch_all:
  assumes "typed L c ht" and "\<forall>i\<in>set is. (i, t) \<in> holes L c" and "tgt < length ht" and "ht ! tgt = t"
  shows "typed L (patch_all is tgt c) ht" and "\<forall>i\<in>set is. settled (code (patch_all is tgt c)) ht i"
    and "settled (code c) ht j \<Longrightarrow> settled (code (patch_all is tgt c)) ht j"
proof -
  have "typed L (patch_all is tgt c) ht \<and> (\<forall>i\<in>set is \<union> J. settled (code (patch_all is tgt c)) ht i)"
    if "\<forall>i\<in>J. settled (code c) ht i" for J
    using that assms(1,2)
  proof (induction "is" arbitrary: c J)
    case (Cons i "is")
    have i: "(i, t) \<in> holes L c" using Cons.prems by simp
    note p = typed_patch [OF Cons.prems(2) i assms(3,4)]
    have "\<forall>j\<in>insert i J. settled (code (patchA i tgt c)) ht j"
      using Cons.prems(1) p(2) settled_keeps [OF Cons.prems(2) i assms(3,4)] by blast
    from Cons.IH [OF this p(1)] show ?case using Cons.prems(3) by simp
  qed simp
  then show "typed L (patch_all is tgt c) ht" "\<forall>i\<in>set is. settled (code (patch_all is tgt c)) ht i"
    "settled (code c) ht j \<Longrightarrow> settled (code (patch_all is tgt c)) ht j"
    by (metis Un_iff empty_iff insertI1 singletonD)+
qed

text \<open>Local holes, all with the same target.\<close>

lemma typed_patch_holes:
  assumes "typed (set is \<times> {t} \<union> L) c ht" and "tgt < length ht" and "ht ! tgt = t"
  shows "typed L (patch_all is tgt c) ht"
proof -
  have "\<forall>i\<in>set is. (i, t) \<in> holes (set is \<times> {t} \<union> L) c" by (simp add: holes_def)
  note p = typed_patch_all [OF assms(1) this assms(2,3)]
  have f: "flows (set is \<times> {t} \<union> L) (patch_all is tgt c) ht" using p(1) by (simp add: typed_def)
  have "settled (code (patch_all is tgt c)) ht i \<or> i \<in> fst ` holes L c" if "i < here c" for i
  proof -
    have "settled (code (patch_all is tgt c)) ht i \<or> i \<in> fst ` holes (set is \<times> {t} \<union> L) c"
      using f that by (simp add: flows_def)
    then show ?thesis using p(2) by (auto simp: holes_def)
  qed
  then have "flows L (patch_all is tgt c) ht" using f by (auto simp: flows_def holes_def)
  then show ?thesis using p(1) by (simp add: typed_def)
qed

lemma grown_patch:
  assumes "grown b c ht c' ht'" and "here c \<le> i"
  shows "grown b c ht (patchA i tgt c') ht'"
  using assms by (cases b) (simp_all add: grown_def here_def extends_update)

lemma grown_patch_all:
  assumes "grown b c ht c' ht'" and "\<forall>i\<in>set is. here c \<le> i"
  shows "grown b c ht (patch_all is tgt c') ht'"
  using assms by (induction "is" arbitrary: c') (simp_all add: grown_patch)

section \<open>Jumps\<close>

lemma hole_position: "typed L c ht \<Longrightarrow> (here c, t) \<notin> holes L c"
  by (auto simp: typed_def flows_def hole_ok_def here_def)

lemma typed_branch:
  assumes t: "typed L c ht" and falls: "takes (falls_to ins) (last ht) h'" and branch: "branches_to ins \<noteq> None" "takes (branches_to ins) (last ht) t"
    and ok: "ins_bound c ins"
  shows "typed (insert (here c, t) L) (add_ins ins [] c) (ht @ [h'])"
proof -
  have f: "flows L c ht" and b: "bounded c" using t by (simp_all add: typed_def)
  have "flows (insert (here c, t) L) (add_ins ins [] c) (ht @ [h'])"
    by (rule flows_add [OF f _ falls]) (use branch in \<open>auto simp: holes_def\<close>)
  moreover have "ins_bound (add_ins ins [] c) ins" using ok by simp
  then have "bounded (add_ins ins [] c)" by (rule bounded_add [OF b])
  ultimately show ?thesis by (simp add: typed_def)
qed

text \<open>A jump whose target is known.\<close>

lemma typed_back:
  assumes t: "typed L c ht" and op: "i_Op ins = OpJump" and a: "i_A ins = int tgt" "tgt < length ht" "ht ! tgt = last ht"
  shows "typed L (add_ins ins [] c) (ht @ [h'])"
proof -
  have f: "flows L c ht" and b: "bounded c" using t by (simp_all add: typed_def)
  have e: "falls_to ins = None" "branches_to ins = Some (0, 0)" using op by (simp_all add: falls_to_def branches_to_def)
  have len: "length ht = Suc (length (code c))" using typed_length [OF t] by (simp add: here_def)
  have "settled (code c @ [ins]) (ht @ [h']) (length (code c))"
    by (rule settled_new [OF len]) (use op e a in \<open>simp_all add: takes_def\<close>)
  then have "flows L (add_ins ins [] c) (ht @ [h'])"
    using hole_position [OF t, of 0]
    by (intro flows_add [OF f, where t = 0]) (auto simp: e takes_def here_def holes_def)
  moreover have "ins_bound (add_ins ins [] c) ins" using op by (simp add: operands_ok_def)
  then have "bounded (add_ins ins [] c)" by (rule bounded_add [OF b])
  ultimately show ?thesis by (simp add: typed_def)
qed

text \<open>A jump the state records, in \<open>c'\<close>.\<close>

lemma typed_record:
  assumes t: "typed L c ht" and op: "i_Op ins = OpJump" and top: "last ht = 0"
    and c': "c_ch c' = c_ch c" "c_fs c' = c_fs c" "c_labels c' = c_labels c" "c_funs c' = c_funs c" "c_results c' = c_results c"
      "c_inClause c' = c_inClause c" "c_falls c' = [] \<longrightarrow> c_falls c = []"
    and ctrl: "cx_continueIP ` set (c_ctrl c') = cx_continueIP ` set (c_ctrl c)"
    and rec: "recorded c' = insert (here c) (recorded c)"
  shows "typed L (add_ins ins [] c') (ht @ [h'])"
proof -
  have f: "flows L c ht" and b: "bounded c" using t by (simp_all add: typed_def)
  have e: "falls_to ins = None" "branches_to ins = Some (0, 0)" using op by (simp_all add: falls_to_def branches_to_def)
  have "flows L (add_ins ins [] c') (ht @ [h'])"
    by (rule flows_add [OF f, where t = 0 and ins = ins])
      (use c' ctrl rec top in \<open>auto simp: e takes_def here_def holes_def\<close>)
  moreover have "bounded c'"
    using b c' by (auto simp: bounded_def next_slot_def cur_scope_def)
  then have "bounded (add_ins ins [] c')" by (rule bounded_add) (use op in \<open>simp add: operands_ok_def\<close>)
  ultimately show ?thesis by (simp add: typed_def)
qed

end
