(* ===== verification/Leaves.thy ===== *)
theory Leaves
  imports Patches
begin

text \<open>
  Steps that leave jumps open: \<open>leaves b n h h' H R Z c c'\<close> says that from \<open>c\<close> at height \<open>h\<close> the compiler has come to
  \<open>c'\<close> at height \<open>h'\<close>, that \<open>H\<close> are the holes made on the way (each with the height of its target), \<open>R\<close> jumps already
  patched that may be patched again, and \<open>Z\<close> positions reached with an empty stack.
\<close>

section \<open>The judgement\<close>

definition leaves ::
    "reach \<Rightarrow> nat \<Rightarrow> nat \<Rightarrow> nat \<Rightarrow> (nat \<times> nat) set \<Rightarrow> (nat \<times> nat) set \<Rightarrow> nat set \<Rightarrow> 't cstate \<Rightarrow> 't cstate \<Rightarrow> bool" where
  "leaves b n h h' H R Z c c' \<longleftrightarrow>
     (\<forall>L ht. typed L c ht \<longrightarrow> last ht = h \<longrightarrow> n \<le> next_slot c \<longrightarrow>
        (\<exists>ht'. grown b c ht c' ht' \<and> typed (H \<union> L) c' ht' \<and> last ht' = h' \<and> (\<forall>(i, t)\<in>H \<union> R. here c \<le> i) \<and>
           (\<forall>p\<in>Z. at_zero ht' p) \<and> (\<forall>(i, t)\<in>R. hole_ok (code c') ht' i t)))"

lemma leavesI:
  "(\<And>L ht. typed L c ht \<Longrightarrow> last ht = h \<Longrightarrow> n \<le> next_slot c \<Longrightarrow>
      \<exists>ht'. grown b c ht c' ht' \<and> typed (H \<union> L) c' ht' \<and> last ht' = h' \<and> (\<forall>(i, t)\<in>H \<union> R. here c \<le> i) \<and>
        (\<forall>p\<in>Z. at_zero ht' p) \<and> (\<forall>(i, t)\<in>R. hole_ok (code c') ht' i t)) \<Longrightarrow> leaves b n h h' H R Z c c'"
  by (simp add: leaves_def)

lemma leavesE:
  assumes "leaves b n h h' H R Z c c'" and "typed L c ht" and "last ht = h" and "n \<le> next_slot c"
  obtains ht' where "grown b c ht c' ht'" and "typed (H \<union> L) c' ht'" and "last ht' = h'" and "\<forall>(i, t)\<in>H \<union> R. here c \<le> i"
    and "\<forall>p\<in>Z. at_zero ht' p" and "\<forall>(i, t)\<in>R. hole_ok (code c') ht' i t"
  using assms unfolding leaves_def by blast

lemma leaves_leads: "leaves b n h h' {} {} {} c c' \<longleftrightarrow> leads b n h h' c c'"
  by (simp add: leaves_def leads_def)

lemma leavesD: "leaves b n h h' {} R Z c c' \<Longrightarrow> leads b n h h' c c'"
  by (rule leadsI) (erule leavesE, assumption+, auto)

lemma leaves_mono:
  assumes "leaves b n h h' H R Z c c'" and "R' \<subseteq> R" and "Z' \<subseteq> Z"
  shows "leaves b n h h' H R' Z' c c'"
  by (rule leavesI, rule leavesE [OF assms(1)]) (use assms(2,3) in blast)+

lemma leaves_refl: "leaves b n h h {} {} {} c c"
  by (simp add: leaves_leads leads_refl)

text \<open>Growth keeps what is known of earlier positions.\<close>

lemma at_zero_extends: "at_zero ht p \<Longrightarrow> extends ht ht' \<Longrightarrow> at_zero ht' p"
  by (auto simp: extends_def at_zero_append)

lemma hole_ok_grown:
  assumes "hole_ok (code c) ht i t" and "typed L c ht" and "grown b c ht c' ht'"
  shows "hole_ok (code c') ht' i t"
proof -
  obtain js hs where "code c' = code c @ js" "ht' = ht @ hs" using assms(3) by (auto simp: grown_def extends_def)
  then show ?thesis using hole_ok_append [OF assms(1)] typed_length [OF assms(2)] by (simp add: here_def)
qed

lemma settled_grown:
  assumes "settled (code c) ht i" and "i < here c" and "typed L c ht" and "grown b c ht c' ht'"
  shows "settled (code c') ht' i"
proof -
  obtain js hs where "code c' = code c @ js" "ht' = ht @ hs" using assms(4) by (auto simp: grown_def extends_def)
  then show ?thesis using settled_append [OF assms(1)] assms(2) typed_length [OF assms(3)] by (simp add: here_def)
qed

lemma leaves_trans:
  assumes "leaves b n h h1 H1 R1 Z1 c c1" and "leaves b n h1 h2 H2 R2 Z2 c1 c2"
  shows "leaves b n h h2 (H1 \<union> H2) (R1 \<union> R2) (Z1 \<union> Z2) c c2"
proof (rule leavesI)
  fix L ht
  assume t: "typed L c ht" "last ht = h" "n \<le> next_slot c"
  obtain ht1 where 1: "grown b c ht c1 ht1" "typed (H1 \<union> L) c1 ht1" "last ht1 = h1" "\<forall>(i, t)\<in>H1 \<union> R1. here c \<le> i"
    "\<forall>p\<in>Z1. at_zero ht1 p" "\<forall>(i, t)\<in>R1. hole_ok (code c1) ht1 i t"
    by (rule leavesE [OF assms(1) t])
  then have "n \<le> next_slot c1" using grown_slot [OF 1(1) typed_fs [OF t(1)]] t(3) by simp
  then obtain ht2 where 2: "grown b c1 ht1 c2 ht2" "typed (H2 \<union> (H1 \<union> L)) c2 ht2" "last ht2 = h2"
    "\<forall>(i, t)\<in>H2 \<union> R2. here c1 \<le> i" "\<forall>p\<in>Z2. at_zero ht2 p" "\<forall>(i, t)\<in>R2. hole_ok (code c2) ht2 i t"
    by (rule leavesE [OF assms(2) 1(2,3)])
  have "extends ht1 ht2" using 2(1) by (simp add: grown_def)
  then have "\<forall>p\<in>Z1 \<union> Z2. at_zero ht2 p" using 1(5) 2(5) at_zero_extends by blast
  moreover have "\<forall>(i, t)\<in>R1 \<union> R2. hole_ok (code c2) ht2 i t" using 1(6) 2(6) hole_ok_grown [OF _ 1(2) 2(1)] by blast
  moreover have "\<forall>(i, t)\<in>H2 \<union> R2. here c \<le> i"
    using 2(4) grown_here [OF 1(1)] by (metis (no_types, lifting) case_prodE case_prodI2 order_trans prod.inject)
  then have "\<forall>(i, t)\<in>(H1 \<union> H2) \<union> (R1 \<union> R2). here c \<le> i" using 1(4) by blast
  moreover have "typed (H1 \<union> H2 \<union> L) c2 ht2" using 2(2) by (simp add: Un_assoc Un_left_commute)
  ultimately show "\<exists>ht'. grown b c ht c2 ht' \<and> typed (H1 \<union> H2 \<union> L) c2 ht' \<and> last ht' = h2 \<and>
      (\<forall>(i, t)\<in>(H1 \<union> H2) \<union> (R1 \<union> R2). here c \<le> i) \<and> (\<forall>p\<in>Z1 \<union> Z2. at_zero ht' p) \<and>
      (\<forall>(i, t)\<in>R1 \<union> R2. hole_ok (code c2) ht' i t)"
    using grown_trans [OF 1(1) 2(1)] 2(3) by blast
qed

lemma leaves_then: "leaves b n h h1 H R Z c c1 \<Longrightarrow> leads b n h1 h2 c1 c2 \<Longrightarrow> leaves b n h h2 H R Z c c2"
  using leaves_trans [of b n h h1 H R Z c c1 h2 "{}" "{}" "{}" c2] by (simp add: leaves_leads)

lemma leads_then: "leads b n h h1 c c1 \<Longrightarrow> leaves b n h1 h2 H R Z c1 c2 \<Longrightarrow> leaves b n h h2 H R Z c c2"
  using leaves_trans [of b n h h1 "{}" "{}" "{}" c c1 h2 H R Z c2] by (simp add: leaves_leads)

lemma leads_start: "leads b n h h' c c' \<Longrightarrow> leaves b n h h' {} {} {} c c'"
  by (simp add: leaves_leads)

text \<open>The second part of a step may rely on what the first has established.\<close>

lemma leads_given:
  assumes "leads b n h h1 c c1"
    and "\<And>L ht ht1. typed L c ht \<Longrightarrow> grown b c ht c1 ht1 \<Longrightarrow> typed L c1 ht1 \<Longrightarrow> leads b n h1 h2 c1 c2"
  shows "leads b n h h2 c c2"
proof (rule leadsI)
  fix L ht
  assume t: "typed L c ht" "last ht = h" "n \<le> next_slot c"
  obtain ht1 where 1: "grown b c ht c1 ht1" "typed L c1 ht1" "last ht1 = h1" by (rule leadsE [OF assms(1) t])
  have "leads b n h h2 c c2" by (rule leads_trans [OF assms(1) assms(2) [OF t(1) 1(1,2)]])
  then show "\<exists>ht'. grown b c ht c2 ht' \<and> typed L c2 ht' \<and> last ht' = h2" using t unfolding leads_def by blast
qed

lemma leaves_given:
  assumes "\<And>L ht. typed L c ht \<Longrightarrow> last ht = h \<Longrightarrow> n \<le> next_slot c \<Longrightarrow> leaves b n h h' H R Z c c'"
  shows "leaves b n h h' H R Z c c'"
  using assms unfolding leaves_def by blast

section \<open>Making and filling holes\<close>

lemma leaves_branch:
  assumes "takes (falls_to ins) h h'" and "branches_to ins \<noteq> None" "takes (branches_to ins) h t"
    and "n \<le> next_slot c \<Longrightarrow> bounded c \<Longrightarrow> ins_bound c ins"
  shows "leaves b n h h' {(here c, t)} {} {} c (add_ins ins [] c)"
proof (rule leavesI)
  fix L ht
  assume t: "typed L c ht" "last ht = h" "n \<le> next_slot c"
  have "ins_bound c ins" using assms(4) t by (simp add: typed_def)
  then have "typed (insert (here c, t) L) (add_ins ins [] c) (ht @ [h'])"
    by (intro typed_branch [OF t(1)]) (use assms t in simp_all)
  then show "\<exists>ht'. grown b c ht (add_ins ins [] c) ht' \<and> typed ({(here c, t)} \<union> L) (add_ins ins [] c) ht' \<and> last ht' = h' \<and>
      (\<forall>(i, t)\<in>{(here c, t)} \<union> {}. here c \<le> i) \<and> (\<forall>p\<in>{}. at_zero ht' p) \<and>
      (\<forall>(i, t)\<in>{}. hole_ok (code (add_ins ins [] c)) ht' i t)"
    by (intro exI [of _ "ht @ [h']"]) (simp add: grown_add)
qed

lemma leaves_jumps:
  "leaves b n h h' {(here c, h)} {} {} c (emit OpJump 0 0 pos c)"
  "leaves b n (Suc h) h {(here c, h)} {} {} c (emit OpJumpFalse 0 0 pos c)"
  "leaves b n (Suc h) h {(here c, h)} {} {} c (emit OpJumpTrue 0 0 pos c)"
  "leaves b n (Suc (Suc h)) (Suc (Suc h)) {(here c, Suc h)} {} {} c (emit OpLenIdxFold 0 d pos c)"
  "leaves b n (Suc (Suc h)) (Suc h) {(here c, Suc h)} {} {} c (emit OpLenDerefFold 0 0 pos c)"
  "leaves b n (Suc (Suc h)) (Suc (Suc h)) {(here c, Suc h)} {} {} c (emit OpLenDerefFold 0 1 pos c)"
  "leaves b n (Suc (Suc h)) (Suc (Suc h)) {(here c, Suc h)} {} {} c (emit OpLenCallFold 0 d pos c)"
  by (simp only: emit_add; rule leaves_branch; simp add: falls_to_def branches_to_def takes_def operands_ok_def)+

lemma typed_rehole: "typed L c ht \<Longrightarrow> hole_ok (code c) ht i t \<Longrightarrow> typed (insert (i, t) L) c ht"
  unfolding typed_def flows_def holes_def by auto

lemma typed_patch_again:
  "typed L c ht \<Longrightarrow> hole_ok (code c) ht i t \<Longrightarrow> tgt < length ht \<Longrightarrow> ht ! tgt = t \<Longrightarrow> typed L (patchA i tgt c) ht"
  by (rule typed_patch_hole [OF typed_rehole])

lemma hole_ok_patchA:
  "hole_ok (code c) ht j u \<Longrightarrow> hole_ok (code c) ht i t \<Longrightarrow> hole_ok (code (patchA i tgt c)) ht j u"
  by (simp add: hole_ok_patch hole_ok_def [of _ _ i])

text \<open>A jump, open or to be patched again, whose target has the height it must have.\<close>

lemma leaves_patch_to:
  assumes l: "leaves b n h h' H R Z c c'" and i: "(i, t) \<in> H \<union> R"
    and tgt: "\<And>ht'. length ht' = Suc (here c') \<Longrightarrow> last ht' = h' \<Longrightarrow> \<forall>p\<in>Z. at_zero ht' p \<Longrightarrow> tgt < length ht' \<and> ht' ! tgt = t"
  shows "leaves b n h h' (H - {(i, t)}) (insert (i, t) R) Z c (patchA i tgt c')"
proof (rule leavesI)
  fix L ht
  assume t: "typed L c ht" "last ht = h" "n \<le> next_slot c"
  obtain ht' where 1: "grown b c ht c' ht'" "typed (H \<union> L) c' ht'" "last ht' = h'" "\<forall>(i, t)\<in>H \<union> R. here c \<le> i"
    "\<forall>p\<in>Z. at_zero ht' p" "\<forall>(i, t)\<in>R. hole_ok (code c') ht' i t"
    by (rule leavesE [OF l t])
  have hole: "hole_ok (code c') ht' i t" using i 1(6) typed_hole_at [OF 1(2), of i t] by (auto simp: holes_def)
  have at: "tgt < length ht'" "ht' ! tgt = t" using tgt [OF typed_length [OF 1(2)] 1(3,5)] by simp_all
  have eq: "insert (i, t) (H \<union> L) = insert (i, t) (H - {(i, t)} \<union> L)" by auto
  have "typed (H - {(i, t)} \<union> L) (patchA i tgt c') ht'"
    by (rule typed_patch_hole [OF _ at]) (use typed_rehole [OF 1(2) hole] eq in simp)
  moreover have "here c \<le> i" using 1(4) i by auto
  moreover have "\<forall>(j, u)\<in>insert (i, t) R. hole_ok (code (patchA i tgt c')) ht' j u"
    using hole_ok_patchA [OF _ hole] hole 1(6) by blast
  ultimately show "\<exists>ht'. grown b c ht (patchA i tgt c') ht' \<and> typed (H - {(i, t)} \<union> L) (patchA i tgt c') ht' \<and> last ht' = h' \<and>
      (\<forall>(j, u)\<in>H - {(i, t)} \<union> insert (i, t) R. here c \<le> j) \<and> (\<forall>p\<in>Z. at_zero ht' p) \<and>
      (\<forall>(j, u)\<in>insert (i, t) R. hole_ok (code (patchA i tgt c')) ht' j u)"
    using grown_patch [OF 1(1)] 1(3,4,5) by blast
qed

lemma leaves_patch:
  "leaves b n h h' H R Z c c' \<Longrightarrow> (i, h') \<in> H \<union> R \<Longrightarrow>
   leaves b n h h' (H - {(i, h')}) (insert (i, h') R) Z c (patchA i (here c') c')"
  by (rule leaves_patch_to) (auto dest: last_height)

lemma leaves_patch_back:
  "leaves b n h h' H R Z c c' \<Longrightarrow> (i, 0) \<in> H \<union> R \<Longrightarrow> p \<in> Z \<Longrightarrow>
   leaves b n h h' (H - {(i, 0)}) (insert (i, 0) R) Z c (patchA i p c')"
  by (rule leaves_patch_to) (auto simp: at_zero_def)

lemma hole_ok_patch_all:
  "hole_ok (code c) ht j u \<Longrightarrow> \<forall>i\<in>set is. hole_ok (code c) ht i t \<Longrightarrow> hole_ok (code (patch_all is tgt c)) ht j u"
proof (induction "is" arbitrary: c)
  case (Cons i "is")
  then have "hole_ok (code (patchA i tgt c)) ht k u'" if "hole_ok (code c) ht k u'" for k u'
    using hole_ok_patchA [OF that, of i t tgt] Cons.prems(2) by (simp del: patchA_sel)
  then show ?case using Cons by (simp del: patchA_sel)
qed simp

lemma leaves_patch_all_to:
  assumes l: "leaves b n h h' (set is \<times> {t} \<union> H) R Z c c'"
    and tgt: "\<And>ht'. length ht' = Suc (here c') \<Longrightarrow> last ht' = h' \<Longrightarrow> \<forall>p\<in>Z. at_zero ht' p \<Longrightarrow> tgt < length ht' \<and> ht' ! tgt = t"
  shows "leaves b n h h' H R Z c (patch_all is tgt c')"
proof (rule leavesI)
  fix L ht
  assume ty: "typed L c ht" "last ht = h" "n \<le> next_slot c"
  obtain ht' where 1: "grown b c ht c' ht'" "typed (set is \<times> {t} \<union> H \<union> L) c' ht'" "last ht' = h'"
    "\<forall>(i, t)\<in>set is \<times> {t} \<union> H \<union> R. here c \<le> i" "\<forall>p\<in>Z. at_zero ht' p" "\<forall>(i, t)\<in>R. hole_ok (code c') ht' i t"
    by (rule leavesE [OF l ty])
  have top: "tgt < length ht'" "ht' ! tgt = t" using tgt [OF typed_length [OF 1(2)] 1(3,5)] by simp_all
  have "typed (H \<union> L) (patch_all is tgt c') ht'"
    by (rule typed_patch_holes [OF _ top]) (use 1(2) in \<open>simp add: Un_assoc\<close>)
  moreover have "\<forall>i\<in>set is. hole_ok (code c') ht' i t" using typed_hole_at [OF 1(2)] by (simp add: holes_def)
  then have "\<forall>(j, u)\<in>R. hole_ok (code (patch_all is tgt c')) ht' j u" using 1(6) hole_ok_patch_all by blast
  moreover have "\<forall>i\<in>set is. here c \<le> i" using 1(4) by auto
  ultimately show "\<exists>ht'. grown b c ht (patch_all is tgt c') ht' \<and> typed (H \<union> L) (patch_all is tgt c') ht' \<and>
      last ht' = h' \<and> (\<forall>(i, t)\<in>H \<union> R. here c \<le> i) \<and> (\<forall>p\<in>Z. at_zero ht' p) \<and>
      (\<forall>(i, t)\<in>R. hole_ok (code (patch_all is tgt c')) ht' i t)"
    using grown_patch_all [OF 1(1)] 1(3,4,5) by blast
qed

lemma leaves_patch_all:
  "leaves b n h h' (set is \<times> {h'} \<union> H) R Z c c' \<Longrightarrow> leaves b n h h' H R Z c (patch_all is (here c') c')"
  by (rule leaves_patch_all_to) (auto dest: last_height)

lemma leaves_patch_all_back:
  "leaves b n h h' (set is \<times> {0} \<union> H) R Z c c' \<Longrightarrow> p \<in> Z \<Longrightarrow> leaves b n h h' H R Z c (patch_all is p c')"
  by (rule leaves_patch_all_to) (auto simp: at_zero_def)

text \<open>A patched jump may count as a hole again.\<close>

lemma leaves_rehole:
  assumes "leaves b n h h' H R Z c c'" and "H \<subseteq> H'" and "H' \<subseteq> H \<union> R"
  shows "leaves b n h h' H' R Z c c'"
proof (rule leavesI)
  fix L ht
  assume t: "typed L c ht" "last ht = h" "n \<le> next_slot c"
  obtain ht' where 1: "grown b c ht c' ht'" "typed (H \<union> L) c' ht'" "last ht' = h'" "\<forall>(i, t)\<in>H \<union> R. here c \<le> i"
    "\<forall>p\<in>Z. at_zero ht' p" "\<forall>(i, t)\<in>R. hole_ok (code c') ht' i t"
    by (rule leavesE [OF assms(1) t])
  have "\<forall>(i, t)\<in>H'. hole_ok (code c') ht' i t" using assms(3) 1(6) typed_hole_at [OF 1(2)] by (fastforce simp: holes_def)
  then have "typed (H' \<union> L) c' ht'" using 1(2) assms(2) unfolding typed_def flows_def holes_def by blast
  then show "\<exists>ht'. grown b c ht c' ht' \<and> typed (H' \<union> L) c' ht' \<and> last ht' = h' \<and> (\<forall>(i, t)\<in>H' \<union> R. here c \<le> i) \<and>
      (\<forall>p\<in>Z. at_zero ht' p) \<and> (\<forall>(i, t)\<in>R. hole_ok (code c') ht' i t)"
    using 1(1,3-6) assms(3) by blast
qed

text \<open>A position with an empty stack is known from then on, and a jump back to it is typed.\<close>

lemma leaves_mark: "leaves b n h 0 H R Z c c' \<Longrightarrow> leaves b n h 0 H R (insert (here c') Z) c c'"
proof (rule leavesI)
  fix L ht
  assume l: "leaves b n h 0 H R Z c c'" and t: "typed L c ht" "last ht = h" "n \<le> next_slot c"
  obtain ht' where 1: "grown b c ht c' ht'" "typed (H \<union> L) c' ht'" "last ht' = 0" "\<forall>(i, t)\<in>H \<union> R. here c \<le> i"
    "\<forall>p\<in>Z. at_zero ht' p" "\<forall>(i, t)\<in>R. hole_ok (code c') ht' i t"
    by (rule leavesE [OF l t])
  have "at_zero ht' (here c')" using typed_length [OF 1(2)] last_height [of ht' "here c'"] 1(3) by (simp add: at_zero_def)
  then show "\<exists>ht'. grown b c ht c' ht' \<and> typed (H \<union> L) c' ht' \<and> last ht' = 0 \<and> (\<forall>(i, t)\<in>H \<union> R. here c \<le> i) \<and>
      (\<forall>p\<in>insert (here c') Z. at_zero ht' p) \<and> (\<forall>(i, t)\<in>R. hole_ok (code c') ht' i t)"
    using 1 by blast
qed

lemma leaves_back:
  assumes l: "leaves b n h 0 H R Z c c'" and p: "p \<in> Z"
  shows "leaves b n h h' H R Z c (emit OpJump (int p) 0 pos c')"
proof (rule leavesI)
  fix L ht
  assume t: "typed L c ht" "last ht = h" "n \<le> next_slot c"
  obtain ht' where 1: "grown b c ht c' ht'" "typed (H \<union> L) c' ht'" "last ht' = 0" "\<forall>(i, t)\<in>H \<union> R. here c \<le> i"
    "\<forall>p\<in>Z. at_zero ht' p" "\<forall>(i, t)\<in>R. hole_ok (code c') ht' i t"
    by (rule leavesE [OF l t])
  let ?ins = "\<lparr>i_Op = OpJump, i_A = int p, i_B = 0, i_C = -1, i_Pos = pos\<rparr>" and ?c = "emit OpJump (int p) 0 pos c'"
  have e: "?c = add_ins ?ins [] c'" by (simp add: emit_add)
  have z: "p < length ht'" "ht' ! p = last ht'" using 1(3,5) p by (simp_all add: at_zero_def)
  have "typed (H \<union> L) ?c (ht' @ [h'])" unfolding e by (rule typed_back [OF 1(2)]) (use z in simp_all)
  moreover have g: "grown b c' ht' ?c (ht' @ [h'])" unfolding e by (rule grown_add)
  ultimately show "\<exists>ht'. grown b c ht ?c ht' \<and> typed (H \<union> L) ?c ht' \<and> last ht' = h' \<and> (\<forall>(i, t)\<in>H \<union> R. here c \<le> i) \<and>
      (\<forall>p\<in>Z. at_zero ht' p) \<and> (\<forall>(i, t)\<in>R. hole_ok (code ?c) ht' i t)"
    using grown_trans [OF 1(1) g] 1(4,5) at_zero_append hole_ok_grown [OF _ 1(2) g] 1(6)
    by (intro exI [of _ "ht' @ [h']"]) fastforce
qed

end
