(* ===== verification/ExprTyped.thy ===== *)
theory ExprTyped
  imports Leaves
begin

text \<open>
  Expressions are compiled to code that leaves one value on the stack: for each method of the compiler, from contracts
  of the methods it calls back into (the locale \<open>typed_comp\<close>).
\<close>

section \<open>Rules for composed steps\<close>

lemma leads_emit': "op_ok n h opc a b' \<Longrightarrow> h' = next_op h opc a b' \<Longrightarrow> leads b n h h' c (emit opc a b' pos c)"
  by (simp add: leads_emit)

lemma leads_emit_after:
  "leads b n h h1 c c1 \<Longrightarrow> op_ok n h1 opc a b' \<Longrightarrow> h' = next_op h1 opc a b' \<Longrightarrow> leads b n h h' c (emit opc a b' pos c1)"
  by (rule leads_trans, assumption) (rule leads_emit')

lemma leads_if: "(P \<Longrightarrow> leads b n h h' c x) \<Longrightarrow> (\<not> P \<Longrightarrow> leads b n h h' c y) \<Longrightarrow> leads b n h h' c (if P then x else y)"
  by simp

lemma leads_if_fun:
  "(P \<Longrightarrow> leads b n h h' c (p c)) \<Longrightarrow> (\<not> P \<Longrightarrow> leads b n h h' c (q c)) \<Longrightarrow> leads b n h h' c ((if P then p else q) c)"
  by simp

lemma leads_option:
  "(x = None \<Longrightarrow> leads b n h h' c p) \<Longrightarrow> (\<And>y. x = Some y \<Longrightarrow> leads b n h h' c (q y)) \<Longrightarrow>
   leads b n h h' c (case x of None \<Rightarrow> p | Some y \<Rightarrow> q y)"
  by (cases x) simp_all

text \<open>The code of a step may be judged under the assumption that it starts well.\<close>

lemma leads_assume:
  assumes "\<And>L ht. typed L c ht \<Longrightarrow> last ht = h \<Longrightarrow> n \<le> next_slot c \<Longrightarrow> leads b n h h' c c'"
  shows "leads b n h h' c c'"
  using assms unfolding leads_def by blast

lemma leads_option_fun:
  "(x = None \<Longrightarrow> leads b n h h' c (p c)) \<Longrightarrow> (\<And>y. x = Some y \<Longrightarrow> leads b n h h' c (q y c)) \<Longrightarrow>
   leads b n h h' c ((case x of None \<Rightarrow> p | Some y \<Rightarrow> q y) c)"
  by (cases x) simp_all

lemma leads_seq_map1:
  "(\<And>x c h. x \<in> set xs \<Longrightarrow> leads b n h (Suc h) c (f x c)) \<Longrightarrow> leads b n h (length xs + h) c (seq (map f xs) c)"
  using leads_seq_map [of xs b n 1 f h c] by simp

lemma leads_seq_map0:
  "(\<And>x c. x \<in> set xs \<Longrightarrow> leads b n h h c (f x c)) \<Longrightarrow> leads b n h h c (seq (map f xs) c)"
proof (induction xs arbitrary: c)
  case (Cons x xs)
  show ?case by (simp only: list.map) (rule leads_seq_Cons, rule Cons.prems, simp, rule Cons.IH, rule Cons.prems, simp)
qed (simp add: leads_seq_Nil)

lemma leads_seq_concat0:
  "(\<And>x c. x \<in> set xs \<Longrightarrow> leads b n h h c (seq (f x) c)) \<Longrightarrow> leads b n h h c (seq (concat (map f xs)) c)"
proof (induction xs arbitrary: c)
  case (Cons x xs)
  show ?case
    by (simp only: list.map concat.simps)
      (rule leads_seq_append, rule Cons.prems, simp, rule Cons.IH, rule Cons.prems, simp)
qed (simp add: leads_seq_Nil)

text \<open>A jump over the code up to its patch.\<close>

lemma leads_jump_over:
  assumes "leaves b n h1 h2 {(here c, t)} {} {} c c1" and "leads b n h2 t c1 c2"
  shows "leads b n h1 t c (patchA (here c) (here c2) c2)"
proof -
  have "leaves b n h1 t {(here c, t)} {} {} c c2" by (rule leaves_then [OF assms])
  then have "leaves b n h1 t ({(here c, t)} - {(here c, t)}) (insert (here c, t) {}) {} c (patchA (here c) (here c2) c2)"
    by (rule leaves_patch) simp
  then show ?thesis by (simp add: leavesD)
qed

lemma seq_simps: "seq [] c = c" "seq (p # ps) c = seq ps (p c)" "seq (ps @ qs) c = seq qs (seq ps c)"
  by (simp_all add: seq_def)

lemma leads_seq_simple: "leads b n h h' c (p c) \<Longrightarrow> leads b n h h' c (seq [p] c)"
  by (simp add: seq_def)

lemmas leads_seqs = leads_seq_append leads_seq_Cons leads_seq_Nil
lemmas leads_splits = leads_if leads_if_fun leads_option leads_option_fun

lemma op_needs_one [simp]:
  "op_ok n h OpCall 1 b' \<longleftrightarrow> 3 \<le> h" "op_ok n h OpCall 2 b' \<longleftrightarrow> 5 \<le> h" "next_op h OpCall 2 b' = h - 5 + 1"
  "op_ok n h OpCall 3 b' \<longleftrightarrow> 7 \<le> h" "next_op h OpCall 3 b' = h - 7 + 1" "op_ok n h OpSetRefs 1 b' \<longleftrightarrow> 2 \<le> h" "op_ok n h OpInstantiate 1 b' \<longleftrightarrow> 2 \<le> h"
  "op_ok n h OpUnpack 2 b' \<longleftrightarrow> 1 \<le> h"
  "next_op h OpCall 1 b' = h - 3 + 1" "next_op h OpSetRefs 1 b' = h - 2" "next_op h OpInstantiate 1 b' = h - 2 + 1"
  "next_op h OpUnpack 2 b' = h - 1 + 2"
  by (simp_all only: op_effect) auto

lemma leads_crash: "leads b n h h' c (crash c)"
  unfolding crash_def by (rule leads_trans [OF leads_core leads_trap]) simp

lemma leads_out_of_fuel: "leads b n h h' c (out_of_fuel c)"
  unfolding out_of_fuel_def by (rule leads_trans [OF leads_core leads_trap]) simp

lemma leads_fresh: "leads b n h h c (snd (fresh base c))"
  unfolding fresh_def by (simp, rule leads_core) simp

section \<open>Names\<close>

lemma ref_ok_cases:
  assumes "ref_ok fs r" and "r = Some (up, i)" and "c_fs c = fs"
  shows "up \<Longrightarrow> i < length (fs_upvals (cur_scope c))" and "\<not> up \<Longrightarrow> i < next_slot c"
  using assms by (auto simp: ref_ok_def cur_scope_def next_slot_def split: list.splits)

lemma leads_getRef: "leads b n h (Suc h) c (getRef x pos c)"
  unfolding getRef_def
proof (rule leads_with_ref)
  fix r fs'
  let ?c = "c\<lparr>c_fs := fs'\<rparr>"
  assume ok: "ref_ok fs' r" "fs' \<noteq> []"
  show "leads b n h (Suc h) ?c (case r of
       None \<Rightarrow> (case c_binds ?c x of Some t \<Rightarrow> emit_k OpConst (KOpaque t) 0 pos ?c | None \<Rightarrow> emit_k OpGlobal (KStr x) 0 pos ?c)
     | Some (False, idx) \<Rightarrow>
         (case c_iotaVal ?c of
            Some v \<Rightarrow>
              if fs_iota (cur_scope ?c) = Some idx then emit_k OpConst (KUInt (int v)) 0 pos ?c
              else emit OpLocal (int idx) 0 pos ?c
          | None \<Rightarrow> emit OpLocal (int idx) 0 pos ?c)
     | Some (True, idx) \<Rightarrow> emit OpUpval (int idx) 0 pos ?c)"
  proof (cases r)
    case None
    then show ?thesis by (auto split: option.split intro: leads_const leads_name)
  next
    case (Some q)
    obtain up i where q: "q = (up, i)" by fastforce
    note bd = ref_ok_cases [OF ok(1) Some [unfolded q], of ?c, simplified]
    have "leads b n h (Suc h) ?c (emit OpLocal (int i) 0 pos ?c)" if "\<not> up"
      using leads_local [of i ?c h OpLocal 0 b n pos] bd(2) [OF that] by simp
    then show ?thesis using Some q bd leads_upval(1) [of i ?c]
      by (cases up) (auto split: option.split intro: leads_const)
  qed
qed

lemma leads_setRef: "leads b n (Suc h) h c (setRef x pos c)"
  unfolding setRef_def
proof (rule leads_with_ref)
  fix r fs'
  let ?c = "c\<lparr>c_fs := fs'\<rparr>"
  assume ok: "ref_ok fs' r" "fs' \<noteq> []"
  show "leads b n (Suc h) h ?c ((case r of
       None \<Rightarrow> emit_k OpSetGlobal (KStr x) 0 pos
     | Some (False, idx) \<Rightarrow> emit OpSetLocal (int idx) 0 pos
     | Some (True, idx) \<Rightarrow> emit OpSetUpval (int idx) 0 pos) ?c)"
  proof (cases r)
    case None
    then show ?thesis by (simp add: leads_name)
  next
    case (Some q)
    obtain up i where q: "q = (up, i)" by fastforce
    note bd = ref_ok_cases [OF ok(1) Some [unfolded q], of ?c, simplified]
    have "leads b n (Suc h) h ?c (emit OpSetLocal (int i) 0 pos ?c)" if "\<not> up"
      using leads_local [of i ?c "Suc h" OpSetLocal 0 b n pos] bd(2) [OF that] by simp
    then show ?thesis using Some q bd leads_upval(4) [of i ?c] by (cases up) auto
  qed
qed

lemma leads_refRef: "leads b n h (Suc h) c (refRef x pos c)"
  unfolding refRef_def
proof (rule leads_with_ref)
  fix r fs'
  let ?c = "c\<lparr>c_fs := fs'\<rparr>"
  assume ok: "ref_ok fs' r" "fs' \<noteq> []"
  show "leads b n h (Suc h) ?c ((case r of
       None \<Rightarrow> emit_k OpGlobalRef (KStr x) 0 pos
     | Some (False, idx) \<Rightarrow> emit OpLocalRef (int idx) 0 pos
     | Some (True, idx) \<Rightarrow> emit OpUpvalRef (int idx) 0 pos) ?c)"
  proof (cases r)
    case None
    then show ?thesis by (simp add: leads_name)
  next
    case (Some q)
    obtain up i where q: "q = (up, i)" by fastforce
    note bd = ref_ok_cases [OF ok(1) Some [unfolded q], of ?c, simplified]
    have "leads b n h (Suc h) ?c (emit OpLocalRef (int i) 0 pos ?c)" if "\<not> up"
      using leads_local [of i ?c h OpLocalRef 0 b n pos] bd(2) [OF that] by simp
    then show ?thesis using Some q bd leads_upval(3) [of i ?c] by (cases up) auto
  qed
qed

lemma leads_ident: "leads b n h (Suc h) c (ident_expr x pos c)"
  unfolding ident_expr_def by (intro leads_splits leads_emit' leads_const leads_getRef) simp_all

lemma leads_basic_lit: "leads b n h (Suc h) c (basic_lit hk k v pos c)"
  unfolding basic_lit_def by (intro leads_splits leads_trap leads_const)

lemma leads_typeIdent: "leads b n h (Suc h) c (typeIdent x pos c)"
  unfolding typeIdent_def
  by (intro leads_splits leads_const leads_ident leads_name [where opc = OpGlobal and p = 0 and q = 1]) simp_all

lemma leads_fold: "fold_const hk e c = Some c' \<Longrightarrow> leads b n h (Suc h) c c'"
  by (auto simp: fold_const_def leads_const leads_trap split: fold_result.splits)

lemma leads_gates:
  "opCmpGate hk x y pos c = Some c' \<Longrightarrow> leads b n h h' c c'" "opCaseGate hk x y pos c = Some c' \<Longrightarrow> leads b n h h' c c'"
  by (auto simp: opCmpGate_def opCaseGate_def leads_trap)

lemma leads_new_local: "leads b n (Suc h) h c (emit OpNewLocal (int (next_slot c)) b' pos (declare_local x p c))"
proof (rule leads_bounded)
  assume "bounded c"
  then have "next_slot c < next_slot (declare_local x p c)" by (simp add: bounded_def)
  then have "leads b n (Suc h) h (declare_local x p c) (emit OpNewLocal (int (next_slot c)) b' pos (declare_local x p c))"
    using leads_local [of "next_slot c" "declare_local x p c" "Suc h" OpNewLocal b' b n pos] by simp
  then show "leads b n (Suc h) h c (emit OpNewLocal (int (next_slot c)) b' pos (declare_local x p c))"
    by (rule leads_trans [OF leads_declare])
qed

section \<open>Parts of well-formed trees\<close>

lemma well_formed_unparen: "well_formed e \<Longrightarrow> well_formed (unparen e)"
proof (induction e rule: unparen.induct)
  case (1 m x)
  then show ?case using well_formed_child [of "ParenExpr m x" x] by simp
qed simp_all

lemma array_len_expr:
  "x \<in> set (case l of None \<Rightarrow> [] | Some n \<Rightarrow> (case n of BasicLit m k v \<Rightarrow> [] | Ellipsis m t \<Rightarrow> [] | _ \<Rightarrow> [n])) \<Longrightarrow> l = Some x"
proof (cases l)
  case (Some n)
  then show "x \<in> set (case l of None \<Rightarrow> [] | Some n \<Rightarrow> (case n of BasicLit m k v \<Rightarrow> [] | Ellipsis m t \<Rightarrow> [] | _ \<Rightarrow> [n])) \<Longrightarrow> l = Some x"
    by (cases n) simp_all
qed simp

lemma array_lens_well_formed: "well_formed e \<Longrightarrow> x \<in> set (array_lens e) \<Longrightarrow> well_formed x"
proof (induction e rule: node_induct)
  case (1 e)
  have wf: "\<And>c. c \<in> set (children e) \<Longrightarrow> well_formed c" using "1.prems"(1) well_formed_iff by blast
  have "(\<exists>c\<in>set (children e). x \<in> set (array_lens c)) \<or> x \<in> set (children e)"
  proof -
    note x = "1.prems"(2) [unfolded array_lens.simps [of e]]
    show ?thesis
    proof (cases e)
      case (ArrayType m l t)
      then have "x \<in> set (case l of None \<Rightarrow> [] | Some n \<Rightarrow> (case n of BasicLit m k v \<Rightarrow> [] | Ellipsis m t \<Rightarrow> [] | _ \<Rightarrow> [n])) \<or>
          x \<in> set (array_lens t)"
        using x by simp
      then have "l = Some x \<or> x \<in> set (array_lens t)" by (rule disj_forward) (rule array_len_expr)
      then show ?thesis using ArrayType by auto
    next
      case (FuncType m tps ps rs)
      then show ?thesis using x by auto
    next
      case (StructType m fs)
      then show ?thesis using x by auto
    next
      case (InterfaceType m ms)
      then show ?thesis using x by auto
    next
      case (Field m ns t tag)
      then show ?thesis using x by auto
    next
      case (Ellipsis m t)
      then show ?thesis using x by auto
    next
      case (MapType m k v)
      then show ?thesis using x by auto
    qed (use x in simp_all)
  qed
  then show ?case using wf "1.IH" by blast
qed

lemma field_list_well_formed:
  assumes "well_formed t" and "f \<in> set (field_list (ft_Params t)) \<union> set (field_list (ft_Results t))"
  shows "well_formed f"
proof (cases t)
  case (FuncType m tps ps rs)
  have fields: "f \<in> set (field_list x) \<Longrightarrow> \<exists>l. x = Some l \<and> f \<in> set (children l)" for x
    by (cases x; simp add: field_list_def; rename_tac l; case_tac l; simp)
  have "f \<in> set (field_list ps) \<or> f \<in> set (field_list rs)" using assms(2) FuncType by (simp add: ft_Params_def ft_Results_def)
  then obtain l where l: "ps = Some l \<or> rs = Some l" "f \<in> set (children l)" using fields by blast
  then have "l \<in> set (children t)" using FuncType by auto
  then show ?thesis using l(2) well_formed_child assms(1) by blast
qed (use assms in \<open>simp_all add: ft_Params_def ft_Results_def field_list_def\<close>)

lemma field_type_well_formed: "well_formed f \<Longrightarrow> field_type f = Some t \<Longrightarrow> well_formed t"
  by (cases f) (auto simp: field_type_def intro: well_formed_child)

section \<open>The contracts\<close>

definition base_ok :: "lit_base \<Rightarrow> bool" where
  "base_ok lb = (case base_node lb of Some t \<Rightarrow> well_formed t | None \<Rightarrow> True)"

text \<open>Where a statement may stand: one with a fallthrough only in a clause.\<close>

definition allowed :: "reach \<Rightarrow> node \<Rightarrow> bool" where
  "allowed b s \<longleftrightarrow> b = InClause \<or> b = InStmt \<and> falls_free s"

text \<open>The eager operations of an expression, and what is left of it when they are hoisted, are well formed.\<close>

lemma inspect_well_formed:
  assumes "\<And>s n. I s \<Longrightarrow> well_formed n \<Longrightarrow> I (snd (pre s n))" and "I s" and "well_formed n"
  shows "I (inspect pre (\<lambda>s. s) n s)"
  using assms(2,3)
proof (induction n arbitrary: s rule: node_induct)
  case (1 n)
  have "I (fold (inspect pre (\<lambda>s. s)) cs s')" if "I s'" "set cs \<subseteq> set (children n)" for cs s'
    using that by (induction cs arbitrary: s') (use 1 well_formed_child in auto)
  then show ?case using assms(1) [OF "1.prems"] by (subst inspect.simps) simp
qed

lemma hoist_visit_well_formed:
  "list_all well_formed (fst st) \<Longrightarrow> well_formed n \<Longrightarrow> list_all well_formed (fst (snd (hoist_visit hk c st n)))"
  by (cases st; cases n) (auto simp: hoist_visit_def Let_def)

lemma hoisted_well_formed:
  assumes "well_formed e" and "hoistedArgCalls hk c e = Some calls"
  shows "list_all well_formed calls"
proof -
  have "list_all well_formed (fst (inspect (hoist_visit hk c) (\<lambda>s. s) e ([], True)))"
    by (rule inspect_well_formed) (use assms(1) hoist_visit_well_formed in auto)
  then show ?thesis using assms(2) by (auto simp: hoistedArgCalls_def case_prod_beta Let_def split: if_splits)
qed

lemma subst_well_formed: "well_formed e \<Longrightarrow> well_formed (substCallArg subs e)"
proof (induction e rule: node_induct)
  case (1 e)
  have child: "well_formed x \<and> well_formed (substCallArg subs x)" if "x \<in> set (children e)" for x
    using 1 that well_formed_child by blast
  show ?case
  proof (cases "subs e")
    case (Some x)
    then show ?thesis by (subst well_formed_iff) (simp add: substCallArg.simps [of subs e] local_ok_def)
  next
    case None
    define s where "s = substCallArg subs e"
    note eq = substCallArg.simps [of subs e, folded s_def, unfolded None option.case]
    have "local_ok e" using "1.prems" by (simp add: well_formed_iff [of e])
    then have "local_ok s" by (cases e) (simp_all add: eq local_ok_def)
    moreover have "\<forall>x\<in>set (children s). well_formed x" using child by (cases e) (auto simp: eq)
    ultimately show ?thesis unfolding s_def [symmetric] by (subst well_formed_iff) blast
  qed
qed

lemma leads_special_op:
  "leads b n h (Suc h) c (emit3 OpSpecialCall i j 0 pos (c\<lparr>c_ch := (c_ch c)\<lparr>ch_Consts := ch_Consts (c_ch c) @ ks\<rparr>\<rparr>))"
proof -
  let ?ins = "\<lparr>i_Op = OpSpecialCall, i_A = i, i_B = j, i_C = 0, i_Pos = pos\<rparr>"
  have "emit3 OpSpecialCall i j 0 pos (c\<lparr>c_ch := (c_ch c)\<lparr>ch_Consts := ch_Consts (c_ch c) @ ks\<rparr>\<rparr>) = add_ins ?ins ks c"
    by (simp add: emit3_def add_ins_def)
  moreover have "leads b n h (Suc h) c (add_ins ?ins ks c)"
    by (rule leads_add) (simp_all add: plain_def takes_def falls_to_def branches_to_def operands_ok_def)
  ultimately show ?thesis by simp
qed

text \<open>The type expressions the static analysis finds are well formed, like those written in the source.\<close>

locale typed_hooks =
  fixes hk :: "'t chooks"
  assumes logical_type: "q_logicalNamed hk e c = Some t \<Longrightarrow> well_formed t"
    and literal_type: "q_litTypeAt hk te d c = (Some t, p) \<Longrightarrow> well_formed t"
    and inferred_type: "q_inferredBind hk k rhs i c = Some t \<Longrightarrow> well_formed t"

lemma note_slots [simp]:
  "next_slot (on_scope (noteDeclTyp x t) c) = next_slot c" "next_slot (on_scope (markIface x) c) = next_slot c"
  "c_fs (on_scope f c) = [] \<longleftrightarrow> c_fs c = []" "next_slot (snd (fresh base c)) = next_slot c" "c_fs (snd (fresh base c)) = c_fs c"
  "c_fs (declare_local x p c) = [] \<longleftrightarrow> c_fs c = []"
  by (cases t; auto simp: next_slot_def cur_scope_def on_scope_def noteDeclTyp_def markIface_def fresh_def declare_local_def
      split: list.splits)+

locale typed_comp = typed_hooks hk for hk :: "'t chooks" +
  fixes K :: "'t comp"
  assumes expr: "well_formed e \<Longrightarrow> leads b n h (Suc h) c (k_expr K e c)"
    and type_op: "well_formed e \<Longrightarrow> leads b n h (Suc h) c (k_type K e c)"
    and storage: "well_formed e \<Longrightarrow> leads b n h (Suc h) c (k_ref K pin e c)"
    and lit: "well_formed e \<Longrightarrow> base_ok lb \<Longrightarrow> leads b n h (Suc h) c (k_lit K lb d e c)"
    and stmt: "well_formed s \<Longrightarrow> allowed b s \<Longrightarrow> leads b n 0 0 c (k_stmt K s c)"

context typed_comp
begin

lemmas comp_rules = expr type_op storage

section \<open>Storage references and selectors\<close>

lemma leads_refTargetBase:
  assumes "well_formed e"
  shows "leads b n h (Suc h) c (refTargetBase hk K e pin c)"
proof (cases "\<exists>m x. e = Ident m x")
  case True
  then obtain m x where "e = Ident m x" by blast
  then show ?thesis
    using leads_trans [OF leads_captures expr [OF assms]] leads_trans [OF leads_captures storage [OF assms]]
    by (simp add: refTargetBase_def)
next
  case False
  then have "refTargetBase hk K e pin c = (if storageShape e False then k_ref K pin e c else k_expr K e c)"
    by (simp add: refTargetBase_def split: node.split)
  then show ?thesis using expr [OF assms] storage [OF assms] by simp
qed

lemma leads_refable: "leads b n h h c (snd (refableIndexBase hk e c))"
  unfolding refableIndexBase_def
  by (cases "unparen e"; simp only: node.case snd_conv leads_refl) (simp split: node.split add: leads_refl leads_captures)

lemma leads_selectorBase:
  assumes "well_formed x"
  shows "leads b n h (Suc h) c (selectorBase hk K x c)"
proof (cases "\<exists>m b' i. unparen x = IndexExpr m b' i")
  case True
  then obtain m b' i where x: "unparen x = IndexExpr m b' i" by blast
  then have wf: "well_formed b'" "well_formed i" using well_formed_unparen [OF assms] well_formed_child by fastforce+
  obtain r c1 where r: "refableIndexBase hk b' c = (r, c1)" by fastforce
  then have 1: "leads b n h h c c1" using leads_refable [of b n h c b'] by simp
  have "leads b n h (Suc h) c1 (if r then seq [refTargetBase hk K b' False, k_expr K i, emit OpIndexRef 0 1 (q_brack hk (unparen x))] c1 else k_expr K x c1)"
    by (rule leads_if leads_seqs leads_refTargetBase comp_rules leads_emit wf assms | simp)+
  then have "leads b n h (Suc h) c (if r then seq [refTargetBase hk K b' False, k_expr K i, emit OpIndexRef 0 1 (q_brack hk (unparen x))] c1 else k_expr K x c1)"
    by (rule leads_trans [OF 1])
  then show ?thesis using expr [OF assms] by (cases r) (simp_all add: selectorBase_def x r)
next
  case False
  then have "selectorBase hk K x c = (if selectorBaseIsVar c x then refTargetBase hk K x False c else k_expr K x c)"
    by (simp add: selectorBase_def split: node.split)
  then show ?thesis using leads_refTargetBase [OF assms] expr [OF assms] by simp
qed

lemma leads_selector: "well_formed x \<Longrightarrow> leads b n h (Suc h) c (selector_expr hk K x sel c)"
  unfolding selector_expr_def
  by (rule leads_seqs leads_selectorBase leads_name [where opc = OpSelect and p = 1 and q = 1] | simp)+

section \<open>Types\<close>

lemma leads_type_const:
  assumes "well_formed e"
  shows "leads b n h (Suc h) c (type_const hk K e c)"
  unfolding type_const_def emitLenFolds_def
  by (rule leads_trans [OF leads_const], rule leads_seq_concat0)
    (rule leads_seqs expr array_lens_well_formed [OF assms] leads_emit | simp)+

lemma leads_local_type:
  "leads b n h (Suc h) c (p c) \<Longrightarrow> leads b n h (Suc h) c (seq [p, emit OpLocalType 0 0 pos] c)"
  by (rule leads_seqs leads_emit | assumption | simp)+

lemma leads_type:
  assumes e: "well_formed e"
  shows "leads b n h (Suc h) c (type_expr hk K e c)"
proof -
  have wf: "c \<in> set (children e) \<Longrightarrow> well_formed c" for c using e by (rule well_formed_child)
  show ?thesis
  proof (cases e)
    case (SelectorExpr m x sel)
    then show ?thesis using wf leads_selector by (simp add: type_expr_def leads_local_type)
  next
    case (ParenExpr m x)
    then show ?thesis using wf type_op by (simp add: type_expr_def leads_local_type)
  next
    case (IndexExpr m x i)
    then have "well_formed x" "well_formed i" using wf by simp_all
    then show ?thesis
      by (simp add: IndexExpr type_expr_def) (rule leads_local_type, (rule leads_seqs comp_rules leads_emit | simp)+)
  next
    case (IndexListExpr m x "is")
    then have "well_formed x" "\<And>i. i \<in> set is \<Longrightarrow> well_formed i" using wf by simp_all
    then show ?thesis
      by (simp add: IndexListExpr type_expr_def)
        (rule leads_local_type, (rule leads_seqs leads_seq_map1 comp_rules leads_emit | simp)+)
  qed (use e leads_type_const [OF e] in \<open>simp_all add: type_expr_def leads_local_type leads_trap leads_typeIdent\<close>)
qed

lemma staticTyp_unparen: "staticTyp hk K e c = staticTyp hk K (unparen e) c"
  by (induction e rule: unparen.induct) simp_all

lemma leads_staticTyp:
  assumes "well_formed e"
  shows "leads b n h (Suc h) c (staticTyp hk K e c)"
proof -
  have wf: "well_formed (unparen e)" using assms by (rule well_formed_unparen)
  have nil: "leads b n h (Suc h) c (emit OpNil 0 0 pos c)" for pos by (simp add: leads_emit')
  have "leads b n h (Suc h) c (staticTyp hk K (unparen e) c)"
  proof (cases "unparen e")
    case (Ident m x)
    let ?k = "\<lambda>r c. case r of
         None \<Rightarrow> (if c_binds c x \<noteq> None then emit OpNil 0 0 (npos m) c else emit_k OpGlobalTyp (KStr x) 0 (npos m) c)
       | Some (False, idx) \<Rightarrow> emit OpLocalTyp (int idx) 0 (npos m) c
       | Some (True, idx) \<Rightarrow> emit OpUpvalTyp (int idx) 0 (npos m) c"
    have "leads b n h (Suc h) c (with_ref x ?k c)"
    proof (rule leads_with_ref)
      fix r fs'
      let ?c = "c\<lparr>c_fs := fs'\<rparr>"
      assume ok: "ref_ok fs' r" "fs' \<noteq> []"
      show "leads b n h (Suc h) ?c (?k r ?c)"
      proof (cases r)
        case None
        then show ?thesis using nil [of "npos m"] by (simp add: leads_emit' leads_name)
      next
        case (Some q)
        obtain up i where q: "q = (up, i)" by fastforce
        note bd = ref_ok_cases [OF ok(1) Some [unfolded q], of ?c, simplified]
        have "leads b n h (Suc h) ?c (emit OpLocalTyp (int i) 0 (npos m) ?c)" if "\<not> up"
          using leads_local [of i ?c h OpLocalTyp 0 b n "npos m"] bd(2) [OF that] by simp
        then show ?thesis using Some q bd leads_upval(2) [of i ?c] by (cases up) auto
      qed
    qed
    then show ?thesis using Ident by simp
  next
    case (CallExpr m f as)
    have f: "well_formed f" using CallExpr wf well_formed_child [of "unparen e" f] by simp
    show ?thesis
    proof (cases "conversionCall hk c f")
      case True
      then show ?thesis using type_op [OF f] CallExpr by simp
    next
      case conv: False
      show ?thesis
      proof (cases f)
        case (FuncLit m' t b')
        have t: "well_formed t" using f FuncLit well_formed_child [of f t] by simp
        have "leads b n h (Suc h) c (k_type K rt c)" if "field_list (ft_Results t) = [r]" "field_type r = Some rt" for r rt
          by (rule type_op, rule field_type_well_formed [OF field_list_well_formed [OF t]]) (use that in simp_all)
        then show ?thesis using FuncLit conv CallExpr nil by (simp split: list.split option.split bool.split)
      qed (use conv CallExpr nil in simp_all)
    qed
  next
    case (ParenExpr m x)
    have "unparen e' \<noteq> ParenExpr m x" for e' by (induction e' rule: unparen.induct) simp_all
    then show ?thesis using ParenExpr by simp
  qed (simp_all add: nil)
  then show ?thesis using staticTyp_unparen [of e c] by simp
qed

lemma leads_lenDerefStaticTyp: "well_formed e \<Longrightarrow> leads b n h (Suc h) c (lenDerefStaticTyp hk K e c)"
proof (induction e arbitrary: c rule: node_induct)
  case (1 e)
  have wf: "x \<in> set (children e) \<Longrightarrow> well_formed x" for x using "1.prems" by (rule well_formed_child)
  then have IH: "x \<in> set (children e) \<Longrightarrow> leads b n h (Suc h) c (lenDerefStaticTyp hk K x c)" for x c using "1.IH" by blast
  show ?case
  proof (cases e)
    case (IndexExpr m x i)
    then show ?thesis using leads_emit_after [OF IH [of x c], of OpElemTypeOrNil 0 0] by simp
  next
    case (TypeAssertExpr m x t)
    then show ?thesis using wf type_op by (cases t) (simp_all add: leads_emit')
  qed (use IH leads_staticTyp [OF "1.prems"] in simp_all)
qed

section \<open>Operators\<close>

lemma leads_address_of:
  assumes "well_formed x"
  shows "leads b n h (Suc h) c (address_of hk K m x c)"
proof -
  have wf: "c \<in> set (children x) \<Longrightarrow> well_formed c" for c using assms by (rule well_formed_child)
  show ?thesis
  proof (cases x)
    case (CompositeLit m' t es)
    then show ?thesis using assms by (simp add: address_of_def) (rule leads_seqs comp_rules leads_emit | simp)+
  next
    case (SelectorExpr m' x' sel)
    then have "well_formed x'" using wf by simp
    then show ?thesis
      by (simp add: SelectorExpr address_of_def)
        (rule leads_seqs leads_refTargetBase leads_name [where opc = OpFieldRef and p = 1 and q = 1] | simp)+
  next
    case (IndexExpr m' x' i)
    then have "well_formed x'" "well_formed i" using wf by simp_all
    then show ?thesis by (simp add: IndexExpr address_of_def) (rule leads_seqs comp_rules leads_emit | simp)+
  next
    case (StarExpr m' x')
    then have "well_formed x'" using wf by simp
    then show ?thesis by (simp add: StarExpr address_of_def) (rule leads_seqs comp_rules leads_emit | simp)+
  next
    case (ParenExpr m' x')
    then have "well_formed x'" using wf by simp
    then have "well_formed (UnaryExpr m AND_T x')" using well_formed_iff [of "UnaryExpr m AND_T x'"] by (simp add: local_ok_def)
    then show ?thesis using expr by (simp add: ParenExpr address_of_def)
  qed (simp_all add: address_of_def leads_trap leads_refRef)
qed

lemma leads_unary:
  assumes "well_formed x"
  shows "leads b n h (Suc h) c (unary hk K m t x c)"
  unfolding unary_def
  by (rule leads_splits leads_fold leads_address_of [OF assms] leads_seqs expr [OF assms] leads_emit leads_trap | assumption | simp)+

lemma leads_exprs: "list_all well_formed es \<Longrightarrow> leads b n h (length es + h) c (seq (map (k_expr K) es) c)"
  by (rule leads_seq_map1, rule expr) (simp add: list_all_iff)

lemma leads_hoist_calls:
  "list_all well_formed es \<Longrightarrow> leads b n h h c (snd (hoist_calls hk K pre es c))"
proof (induction es arbitrary: c)
  case (Cons e es)
  define x where "x = fst (fresh pre (k_expr K e c))"
  define c1 where "c1 = snd (fresh pre (k_expr K e c))"
  define c3 where "c3 = (if isIfaceExpr hk (declare_local x (pos_of e) c1) e then on_scope (markIface x) (declare_local x (pos_of e) c1)
    else declare_local x (pos_of e) c1)"
  define t where "t = t_te (q_staticOpTyp hk e c3)"
  define c4 where "c4 = (if t = None then c3 else on_scope (noteDeclTyp x t) c3)"
  have 1: "leads b n h (Suc h) c c1"
    unfolding c1_def by (rule leads_trans [OF expr leads_fresh]) (use Cons.prems in simp)
  have marks: "leads b n h' h' (declare_local x (pos_of e) c1) c4" for b n h'
    unfolding c4_def c3_def
    by (rule leads_if [OF _ leads_trans [OF _ leads_marks(2)]]; rule leads_if [OF leads_marks(1) leads_refl])
  have "leads b n (Suc h) h c1 (emit OpNewLocal (int (next_slot c1)) 0 (pos_of e) c4)"
  proof (rule leads_assume)
    fix L ht
    assume t: "typed L c1 ht" "last ht = Suc h" "n \<le> next_slot c1"
    have d: "leads InExpr 0 (Suc h) (Suc h) c1 c4" by (rule leads_trans [OF leads_declare marks])
    have "next_slot c1 < next_slot (declare_local x (pos_of e) c1)" using typed_fs [OF t(1)] by simp
    moreover have "next_slot c4 = next_slot (declare_local x (pos_of e) c1)" by (simp add: c4_def c3_def)
    ultimately have "leads b (next_slot c4) (Suc h) h c4 (emit OpNewLocal (int (next_slot c1)) 0 (pos_of e) c4)"
      by (intro leads_emit') simp_all
    then show "leads b n (Suc h) h c1 (emit OpNewLocal (int (next_slot c1)) 0 (pos_of e) c4)"
      by (rule leads_trans [OF leads_trans [OF leads_declare marks] leads_slots])
  qed
  from leads_trans [OF leads_trans [OF 1 this] Cons.IH] Cons.prems
  show ?case
    unfolding hoist_calls.simps Let_def case_prod_beta snd_conv x_def [symmetric] c1_def [symmetric] c3_def [symmetric] t_def [symmetric]
      c4_def [symmetric] by simp
qed (simp add: leads_refl)

lemma leads_hoist:
  assumes h: "hoistEagerOps hk K pre es c = Some (subs, c')" and es: "list_all well_formed es"
  shows "leads b n h (length es + h) c (seq (map (k_expr K) subs) c')"
proof -
  define calls where "calls = concat (map (\<lambda>e. the (hoistedArgCalls hk c e)) es)"
  have r: "None \<notin> set (map (hoistedArgCalls hk c) es)"
    and c': "c' = snd (hoist_calls hk K pre calls c)"
    and subs: "subs = map (substCallArg (map_of (rev (fst (hoist_calls hk K pre calls c))))) es"
    using h by (auto simp: hoistEagerOps_def Let_def case_prod_beta calls_def o_def split: if_splits)
  have "list_all well_formed calls"
    using r es by (force simp: calls_def list_all_iff image_iff dest: hoisted_well_formed)
  then have 1: "leads b n h h c c'" unfolding c' by (rule leads_hoist_calls)
  have "list_all well_formed subs" using es by (auto simp: subs list_all_iff intro: subst_well_formed)
  from leads_trans [OF 1 leads_exprs [OF this]] show ?thesis by (simp add: subs)
qed

lemma leads_binaryOperands:
  assumes "well_formed x" and "well_formed y"
  shows "leads b n h (Suc (Suc h)) c (binaryOperands hk K x y c)"
proof (cases "hoistEagerOps hk K ''$bin'' [x, y] c")
  case None
  have "leads b n h (Suc (Suc h)) c (seq [k_expr K y, k_expr K x, emit OpSwap 0 0 (pos_of x)] c)"
    by (rule leads_seqs expr assms leads_emit | simp)+
  moreover have "leads b n h (Suc (Suc h)) c (seq [k_expr K x, k_expr K y] c)" by (rule leads_seqs expr assms | simp)+
  ultimately show ?thesis by (simp add: binaryOperands_def None)
next
  case (Some p)
  obtain subs c' where p: "p = (subs, c')" by fastforce
  have "leads b n h (length [x, y] + h) c (seq (map (k_expr K) subs) c')"
    by (rule leads_hoist) (use Some p assms in simp_all)
  then show ?thesis by (simp add: binaryOperands_def Some p)
qed

lemma leads_logical:
  assumes "well_formed x" and "well_formed y"
  shows "leads b n h (Suc h) c (logical hk K m x t y c)"
proof -
  let ?c1 = "seq [k_expr K x, emit OpDup 0 0 (npos m)] c"
  let ?c2 = "seq [emit (if t = LOR then OpJumpTrue else OpJumpFalse) 0 0 (npos m), emit OpPop 0 0 (npos m), k_expr K y] ?c1"
  let ?c3 = "patchA (here ?c1) (here ?c2) ?c2"
  have 1: "leads b n h (Suc (Suc h)) c ?c1" by (rule leads_seqs expr assms leads_emit | simp)+
  have "leads b n (Suc h) (Suc h) c (seq [emit OpPop 0 0 (npos m), k_expr K y] c)" for c
    by (rule leads_seqs expr assms leads_emit | simp)+
  then have "leads b n (Suc h) (Suc h) (emit j 0 0 (npos m) ?c1) (seq [emit OpPop 0 0 (npos m), k_expr K y] (emit j 0 0 (npos m) ?c1))" for j .
  moreover have "leaves b n (Suc (Suc h)) (Suc h) {(here ?c1, Suc h)} {} {} ?c1 (emit (if t = LOR then OpJumpTrue else OpJumpFalse) 0 0 (npos m) ?c1)"
    by (simp add: leaves_jumps)
  ultimately have "leads b n (Suc (Suc h)) (Suc h) ?c1 ?c3"
    unfolding seq_simps(2) [of "emit (if t = LOR then OpJumpTrue else OpJumpFalse) 0 0 (npos m)"] by (rule leads_jump_over [rotated])
  then have 3: "leads b n h (Suc h) c ?c3" by (rule leads_trans [OF 1])
  have coerce: "leads b n (Suc h) (Suc h) c (seq [k_type K te, emit OpCoerceTop 0 0 (npos m)] c)" if "well_formed te" for c te
    by (rule leads_seqs type_op that leads_emit | simp)+
  show ?thesis
    unfolding logical_def Let_def by (rule leads_option) (rule 3, rule leads_trans [OF 3 coerce], erule logical_type)
qed

lemma leads_binary:
  assumes "well_formed x" and "well_formed y"
  shows "leads b n h (Suc h) c (binary hk K m x t y c)"
proof -
  let ?c1 = "binaryOperands hk K x y c"
  have "leads b n (Suc (Suc h)) (Suc h) ?c1 (seq [emit OpBinary k 0 (npos m),
      if q then emit OpUnary (unop_number NOT_T) 0 (npos m) else skip] ?c1)" for k q
    by (cases q; (rule leads_seqs leads_emit leads_skip | simp)+)
  moreover have "leads b n (Suc (Suc h)) (Suc h) ?c1 (emit OpBinary k b' (npos m) ?c1)" for k b'
    by (simp add: leads_emit')
  ultimately have ops: "leads b n h (Suc h) c (seq [emit OpBinary k 0 (npos m),
      if q then emit OpUnary (unop_number NOT_T) 0 (npos m) else skip] ?c1)"
    "leads b n h (Suc h) c (emit OpBinary k b' (npos m) ?c1)" for k q b'
    using leads_trans [OF leads_binaryOperands [OF assms]] by blast+
  show ?thesis
    unfolding binary_def Let_def
    by (intro leads_if leads_option ops leads_logical [OF assms] leads_trap) (auto intro: leads_gates leads_fold split: if_splits)
qed

section \<open>Calls\<close>

lemma leads_callArgs:
  assumes "list_all well_formed as"
  shows "leads b n h (length as + h) c (callArgs hk K as c)"
  unfolding callArgs_def using leads_exprs [OF assms] leads_hoist [OF _ assms] by (auto split: option.split)

lemma leads_argStatics: "list_all well_formed as \<Longrightarrow> leads b n h (length as + h) c (argStatics hk K as c)"
  unfolding argStatics_def by (rule leads_seq_map1, rule leads_staticTyp) (simp add: list_all_iff)

lemma leads_calleeExpr:
  assumes f: "well_formed f"
  shows "leads b n h (Suc h) c (calleeExpr hk K f c)"
proof -
  have base: "leads b n h (Suc h) c (k_expr K f (captures y c))" for y by (rule leads_trans [OF leads_captures expr [OF f]])
  show ?thesis
  proof (cases f)
    case (SelectorExpr m x sel)
    have x: "well_formed x" using f SelectorExpr well_formed_child [of f x] by simp
    have "leads b n h (Suc h) (captures y c) (seq [selectorBase hk K x, emit_k OpSelectCall (KStr (ident_name sel)) 0 (pos_of sel)] (captures y c))" for y
      by (rule leads_seqs leads_selectorBase [OF x] leads_name [where opc = OpSelectCall and p = 1 and q = 1] | simp)+
    then have "leads b n h (Suc h) c (seq [selectorBase hk K x, emit_k OpSelectCall (KStr (ident_name sel)) 0 (pos_of sel)] (captures y c))" for y
      by (rule leads_trans [OF leads_captures])
    then show ?thesis using type_op [OF f] expr [OF f] base
      by (cases "unparen x") (simp_all add: calleeExpr_def SelectorExpr)
  qed (use type_op [OF f] expr [OF f] in \<open>simp_all add: calleeExpr_def\<close>)
qed

lemma leads_len_index:
  assumes "well_formed f" and "well_formed x" and "well_formed i"
  shows "leads b n h (Suc h) c (len_index hk K pos f a x i c)"
proof -
  let ?c1 = "seq [calleeExpr hk K f, k_expr K x] c"
  have 1: "leads b n h (Suc (Suc h)) c ?c1" by (rule leads_seqs leads_calleeExpr expr assms | simp)+
  have "leads b n (Suc (Suc h)) (Suc h) c (seq [k_expr K i, emit OpIndex 0 0 (q_brack hk a), emit OpNil 0 0 pos, emit OpCall 1 0 pos] c)" for c
    by (rule leads_seqs leads_emit expr assms | simp)+
  then have "leads b n (Suc (Suc h)) (Suc h) ?c1 (len_index hk K pos f a x i c)"
    unfolding len_index_def Let_def seq_simps(2) [of "emit OpLenIdxFold 0 0 pos"] by (rule leads_jump_over [OF leaves_jumps(4)])
  then show ?thesis by (rule leads_trans [OF 1])
qed

lemma leads_len_call:
  assumes "well_formed f" and "list_all well_formed as" and "length as = 1"
  shows "leads b n h (Suc h) c (len_call hk K pos f as ell is_cap c)"
proof -
  let ?c1 = "seq [calleeExpr hk K f, callArgs hk K as] c"
  have a: "well_formed (hd as)" using assms(2,3) by (cases as) simp_all
  have 1: "leads b n h (Suc (Suc h)) c ?c1"
    by (rule leads_seqs leads_calleeExpr leads_callArgs assms | simp add: assms(3))+
  have "leads b n (Suc (Suc h)) (Suc h) c (seq [staticTyp hk K (hd as), emit OpCall 1 (callSpread as ell) pos] c)" for c
    by (rule leads_seqs leads_emit leads_staticTyp a | simp)+
  then have "leads b n (Suc (Suc h)) (Suc h) ?c1 (len_call hk K pos f as ell is_cap c)"
    unfolding len_call_def Let_def seq_simps(2) [of "emit OpLenCallFold 0 (if is_cap then 1 else 0) pos"]
    by (rule leads_jump_over [OF leaves_jumps(7)])
  then show ?thesis by (rule leads_trans [OF 1])
qed

lemma leads_len_deref:
  assumes "well_formed f" and "well_formed p"
  shows "leads b n h (Suc h) c (len_deref hk K pos f a p c)"
proof -
  let ?c1 = "seq [calleeExpr hk K f, lenDerefStaticTyp hk K p] c"
  let ?c2 = "seq [emit OpLenDerefFold 0 0 pos, k_expr K p] ?c1"
  let ?c3 = "seq [emit OpLenDerefFold 0 1 pos, emit OpDeref 0 0 (pos_of a), emit OpNil 0 0 pos, emit OpCall 1 0 pos] ?c2"
  have 1: "leads b n h (Suc (Suc h)) c ?c1" by (rule leads_seqs leads_calleeExpr leads_lenDerefStaticTyp assms | simp)+
  have 2: "leaves b n (Suc (Suc h)) (Suc (Suc h)) {(here ?c1, Suc h)} {} {} ?c1 ?c2"
    unfolding seq_simps by (rule leaves_then [OF leaves_jumps(5) expr [OF assms(2)]])
  have "leads b n (Suc (Suc h)) (Suc h) c (seq [emit OpDeref 0 0 (pos_of a), emit OpNil 0 0 pos, emit OpCall 1 0 pos] c)" for c
    by (rule leads_seqs leads_emit | simp)+
  then have "leaves b n (Suc (Suc h)) (Suc h) {(here ?c2, Suc h)} {} {} ?c2 ?c3"
    unfolding seq_simps(2) [of "emit OpLenDerefFold 0 1 pos"] by (rule leaves_then [OF leaves_jumps(6)])
  from leaves_trans [OF 2 this] have "leaves b n (Suc (Suc h)) (Suc h) {(here ?c1, Suc h), (here ?c2, Suc h)} {} {} ?c1 ?c3"
    by (simp add: insert_commute)
  then have "leaves b n (Suc (Suc h)) (Suc h) {} {} {} ?c1 (patch_all [here ?c1, here ?c2] (here ?c3) ?c3)"
    by (intro leaves_patch_all) (simp add: insert_commute)
  then have "leads b n (Suc (Suc h)) (Suc h) ?c1 (len_deref hk K pos f a p c)"
    by (simp add: leaves_leads len_deref_def Let_def)
  then show ?thesis by (rule leads_trans [OF 1])
qed

lemma leads_plain_call:
  assumes f: "well_formed f" and as: "list_all well_formed as"
  shows "leads b n h (Suc h) c (plain_call hk K pos f as ell c)"
proof -
  let ?c1 = "calleeExpr hk K f c"
  have args: "leads b n (Suc h) (length as + Suc h) ?c1 (case as of
      [] \<Rightarrow> callArgs hk K [] ?c1
    | a # rest \<Rightarrow> if q a then seq [k_type K a, callArgs hk K rest] ?c1 else callArgs hk K as ?c1)" for q
  proof (cases as)
    case Nil
    then show ?thesis using leads_callArgs [OF as, of b n "Suc h" ?c1] by simp
  next
    case (Cons a rest)
    then have "leads b n (Suc h) (length rest + Suc (Suc h)) ?c1 (seq [k_type K a, callArgs hk K rest] ?c1)"
      by (rule_tac leads_seqs type_op leads_callArgs | use as in simp)+
    then show ?thesis using Cons leads_callArgs [OF as, of b n "Suc h" ?c1] by simp
  qed
  have "leads b n (length as + Suc h) (Suc h) c (seq [argStatics hk K as, emit OpCall (int (length as)) (callSpread as ell) pos] c)" for c
    by (rule leads_seqs leads_emit leads_argStatics as | simp)+
  then show ?thesis
    unfolding plain_call_def Let_def by (rule leads_trans [OF leads_calleeExpr [OF f] leads_trans [OF args]])
qed

lemma leads_special:
  assumes f: "well_formed f" and as: "list_all well_formed as" and s: "special_call hk K pos ce f as c = Some c'"
  shows "leads b n h (Suc h) c c'"
proof -
  have registered: "leads b n h (Suc h) c c'" if "trySpecial hk pos path x ce c = Some c'" for path x
    using that by (auto simp: trySpecial_def Let_def intro!: leads_special_op)
  have size: "leads b n h (Suc h) c (size_call hk K pos f a c)" if a: "well_formed a" for a
  proof -
    have x: "well_formed (unparen a)" using a by (rule well_formed_unparen)
    have base: "leads b n h (Suc h) c ((case unparen a of IndexExpr m b i \<Rightarrow> staticTyp hk K b | _ \<Rightarrow> emit OpNil 0 0 pos) c)" for h c
      using x well_formed_child [OF x] by (cases "unparen a") (simp_all add: leads_emit' leads_staticTyp)
    show ?thesis
      unfolding size_call_def Let_def by (rule leads_seqs leads_calleeExpr f expr a leads_staticTyp x base leads_emit | simp)+
  qed
  have offset: "leads b n h (Suc h) c (offset_call hk K pos f y sel c)" if y: "well_formed y" for y sel
  proof -
    have args: "list_all well_formed [y, BasicLit (nmeta sel) STRING (goQuote (ident_name sel))]"
      using y by (simp add: well_formed_iff [of "BasicLit m t v" for m t v] local_ok_def)
    have "leads b n h (Suc h) c (seq [calleeExpr hk K f, callArgs hk K [y, BasicLit (nmeta sel) STRING (goQuote (ident_name sel))],
        argStatics hk K [y, BasicLit (nmeta sel) STRING (goQuote (ident_name sel))], emit OpCall 2 0 pos] c)"
      by (rule leads_seqs leads_calleeExpr f leads_callArgs leads_argStatics args leads_emit | simp)+
    then show ?thesis by (simp add: offset_call_def Let_def)
  qed
  obtain path x where ref: "selTypRef hk c (unwrap_callee f) = Some (path, x)" using s by (auto simp: special_call_def split: option.splits)
  show ?thesis
  proof (cases "path = ''unsafe'' \<and> (\<exists>a. as = [a])")
    case False
    then have "special_call hk K pos ce f as c = trySpecial hk pos path x ce c"
      by (auto simp: special_call_def ref split: list.split bool.split)
    then show ?thesis using s registered by simp
  next
    case True
    then obtain a where a: "path = ''unsafe''" "as = [a]" by blast
    then have wf: "well_formed a" using as by simp
    show ?thesis
    proof (cases "(x = ''Sizeof'' \<or> x = ''Alignof'') \<or> \<not> (\<exists>m y sel. a = SelectorExpr m y sel)")
      case True
      then have "special_call hk K pos ce f as c =
          (if x = ''Sizeof'' \<or> x = ''Alignof'' then Some (size_call hk K pos f a c) else trySpecial hk pos path x ce c)"
        by (cases a) (auto simp: special_call_def ref a)
      then show ?thesis using s registered size [OF wf] by (auto split: if_splits)
    next
      case False
      then obtain m y sel where sel: "a = SelectorExpr m y sel" by blast
      then have "well_formed y" using wf well_formed_child [of a y] by simp
      then show ?thesis using s registered offset False by (auto simp: special_call_def ref a sel split: if_splits)
    qed
  qed
qed

lemma leads_call:
  assumes f: "well_formed f" and as: "list_all well_formed as"
  shows "leads b n h (Suc h) c (call_expr hk K pos ce f as ell c)"
proof -
  show ?thesis
  proof (cases "special_call hk K pos ce f as c")
    case (Some c')
    then show ?thesis using leads_special [OF f as Some] by (simp add: call_expr_def)
  next
    case special: None
    show ?thesis
    proof (cases "unwrap_callee f")
      case (Ident m x)
      show ?thesis
      proof (cases "(x = ''len'' \<or> x = ''cap'') \<and> length as = 1 \<and> \<not> ell \<and> \<not> declared_name c x")
        case True
        then obtain a where a: "as = [a]" by (cases as) auto
        have wf: "x \<in> set (children a) \<Longrightarrow> well_formed x" for x using as a well_formed_child by simp
        note call = leads_len_call [OF f as, of b n h c pos ell "x = ''cap''"]
        have "leads b n h (Suc h) c (len_index hk K pos f a y i c)" if "a = IndexExpr m' y i" for m' y i
          by (rule leads_len_index) (use f wf that in simp_all)
        moreover have "leads b n h (Suc h) c (len_deref hk K pos f a p c)" if "a = StarExpr m' p" for m' p
          by (rule leads_len_deref) (use f wf that in simp_all)
        ultimately show ?thesis using True call special Ident a by (cases a) (simp_all add: call_expr_def)
      next
        case False
        then show ?thesis using leads_plain_call [OF f as] by (simp only: call_expr_def special Ident if_False option.case node.case)
      qed
    qed (use leads_plain_call [OF f as] special in \<open>simp_all add: call_expr_def\<close>)
  qed
qed

section \<open>Composite literals\<close>

lemma leads_emit_base: "base_ok lb \<Longrightarrow> leads b n h (Suc h) c (emit_base hk K lb c)"
  by (auto simp: emit_base_def base_ok_def leads_crash type_op base_node_def split: lit_base.split option.split)

lemma leads_lit_value:
  assumes "well_formed e" and "base_ok lb"
  shows "leads b n h (Suc h) c (lit_value_expr hk K lb d e c)"
  unfolding lit_value_expr_def by (intro leads_if lit expr assms)

lemma leads_lit_key:
  assumes k: "well_formed k" and lb: "base_ok lb"
  shows "leads b n h (Suc h) c (lit_key_expr hk K lb d exprs k c)"
proof (cases "elided_lit k")
  case True
  have "leads b n h (Suc h) c (k_lit K (Found kt) 0 k c)" if "fst (q_litTypeAt hk te d' c) = Some (MapType m kt vt)" for te d' m kt vt
  proof (rule lit [OF k])
    have "well_formed (MapType m kt vt)" using that by (intro literal_type) (simp add: prod_eq_iff)
    then show "base_ok (Found kt)" using well_formed_child [of "MapType m kt vt" kt] by (simp add: base_ok_def base_node_def)
  qed
  then show ?thesis
    using True expr [OF k] by (auto simp: lit_key_expr_def split: option.split node.split)
next
  case False
  then show ?thesis using expr [OF k] by (cases k) (simp_all add: lit_key_expr_def leads_const)
qed

lemma leads_lit_element:
  assumes e: "well_formed e" and lb: "base_ok lb" and kv: "is_kv e \<longrightarrow> kv"
  shows "leads b n h ((if kv then 2 else 1) + h) c (lit_element hk K lb d kv exprs e c)"
proof (cases "is_kv e")
  case True
  then obtain m k v where kve: "e = KeyValueExpr m k v" by (cases e) (simp_all add: is_kv_def)
  then have wf: "well_formed k" "well_formed v" using e well_formed_child [of e] by simp_all
  have "leads b n h (2 + h) c (seq [lit_key_expr hk K lb d exprs k, lit_value_expr hk K lb d v] c)"
    by (rule leads_seqs leads_lit_key leads_lit_value wf lb | simp)+
  then show ?thesis using kve kv True by (simp add: lit_element_def)
next
  case False
  have 2: "leads b n h (2 + h) c (seq [emit_k OpConst KImplicit 0 (pos_of e), lit_value_expr hk K lb d e] c)"
    by (rule leads_seqs leads_const leads_lit_value e lb | simp)+
  have "lit_element hk K lb d kv exprs e =
      (if kv then seq [emit_k OpConst KImplicit 0 (pos_of e), lit_value_expr hk K lb d e] else lit_value_expr hk K lb d e)"
    using False by (cases e) (simp_all add: lit_element_def is_kv_def)
  then show ?thesis using 2 leads_lit_value [OF e lb] by simp
qed

lemma leads_compileLit:
  assumes es: "list_all well_formed es" and lb: "base_ok lb"
  shows "leads b n h (Suc h) c (compileLit hk K lb d m es c)"
proof -
  let ?c1 = "seq (emit_base hk K lb # replicate d (emit OpElemType 0 0 (npos m))) c" and ?kv = "list_ex is_kv es"
  have elem: "leads b n (Suc h) (Suc h) c (seq (replicate d (emit OpElemType 0 0 (npos m))) c)" for c
  proof (induction d arbitrary: c)
    case (Suc d)
    show ?case by (simp only: replicate.simps) (rule leads_seq_Cons [OF leads_emit' Suc.IH]; simp)
  qed (simp add: leads_seq_Nil)
  have 1: "leads b n h (Suc h) c ?c1" by (rule leads_seq_Cons [OF leads_emit_base [OF lb] elem])
  have "leads b n (Suc h) (Suc h) ?c1 (seq (map (lit_element hk K lb d ?kv exprs) es @
      [emit OpMakeComposite (int (length es)) (if ?kv then 1 else 0) (npos m)]) ?c1)" for exprs
  proof (rule leads_seq_append)
    show "leads b n (Suc h) ((if ?kv then 2 else 1) * length es + Suc h) ?c1 (seq (map (lit_element hk K lb d ?kv exprs) es) ?c1)"
    proof (rule leads_seq_map)
      fix e h c
      assume "e \<in> set es"
      then show "leads b n h ((if ?kv then 2 else 1) + h) c (lit_element hk K lb d ?kv exprs e c)"
        using es by (intro leads_lit_element lb) (auto simp: list_all_iff list_ex_iff)
    qed
    show "leads b n ((if ?kv then 2 else 1) * length es + Suc h) (Suc h) c
        (seq [emit OpMakeComposite (int (length es)) (if ?kv then 1 else 0) (npos m)] c)" for c
      by (rule leads_seq_simple, rule leads_emit') auto
  qed
  then show ?thesis unfolding compileLit_def Let_def by (rule leads_trans [OF 1])
qed

section \<open>Targets\<close>

lemma leads_refTarget:
  assumes lhs: "well_formed lhs"
  shows "leads b n h (Suc h) c (refTarget hk K pin lhs c)"
proof -
  have wf: "x \<in> set (children (unparen lhs)) \<Longrightarrow> well_formed x" for x
    using well_formed_unparen [OF lhs] by (rule well_formed_child)
  show ?thesis
  proof (cases "unparen lhs")
    case (Ident m x)
    then show ?thesis by (simp add: refTarget_def leads_emit' leads_refRef)
  next
    case (SelectorExpr m x sel)
    then have x: "well_formed x" using wf by simp
    have "leads b n h (Suc h) c (seq [refTargetBase hk K x pin, emit_k OpFieldRef (KStr (ident_name sel)) k (npos m)] c)" for k
      by (rule leads_seqs leads_refTargetBase x leads_name [where opc = OpFieldRef and p = 1 and q = 1] | simp)+
    then show ?thesis by (simp add: SelectorExpr refTarget_def)
  next
    case (IndexExpr m x i)
    then have x: "well_formed x" "well_formed i" using wf by simp_all
    have "leads b n h (Suc h) c (seq [if pin then k_expr K x else refTargetBase hk K x pin, k_expr K i,
        emit OpIndexRef 0 1 (q_brack hk (IndexExpr m x i))] c)"
      by (rule leads_seqs leads_if_fun leads_refTargetBase expr x leads_emit | simp)+
    then show ?thesis by (simp add: IndexExpr refTarget_def)
  next
    case (StarExpr m x)
    then have x: "well_formed x" using wf by simp
    have "leads b n h (Suc h) c (seq [refTargetBase hk K x pin, emit OpDerefRef 0 0 (npos m)] c)"
      by (rule leads_seqs leads_refTargetBase x leads_emit | simp)+
    then show ?thesis using expr [OF x] by (cases pin) (simp_all add: StarExpr refTarget_def)
  qed (simp_all add: refTarget_def leads_trap)
qed

lemma leads_storeTarget:
  assumes lhs: "well_formed lhs"
  shows "leads b n (Suc h) h c (storeTarget hk K lhs def c)"
proof -
  have wf: "x \<in> set (children lhs) \<Longrightarrow> well_formed x" for x using lhs by (rule well_formed_child)
  show ?thesis
  proof (cases lhs)
    case (Ident m x)
    then show ?thesis by (simp add: storeTarget_def leads_emit' leads_setRef leads_new_local)
  next
    case (SelectorExpr m x sel)
    then have "well_formed x" using wf by simp
    then show ?thesis
      by (simp add: SelectorExpr storeTarget_def)
        (rule leads_seqs expr leads_emit leads_name [where opc = OpSetField and p = 2 and q = 0] | simp)+
  next
    case (IndexExpr m x i)
    then have "well_formed x" "well_formed i" using wf by simp_all
    then show ?thesis by (simp add: IndexExpr storeTarget_def) (rule leads_seqs expr leads_emit | simp)+
  next
    case (StarExpr m x)
    then have "well_formed x" using wf by simp
    then show ?thesis by (simp add: StarExpr storeTarget_def) (rule leads_seqs expr leads_emit | simp)+
  qed (simp_all add: storeTarget_def leads_trap)
qed

section \<open>Signatures\<close>

lemma leads_sigTypeExpr:
  assumes t: "well_formed t"
  shows "leads b n h (Suc h) c (sigTypeExpr K t c)"
proof (rule leadsI)
  fix L ht
  assume c: "typed L c ht" "last ht = h" "n \<le> next_slot c"
  obtain s ps where fs: "c_fs c = s # ps" using typed_fs [OF c(1)] by (cases "c_fs c") auto
  let ?saved = "fs_blocks s"
  let ?c0 = "c\<lparr>c_fs := s\<lparr>fs_blocks := replicate (length ?saved) []\<rparr> # ps\<rparr>"
  have b: "scopes_bound (s # ps)" using c(1) fs by (simp add: typed_def bounded_def)
  have hide: "on_scope (\<lambda>s. s\<lparr>fs_blocks := replicate (length (fs_blocks (cur_scope c))) []\<rparr>) c = ?c0"
    by (simp add: on_scope_def fs cur_scope_def)
  have "scopes_bound (s\<lparr>fs_blocks := replicate (length ?saved) []\<rparr> # ps)"
    using b by (auto simp: scope_bound_def ran_def split: list.splits)
  then have t0: "typed L ?c0 ht"
    using c(1) fs by (auto simp: typed_def bounded_def flows_def holes_def recorded_def here_def next_slot_def cur_scope_def)
  have "n \<le> next_slot ?c0" using c(3) fs by (simp add: next_slot_def cur_scope_def)
  then obtain ht1 where 1: "grown b ?c0 ht (k_type K t ?c0) ht1" "typed L (k_type K t ?c0) ht1" "last ht1 = Suc h"
    using leadsE [OF type_op [OF t] t0 c(2)] by blast
  let ?c1 = "k_type K t ?c0"
  obtain s1 ps1 where fs1: "c_fs ?c1 = s1 # ps1" "scope_grows (s\<lparr>fs_blocks := replicate (length ?saved) []\<rparr>) s1"
    "list_all2 scope_grows ps ps1"
    using 1(1) by (auto simp: grown_def list_all2_Cons1)
  let ?c2 = "?c1\<lparr>c_fs := s1\<lparr>fs_blocks := ?saved\<rparr> # ps1\<rparr>"
  have eq: "sigTypeExpr K t c = ?c2"
    unfolding sigTypeExpr_def Let_def hide by (simp add: on_scope_def fs1(1) cur_scope_def fs)
  have bound1: "scopes_bound (s1 # ps1)" using 1(2) fs1(1) by (simp add: typed_def bounded_def)
  have "scope_bound (s1\<lparr>fs_blocks := ?saved\<rparr>)"
    using bound1 b fs1(2) by (fastforce simp: scope_bound_def scope_grows_def)
  then have "scopes_bound (s1\<lparr>fs_blocks := ?saved\<rparr> # ps1)" using bound1 by (auto split: list.splits)
  then have "typed L ?c2 ht1"
    using 1(2) fs1(1) by (auto simp: typed_def bounded_def flows_def holes_def recorded_def here_def next_slot_def cur_scope_def)
  moreover have "scope_grows s (s1\<lparr>fs_blocks := ?saved\<rparr>)"
    using fs1(2) by (simp add: scope_grows_def list_all2_refl)
  then have "grown b c ht ?c2 ht1" using 1(1) fs fs1(3) by (cases b) (simp_all add: grown_def here_def)
  ultimately show "\<exists>ht'. grown b c ht (sigTypeExpr K t c) ht' \<and> typed L (sigTypeExpr K t c) ht' \<and> last ht' = Suc h"
    using eq 1(3) by auto
qed

lemma leads_emitSigTypeCoerce:
  assumes "slot < n" and "\<And>te. t = Some te \<Longrightarrow> well_formed te"
  shows "leads b n h h c (emitSigTypeCoerce K slot t pos c)"
  unfolding emitSigTypeCoerce_def
  by (rule leads_option_fun) (simp add: leads_skip, (rule leads_seqs leads_sigTypeExpr leads_emit assms | simp add: assms)+)

end

end
