(* ===== verification/FuncTyped.thy ===== *)
theory FuncTyped
  imports ExprTyped
begin

text \<open>
  Functions: the prologue that declares and coerces parameters and results, the resolution of gotos at the end, and
  function literals, whose code is typed on its own. With them every expression is covered.
\<close>

section \<open>Parts of the state that only describe a function\<close>

lemma typed_describe:
  assumes "typed L c ht" and "code c' = code c" and "ch_Consts (c_ch c') = ch_Consts (c_ch c)" and "c_fs c' = c_fs c"
    and "c_ctrl c' = c_ctrl c" and "c_labels c' = c_labels c" and "c_falls c' = c_falls c" and "c_pendingGotos c' = c_pendingGotos c"
    and "c_funs c' = c_funs c" and "c_inClause c' = c_inClause c" and "list_all well_formed (c_results c')"
    and "\<forall>slot\<in>set (ch_NamedSlots (c_ch c')). slot < next_slot c'" and "ch_NParams (c_ch c') \<le> next_slot c'"
  shows "typed L c' ht" and "grown b c ht c' ht"
  using assms by (simp_all add: typed_def flows_def bounded_def holes_def recorded_def here_def next_slot_def cur_scope_def
    grown_def list_all2_refl)

lemma leads_set_nparams: "k \<le> n \<Longrightarrow> leads b n h h c (set_nparams k c)"
proof (rule leadsI)
  fix L ht
  assume k: "k \<le> n" and t: "typed L c ht" "last ht = h" "n \<le> next_slot c"
  have "typed L (set_nparams k c) ht \<and> grown b c ht (set_nparams k c) ht"
    by (intro conjI typed_describe [OF t(1)])
      (use k t in \<open>simp_all add: set_nparams_def next_slot_def cur_scope_def typed_def bounded_def\<close>)
  then show "\<exists>ht'. grown b c ht (set_nparams k c) ht' \<and> typed L (set_nparams k c) ht' \<and> last ht' = h" using t(2) by blast
qed

lemma resultTypes_well_formed: "\<forall>f\<in>set fs. well_formed f \<Longrightarrow> list_all well_formed (resultTypes fs)"
  by (auto simp: resultTypes_def list_all_iff intro: field_type_well_formed split: option.splits)

lemma leads_set_results: "\<forall>f\<in>set fs. well_formed f \<Longrightarrow> leads b n h h c (set_results fs c)"
proof (rule leadsI)
  fix L ht
  assume fs: "\<forall>f\<in>set fs. well_formed f" and t: "typed L c ht" "last ht = h" "n \<le> next_slot c"
  have "typed L (set_results fs c) ht \<and> grown b c ht (set_results fs c) ht"
    by (intro conjI typed_describe [OF t(1)])
      (use resultTypes_well_formed [OF fs] t in \<open>simp_all add: set_results_def next_slot_def cur_scope_def typed_def bounded_def\<close>)
  then show "\<exists>ht'. grown b c ht (set_results fs c) ht' \<and> typed L (set_results fs c) ht' \<and> last ht' = h" using t(2) by blast
qed

lemma leads_vararg: "leads b n h h c (c\<lparr>c_ch := (c_ch c)\<lparr>ch_IsVararg := True\<rparr>\<rparr>)"
proof (rule leadsI)
  fix L ht
  let ?c = "c\<lparr>c_ch := (c_ch c)\<lparr>ch_IsVararg := True\<rparr>\<rparr>"
  assume t: "typed L c ht" "last ht = h" "n \<le> next_slot c"
  have "typed L ?c ht \<and> grown b c ht ?c ht"
    by (intro conjI typed_describe [OF t(1)]) (use t in \<open>simp_all add: next_slot_def cur_scope_def typed_def bounded_def\<close>)
  then show "\<exists>ht'. grown b c ht ?c ht' \<and> typed L ?c ht' \<and> last ht' = h" using t(2) by blast
qed

lemma leads_named_slot:
  assumes "slot < n"
  shows "leads b n h h c (c\<lparr>c_ch := (c_ch c)\<lparr>ch_NamedSlots := ch_NamedSlots (c_ch c) @ [slot]\<rparr>\<rparr>)" (is "leads b n h h c ?c")
proof (rule leadsI)
  fix L ht
  assume t: "typed L c ht" "last ht = h" "n \<le> next_slot c"
  have "typed L ?c ht \<and> grown b c ht ?c ht"
    by (intro conjI typed_describe [OF t(1)])
      (use t assms in \<open>auto simp: next_slot_def cur_scope_def typed_def bounded_def\<close>)
  then show "\<exists>ht'. grown b c ht ?c ht' \<and> typed L ?c ht' \<and> last ht' = h" using t(2) by blast
qed

section \<open>Parameters\<close>

lemma leads_declare_names: "leads b n h h c (snd (declare_names iface t xs c))"
proof (induction xs arbitrary: c)
  case (Cons xp xs)
  obtain x p where xp: "xp = (x, p)" by fastforce
  show ?case
    unfolding xp declare_names.simps Let_def case_prod_beta snd_conv
    by (rule leads_trans [OF _ Cons.IH], rule leads_trans [OF _ leads_marks(2)], rule leads_trans [OF leads_declare], rule leads_if_fun)
      (rule leads_marks leads_skip | simp)+
qed (simp add: leads_refl)

lemma declare_names_slots:
  "c_fs c \<noteq> [] \<Longrightarrow> declare_names iface t xs c = (ps, c') \<Longrightarrow>
   c_fs c' \<noteq> [] \<and> next_slot c' = next_slot c + length ps \<and> (\<forall>p\<in>set ps. fst p < next_slot c' \<and> snd p = t)"
proof (induction xs arbitrary: c ps)
  case (Cons xp xs)
  obtain x p where xp: "xp = (x, p)" by fastforce
  let ?c = "on_scope (noteDeclTyp x t) ((if iface then on_scope (markIface x) else skip) (declare_local x p c))"
  obtain qs where qs: "declare_names iface t xs ?c = (qs, c')" "ps = (next_slot c, t) # qs"
    using Cons.prems by (auto simp: xp Let_def split: prod.splits)
  have "c_fs ?c \<noteq> []" "next_slot ?c = Suc (next_slot c)" using Cons.prems(1) by (auto simp: skip_def)
  then show ?case using Cons.IH [OF _ qs(1)] qs(2) by auto
qed simp

lemma leads_declare_params: "leads b n h h c (snd (declare_params iface fs c))"
proof (induction fs arbitrary: c)
  case (Cons f fs)
  have vararg: "leads b n h h c (case field_type f of Some (Ellipsis m t) \<Rightarrow> c\<lparr>c_ch := (c_ch c)\<lparr>ch_IsVararg := True\<rparr>\<rparr> | _ \<Rightarrow> c)" for c
    by (cases "field_type f"; simp add: leads_refl; rename_tac t; case_tac t; simp add: leads_refl leads_vararg)
  show ?case
  proof (cases "field_names f = []")
    case True
    show ?thesis
      unfolding declare_params.simps Let_def case_prod_beta snd_conv if_P [OF True] fst_conv
      by (rule leads_trans [OF leads_fresh], rule leads_trans [OF leads_declare_names], rule leads_trans [OF vararg Cons.IH])
  next
    case False
    show ?thesis
      unfolding declare_params.simps Let_def case_prod_beta snd_conv if_not_P [OF False] fst_conv
      by (rule leads_trans [OF leads_declare_names], rule leads_trans [OF vararg Cons.IH])
  qed
qed (simp add: leads_refl)

lemma declare_params_slots:
  "c_fs c \<noteq> [] \<Longrightarrow> declare_params iface fs c = (ps, c') \<Longrightarrow>
   c_fs c' \<noteq> [] \<and> next_slot c' = next_slot c + length ps \<and>
   (\<forall>p\<in>set ps. fst p < next_slot c' \<and> (\<exists>f\<in>set fs. snd p = field_type f))"
proof (induction fs arbitrary: c ps)
  case (Cons f fs)
  define A where "A = (if field_names f = [] then (let (x, c1) = fresh ''$arg'' c in ([(x, 0)], c1))
      else (map (\<lambda>n. (ident_name n, pos_of n)) (field_names f), c))"
  define N where "N = declare_names (iface (snd A) (field_type f)) (field_type f) (fst A) (snd A)"
  define c3 where "c3 = (case field_type f of Some (Ellipsis m t) \<Rightarrow> snd N\<lparr>c_ch := (c_ch (snd N))\<lparr>ch_IsVararg := True\<rparr>\<rparr> | _ \<Rightarrow> snd N)"
  have "declare_params iface (f # fs) c = (fst N @ fst (declare_params iface fs c3), snd (declare_params iface fs c3))"
    unfolding declare_params.simps N_def c3_def A_def Let_def case_prod_beta by (rule refl)
  then have rs: "declare_params iface fs c3 = (fst (declare_params iface fs c3), c')" "ps = fst N @ fst (declare_params iface fs c3)"
    using Cons.prems(2) by auto
  have A: "c_fs (snd A) \<noteq> []" "next_slot (snd A) = next_slot c"
    using Cons.prems(1) by (auto simp: A_def fresh_def next_slot_def cur_scope_def)
  have c3: "c_fs c3 = c_fs (snd N)" "next_slot c3 = next_slot (snd N)"
    unfolding c3_def by (cases "field_type f"; simp; rename_tac t; case_tac t; simp add: next_slot_def cur_scope_def)+
  have "declare_names (iface (snd A) (field_type f)) (field_type f) (fst A) (snd A) = (fst N, snd N)" by (simp add: N_def)
  note N = declare_names_slots [OF A(1) this]
  then have "c_fs c3 \<noteq> []" using c3 by simp
  from Cons.IH [OF this rs(1)] show ?case using N A(2) c3 rs(2) by fastforce
qed simp

context typed_comp
begin

lemma leads_emitParamCoerces:
  assumes "\<forall>p\<in>set ps. fst p < n \<and> (\<forall>t. snd p = Some t \<longrightarrow> well_formed t)"
  shows "leads b n h h c (emitParamCoerces K ps c)"
  unfolding emitParamCoerces_def
  by (rule leads_seq_map0) (use assms in \<open>force simp: case_prod_beta intro: leads_emitSigTypeCoerce\<close>)

lemma leads_named_result:
  assumes "\<And>te. t = Some te \<Longrightarrow> well_formed te"
  shows "leads b n h h c (named_result K iface t nm c)"
proof (rule leads_bounded)
  assume b: "bounded c"
  let ?x = "ident_name nm" and ?slot = "next_slot c"
  let ?c1 = "declare_local ?x (pos_of nm) c"
  let ?c2 = "on_scope (noteDeclTyp ?x t) ((if iface ?c1 t then on_scope (markIface ?x) else skip) ?c1)"
  let ?c3 = "?c2\<lparr>c_ch := (c_ch ?c2)\<lparr>ch_NamedSlots := ch_NamedSlots (c_ch ?c2) @ [?slot]\<rparr>\<rparr>"
  have n: "next_slot ?c1 = Suc ?slot" using b by (simp add: bounded_def)
  have 2: "leads b (Suc ?slot) h h ?c1 ?c2"
    by (rule leads_trans [OF _ leads_marks(2)], rule leads_if_fun) (rule leads_marks leads_skip | simp)+
  have 3: "leads b (Suc ?slot) h h ?c2 ?c3" by (rule leads_named_slot) simp
  have "leads b (Suc ?slot) h h c (seq [emit OpNil 0 0 (pos_of nm), emit OpNewLocal (int ?slot) 0 (pos_of nm),
      emitSigTypeCoerce K ?slot t (pos_of nm)] c)" for c
    by (rule leads_seqs leads_emit leads_emitSigTypeCoerce assms | simp)+
  then have "leads b (Suc ?slot) h h ?c1 (named_result K iface t nm c)"
    unfolding named_result_def Let_def by (rule leads_trans [OF leads_trans [OF 2 3]])
  then have "leads b n h h ?c1 (named_result K iface t nm c)" unfolding n [symmetric] by (rule leads_slots)
  then show "leads b n h h c (named_result K iface t nm c)" by (rule leads_trans [OF leads_declare])
qed

lemma leads_named_results:
  assumes "\<forall>f\<in>set fs. well_formed f"
  shows "leads b n h h c (named_results K iface fs c)"
  unfolding named_results_def
  by (rule leads_seq_concat0, rule leads_seq_map0, rule leads_named_result) (use assms field_type_well_formed in blast)

text \<open>Everything up to the end of the statements.\<close>

lemma leads_prologue:
  assumes "\<forall>p\<in>set ps. fst p < n \<and> (\<forall>t. snd p = Some t \<longrightarrow> well_formed t)" and "k \<le> n"
    and "\<forall>f\<in>set results. well_formed f" and "\<And>c. leads b n 0 h c (seq rest c)"
  shows "leads b n 0 h c (seq ([set_nparams k, emitParamCoerces K ps, named_results K iface results, set_results results] @ rest) c)"
  by (simp only: append.simps)
    (rule leads_seqs leads_set_nparams leads_emitParamCoerces leads_named_results leads_set_results assms)+

lemma leads_stmts: "list_all well_formed ss \<Longrightarrow> list_all (allowed b) ss \<Longrightarrow> leads b n 0 0 c (seq (map (k_stmt K) ss) c)"
  by (rule leads_seq_map0, rule stmt) (auto simp: list_all_iff)

end

section \<open>Gotos\<close>

lemma resolve_goto_sel:
  "c_pendingGotos (resolve_goto pg c) = c_pendingGotos c" "c_labels (resolve_goto pg c) = c_labels c"
  "c_fs (resolve_goto pg c) = c_fs c" "c_ctrl (resolve_goto pg c) = c_ctrl c" "c_falls (resolve_goto pg c) = c_falls c"
  "c_funs (resolve_goto pg c) = c_funs c" "recorded (resolve_goto pg c) = recorded c" "holes L (resolve_goto pg c) = holes L c"
  by (auto simp: resolve_goto_def trap_def emit_k_add holes_def split: option.split)

text \<open>One goto: it is settled, and what was settled stays so.\<close>

lemma resolve_goto_typed:
  assumes t: "typed L c ht" "last ht = 0" and pg: "(pg_ins pg, 0) \<in> holes L c"
  shows "\<exists>ht'. typed L (resolve_goto pg c) ht' \<and> last ht' = 0 \<and> settled (code (resolve_goto pg c)) ht' (pg_ins pg) \<and>
    (\<forall>i<here c. settled (code c) ht i \<longrightarrow> settled (code (resolve_goto pg c)) ht' i) \<and> here c \<le> here (resolve_goto pg c)"
proof -
  have trap: ?thesis if eq: "resolve_goto pg c = patchA (pg_ins pg) (here c) (trap pos why c)" for pos why
  proof -
    obtain ht1 where 1: "grown InExpr c ht (trap pos why c) ht1" "typed L (trap pos why c) ht1" "last ht1 = 0"
      by (rule leadsE [OF leads_trap [where n = 0 and h = 0 and h' = 0 and b = InExpr and c = c and pos = pos and msg = why] t]) auto
    have len: "length ht = Suc (here c)" using t(1) by (rule typed_length)
    then have tgt: "here c < length ht1" "ht1 ! here c = 0"
      using 1(1) last_height [OF len] t(2) extends_nth [of ht ht1 "here c"] extends_length [of ht ht1] by (auto simp: grown_def)
    have hole: "(pg_ins pg, 0) \<in> holes L (trap pos why c)" using pg by (simp add: holes_def trap_def emit_k_add)
    have "settled (code (trap pos why c)) ht1 i" if "i < here c" "settled (code c) ht i" for i
      by (rule settled_grown [OF that(2,1) t(1) 1(1)])
    then have "\<forall>i<here c. settled (code c) ht i \<longrightarrow> settled (code (resolve_goto pg c)) ht1 i"
      using settled_keeps [OF 1(2) hole tgt] eq by simp
    then show ?thesis
      using typed_patch [OF 1(2) hole tgt] 1(3) eq grown_here [OF 1(1)] by (intro exI [of _ ht1]) simp
  qed
  show ?thesis
  proof (cases "\<exists>li. c_labels c (pg_name pg) = Some li \<and> gotoViolation li (pg_blocks pg) (pg_vars pg) = None")
    case True
    then obtain li where li: "c_labels c (pg_name pg) = Some li" "gotoViolation li (pg_blocks pg) (pg_vars pg) = None" by blast
    then have eq: "resolve_goto pg c = patchA (pg_ins pg) (li_ip li) c" by (simp add: resolve_goto_def)
    have "li \<in> ran (c_labels c)" using li(1) by (auto simp: ran_def)
    then have tgt: "li_ip li < length ht" "ht ! li_ip li = 0" using t(1) by (auto simp: typed_def flows_def at_zero_def)
    show ?thesis
      using typed_patch [OF t(1) pg tgt] settled_keeps [OF t(1) pg tgt] t(2) eq by (intro exI [of _ ht]) simp
  next
    case False
    then show ?thesis using trap by (auto simp: resolve_goto_def split: option.splits)
  qed
qed

lemma resolve_gotos_typed:
  assumes "typed L c ht" and "last ht = 0" and "\<forall>pg\<in>set pgs. (pg_ins pg, 0) \<in> holes L c"
    and "\<forall>i\<in>J. i < here c \<and> settled (code c) ht i"
  shows "\<exists>ht'. typed L (fold resolve_goto pgs c) ht' \<and> last ht' = 0 \<and>
    (\<forall>i\<in>J \<union> pg_ins ` set pgs. settled (code (fold resolve_goto pgs c)) ht' i)"
  using assms
proof (induction pgs arbitrary: c ht J)
  case Nil
  then show ?case by auto
next
  case (Cons pg pgs)
  let ?c = "resolve_goto pg c"
  have pg: "(pg_ins pg, 0) \<in> holes L c" using Cons.prems(3) by simp
  obtain ht1 where 1: "typed L ?c ht1" "last ht1 = 0" "settled (code ?c) ht1 (pg_ins pg)"
    "\<forall>i<here c. settled (code c) ht i \<longrightarrow> settled (code ?c) ht1 i" "here c \<le> here ?c"
    using resolve_goto_typed [OF Cons.prems(1,2) pg] by blast
  have "pg_ins pg < here c" using typed_hole_at [OF Cons.prems(1) pg] by (simp add: hole_ok_def here_def)
  then have J: "\<forall>i\<in>insert (pg_ins pg) J. i < here ?c \<and> settled (code ?c) ht1 i" using 1(3-5) Cons.prems(4) by auto
  have pgs: "\<forall>pg\<in>set pgs. (pg_ins pg, 0) \<in> holes L ?c" using Cons.prems(3) by (simp add: resolve_goto_sel)
  then obtain ht' where "typed L (fold resolve_goto pgs ?c) ht'" "last ht' = 0"
    "\<forall>i\<in>insert (pg_ins pg) J \<union> pg_ins ` set pgs. settled (code (fold resolve_goto pgs ?c)) ht' i"
    using Cons.IH [OF 1(1,2) pgs J] by blast
  then show ?case by auto
qed

lemma fold_resolve_sel:
  "c_pendingGotos (fold resolve_goto pgs c) = c_pendingGotos c" "c_labels (fold resolve_goto pgs c) = c_labels c"
  "c_fs (fold resolve_goto pgs c) = c_fs c" "c_ctrl (fold resolve_goto pgs c) = c_ctrl c"
  "c_falls (fold resolve_goto pgs c) = c_falls c" "c_funs (fold resolve_goto pgs c) = c_funs c"
  by (induction pgs arbitrary: c) (simp_all add: resolve_goto_sel)

text \<open>At the end of a function no hole is left.\<close>

lemma resolveGotos_typed:
  assumes t: "typed {} c ht" "last ht = 0" and none: "c_ctrl c = []" "c_falls c = []"
  shows "\<exists>ht'. typed {} (resolveGotos c) ht' \<and> last ht' = 0 \<and> recorded (resolveGotos c) = {} \<and> c_fs (resolveGotos c) = c_fs c \<and>
    c_funs (resolveGotos c) = c_funs c"
proof -
  let ?c = "fold resolve_goto (c_pendingGotos c) c"
  have rec: "recorded c = pg_ins ` set (c_pendingGotos c)" "recorded ?c = pg_ins ` set (c_pendingGotos c)"
    by (simp_all add: recorded_def none fold_resolve_sel)
  obtain ht' where 1: "typed {} ?c ht'" "last ht' = 0" "\<forall>i\<in>pg_ins ` set (c_pendingGotos c). settled (code ?c) ht' i"
    using resolve_gotos_typed [OF t, of "c_pendingGotos c" "{}"] rec by (auto simp: holes_def)
  have none': "recorded (resolveGotos c) = {}" by (simp add: resolveGotos_def recorded_def none fold_resolve_sel)
  have "settled (code ?c) ht' i" if "i < here ?c" for i
    using 1(1,3) that rec by (auto simp: typed_def flows_def holes_def)
  then have "typed {} (resolveGotos c) ht'"
    using 1(1) none' by (simp add: typed_def flows_def bounded_def holes_def resolveGotos_def here_def next_slot_def cur_scope_def)
  then show ?thesis using 1(2) none' by (auto simp: resolveGotos_def fold_resolve_sel)
qed

section \<open>The chunk of a function\<close>

lemma finish_sel:
  "c_fs (finish_function pos c) = c_fs c" "c_funs (finish_function pos c) = c_funs c"
  "ch_Upvals (c_ch (finish_function pos c)) = fs_upvals (cur_scope c)"
  by (simp_all add: finish_function_def Let_def emit_def cur_scope_def)

text \<open>The implicit return makes typed code without holes a typed chunk.\<close>

lemma finish_typed:
  assumes t: "typed {} c ht" and none: "recorded c = {}"
  shows "chunk_typed name_const (fun_upvals (c_funs c)) (c_ch (finish_function pos c)) (ht @ [0])"
proof -
  have f: "flows {} c ht" and b: "bounded c" using t by (simp_all add: typed_def)
  define ret where "ret = \<lparr>i_Op = OpReturn, i_A = int (ch_NResults (c_ch c)), i_B = 0, i_C = -1, i_Pos = pos\<rparr>"
  have chunk: "ch_Code (c_ch (finish_function pos c)) = code c @ [ret]"
    "ch_Consts (c_ch (finish_function pos c)) = ch_Consts (c_ch c)" "ch_NLocals (c_ch (finish_function pos c)) = next_slot c"
    "ch_NamedSlots (c_ch (finish_function pos c)) = ch_NamedSlots (c_ch c)"
    "ch_NParams (c_ch (finish_function pos c)) = ch_NParams (c_ch c)"
    by (simp_all add: finish_function_def Let_def emit_def ret_def next_slot_def cur_scope_def)
  have len: "length ht = Suc (length (code c))" "ht ! 0 = 0" using f by (simp_all add: flows_def here_def)
  have "flow_ok (code c @ [ret]) (ht @ [0]) i" if "i < length (code c)" for i
  proof -
    have "settled (code c) ht i" using f that none by (simp add: flows_def holes_def here_def)
    then show ?thesis using settled_append [OF _ that len(1)] flow_ok_settled by blast
  qed
  moreover have "flow_ok (code c @ [ret]) (ht @ [0]) (length (code c))"
    by (simp add: flow_ok_def Let_def ret_def falls_to_def branches_to_def takes_def)
  moreover have "list_all (ins_bound c) (code c @ [ret])"
    using b by (simp add: bounded_def ret_def operands_ok_def)
  ultimately show ?thesis
    using b len by (auto simp: chunk_typed_def chunk finish_sel bounded_def list_all_length nth_append less_Suc_eq)
qed

text \<open>A function compiled from a state without code: what its chunk, the scopes around it and the functions in it are.\<close>

definition function_done :: "'t cstate \<Rightarrow> 't cstate \<Rightarrow> bool" where
  "function_done c c' \<longleftrightarrow>
     (\<exists>ht. chunk_typed name_const (fun_upvals (c_funs c')) (c_ch c') ht) \<and> ch_Upvals (c_ch c') = fs_upvals (cur_scope c') \<and>
     list_all2 scope_grows (c_fs c) (c_fs c') \<and> scopes_bound (c_fs c') \<and> extends (c_funs c) (c_funs c') \<and> funs_typed (c_funs c')"

definition fresh_function :: "'t cstate \<Rightarrow> bool" where
  "fresh_function c \<longleftrightarrow> typed {} c [0] \<and> c_ctrl c = [] \<and> c_falls c = [] \<and> c_pendingGotos c = []"

lemma function_done_body:
  assumes "fresh_function c" and "leads InClause 0 0 0 c c1"
  shows "function_done c (finish_function pos (resolveGotos c1))"
proof -
  have t: "typed {} c [0]" and none: "c_ctrl c = []" "c_falls c = []" using assms(1) by (simp_all add: fresh_function_def)
  obtain ht1 where 1: "grown InClause c [0] c1 ht1" "typed {} c1 ht1" "last ht1 = 0"
    by (rule leadsE [OF assms(2) t]) auto
  then have none1: "c_ctrl c1 = []" "c_falls c1 = []" using none by (auto simp: grown_def falls_grow_def)
  let ?c2 = "resolveGotos c1"
  obtain ht2 where 2: "typed {} ?c2 ht2" "last ht2 = 0" "recorded ?c2 = {}" "c_fs ?c2 = c_fs c1" "c_funs ?c2 = c_funs c1"
    using resolveGotos_typed [OF 1(2,3) none1] by blast
  have "cur_scope (finish_function pos ?c2) = cur_scope ?c2" by (simp add: cur_scope_def finish_sel)
  moreover have "scopes_bound (c_fs ?c2)" "funs_typed (c_funs ?c2)" using 2(1) by (simp_all add: typed_def bounded_def)
  moreover have "list_all2 scope_grows (c_fs c) (c_fs c1)" "extends (c_funs c) (c_funs c1)" using 1(1) by (simp_all add: grown_def)
  ultimately show ?thesis
    using finish_typed [OF 2(1,3), of pos] unfolding function_done_def by (auto simp: finish_sel 2(4,5))
qed

text \<open>Without statements there are no gotos to resolve.\<close>

lemma function_done_plain:
  assumes "fresh_function c" and "leads InExpr 0 0 h c c1"
  shows "function_done c (finish_function pos c1)"
proof -
  have t: "typed {} c [0]" and none: "c_ctrl c = []" "c_falls c = []" "c_pendingGotos c = []"
    using assms(1) by (simp_all add: fresh_function_def)
  obtain ht1 where 1: "grown InExpr c [0] c1 ht1" "typed {} c1 ht1"
    by (rule leadsE [OF assms(2) t]) auto
  then have none: "recorded c1 = {}" using none by (auto simp: grown_def recorded_def)
  moreover have "cur_scope (finish_function pos c1) = cur_scope c1" by (simp add: cur_scope_def finish_sel)
  ultimately show ?thesis
    using 1 finish_typed [OF 1(2) none, of pos] unfolding function_done_def
    by (auto simp: finish_sel grown_def typed_def bounded_def)
qed

section \<open>Function literals\<close>

lemma fresh_inner:
  assumes "typed L c ht"
  shows "fresh_function (push_block (inner_compiler name c))"
proof -
  have b: "scopes_bound (c_fs c)" "c_fs c \<noteq> []" "funs_typed (c_funs c)" using assms by (simp_all add: typed_def bounded_def)
  then have "scopes_bound (pushBlock newFScope # c_fs c)"
    by (auto simp: scope_bound_def pushBlock_def newFScope_def captures_ok_def split: list.split)
  then show ?thesis using b
    by (simp add: fresh_function_def typed_def flows_def bounded_def push_block_def inner_compiler_def on_scope_def here_def
        holes_def recorded_def pushBlock_def next_slot_def cur_scope_def)
qed

lemma leads_closure:
  assumes "\<And>L ht. typed L c ht \<Longrightarrow> function_done (push_block (inner_compiler name c)) ic"
  shows "leads b n h (Suc h) c (emit_k OpMakeClosure (KFun (length (c_funs ic))) 0 pos
    (c\<lparr>c_fs := tl (c_fs ic), c_funs := c_funs ic @ [c_ch ic], c_litCount := k, c_oof := p, c_crash := q\<rparr>))"
    (is "leads b n h (Suc h) c (emit_k _ _ _ _ ?c1)")
proof (rule leadsI)
  fix L ht
  assume t: "typed L c ht" "last ht = h" "n \<le> next_slot c"
  then have f: "flows L c ht" and bd: "bounded c" by (simp_all add: typed_def)
  have fin: "function_done (push_block (inner_compiler name c)) ic" by (rule assms [OF t(1)])
  then obtain hts where ch: "chunk_typed name_const (fun_upvals (c_funs ic)) (c_ch ic) hts"
    "ch_Upvals (c_ch ic) = fs_upvals (cur_scope ic)" "scopes_bound (c_fs ic)" "extends (c_funs c) (c_funs ic)" "funs_typed (c_funs ic)"
    by (auto simp: function_done_def inner_compiler_def)
  have "list_all2 scope_grows (pushBlock newFScope # c_fs c) (c_fs ic)"
    using fin by (simp add: function_done_def push_block_def inner_compiler_def on_scope_def)
  then obtain s ps where fs: "c_fs ic = s # ps" "list_all2 scope_grows (c_fs c) ps" by (auto simp: list_all2_Cons1)
  then obtain p ps' where ps: "ps = p # ps'" using typed_fs [OF t(1)] by (cases ps) auto
  have bound: "captures_ok (fs_nlocals p) (length (fs_upvals p)) (fs_upvals s)" "scopes_bound ps"
    using ch(3) by (simp_all add: fs ps)
  have g: "grown b c ht ?c1 ht" using ch(4) fs by (simp add: grown_def list_all2_refl extends_trans [OF ch(4) extends_append])
  have slots: "\<forall>slot\<in>set (ch_NamedSlots (c_ch c)). slot < next_slot ?c1" "ch_NParams (c_ch c) \<le> next_slot ?c1"
    using bd grown_slot [OF g typed_fs [OF t(1)]] by (auto simp: bounded_def)
  have "bounded ?c1"
    by (rule bounded_step [OF bd g, where js = "[]"])
      (use bd bound slots funs_typed_append [OF ch(5,1)] fs in \<open>simp_all add: bounded_def\<close>)
  moreover have "flows L ?c1 ht" using f by (simp add: flows_def holes_def recorded_def here_def)
  ultimately have t1: "typed L ?c1 ht" by (simp add: typed_def)
  have "fun_upvals (c_funs ic @ [c_ch ic]) (KFun (length (c_funs ic))) = Some (fs_upvals s)"
    using ch(2) fs by (simp add: fun_upvals_def cur_scope_def)
  then have "leads b 0 h (Suc h) ?c1 (emit_k OpMakeClosure (KFun (length (c_funs ic))) 0 pos ?c1)"
    unfolding emit_k_add
    by (intro leads_add) (use bound fs ps in \<open>simp_all add: plain_def takes_def falls_to_def branches_to_def operands_ok_def
        next_slot_def cur_scope_def\<close>)
  from leadsE [OF this t1 t(2)] obtain ht' where "grown b ?c1 ht (emit_k OpMakeClosure (KFun (length (c_funs ic))) 0 pos ?c1) ht'"
    "typed L (emit_k OpMakeClosure (KFun (length (c_funs ic))) 0 pos ?c1) ht'" "last ht' = Suc h" by blast
  then show "\<exists>ht'. grown b c ht (emit_k OpMakeClosure (KFun (length (c_funs ic))) 0 pos ?c1) ht' \<and>
      typed L (emit_k OpMakeClosure (KFun (length (c_funs ic))) 0 pos ?c1) ht' \<and> last ht' = Suc h"
    using grown_trans [OF g] by blast
qed

lemma block_list_well_formed: "well_formed body \<Longrightarrow> list_all well_formed (block_list body)"
  by (cases body) (auto simp: block_list_def list_all_iff intro: well_formed_child)

context typed_comp
begin

lemma leads_function:
  assumes c: "c_fs c \<noteq> []" and rc: "\<forall>p\<in>set rc. fst p < next_slot c \<and> (\<forall>t. snd p = Some t \<longrightarrow> well_formed t)"
    and t: "well_formed t" and ps: "declare_params iface (field_list (ft_Params t)) c = (ps, c1)"
    and k: "k \<le> next_slot c + length ps" and rest: "\<And>n c. leads b n 0 h c (seq rest c)"
  shows "leads b n 0 h c (seq ([set_nparams k, emitParamCoerces K (rc @ ps), named_results K iface' (field_list (ft_Results t)),
    set_results (field_list (ft_Results t))] @ rest) c1)"
proof -
  have params: "\<forall>p\<in>set ps. fst p < next_slot c1 \<and> (\<forall>t. snd p = Some t \<longrightarrow> well_formed t)" "next_slot c1 = next_slot c + length ps"
    using declare_params_slots [OF c ps] field_list_well_formed [OF t] field_type_well_formed by (metis UnI1)+
  have "leads b (next_slot c1) 0 h c1 (seq ([set_nparams k, emitParamCoerces K (rc @ ps),
      named_results K iface' (field_list (ft_Results t)), set_results (field_list (ft_Results t))] @ rest) c1)"
    by (rule leads_prologue) (use params rc k field_list_well_formed [OF t] rest in fastforce)+
  then have "leads b n 0 h c1 (seq ([set_nparams k, emitParamCoerces K (rc @ ps),
      named_results K iface' (field_list (ft_Results t)), set_results (field_list (ft_Results t))] @ rest) c1)"
    by (rule leads_slots)
  moreover have "leads b n 0 0 c c1" using leads_declare_params [of b n 0 c iface "field_list (ft_Params t)"] ps by simp
  ultimately show ?thesis by (rule leads_trans [rotated])
qed

lemma literal_done:
  assumes c: "typed L c ht" and t: "well_formed t" and body: "well_formed body"
  shows "function_done (push_block (inner_compiler name c)) (literal_body K t body pos (inner_compiler name c))"
proof -
  let ?c = "push_block (inner_compiler name c)"
  obtain ps c1 where ps: "declare_params (\<lambda>c t. False) (field_list (ft_Params t)) ?c = (ps, c1)" by fastforce
  let ?results = "field_list (ft_Results t)"
  let ?pre = "[set_nparams (length ps), emitParamCoerces K ps, named_results K (\<lambda>c t. False) ?results, set_results ?results]"
  have "c_fs ?c \<noteq> []" by (simp add: push_block_def inner_compiler_def)
  from leads_function [OF this _ t ps, where rc = "[]" and k = "length ps" and b = InClause and n = 0 and h = 0
      and rest = "map (k_stmt K) (block_list body)"]
  have "leads InClause 0 0 0 ?c (seq (?pre @ map (k_stmt K) (block_list body)) c1)"
    using leads_stmts [OF block_list_well_formed [OF body]] by (simp add: list_all_iff allowed_def)
  from function_done_body [OF fresh_inner [OF c] this]
  have "function_done ?c (finish_function pos (resolveGotos (seq (?pre @ map (k_stmt K) (block_list body)) c1)))" .
  moreover have "literal_body K t body pos (inner_compiler name c) =
      finish_function pos (resolveGotos (seq (?pre @ map (k_stmt K) (block_list body)) c1))"
    unfolding literal_body_def Let_def ps prod.case by (simp add: seq_simps)
  ultimately show ?thesis by simp
qed

lemma leads_funcLit:
  assumes "well_formed t" and "well_formed body"
  shows "leads b n h (Suc h) c (funcLit K m t body c)"
  unfolding funcLit_def Let_def by (rule leads_closure) (rule literal_done [OF _ assms])

section \<open>Expressions\<close>

lemma leads_slice_operand:
  assumes x: "well_formed x"
  shows "leads b n h (Suc h) c (slice_operand hk K x c)"
proof (cases "\<exists>m b' i. unparen x = IndexExpr m b' i")
  case True
  then obtain m b' i where e: "unparen x = IndexExpr m b' i" by blast
  then have wf: "well_formed b'" "well_formed i" using well_formed_unparen [OF x] well_formed_child by fastforce+
  obtain r c1 where r: "refableIndexBase hk b' c = (r, c1)" by fastforce
  then have 1: "leads b n h h c c1" using leads_refable [of b n h c b'] by simp
  have "leads b n h (Suc h) c1 (seq [k_expr K b', k_expr K i, emit OpIndexRef 0 2 (q_brack hk (unparen x))] c1)"
    by (rule leads_seqs expr leads_emit wf | simp)+
  then show ?thesis using leads_trans [OF 1] expr [OF x] by (cases r) (simp_all add: slice_operand_def e r)
next
  case False
  then have "slice_operand hk K x c = k_expr K x c" by (simp add: slice_operand_def split: node.split)
  then show ?thesis using expr [OF x] by simp
qed

lemma leads_expr_or_nil:
  "(\<And>x. e = Some x \<Longrightarrow> well_formed x) \<Longrightarrow> leads b n h (Suc h) c (expr_or_nil K e pos c)"
  unfolding expr_or_nil_def by (rule leads_option_fun) (simp_all add: leads_emit' expr)

lemma leads_expr:
  assumes e: "well_formed e"
  shows "leads b n h (Suc h) c (expr_body hk K e c)"
proof -
  have wf: "x \<in> set (children e) \<Longrightarrow> well_formed x" for x using e by (rule well_formed_child)
  show ?thesis
  proof (cases e)
    case (SelectorExpr m x sel)
    then show ?thesis using wf leads_selector by (simp add: expr_body_def)
  next
    case (IndexExpr m x i)
    then have "well_formed x" "well_formed i" using wf by simp_all
    then show ?thesis
      by (simp add: IndexExpr expr_body_def) (rule leads_seqs leads_if comp_rules leads_emit | simp)+
  next
    case (SliceExpr m x l hi mx)
    then have w: "well_formed x" "\<And>y. l = Some y \<or> hi = Some y \<or> mx = Some y \<Longrightarrow> well_formed y" using wf by auto
    have last: "leads b n (Suc (Suc (Suc h))) (Suc h) c ((case mx of None \<Rightarrow> emit OpSlice 0 0 (q_brack hk e)
        | Some v \<Rightarrow> seq [k_expr K v, emit OpSlice 0 1 (q_brack hk e)]) c)" for c
      by (rule leads_option_fun) (simp add: leads_emit', (rule leads_seqs expr w leads_emit | simp)+)
    have "leads b n h (Suc h) c (seq [slice_operand hk K x, expr_or_nil K l (npos m), expr_or_nil K hi (npos m),
        case mx of None \<Rightarrow> emit OpSlice 0 0 (q_brack hk e) | Some v \<Rightarrow> seq [k_expr K v, emit OpSlice 0 1 (q_brack hk e)]] c)"
      by (rule leads_seqs leads_slice_operand leads_expr_or_nil last w | simp)+
    then show ?thesis unfolding SliceExpr by (simp add: expr_body_def)
  next
    case (StarExpr m x)
    then have "well_formed x" using wf by simp
    then show ?thesis by (simp add: StarExpr expr_body_def) (rule leads_seqs expr leads_emit | simp)+
  next
    case (ParenExpr m x)
    then show ?thesis using wf expr by (simp add: expr_body_def)
  next
    case (UnaryExpr m t x)
    then show ?thesis using wf leads_unary by (simp add: expr_body_def)
  next
    case (BinaryExpr m x t y)
    then show ?thesis using wf leads_binary by (simp add: expr_body_def)
  next
    case (CallExpr m f as)
    then show ?thesis using wf leads_call [of f as] by (simp add: expr_body_def list_all_iff)
  next
    case (CompositeLit m t es)
    then have "list_all well_formed es" "base_ok (Written t)"
      using wf by (auto simp: list_all_iff base_ok_def base_node_def split: option.split)
    then show ?thesis using leads_compileLit by (simp add: CompositeLit expr_body_def)
  next
    case (FuncLit m t body)
    then show ?thesis using wf leads_funcLit by (simp add: expr_body_def)
  next
    case (TypeAssertExpr m x t)
    then have w: "well_formed x" "\<And>y. t = Some y \<Longrightarrow> well_formed y" using wf by auto
    show ?thesis
    proof (cases t)
      case None
      have "leads b n h (Suc h) c (seq [k_expr K x, trap (npos m) ''.(type) outside type switch''] c)"
        by (rule leads_seqs expr w leads_trap | simp)+
      then show ?thesis using TypeAssertExpr None by (simp add: expr_body_def)
    next
      case (Some te)
      have "leads b n h (Suc h) c (seq [k_expr K x, staticTyp hk K x, k_type K te, emit OpAssert 0 1 (npos m)] c)"
        by (rule leads_seqs comp_rules leads_staticTyp w leads_emit | simp add: Some)+
      then show ?thesis using TypeAssertExpr Some by (simp add: expr_body_def)
    qed
  next
    case (IndexListExpr m x "is")
    then have "well_formed x" "\<And>i. i \<in> set is \<Longrightarrow> well_formed i" using wf by simp_all
    then show ?thesis
      by (simp add: IndexListExpr expr_body_def) (rule leads_seqs leads_seq_map1 comp_rules leads_emit | simp)+
  qed (use leads_type [OF e] in \<open>simp_all add: expr_body_def leads_trap leads_ident leads_basic_lit\<close>)
qed

end

end
