(* ===== verification/StmtTyped.thy ===== *)
theory StmtTyped
  imports FuncTyped
begin

text \<open>
  Statements are compiled to code that starts and ends with an empty stack: assignments and
  local declarations. The statements with jumps follow in the theories after it.
\<close>

section \<open>Names in the current block\<close>

definition here_bound :: "node list \<Rightarrow> 't cstate \<Rightarrow> bool" where
  "here_bound ls c \<longleftrightarrow> (\<forall>m x. Ident m x \<in> set ls \<longrightarrow> x \<noteq> ''_'' \<longrightarrow> inCurrentBlock (cur_scope c) x)"

lemma grown_in_block:
  assumes "grown b c ht c' ht'" and "c_fs c \<noteq> []" and "inCurrentBlock (cur_scope c) x"
  shows "inCurrentBlock (cur_scope c') x"
proof -
  obtain s ps s' ps' where fs: "c_fs c = s # ps" "c_fs c' = s' # ps'" "scope_grows s s'"
    using assms(1,2) by (cases "c_fs c"; cases "c_fs c'") (auto simp: grown_def)
  then show ?thesis using assms(3)
    by (auto simp: cur_scope_def scope_grows_def inCurrentBlock_def list_all2_Cons1 split: list.splits)
qed

lemma here_bound_grown: "grown b c ht c' ht' \<Longrightarrow> c_fs c \<noteq> [] \<Longrightarrow> here_bound ls c \<Longrightarrow> here_bound ls c'"
  by (auto simp: here_bound_def intro: grown_in_block)

lemma in_block_slot:
  assumes "bounded c" and "inCurrentBlock (cur_scope c) x"
  shows "\<exists>r. lookupBinding (c_fs c) x = Some r \<and> b_slot r < next_slot c"
proof -
  obtain s ps where fs: "c_fs c = s # ps" "scope_bound s" using assms(1) by (cases "c_fs c") (auto simp: bounded_def)
  then obtain bl bs r where bl: "fs_blocks s = bl # bs" "map_of bl x = Some r"
    using assms(2) by (auto simp: cur_scope_def inCurrentBlock_def split: list.splits)
  then have "r \<in> ran (map_of bl)" by (auto simp: ran_def)
  then show ?thesis using fs bl by (auto simp: scope_bound_def next_slot_def cur_scope_def)
qed

text \<open>A step that binds names in the current block.\<close>

definition binds :: "reach \<Rightarrow> nat \<Rightarrow> nat \<Rightarrow> nat \<Rightarrow> node list \<Rightarrow> 't cstate \<Rightarrow> 't cstate \<Rightarrow> bool" where
  "binds b n h h' ls c c' \<longleftrightarrow>
     leads b n h h' c c' \<and> (\<forall>L ht. typed L c ht \<longrightarrow> last ht = h \<longrightarrow> n \<le> next_slot c \<longrightarrow> here_bound ls c')"

lemma binds_leads: "binds b n h h' ls c c' \<Longrightarrow> leads b n h h' c c'"
  by (simp add: binds_def)

lemma here_bound_step:
  assumes "leads b n h h' c c'" and "typed L c ht" "last ht = h" "n \<le> next_slot c" and "here_bound ls c"
  shows "here_bound ls c'"
  by (rule leadsE [OF assms(1-4)]) (rule here_bound_grown [OF _ typed_fs [OF assms(2)] assms(5)])

lemma binds_trans:
  assumes "binds b n h h1 ls1 c c1" and "binds b n h1 h2 ls2 c1 c2"
  shows "binds b n h h2 (ls1 @ ls2) c c2"
proof -
  have l: "leads b n h h1 c c1" "leads b n h1 h2 c1 c2" using assms by (simp_all add: binds_def)
  have "here_bound (ls1 @ ls2) c2" if t: "typed L c ht" "last ht = h" "n \<le> next_slot c" for L ht
  proof -
    obtain ht1 where 1: "grown b c ht c1 ht1" "typed L c1 ht1" "last ht1 = h1" by (rule leadsE [OF l(1) t])
    have n: "n \<le> next_slot c1" using grown_slot [OF 1(1) typed_fs [OF t(1)]] t(3) by simp
    have "here_bound ls1 c1" using assms(1) t by (auto simp: binds_def)
    then have "here_bound ls1 c2" by (rule here_bound_step [OF l(2) 1(2,3) n])
    moreover have "here_bound ls2 c2" using assms(2) 1(2,3) n by (auto simp: binds_def)
    ultimately show ?thesis by (auto simp: here_bound_def)
  qed
  then show ?thesis using leads_trans [OF l] by (simp add: binds_def)
qed

lemma binds_nothing: "leads b n h h' c c' \<Longrightarrow> binds b n h h' [] c c'"
  by (simp add: binds_def here_bound_def)

lemma binds_then: "binds b n h h1 ls c c1 \<Longrightarrow> leads b n h1 h2 c1 c2 \<Longrightarrow> binds b n h h2 ls c c2"
  using binds_trans [of b n h h1 ls c c1 h2 "[]" c2] binds_nothing by fastforce

lemma leads_binds: "leads b n h h1 c c1 \<Longrightarrow> binds b n h1 h2 ls c1 c2 \<Longrightarrow> binds b n h h2 ls c c2"
  using binds_trans [of b n h h1 "[]" c c1 h2 ls c2] binds_nothing by fastforce

lemma binds_use:
  assumes "binds b n h h1 ls c c1" and "here_bound ls c1 \<Longrightarrow> leads b n h1 h2 c1 c2"
  shows "leads b n h h2 c c2"
proof (rule leads_assume)
  fix L ht
  assume "typed L c ht" "last ht = h" "n \<le> next_slot c"
  then have "here_bound ls c1" using assms(1) by (auto simp: binds_def)
  then show "leads b n h h2 c c2" using leads_trans [OF binds_leads [OF assms(1)] assms(2)] by blast
qed

lemma binds_seq_map:
  assumes "\<And>x h c. x \<in> set xs \<Longrightarrow> binds b n (k + h) h (g x) c (f x c)"
  shows "binds b n (k * length xs + h) h (concat (map g xs)) c (seq (map f xs) c)"
  using assms
proof (induction xs arbitrary: c)
  case (Cons x xs)
  have 1: "binds b n (k + (k * length xs + h)) (k * length xs + h) (g x) c (f x c)" by (rule Cons.prems) simp
  have 2: "binds b n (k * length xs + h) h (concat (map g xs)) (f x c) (seq (map f xs) (f x c))"
    by (rule Cons.IH) (use Cons.prems in simp)
  show ?case using binds_trans [OF 1 2] by (simp add: seq_simps algebra_simps)
qed (simp add: binds_nothing leads_seq_Nil)

lemma binds_declared:
  assumes "leads b n h h' c c'" and "\<And>s ps. c_fs c = s # ps \<Longrightarrow> cur_scope c' = snd (fs_declare x p s)"
  shows "binds b n h h' [Ident m x] c c'"
proof -
  have "inCurrentBlock (cur_scope c') x" if t: "typed L c ht" for L ht
  proof -
    obtain s ps where "c_fs c = s # ps" using typed_fs [OF t] by (cases "c_fs c") auto
    then show ?thesis by (simp add: assms(2) inCurrentBlock_def fs_declare_def Let_def put_def update_conv')
  qed
  then show ?thesis using assms(1) by (auto simp: binds_def here_bound_def)
qed

section \<open>What is noted about names\<close>

lemma leads_note_type: "leads b n h h c (note_type x t c)"
  unfolding note_type_def by (rule leads_marks)

lemma leads_note_decl: "leads b n h h c (note_decl hk x t isConst rhs c)"
proof -
  let ?c1 = "if isConst then on_scope (noteConstDecl x) c else c"
  have 1: "leads b n h h c ?c1" by (intro leads_if leads_marks leads_refl)
  have "leads b n h h ?c1 (note_decl hk x t isConst rhs c)"
    by (cases t; cases rhs; simp only: note_decl_def Let_def prod.case option.case;
        intro leads_if leads_note_type leads_marks leads_refl)
  then show ?thesis by (rule leads_trans [OF 1])
qed

lemma leads_mark_iface: "leads b n h h c (mark_iface hk it t x rhs c)"
  unfolding mark_iface_def by (intro leads_if leads_marks leads_refl)

lemma leads_noteBindVar: "leads b n h h c (noteBindVar e te def c)"
  by (cases e) (simp_all add: noteBindVar_def leads_skip leads_note_type)

lemma leads_note_bind: "leads b n h h c (note_bind hk lhs rhs i x c)"
proof -
  let ?r = "if length rhs = length lhs then rhs ! i else hd rhs"
  let ?c1 = "if isIfaceExpr hk c ?r then on_scope (markIface x) c else c"
  have 1: "leads b n h h c ?c1" by (intro leads_if leads_marks leads_refl)
  have 2: "leads b n h h c (note_type x t (if p then on_scope (markIface x) c else c))" for t p c
    by (rule leads_trans [OF _ leads_note_type], intro leads_if leads_marks leads_refl)
  have "leads b n h h ?c1 (note_bind hk lhs rhs i x c)"
    unfolding note_bind_def Let_def by (intro leads_if leads_note_decl leads_note_type leads_refl 2)
  then show ?thesis by (rule leads_trans [OF 1])
qed

lemma leads_note_binds: "leads b n h h c (note_binds hk lhs rhs i ls c)"
proof (induction ls arbitrary: i c)
  case (Cons l ls)
  have "leads b n h h c (case l of Ident m x \<Rightarrow> if x = ''_'' then c else note_bind hk lhs rhs i x c | _ \<Rightarrow> c)"
    by (cases l) (simp_all add: leads_refl leads_note_bind)
  then show ?case unfolding note_binds.simps by (rule leads_trans [OF _ Cons.IH])
qed (simp add: leads_refl)

context typed_comp
begin

lemma leads_stamp: "here_bound ls c \<Longrightarrow> leads b n h h c (stampInferredTyps hk K k rhs i ls c)"
proof (induction ls arbitrary: i c)
  case (Cons l ls)
  define c1 where "c1 = (case l of
      Ident m x \<Rightarrow>
        if x = ''_'' then c
        else (case q_inferredBind hk k rhs i c of
            None \<Rightarrow> c
          | Some t \<Rightarrow>
              (case lookupBinding (c_fs c) x of
                 None \<Rightarrow> c
               | Some b \<Rightarrow> seq [k_type K t, emit OpCoerce (int (b_slot b)) 0 (npos m)] c))
    | _ \<Rightarrow> c)"
  have 1: "leads b n h h c c1"
  proof (rule leads_bounded)
    assume bd: "bounded c"
    show "leads b n h h c c1"
    proof (cases "\<exists>m x. l = Ident m x \<and> x \<noteq> ''_''")
      case True
      then obtain m x where l: "l = Ident m x" "x \<noteq> ''_''" by blast
      then have "inCurrentBlock (cur_scope c) x" using Cons.prems by (simp add: here_bound_def)
      then obtain r where r: "lookupBinding (c_fs c) x = Some r" "b_slot r < next_slot c" using in_block_slot [OF bd] by blast
      have "leads b (next_slot c) h h c (seq [k_type K t, emit OpCoerce (int (b_slot r)) 0 (npos m)] c)" if "well_formed t" for t
        by (rule leads_seqs type_op that leads_emit | simp add: r(2))+
      then have "leads b n h h c (seq [k_type K t, emit OpCoerce (int (b_slot r)) 0 (npos m)] c)" if "well_formed t" for t
        using that leads_slots by blast
      then show ?thesis unfolding c1_def l(1) using l(2) r(1) inferred_type by (auto simp: leads_refl split: option.split)
    next
      case False
      then have "c1 = c" unfolding c1_def by (cases l) auto
      then show ?thesis by (simp add: leads_refl)
    qed
  qed
  have "leads b n h h c (stampInferredTyps hk K k rhs (Suc i) ls c1)"
  proof (rule leads_given [OF 1])
    fix L ht ht1
    assume t: "typed L c ht" "grown b c ht c1 ht1" "typed L c1 ht1"
    have "here_bound (l # ls) c1" by (rule here_bound_grown [OF t(2) typed_fs [OF t(1)] Cons.prems])
    then have "here_bound ls c1" by (simp add: here_bound_def)
    then show "leads b n h h c1 (stampInferredTyps hk K k rhs (Suc i) ls c1)" by (rule Cons.IH)
  qed
  then show ?case by (simp only: stampInferredTyps.simps c1_def)
qed (simp add: leads_refl)

lemma leads_noteIfaceBinds:
  assumes "tok = DEFINE \<longrightarrow> here_bound lhs c"
  shows "leads b n h h c (noteIfaceBinds hk K lhs tok rhs c)"
proof (cases "tok = DEFINE")
  case True
  let ?c1 = "note_binds hk lhs rhs 0 lhs c"
  have "leads b n h h c (stampInferredTyps hk K (length lhs) rhs 0 lhs ?c1)"
  proof (rule leads_given [OF leads_note_binds])
    fix L ht ht1
    assume "typed L c ht" "grown b c ht ?c1 ht1" "typed L ?c1 ht1"
    then have "here_bound lhs ?c1" using here_bound_grown typed_fs assms True by blast
    then show "leads b n h h ?c1 (stampInferredTyps hk K (length lhs) rhs 0 lhs ?c1)" by (rule leads_stamp)
  qed
  then show ?thesis using True by (simp add: noteIfaceBinds_def)
qed (simp add: noteIfaceBinds_def leads_refl)

section \<open>Assignments\<close>

lemma leads_commaOk:
  assumes e: "well_formed e" and p: "commaOkRhs hk K e = Some p"
  shows "leads b n h (Suc h) c (p c)"
proof -
  have wf: "x \<in> set (children (unparen e)) \<Longrightarrow> well_formed x" for x
    using well_formed_unparen [OF e] by (rule well_formed_child)
  show ?thesis
  proof (cases "unparen e")
    case (UnaryExpr m t x)
    then have "p = seq [k_expr K x, emit OpRecvOK 0 0 (npos m)]" "well_formed x"
      using p wf by (auto simp: commaOkRhs_def split: if_splits)
    then show ?thesis by simp (rule leads_seqs expr leads_emit | simp)+
  next
    case (IndexExpr m x i)
    then have "p = seq [k_expr K x, k_expr K i, emit OpIndexOK 0 0 (q_brack hk (unparen e))]" "well_formed x" "well_formed i"
      using p wf by (auto simp: commaOkRhs_def)
    then show ?thesis by simp (rule leads_seqs expr leads_emit | simp)+
  next
    case (TypeAssertExpr m x t)
    then obtain te where "p = seq [k_expr K x, k_type K te, emit OpAssertOK 0 0 (npos m)]" "well_formed x" "well_formed te"
      using p wf by (auto simp: commaOkRhs_def split: option.splits)
    then show ?thesis by simp (rule leads_seqs comp_rules leads_emit | simp)+
  qed (use p in \<open>simp_all add: commaOkRhs_def\<close>)
qed

lemma leads_store_all:
  assumes "list_all well_formed ls"
  shows "leads b n (length ls + h) h c (seq (map (\<lambda>l. storeTarget hk K l def) ls) c)"
  using assms
proof (induction ls arbitrary: c)
  case (Cons l ls)
  have l: "well_formed l" and ls: "list_all well_formed ls" using Cons.prems by simp_all
  have "leads b n (Suc (length ls + h)) h c (seq (storeTarget hk K l def # map (\<lambda>l. storeTarget hk K l def) ls) c)"
    by (rule leads_seq_Cons [OF leads_storeTarget [OF l] Cons.IH [OF ls]])
  then show ?case by simp
qed (simp add: leads_seq_Nil)

text \<open>A definition binds its names in the current block.\<close>

lemma storeTarget_binds:
  assumes l: "well_formed l"
  shows "binds b n (Suc h) h [l] c (storeTarget hk K l True c)"
proof -
  have lead: "leads b n (Suc h) h c (storeTarget hk K l True c)" by (rule leads_storeTarget [OF l])
  show ?thesis
  proof (cases "\<exists>m x. l = Ident m x \<and> x \<noteq> ''_''")
    case True
    then obtain m x where x: "l = Ident m x" "x \<noteq> ''_''" by blast
    show ?thesis
    proof (cases "inCurrentBlock (cur_scope c) x")
      case True
      then have "here_bound [l] c" by (simp add: here_bound_def x)
      then show ?thesis using here_bound_step [OF lead] lead by (auto simp: binds_def)
    next
      case False
      then show ?thesis unfolding x(1)
        by (intro binds_declared [OF lead [unfolded x(1)], where p = "npos m"])
          (use x(2) in \<open>simp add: storeTarget_def emit_add declare_local_def on_scope_def cur_scope_def\<close>)
    qed
  qed (use lead in \<open>auto simp: binds_def here_bound_def\<close>)
qed

lemma store_all_binds:
  assumes "list_all well_formed ls"
  shows "binds b n (length ls + h) h ls c (seq (map (\<lambda>l. storeTarget hk K l True) ls) c)"
  using binds_seq_map [of ls b n 1 "\<lambda>l. [l]" "\<lambda>l. storeTarget hk K l True" h c] storeTarget_binds assms
  by (simp add: list_all_iff)

lemma leads_compound:
  assumes lhs: "list_all well_formed lhs" and rhs: "list_all well_formed rhs"
  shows "leads b n 0 0 c (compound_assign hk K lhs tok rhs pos c)"
proof (cases "\<exists>l r. lhs = [l] \<and> rhs = [r]")
  case True
  then obtain l r where lr: "lhs = [l]" "rhs = [r]" by blast
  then have wf: "well_formed (unparen l)" "well_formed r" using lhs rhs well_formed_unparen by simp_all
  let ?t = "unparen l"
  have "leads b n 0 0 c (seq [k_ref K False ?t, k_expr K r, emit OpSwap 0 0 (pos_of ?t), emit OpDup 0 0 (pos_of ?t),
      emit OpDeref 0 0 (pos_of ?t), emit OpRot3 0 0 (pos_of ?t), emit OpBinary k 0 pos, emit OpSetRefs 1 0 pos] c)" for k
    by (rule leads_seqs comp_rules wf leads_emit | simp)+
  then show ?thesis using lr by (simp add: compound_assign_def Let_def leads_trap split: option.split)
next
  case False
  then have "compound_assign hk K lhs tok rhs pos = trap pos ''compound assignment requires single operands''"
    by (auto simp: compound_assign_def split: list.splits)
  then show ?thesis by (simp add: leads_trap)
qed

lemma leads_assign:
  assumes lhs: "list_all well_formed lhs" and rhs: "list_all well_formed rhs"
    and len: "length rhs = length lhs \<or> length rhs = 1 \<and> 1 < length lhs"
  shows "leads b n 0 0 c (assign hk K lhs tok rhs pos c)"
proof (cases "tok = ASSIGN \<or> tok = DEFINE")
  case True
  let ?n = "length lhs" and ?def = "tok = DEFINE"
  let ?refs = "seq (if ?def then [] else map (k_ref K (?n > 1)) lhs)"
  let ?vals = "if length rhs = 1 \<and> ?n > 1
      then (case (if ?n = 2 then commaOkRhs hk K (hd rhs) else None) of
          Some p \<Rightarrow> seq [p, emit3 OpUnpack 2 0 0 pos]
        | None \<Rightarrow> seq [k_expr K (hd rhs), emit3 OpUnpack (int ?n) 0 0 pos])
      else seq (map (k_expr K) rhs)"
  let ?k = "if ?def then 0 else ?n"
  have refs: "leads b n 0 ?k c (?refs c)" for c
    using leads_seq_map1 [of lhs b n "k_ref K (?n > 1)" 0 c] lhs storage by (simp add: leads_seq_Nil list_all_iff)
  have vals: "leads b n h (?n + h) c (?vals c)" for h c
  proof (cases "length rhs = 1 \<and> ?n > 1")
    case one: True
    then obtain r where r: "rhs = [r]" by (cases rhs) auto
    then have wf: "well_formed r" using rhs by simp
    have "leads b n h (?n + h) c (seq [p, emit3 OpUnpack 2 0 0 pos] c)" if "commaOkRhs hk K r = Some p" "?n = 2" for p
      by (rule leads_seqs leads_commaOk [OF wf that(1)] leads_emit3 | simp add: that(2))+
    moreover have "leads b n h (?n + h) c (seq [k_expr K r, emit3 OpUnpack (int ?n) 0 0 pos] c)"
      by (rule leads_seqs expr wf leads_emit3 | simp)+
    ultimately show ?thesis using r one by (auto split: option.split)
  next
    case False
    then show ?thesis using leads_exprs [OF rhs, of b n h c] len by auto
  qed
  have stores: "leads b n (?n + ?k) 0 c (seq [storeAll hk K lhs ?def (\<not> ?def) pos, noteIfaceBinds hk K lhs tok rhs] c)" for c
  proof (cases ?def)
    case True
    let ?c1 = "seq (map (\<lambda>l. storeTarget hk K l True) (rev lhs)) c"
    have rev: "list_all well_formed (rev lhs)" using lhs by (simp add: list_all_iff)
    have "leads b n (?n + ?k) 0 c (noteIfaceBinds hk K lhs tok rhs ?c1)"
    proof (rule binds_use)
      show "binds b n (?n + ?k) 0 (rev lhs) c ?c1" using store_all_binds [OF rev, of b n 0 c] True by simp
      show "leads b n 0 0 ?c1 (noteIfaceBinds hk K lhs tok rhs ?c1)" if "here_bound (rev lhs) ?c1"
        by (rule leads_noteIfaceBinds) (use that in \<open>simp add: here_bound_def\<close>)
    qed
    then show ?thesis using True by (simp add: seq_simps storeAll_def)
  next
    case False
    have "leads b n (?n + ?n) 0 c (seq [emit OpSetRefs (int ?n) 0 pos, noteIfaceBinds hk K lhs tok rhs] c)"
      by (rule leads_seqs leads_emit leads_noteIfaceBinds | simp add: False)+
    then show ?thesis using False by (simp add: storeAll_def)
  qed
  have "leads b n 0 0 c (seq ([?refs, ?vals] @ [storeAll hk K lhs ?def (\<not> ?def) pos, noteIfaceBinds hk K lhs tok rhs]) c)"
    by (rule leads_seq_append [OF _ stores]) (rule leads_seq_Cons [OF refs], rule leads_seq_simple [OF vals])
  then show ?thesis using True by (auto simp: assign_def Let_def)
next
  case False
  then show ?thesis using leads_compound [OF lhs rhs] by (simp add: assign_def Let_def)
qed

section \<open>Local declarations\<close>

lemma leads_bind_local: "leads b n (Suc h) h c (bind_local x pos k c)"
  unfolding bind_local_def by (intro leads_if leads_new_local leads_emit') simp_all

lemma leads_coerce_top:
  "(\<And>te. t = Some te \<Longrightarrow> well_formed te) \<Longrightarrow> leads b n (Suc h) (Suc h) c (coerce_top K t pos c)"
  unfolding coerce_top_def by (rule leads_option_fun) (simp add: leads_skip, (rule leads_seqs type_op leads_emit | simp)+)

lemma bind_local_slot: "c_fs c \<noteq> [] \<Longrightarrow> x \<noteq> ''_'' \<Longrightarrow> next_slot (bind_local x pos k c) = Suc (next_slot c)"
  by (simp add: bind_local_def emit_add)

lemma leads_bind_coerced:
  assumes t: "\<And>te. t = Some te \<Longrightarrow> well_formed te"
  shows "leads b n h h (bind_local (ident_name nm) (pos_of nm) isConst c) (bind_coerced K t isConst tc nm c)"
    and "leads b n (Suc h) h c (bind_coerced K t isConst tc nm c)"
proof -
  let ?x = "ident_name nm"
  let ?c1 = "bind_local ?x (pos_of nm) isConst c"
  show 1: "leads b n h h ?c1 (bind_coerced K t isConst tc nm c)"
  proof (cases t)
    case (Some te)
    show ?thesis
    proof (cases "tc \<or> ?x = ''_''")
      case False
      show ?thesis
      proof (rule leads_bounded)
        assume bd: "bounded ?c1"
        then have "c_fs c \<noteq> []" using False by (auto simp: bind_local_def emit_add bounded_def)
        then have slot: "next_slot ?c1 = Suc (next_slot c)" using bind_local_slot False by blast
        have "leads b (Suc (next_slot c)) h h ?c1 (seq [k_type K te, emit OpCoerce (int (next_slot c)) 0 (pos_of nm)] ?c1)"
          by (rule leads_seqs type_op leads_emit | simp add: t Some)+
        then have "leads b n h h ?c1 (seq [k_type K te, emit OpCoerce (int (next_slot c)) 0 (pos_of nm)] ?c1)"
          unfolding slot [symmetric] by (rule leads_slots)
        then show "leads b n h h ?c1 (bind_coerced K t isConst tc nm c)" using Some False by (simp add: bind_coerced_def Let_def)
      qed
    qed (use Some in \<open>simp_all add: bind_coerced_def Let_def leads_refl\<close>)
  qed (simp add: bind_coerced_def Let_def leads_refl)
  show "leads b n (Suc h) h c (bind_coerced K t isConst tc nm c)" by (rule leads_trans [OF leads_bind_local 1])
qed

lemma bind_coerced_binds:
  assumes t: "\<And>te. t = Some te \<Longrightarrow> well_formed te"
  shows "binds b n (Suc h) h [nm] c (bind_coerced K t isConst tc nm c)"
proof (cases "\<exists>m x. nm = Ident m x \<and> x \<noteq> ''_''")
  case True
  then obtain m x where x: "nm = Ident m x" "x \<noteq> ''_''" by blast
  have "binds b n (Suc h) h [nm] c (bind_local (ident_name nm) (pos_of nm) isConst c)"
    unfolding x(1) by (rule binds_declared [OF leads_bind_local, where p = "pos_of nm"])
      (use x(2) in \<open>simp add: x(1) bind_local_def emit_add declare_local_def on_scope_def cur_scope_def ident_name_def\<close>)
  then show ?thesis by (rule binds_then [OF _ leads_bind_coerced(1) [OF t]])
next
  case False
  then show ?thesis using leads_bind_coerced(2) [OF t] by (auto simp: binds_def here_bound_def)
qed

lemma unpacked_binds:
  assumes t: "\<And>te. t = Some te \<Longrightarrow> well_formed te"
  shows "binds b n (Suc h) h [snd ni] c (unpacked_name hk K t isConst it ok val pos ni c)"
proof -
  obtain i nm where ni: "ni = (i, nm)" by fastforce
  let ?c1 = "seq [coerce_top K t pos, bind_coerced K t isConst False nm, mark_iface hk it t (ident_name nm) (Some val)] c"
  have "binds b n (Suc h) h [nm] c ?c1"
    unfolding seq_simps
    by (rule leads_binds [OF leads_coerce_top], erule t) (rule binds_then [OF bind_coerced_binds leads_mark_iface], erule t)
  moreover have "leads b n h h ?c1 (unpacked_name hk K t isConst it ok val pos ni c)"
    unfolding ni unpacked_name_def Let_def prod.case
    by (intro leads_if leads_option leads_note_type leads_note_decl)
  ultimately show ?thesis unfolding ni snd_conv by (rule binds_then)
qed

lemma leads_const_expr: "well_formed e \<Longrightarrow> leads b n h (Suc h) c (const_expr hk K e c)"
  unfolding const_expr_def by (rule leads_option_fun) (simp_all add: leads_const expr)

lemma leads_typed_const: "well_formed te \<Longrightarrow> well_formed e \<Longrightarrow> leads b n h (Suc h) c (typed_const hk K te e c)"
  unfolding typed_const_def by (intro leads_call) simp_all

lemma spec_binds:
  assumes t: "\<And>te. t = Some te \<Longrightarrow> well_formed te" and vals: "list_all well_formed vals"
  shows "binds b n h h [snd ni] c (spec_name hk K t isConst it vals pos ni c)"
proof -
  obtain i nm where ni: "ni = (i, nm)" by fastforce
  let ?rhs = "if i < length vals then Some (vals ! i) else None"
  have w: "well_formed e" if "?rhs = Some e" for e using that vals by (auto simp: list_all_length split: if_splits)
  define tc where "tc = (case (t, ?rhs) of (Some te, Some e) \<Rightarrow> isConst \<and> \<not> q_bareScalar hk te c | _ \<Rightarrow> False)"
  define c1 where "c1 = (case ?rhs of
              None \<Rightarrow> if vals = [] then emit OpNil 0 0 (pos_of nm) c else crash c
            | Some e \<Rightarrow>
                if tc then typed_const hk K (the t) e c
                else seq [if isConst then const_expr hk K e else k_expr K e, coerce_top K t pos] c)"
  have 1: "leads b n h (Suc h) c c1"
    unfolding c1_def
  proof (rule leads_option)
    show "leads b n h (Suc h) c (if vals = [] then emit OpNil 0 0 (pos_of nm) c else crash c)"
      by (intro leads_if leads_crash leads_emit') simp_all
    fix e
    assume e: "?rhs = Some e"
    have "leads b n h (Suc h) c (seq [if isConst then const_expr hk K e else k_expr K e, coerce_top K t pos] c)"
      using leads_const_expr [OF w [OF e]] expr [OF w [OF e]] leads_trans [OF _ leads_coerce_top] t by (simp add: seq_simps)
    moreover have "leads b n h (Suc h) c (typed_const hk K (the t) e c)" if typed: tc
    proof -
      obtain te where "t = Some te" using typed by (auto simp: tc_def split: option.splits)
      then show ?thesis using leads_typed_const t w [OF e] by simp
    qed
    ultimately show "leads b n h (Suc h) c (if tc then typed_const hk K (the t) e c
        else seq [if isConst then const_expr hk K e else k_expr K e, coerce_top K t pos] c)" by simp
  qed
  have "binds b n (Suc h) h [nm] c1 (seq [bind_coerced K t isConst tc nm, mark_iface hk it t (ident_name nm) ?rhs,
      note_decl hk (ident_name nm) t isConst ?rhs] c1)"
    unfolding seq_simps by (rule binds_then [OF binds_then [OF bind_coerced_binds leads_mark_iface] leads_note_decl]) (erule t)
  from leads_binds [OF 1 this] show ?thesis unfolding ni spec_name_def Let_def prod.case c1_def tc_def by simp
qed

lemma leads_iota_start: "leads b n h h c (iota_start i pos c)"
proof (rule leads_bounded)
  assume bd: "bounded c"
  let ?c1 = "emit_k OpConst (KInt (int i)) 0 pos c"
  obtain slot s where s: "iotaSlot (cur_scope ?c1) = (slot, s)" by fastforce
  let ?c2 = "on_scope (\<lambda>_. s) ?c1"
  have 1: "leads b n h (Suc h) c ?c1" by (rule leads_const)
  have 2: "leads b n (Suc h) (Suc h) ?c1 ?c2" by (rule leads_iotaSlot(1) [OF s])
  have "leads b n (Suc h) h ?c1 (emit OpSetLocal (int slot) 0 pos ?c2)"
  proof (rule leads_bounded)
    assume "bounded ?c1"
    then have "slot < next_slot ?c2" by (rule leads_iotaSlot(2) [OF s])
    then have "leads b n (Suc h) h ?c2 (emit OpSetLocal (int slot) 0 pos ?c2)"
      using leads_local [of slot ?c2 "Suc h" OpSetLocal 0 b n pos] by simp
    then show "leads b n (Suc h) h ?c1 (emit OpSetLocal (int slot) 0 pos ?c2)" by (rule leads_trans [OF 2])
  qed
  then have "leads b n (Suc h) h ?c1 ((emit OpSetLocal (int slot) 0 pos ?c2)\<lparr>c_iotaVal := Some i\<rparr>)"
    by (rule leads_trans) (rule leads_core, simp)
  then show "leads b n h h c (iota_start i pos c)" using leads_trans [OF 1] s by (simp add: iota_start_def Let_def)
qed

lemma leads_local_spec:
  assumes t: "\<And>te. es_Type eff = Some te \<Longrightarrow> well_formed te" and vals: "list_all well_formed (es_Values eff)"
  shows "leads b n 0 0 c (local_spec hk K isConst i eff c)"
proof -
  let ?spec = "es_Spec eff" and ?vals = "es_Values eff" and ?t = "es_Type eff"
  let ?names = "vs_Names ?spec" and ?pos = "pos_of ?spec"
  let ?c1 = "if isConst then iota_start i ?pos c else c"
  let ?it = "case ?t of Some te \<Rightarrow> isIfaceTypeExpr hk ?c1 te | None \<Rightarrow> False"
  let ?ok = "if \<not> isConst \<and> length ?names = 2 then commaOkRhs hk K (hd ?vals) else None"
  define c2 where "c2 = (if length ?vals = 1 \<and> length ?names > 1
            then seq ([case ?ok of Some p \<Rightarrow> p | None \<Rightarrow> k_expr K (hd ?vals), emit3 OpUnpack (int (length ?names)) 0 0 ?pos] @
                      map (unpacked_name hk K ?t isConst ?it (?ok \<noteq> None) (hd ?vals) ?pos) (rev (enumerate 0 ?names))) ?c1
            else seq (map (spec_name hk K ?t isConst ?it ?vals ?pos) (enumerate 0 ?names)) ?c1)"
  have 1: "leads b n 0 0 c ?c1" by (intro leads_if leads_iota_start leads_refl)
  have names: "concat (map (\<lambda>x. [snd x]) (enumerate 0 ?names)) = ?names"
    "concat (map (\<lambda>x. [snd x]) (rev (enumerate 0 ?names))) = rev ?names"
  proof -
    have flat: "concat (map (\<lambda>x. [snd x]) xs) = map snd xs" for xs :: "(nat \<times> node) list" by (induction xs) simp_all
    show "concat (map (\<lambda>x. [snd x]) (enumerate 0 ?names)) = ?names"
      "concat (map (\<lambda>x. [snd x]) (rev (enumerate 0 ?names))) = rev ?names"
      unfolding flat by (simp_all only: rev_map [symmetric] map_snd_enumerate)
  qed
  have 2: "\<exists>ls. binds b n 0 0 ls ?c1 c2 \<and> set ls = set ?names"
  proof (cases "length ?vals = 1 \<and> length ?names > 1")
    case True
    then obtain v where v: "?vals = [v]" by (cases ?vals) auto
    then have w: "well_formed v" using vals by simp
    let ?first = "case ?ok of Some p \<Rightarrow> p | None \<Rightarrow> k_expr K v"
    have first: "leads b n 0 (Suc 0) c (?first c)" for c
      using leads_commaOk [OF w] expr [OF w] by (auto simp: v split: option.split if_splits)
    have "leads b n 0 (length ?names) ?c1 (seq [?first, emit3 OpUnpack (int (length ?names)) 0 0 ?pos] ?c1)"
      by (rule leads_seqs first leads_emit3 | simp)+
    moreover have "binds b n (1 * length (rev (enumerate 0 ?names)) + 0) 0 (concat (map (\<lambda>x. [snd x]) (rev (enumerate 0 ?names)))) c'
        (seq (map (unpacked_name hk K ?t isConst ?it (?ok \<noteq> None) v ?pos) (rev (enumerate 0 ?names))) c')" for c'
      by (rule binds_seq_map) (use unpacked_binds [OF t] in simp)
    then have "binds b n (length ?names) 0 (rev ?names) c'
        (seq (map (unpacked_name hk K ?t isConst ?it (?ok \<noteq> None) v ?pos) (rev (enumerate 0 ?names))) c')" for c'
      unfolding names(2) by simp
    ultimately have "binds b n 0 0 (rev ?names) ?c1 c2"
      unfolding c2_def if_P [OF True] unfolding seq_simps(3) v list.sel by (rule leads_binds)
    then show ?thesis by (intro exI [of _ "rev ?names"]) simp
  next
    case False
    have "binds b n (0 * length (enumerate 0 ?names) + 0) 0 (concat (map (\<lambda>x. [snd x]) (enumerate 0 ?names))) ?c1 c2"
      unfolding c2_def if_not_P [OF False] by (rule binds_seq_map) (use spec_binds [OF t vals] in simp)
    then show ?thesis unfolding names(1) by (intro exI [of _ ?names]) simp
  qed
  then obtain ls where ls: "binds b n 0 0 ls ?c1 c2" "set ls = set ?names" by blast
  let ?c3 = "if isConst \<or> ?t \<noteq> None then c2 else stampInferredTyps hk K (length ?names) ?vals 0 ?names c2"
  have "leads b n 0 0 ?c1 ?c3"
  proof (rule binds_use [OF ls(1)])
    assume "here_bound ls c2"
    then have "here_bound ?names c2" using ls(2) by (simp add: here_bound_def)
    then show "leads b n 0 0 c2 ?c3" by (intro leads_if leads_refl leads_stamp)
  qed
  from leads_trans [OF 1 this] have "leads b n 0 0 c (?c3\<lparr>c_iotaVal := None\<rparr>)"
    by (rule leads_trans) (rule leads_core, simp)
  then show ?thesis unfolding local_spec_def Let_def c2_def .
qed

lemma leads_localTypeDecl: "leads b n 0 0 c (localTypeDecl hk ts c)"
proof (rule leads_bounded)
  assume b: "bounded c"
  let ?x = "ident_name (ts_Name ts)" and ?pos = "pos_of ts"
  let ?c1 = "declare_local ?x ?pos c"
  have slot: "next_slot ?c1 = Suc (next_slot c)" using b by (simp add: bounded_def)
  have "leads b (Suc (next_slot c)) 0 0 ?c1 (seq [on_scope (recordType ?x (Some ts) td iface),
      emit_k OpConst k 0 ?pos, emit OpLocalType 0 0 ?pos, emit OpNewLocal (int (next_slot c)) 0 ?pos] ?c1)" for td iface k
    by (rule leads_seqs leads_marks leads_const leads_emit | simp)+
  then have "leads b n 0 0 ?c1 (seq [on_scope (recordType ?x (Some ts) td iface),
      emit_k OpConst k 0 ?pos, emit OpLocalType 0 0 ?pos, emit OpNewLocal (int (next_slot c)) 0 ?pos] ?c1)" for td iface k
    unfolding slot [symmetric] by (rule leads_slots)
  then show "leads b n 0 0 c (localTypeDecl hk ts c)"
    unfolding localTypeDecl_def Let_def seq_simps(2) [of "declare_local ?x ?pos"] by (rule leads_trans [OF leads_declare])
qed

lemma value_specs_well_formed:
  assumes "well_formed d" and "(i, eff) \<in> set (value_specs d)"
  shows "list_all well_formed (opt (es_Type eff) @ es_Values eff)"
proof -
  have spec: "list_all well_formed (opt (vs_Type sp) @ vs_Values sp)" if "well_formed sp" for sp
    using that by (cases sp) (auto simp: vs_Type_def vs_Values_def list_all_iff intro: well_formed_child)
  have from_ok: "list_all well_formed sps \<Longrightarrow> list_all well_formed (opt pt @ pv) \<Longrightarrow> (i, eff) \<in> set (value_specs_from tok k pv pt sps) \<Longrightarrow>
      list_all well_formed (opt (es_Type eff) @ es_Values eff)" for tok k pv pt sps
  proof (induction tok k pv pt sps rule: value_specs_from.induct)
    case (2 tok k pv pt sp sps)
    have sp: "list_all well_formed (opt (vs_Type sp) @ vs_Values sp)" using spec "2.prems"(1) by simp
    show ?case using 2 sp by (auto simp: Let_def split: if_splits)
  qed simp
  show ?thesis
  proof (cases d)
    case (GenDecl m tok specs)
    then have "list_all well_formed specs" using assms(1) by (auto simp: list_all_iff intro: well_formed_child)
    then show ?thesis
      using from_ok [of specs None "[]" tok 0] assms(2) GenDecl by (simp add: value_specs_def split: if_splits)
  qed (use assms(2) in \<open>simp_all add: value_specs_def\<close>)
qed

lemma leads_decl_stmt:
  assumes d: "well_formed d"
  shows "leads b n 0 0 c (decl_stmt hk K d pos c)"
proof (cases d)
  case (GenDecl m tok specs)
  have "leads b n 0 0 c (seq (map (\<lambda>(i, eff). local_spec hk K (tok = CONST_T) i eff) (value_specs d)) c)"
    by (rule leads_seq_map0) (use value_specs_well_formed [OF d] leads_local_spec in \<open>fastforce simp: list_all_iff\<close>)
  moreover have "leads b n 0 0 c (seq (map (localTypeDecl hk) specs) c)" by (rule leads_seq_map0) (rule leads_localTypeDecl)
  ultimately show ?thesis using GenDecl by (simp add: decl_stmt_def leads_trap leads_skip)
qed (simp_all add: decl_stmt_def leads_crash)

end

end
