(* ===== verification/ControlTyped.thy ===== *)
theory ControlTyped
  imports StmtTyped
begin

text \<open>
  The statements with jumps: the contexts that collect breaks and continues, conditionals and loops.
\<close>

section \<open>Contexts of breaks and continues\<close>

lemma push_ctrl_sel [simp]:
  "c_ch (push_ctrl cx c) = c_ch c" "c_fs (push_ctrl cx c) = c_fs c" "c_ctrl (push_ctrl cx c) = cx # c_ctrl c"
  "c_labels (push_ctrl cx c) = c_labels c" "c_falls (push_ctrl cx c) = c_falls c" "c_pendingGotos (push_ctrl cx c) = c_pendingGotos c"
  "c_funs (push_ctrl cx c) = c_funs c" "c_inClause (push_ctrl cx c) = c_inClause c" "c_results (push_ctrl cx c) = c_results c"
  "here (push_ctrl cx c) = here c" "next_slot (push_ctrl cx c) = next_slot c" "cur_scope (push_ctrl cx c) = cur_scope c"
  by (simp_all add: push_ctrl_def here_def next_slot_def cur_scope_def)

definition unused :: "ctrl_ctx \<Rightarrow> bool" where
  "unused cx \<longleftrightarrow> cx_breaks cx = [] \<and> cx_continues cx = []"

lemma typed_push_ctrl:
  assumes "typed L c ht" and "unused cx" and "\<And>ip. cx_continueIP cx = Some ip \<Longrightarrow> at_zero ht ip"
  shows "typed L (push_ctrl cx c) ht"
proof -
  have "recorded (push_ctrl cx c) = recorded c" using assms(2) by (simp add: recorded_def unused_def)
  then show ?thesis using assms(1,3)
    by (auto simp: typed_def flows_def bounded_def holes_def next_slot_def cur_scope_def here_def)
qed

lemma in_set_tlD: "x \<in> set (tl xs) \<Longrightarrow> x \<in> set xs"
  by (cases xs) simp_all

lemma recorded_ctrl:
  assumes "c_ctrl c = cx # cs"
  shows "recorded c = set (cx_breaks cx) \<union> set (cx_continues cx) \<union> recorded (pop_ctrl c)"
  using assms by (auto simp: recorded_def pop_ctrl_def)

lemma pop_ctrl_sel [simp]:
  "c_ch (pop_ctrl c) = c_ch c" "c_fs (pop_ctrl c) = c_fs c" "c_ctrl (pop_ctrl c) = tl (c_ctrl c)"
  "c_labels (pop_ctrl c) = c_labels c" "c_falls (pop_ctrl c) = c_falls c" "c_pendingGotos (pop_ctrl c) = c_pendingGotos c"
  "c_funs (pop_ctrl c) = c_funs c" "c_inClause (pop_ctrl c) = c_inClause c" "c_results (pop_ctrl c) = c_results c"
  "here (pop_ctrl c) = here c" "next_slot (pop_ctrl c) = next_slot c" "cur_scope (pop_ctrl c) = cur_scope c"
  by (simp_all add: pop_ctrl_def here_def next_slot_def cur_scope_def)

lemma typed_close:
  assumes t: "typed L c ht" "last ht = 0" and cx: "c_ctrl c = cx # cs"
    and continues: "\<forall>i\<in>set (cx_continues cx). settled (code c) ht i"
  shows "typed L (close_ctrl c) ht"
proof -
  let ?c = "patch_all (cx_breaks cx) (here c) c"
  have tgt: "here c < length ht" "ht ! here c = 0" using typed_length [OF t(1)] last_height [of ht "here c"] t(2) by simp_all
  have "\<forall>i\<in>set (cx_breaks cx). (i, 0) \<in> holes L c" using cx by (auto simp: holes_def recorded_def)
  note p = typed_patch_all [OF t(1) this tgt]
  have eq: "close_ctrl c = pop_ctrl ?c" by (simp add: close_ctrl_def top_ctrl_def cx)
  have rec: "recorded ?c = set (cx_breaks cx) \<union> set (cx_continues cx) \<union> recorded (pop_ctrl ?c)"
    by (rule recorded_ctrl) (simp only: patch_all_sel cx)
  have gone: "settled (code ?c) ht i" if "i \<in> set (cx_breaks cx) \<union> set (cx_continues cx)" for i
    using that p(2,3) continues by blast
  have f: "flows L ?c ht" using p(1) by (simp add: typed_def)
  have "settled (code ?c) ht i \<or> i \<in> fst ` holes L (pop_ctrl ?c)" if "i < here ?c" for i
  proof -
    have "settled (code ?c) ht i \<or> i \<in> fst ` holes L ?c" using f that by (simp add: flows_def)
    then show ?thesis using gone unfolding holes_def rec by force
  qed
  moreover have "holes L (pop_ctrl ?c) \<subseteq> holes L ?c" unfolding holes_def rec by auto
  ultimately have "flows L (pop_ctrl ?c) ht"
    using f in_set_tlD [of _ "c_ctrl ?c"] unfolding flows_def by (simp del: patch_all_sel) blast
  then show ?thesis using p(1) eq by (simp add: typed_def bounded_def)
qed

lemma grown_close:
  assumes g: "grown b (push_ctrl cx c) ht c' ht'" and cx: "unused cx"
  shows "grown b c ht (close_ctrl c') ht'"
proof -
  obtain cx' cs' where c': "c_ctrl c' = cx' # cs'" "ctrl_grows (here c) cx cx'" "list_all2 (ctrl_grows (here c)) (c_ctrl c) cs'"
    using g by (auto simp: grown_def list_all2_Cons1)
  have "\<forall>i\<in>set (cx_breaks cx'). here c \<le> i" using c'(2) cx by (auto simp: ctrl_grows_def more_from_def unused_def)
  then have "grown b (push_ctrl cx c) ht (patch_all (cx_breaks cx') (here c') c') ht'" by (intro grown_patch_all [OF g]) simp
  then show ?thesis using c' by (cases b) (simp_all add: close_ctrl_def top_ctrl_def grown_def)
qed

text \<open>A construct that takes no continues of its own, or knows where they go.\<close>

lemma leads_ctrl:
  assumes body: "leads b n 0 0 (push_ctrl cx c) c'" and cx: "unused cx" "\<not> (cx_isLoop cx \<and> cx_continueIP cx = None)"
    "cx_continueIP cx = None \<or> cx_continueIP cx = Some (here c)"
  shows "leads b n 0 0 c (close_ctrl c')"
proof (rule leadsI)
  fix L ht
  assume t: "typed L c ht" "last ht = 0" "n \<le> next_slot c"
  have "at_zero ht (here c)" using typed_length [OF t(1)] last_height [of ht "here c"] t(2) by (simp add: at_zero_def)
  then have "typed L (push_ctrl cx c) ht" using cx(3) by (intro typed_push_ctrl [OF t(1) cx(1)]) auto
  then obtain ht' where 1: "grown b (push_ctrl cx c) ht c' ht'" "typed L c' ht'" "last ht' = 0"
    using leadsE [OF body _ t(2)] t(3) by auto
  then obtain cx' cs' where c': "c_ctrl c' = cx' # cs'" "ctrl_grows (here c) cx cx'" by (auto simp: grown_def list_all2_Cons1)
  then have "cx_continues cx' = []" using cx(1,2) by (auto simp: ctrl_grows_def unused_def split: if_splits)
  then have "typed L (close_ctrl c') ht'" by (intro typed_close [OF 1(2,3) c'(1)]) simp
  then show "\<exists>ht'. grown b c ht (close_ctrl c') ht' \<and> typed L (close_ctrl c') ht' \<and> last ht' = 0"
    using grown_close [OF 1(1) cx(1)] 1(3) by blast
qed

lemma leads_open_ctrl:
  assumes "leads b n 0 0 (open_ctrl False c) c'"
  shows "leads b n 0 0 c (close_ctrl c')"
proof -
  have "leads b n 0 0 (c\<lparr>c_pendingLabels := []\<rparr>) (close_ctrl c')"
    by (rule leads_ctrl [OF assms [unfolded open_ctrl_def]]) (simp_all add: unused_def)
  then show ?thesis by (rule leads_trans [OF leads_core, rotated]) simp
qed

text \<open>A loop whose continues are patched at its end: they go to \<open>p\<close>, the loop itself goes back to \<open>q\<close>.\<close>

lemma leads_loop:
  assumes l: "leaves b n 0 0 (set js \<times> {0}) R Z (push_ctrl cx c) c1" and pq: "p \<in> Z" "q \<in> Z" and cx: "unused cx" "cx_continueIP cx = None"
    and c2: "c2 = emit OpJump (int q) 0 pos (patch_all (cx_continues (top_ctrl c1)) p c1)"
  shows "leads b n 0 0 c (close_ctrl (patch_all js (here c2) c2))"
proof (rule leadsI)
  fix L ht
  assume t: "typed L c ht" "last ht = 0" "n \<le> next_slot c"
  have "typed L (push_ctrl cx c) ht" using cx by (intro typed_push_ctrl [OF t(1)]) auto
  then obtain ht1 where 1: "grown b (push_ctrl cx c) ht c1 ht1" "typed (set js \<times> {0} \<union> L) c1 ht1" "last ht1 = 0"
    "\<forall>(i, t)\<in>set js \<times> {0} \<union> R. here c \<le> i" "\<forall>p\<in>Z. at_zero ht1 p"
    using leavesE [OF l _ t(2)] t(3) by (metis push_ctrl_sel(10,11))
  obtain cx1 cs1 where c1: "c_ctrl c1 = cx1 # cs1" "ctrl_grows (here c) cx cx1" using 1(1) by (auto simp: grown_def list_all2_Cons1)
  let ?c = "patch_all (cx_continues cx1) p c1"
  have p: "p < length ht1" "ht1 ! p = 0" and q: "q < length ht1" "ht1 ! q = 0" using 1(5) pq by (auto simp: at_zero_def)
  have "\<forall>i\<in>set (cx_continues cx1). (i, 0) \<in> holes (set js \<times> {0} \<union> L) c1" using c1(1) by (auto simp: holes_def recorded_def)
  note cont = typed_patch_all [OF 1(2) this p]
  have c2': "c2 = add_ins \<lparr>i_Op = OpJump, i_A = int q, i_B = 0, i_C = -1, i_Pos = pos\<rparr> [] ?c"
    by (simp add: c2 top_ctrl_def c1(1) emit_add)
  have t2: "typed (set js \<times> {0} \<union> L) c2 (ht1 @ [0])"
    unfolding c2' by (rule typed_back [OF cont(1)]) (use q 1(3) in simp_all)
  have g: "grown b ?c ht1 c2 (ht1 @ [0])" unfolding c2' by (rule grown_add)
  have s2: "\<forall>i\<in>set (cx_continues cx1). settled (code c2) (ht1 @ [0]) i"
  proof
    fix i
    assume i: "i \<in> set (cx_continues cx1)"
    then have "(i, 0) \<in> holes (set js \<times> {0} \<union> L) c1" using c1(1) by (auto simp: holes_def recorded_def)
    then have "i < here ?c" using typed_hole_at [OF 1(2)] by (simp add: hole_ok_def here_def [of c1])
    then show "settled (code c2) (ht1 @ [0]) i" using settled_grown [OF _ _ cont(1) g] cont(2) i by blast
  qed
  let ?c3 = "patch_all js (here c2) c2"
  have top: "here c2 < length (ht1 @ [0])" "(ht1 @ [0]) ! here c2 = 0"
    using typed_length [OF t2] last_height [of "ht1 @ [0]" "here c2"] by simp_all
  have t3: "typed L ?c3 (ht1 @ [0])" by (rule typed_patch_holes [OF t2 top])
  have "\<forall>i\<in>set js. (i, 0) \<in> holes (set js \<times> {0} \<union> L) c2" by (simp add: holes_def)
  then have s3: "\<forall>i\<in>set (cx_continues cx1). settled (code ?c3) (ht1 @ [0]) i"
    using typed_patch_all(3) [OF t2 _ top] s2 by blast
  have "c_ctrl ?c3 = cx1 # cs1" by (simp add: c2' c1(1))
  then have "typed L (close_ctrl ?c3) (ht1 @ [0])" using s3 by (intro typed_close [OF t3]) simp_all
  moreover have "\<forall>i\<in>set (cx_continues cx1). here c \<le> i"
    using c1(2) cx by (auto simp: ctrl_grows_def more_from_def unused_def split: if_splits)
  then have "grown b (push_ctrl cx c) ht ?c3 (ht1 @ [0])"
    using grown_trans [OF grown_patch_all [OF 1(1)] g] 1(4) by (intro grown_patch_all) auto
  then have "grown b c ht (close_ctrl ?c3) (ht1 @ [0])" by (rule grown_close [OF _ cx(1)])
  ultimately show "\<exists>ht'. grown b c ht (close_ctrl ?c3) ht' \<and> typed L (close_ctrl ?c3) ht' \<and> last ht' = 0"
    by (intro exI [of _ "ht1 @ [0]"]) simp
qed

text \<open>From here on the continues of a loop go to this position.\<close>

lemma set_continueIP_sel [simp]:
  "c_ch (set_continueIP ip c) = c_ch c" "c_fs (set_continueIP ip c) = c_fs c"
  "c_labels (set_continueIP ip c) = c_labels c" "c_falls (set_continueIP ip c) = c_falls c"
  "c_pendingGotos (set_continueIP ip c) = c_pendingGotos c" "c_funs (set_continueIP ip c) = c_funs c"
  "c_inClause (set_continueIP ip c) = c_inClause c" "c_results (set_continueIP ip c) = c_results c"
  "here (set_continueIP ip c) = here c" "next_slot (set_continueIP ip c) = next_slot c"
  "cur_scope (set_continueIP ip c) = cur_scope c"
  by (simp_all add: set_continueIP_def here_def next_slot_def cur_scope_def)

lemma leaves_set_continue:
  assumes l: "leaves b n 0 0 H R Z (push_ctrl cx c) c'" and cx: "cx_continueIP cx = None"
  shows "leaves b n 0 0 H R Z (push_ctrl cx c) (set_continueIP (here c') c')"
proof (rule leavesI)
  fix L ht
  assume t: "typed L (push_ctrl cx c) ht" "last ht = 0" "n \<le> next_slot (push_ctrl cx c)"
  obtain ht' where 1: "grown b (push_ctrl cx c) ht c' ht'" "typed (H \<union> L) c' ht'" "last ht' = 0" "\<forall>(i, t)\<in>H \<union> R. here (push_ctrl cx c) \<le> i"
    "\<forall>p\<in>Z. at_zero ht' p" "\<forall>(i, t)\<in>R. hole_ok (code c') ht' i t"
    by (rule leavesE [OF l t])
  obtain cx' cs' where c': "c_ctrl c' = cx' # cs'" using 1(1) by (auto simp: grown_def list_all2_Cons1)
  let ?c = "set_continueIP (here c') c'"
  have eq: "?c = c'\<lparr>c_ctrl := cx'\<lparr>cx_continueIP := Some (here c')\<rparr> # cs'\<rparr>" by (simp add: set_continueIP_def c')
  have "at_zero ht' (here c')" using typed_length [OF 1(2)] last_height [of ht' "here c'"] 1(3) by (simp add: at_zero_def)
  then have ips: "\<forall>cx\<in>set (c_ctrl ?c). \<forall>ip. cx_continueIP cx = Some ip \<longrightarrow> at_zero ht' ip"
    using 1(2) by (simp add: eq typed_def flows_def c')
  have rec: "recorded ?c = recorded c'" by (simp add: eq recorded_def c')
  have "typed (H \<union> L) ?c ht'"
    using 1(2) ips unfolding typed_def flows_def holes_def rec bounded_def by simp
  moreover have "grown b (push_ctrl cx c) ht ?c ht'"
    using 1(1) cx by (cases b) (simp_all add: eq grown_def c' ctrl_grows_def)
  ultimately show "\<exists>ht'. grown b (push_ctrl cx c) ht ?c ht' \<and> typed (H \<union> L) ?c ht' \<and> last ht' = 0 \<and>
      (\<forall>(i, t)\<in>H \<union> R. here (push_ctrl cx c) \<le> i) \<and> (\<forall>p\<in>Z. at_zero ht' p) \<and> (\<forall>(i, t)\<in>R. hole_ok (code ?c) ht' i t)"
    using 1(3-6) by (intro exI [of _ ht']) simp
qed

section \<open>Conditionals and loops\<close>

lemma leaves_patch_last:
  assumes "leaves b n h h' H R Z c c'" and "H \<subseteq> {(i, h')}" and "(i, h') \<in> H \<union> R"
  shows "leads b n h h' c (patchA i (here c') c')"
proof -
  have "H - {(i, h')} = {}" using assms(2) by auto
  then show ?thesis using leavesD leaves_patch [OF assms(1,3)] by metis
qed

lemma shadow_names_step:
  "c_fs c \<noteq> [] \<Longrightarrow> next_slot (snd (shadow_names xs c)) = next_slot c + length xs \<and> c_fs (snd (shadow_names xs c)) \<noteq> []"
  by (induction xs c rule: shadow_names.induct) (auto simp: Let_def case_prod_beta seq_simps emit_add)

lemma outer_slot: "bounded c \<Longrightarrow> (case lookupLocal (cur_scope c) x of Some i \<Rightarrow> i | None \<Rightarrow> 0) \<le> next_slot c"
  using lookupLocal_bound [of "cur_scope c" x]
  by (cases "c_fs c") (auto simp: bounded_def cur_scope_def next_slot_def less_imp_le split: option.split)

lemma leads_shadow_name:
  assumes "outer \<le> next_slot c"
  shows "leads b n h h c (seq [declare_local x pos, emit OpLocal (int outer) 0 pos, emit OpNewLocal (int (next_slot c)) 0 pos] c)"
proof (rule leads_bounded)
  assume bd: "bounded c"
  let ?c = "declare_local x pos c"
  have slot: "next_slot ?c = Suc (next_slot c)" using bd by (simp add: bounded_def)
  have "leads b (Suc (next_slot c)) h h ?c (seq [emit OpLocal (int outer) 0 pos, emit OpNewLocal (int (next_slot c)) 0 pos] ?c)"
    by (rule leads_seqs leads_emit | simp add: assms le_imp_less_Suc)+
  then have "leads b n h h ?c (seq [emit OpLocal (int outer) 0 pos, emit OpNewLocal (int (next_slot c)) 0 pos] ?c)"
    unfolding slot [symmetric] by (rule leads_slots)
  then show "leads b n h h c (seq [declare_local x pos, emit OpLocal (int outer) 0 pos, emit OpNewLocal (int (next_slot c)) 0 pos] c)"
    unfolding seq_simps(2) [of "declare_local x pos"] by (rule leads_trans [OF leads_declare])
qed

lemma leads_shadow_names: "leads b n h h c (snd (shadow_names xs c))"
proof (induction xs c rule: shadow_names.induct)
  case (2 x pos xs c)
  show ?case
  proof (rule leads_bounded)
    assume "bounded c"
    from leads_trans [OF leads_shadow_name [OF outer_slot [OF this]] "2.IH"]
    show "leads b n h h c (snd (shadow_names ((x, pos) # xs) c))" by (simp add: Let_def case_prod_beta)
  qed
qed (simp add: leads_refl)

lemma shadow_names_slots:
  "typed L c ht \<Longrightarrow> last ht = h \<Longrightarrow> \<forall>p\<in>set (fst (shadow_names xs c)). fst p < next_slot (snd (shadow_names xs c)) \<and>
     snd p < next_slot (snd (shadow_names xs c))"
proof (induction xs c arbitrary: ht rule: shadow_names.induct)
  case (2 x pos xs c)
  let ?outer = "case lookupLocal (cur_scope c) x of Some i \<Rightarrow> i | None \<Rightarrow> 0"
  let ?c1 = "seq [declare_local x pos, emit OpLocal (int ?outer) 0 pos, emit OpNewLocal (int (next_slot c)) 0 pos] c"
  have out: "?outer \<le> next_slot c" using "2.prems"(1) by (intro outer_slot) (simp add: typed_def)
  obtain ht1 where 1: "typed L ?c1 ht1" "last ht1 = h"
    by (rule leadsE [OF leads_shadow_name [OF out, of InExpr 0 h] "2.prems"]) auto
  have fs: "c_fs c \<noteq> []" by (rule typed_fs [OF "2.prems"(1)])
  then have slot: "next_slot ?c1 = Suc (next_slot c)" by (simp add: seq_simps emit_add)
  have grow: "next_slot ?c1 \<le> next_slot (snd (shadow_names xs ?c1))" using shadow_names_step [of ?c1 xs] typed_fs [OF 1(1)] by simp
  have "\<forall>p\<in>set (fst (shadow_names xs ?c1)). fst p < next_slot (snd (shadow_names xs ?c1)) \<and> snd p < next_slot (snd (shadow_names xs ?c1))"
    by (rule "2.IH" [OF _ _ _ 1]) simp_all
  then show ?case using grow slot out by (simp add: Let_def case_prod_beta)
qed simp

lemma leads_copy_back: "\<forall>p\<in>set ps. fst p < n \<and> snd p < n \<Longrightarrow> leads b n h h c (copy_back pos ps c)"
  unfolding copy_back_def
  by (rule leads_seq_concat0, clarsimp) (rule leads_seqs leads_emit | force)+

context typed_comp
begin

lemma leads_stmts':
  "list_all well_formed ss \<Longrightarrow> list_all (allowed b) ss \<Longrightarrow> leads b n 0 0 c (stmts K ss c)"
  unfolding stmts_def by (rule leads_stmts)

lemma leads_opt_stmt:
  "(\<And>x. s = Some x \<Longrightarrow> well_formed x \<and> allowed b x) \<Longrightarrow> leads b n 0 0 c (opt_stmt K s c)"
  unfolding opt_stmt_def by (rule leads_option_fun) (simp_all add: leads_skip stmt)

lemma leads_ifStmt:
  assumes cond: "well_formed cond" and body: "well_formed body" "allowed b body"
    and init: "\<And>x. init = Some x \<Longrightarrow> well_formed x \<and> allowed b x" and els: "\<And>x. els = Some x \<Longrightarrow> well_formed x \<and> allowed b x"
  shows "leads b n 0 0 c (ifStmt K pos init cond body els c)"
proof -
  let ?c1 = "seq [opt_stmt K init, k_expr K cond] (push_block c)"
  let ?c2 = "seq [emit OpJumpFalse 0 0 (pos_of cond), k_stmt K body] ?c1"
  let ?c3 = "emit OpJump 0 0 pos ?c2"
  let ?c4 = "opt_stmt K els (patchA (here ?c1) (here ?c3) ?c3)"
  have 1: "leads b n 0 (Suc 0) (push_block c) ?c1" by (rule leads_seqs leads_opt_stmt init expr cond | assumption | simp)+
  have 2: "leaves b n (Suc 0) 0 {(here ?c1, 0)} {} {} ?c1 ?c2"
    using leaves_then [OF leaves_jumps(2) stmt [OF body]] by (simp add: seq_simps)
  have 3: "leaves b n (Suc 0) 0 {(here ?c1, 0), (here ?c2, 0)} {} {} ?c1 ?c3"
    using leaves_trans [OF 2 leaves_jumps(1)] by (simp add: insert_commute)
  have "leaves b n (Suc 0) 0 ({(here ?c1, 0), (here ?c2, 0)} - {(here ?c1, 0)}) {(here ?c1, 0)} {} ?c1 (patchA (here ?c1) (here ?c3) ?c3)"
    by (rule leaves_patch [OF 3]) simp
  from leaves_then [OF this leads_opt_stmt [of els]] els
  have "leaves b n (Suc 0) 0 ({(here ?c1, 0), (here ?c2, 0)} - {(here ?c1, 0)}) {(here ?c1, 0)} {} ?c1 ?c4" by blast
  then have "leads b n (Suc 0) 0 ?c1 (patchA (here ?c2) (here ?c4) ?c4)" by (rule leaves_patch_last) auto
  from leads_block [OF leads_trans [OF 1 this]]
  show ?thesis by (simp add: ifStmt_def Let_def seq_simps)
qed

lemma leads_forStmt:
  assumes init: "\<And>x. init = Some x \<Longrightarrow> well_formed x \<and> allowed b x" and cond: "\<And>x. cond = Some x \<Longrightarrow> well_formed x"
    and post: "\<And>x. post = Some x \<Longrightarrow> well_formed x \<and> allowed b x"
    and body: "list_all well_formed (block_list body)" "list_all (allowed b) (block_list body)"
  shows "leads b n 0 0 c (forStmt K pos init cond post body c)"
proof -
  let ?ca = "seq [opt_stmt K init] (push_block c)"
  define cx where "cx = \<lparr>cx_isLoop = True, cx_labels = c_pendingLabels ?ca, cx_continueIP = None, cx_continues = [], cx_breaks = []\<rparr>"
  define cb where "cb = ?ca\<lparr>c_pendingLabels := []\<rparr>"
  let ?c1 = "push_ctrl cx cb"
  define c2 where "c2 = (case cond of Some e \<Rightarrow> k_expr K e ?c1 | None \<Rightarrow> ?c1)"
  define c3 where "c3 = (case cond of Some e \<Rightarrow> emit OpJumpFalse 0 0 (pos_of e) c2 | None \<Rightarrow> c2)"
  define ps where "ps = fst (shadow_names (loopInitNames init) (push_block c3))"
  define c4 where "c4 = snd (shadow_names (loopInitNames init) (push_block c3))"
  define c5 where "c5 = pop_block (stmts K (block_list body) c4)"
  define c6 where "c6 = set_continueIP (here c5) c5"
  define c7 where "c7 = seq [copy_back (case init of Some s \<Rightarrow> pos_of s | None \<Rightarrow> 0) ps, opt_stmt K post] c6"
  define js where "js = (case cond of Some e \<Rightarrow> [here c2] | None \<Rightarrow> [])"
  define c9 where "c9 = emit OpJump (int (here ?c1)) 0 pos (patch_all (cx_continues (top_ctrl c7)) (here c5) c7)"
  have eq: "forStmt K pos init cond post body c = pop_block (close_ctrl (patch_all js (here c9) c9))"
    unfolding forStmt_def Let_def case_prod_beta js_def c9_def c7_def c6_def c5_def c4_def ps_def c3_def c2_def cb_def cx_def
    by (simp add: seq_simps open_ctrl_def split: option.split)
  have a: "leads b n 0 0 (push_block c) cb"
    unfolding cb_def by (rule leads_trans [OF leads_seq_simple [OF leads_opt_stmt] leads_core]) (use init in simp_all)
  have c3: "leaves b n 0 0 (set js \<times> {0}) {} {here ?c1} ?c1 c3"
  proof -
    have z: "leaves b n 0 0 {} {} {here ?c1} ?c1 ?c1" by (rule leaves_mark [OF leaves_refl])
    show ?thesis
    proof (cases cond)
      case None
      then show ?thesis using z by (simp add: c3_def c2_def js_def)
    next
      case (Some e)
      have "leaves b n 0 (Suc 0) {} {} {here ?c1} ?c1 c2"
        using leaves_then [OF z expr [OF cond [OF Some]]] by (simp add: c2_def Some)
      from leaves_trans [OF this leaves_jumps(2)] show ?thesis by (simp add: c3_def js_def Some)
    qed
  qed
  have c5: "leads b n 0 0 c3 c5"
    unfolding c5_def c4_def by (rule leads_block, rule leads_trans [OF leads_shadow_names leads_stmts' [OF body]])
  have c6: "leaves b n 0 0 (set js \<times> {0}) {} {here ?c1, here c5} ?c1 c6"
    unfolding c6_def by (rule leaves_set_continue) (use leaves_mark [OF leaves_then [OF c3 c5]] in \<open>simp_all add: insert_commute cx_def\<close>)
  have c7: "leaves b n 0 0 (set js \<times> {0}) {} {here ?c1, here c5} ?c1 c7"
  proof (rule leaves_given)
    fix L ht
    assume t: "typed L ?c1 ht" "last ht = 0" "n \<le> next_slot ?c1"
    obtain ht3 where 3: "typed (set js \<times> {0} \<union> L) c3 ht3" "last ht3 = 0" by (rule leavesE [OF c3 t])
    have 4: "\<forall>p\<in>set ps. fst p < next_slot c4 \<and> snd p < next_slot c4"
      unfolding ps_def c4_def by (rule shadow_names_slots [OF typed_push [OF 3(1)] 3(2)])
    obtain ht4 where "typed (set js \<times> {0} \<union> L) c4 ht4" "last ht4 = 0"
      unfolding c4_def by (rule leadsE [OF leads_shadow_names [of InExpr 0] typed_push [OF 3(1)] 3(2)]) auto
    then obtain ht5 where "grown b c4 ht4 (stmts K (block_list body) c4) ht5" "c_fs c4 \<noteq> []"
      using leadsE [OF leads_stmts' [OF body, of 0 c4]] typed_fs by (metis le0)
    then have "next_slot c4 \<le> next_slot c6" unfolding c6_def c5_def by (simp add: grown_slot)
    then have "leads b (next_slot c6) 0 0 c6 (copy_back k ps c6)" for k using 4 by (intro leads_copy_back) fastforce
    then have copy: "leads b n 0 0 c6 (copy_back k ps c6)" for k by (rule leads_slots)
    show "leaves b n 0 0 (set js \<times> {0}) {} {here ?c1, here c5} ?c1 c7"
      unfolding c7_def seq_simps by (rule leaves_then [OF leaves_then [OF c6 copy] leads_opt_stmt]) (use post in simp)
  qed
  have "leads b n 0 0 cb (close_ctrl (patch_all js (here c9) c9))"
    by (rule leads_loop [OF c7 _ _ _ _ c9_def]) (simp_all add: unused_def cx_def)
  from leads_block [OF leads_trans [OF a this]] show ?thesis unfolding eq .
qed

lemma leads_bindRangeVar: "well_formed e \<Longrightarrow> leads b n (Suc h) h c (bindRangeVar hk K e def c)"
  using leads_storeTarget [of e b n h c def] by (cases e) (simp_all add: bindRangeVar_def leads_emit')

lemma leads_bind_range:
  assumes "well_formed e"
  shows "leads b n (Suc h) h c (bind_range hk K (Some e) te c)"
  unfolding bind_range_def option.case by (rule leads_seqs leads_bindRangeVar leads_noteBindVar assms | simp)+

lemma leaves_range_next:
  assumes "slot < n" and "k < 4" and "d = 0 \<or> d = 4"
  shows "leaves b n 0 k {(here c, 0)} {} {} c (emit3 OpRangeNext 0 (int slot) (int k + d) pos c)"
proof -
  have "nat (int k + d) mod 4 = k" using assms(2,3) by (auto simp: nat_add_distrib)
  then show ?thesis
    unfolding emit3_add using assms(1)
    by (intro leaves_branch) (simp_all add: falls_to_def branches_to_def takes_def operands_ok_def)
qed

lemma leads_range_targets:
  assumes key: "\<And>e. key = Some e \<Longrightarrow> well_formed e" and v: "\<And>e. v = Some e \<Longrightarrow> well_formed e"
    and k: "k = length (opt key) + length (opt v)"
  shows "leads b n k 0 c (seq [case key of Some e \<Rightarrow> k_ref K True e | None \<Rightarrow> skip, case v of Some e \<Rightarrow> k_ref K True e | None \<Rightarrow> skip,
      emit3 OpSetRefs (int k) 1 0 pos] c)"
    and "leads b n k 0 c (seq [bind_range hk K v vt, bind_range hk K key kt] c)"
proof -
  have store: "leads b n h (length (opt x) + h) c ((case x of Some e \<Rightarrow> k_ref K True e | None \<Rightarrow> skip) c)"
    if "\<And>e. x = Some e \<Longrightarrow> well_formed e" for x h c
    by (cases x) (simp_all add: leads_skip storage that)
  show "leads b n k 0 c (seq [case key of Some e \<Rightarrow> k_ref K True e | None \<Rightarrow> skip, case v of Some e \<Rightarrow> k_ref K True e | None \<Rightarrow> skip,
      emit3 OpSetRefs (int k) 1 0 pos] c)"
  proof (rule leads_seq_Cons [OF store], erule key, rule leads_seq_Cons [OF store], erule v, rule leads_seq_simple)
    fix c
    have "op_ok n (length (opt v) + (length (opt key) + k)) OpSetRefs (int k) 1"
      "next_op (length (opt v) + (length (opt key) + k)) OpSetRefs (int k) 1 = 0"
      by (simp_all only: op_needs op_leaves) (simp_all add: k)
    then show "leads b n (length (opt v) + (length (opt key) + k)) 0 c (emit3 OpSetRefs (int k) 1 0 pos c)"
      using leads_emit3 [of n _ OpSetRefs "int k" 1 b c 0 pos] by metis
  qed
  have bind: "leads b n (length (opt x) + h) h c (bind_range hk K x t c)" if "\<And>e. x = Some e \<Longrightarrow> well_formed e" for x h t c
  proof (cases x)
    case None
    then show ?thesis by (simp add: bind_range_def leads_skip)
  next
    case (Some e)
    then show ?thesis using leads_bind_range that by simp
  qed
  have "leads b n (length (opt v) + length (opt key)) 0 c (seq [bind_range hk K v vt, bind_range hk K key kt] c)"
    using bind [of key 0] key by (intro leads_seq_Cons [OF bind] leads_seq_simple) (simp_all add: v)
  then show "leads b n k 0 c (seq [bind_range hk K v vt, bind_range hk K key kt] c)" by (simp add: k add.commute)
qed

lemma leads_rangeStmt:
  assumes key: "\<And>e. key = Some e \<Longrightarrow> well_formed e" and v: "\<And>e. v = Some e \<Longrightarrow> well_formed e" and x: "well_formed x"
    and body: "well_formed body" "allowed b body"
  shows "leads b n 0 0 c (rangeStmt hk K pos key v tok x body c)"
proof (rule leads_bounded)
  assume bd: "bounded c"
  define star where "star = lazy_star hk x v (push_block c)"
  define rx where "rx = (case star of Some y \<Rightarrow> y | None \<Rightarrow> unparen x)"
  define c1 where "c1 = seq [k_expr K rx, emit OpIter 0 (if star = None then 0 else 1) (pos_of x)] (push_block c)"
  define it where "it = fst (fresh ''$it'' c1)"
  define c2 where "c2 = snd (fresh ''$it'' c1)"
  define c3 where "c3 = seq [declare_local it 0, emit OpNewLocal (int (next_slot c2)) 0 (pos_of x)] c2"
  define k where "k = length (opt key) + length (opt v)"
  define nc :: int where "nc = int k + (case v of Some e \<Rightarrow> if blank_ident e then 0 else 4 | None \<Rightarrow> 0)"
  define cb where "cb = c3\<lparr>c_pendingLabels := []\<rparr>"
  define cx where "cx = \<lparr>cx_isLoop = True, cx_labels = c_pendingLabels c3, cx_continueIP = Some (here cb), cx_continues = [], cx_breaks = []\<rparr>"
  let ?c4 = "push_ctrl cx cb"
  define c5 where "c5 = emit3 OpRangeNext 0 (int (next_slot c2)) nc pos ?c4"
  define c6 where "c6 = (if tok \<noteq> DEFINE
            then seq [case key of Some e \<Rightarrow> k_ref K True e | None \<Rightarrow> skip, case v of Some e \<Rightarrow> k_ref K True e | None \<Rightarrow> skip,
              emit3 OpSetRefs (int k) 1 0 pos] c5
            else seq [bind_range hk K v (snd (q_rangeVarTyps hk x c5)), bind_range hk K key (fst (q_rangeVarTyps hk x c5))] c5)"
  define c7 where "c7 = emit OpJump (int (here ?c4)) 0 pos (k_stmt K body c6)"
  have nvars: "(if key = None then 0 else 1) + (if v = None then 0 else 1) = int k" unfolding k_def by (cases key; cases v) simp_all
  have top: "here (open_ctrl True c3) = here ?c4" by (simp add: open_ctrl_def cb_def here_def)
  have opened: "set_continueIP (here ?c4) (emit3 OpRangeNext 0 (int (next_slot c2)) nc pos (open_ctrl True c3)) = c5"
    by (simp add: c5_def cx_def cb_def open_ctrl_def set_continueIP_def emit3_def push_ctrl_def here_def)
  have eq: "rangeStmt hk K pos key v tok x body c = pop_block (close_ctrl (patchA (here ?c4) (here c7) c7))"
    unfolding rangeStmt_def Let_def case_prod_beta star_def [symmetric] rx_def [symmetric] c1_def [symmetric] it_def [symmetric]
      c2_def [symmetric] c3_def [symmetric] nvars nc_def [symmetric] top opened c6_def [symmetric]
    by (simp add: c7_def seq_simps)
  have wf: "well_formed rx"
  proof (cases star)
    case (Some y)
    then obtain m where "unparen x = StarExpr m y"
      unfolding star_def lazy_star_def by (cases "unparen x") (auto split: if_splits)
    then show ?thesis using Some well_formed_unparen [OF x] well_formed_child [of "unparen x" y] by (simp add: rx_def)
  qed (use well_formed_unparen [OF x] in \<open>simp add: rx_def\<close>)
  have c1: "leads b n 0 (Suc 0) (push_block c) c1" unfolding c1_def by (rule leads_seqs expr wf leads_emit | simp)+
  have c2: "leads b n (Suc 0) (Suc 0) c1 c2" unfolding c2_def by (rule leads_fresh)
  have c3: "leads b n (Suc 0) 0 c2 c3" unfolding c3_def seq_simps by (rule leads_new_local)
  have cb: "leads b n 0 0 c3 cb" unfolding cb_def by (rule leads_core) simp
  have loop: "leads b (Suc (next_slot c2)) 0 0 cb (close_ctrl (patchA (here ?c4) (here c7) c7))"
  proof (rule leads_ctrl)
    have z: "leaves b (Suc (next_slot c2)) 0 0 {} {} {here ?c4} ?c4 ?c4" by (rule leaves_mark [OF leaves_refl])
    have "k < 4" unfolding k_def by (cases key; cases v) simp_all
    then have "leaves b (Suc (next_slot c2)) 0 k {(here ?c4, 0)} {} {} ?c4 c5"
      unfolding c5_def nc_def by (intro leaves_range_next) (simp_all split: option.split)
    with leaves_trans [OF z] have "leaves b (Suc (next_slot c2)) 0 k {(here ?c4, 0)} {} {here ?c4} ?c4 c5" by fastforce
    moreover have "leads b (Suc (next_slot c2)) k 0 c5 c6"
      unfolding c6_def by (intro leads_if leads_range_targets key v k_def)
    ultimately have "leaves b (Suc (next_slot c2)) 0 0 {(here ?c4, 0)} {} {here ?c4} ?c4 (k_stmt K body c6)"
      by (rule leaves_then [OF leaves_then stmt [OF body]])
    then have "leaves b (Suc (next_slot c2)) 0 0 {(here ?c4, 0)} {} {here ?c4} ?c4 c7"
      unfolding c7_def by (rule leaves_back) simp
    then show "leads b (Suc (next_slot c2)) 0 0 ?c4 (patchA (here ?c4) (here c7) c7)" by (rule leaves_patch_last) simp_all
  qed (simp_all add: unused_def cx_def)
  have before: "leads b n 0 0 (push_block c) cb" by (rule leads_trans [OF leads_trans [OF leads_trans [OF c1 c2] c3] cb])
  have "leads b n 0 0 (push_block c) (close_ctrl (patchA (here ?c4) (here c7) c7))"
  proof (rule leads_assume)
    fix L ht
    assume t: "typed L (push_block c) ht" "last ht = 0" "n \<le> next_slot (push_block c)"
    obtain ht2 where "typed L c2 ht2" by (rule leadsE [OF leads_trans [OF c1 c2] t])
    then have "c_fs c2 \<noteq> []" by (rule typed_fs)
    then have "next_slot c3 = Suc (next_slot c2)" by (simp add: c3_def seq_simps emit_add)
    moreover have "next_slot cb = next_slot c3" by (simp add: cb_def next_slot_def cur_scope_def)
    ultimately have "next_slot cb = Suc (next_slot c2)" by simp
    then have "leads b n 0 0 cb (close_ctrl (patchA (here ?c4) (here c7) c7))" using loop by (metis leads_slots)
    then show "leads b n 0 0 (push_block c) (close_ctrl (patchA (here ?c4) (here c7) c7))" by (rule leads_trans [OF before])
  qed
  from leads_block [OF this] show "leads b n 0 0 c (rangeStmt hk K pos key v tok x body c)" unfolding eq .
qed

end

end
