(* ===== verification/SwitchTyped.thy ===== *)
theory SwitchTyped
  imports ControlTyped
begin

text \<open>Switches and type switches are compiled to typed code.\<close>

section \<open>Clauses\<close>

text \<open>The state in which the body of a clause is compiled, and the one after it.\<close>

lemma typed_enter_clause:
  assumes "typed L c ht"
  shows "typed L (c\<lparr>c_falls := [] # c_falls c, c_inClause := True\<rparr>) ht"
proof -
  have "recorded (c\<lparr>c_falls := [] # c_falls c, c_inClause := True\<rparr>) = recorded c" by (simp add: recorded_def)
  then show ?thesis using assms by (simp add: typed_def flows_def bounded_def holes_def here_def next_slot_def cur_scope_def)
qed

lemma typed_leave_clause:
  assumes "typed L c ht" and "c_falls c = f # fs"
  shows "typed (set f \<times> {0} \<union> L) (c\<lparr>c_falls := fs, c_inClause := False\<rparr>) ht"
proof -
  have "recorded c = set f \<union> recorded (c\<lparr>c_falls := fs, c_inClause := False\<rparr>)" using assms(2) by (auto simp: recorded_def)
  then have "holes (set f \<times> {0} \<union> L) (c\<lparr>c_falls := fs, c_inClause := False\<rparr>) = holes L c" by (auto simp: holes_def)
  then show ?thesis using assms(1) by (simp add: typed_def flows_def bounded_def here_def next_slot_def cur_scope_def)
qed

context typed_comp
begin

lemma clause_body_grows:
  assumes t: "typed L c ht" "last ht = 0" "n \<le> next_slot c" and body: "list_all well_formed body"
  obtains f c1 ht1 where "stmts K body (c\<lparr>c_falls := [] # c_falls c, c_inClause := True\<rparr>) = c1" and "c_falls c1 = f # c_falls c"
    and "\<forall>i\<in>set f. here c \<le> i" and "typed L c1 ht1" and "last ht1 = 0"
    and "grown InClause (c\<lparr>c_falls := [] # c_falls c, c_inClause := True\<rparr>) ht c1 ht1"
    and "list_all falls_free body \<Longrightarrow> f = []"
proof -
  let ?c = "c\<lparr>c_falls := [] # c_falls c, c_inClause := True\<rparr>"
  have n: "n \<le> next_slot ?c" using t(3) by (simp add: next_slot_def cur_scope_def)
  have all: "list_all (allowed InClause) body" by (simp add: list_all_iff allowed_def)
  obtain ht1 where 1: "grown InClause ?c ht (stmts K body ?c) ht1" "typed L (stmts K body ?c) ht1" "last ht1 = 0"
    by (rule leadsE [OF leads_stmts' [OF body all] typed_enter_clause [OF t(1)] t(2) n])
  then obtain f where f: "c_falls (stmts K body ?c) = f # c_falls c" "\<forall>i\<in>set f. here c \<le> i"
    by (auto simp: grown_def falls_grow_def more_from_def here_def)
  have "f = []" if "list_all falls_free body"
  proof -
    have all: "list_all (allowed InStmt) body" using that by (simp add: list_all_iff allowed_def)
    obtain ht2 where "grown InStmt ?c ht (stmts K body ?c) ht2"
      by (rule leadsE [OF leads_stmts' [OF body all] typed_enter_clause [OF t(1)] t(2) n])
    then show ?thesis using f(1) by (simp add: grown_def)
  qed
  then show ?thesis using that [OF refl f 1(2,3,1)] by blast
qed

lemma leaves_clause_body:
  assumes l: "leads b n h 0 (push_block c) c'" and body: "list_all well_formed body" and b: "b \<noteq> InExpr"
  shows "leaves b n h 0 (set (fst (clause_body K body c')) \<times> {0}) {} {} c (snd (clause_body K body c'))"
proof (rule leavesI)
  fix L ht
  assume t: "typed L c ht" "last ht = h" "n \<le> next_slot c"
  obtain ht' where 1: "grown b (push_block c) ht c' ht'" "typed L c' ht'" "last ht' = 0"
    by (rule leadsE [OF l typed_push [OF t(1)] t(2)]) (use t(3) in simp)
  have n: "n \<le> next_slot c'" using grown_slot [OF 1(1) typed_fs [OF typed_push [OF t(1)]]] t(3) by simp
  obtain f c1 ht1 where 2: "stmts K body (c'\<lparr>c_falls := [] # c_falls c', c_inClause := True\<rparr>) = c1" "c_falls c1 = f # c_falls c'"
    "\<forall>i\<in>set f. here c' \<le> i" "typed L c1 ht1" "last ht1 = 0"
    "grown InClause (c'\<lparr>c_falls := [] # c_falls c', c_inClause := True\<rparr>) ht' c1 ht1"
    by (rule clause_body_grows [OF 1(2,3) n body])
  let ?c2 = "c1\<lparr>c_falls := c_falls c', c_inClause := False\<rparr>"
  have eq: "clause_body K body c' = (f, pop_block ?c2)" by (simp add: clause_body_def Let_def 2(1,2))
  have "grown b c' ht' ?c2 ht1" using 2(6) b by (cases b) (simp_all add: grown_def here_def)
  then have g: "grown b (push_block c) ht ?c2 ht1" by (rule grown_trans [OF 1(1)])
  have "typed (set f \<times> {0} \<union> L) (pop_block ?c2) ht1"
    by (rule typed_pop [OF typed_leave_clause [OF 2(4,2)] g t(1)])
  moreover have "grown b c ht (pop_block ?c2) ht1" by (rule grown_pop [OF g typed_fs [OF t(1)]])
  moreover have "here c \<le> here c'" using grown_here [OF 1(1)] by simp
  ultimately show "\<exists>ht'. grown b c ht (snd (clause_body K body c')) ht' \<and>
      typed (set (fst (clause_body K body c')) \<times> {0} \<union> L) (snd (clause_body K body c')) ht' \<and> last ht' = 0 \<and>
      (\<forall>(i, t)\<in>set (fst (clause_body K body c')) \<times> {0} \<union> {}. here c \<le> i) \<and> (\<forall>p\<in>{}. at_zero ht' p) \<and>
      (\<forall>(i, t)\<in>{}. hole_ok (code (snd (clause_body K body c'))) ht' i t)"
    using 2(3,5) by (intro exI [of _ ht1]) (auto simp: eq intro: order_trans)
qed

section \<open>Switches\<close>

lemma leads_case_value: "well_formed e \<Longrightarrow> leads b n h (Suc h) c (case_value hk K e c)"
  unfolding case_value_def by (intro leads_option leads_const expr)

lemma leaves_case_tests:
  assumes "list_all well_formed es" and "\<And>slot t strict. tag = Some (slot, t, strict) \<Longrightarrow> slot < n"
  shows "leaves b n 0 0 (set (fst (case_tests hk K tag es c)) \<times> {0}) {} {} c (snd (case_tests hk K tag es c))"
  using assms(1)
proof (induction es arbitrary: c)
  case (Cons e es)
  have e: "well_formed e" and es: "list_all well_formed es" using Cons.prems by simp_all
  define gate where "gate = (case tag of None \<Rightarrow> None | Some (slot, t, strict) \<Rightarrow> opCaseGate hk e t (pos_of e) c)"
  show ?case
  proof (cases gate)
    case (Some c')
    then have "leads b n 0 0 c c'" unfolding gate_def by (auto split: option.splits intro: leads_gates)
    from leads_then [OF this Cons.IH [OF es]] show ?thesis
      unfolding case_tests.simps gate_def [symmetric] Some by simp
  next
    case None
    define c1 where "c1 = (case tag of
                None \<Rightarrow> k_expr K e c
              | Some (slot, t, strict) \<Rightarrow>
                  seq [emit OpLocal (int slot) 0 (pos_of e), case_value hk K e,
                    emit OpBinary (binop_number (if strict then BinEqlIface else BinEql)) 0 (pos_of e)] c)"
    have "leads b n 0 (Suc 0) c c1"
    proof (cases tag)
      case None
      then show ?thesis using expr [OF e] by (simp add: c1_def)
    next
      case (Some q)
      obtain slot t strict where q: "q = (slot, t, strict)" by (metis prod_cases3)
      have "leads b n 0 (Suc 0) c (seq [emit OpLocal (int slot) 0 (pos_of e), case_value hk K e, emit OpBinary k 0 (pos_of e)] c)" for k
        by (rule leads_seqs leads_emit leads_case_value e | simp add: assms(2) [OF Some [unfolded q]])+
      then show ?thesis using Some q by (simp add: c1_def)
    qed
    then have "leaves b n 0 0 {(here c1, 0)} {} {} c (emit OpJumpTrue 0 0 (pos_of e) c1)"
      by (rule leads_then [OF _ leaves_jumps(3)])
    from leaves_trans [OF this Cons.IH [OF es]] show ?thesis
      unfolding case_tests.simps gate_def [symmetric] None Let_def c1_def [symmetric] by (simp add: case_prod_beta insert_Times_insert)
  qed
qed (simp add: leaves_refl)

text \<open>What the loop over the clauses carries is open, known or may be patched again.\<close>

definition sw_ok :: "reach \<Rightarrow> nat \<Rightarrow> 't cstate \<Rightarrow> sw_state \<Rightarrow> 't cstate \<Rightarrow> bool" where
  "sw_ok b n c st c' \<longleftrightarrow>
     (\<exists>R Z. leaves b n 0 0 (set (sw_outs st) \<times> {0} \<union> set (sw_falls st) \<times> {0}) R Z c c' \<and>
        (\<forall>d. sw_default st = Some d \<longrightarrow> d \<in> Z) \<and> (\<forall>j. sw_next st = Some j \<longrightarrow> (j, 0) \<in> R))"

lemma switch_clause_ok:
  assumes sw: "sw_ok b n c0 st c" and s: "list_all well_formed (case_exprs s)" "list_all well_formed (case_body s)" and b: "b \<noteq> InExpr"
    and tag: "\<And>slot t strict. tag = Some (slot, t, strict) \<Longrightarrow> slot < n"
    and res: "switch_clause hk K tag isLast s st c = (st', c')"
  shows "sw_ok b n c0 st' c'"
proof -
  obtain R Z where RZ: "leaves b n 0 0 (set (sw_outs st) \<times> {0} \<union> set (sw_falls st) \<times> {0}) R Z c0 c"
    "\<And>d. sw_default st = Some d \<Longrightarrow> d \<in> Z" "\<And>j. sw_next st = Some j \<Longrightarrow> (j, 0) \<in> R"
    using sw by (auto simp: sw_ok_def)
  define isDef where "isDef = (case_exprs s = [])"
  define js where "js = fst (case_tests hk K tag (case_exprs s) c)"
  define c1 where "c1 = snd (case_tests hk K tag (case_exprs s) c)"
  define jNext where "jNext = (if isDef \<and> isLast then None else Some (here c1))"
  define c2 where "c2 = (if isDef \<and> isLast then c1 else emit OpJump 0 0 (pos_of s) c1)"
  define c3 where "c3 = patch_all (sw_falls st) (here c2) (patch_all js (here c2) c2)"
  define falls where "falls = fst (clause_body K (case_body s) (push_block c3))"
  define c4 where "c4 = snd (clause_body K (case_body s) (push_block c3))"
  define c5 where "c5 = emit OpJump 0 0 (pos_of s) c4"
  let ?F = "set (sw_falls st) \<times> {0 :: nat}" and ?O = "set (sw_outs st) \<times> {0 :: nat}" and ?N = "(\<lambda>j. (j, 0 :: nat)) ` set_option jNext"
  have st': "st' = \<lparr>sw_outs = sw_outs st @ [here c4], sw_falls = falls, sw_default = (if isDef then Some (here c2) else sw_default st),
      sw_next = (case jNext of Some j \<Rightarrow> Some j | None \<Rightarrow> sw_next st)\<rparr>"
    and c': "c' = (case jNext of Some j \<Rightarrow> patchA j (here c5) c5 | None \<Rightarrow> c5)"
    using res unfolding switch_clause_def Let_def case_prod_beta isDef_def [symmetric] js_def [symmetric] c1_def [symmetric]
      jNext_def [symmetric] c2_def [symmetric] c3_def [symmetric] falls_def [symmetric] c4_def [symmetric] c5_def [symmetric]
    by simp_all
  have "leaves b n 0 0 ((?O \<union> ?F) \<union> set js \<times> {0}) R Z c0 c1"
    using leaves_trans [OF RZ(1) leaves_case_tests [OF s(1) tag]] unfolding js_def c1_def by simp
  then have "leaves b n 0 0 (((?O \<union> ?F) \<union> set js \<times> {0}) \<union> ?N) R Z c0 c2"
    using leaves_trans [OF _ leaves_jumps(1)] by (fastforce simp: c2_def jNext_def)
  then have "leaves b n 0 0 (set js \<times> {0} \<union> (set (sw_falls st) \<times> {0} \<union> (?O \<union> ?N))) R Z c0 c2" by (simp add: Un_ac)
  then have "leaves b n 0 0 (set (sw_falls st) \<times> {0} \<union> (?O \<union> ?N)) R Z c0 (patch_all js (here c2) c2)" by (rule leaves_patch_all)
  from leaves_patch_all [OF this] have "leaves b n 0 0 (?O \<union> ?N) R Z c0 c3" by (simp add: c3_def)
  then have "leaves b n 0 0 (?O \<union> ?N) R (insert (here c2) Z) c0 c3" using leaves_mark by (fastforce simp: c3_def)
  from leaves_trans [OF this leaves_clause_body [OF leads_refl s(2) b]]
  have "leaves b n 0 0 ((?O \<union> ?N) \<union> set falls \<times> {0}) R (insert (here c2) Z) c0 c4" by (simp add: falls_def c4_def)
  from leaves_trans [OF this leaves_jumps(1)]
  have 5: "leaves b n 0 0 (((?O \<union> ?N) \<union> set falls \<times> {0}) \<union> {(here c4, 0)}) R (insert (here c2) Z) c0 c5" by (simp add: c5_def)
  let ?H = "set (sw_outs st') \<times> {0} \<union> set (sw_falls st') \<times> {0}"
  have H: "?H = ?O \<union> set falls \<times> {0} \<union> {(here c4, 0)}" by (auto simp: st')
  show ?thesis
  proof (cases jNext)
    case None
    then have "((?O \<union> ?N) \<union> set falls \<times> {0}) \<union> {(here c4, 0)} = ?H" unfolding H by simp
    with 5 have "leaves b n 0 0 ?H R (insert (here c2) Z) c0 c'" using None by (simp only: c' option.case)
    then show ?thesis unfolding sw_ok_def using RZ(2,3) None by (intro exI [of _ R] exI [of _ "insert (here c2) Z"]) (auto simp: st')
  next
    case (Some j)
    then have j: "(j, 0) \<in> ((?O \<union> ?N) \<union> set falls \<times> {0}) \<union> {(here c4, 0)} \<union> R" by simp
    have "leaves b n 0 0 (((?O \<union> ?N) \<union> set falls \<times> {0}) \<union> {(here c4, 0)} - {(j, 0)}) (insert (j, 0) R) (insert (here c2) Z) c0 c'"
      using leaves_patch [OF 5 j] by (simp add: c' Some)
    then have "leaves b n 0 0 ?H (insert (j, 0) R) (insert (here c2) Z) c0 c'"
      by (rule leaves_rehole) (auto simp: H Some)
    then show ?thesis unfolding sw_ok_def using RZ(2,3) Some
      by (intro exI [of _ "insert (j, 0) R"] exI [of _ "insert (here c2) Z"]) (auto simp: st')
  qed
qed

lemma switch_clauses_ok:
  assumes "sw_ok b n c0 st c" and "\<forall>s\<in>set ss. list_all well_formed (case_exprs s) \<and> list_all well_formed (case_body s)" and "b \<noteq> InExpr"
    and "\<And>slot t strict. tag = Some (slot, t, strict) \<Longrightarrow> slot < n"
  shows "sw_ok b n c0 (fst (switch_clauses hk K tag ss st c)) (snd (switch_clauses hk K tag ss st c))"
  using assms(1,2)
proof (induction ss arbitrary: st c)
  case (Cons s ss)
  obtain st' c' where r: "switch_clause hk K tag (ss = []) s st c = (st', c')" by fastforce
  have "sw_ok b n c0 st' c'" by (rule switch_clause_ok [OF Cons.prems(1) _ _ assms(3,4) r]) (use Cons.prems(2) in simp_all)
  then show ?case using Cons.IH Cons.prems(2) by (simp add: r)
qed simp

lemma leaves_dangling:
  assumes "leaves b n 0 0 (set falls \<times> {0} \<union> H) R Z c0 c"
  shows "leaves b n 0 0 H R Z c0 (dangling_falls pos falls c)"
proof (cases "falls = []")
  case False
  have "leaves b n 0 0 (set falls \<times> {0} \<union> H) R (insert (here c) Z) c0 (trap pos ''fallthrough out of the final case clause'' c)"
    by (rule leaves_then [OF leaves_mark [OF assms] leads_trap])
  then have "leaves b n 0 0 H R (insert (here c) Z) c0 (dangling_falls pos falls c)"
    unfolding dangling_falls_def if_not_P [OF False] by (rule leaves_patch_all_back) simp
  then show ?thesis by (rule leaves_mono) auto
qed (use assms in \<open>simp add: dangling_falls_def\<close>)

text \<open>The end of a switch: the jump past all tests goes to the default clause.\<close>

lemma leads_switch_end:
  assumes "sw_ok b n c0 st c"
    and "c5 = (case (sw_default st, sw_next st) of (Some d, Some j) \<Rightarrow> patchA j d c | _ \<Rightarrow> c)"
  shows "leads b n 0 0 c0 (patch_all (sw_outs st) (here (dangling_falls pos (sw_falls st) c5)) (dangling_falls pos (sw_falls st) c5))"
proof -
  let ?H = "set (sw_outs st) \<times> {0 :: nat} \<union> set (sw_falls st) \<times> {0}"
  obtain R Z where RZ: "leaves b n 0 0 ?H R Z c0 c"
    "\<And>d. sw_default st = Some d \<Longrightarrow> d \<in> Z" "\<And>j. sw_next st = Some j \<Longrightarrow> (j, 0) \<in> R"
    using assms(1) by (auto simp: sw_ok_def)
  have "\<exists>R'. leaves b n 0 0 ?H R' Z c0 c5"
  proof (cases "\<exists>d j. sw_default st = Some d \<and> sw_next st = Some j")
    case True
    then obtain d j where dj: "sw_default st = Some d" "sw_next st = Some j" by blast
    then have "leaves b n 0 0 (?H - {(j, 0)}) (insert (j, 0) R) Z c0 c5"
      using leaves_patch_back [OF RZ(1), of j d] RZ(2,3) assms(2) by simp
    then have "leaves b n 0 0 ?H (insert (j, 0) R) Z c0 c5" by (rule leaves_rehole) auto
    then show ?thesis by blast
  next
    case False
    then have "c5 = c" using assms(2) by (auto split: option.splits)
    then show ?thesis using RZ(1) by blast
  qed
  then obtain R' where "leaves b n 0 0 ?H R' Z c0 c5" by blast
  then have "leaves b n 0 0 (set (sw_falls st) \<times> {0} \<union> (set (sw_outs st) \<times> {0} \<union> {})) R' Z c0 c5" by (simp add: Un_commute)
  from leaves_patch_all [OF leaves_dangling [OF this]] show ?thesis by (rule leavesD)
qed

lemma leads_switchStmt:
  assumes init: "\<And>x. init = Some x \<Longrightarrow> well_formed x \<and> allowed b x" and tag: "\<And>e. tag = Some e \<Longrightarrow> well_formed e"
    and body: "\<forall>s\<in>set (block_list body). list_all well_formed (case_exprs s) \<and> list_all well_formed (case_body s)" and b: "b \<noteq> InExpr"
  shows "leads b n 0 0 c (switchStmt hk K pos init tag body c)"
proof -
  define c1 where "c1 = seq [opt_stmt K init] (push_block c)"
  define tc where "tc = (case tag of
              None \<Rightarrow> (None, c1)
            | Some e \<Rightarrow>
                let (x, c2) = fresh ''$tag'' (k_expr K e c1); slot = next_slot c2;
                    c3 = seq [declare_local x 0, emit OpNewLocal (int slot) 0 (pos_of e)] c2
                in (Some (slot, e, isIfaceExpr hk c3 e), c3))"
  define c3 where "c3 = open_ctrl False (snd tc)"
  define st0 where "st0 = \<lparr>sw_outs = [], sw_falls = [], sw_default = None, sw_next = None\<rparr>"
  define st where "st = fst (switch_clauses hk K (fst tc) (block_list body) st0 c3)"
  define c4 where "c4 = snd (switch_clauses hk K (fst tc) (block_list body) st0 c3)"
  define c5 where "c5 = (case (sw_default st, sw_next st) of (Some d, Some j) \<Rightarrow> patchA j d c4 | _ \<Rightarrow> c4)"
  define c6 where "c6 = dangling_falls pos (sw_falls st) c5"
  have eq: "switchStmt hk K pos init tag body c = pop_block (close_ctrl (patch_all (sw_outs st) (here c6) c6))"
    unfolding switchStmt_def c6_def c5_def c4_def st_def c3_def st0_def tc_def c1_def Let_def case_prod_beta
    by (simp only: seq_simps)
  have 1: "leads b n 0 0 (push_block c) c1" unfolding c1_def by (rule leads_seq_simple [OF leads_opt_stmt]) (use init in simp)
  have rest: "leads b m 0 0 (snd tc) (close_ctrl (patch_all (sw_outs st) (here c6) c6))"
    if "\<And>slot t strict. fst tc = Some (slot, t, strict) \<Longrightarrow> slot < m" for m
  proof (rule leads_open_ctrl)
    have "sw_ok b m c3 st0 c3" unfolding sw_ok_def st0_def by (intro exI [of _ "{}"]) (simp add: leaves_refl)
    then have "sw_ok b m c3 st c4" unfolding st_def c4_def by (rule switch_clauses_ok [OF _ body b that])
    then show "leads b m 0 0 (open_ctrl False (snd tc)) (patch_all (sw_outs st) (here c6) c6)"
      unfolding c6_def c3_def [symmetric] by (rule leads_switch_end) (rule c5_def)
  qed
  have "leads b n 0 0 c1 (close_ctrl (patch_all (sw_outs st) (here c6) c6))"
  proof (cases tag)
    case None
    then have "fst tc = None" "snd tc = c1" by (simp_all add: tc_def)
    then show ?thesis using rest [of n] by simp
  next
    case (Some e)
    define c2 where "c2 = snd (fresh ''$tag'' (k_expr K e c1))"
    define x where "x = fst (fresh ''$tag'' (k_expr K e c1))"
    have slot: "fst tc = Some (s, t, strict) \<Longrightarrow> s = next_slot c2" for s t strict
      by (auto simp: tc_def Some Let_def case_prod_beta c2_def)
    have end_tc: "snd tc = emit OpNewLocal (int (next_slot c2)) 0 (pos_of e) (declare_local x 0 c2)"
      by (simp add: tc_def Some Let_def case_prod_beta c2_def x_def seq_simps)
    have c2: "leads b n 0 (Suc 0) c1 c2" unfolding c2_def by (rule leads_trans [OF expr [OF tag [OF Some]] leads_fresh])
    have c3: "leads b n (Suc 0) 0 c2 (snd tc)" unfolding end_tc by (rule leads_new_local)
    show ?thesis
    proof (rule leads_assume)
      fix L ht
      assume t: "typed L c1 ht" "last ht = 0" "n \<le> next_slot c1"
      obtain ht2 where "typed L c2 ht2" by (rule leadsE [OF c2 t])
      then have "c_fs c2 \<noteq> []" by (rule typed_fs)
      then have "next_slot (snd tc) = Suc (next_slot c2)" by (simp add: end_tc emit_add)
      then have "leads b n 0 0 (snd tc) (close_ctrl (patch_all (sw_outs st) (here c6) c6))"
        using rest [of "next_slot (snd tc)"] slot leads_slots by fastforce
      then show "leads b n 0 0 c1 (close_ctrl (patch_all (sw_outs st) (here c6) c6))"
        by (rule leads_trans [OF leads_trans [OF c2 c3]])
    qed
  qed
  from leads_block [OF leads_trans [OF 1 this]] show ?thesis unfolding eq .
qed

section \<open>Type switches\<close>

text \<open>What follows a jump is only reached by patching, so any height may hold there.\<close>

lemma leaves_jump: "leaves b n h h' {(here c, h)} {} {} c (emit OpJump 0 0 pos c)"
  unfolding emit_add by (rule leaves_branch) (simp_all add: falls_to_def branches_to_def takes_def operands_ok_def)

lemma clause_body_no_falls:
  assumes t: "typed L c ht" "last ht = 0" and body: "list_all well_formed body" "list_all falls_free body"
  shows "fst (clause_body K body c) = []"
proof -
  obtain f c1 ht1 where 1: "stmts K body (c\<lparr>c_falls := [] # c_falls c, c_inClause := True\<rparr>) = c1" "c_falls c1 = f # c_falls c"
    "typed L c1 ht1" "list_all falls_free body \<Longrightarrow> f = []"
    by (rule clause_body_grows [OF t le0 body(1)]) blast
  then show ?thesis using body(2) by (simp add: clause_body_def Let_def)
qed

lemma leaves_type_tests:
  assumes "list_all well_formed es" and "slot < n"
  shows "leaves b n 0 0 (set (fst (type_tests K slot es c)) \<times> {1}) {} {} c (snd (type_tests K slot es c))"
  using assms(1)
proof (induction es arbitrary: c)
  case (Cons e es)
  have e: "well_formed e" and es: "list_all well_formed es" using Cons.prems by simp_all
  define c1 where "c1 = (if (case e of Ident m x \<Rightarrow> x = ''nil'' | _ \<Rightarrow> False)
      then seq [emit OpLocal (int slot) 0 (pos_of e), emit OpLocal (int slot) 0 (pos_of e), emit OpNil 0 0 (pos_of e),
        emit OpBinary (binop_number BinEql) 0 (pos_of e)] c
      else seq [emit OpLocal (int slot) 0 (pos_of e), k_type K e, emit OpAssertOK 0 0 (pos_of e), emit3 OpUnpack 2 0 0 (pos_of e)] c)"
  have "leads b n 0 2 c c1"
    unfolding c1_def by (rule leads_if; (rule leads_seqs leads_emit leads_emit3 type_op e | simp add: assms(2))+)
  then have 1: "leads b n 0 (Suc 1) c c1" by (simp add: numeral_2_eq_2)
  have "leaves b n 0 1 {(here c1, 1)} {} {} c (emit OpJumpTrue 0 0 (pos_of e) c1)" by (rule leads_then [OF 1 leaves_jumps(3)])
  then have "leaves b n 0 0 {(here c1, 1)} {} {} c (seq [emit OpJumpTrue 0 0 (pos_of e), emit OpPop 0 0 (pos_of e)] c1)"
    unfolding seq_simps by (rule leaves_then) (rule leads_emit', simp_all)
  from leaves_trans [OF this Cons.IH [OF es]] show ?case
    unfolding type_tests.simps Let_def c1_def [symmetric] by (simp add: case_prod_beta insert_Times_insert)
qed (simp add: leaves_refl)

lemma leads_bind_subject: "leads b n 1 0 c (bind_subject x pos c)"
  unfolding bind_subject_def One_nat_def by (intro leads_if leads_new_local leads_emit') simp_all

definition ts_ok :: "reach \<Rightarrow> nat \<Rightarrow> 't cstate \<Rightarrow> sw_state \<Rightarrow> 't cstate \<Rightarrow> bool" where
  "ts_ok b n c st c' \<longleftrightarrow> leaves b n 0 0 (set (sw_outs st) \<times> {0}) {} {} c c' \<and> sw_falls st = []"

lemma type_clause_ok:
  assumes t: "typed L c0 ht" "last ht = 0" "n \<le> next_slot c0" and ts: "ts_ok b n c0 st c" and slot: "slot < n" and b: "b \<noteq> InExpr"
    and s: "list_all well_formed (case_exprs s)" "list_all well_formed (case_body s)" "list_all falls_free (case_body s)"
    and res: "type_clause K slot x s st c = (st', c')"
  shows "ts_ok b n c0 st' c'"
proof -
  define js where "js = fst (type_tests K slot (case_exprs s) c)"
  define c1 where "c1 = snd (type_tests K slot (case_exprs s) c)"
  define c2 where "c2 = emit OpJump 0 0 (pos_of s) c1"
  define c3 where "c3 = patch_all js (here c2) c2"
  define cb where "cb = bind_subject x (pos_of s) (push_block c3)"
  define falls where "falls = fst (clause_body K (case_body s) cb)"
  define c4 where "c4 = snd (clause_body K (case_body s) cb)"
  define c5 where "c5 = emit OpJump 0 0 (pos_of s) c4"
  let ?O = "set (sw_outs st) \<times> {0 :: nat}"
  have no: "sw_falls st = []" and o: "leaves b n 0 0 ?O {} {} c0 c" using ts by (simp_all add: ts_ok_def)
  have st': "st' = st\<lparr>sw_outs := sw_outs st @ [here c4], sw_falls := falls\<rparr>" and c': "c' = patchA (here c1) (here c5) c5"
    using res no unfolding type_clause_def Let_def case_prod_beta js_def c1_def c2_def c3_def cb_def falls_def c4_def c5_def
    by simp_all
  have "leaves b n 0 0 (?O \<union> set js \<times> {1}) {} {} c0 c1"
    using leaves_trans [OF o leaves_type_tests [OF s(1) slot]] unfolding js_def c1_def by simp
  from leaves_trans [OF this leaves_jump]
  have "leaves b n 0 1 (set js \<times> {1} \<union> (?O \<union> {(here c1, 0)})) {} {} c0 c2" by (simp add: c2_def Un_ac)
  then have 3: "leaves b n 0 1 (?O \<union> {(here c1, 0)}) {} {} c0 c3" unfolding c3_def by (rule leaves_patch_all)
  have bind: "leads b n 1 0 (push_block c3) cb" unfolding cb_def by (rule leads_bind_subject)
  obtain ht3 where ht3: "typed (?O \<union> {(here c1, 0)} \<union> L) c3 ht3" "last ht3 = 1" "grown b c0 ht c3 ht3" by (rule leavesE [OF 3 t])
  have "n \<le> next_slot (push_block c3)" using grown_slot [OF ht3(3) typed_fs [OF t(1)]] t(3) by simp
  then obtain htb where "typed (?O \<union> {(here c1, 0)} \<union> L) cb htb" "last htb = 0"
    by (rule leadsE [OF bind typed_push [OF ht3(1)] ht3(2)])
  then have f: "falls = []" unfolding falls_def by (rule clause_body_no_falls [OF _ _ s(2,3)])
  from leaves_trans [OF 3 leaves_clause_body [OF bind s(2) b]]
  have "leaves b n 0 0 (?O \<union> {(here c1, 0)}) {} {} c0 c4" using f by (simp add: falls_def c4_def)
  from leaves_trans [OF this leaves_jumps(1)]
  have "leaves b n 0 0 (?O \<union> {(here c1, 0)} \<union> {(here c4, 0)}) {} {} c0 c5" by (simp add: c5_def)
  then have "leaves b n 0 0 (?O \<union> {(here c1, 0)} \<union> {(here c4, 0)} - {(here c1, 0)}) {(here c1, 0)} {} c0 c'"
    unfolding c' by (rule leaves_patch) simp
  then have "leaves b n 0 0 (set (sw_outs st') \<times> {0}) {(here c1, 0)} {} c0 c'"
    by (rule leaves_rehole) (auto simp: st')
  then have "leaves b n 0 0 (set (sw_outs st') \<times> {0}) {} {} c0 c'" by (rule leaves_mono) simp_all
  then show ?thesis using f by (simp add: ts_ok_def st')
qed

lemma type_clauses_ok:
  assumes t: "typed L c0 ht" "last ht = 0" "n \<le> next_slot c0" and slot: "slot < n" and b: "b \<noteq> InExpr"
    and "ts_ok b n c0 st c"
    and "\<forall>s\<in>set ss. list_all well_formed (case_exprs s) \<and> list_all well_formed (case_body s) \<and> list_all falls_free (case_body s)"
  shows "ts_ok b n c0 (fst (type_clauses K slot x ss st c)) (snd (type_clauses K slot x ss st c))"
  using assms(6,7)
proof (induction ss arbitrary: st c)
  case (Cons s ss)
  show ?case
  proof (cases "case_exprs s = []")
    case False
    obtain st' c' where r: "type_clause K slot x s st c = (st', c')" by fastforce
    have "ts_ok b n c0 st' c'" by (rule type_clause_ok [OF t Cons.prems(1) slot b _ _ _ r]) (use Cons.prems(2) in simp_all)
    then show ?thesis using Cons.IH Cons.prems(2) False by (simp add: r)
  qed (use Cons in simp)
qed simp

lemma leads_type_default:
  assumes "list_all well_formed body" and "list_all (allowed b) body" and "slot < n"
  shows "leads b n 0 0 c (type_default K slot x pos body c)"
  unfolding type_default_def Let_def
proof (rule leads_block, rule leads_trans [OF _ leads_stmts' [OF assms(1,2)]], rule leads_if)
  let ?c = "push_block c"
  show "leads b n 0 0 ?c (seq [declare_local x pos, emit OpLocal (int slot) 0 pos, emit OpNewLocal (int (next_slot ?c)) 0 pos] ?c)"
  proof (rule leads_assume)
    fix L ht
    assume "typed L ?c ht" "last ht = 0" "n \<le> next_slot ?c"
    then show "leads b n 0 0 ?c (seq [declare_local x pos, emit OpLocal (int slot) 0 pos, emit OpNewLocal (int (next_slot ?c)) 0 pos] ?c)"
      using assms(3) by (intro leads_shadow_name) simp
  qed
qed (rule leads_refl)

lemma leads_type_end:
  assumes t: "typed L c ht" "last ht = 0" "n \<le> next_slot c" and slot: "slot < n" and b: "b \<noteq> InExpr"
    and ss: "\<forall>s\<in>set ss. list_all well_formed (case_exprs s) \<and> list_all well_formed (case_body s) \<and> list_all falls_free (case_body s)"
    and st: "type_clauses K slot x ss \<lparr>sw_outs = [], sw_falls = [], sw_default = None, sw_next = None\<rparr> c = (st, c4)"
    and fc: "(falls, c5) = (case rev (default_bodies ss) of
                  [] \<Rightarrow> (sw_falls st, c4)
                | b # _ \<Rightarrow>
                    if b = [] then (sw_falls st, c4)
                    else ([], type_default K slot x pos b (patch_all (sw_falls st) (here c4) c4)))"
  shows "leads b n 0 0 c (patch_all (sw_outs st) (here (dangling_falls pos falls c5)) (dangling_falls pos falls c5))"
proof -
  have "ts_ok b n c \<lparr>sw_outs = [], sw_falls = [], sw_default = None, sw_next = None\<rparr> c" by (simp add: ts_ok_def leaves_refl)
  from type_clauses_ok [OF t slot b this ss, of x] st
  have 4: "leaves b n 0 0 (set (sw_outs st) \<times> {0}) {} {} c c4" and no: "sw_falls st = []" by (simp_all add: ts_ok_def)
  have "leads b n 0 0 c4 c5 \<and> falls = []"
  proof (cases "rev (default_bodies ss)")
    case (Cons d ds)
    have "d \<in> set (default_bodies ss)" using Cons by (metis list.set_intros(1) set_rev)
    then have d: "list_all well_formed d" "list_all falls_free d" using ss by (auto simp: default_bodies_def)
    then have "list_all (allowed b) d" using b by (cases b) (simp_all add: allowed_def list_all_iff)
    then show ?thesis using fc Cons no leads_type_default [OF d(1) _ slot] by (auto simp: leads_refl split: if_splits)
  qed (use fc no in \<open>simp add: leads_refl\<close>)
  then have "leaves b n 0 0 (set (sw_outs st) \<times> {0} \<union> {}) {} {} c (dangling_falls pos falls c5)"
    using leaves_then [OF 4] by (simp add: dangling_falls_def)
  from leaves_patch_all [OF this] show ?thesis by (rule leavesD)
qed

lemma leads_typeSwitchStmt:
  assumes init: "\<And>x. init = Some x \<Longrightarrow> well_formed x \<and> allowed b x" and a: "well_formed a"
    and body: "\<forall>s\<in>set (block_list body). list_all well_formed (case_exprs s) \<and> list_all well_formed (case_body s) \<and>
      list_all falls_free (case_body s)" and b: "b \<noteq> InExpr"
  shows "leads b n 0 0 c (typeSwitchStmt K pos init a body c)"
proof -
  define c1 where "c1 = seq [opt_stmt K init] (push_block c)"
  define x where "x = snd (type_switch_parts a)"
  have 1: "leads b n 0 0 (push_block c) c1" unfolding c1_def by (rule leads_seq_simple [OF leads_opt_stmt]) (use init in simp)
  show ?thesis
  proof (cases "fst (type_switch_parts a)")
    case None
    then have "typeSwitchStmt K pos init a body c = pop_block (trap pos ''type switch without a type assertion'' c1)"
      by (simp add: typeSwitchStmt_def c1_def seq_simps case_prod_beta)
    then show ?thesis using leads_block [OF leads_trans [OF 1 leads_trap]] by simp
  next
    case (Some e)
    have e: "well_formed e"
    proof -
      have "\<exists>m t z. e \<in> set (children (TypeAssertExpr m e t)) \<and> z = TypeAssertExpr m e t \<and> z \<in> set (children a)"
        using Some by (cases a) (auto simp: type_switch_parts_def split: node.splits list.splits)
      then show ?thesis using well_formed_child a by blast
    qed
    define c2 where "c2 = snd (fresh ''$tsubj'' (k_expr K e c1))"
    define tn where "tn = fst (fresh ''$tsubj'' (k_expr K e c1))"
    define cs where "cs = emit OpNewLocal (int (next_slot c2)) 0 (pos_of e) (declare_local tn 0 c2)"
    define c3 where "c3 = open_ctrl False cs"
    define st where "st = fst (type_clauses K (next_slot c2) x (block_list body)
      \<lparr>sw_outs = [], sw_falls = [], sw_default = None, sw_next = None\<rparr> c3)"
    define c4 where "c4 = snd (type_clauses K (next_slot c2) x (block_list body)
      \<lparr>sw_outs = [], sw_falls = [], sw_default = None, sw_next = None\<rparr> c3)"
    define fc where "fc = (case rev (default_bodies (block_list body)) of
                  [] \<Rightarrow> (sw_falls st, c4)
                | b # _ \<Rightarrow>
                    if b = [] then (sw_falls st, c4)
                    else ([], type_default K (next_slot c2) x pos b (patch_all (sw_falls st) (here c4) c4)))"
    define c6 where "c6 = dangling_falls pos (fst fc) (snd fc)"
    have eq: "typeSwitchStmt K pos init a body c = pop_block (close_ctrl (patch_all (sw_outs st) (here c6) c6))"
      unfolding typeSwitchStmt_def c6_def fc_def c4_def st_def c3_def cs_def tn_def c2_def x_def c1_def Let_def case_prod_beta Some option.case
      by (simp only: seq_simps)
    have c2: "leads b n 0 (Suc 0) c1 c2" unfolding c2_def by (rule leads_trans [OF expr [OF e] leads_fresh])
    have cs: "leads b n (Suc 0) 0 c2 cs" unfolding cs_def by (rule leads_new_local)
    have "leads b n 0 0 c1 (close_ctrl (patch_all (sw_outs st) (here c6) c6))"
    proof (rule leads_assume)
      fix L ht
      assume t: "typed L c1 ht" "last ht = 0" "n \<le> next_slot c1"
      obtain ht2 where "typed L c2 ht2" by (rule leadsE [OF c2 t])
      then have "c_fs c2 \<noteq> []" by (rule typed_fs)
      then have slot: "next_slot c2 < next_slot cs" by (simp add: cs_def emit_add)
      have "leads b (next_slot cs) 0 0 c3 (patch_all (sw_outs st) (here c6) c6)"
      proof (rule leads_assume)
        fix L ht
        assume t: "typed L c3 ht" "last ht = 0" "next_slot cs \<le> next_slot c3"
        show "leads b (next_slot cs) 0 0 c3 (patch_all (sw_outs st) (here c6) c6)"
          unfolding c6_def by (rule leads_type_end [OF t slot b body]) (simp_all add: st_def c4_def fc_def)
      qed
      then have "leads b (next_slot cs) 0 0 cs (close_ctrl (patch_all (sw_outs st) (here c6) c6))"
        unfolding c3_def by (rule leads_open_ctrl)
      then have "leads b n 0 0 cs (close_ctrl (patch_all (sw_outs st) (here c6) c6))" by (rule leads_slots)
      then show "leads b n 0 0 c1 (close_ctrl (patch_all (sw_outs st) (here c6) c6))"
        by (rule leads_trans [OF leads_trans [OF c2 cs]])
    qed
    from leads_block [OF leads_trans [OF 1 this]] show ?thesis unfolding eq .
  qed
qed

end

end
