(* ===== verification/SelectTyped.thy ===== *)
theory SelectTyped
  imports SwitchTyped
begin

text \<open>A select is compiled to typed code: its arms leave one value each, which the wait takes before it enters its jump table.\<close>

section \<open>The arms\<close>

definition sends_before :: "instruction list \<Rightarrow> bool list" where
  "sends_before is = map (\<lambda>ins. i_B ins = 1) (filter (\<lambda>ins. i_Op ins = OpSelArm) is)"

lemma arms_before_sends: "arms_before is i n = rev (take n (rev (sends_before (take i is))))"
  by (simp add: arms_before_def sends_before_def)

lemma select_arm_sends: "sends_before (code (select_arm sc c)) = sends_before (code c) @ [sc_send sc]"
  by (simp add: select_arm_def seq_simps emit_add sends_before_def)

lemma select_arms_sends:
  "sends_before (code (seq (map select_arm scs) c)) = sends_before (code c) @ map sc_send scs"
  by (induction scs arbitrary: c) (simp_all add: seq_simps select_arm_sends)

definition arm_ok :: "nat \<Rightarrow> sel_case \<Rightarrow> bool" where
  "arm_ok n sc \<longleftrightarrow> sc_chan sc < n \<and> (sc_send sc \<longrightarrow> sc_val sc < n)"

lemma leads_select_arm:
  assumes "arm_ok n sc"
  shows "leads b n h (Suc h) c (select_arm sc c)"
proof -
  have "leads b n h (Suc h) c (seq [emit OpLocal (int (sc_chan sc)) 0 p, emit OpLocal (int (sc_val sc)) 0 p, emit OpSelArm 0 1 p] c)"
    if "sc_send sc" for p
    by (rule leads_seqs leads_emit | use assms that in \<open>simp add: arm_ok_def\<close>)+
  moreover have "leads b n h (Suc h) c (seq [emit OpLocal (int (sc_chan sc)) 0 p, emit OpSelArm k 0 p] c)" for p k
    by (rule leads_seqs leads_emit | use assms in \<open>simp add: arm_ok_def\<close>)+
  ultimately show ?thesis unfolding select_arm_def by simp
qed

lemma leads_select_arms: "\<forall>sc\<in>set scs. arm_ok n sc \<Longrightarrow> leads b n 0 (length scs) c (seq (map select_arm scs) c)"
  using leads_seq_map1 [of scs b n select_arm 0 c, OF leads_select_arm] by simp

section \<open>The jump table\<close>

abbreviation jump_ins :: "nat \<Rightarrow> instruction" where
  "jump_ins p \<equiv> \<lparr>i_Op = OpJump, i_A = 0, i_B = 0, i_C = -1, i_Pos = p\<rparr>"

definition add_code :: "instruction list \<Rightarrow> 't cstate \<Rightarrow> 't cstate" where
  "add_code is c = c\<lparr>c_ch := (c_ch c)\<lparr>ch_Code := code c @ is\<rparr>\<rparr>"

lemma add_code_sel [simp]:
  "code (add_code is c) = code c @ is" "ch_Consts (c_ch (add_code is c)) = ch_Consts (c_ch c)"
  "c_fs (add_code is c) = c_fs c" "c_ctrl (add_code is c) = c_ctrl c" "c_labels (add_code is c) = c_labels c"
  "c_falls (add_code is c) = c_falls c" "c_pendingGotos (add_code is c) = c_pendingGotos c"
  "c_funs (add_code is c) = c_funs c" "c_inClause (add_code is c) = c_inClause c" "c_results (add_code is c) = c_results c"
  "ch_NamedSlots (c_ch (add_code is c)) = ch_NamedSlots (c_ch c)" "ch_NParams (c_ch (add_code is c)) = ch_NParams (c_ch c)"
  "here (add_code is c) = here c + length is" "next_slot (add_code is c) = next_slot c"
  "cur_scope (add_code is c) = cur_scope c" "recorded (add_code is c) = recorded c"
  by (simp_all add: add_code_def here_def next_slot_def cur_scope_def recorded_def)

lemma emit_jumps: "seq (map (emit OpJump 0 0) ps) c = add_code (map jump_ins ps) c"
  by (induction ps arbitrary: c) (simp_all add: seq_simps emit_def add_code_def)

lemma grown_code: "grown b c ht (add_code is c) (ht @ hs)"
  by (simp add: grown_def list_all2_refl)

lemma flows_code:
  assumes f: "flows L c ht" and len: "length hs = length is" and holes: "\<forall>(i, t)\<in>H. hole_ok (code c @ is) (ht @ hs) i t"
    and new: "\<And>i. here c \<le> i \<Longrightarrow> i < here c + length is \<Longrightarrow> settled (code c @ is) (ht @ hs) i \<or> i \<in> fst ` H"
  shows "flows (H \<union> L) (add_code is c) (ht @ hs)"
proof -
  have lh: "length ht = Suc (length (code c))" using f by (simp add: flows_def here_def)
  have hs: "holes (H \<union> L) (add_code is c) = H \<union> holes L c" by (auto simp: holes_def)
  have "settled (code c @ is) (ht @ hs) i \<or> i \<in> fst ` (H \<union> holes L c)" if "i < here c + length is" for i
  proof (cases "here c \<le> i")
    case False
    then have "settled (code c) ht i \<or> i \<in> fst ` holes L c" using f by (simp add: flows_def)
    then show ?thesis using settled_append [of "code c" ht i "is" hs] False lh by (auto simp: here_def)
  qed (use new that in auto)
  moreover have "hole_ok (code c @ is) (ht @ hs) i t" if "(i, t) \<in> H \<union> holes L c" for i t
    using that holes f hole_ok_append [OF _ lh] by (auto simp: flows_def)
  moreover have "(ht @ hs) ! 0 = 0" using f lh by (simp add: flows_def nth_append)
  ultimately show ?thesis
    using f lh len unfolding flows_def hs by (auto simp: here_def at_zero_append)
qed

text \<open>The wait and its table: one jump for each arm, and one for the default clause.\<close>

definition table_holes :: "nat \<Rightarrow> nat list \<Rightarrow> (nat \<times> nat) set" where
  "table_holes i ts = {(i + k, ts ! k) | k. k < length ts}"

definition arm_height :: "sel_case \<Rightarrow> nat" where
  "arm_height sc = (if sc_send sc then 0 else 1)"

lemma select_wait:
  assumes f: "flows L c ht" and top: "last ht = length scs" and ts: "ts = map arm_height scs @ (if d then [0] else [])"
    and sends: "sends_before (code c) = xs @ map sc_send scs" and len: "length js = length ts"
  shows "settled (code c @ \<lparr>i_Op = OpSelWait, i_A = int (length scs), i_B = (if d then 1 else 0), i_C = -1, i_Pos = pos\<rparr> # js)
    (ht @ ts @ [h']) (here c)"
proof -
  have lh: "length ht = Suc (length (code c))" using f by (simp add: flows_def here_def)
  then have at: "(ht @ hs) ! length (code c) = length scs" for hs using last_height [OF lh] top by (simp add: nth_append)
  have after: "(ht @ hs) ! (Suc (length (code c)) + k) = hs ! k" for hs k using lh by (simp add: nth_append)
  have arm: "ts ! k = (if sc_send (scs ! k) then 0 else 1)" if "k < length scs" for k
    using that by (simp add: ts nth_append arm_height_def)
  have def_arm: "d \<Longrightarrow> ts ! length scs = 0" by (simp add: ts nth_append)
  have tl: "length ts = length scs + (if d then 1 else 0)" by (simp add: ts)
  show ?thesis
    using at after [of _ "length scs"] after arm def_arm tl lh sends
    by (auto simp: settled_def Let_def here_def falls_to_def branches_to_def takes_def select_ok_def arms_before_sends nth_append)
qed

lemma leaves_table:
  assumes ts: "ts = map arm_height scs @ (if d then [0] else [])" and ps: "length ps = length ts"
    and sends: "sends_before (code c) = xs @ map sc_send scs"
  shows "leaves b n (length scs) h' (table_holes (Suc (here c)) ts) {} {} c
    (seq (map (emit OpJump 0 0) ps) (emit OpSelWait (int (length scs)) (if d then 1 else 0) pos c))"
proof -
  define wait where "wait = \<lparr>i_Op = OpSelWait, i_A = int (length scs), i_B = (if d then 1 else 0), i_C = -1, i_Pos = pos\<rparr>"
  let ?is = "wait # map jump_ins ps" and ?H = "table_holes (Suc (here c)) ts"
  have eq: "seq (map (emit OpJump 0 0) ps) (emit OpSelWait (int (length scs)) (if d then 1 else 0) pos c) = add_code ?is c"
    by (simp add: emit_jumps emit_def add_code_def wait_def)
  show ?thesis
    unfolding eq
  proof (rule leavesI)
    fix L ht
    assume t: "typed L c ht" "last ht = length scs" "n \<le> next_slot c"
    have f: "flows L c ht" and b: "bounded c" using t(1) by (simp_all add: typed_def)
    have lh: "length ht = Suc (length (code c))" using f by (simp add: flows_def here_def)
    have jump: "(code c @ ?is) ! (Suc (here c) + k) = jump_ins (ps ! k)" if "k < length ts" for k
      using that ps by (simp add: here_def nth_append)
    have height: "(ht @ ts @ [h']) ! (Suc (here c) + k) = ts ! k" if "k < length ts" for k
      using that lh by (simp add: here_def nth_append)
    have hole: "hole_ok (code c @ ?is) (ht @ ts @ [h']) (Suc (here c) + k) (ts ! k)" if "k < length ts" for k
      unfolding hole_ok_def jump [OF that] height [OF that] using that ps
      by (simp add: here_def falls_to_def branches_to_def takes_def)
    have wait: "settled (code c @ ?is) (ht @ ts @ [h']) (here c)"
      unfolding wait_def by (rule select_wait [OF f t(2) ts sends]) (simp add: ps)
    have "flows (?H \<union> L) (add_code ?is c) (ht @ ts @ [h'])"
    proof (rule flows_code [OF f])
      fix i
      assume i: "here c \<le> i" "i < here c + length ?is"
      show "settled (code c @ ?is) (ht @ ts @ [h']) i \<or> i \<in> fst ` ?H"
      proof (cases "i = here c")
        case False
        then have "i = Suc (here c) + (i - Suc (here c))" "i - Suc (here c) < length ts" using i ps by auto
        then have "(i, ts ! (i - Suc (here c))) \<in> ?H" unfolding table_holes_def by blast
        then show ?thesis by force
      qed (simp add: wait)
    qed (use hole ps in \<open>auto simp: table_holes_def\<close>)
    moreover have "bounded (add_code ?is c)"
      by (rule bounded_step [OF b grown_code [of InExpr c "[]" _ "[]"], where js = ?is])
        (use b in \<open>auto simp: bounded_def list_all_iff operands_ok_def wait_def\<close>)
    moreover have "\<forall>(i, t)\<in>?H \<union> {}. here c \<le> i" by (auto simp: table_holes_def)
    ultimately show "\<exists>ht'. grown b c ht (add_code ?is c) ht' \<and> typed (?H \<union> L) (add_code ?is c) ht' \<and> last ht' = h' \<and>
        (\<forall>(i, t)\<in>?H \<union> {}. here c \<le> i) \<and> (\<forall>p\<in>{}. at_zero ht' p) \<and> (\<forall>(i, t)\<in>{}. hole_ok (code (add_code ?is c)) ht' i t)"
      by (intro exI [of _ "ht @ ts @ [h']"]) (simp add: typed_def grown_code)
  qed
qed

section \<open>The operands\<close>

lemma scratch_slot_split: "scratch_slot c = (next_slot c, declare_local (fst (fresh ''$sel'' c)) 0 (snd (fresh ''$sel'' c)))"
  by (simp add: scratch_slot_def case_prod_beta fresh_def next_slot_def cur_scope_def)

lemma leads_scratch: "leads b n h h c (snd (scratch_slot c))"
  unfolding scratch_slot_split snd_conv by (rule leads_trans [OF leads_fresh leads_declare])

lemma scratch_next: "c_fs c \<noteq> [] \<Longrightarrow> next_slot (snd (scratch_slot c)) = Suc (next_slot c) \<and> c_fs (snd (scratch_slot c)) \<noteq> []"
  by (cases "c_fs c") (simp_all add: scratch_slot_split fresh_def declare_local_def next_slot_def cur_scope_def on_scope_def)

context typed_comp
begin

definition case_ok :: "reach \<Rightarrow> sel_case \<Rightarrow> bool" where
  "case_ok b sc \<longleftrightarrow> list_all well_formed (sc_lhs sc) \<and> list_all well_formed (sc_body sc) \<and> list_all (allowed b) (sc_body sc)"

lemma selectRecv_wf:
  assumes "selectRecv comm = Some (x, lhs, def)" and "well_formed comm"
  shows "well_formed x \<and> list_all well_formed lhs"
proof -
  have arrow: "well_formed x" if "arrow_operand e = Some x" "well_formed e" for e x
  proof -
    have "x \<in> set (children e)" using that(1) by (cases e) (auto simp: arrow_operand_def split: if_splits)
    then show ?thesis using that(2) by (rule well_formed_child [rotated])
  qed
  consider (e) m e where "comm = ExprStmt m e" | (a) m l t r where "comm = AssignStmt m l t [r]"
    using assms(1) by (cases comm) (auto simp: selectRecv_def split: list.splits)
  then show ?thesis
  proof cases
    case e
    then show ?thesis using assms arrow well_formed_child [of comm e] by (auto simp: selectRecv_def)
  next
    case a
    then show ?thesis using assms arrow [of r x] well_formed_child [of comm] by (auto simp: selectRecv_def list_all_iff)
  qed
qed

text \<open>Evaluating an operand into a scratch slot.\<close>

lemma leads_operand: "well_formed e \<Longrightarrow> slot < n \<Longrightarrow> leads b n h h c (seq [k_expr K e, emit OpSetLocal (int slot) 0 pos] c)"
  by (rule leads_seqs expr leads_emit | assumption | simp)+

lemma select_case_ok:
  assumes t: "typed L c ht" "last ht = 0" and comm: "well_formed comm"
  shows "leads b n 0 0 c (snd (select_case K s comm c)) \<and>
    (\<forall>sc. fst (select_case K s comm c) = Some sc \<longrightarrow>
      arm_ok (next_slot (snd (select_case K s comm c))) sc \<and> list_all well_formed (sc_lhs sc) \<and> sc_body sc = comm_body s)"
proof -
  have fs: "c_fs c \<noteq> []" by (rule typed_fs [OF t(1)])
  let ?c1 = "snd (scratch_slot c)"
  let ?c2 = "snd (scratch_slot ?c1)"
  note next1 = scratch_next [OF fs] and next2 = scratch_next [OF conjunct2 [OF scratch_next [OF fs]]]
  have l1: "leads b n 0 0 c ?c1" for b n by (rule leads_scratch)
  have l2: "leads b n 0 0 c ?c2" for b n by (rule leads_trans [OF l1 leads_scratch])
  have fsts: "fst (scratch_slot c) = next_slot c" for c by (simp add: scratch_slot_split)
  have mono: "k < next_slot c'" if a: "leads InExpr 0 0 0 c c1" "leads InExpr 0 0 0 c1 c'" "k < next_slot c1" for k c1 c'
  proof -
    obtain ht1 where 1: "typed L c1 ht1" "last ht1 = 0" by (rule leadsE [OF a(1) t]) auto
    obtain ht2 where "grown InExpr c1 ht1 c' ht2" by (rule leadsE [OF a(2) 1]) auto
    then show ?thesis using grown_slot typed_fs [OF 1(1)] a(3) by fastforce
  qed
  consider (send) m ch v where "comm = SendStmt m ch v"
    | (none) "\<nexists>m ch v. comm = SendStmt m ch v" "selectRecv comm = None"
    | (recv) x lhs def where "\<nexists>m ch v. comm = SendStmt m ch v" "selectRecv comm = Some (x, lhs, def)"
    by (metis option.exhaust prod_cases3)
  then show ?thesis
  proof cases
    case send
    define c3 where "c3 = seq [k_expr K ch, emit OpSetLocal (int (next_slot c)) 0 (pos_of ch), k_expr K v,
      emit OpSetLocal (int (next_slot ?c1)) 0 (pos_of v)] ?c2"
    have wf: "well_formed ch" "well_formed v" using comm well_formed_child [of comm] send by simp_all
    have eq: "select_case K s comm c = (Some \<lparr>sc_body = comm_body s, sc_pos = pos_of s, sc_chan = next_slot c, sc_val = next_slot ?c1,
        sc_lhs = [], sc_define = False, sc_send = True, sc_recv = None\<rparr>, c3)"
      unfolding send select_case_def node.case Let_def case_prod_beta fsts c3_def by (rule refl)
    have slots: "next_slot c < next_slot ?c2" "next_slot ?c1 < next_slot ?c2" using next1 next2 by simp_all
    have c3: "c3 = seq [k_expr K v, emit OpSetLocal (int (next_slot ?c1)) 0 (pos_of v)]
        (seq [k_expr K ch, emit OpSetLocal (int (next_slot c)) 0 (pos_of ch)] ?c2)"
      unfolding c3_def by (simp only: seq_simps)
    have "leads b (next_slot ?c2) 0 0 ?c2 c3" for b
      unfolding c3 by (rule leads_trans [OF leads_operand [OF wf(1) slots(1)] leads_operand [OF wf(2) slots(2)]])
    then have 3: "leads b n 0 0 ?c2 c3" for b n by (rule leads_slots)
    then have "leads b n 0 0 c c3" by (rule leads_trans [OF l2])
    then show ?thesis
      using mono [OF l2 3, of "next_slot c"] mono [OF l2 3, of "next_slot ?c1"] next1 next2 unfolding eq
      by (auto simp: arm_ok_def)
  next
    case none
    then have eq: "select_case K s comm c = (None, trap (pos_of comm) ''unsupported select case'' c)"
      by (cases comm) (simp_all add: select_case_def)
    then show ?thesis by (simp add: leads_trap)
  next
    case recv
    define c3 where "c3 = seq [k_expr K x, emit OpSetLocal (int (next_slot c)) 0 (pos_of x)] ?c1"
    have wf: "well_formed x" "list_all well_formed lhs" using selectRecv_wf [OF recv(2) comm] by simp_all
    have eq: "select_case K s comm c = (Some \<lparr>sc_body = comm_body s, sc_pos = pos_of s, sc_chan = next_slot c, sc_val = 0,
        sc_lhs = lhs, sc_define = def, sc_send = False, sc_recv = Some x\<rparr>, c3)"
      using recv by (cases comm) (simp_all add: select_case_def Let_def case_prod_beta fsts c3_def)
    have "leads b (next_slot ?c1) 0 0 ?c1 c3" for b
      unfolding c3_def by (rule leads_operand [OF wf(1)]) (use next1 in simp)
    then have 3: "leads b n 0 0 ?c1 c3" for b n by (rule leads_slots)
    then have "leads b n 0 0 c c3" by (rule leads_trans [OF l1])
    then show ?thesis using mono [OF l1 3, of "next_slot c"] next1 wf unfolding eq by (auto simp: arm_ok_def)
  qed
qed

lemma arm_ok_mono: "arm_ok n sc \<Longrightarrow> n \<le> m \<Longrightarrow> arm_ok m sc"
  by (auto simp: arm_ok_def)

lemma select_cases_ok:
  assumes "typed L c ht" "last ht = 0"
    and "\<forall>s\<in>set ss. (\<forall>comm. comm_of s = Some comm \<longrightarrow> well_formed comm) \<and> list_all well_formed (comm_body s) \<and>
      list_all (allowed b) (comm_body s)"
  shows "leads b n 0 0 c (snd (select_cases K ss c)) \<and>
    (\<forall>sc\<in>set (fst (select_cases K ss c)). arm_ok (next_slot (snd (select_cases K ss c))) sc \<and> case_ok b sc)"
  using assms
proof (induction ss arbitrary: n c ht)
  case (Cons s ss)
  show ?case
  proof (cases "comm_of s")
    case None
    then show ?thesis using Cons by simp
  next
    case (Some comm)
    let ?c1 = "snd (select_case K s comm c)"
    let ?c2 = "snd (select_cases K ss ?c1)"
    have wf: "well_formed comm" using Some Cons.prems(3) by simp
    note one = select_case_ok [OF Cons.prems(1,2) wf, of _ _ s]
    have l: "leads b n 0 0 c ?c1" for b n using one by blast
    obtain ht1 where 1: "typed L ?c1 ht1" "last ht1 = 0" by (rule leadsE [OF l [of InExpr 0] Cons.prems(1,2)]) auto
    have IH: "leads b n 0 0 ?c1 ?c2 \<and> (\<forall>sc\<in>set (fst (select_cases K ss ?c1)). arm_ok (next_slot ?c2) sc \<and> case_ok b sc)" for n
      by (rule Cons.IH [OF 1]) (use Cons.prems(3) in simp)
    then have l2: "leads b 0 0 0 ?c1 ?c2" by blast
    obtain ht2 where "grown b ?c1 ht1 ?c2 ht2" by (rule leadsE [OF l2 1]) auto
    then have grow: "next_slot ?c1 \<le> next_slot ?c2" by (rule grown_slot) (rule typed_fs [OF 1(1)])
    have sc: "arm_ok (next_slot ?c2) sc \<and> case_ok b sc" if "fst (select_case K s comm c) = Some sc" for sc
      using one that Cons.prems(3) arm_ok_mono [OF _ grow] by (auto simp: case_ok_def)
    have "leads b n 0 0 c ?c2" by (rule leads_trans [OF l]) (use IH in blast)
    then show ?thesis using IH sc Some by (auto simp: Let_def case_prod_beta split: option.split)
  qed
qed (simp add: leads_refl)

section \<open>The bodies\<close>

lemma leads_bindRecv:
  assumes "list_all well_formed lhs"
  shows "leads b n 1 0 c (bindRecv hk K lhs def ch c)"
proof -
  let ?el = "if def \<and> lhs \<noteq> [] then (case ch of Some e \<Rightarrow> q_chanElem hk e c | None \<Rightarrow> None) else None"
  consider (none) "lhs = []" | (one) l where "lhs = [l]" | (more) l m ls where "lhs = l # m # ls"
    by (metis neq_Nil_conv)
  then show ?thesis
  proof cases
    case none
    then show ?thesis unfolding bindRecv_def One_nat_def by (simp add: leads_emit')
  next
    case one
    have "leads b n (Suc 0) 0 c (seq [storeTarget hk K l def, noteBindVar l ?el def] c)"
      by (rule leads_seqs leads_storeTarget leads_noteBindVar | use assms one in simp)+
    then show ?thesis using one by (simp add: bindRecv_def)
  next
    case more
    let ?ls = "m # ls"
    have unpack: "leads b n 1 (length lhs) c (emit3 OpUnpack (int (length lhs)) 0 0 0 c)" for c
    proof -
      have "op_ok n 1 OpUnpack (int (length lhs)) 0" "next_op 1 OpUnpack (int (length lhs)) 0 = length lhs"
        by (simp_all only: op_needs op_leaves)
      then show ?thesis using leads_emit3 [of n 1 OpUnpack "int (length lhs)" 0 b c 0 0] by metis
    qed
    have store: "leads b n (length lhs) 0 c (seq (map (\<lambda>l. storeTarget hk K l def) (rev lhs)) c)" for c
      using leads_store_all [of "rev lhs" b n 0 c def] assms by simp
    have "leads b n 1 0 c (seq ([emit3 OpUnpack (int (length lhs)) 0 0 0] @ map (\<lambda>l. storeTarget hk K l def) (rev lhs) @
            [noteBindVar l ?el def] @ map (\<lambda>l. noteBindVar l bool_type def) ?ls) c)"
      by (rule leads_seq_append, rule leads_seq_simple [OF unpack], rule leads_seq_append [OF store],
          rule leads_seq_append [OF leads_seq_simple [OF leads_noteBindVar] leads_seq_map0 [OF leads_noteBindVar]])
    then show ?thesis using more by (simp add: bindRecv_def)
  qed
qed

definition entry_height :: "(nat \<times> sel_case) list \<Rightarrow> nat" where
  "entry_height scs = (case scs of [] \<Rightarrow> 0 | p # _ \<Rightarrow> arm_height (snd p))"

text \<open>Each arm is entered through its jump in the table; what follows the jump out of a body is the next arm.\<close>

lemma leaves_select_bodies:
  assumes "leaves b n h (entry_height scs) (((\<lambda>p. (fst p, arm_height (snd p))) ` set scs) \<union> H) R {} c0 c"
    and "\<forall>p\<in>set scs. case_ok b (snd p)" and "distinct (map fst scs)"
  shows "\<exists>R'. leaves b n h 0 (set (fst (select_bodies hk K scs c)) \<times> {0} \<union> H) R' {} c0 (snd (select_bodies hk K scs c))"
  using assms
proof (induction scs arbitrary: H R c)
  case (Cons p scs)
  obtain j sc where p: "p = (j, sc)" by fastforce
  define c1 where "c1 = push_block (patchA j (here c) c)"
  define c2 where "c2 = (if sc_send sc then c1 else bindRecv hk K (sc_lhs sc) (sc_define sc) (sc_recv sc) c1)"
  define c3 where "c3 = pop_block (stmts K (sc_body sc) c2)"
  define c4 where "c4 = emit OpJump 0 0 (sc_pos sc) c3"
  have ok: "case_ok b sc" using Cons.prems(2) p by simp
  let ?T = "(\<lambda>p. (fst p, arm_height (snd p))) ` set scs"
  have "leaves b n h (arm_height sc) (insert (j, arm_height sc) (?T \<union> H)) R {} c0 c"
    using Cons.prems(1) by (simp add: p entry_height_def)
  from leaves_patch [OF this, of j]
  have "leaves b n h (arm_height sc) (insert (j, arm_height sc) (?T \<union> H) - {(j, arm_height sc)}) (insert (j, arm_height sc) R) {} c0
      (patchA j (here c) c)" by simp
  then have 1: "leaves b n h (arm_height sc) (?T \<union> H) (insert (j, arm_height sc) R) {} c0 (patchA j (here c) c)"
    by (rule leaves_rehole) auto
  have "leads b n (arm_height sc) 0 c1 c2"
    unfolding c2_def arm_height_def using leads_bindRecv ok by (simp add: leads_refl case_ok_def)
  then have "leads b n (arm_height sc) 0 (patchA j (here c) c) c3"
    unfolding c3_def c1_def by (intro leads_block leads_trans [OF _ leads_stmts']) (use ok in \<open>simp_all add: case_ok_def\<close>)
  from leaves_trans [OF leaves_then [OF 1 this] leaves_jump]
  have "leaves b n h (entry_height scs) (?T \<union> (insert (here c3, 0) H)) (insert (j, arm_height sc) R) {} c0 c4"
    unfolding c4_def by simp
  from Cons.IH [OF this] Cons.prems(2,3)
  obtain R' where "leaves b n h 0 (set (fst (select_bodies hk K scs c4)) \<times> {0} \<union> insert (here c3, 0) H) R' {} c0
      (snd (select_bodies hk K scs c4))" by auto
  moreover have "select_bodies hk K (p # scs) c = (here c3 # fst (select_bodies hk K scs c4), snd (select_bodies hk K scs c4))"
    by (simp add: p Let_def case_prod_beta c1_def c2_def c3_def c4_def)
  ultimately show ?case by (auto simp: insert_Times_insert Un_commute)
qed (auto simp: entry_height_def)

lemma table_holes_split:
  assumes "ts = map arm_height scs @ (if d then [0] else [])"
  shows "table_holes i ts = (\<lambda>p. (fst p, arm_height (snd p))) ` set (enumerate i scs) \<union> (if d then {(i + length scs, 0)} else {})"
proof -
  have "table_holes i (map arm_height scs) = (\<lambda>p. (fst p, arm_height (snd p))) ` set (enumerate i scs)"
    by (force simp: table_holes_def enumerate_eq_zip set_zip)
  moreover have "table_holes i (xs @ [y]) = table_holes i xs \<union> {(i + length xs, y)}" for xs and y :: nat
  proof -
    have image: "table_holes i ys = (\<lambda>k. (i + k, ys ! k)) ` {..<length ys}" for ys by (auto simp: table_holes_def)
    have "(\<lambda>k. (i + k, (xs @ [y]) ! k)) ` {..<length xs} = (\<lambda>k. (i + k, xs ! k)) ` {..<length xs}"
      by (rule image_cong) (simp_all add: nth_append)
    then show ?thesis unfolding image by (simp add: lessThan_Suc)
  qed
  ultimately show ?thesis using assms by simp
qed

lemma select_end:
  assumes scs: "\<forall>sc\<in>set scs. arm_ok n sc \<and> case_ok b sc" and dbody: "list_all well_formed dbody" "list_all (allowed b) dbody"
    and c3: "c3 = emit OpSelWait (int (length scs)) (if d then 1 else 0) pos (seq (map select_arm scs) c)"
    and c4: "c4 = seq (map (emit OpJump 0 0) (map sc_pos scs @ (if d then [pos] else []))) c3"
    and c5: "(outs, c5) = select_bodies hk K (enumerate (here c3) scs) c4"
    and c6: "c6 = (if d then stmts K dbody (patchA (here c3 + length scs) (here c5) c5) else c5)"
  shows "leads b n 0 0 c (patch_all outs (here c6) c6)"
proof -
  define ts where "ts = map arm_height scs @ (if d then [0] else [])"
  define D where "D = (if d then {(here c3 + length scs, 0 :: nat)} else {})"
  let ?ca = "seq (map select_arm scs) c"
  have arms: "leads b n 0 (length scs) c ?ca" by (rule leads_select_arms) (use scs in simp)
  have sends: "sends_before (code ?ca) = sends_before (code c) @ map sc_send scs" by (rule select_arms_sends)
  have top: "here c3 = Suc (here ?ca)" by (simp add: c3 emit_add)
  have "leaves b n (length scs) h' (table_holes (here c3) ts) {} {} ?ca c4" for h'
    unfolding c4 top unfolding c3 by (rule leaves_table [OF ts_def _ sends]) (simp add: ts_def)
  then have "leaves b n 0 (entry_height (enumerate (here c3) scs))
      ((\<lambda>p. (fst p, arm_height (snd p))) ` set (enumerate (here c3) scs) \<union> D) {} {} c c4"
    using leads_then [OF arms] table_holes_split [OF ts_def] unfolding D_def by metis
  moreover have "\<forall>p\<in>set (enumerate (here c3) scs). case_ok b (snd p)"
    using scs by (auto simp: enumerate_eq_zip dest: set_zip_rightD)
  moreover have "distinct (map fst (enumerate (here c3) scs))" by (simp add: enumerate_eq_zip)
  ultimately have "\<exists>R. leaves b n 0 0 (set (fst (select_bodies hk K (enumerate (here c3) scs) c4)) \<times> {0} \<union> D) R {} c
      (snd (select_bodies hk K (enumerate (here c3) scs) c4))"
    by (rule leaves_select_bodies)
  then obtain R where "leaves b n 0 0 (set (fst (select_bodies hk K (enumerate (here c3) scs) c4)) \<times> {0} \<union> D) R {} c
      (snd (select_bodies hk K (enumerate (here c3) scs) c4))"
    by blast
  then have 5: "leaves b n 0 0 (set outs \<times> {0} \<union> D) R {} c c5" unfolding c5 [symmetric] by simp
  have "\<exists>R. leaves b n 0 0 (set outs \<times> {0} \<union> {}) R {} c c6"
  proof (cases d)
    case True
    let ?j = "here c3 + length scs"
    have "leaves b n 0 0 (set outs \<times> {0} \<union> D - {(?j, 0)}) (insert (?j, 0) R) {} c (patchA ?j (here c5) c5)"
      by (rule leaves_patch [OF 5]) (simp add: D_def True)
    then have "leaves b n 0 0 (set outs \<times> {0}) (insert (?j, 0) R) {} c (patchA ?j (here c5) c5)"
      by (rule leaves_rehole) (auto simp: D_def True)
    from leaves_then [OF this leads_stmts' [OF dbody]] show ?thesis unfolding c6 using True by auto
  next
    case False
    then show ?thesis using 5 by (auto simp: D_def c6)
  qed
  then obtain R' where "leaves b n 0 0 (set outs \<times> {0} \<union> {}) R' {} c c6" by blast
  from leaves_patch_all [OF this] show ?thesis by (rule leavesD)
qed

lemma leads_selectStmt:
  assumes "\<forall>s\<in>set (block_list body). (\<forall>comm. comm_of s = Some comm \<longrightarrow> well_formed comm) \<and> list_all well_formed (comm_body s) \<and>
      list_all (allowed b) (comm_body s)"
  shows "leads b n 0 0 c (selectStmt hk K pos body c)"
proof -
  define c1 where "c1 = open_ctrl False (push_block c)"
  define scs where "scs = fst (select_cases K (block_list body) c1)"
  define c2 where "c2 = snd (select_cases K (block_list body) c1)"
  define ds where "ds = filter (\<lambda>s. comm_of s = None) (block_list body)"
  define dbody where "dbody = (if ds = [] then [] else comm_body (last ds))"
  define c3 where "c3 = emit OpSelWait (int (length scs)) (if ds \<noteq> [] then 1 else 0) pos (seq (map select_arm scs) c2)"
  define c4 where "c4 = seq (map (emit OpJump 0 0) (map sc_pos scs @ (if ds \<noteq> [] then [pos] else []))) c3"
  define outs where "outs = fst (select_bodies hk K (enumerate (here c3) scs) c4)"
  define c5 where "c5 = snd (select_bodies hk K (enumerate (here c3) scs) c4)"
  define c6 where "c6 = (if ds \<noteq> [] then stmts K dbody (patchA (here c3 + length scs) (here c5) c5) else c5)"
  have "map (\<lambda>sc. emit OpJump 0 0 (sc_pos sc)) scs @ (if ds \<noteq> [] then [emit OpJump 0 0 pos] else []) =
      map (emit OpJump 0 0) (map sc_pos scs @ (if ds \<noteq> [] then [pos] else []))" by simp
  then have eq: "selectStmt hk K pos body c = pop_block (close_ctrl (patch_all outs (here c6) c6))"
    unfolding selectStmt_def Let_def case_prod_beta c1_def [symmetric] scs_def [symmetric] c2_def [symmetric] ds_def [symmetric]
    by (cases "ds = []") (simp_all add: c6_def c5_def c4_def c3_def outs_def dbody_def seq_simps o_def)
  have "last ds \<in> set (block_list body)" if "ds \<noteq> []" using that last_in_set [OF that] by (simp add: ds_def)
  then have dbody: "list_all well_formed dbody" "list_all (allowed b) dbody" using assms by (simp_all add: dbody_def)
  have "leads b n 0 0 c1 (patch_all outs (here c6) c6)"
  proof (rule leads_assume)
    fix L ht
    assume t: "typed L c1 ht" "last ht = 0" "n \<le> next_slot c1"
    note cases = select_cases_ok [OF t(1,2) assms, folded c2_def scs_def]
    have "leads b (next_slot c2) 0 0 c2 (patch_all outs (here c6) c6)"
      by (rule select_end [OF _ dbody c3_def c4_def _ c6_def]) (use cases in \<open>auto simp: outs_def c5_def\<close>)
    then have "leads b n 0 0 c2 (patch_all outs (here c6) c6)" by (rule leads_slots)
    then show "leads b n 0 0 c1 (patch_all outs (here c6) c6)" using cases leads_trans by blast
  qed
  from leads_block [OF leads_open_ctrl [OF this [unfolded c1_def]]] show ?thesis unfolding eq .
qed

end

end
