(* ===== verification/JumpTyped.thy ===== *)
theory JumpTyped
  imports SelectTyped
begin

text \<open>Returns, branches and labels are compiled to typed code, and with them every statement.\<close>

section \<open>Recorded jumps\<close>

lemma leads_recorded:
  assumes c': "c_ch c' = c_ch c" "c_fs c' = c_fs c" "c_labels c' = c_labels c" "c_funs c' = c_funs c" "c_results c' = c_results c"
      "c_inClause c' = c_inClause c" "c_falls c' = [] \<longrightarrow> c_falls c = []"
    and ctrl: "cx_continueIP ` set (c_ctrl c') = cx_continueIP ` set (c_ctrl c)"
    and rec: "recorded c' = insert (here c) (recorded c)"
    and grows: "list_all2 (ctrl_grows (here c)) (c_ctrl c) (c_ctrl c')"
      "if b = InClause then falls_grow (here c) (c_falls c) (c_falls c') else c_falls c' = c_falls c"
      "b = InExpr \<longrightarrow> c_pendingGotos c' = c_pendingGotos c"
  shows "leads b n 0 0 c (emit OpJump 0 0 pos c')"
  unfolding emit_add
proof (rule leadsI)
  fix L ht
  assume t: "typed L c ht" "last ht = 0" "n \<le> next_slot c"
  let ?ins = "\<lparr>i_Op = OpJump, i_A = 0, i_B = 0, i_C = (if OpJump = OpGlobal then sites (code c') else - 1), i_Pos = pos\<rparr>"
  have "typed L (add_ins ?ins [] c') (ht @ [0])"
    by (rule typed_record [OF t(1) _ t(2) c' ctrl rec]) simp
  moreover have "grown b c ht (add_ins ?ins [] c') (ht @ [0])"
    using c' grows by (cases b) (simp_all add: grown_def list_all2_refl)
  ultimately show "\<exists>ht'. grown b c ht (add_ins ?ins [] c') ht' \<and> typed L (add_ins ?ins [] c') ht' \<and> last ht' = 0"
    by (intro exI [of _ "ht @ [0]"]) simp
qed

text \<open>A jump to a position the state knows.\<close>

lemma leads_known:
  assumes "\<And>L ht. typed L c ht \<Longrightarrow> at_zero ht ip"
  shows "leads b n 0 0 c (emit OpJump (int ip) 0 pos c)"
proof (rule leadsI)
  fix L ht
  assume t: "typed L c ht" "last ht = 0" "n \<le> next_slot c"
  have "at_zero ht ip" by (rule assms [OF t(1)])
  then have "typed L (emit OpJump (int ip) 0 pos c) (ht @ [0])"
    unfolding emit_add using t(2) by (intro typed_back [OF t(1), of _ ip]) (simp_all add: at_zero_def)
  moreover have "grown b c ht (emit OpJump (int ip) 0 pos c) (ht @ [0])" unfolding emit_add by (rule grown_add)
  ultimately show "\<exists>ht'. grown b c ht (emit OpJump (int ip) 0 pos c) ht' \<and> typed L (emit OpJump (int ip) 0 pos c) ht' \<and> last ht' = 0"
    by (intro exI [of _ "ht @ [0]"]) (simp add: emit_add)
qed

section \<open>Branches\<close>

lemma split_ctrl_Some: "split_ctrl p cs = Some (a, cx, b) \<Longrightarrow> cs = a @ cx # b \<and> p cx"
  by (induction cs arbitrary: a) (auto split: if_splits)

lemma recorded_ctrls:
  "recorded (c\<lparr>c_ctrl := cs\<rparr>) = (\<Union>cx\<in>set cs. set (cx_breaks cx) \<union> set (cx_continues cx)) \<union> \<Union> (set ` set (c_falls c)) \<union>
     pg_ins ` set (c_pendingGotos c)"
  by (simp add: recorded_def)

lemma leads_record_ctrl:
  assumes cs: "c_ctrl c = a @ cx # d" and cx': "cx_continueIP cx' = cx_continueIP cx" "ctrl_grows (here c) cx cx'"
    and rec: "set (cx_breaks cx') \<union> set (cx_continues cx') = insert (here c) (set (cx_breaks cx) \<union> set (cx_continues cx))"
  shows "leads b n 0 0 c (emit OpJump 0 0 pos (c\<lparr>c_ctrl := a @ cx' # d\<rparr>))"
proof (rule leads_recorded)
  show "recorded (c\<lparr>c_ctrl := a @ cx' # d\<rparr>) = insert (here c) (recorded c)"
    unfolding recorded_ctrls using rec by (simp add: recorded_def cs Un_ac)
qed (use cs cx' in \<open>simp_all add: list_all2_append list_all2_refl\<close>)

lemma leads_break_to: "break_to p pos c = Some c' \<Longrightarrow> leads b n 0 0 c c'"
  by (auto simp: break_to_def ctrl_grows_def more_from_def dest!: split_ctrl_Some intro!: leads_record_ctrl)

lemma leads_continue_to:
  assumes "continue_to p pos c = Some c'" and loops: "\<And>cx. p cx \<Longrightarrow> cx_isLoop cx"
  shows "leads b n 0 0 c c'"
proof -
  obtain a cx d where s: "split_ctrl p (c_ctrl c) = Some (a, cx, d)"
    and c': "c' = (case cx_continueIP cx of
           Some ip \<Rightarrow> emit OpJump (int ip) 0 pos c
         | None \<Rightarrow> emit OpJump 0 0 pos (c\<lparr>c_ctrl := a @ cx\<lparr>cx_continues := cx_continues cx @ [here c]\<rparr> # d\<rparr>))"
    using assms(1) by (auto simp: continue_to_def)
  note cs = split_ctrl_Some [OF s]
  show ?thesis
  proof (cases "cx_continueIP cx")
    case None
    have "leads b n 0 0 c (emit OpJump 0 0 pos (c\<lparr>c_ctrl := a @ cx\<lparr>cx_continues := cx_continues cx @ [here c]\<rparr> # d\<rparr>))"
      by (rule leads_record_ctrl [OF conjunct1 [OF cs]]) (use None loops cs in \<open>auto simp: ctrl_grows_def more_from_def\<close>)
    then show ?thesis by (simp add: c' None)
  next
    case (Some ip)
    have "leads b n 0 0 c (emit OpJump (int ip) 0 pos c)"
      by (rule leads_known) (use Some cs in \<open>auto simp: typed_def flows_def\<close>)
    then show ?thesis by (simp add: c' Some)
  qed
qed

lemma leads_goto:
  assumes "b \<noteq> InExpr"
  shows "leads b n 0 0 c (goto_label l pos c)"
proof -
  obtain blocks vars where s: "scopeSnapshot (c_fs c) = (blocks, vars)" by fastforce
  show ?thesis
  proof (cases "c_labels c l")
    case None
    let ?c = "c\<lparr>c_pendingGotos := c_pendingGotos c @
            [\<lparr>pg_ins = here c, pg_name = l, pg_pos = pos, pg_blocks = blocks, pg_vars = vars\<rparr>]\<rparr>"
    have "recorded ?c = insert (here c) (recorded c)" by (auto simp: recorded_def)
    then have "leads b n 0 0 c (emit OpJump 0 0 pos ?c)"
      by (intro leads_recorded) (use assms in \<open>simp_all add: list_all2_refl\<close>)
    then show ?thesis by (simp add: goto_label_def s None)
  next
    case (Some li)
    have "leads b n 0 0 c (emit OpJump (int (li_ip li)) 0 pos c)"
      by (rule leads_known) (use Some in \<open>auto simp: typed_def flows_def ran_def\<close>)
    then show ?thesis by (auto simp: goto_label_def s Some leads_trap split: option.split)
  qed
qed

lemma leads_fallthrough:
  assumes "c_inClause c"
  shows "leads InClause n 0 0 c (emit OpJump 0 0 pos (c\<lparr>c_falls := (hd (c_falls c) @ [here c]) # tl (c_falls c)\<rparr>))"
proof (rule leads_bounded)
  assume "bounded c"
  then obtain f fs where f: "c_falls c = f # fs" using assms by (cases "c_falls c") (auto simp: bounded_def)
  let ?c = "c\<lparr>c_falls := (hd (c_falls c) @ [here c]) # tl (c_falls c)\<rparr>"
  have "recorded ?c = insert (here c) (recorded c)" by (auto simp: recorded_def f)
  then show "leads InClause n 0 0 c (emit OpJump 0 0 pos ?c)"
    by (intro leads_recorded) (auto simp: f list_all2_refl falls_grow_def more_from_def)
qed

lemma leads_or_trap: "(\<And>c'. r = Some c' \<Longrightarrow> leads b n h h c c') \<Longrightarrow> leads b n h h c (or_trap pos msg r c)"
  by (cases r) (simp_all add: or_trap_def leads_trap)

lemma leads_branchStmt:
  assumes "allowed b (BranchStmt m tok l)"
  shows "leads b n 0 0 c (branchStmt pos tok l c)"
proof -
  have b: "b \<noteq> InExpr" using assms by (auto simp: allowed_def)
  have falls: "b = InClause" if "tok = FALLTHROUGH" "l = None"
    using assms that by (auto simp: allowed_def falls_free.simps is_fallthrough_def)
  note steps = leads_or_trap leads_break_to leads_continue_to leads_goto [OF b] leads_trap leads_refl
  show ?thesis
  proof (cases l)
    case None
    have "leads b n 0 0 c (emit OpJump 0 0 pos (c\<lparr>c_falls := (hd (c_falls c) @ [here c]) # tl (c_falls c)\<rparr>))"
      if "tok = FALLTHROUGH" "c_inClause c"
      using leads_fallthrough [OF that(2)] falls [OF that(1) None] by simp
    then show ?thesis unfolding branchStmt_def by (auto simp: None intro: steps)
  next
    case (Some ln)
    have "leads b n 0 0 c (or_trap p m (continue_to (\<lambda>cx. cx_isLoop cx \<and> x \<in> set (cx_labels cx)) pos c) c)" for p m x
      by (rule leads_or_trap, erule leads_continue_to) simp
    then show ?thesis unfolding branchStmt_def by (auto simp: Some Let_def intro: leads_or_trap leads_break_to leads_goto [OF b] leads_trap leads_refl)
  qed
qed

section \<open>Labels\<close>

lemma typed_label: "typed L c ht \<Longrightarrow> at_zero ht (li_ip li) \<Longrightarrow> typed L (c\<lparr>c_labels := (c_labels c)(l \<mapsto> li)\<rparr>) ht"
  by (auto simp: typed_def flows_def bounded_def holes_def recorded_def here_def next_slot_def cur_scope_def ran_def split: if_splits)

lemma leads_label:
  assumes "leads b n 0 0 c c1" and "li_ip li = here c"
  shows "leads b n 0 0 c (c1\<lparr>c_labels := (c_labels c1)(l \<mapsto> li)\<rparr>)"
proof (rule leadsI)
  fix L ht
  assume t: "typed L c ht" "last ht = 0" "n \<le> next_slot c"
  have z: "at_zero ht (here c)" using typed_length [OF t(1)] last_height [of ht "here c"] t(2) by (simp add: at_zero_def)
  obtain ht1 where 1: "grown b c ht c1 ht1" "typed L c1 ht1" "last ht1 = 0" by (rule leadsE [OF assms(1) t])
  then have "at_zero ht1 (here c)" using at_zero_extends [OF z] by (simp add: grown_def)
  then have "typed L (c1\<lparr>c_labels := (c_labels c1)(l \<mapsto> li)\<rparr>) ht1" using 1(2) assms(2) by (intro typed_label) simp_all
  moreover have "grown b c ht (c1\<lparr>c_labels := (c_labels c1)(l \<mapsto> li)\<rparr>) ht1" using 1(1) by (cases b) (simp_all add: grown_def)
  ultimately show "\<exists>ht'. grown b c ht (c1\<lparr>c_labels := (c_labels c1)(l \<mapsto> li)\<rparr>) ht' \<and>
      typed L (c1\<lparr>c_labels := (c_labels c1)(l \<mapsto> li)\<rparr>) ht' \<and> last ht' = 0" using 1(3) by blast
qed

context typed_comp
begin

lemma leads_labeledStmt:
  assumes "well_formed s" and "allowed b s"
  shows "leads b n 0 0 c (labeledStmt K pos l s c)"
proof -
  obtain blocks vars where s: "scopeSnapshot (c_fs c) = (blocks, vars)" by fastforce
  let ?li = "\<lparr>li_name = l, li_ip = here c, li_blocks = blocks, li_vars = vars\<rparr>"
  define c1 where "c1 = (if c_labels c l = None then c else trap pos (''label '' @ l @ '' redeclared'') c)"
  let ?c2 = "c1\<lparr>c_labels := (c_labels c1)(l \<mapsto> ?li)\<rparr>"
  have "leads b n 0 0 c c1" unfolding c1_def by (simp add: leads_trap leads_refl)
  then have 2: "leads b n 0 0 c ?c2" by (rule leads_label) simp
  note body = stmt [OF assms]
  have "leads b n 0 0 ?c2 ((k_stmt K s (?c2\<lparr>c_pendingLabels := c_pendingLabels ?c2 @ [l]\<rparr>))\<lparr>c_pendingLabels := []\<rparr>)"
    by (rule leads_trans [OF leads_core leads_trans [OF body leads_core]]) simp_all
  then show ?thesis
    using leads_trans [OF 2] body unfolding labeledStmt_def s Let_def prod.case c1_def [symmetric] by simp
qed

end

end
