(* ===== verification/CompileTyped.thy ===== *)
theory CompileTyped
  imports JumpTyped
begin

text \<open>The compiler of statements, with the recursion tied by fuel, and of whole functions produces typed code.\<close>

section \<open>Parts of statements\<close>

lemma allowed_part: "allowed b s \<Longrightarrow> x \<in> set (same_clause s) \<Longrightarrow> allowed b x"
  using falls_free.simps [of s] by (auto simp: allowed_def list_all_iff)

lemma allowed_reach: "allowed b s \<Longrightarrow> b \<noteq> InExpr"
  by (auto simp: allowed_def)

lemma allowed_block: "allowed b s \<Longrightarrow> list_all (allowed b) (block_list s)"
  using allowed_part [of b s] by (cases s) (auto simp: block_list_def same_clause_def list_all_iff)

lemma clauses_well_formed:
  assumes "well_formed body" and "s \<in> set (block_list body)"
  shows "list_all well_formed (case_exprs s) \<and> list_all well_formed (case_body s) \<and>
    (\<forall>comm. comm_of s = Some comm \<longrightarrow> well_formed comm) \<and> list_all well_formed (comm_body s)"
proof -
  have "well_formed s" using block_list_well_formed [OF assms(1)] assms(2) by (simp add: list_all_iff)
  then show ?thesis
    by (cases s) (auto simp: case_exprs_def case_body_def comm_of_def comm_body_def list_all_iff intro: well_formed_child)
qed

lemma comm_body_allowed: "allowed b s \<Longrightarrow> list_all (allowed b) (comm_body s)"
  using allowed_part [of b s] by (cases s) (auto simp: comm_body_def same_clause_def list_all_iff allowed_def)

lemma in_enumerate: "p \<in> set (enumerate i xs) \<Longrightarrow> snd p \<in> set xs"
  by (cases p, simp add: enumerate_eq_zip) (erule set_zip_rightD)

context typed_comp
begin

section \<open>Simple statements\<close>

lemma leads_return: "nat a \<le> h \<Longrightarrow> leads b n h h' c (emit OpReturn a b' pos c)"
  unfolding emit_add by (rule leads_add) (simp_all add: plain_def takes_def falls_to_def branches_to_def operands_ok_def)

lemma leads_returnStmt:
  assumes rs: "list_all well_formed rs"
  shows "leads b n 0 0 c (returnStmt K pos rs c)"
proof (rule leads_bounded)
  assume bd: "bounded c"
  then have wf: "\<And>t. t \<in> set (c_results c) \<Longrightarrow> well_formed t" and slots: "\<And>s. s \<in> set (ch_NamedSlots (c_ch c)) \<Longrightarrow> s < next_slot c"
    by (simp_all add: bounded_def list_all_iff)
  let ?n = "length (c_results c)"
  consider (named) "rs = []" | (one) r where "rs = [r]" "?n > 1" | (all) "rs \<noteq> []" "\<not> (length rs = 1 \<and> ?n > 1)"
    by (cases rs; cases "tl rs") auto
  then show "leads b n 0 0 c (returnStmt K pos rs c)"
  proof cases
    case named
    have "leads b (next_slot c) 0 0 c (seq (map (\<lambda>(i, slot). if i < ?n then emitSigTypeCoerce K slot (Some (c_results c ! i)) pos else skip)
          (enumerate 0 (ch_NamedSlots (c_ch c))) @ [emit OpReturn (-1) 0 pos]) c)"
    proof (rule leads_seq_append [OF leads_seq_map0 leads_seq_simple [OF leads_return]], goal_cases)
      case (1 p c')
      then have "snd p \<in> set (ch_NamedSlots (c_ch c))" by (simp add: in_enumerate)
      then show ?case using slots wf by (auto simp: case_prod_beta leads_skip intro!: leads_emitSigTypeCoerce)
    qed simp
    then show ?thesis unfolding returnStmt_def Let_def by (simp add: named leads_slots)
  next
    case one
    then have "leads b n 0 (Suc 0) c (k_expr K r c)" using rs expr by simp
    moreover have "leads b n (Suc 0) (?n + Suc 0) c' (seq (map (sigTypeExpr K) (c_results c)) c')" for c'
      by (rule leads_seq_map1) (rule leads_sigTypeExpr [OF wf])
    moreover have "leads b n (?n + Suc 0) 0 c' (seq [emit OpCoerceN (int ?n) 0 p, emit3 OpUnpack (int ?n) 0 0 pos, emit OpReturn (int ?n) 0 pos] c')"
      for c' p
      by (rule leads_seqs leads_return leads_emit leads_emit3 | simp)+
    ultimately have "leads b n 0 0 c (seq ([k_expr K r] @ map (sigTypeExpr K) (c_results c) @
          [emit OpCoerceN (int ?n) 0 (pos_of r), emit3 OpUnpack (int ?n) 0 0 pos, emit OpReturn (int ?n) 0 pos]) c)"
      by (intro leads_seq_append leads_seq_simple)
    then show ?thesis unfolding returnStmt_def Let_def using one by simp
  next
    case all
    let ?val = "\<lambda>(i, r). if i < ?n then seq [k_expr K r, sigTypeExpr K (c_results c ! i), emit OpCoerceTop 0 0 (pos_of r)] else k_expr K r"
    have val: "leads b n h (Suc h) c' (?val p c')" if "p \<in> set (enumerate 0 rs)" for p h c'
    proof -
      obtain i r where p: "p = (i, r)" by fastforce
      then have r: "well_formed r" using that rs by (auto simp: enumerate_eq_zip list_all_iff dest: set_zip_rightD)
      have "leads b n h (Suc h) c' (seq [k_expr K r, sigTypeExpr K (c_results c ! i), emit OpCoerceTop 0 0 (pos_of r)] c')" if "i < ?n"
        by (rule leads_seqs leads_sigTypeExpr leads_emit expr r wf nth_mem that | simp)+
      then show ?thesis using expr [OF r] by (simp add: p)
    qed
    have "leads b n 0 (length (enumerate 0 rs) + 0) c (seq (map ?val (enumerate 0 rs)) c)" by (rule leads_seq_map1) (rule val)
    then have "leads b n 0 (length rs) c (seq (map ?val (enumerate 0 rs)) c)" by simp
    then have "leads b n 0 0 c (seq (map ?val (enumerate 0 rs) @ [emit OpReturn (int (length rs)) 0 pos]) c)"
      by (rule leads_seq_append [OF _ leads_seq_simple [OF leads_return]]) simp
    then show ?thesis unfolding returnStmt_def Let_def if_not_P [OF all(1)] if_not_P [OF all(2)] .
  qed
qed

lemma leads_callStmt:
  assumes e: "well_formed e" and opc: "opc = OpDefer \<or> opc = OpGo"
  shows "leads b n 0 0 c (callStmt hk K e opc pos c)"
proof (cases "\<exists>m f as. e = CallExpr m f as")
  case True
  then obtain m f as where ce: "e = CallExpr m f as" by blast
  have f: "well_formed f" and as: "list_all well_formed as" using e well_formed_child [OF e] by (auto simp: ce list_all_iff)
  have "leads b n (length as + (length as + Suc 0)) 0 c (emit opc (int (length as)) k pos c)" for k c
  proof -
    have "op_ok n (length as + (length as + Suc 0)) opc (int (length as)) k" "next_op (length as + (length as + Suc 0)) opc (int (length as)) k = 0"
      using opc by auto
    then show ?thesis using leads_emit [of n _ opc "int (length as)" k b c pos] by metis
  qed
  then have "leads b n 0 0 c (seq [calleeExpr hk K f, callArgs hk K as, argStatics hk K as,
      emit opc (int (length as)) (callSpread as (q_ellipsis hk e)) pos] c)"
    by (rule leads_seq_Cons [OF leads_calleeExpr [OF f] leads_seq_Cons [OF leads_callArgs [OF as]
        leads_seq_Cons [OF leads_argStatics [OF as] leads_seq_simple]]])
  then show ?thesis by (simp add: callStmt_def ce)
next
  case False
  then have "callStmt hk K e opc pos = crash" by (simp add: callStmt_def split: node.split)
  then show ?thesis by (simp add: leads_crash)
qed

lemma leads_incDec:
  assumes x: "well_formed x"
  shows "leads b n 0 0 c (incDec K pos x tok c)"
proof -
  let ?b = "binop_number (if tok = DEC then BinSub else BinAdd)" and ?xe = "unparen x"
  let ?ref = "if storageShape ?xe False
          then seq [k_ref K False ?xe, emit OpDup 0 0 (pos_of ?xe), emit OpDeref 0 0 (pos_of ?xe), emit_k OpConst (KUInt 1) 0 pos,
            emit OpBinary ?b 0 pos, emit OpSetRefs 1 0 pos]
          else trap pos ''++/-- is not supported''"
  have wf: "well_formed ?xe" using x by (rule well_formed_unparen)
  have "leads b n 0 0 c (seq [k_ref K False ?xe, emit OpDup 0 0 p, emit OpDeref 0 0 p, emit_k OpConst (KUInt 1) 0 pos,
            emit OpBinary ?b 0 pos, emit OpSetRefs 1 0 pos] c)" for p
    by (rule leads_seqs storage wf leads_emit leads_const | simp)+
  then have ref: "leads b n 0 0 c (?ref c)" by (simp add: leads_trap)
  have var: "leads b n 0 0 c (seq [getRef y p, emit_k OpConst (KUInt 1) 0 pos, emit OpBinary ?b 0 pos, setRef y p] c)" for y p
    by (rule leads_seqs leads_getRef leads_setRef leads_emit leads_const | simp)+
  show ?thesis
  proof (cases "\<exists>m y. ?xe = Ident m y")
    case True
    then show ?thesis using var by (auto simp: incDec_def Let_def)
  next
    case False
    then have "incDec K pos x tok = ?ref" unfolding incDec_def Let_def by (simp split: node.split)
    then show ?thesis using ref by simp
  qed
qed

section \<open>The switch over statements\<close>

lemma leads_stmt:
  assumes s: "well_formed s" and al: "allowed b s"
  shows "leads b n 0 0 c (stmt_body hk K s c)"
proof -
  have wf: "x \<in> set (children s) \<Longrightarrow> well_formed x" for x using s by (rule well_formed_child)
  have part: "x \<in> set (same_clause s) \<Longrightarrow> well_formed x \<and> allowed b x" for x
    using wf same_clause_children allowed_part [OF al] by blast
  note b = allowed_reach [OF al]
  show ?thesis
  proof (cases s)
    case (BlockStmt m ss)
    then have "leads b n 0 0 (push_block c) (stmts K ss (push_block c))"
      by (intro leads_stmts') (use part in \<open>simp_all add: list_all_iff same_clause_def\<close>)
    from leads_block [OF this] show ?thesis by (simp add: BlockStmt stmt_body_def seq_simps)
  next
    case (ExprStmt m x)
    then have "well_formed x" using wf by simp
    then show ?thesis by (simp add: ExprStmt stmt_body_def) (rule leads_seqs expr leads_emit | assumption | simp)+
  next
    case (SendStmt m ch v)
    then have "well_formed ch" "well_formed v" using wf by simp_all
    then show ?thesis by (simp add: SendStmt stmt_body_def) (rule leads_seqs expr leads_emit | assumption | simp)+
  next
    case (DeclStmt m d)
    then show ?thesis using wf leads_decl_stmt by (simp add: stmt_body_def)
  next
    case (AssignStmt m lhs tok rhs)
    then have "list_all well_formed lhs" "list_all well_formed rhs" "length rhs = length lhs \<or> length rhs = 1 \<and> 1 < length lhs"
      using wf s well_formed_iff [of s] by (simp_all add: list_all_iff local_ok_def)
    then show ?thesis using leads_assign by (simp add: AssignStmt stmt_body_def)
  next
    case (IncDecStmt m x tok)
    then show ?thesis using wf leads_incDec by (simp add: stmt_body_def)
  next
    case (IfStmt m i e b' el)
    then show ?thesis using wf part leads_ifStmt by (simp add: stmt_body_def same_clause_def)
  next
    case (ForStmt m i e p b')
    then have "list_all well_formed (block_list b')" "list_all (allowed b) (block_list b')"
      using part block_list_well_formed allowed_block by (simp_all add: same_clause_def)
    then have "leads b n 0 0 c (forStmt K (npos m) i e p b' c)"
      by (intro leads_forStmt) (use ForStmt wf part in \<open>simp_all add: same_clause_def\<close>)
    then show ?thesis by (simp add: ForStmt stmt_body_def)
  next
    case (RangeStmt m k v tok x b')
    then have "leads b n 0 0 c (rangeStmt hk K (npos m) k v tok x b' c)"
      by (intro leads_rangeStmt) (use wf part in \<open>simp_all add: same_clause_def\<close>)
    then show ?thesis by (simp add: RangeStmt stmt_body_def)
  next
    case (SwitchStmt m i t b')
    then have cl: "\<forall>s\<in>set (block_list b'). list_all well_formed (case_exprs s) \<and> list_all well_formed (case_body s)"
      using clauses_well_formed [OF wf, of b'] by simp
    have "leads b n 0 0 c (switchStmt hk K (npos m) i t b' c)"
      by (rule leads_switchStmt [OF _ _ cl b]) (use SwitchStmt wf part in \<open>simp_all add: same_clause_def\<close>)
    then show ?thesis by (simp add: SwitchStmt stmt_body_def)
  next
    case (TypeSwitchStmt m i a b')
    have "local_ok s" using s well_formed_iff by blast
    then have "list_all (\<lambda>s. list_all falls_free (case_body s)) (block_list b')" by (simp add: TypeSwitchStmt local_ok_def)
    then have cl: "\<forall>s\<in>set (block_list b'). list_all well_formed (case_exprs s) \<and> list_all well_formed (case_body s) \<and>
        list_all falls_free (case_body s)"
      using clauses_well_formed [OF wf, of b'] by (simp add: TypeSwitchStmt list_all_iff)
    have "leads b n 0 0 c (typeSwitchStmt K (npos m) i a b' c)"
      by (rule leads_typeSwitchStmt [OF _ _ cl b]) (use TypeSwitchStmt wf part in \<open>simp_all add: same_clause_def\<close>)
    then show ?thesis by (simp add: TypeSwitchStmt stmt_body_def)
  next
    case (SelectStmt m b')
    then have b': "well_formed b'" "allowed b b'" using part by (simp_all add: same_clause_def)
    have "list_all (allowed b) (comm_body s)" if "s \<in> set (block_list b')" for s
      using allowed_block [OF b'(2)] that by (intro comm_body_allowed) (simp add: list_all_iff)
    then have "leads b n 0 0 c (selectStmt hk K (npos m) b' c)"
      by (intro leads_selectStmt ballI) (use clauses_well_formed [OF b'(1)] in blast)
    then show ?thesis by (simp add: SelectStmt stmt_body_def)
  next
    case (ReturnStmt m rs)
    then have "list_all well_formed rs" using wf by (simp add: list_all_iff)
    then show ?thesis using leads_returnStmt by (simp add: ReturnStmt stmt_body_def)
  next
    case (BranchStmt m tok l)
    then show ?thesis using al leads_branchStmt by (simp add: stmt_body_def)
  next
    case (LabeledStmt m l b')
    then show ?thesis using part leads_labeledStmt by (simp add: stmt_body_def same_clause_def)
  next
    case (DeferStmt m e)
    then show ?thesis using wf leads_callStmt by (simp add: stmt_body_def)
  next
    case (GoStmt m e)
    then show ?thesis using wf leads_callStmt by (simp add: stmt_body_def)
  qed (simp_all add: stmt_body_def leads_trap leads_skip)
qed

lemma leads_lit_body:
  assumes e: "well_formed e" and lb: "base_ok lb"
  shows "leads b n h (Suc h) c (lit_body hk K lb d e c)"
proof (cases "\<exists>m t es. e = CompositeLit m t es")
  case True
  then obtain m t es where ce: "e = CompositeLit m t es" by blast
  then have "list_all well_formed es" using well_formed_child [OF e] by (simp add: list_all_iff)
  then show ?thesis using leads_compileLit [OF _ lb] by (simp add: ce lit_body_def)
next
  case False
  then have "lit_body hk K lb d e = crash" by (simp add: lit_body_def split: node.split)
  then show ?thesis by (simp add: leads_crash)
qed

text \<open>One more level of fuel keeps the contract.\<close>

lemma step_typed: "typed_comp hk (comp_step hk K)"
  by unfold_locales
    (simp_all add: comp_step_def leads_expr leads_type leads_refTarget leads_lit_body leads_stmt)

end

section \<open>The recursion\<close>

lemma fuel_typed:
  assumes "typed_hooks hk"
  shows "typed_comp hk (comp_n hk k)"
proof (induction k)
  case 0
  show ?case
    using assms by (simp add: typed_comp_def typed_comp_axioms_def leads_out_of_fuel)
next
  case (Suc k)
  then show ?case by (simp add: typed_comp.step_typed)
qed

section \<open>Whole functions\<close>

text \<open>What \<open>recvTypeExpr\<close> makes of a receiver's type is still a well-formed expression.\<close>

definition keeps_well_formed :: "(node option \<Rightarrow> node option) \<Rightarrow> bool" where
  "keeps_well_formed f \<longleftrightarrow> (\<forall>t t'. (\<forall>u. t = Some u \<longrightarrow> well_formed u) \<longrightarrow> f t = Some t' \<longrightarrow> well_formed t')"

lemma leads_declare_receiver: "leads b n h h c (snd (declare_receiver recvType d c))"
proof (cases "receiver_field d")
  case None
  then show ?thesis by (simp add: declare_receiver_def leads_refl)
next
  case (Some f)
  show ?thesis
    unfolding declare_receiver_def Some option.case Let_def case_prod_beta snd_conv
    by (rule leads_trans [OF leads_trans [OF leads_fresh leads_declare] leads_note_type])
qed

lemma note_type_slots [simp]: "next_slot (note_type x t c) = next_slot c" "c_fs (note_type x t c) = [] \<longleftrightarrow> c_fs c = []"
  by (simp_all add: note_type_def)

lemma declare_receiver_slots:
  assumes "c_fs c \<noteq> []" and "declare_receiver recvType d c = (rc, c1)" and "keeps_well_formed recvType" and "well_formed d"
  shows "c_fs c1 \<noteq> []" and "\<forall>p\<in>set rc. fst p < next_slot c1 \<and> (\<forall>t. snd p = Some t \<longrightarrow> well_formed t)"
    and "(if receiver_field d = None then 0 else 1) \<le> next_slot c1"
proof -
  have "c_fs c1 \<noteq> [] \<and> (\<forall>p\<in>set rc. fst p < next_slot c1 \<and> (\<forall>t. snd p = Some t \<longrightarrow> well_formed t)) \<and>
    (if receiver_field d = None then 0 else 1) \<le> next_slot c1"
  proof (cases "receiver_field d")
    case None
    then show ?thesis using assms(1,2) by (simp add: declare_receiver_def)
  next
    case (Some f)
    define t where "t = recvType (field_type f)"
    define c0 where "c0 = snd (fresh ''$recv'' c)"
    obtain m recv nm ft body where d: "d = FuncDecl m recv nm ft body" "f \<in> set (field_list recv)"
      using Some by (cases d) (auto simp: receiver_field_def split: list.splits)
    have "well_formed f"
    proof (cases recv)
      case (Some r)
      then have "well_formed r" using assms(4) d(1) by (intro well_formed_child [OF assms(4)]) simp
      moreover have "f \<in> set (children r)" using d(2) Some by (cases r) (auto simp: field_list_def)
      ultimately show ?thesis by (rule well_formed_child)
    qed (use d(2) in \<open>simp add: field_list_def\<close>)
    then have "well_formed u" if "t = Some u" for u
      using assms(3) field_type_well_formed that unfolding keeps_well_formed_def t_def by blast
    moreover have "rc = (if t = None then [] else [(next_slot c0, t)])" "\<exists>x p. c1 = note_type x t (declare_local x p c0)"
      using assms(2) unfolding declare_receiver_def Some option.case Let_def case_prod_beta t_def [symmetric] c0_def [symmetric]
      by auto
    moreover have "c_fs c0 \<noteq> []" using assms(1) by (simp add: c0_def)
    ultimately show ?thesis by auto
  qed
  then show "c_fs c1 \<noteq> []" and "\<forall>p\<in>set rc. fst p < next_slot c1 \<and> (\<forall>t. snd p = Some t \<longrightarrow> well_formed t)"
    and "(if receiver_field d = None then 0 else 1) \<le> next_slot c1" by blast+
qed

text \<open>The state a function is compiled from.\<close>

definition new_compiler :: "index option \<Rightarrow> string \<Rightarrow> (string \<rightharpoonup> 't) \<Rightarrow> string \<Rightarrow> 't cstate" where
  "new_compiler ix pkg bs name =
       \<lparr>c_fs = [newFScope],
        c_ch = \<lparr>ch_Name = name, ch_Code = [], ch_Consts = [], ch_NLocals = 0, ch_NParams = 0, ch_NResults = 0,
          ch_NamedSlots = [], ch_Upvals = [], ch_IsVararg = False, ch_Escapes = 0\<rparr>,
        c_ctrl = [], c_binds = bs, c_index = ix, c_results = [], c_labels = Map.empty, c_pendingGotos = [],
        c_pendingLabels = [], c_falls = [], c_inClause = False, c_symName = pkg @ ''.'' @ name, c_litCount = 0,
        c_iotaVal = None, c_synthSeq = 0, c_funs = [], c_oof = False, c_crash = False\<rparr>"

lemma fresh_new_compiler: "fresh_function (push_block (new_compiler ix pkg bs name))"
  by (auto simp: fresh_function_def typed_def flows_def bounded_def push_block_def new_compiler_def on_scope_def here_def holes_def
      recorded_def pushBlock_def newFScope_def next_slot_def cur_scope_def scope_bound_def funs_typed_def)

lemma leads_seq_concat1:
  "(\<And>x c h. x \<in> set xs \<Longrightarrow> leads b n h (Suc h) c (seq (f x) c)) \<Longrightarrow> leads b n h (length xs + h) c (seq (concat (map f xs)) c)"
proof (induction xs arbitrary: h c)
  case (Cons x xs)
  have "leads b n (Suc h) (length (x # xs) + h) c (seq (concat (map f xs)) c)" for c
    using Cons.IH [of "Suc h" c] Cons.prems by simp
  moreover have "leads b n h (Suc h) c (seq (f x) c)" by (rule Cons.prems) simp
  ultimately show ?case by (simp only: list.map concat.simps) (rule leads_seq_append)
qed (simp add: leads_seq_Nil)

lemma compileFunc_start:
  "compileFunc hk n recvType ix pkg bs name d = function_body hk (comp_n hk n) recvType d (new_compiler ix pkg bs name)"
  by (simp add: compileFunc_def new_compiler_def)

context typed_comp
begin

lemma leads_zero_results: "leads b n 0 (length (c_results c)) c (zero_results K pos c)"
proof (rule leads_bounded)
  assume "bounded c"
  then have wf: "t \<in> set (c_results c) \<Longrightarrow> well_formed t" for t by (simp add: bounded_def list_all_iff)
  have "leads b n h (Suc h) c' (seq [emit OpNil 0 0 pos, sigTypeExpr K t, emit OpCoerceTop 0 0 pos] c')" if "t \<in> set (c_results c)" for t h c'
    by (rule leads_seqs leads_sigTypeExpr leads_emit wf that | simp)+
  from leads_seq_concat1 [where xs = "c_results c" and h = 0, OF this]
  show "leads b n 0 (length (c_results c)) c (zero_results K pos c)" by (simp add: zero_results_def)
qed

lemma function_done_start:
  assumes d: "well_formed d" and recv: "keeps_well_formed recvType"
  shows "function_done (push_block (new_compiler ix pkg bs name)) (function_body hk K recvType d (new_compiler ix pkg bs name))"
proof -
  let ?c = "push_block (new_compiler ix pkg bs name)"
  define rc where "rc = fst (declare_receiver recvType d ?c)"
  define c1 where "c1 = snd (declare_receiver recvType d ?c)"
  define ft where "ft = fd_type d"
  define iface where "iface = (\<lambda>c t. case t of Some t \<Rightarrow> isIfaceTypeExpr hk c t | None \<Rightarrow> False)"
  define ps where "ps = fst (declare_params iface (field_list (ft_Params ft)) c1)"
  define c2 where "c2 = snd (declare_params iface (field_list (ft_Params ft)) c1)"
  let ?k = "if receiver_field d = None then 0 else 1"
  let ?pre = "[set_nparams (?k + length ps), emitParamCoerces K (rc @ ps), named_results K iface (field_list (ft_Results ft)),
    set_results (field_list (ft_Results ft))]"
  define c3 where "c3 = seq ?pre c2"
  have fresh: "fresh_function ?c" by (rule fresh_new_compiler)
  have "c_fs ?c \<noteq> []" by (simp add: push_block_def new_compiler_def)
  note slots = declare_receiver_slots [OF this _ recv d, of rc c1]
  have rc: "declare_receiver recvType d ?c = (rc, c1)" by (simp add: rc_def c1_def)
  have 1: "leads b n 0 0 ?c c1" for b n unfolding c1_def by (rule leads_declare_receiver)
  have wf: "well_formed ft"
    using d well_formed_child [OF d] by (cases d) (simp_all add: ft_def fd_type_def)
  have ps: "declare_params iface (field_list (ft_Params ft)) c1 = (ps, c2)" by (simp add: ps_def c2_def)
  have start: "leads b n 0 h c1 (seq (?pre @ rest) c2)" if "\<And>n c. leads b n 0 h c (seq rest c)" for b n h rest
    by (rule leads_function [OF slots(1) slots(2) wf ps _ that]) (use rc slots(3) in simp_all)
  have 3: "leads b n 0 0 ?c c3" for b n
    using leads_trans [OF 1 start [of b 0 "[]"]] by (simp add: c3_def leads_seq_Nil)
  show ?thesis
  proof (cases "fd_body d")
    case None
    have "leads InExpr 0 0 (length (c_results c3)) ?c (zero_results K (end_of d) c3)"
      by (rule leads_trans [OF 3 leads_zero_results])
    from function_done_plain [OF fresh this]
    show ?thesis
      unfolding function_body_def Let_def case_prod_beta None option.case
      by (simp add: rc_def [symmetric] c1_def [symmetric] ft_def [symmetric] iface_def [symmetric] ps_def [symmetric] c2_def [symmetric]
          c3_def seq_simps)
  next
    case (Some body)
    have "well_formed body" using Some d well_formed_child [OF d] by (cases d) (auto simp: fd_body_def)
    then have "leads InClause n 0 0 c (seq (map (k_stmt K) (block_list body)) c)" for n c
      using leads_stmts [OF block_list_well_formed] by (simp add: list_all_iff allowed_def)
    then have "leads InClause 0 0 0 ?c (seq (map (k_stmt K) (block_list body)) c3)" by (rule leads_trans [OF 3])
    from function_done_body [OF fresh this]
    show ?thesis
      unfolding function_body_def Let_def case_prod_beta Some option.case
      by (simp add: rc_def [symmetric] c1_def [symmetric] ft_def [symmetric] iface_def [symmetric] ps_def [symmetric] c2_def [symmetric]
          c3_def seq_simps)
  qed
qed

end

end
