(* ===== verification/CompiledCode.thy ===== *)
theory CompiledCode
  imports CompileTyped
begin

text \<open>
  Compiled code on the machine: the chunks of a compiled function and of the literals in it, once their constants stand
  for values of the machine, run without ever missing an operand, a local, a captured cell or a constant.
\<close>

section \<open>Loading\<close>

text \<open>\<open>lk\<close> gives the value a constant of the compiler stands for; the functions among them have loaded chunks.\<close>

definition load_chunk :: "('c \<Rightarrow> val) \<Rightarrow> 'c chunk \<Rightarrow> val chunk" where
  "load_chunk lk ch =
     \<lparr>ch_Name = ch_Name ch, ch_Code = ch_Code ch, ch_Consts = map lk (ch_Consts ch), ch_NLocals = ch_NLocals ch,
      ch_NParams = ch_NParams ch, ch_NResults = ch_NResults ch, ch_NamedSlots = ch_NamedSlots ch, ch_Upvals = ch_Upvals ch,
      ch_IsVararg = ch_IsVararg ch, ch_Escapes = ch_Escapes ch\<rparr>"

definition links :: "('t konst \<Rightarrow> val) \<Rightarrow> 't konst chunk list \<Rightarrow> hooks \<Rightarrow> bool" where
  "links lk fs hk \<longleftrightarrow>
     (\<forall>x. lk (KStr x) = VStr x) \<and>
     (\<forall>j < length fs. \<exists>m. lk (KFun j) = VFun m \<and> fn_Chunk (hk_fun hk m) = load_chunk lk (fs ! j))"

lemma load_chunk_sel [simp]:
  "ch_Code (load_chunk lk ch) = ch_Code ch" "ch_Consts (load_chunk lk ch) = map lk (ch_Consts ch)"
  "ch_NLocals (load_chunk lk ch) = ch_NLocals ch" "ch_NParams (load_chunk lk ch) = ch_NParams ch"
  "ch_NamedSlots (load_chunk lk ch) = ch_NamedSlots ch" "ch_Upvals (load_chunk lk ch) = ch_Upvals ch"
  by (simp_all add: load_chunk_def)

lemma operands_load:
  assumes ok: "operands_ok nl nu nm fn ks ins" and nm: "\<And>k. nm k \<Longrightarrow> nm' (lk k)" and fn: "\<And>k ds. fn k = Some ds \<Longrightarrow> fn' (lk k) = Some ds"
  shows "operands_ok nl nu nm' fn' (map lk ks) ins"
proof (cases "i_Op ins = OpMakeClosure")
  case True
  then obtain ds where "fn (ks ! arg_A ins) = Some ds" "captures_ok nl nu ds" "0 \<le> i_A ins" "arg_A ins < length ks"
    using ok by (auto simp: operands_ok_def Let_def split: option.splits)
  then show ?thesis using True fn by (simp add: operands_ok_def Let_def)
next
  case False
  then show ?thesis using ok nm by (cases "i_Op ins"; simp only: operands_ok_def Let_def op.case) auto
qed

lemma chunk_load:
  assumes "chunk_typed nm fn ch ht" and "\<And>k. nm k \<Longrightarrow> nm' (lk k)" and "\<And>k ds. fn k = Some ds \<Longrightarrow> fn' (lk k) = Some ds"
  shows "chunk_typed nm' fn' (load_chunk lk ch) ht"
proof -
  have "operands_ok nl nu nm fn ks ins \<Longrightarrow> operands_ok nl nu nm' fn' (map lk ks) ins" for nl nu ks ins
    using operands_load [where nm' = nm' and fn' = fn' and lk = lk] assms(2,3) by metis
  then show ?thesis using assms(1) by (auto simp: chunk_typed_def)
qed

lemma linked_typed:
  assumes "links lk fs hk" and "chunk_typed name_const (fun_upvals fs) ch ht"
  shows "chunk_typed is_name (captured_by hk) (load_chunk lk ch) ht"
proof (rule chunk_load [OF assms(2)])
  show "is_name (lk k)" if "name_const k" for k
    using that assms(1) by (auto simp: name_const_def links_def is_name_def split: konst.splits)
  show "captured_by hk (lk k) = Some ds" if "fun_upvals fs k = Some ds" for k ds
    using that assms(1) by (force simp: fun_upvals_def links_def captured_by_def split: konst.splits if_splits)
qed

section \<open>Running\<close>

text \<open>
  The states of a frame while its function runs: whatever other frames do to the store meanwhile, and whatever the calls
  it makes return. An instruction that needs the type machinery takes and leaves what the tables of the type system say,
  with any values; it may rebind locals, and a select may choose any of its arms.
\<close>

inductive frame_runs :: "hooks \<Rightarrow> frame \<Rightarrow> frame \<Rightarrow> bool" for hk f0 where
  start: "frame_runs hk f0 f0"
| next_ins: "frame_runs hk f0 f \<Longrightarrow> fr_ip f < length (ch_Code (fr_ch f)) \<Longrightarrow> ins = ch_Code (fr_ch f) ! fr_ip f \<Longrightarrow>
    step_ins hk s (f\<lparr>fr_ip := Suc (fr_ip f)\<rparr>) ins = Next s' f' \<Longrightarrow> frame_runs hk f0 f'"
| returned: "frame_runs hk f0 f \<Longrightarrow> fr_ip f < length (ch_Code (fr_ch f)) \<Longrightarrow> ins = ch_Code (fr_ch f) ! fr_ip f \<Longrightarrow>
    step_ins hk s (f\<lparr>fr_ip := Suc (fr_ip f)\<rparr>) ins = Invoke fn args s' f' \<Longrightarrow> frame_runs hk f0 (push r f')"
| opaque_next: "frame_runs hk f0 f \<Longrightarrow> fr_ip f < length (ch_Code (fr_ch f)) \<Longrightarrow> ins = ch_Code (fr_ch f) ! fr_ip f \<Longrightarrow>
    step_ins hk s (f\<lparr>fr_ip := Suc (fr_ip f)\<rparr>) ins = Stuck \<Longrightarrow> falls_to ins = Some (p, q) \<Longrightarrow> length vs = q \<Longrightarrow>
    length ls = length (fr_locals f) \<Longrightarrow>
    frame_runs hk f0 (f\<lparr>fr_ip := Suc (fr_ip f), fr_stack := vs @ drop p (fr_stack f), fr_locals := ls\<rparr>)"
| opaque_jump: "frame_runs hk f0 f \<Longrightarrow> fr_ip f < length (ch_Code (fr_ch f)) \<Longrightarrow> ins = ch_Code (fr_ch f) ! fr_ip f \<Longrightarrow>
    step_ins hk s (f\<lparr>fr_ip := Suc (fr_ip f)\<rparr>) ins = Stuck \<Longrightarrow> branches_to ins = Some (p, q) \<Longrightarrow> length vs = q \<Longrightarrow>
    length ls = length (fr_locals f) \<Longrightarrow>
    frame_runs hk f0 (f\<lparr>fr_ip := arg_A ins, fr_stack := vs @ drop p (fr_stack f), fr_locals := ls\<rparr>)"
| select: "frame_runs hk f0 f \<Longrightarrow> fr_ip f < length (ch_Code (fr_ch f)) \<Longrightarrow> ins = ch_Code (fr_ch f) ! fr_ip f \<Longrightarrow>
    i_Op ins = OpSelWait \<Longrightarrow> n = arg_A ins \<Longrightarrow> k < n + (if i_B ins = 1 then 1 else 0) \<Longrightarrow>
    length vs = (if k < n \<and> \<not> arms_before (ch_Code (fr_ch f)) (fr_ip f) n ! k then 1 else 0) \<Longrightarrow>
    frame_runs hk f0 (f\<lparr>fr_ip := fr_ip f + 1 + k, fr_stack := vs @ drop n (fr_stack f)\<rparr>)"

lemma ready_select:
  assumes r: "ready hk ht f ins" and op: "i_Op ins = OpSelWait"
  shows "select_ok (ch_Code (fr_ch f)) ht (fr_ip f)"
  using ready_flow [OF r] op ready_shape(4) [OF r] by (simp add: flow_ok_def Let_def)

lemma typed_select:
  assumes r: "ready hk ht f ins" and op: "i_Op ins = OpSelWait" and n: "n = arg_A ins"
    and k: "k < n + (if i_B ins = 1 then 1 else 0)"
    and vs: "length vs = (if k < n \<and> \<not> arms_before (ch_Code (fr_ch f)) (fr_ip f) n ! k then 1 else 0)"
  shows "frame_typed hk ht (f\<lparr>fr_ip := fr_ip f + 1 + k, fr_stack := vs @ drop n (fr_stack f)\<rparr>)"
proof -
  note ok = ready_select [OF r op, unfolded select_ok_def Let_def ready_shape(4) [OF r, symmetric] n [symmetric]]
  have h: "ht ! (fr_ip f + 1 + k) = length (vs @ drop n (fr_stack f))"
  proof (cases "k < n")
    case True
    then show ?thesis using ok vs ready_shape(3) [OF r] by auto
  next
    case False
    then have "i_B ins = 1" "k = n" using k by (auto split: if_splits)
    then show ?thesis using ok vs ready_shape(3) [OF r] by auto
  qed
  have "fr_ip f + 1 + k < length ht" using ok k by (auto split: if_splits)
  then show ?thesis by (intro ready_frame [OF r]) (use h in simp_all)
qed

lemma frame_runs_typed:
  assumes "frame_runs hk f0 f" and "frame_typed hk ht f0" and quiet: "hooks_quiet hk"
  shows "frame_typed hk ht f"
  using assms(1)
proof induction
  case start
  show ?case by (rule assms(2))
next
  case (next_ins f ins s s' f')
  then show ?case using typed_ins [OF next_ins.IH next_ins.hyps(2) quiet, of s] by simp
next
  case (returned f ins s fn args s' f' r)
  then show ?case using typed_ins [OF returned.IH returned.hyps(2) quiet, of s] by simp
next
  case (opaque_next f ins s p q vs ls)
  then have "ready hk ht f ins" by (simp add: ready_def)
  then show ?case by (rule ready_next) (use opaque_next.hyps in simp_all)
next
  case (opaque_jump f ins s p q vs ls)
  then have "ready hk ht f ins" by (simp add: ready_def)
  then show ?case by (rule ready_branch) (use opaque_jump.hyps in simp_all)
next
  case (select f ins n k vs)
  then have "ready hk ht f ins" by (simp add: ready_def)
  then show ?case by (rule typed_select) (use select.hyps in simp_all)
qed

lemma new_cells_length: "length (fst (new_cells xs s)) = length xs"
  by (induction xs arbitrary: s) (simp_all add: Let_def case_prod_beta)

lemma entry_typed:
  assumes "chunk_typed is_name (captured_by hk) (fn_Chunk (hk_fun hk m)) ht" and "prep_fun hk m ups args s = Frame f s'"
    and "length ups = length (ch_Upvals (fn_Chunk (hk_fun hk m)))"
  shows "frame_typed hk ht f"
proof -
  let ?ch = "fn_Chunk (hk_fun hk m)"
  have n: "ch_NParams ?ch \<le> ch_NLocals ?ch" and h: "ht ! 0 = 0" using assms(1) by (simp_all add: chunk_typed_def)
  have f: "fr_ch f = ?ch" "fr_locals f = fst (new_cells (param_values hk ?ch args) s)" "fr_upvals f = ups" "fr_stack f = []" "fr_ip f = 0"
    using assms(2) by (auto simp: prep_fun_def Let_def case_prod_beta split: if_splits)
  have "length (param_values hk ?ch args) = ch_NLocals ?ch" using n by (simp add: param_values_def Let_def)
  then show ?thesis using assms(1,3) h by (simp add: frame_typed_def f new_cells_length)
qed

section \<open>Compiled functions\<close>

text \<open>
  What holds at every moment of a run, \<open>ht\<close> giving the height of the operand stack at each position of the code: the
  stack has that height, it holds all that the instruction about to run takes, the locals, captured cells and constants
  the instruction names are there, and it does not end in one of the machine's own host panics, the implicit return at
  the end of a function excepted.
\<close>

definition sound_at :: "hooks \<Rightarrow> nat list \<Rightarrow> frame \<Rightarrow> bool" where
  "sound_at hk ht f \<longleftrightarrow>
     fr_ip f \<le> length (ch_Code (fr_ch f)) \<and>
     (fr_ip f < length (ch_Code (fr_ch f)) \<longrightarrow>
        (let ins = ch_Code (fr_ch f) ! fr_ip f in
         length (fr_stack f) = ht ! fr_ip f \<and>
         (\<forall>p q. falls_to ins = Some (p, q) \<or> branches_to ins = Some (p, q) \<longrightarrow> p \<le> length (fr_stack f)) \<and>
         operands_ok (length (fr_locals f)) (length (fr_upvals f)) is_name (captured_by hk) (ch_Consts (fr_ch f)) ins \<and>
         (\<forall>s e s' f'. step_ins hk s (f\<lparr>fr_ip := Suc (fr_ip f)\<rparr>) ins = Throw e s' f' \<longrightarrow> e \<in> EHost ` set own_panics \<longrightarrow>
            i_Op ins = OpReturn \<and> Suc (fr_ip f) = length (ch_Code (fr_ch f)))))"

lemma typed_sound:
  assumes "frame_typed hk ht f" and "hooks_quiet hk"
  shows "sound_at hk ht f"
proof -
  let ?ins = "ch_Code (fr_ch f) ! fr_ip f"
  have "length (fr_stack f) = ht ! fr_ip f \<and>
      (\<forall>p q. falls_to ?ins = Some (p, q) \<or> branches_to ?ins = Some (p, q) \<longrightarrow> p \<le> length (fr_stack f)) \<and>
      operands_ok (length (fr_locals f)) (length (fr_upvals f)) is_name (captured_by hk) (ch_Consts (fr_ch f)) ?ins \<and>
      (\<forall>s e s' f'. step_ins hk s (past f) ?ins = Throw e s' f' \<longrightarrow> e \<in> EHost ` set own_panics \<longrightarrow>
         i_Op ?ins = OpReturn \<and> Suc (fr_ip f) = length (ch_Code (fr_ch f)))"
    if ip: "fr_ip f < length (ch_Code (fr_ch f))"
  proof (intro conjI allI impI)
    have r: "ready hk ht f ?ins" using assms(1) ip by (simp add: ready_def)
    show "length (fr_stack f) = ht ! fr_ip f" using ready_shape(3) [OF r] by simp
    show "p \<le> length (fr_stack f)" if "falls_to ?ins = Some (p, q) \<or> branches_to ?ins = Some (p, q)" for p q
      using that ready_takes [OF r] by (auto simp: takes_the)
    show "operands_ok (length (fr_locals f)) (length (fr_upvals f)) is_name (captured_by hk) (ch_Consts (fr_ch f)) ?ins"
      by (rule ready_operands [OF r])
    show "i_Op ?ins = OpReturn" and "Suc (fr_ip f) = length (ch_Code (fr_ch f))"
      if "step_ins hk s (past f) ?ins = Throw e s' f'" and "e \<in> EHost ` set own_panics" for s e s' f'
      using typed_ins [OF assms(1) ip assms(2), of s] that by simp_all
  qed
  moreover have "fr_ip f \<le> length (ch_Code (fr_ch f))" using assms(1) by (simp add: frame_typed_def)
  ultimately show ?thesis unfolding sound_at_def Let_def by blast
qed

text \<open>Every chunk of a compilation that is done, its own and those of its literals, runs soundly once loaded.\<close>

lemma loaded_sound:
  assumes typed: "\<exists>ht. chunk_typed name_const (fun_upvals (c_funs c)) (c_ch c) ht" "funs_typed (c_funs c)"
    and loaded: "links lk (c_funs c) hk" "ch \<in> set (c_ch c # c_funs c)" "fn_Chunk (hk_fun hk m) = load_chunk lk ch"
    and quiet: "hooks_quiet hk"
    and entry: "prep_fun hk m ups args s = Frame f0 s'" "length ups = length (ch_Upvals ch)"
  shows "\<exists>ht. \<forall>f. frame_runs hk f0 f \<longrightarrow> sound_at hk ht f"
proof -
  obtain ht where "chunk_typed name_const (fun_upvals (c_funs c)) ch ht" using typed loaded(2) by (auto simp: funs_typed_def)
  from linked_typed [OF loaded(1) this] have "frame_typed hk ht f0"
    by (intro entry_typed [OF _ entry(1)]) (simp_all add: loaded(3) entry(2))
  then show ?thesis using frame_runs_typed quiet typed_sound by blast
qed

lemma compileFunc_done:
  assumes "typed_hooks q" and "well_formed d" and "keeps_well_formed recvType" and "c = compileFunc q n recvType ix pkg bs name d"
  shows "\<exists>ht. chunk_typed name_const (fun_upvals (c_funs c)) (c_ch c) ht" and "funs_typed (c_funs c)"
  using typed_comp.function_done_start [OF fuel_typed [OF assms(1)] assms(2,3)]
  unfolding assms(4) compileFunc_start function_done_def by blast+

text \<open>
  C18: The code the compiler makes of a function, and of every literal in it, is safe on the machine: whatever the functions
  it calls do to the store and return, at every position the operand stack has the one height fixed for it, and no
  instruction finds the stack empty, a local, captured cell or constant out of range, or a constant of the wrong kind,
  the implicit return at the end of a function excepted.
\<close>

theorem compiled_code_safe:
  assumes "typed_hooks q" and "well_formed d" and "keeps_well_formed recvType"
    and "c = compileFunc q n recvType ix pkg bs name d"
    and "links lk (c_funs c) hk" and "hooks_quiet hk"
    and "ch \<in> set (c_ch c # c_funs c)" and "fn_Chunk (hk_fun hk m) = load_chunk lk ch"
    and "prep_fun hk m ups args s = Frame f0 s'" and "length ups = length (ch_Upvals ch)"
  shows "\<exists>ht. \<forall>f. frame_runs hk f0 f \<longrightarrow> sound_at hk ht f"
  by (rule loaded_sound [OF compileFunc_done [OF assms(1-4)] assms(5,7,8,6,9,10)])

section \<open>A function\<close>

text \<open>Hooks that know nothing of types and constants.\<close>

definition plain_chooks :: "nat chooks" where
  "plain_chooks =
     \<lparr>q_tdef = (\<lambda>e c. 0), q_fold = (\<lambda>e c. NoFold), q_constOperand = (\<lambda>e c. None), q_constValue = (\<lambda>e. None),
      q_badLit = (\<lambda>k v. None), q_opGate = (\<lambda>x y e c. None),
      q_staticOpTyp = (\<lambda>e c. \<lparr>t_te = None, t_untyped = False, t_iface = False, t_dte = None\<rparr>),
      q_nthResult = (\<lambda>e i c. \<lparr>t_te = None, t_untyped = False, t_iface = False, t_dte = None\<rparr>),
      q_inferredBind = (\<lambda>k rhs i c. None), q_isIfaceName = (\<lambda>x c. False), q_isIfaceGlobal = (\<lambda>x c. False),
      q_importRef = (\<lambda>x c. None), q_selIsType = (\<lambda>path x c. False), q_isConst = (\<lambda>e c. False), q_nonConst = (\<lambda>e c. True),
      q_mapLit = (\<lambda>t c. False), q_litTypeAt = (\<lambda>t i c. (None, False)), q_logicalNamed = (\<lambda>e c. None),
      q_bareScalar = (\<lambda>e c. True), q_rangeVarTyps = (\<lambda>e c. (None, None)), q_chanElem = (\<lambda>e c. None),
      q_ellipsis = (\<lambda>e. False), q_brack = pos_of, q_special = (\<lambda>path x. None), q_quote = (\<lambda>e ls us. 0)\<rparr>"

interpretation plain_types: typed_hooks plain_chooks
  by unfold_locales (simp_all add: plain_chooks_def)

interpretation plain: typed_comp plain_chooks "comp_n plain_chooks n" for n
  by (rule fuel_typed [OF plain_types.typed_hooks_axioms])

text \<open>\<open>func f() \<lbrace> x++ \<rbrace>\<close> for a variable of the package.\<close>

definition counter_decl :: node where
  "counter_decl =
     FuncDecl (Meta 0 0 0) None (Ident (Meta 1 1 1) ''f'')
       (FuncType (Meta 2 2 2) None (Some (FieldList (Meta 3 3 3) [])) None)
       (Some (BlockStmt (Meta 4 4 4) [IncDecStmt (Meta 5 5 5) (Ident (Meta 6 6 6) ''x'') INC]))"

definition counter_code :: "nat cstate" where
  "counter_code = compileFunc plain_chooks 1 (\<lambda>t. t) None ''p'' Map.empty ''f'' counter_decl"

definition plain_link :: "nat konst \<Rightarrow> val" where
  "plain_link k = (case k of KStr x \<Rightarrow> VStr x | _ \<Rightarrow> VNil)"

definition running :: "nat konst chunk \<Rightarrow> hooks" where
  "running ch = plain_hooks\<lparr>hk_fun := (\<lambda>m. \<lparr>fn_Name = ch_Name ch, fn_Qual = [], fn_Recv = [], fn_PtrRecv = False,
     fn_Chunk = load_chunk plain_link ch\<rparr>)\<rparr>"

definition start_state :: mstate where
  "start_state =
     \<lparr>m_heap = [], m_panics = [], m_globals = Map.empty, m_frames = [], m_inflight = None, m_unwindDepth = 0,
      m_consumed = None, m_draining = 0, m_unwinding = [], m_hasProc = True, m_done = False, m_fatal = None,
      m_syncCall = False\<rparr>"

lemmas state_defs =
  push_block_def on_scope_def pushBlock_def newFScope_def Let_def fs_declare_def put_def in_some_block_def bind_at_def
  declare_local_def next_slot_def cur_scope_def seq_simps emit_def emit_k_def skip_def sites_def getRef_def setRef_def
  with_ref_def lookupLocal_def

lemmas function_defs =
  compileFunc_def function_body_def fd_type_def field_list_def field_names_def field_type_def ft_Params_def ft_Results_def
  fd_body_def declare_receiver_def receiver_field_def block_list_def set_nparams_def set_results_def resolveGotos_def
  finish_function_def emitParamCoerces_def named_results_def resultTypes_def countResults_def


lemma counter_evaluated:
  "counter_code =
     \<lparr>c_fs = [\<lparr>fs_blocks = [[]], fs_blockIDs = [1], fs_nextID = 1, fs_iota = None, fs_nlocals = 0, fs_upvals = [],
        fs_upmap = Map.empty\<rparr>],
      c_ch = \<lparr>ch_Name = ''f'',
      ch_Code =
        [\<lparr>i_Op = OpGlobal, i_A = 0, i_B = 0, i_C = 0, i_Pos = 6\<rparr>, \<lparr>i_Op = OpConst, i_A = 1, i_B = 0, i_C = -1, i_Pos = 5\<rparr>,
         \<lparr>i_Op = OpBinary, i_A = binop_number BinAdd, i_B = 0, i_C = -1, i_Pos = 5\<rparr>,
         \<lparr>i_Op = OpSetGlobal, i_A = 2, i_B = 0, i_C = -1, i_Pos = 6\<rparr>, \<lparr>i_Op = OpReturn, i_A = 0, i_B = 0, i_C = -1, i_Pos = 0\<rparr>],
      ch_Consts = [KStr ''x'', KUInt 1, KStr ''x''], ch_NLocals = 0, ch_NParams = 0, ch_NResults = 0, ch_NamedSlots = [],
      ch_Upvals = [], ch_IsVararg = False, ch_Escapes = 0\<rparr>,
      c_ctrl = [], c_binds = Map.empty, c_index = None, c_results = [], c_labels = Map.empty, c_pendingGotos = [],
      c_pendingLabels = [], c_falls = [], c_inClause = False, c_symName = ''p.f'', c_litCount = 0, c_iotaVal = None,
      c_synthSeq = 0, c_funs = [], c_oof = False, c_crash = False\<rparr>"
  by (simp add: counter_code_def counter_decl_def state_defs function_defs comp_step_def stmt_body_def incDec_def)

lemma counter_compiled:
  "map i_Op (ch_Code (c_ch counter_code)) = [OpGlobal, OpConst, OpBinary, OpSetGlobal, OpReturn] \<and>
   c_funs counter_code = [] \<and> ch_NParams (c_ch counter_code) = 0 \<and> ch_Upvals (c_ch counter_code) = [] \<and>
   \<not> ch_IsVararg (c_ch counter_code) \<and> \<not> c_oof counter_code \<and> \<not> c_crash counter_code"
  by (simp add: counter_evaluated)

lemma running_enters:
  assumes "ch_NParams ch = 0" and "\<not> ch_IsVararg ch"
  obtains f s where "prep_fun (running ch) 0 [] [] start_state = Frame f s" and "fr_ch f = load_chunk plain_link ch"
  using assms by (auto simp: prep_fun_def running_def start_state_def maxFrames_def load_chunk_def case_prod_beta Let_def)

lemma running_quiet: "hooks_quiet (running ch)" "links plain_link [] (running ch)"
  "fn_Chunk (hk_fun (running ch) 0) = load_chunk plain_link ch"
  by (simp_all add: hooks_quiet_def links_def running_def plain_hooks_def plain_link_def)

theorem compiled_code_safe_witness:
  "\<exists>f s ht. prep_fun (running (c_ch counter_code)) 0 [] [] start_state = Frame f s \<and>
     map i_Op (ch_Code (fr_ch f)) = [OpGlobal, OpConst, OpBinary, OpSetGlobal, OpReturn] \<and>
     (\<forall>f'. frame_runs (running (c_ch counter_code)) f f' \<longrightarrow> sound_at (running (c_ch counter_code)) ht f')"
proof -
  let ?hk = "running (c_ch counter_code)"
  note compiled = counter_compiled [THEN conjunct1] counter_compiled [THEN conjunct2]
  obtain f s where f: "prep_fun ?hk 0 [] [] start_state = Frame f s" "fr_ch f = load_chunk plain_link (c_ch counter_code)"
    using running_enters [of "c_ch counter_code"] compiled by blast
  have wf: "well_formed counter_decl"
    by code_simp
  have "keeps_well_formed (\<lambda>t. t)" by (simp add: keeps_well_formed_def)
  from compiled_code_safe [OF plain_types.typed_hooks_axioms wf this counter_code_def _ running_quiet(1) _ running_quiet(3) f(1)]
  obtain ht where "\<forall>f'. frame_runs ?hk f f' \<longrightarrow> sound_at ?hk ht f'" using compiled running_quiet(2) by auto
  then show ?thesis using f compiled(1) by auto
qed

end
