(* ===== verification/InitOrder.thy ===== *)
theory InitOrder
  imports Index "HOL-Library.Multiset"
begin

text \<open>
  The order in which a package initializes its variables and constants (\<open>compile/compile.go\<close>:
  \<open>orderSpecs\<close>, the loops over the specs in \<open>InitFunc\<close> and \<open>ConstInitFunc\<close>, \<open>constRefsVarOrFunc\<close>).
  Which names an initializer reaches is collected while ranging over maps that grow meanwhile: Go leaves
  open in which order a range visits the entries and whether it visits those added to it, so this part is
  a step relation, and \<open>ts\<close> lists the types of the package in the order a range over them meets them. The
  order itself is a function of the dependencies.
\<close>

section \<open>Names of the package\<close>

definition idents :: "node \<Rightarrow> string list" where
  "idents n = concat (map (\<lambda>k. case k of Ident m x \<Rightarrow> [x] | _ \<Rightarrow> []) (preorder n))"

definition declared :: "index \<Rightarrow> string \<Rightarrow> bool" where
  "declared ix x \<longleftrightarrow> ix_Vars ix x \<noteq> None \<or> ix_Consts ix x \<noteq> None"

text \<open>A method name stands for the first method of that name.\<close>

fun method_named :: "string list \<Rightarrow> index \<Rightarrow> string \<Rightarrow> decl option" where
  "method_named [] ix x = None"
| "method_named (t # ts) ix x =
     (case ix_Types ix t of
        None \<Rightarrow> method_named ts ix x
      | Some ti \<Rightarrow> (case ti_Methods ti x of Some md \<Rightarrow> Some md | None \<Rightarrow> method_named ts ix x))"

definition func_named :: "string list \<Rightarrow> index \<Rightarrow> string \<Rightarrow> decl option" where
  "func_named ts ix x = (case ix_Funcs ix x of Some d \<Rightarrow> Some d | None \<Rightarrow> method_named ts ix x)"

definition refs :: "string list \<Rightarrow> index \<Rightarrow> node \<Rightarrow> string set" where
  "refs ts ix n = {x \<in> set (idents n). declared ix x \<or> func_named ts ix x \<noteq> None}"

text \<open>What the declaration of a function mentions, its own name included.\<close>

definition func_body :: "string list \<Rightarrow> index \<Rightarrow> string \<Rightarrow> string set option" where
  "func_body ts ix f =
     (case func_named ts ix f of
        None \<Rightarrow> None
      | Some d \<Rightarrow> Some (case d_Func d of None \<Rightarrow> {} | Some n \<Rightarrow> refs ts ix n))"

section \<open>What a function reaches\<close>

text \<open>
  \<open>funcRefs\<close> at depth \<open>17 - n\<close> and the range over the names found so far: \<open>todo\<close> are the entries the
  map had when the range began and still has to visit, \<open>vis\<close> the entries visited.
\<close>

type_synonym ref_cache = "string \<rightharpoonup> string set"

inductive func_refs :: "string list \<Rightarrow> index \<Rightarrow> nat \<Rightarrow> string \<Rightarrow> ref_cache \<Rightarrow> string set \<Rightarrow> ref_cache \<Rightarrow> bool"
  and range_refs :: "string list \<Rightarrow> index \<Rightarrow> nat \<Rightarrow> string set \<Rightarrow> string set \<Rightarrow> string set \<Rightarrow> ref_cache \<Rightarrow>
    string set \<Rightarrow> ref_cache \<Rightarrow> bool"
where
  too_deep: "func_refs ts ix 0 f c {} c"
| cached: "c f = Some r \<Longrightarrow> func_refs ts ix (Suc n) f c r c"
| not_func: "c f = None \<Longrightarrow> func_body ts ix f = None \<Longrightarrow> func_refs ts ix (Suc n) f c {} (c(f \<mapsto> {}))"
| body: "c f = None \<Longrightarrow> func_body ts ix f = Some b \<Longrightarrow> range_refs ts ix n b {} b c r c' \<Longrightarrow>
    func_refs ts ix (Suc n) f c r (c'(f \<mapsto> r))"
| range_end: "range_refs ts ix n {} vis r c r c"
| range_name: "x \<in> r \<Longrightarrow> x \<notin> vis \<Longrightarrow> declared ix x \<Longrightarrow> range_refs ts ix n (todo - {x}) (insert x vis) r c r' c' \<Longrightarrow>
    range_refs ts ix n todo vis r c r' c'"
| range_func: "x \<in> r \<Longrightarrow> x \<notin> vis \<Longrightarrow> \<not> declared ix x \<Longrightarrow> func_refs ts ix n x c ms c1 \<Longrightarrow>
    range_refs ts ix n (todo - {x}) (insert x vis) (r \<union> ms) c1 r' c' \<Longrightarrow>
    range_refs ts ix n todo vis r c r' c'"

section \<open>The dependencies of the specs\<close>

definition spec_id :: "decl \<Rightarrow> nat" where
  "spec_id d = (case d_Spec d of Some vs \<Rightarrow> id_of vs | None \<Rightarrow> 0)"

definition spec_names :: "decl \<Rightarrow> string list" where
  "spec_names d = (case d_Spec d of Some vs \<Rightarrow> map ident_name (vs_Names vs) | None \<Rightarrow> [])"

definition spec_values :: "decl \<Rightarrow> node list" where
  "spec_values d =
     (let vals = (case d_Spec d of Some vs \<Rightarrow> vs_Values vs | None \<Rightarrow> [])
      in if vals = [] then d_Inherited d else vals)"

definition provided_by :: "decl list \<Rightarrow> string \<rightharpoonup> nat" where
  "provided_by reps = fold (\<lambda>d m. fold (\<lambda>x m. m(x \<mapsto> spec_id d)) (spec_names d) m) reps Map.empty"

definition direct_names :: "string list \<Rightarrow> index \<Rightarrow> decl \<Rightarrow> string set" where
  "direct_names ts ix d = (\<Union>e\<in>set (spec_values d). refs ts ix e)"

definition dep_ids :: "index \<Rightarrow> decl list \<Rightarrow> decl \<Rightarrow> string set \<Rightarrow> nat set" where
  "dep_ids ix reps d names = {i. \<exists>x\<in>names. declared ix x \<and> provided_by reps x = Some i \<and> i \<noteq> spec_id d}"

text \<open>The names the specs reach, spec by spec, with the cache of \<open>funcRefs\<close> passed on.\<close>

inductive names_of :: "string list \<Rightarrow> index \<Rightarrow> decl list \<Rightarrow> ref_cache \<Rightarrow> string set list \<Rightarrow> bool" where
  names_nil: "names_of ts ix [] c []"
| names_cons: "range_refs ts ix 17 (direct_names ts ix d) {} (direct_names ts ix d) c names c' \<Longrightarrow>
    names_of ts ix ds c' nss \<Longrightarrow> names_of ts ix (d # ds) c (names # nss)"

section \<open>The order\<close>

definition isConstSpec :: "index \<Rightarrow> decl \<Rightarrow> bool" where
  "isConstSpec ix d \<longleftrightarrow> (\<exists>x\<in>set (spec_names d). ix_Consts ix x \<noteq> None)"

definition spec_rank :: "index \<Rightarrow> (nat \<Rightarrow> int) \<Rightarrow> decl \<Rightarrow> nat" where
  "spec_rank ix nd d = (if isConstSpec ix d \<and> nd (spec_id d) = 0 then 0 else 1)"

text \<open>The scan for the spec to emit next.\<close>

definition improves :: "index \<Rightarrow> (nat \<Rightarrow> int) \<Rightarrow> nat \<times> decl \<Rightarrow> nat \<times> decl \<Rightarrow> bool" where
  "improves ix nd a b \<longleftrightarrow>
     (let (i, d) = a; (j, e) = b in
      spec_rank ix nd d < spec_rank ix nd e \<or>
      spec_rank ix nd d = spec_rank ix nd e \<and>
        (nd (spec_id d) < nd (spec_id e) \<or> nd (spec_id d) = nd (spec_id e) \<and> i < j))"

fun scan_best :: "index \<Rightarrow> (nat \<Rightarrow> int) \<Rightarrow> nat list \<Rightarrow> (nat \<times> decl) list \<Rightarrow> (nat \<times> decl) option \<Rightarrow> (nat \<times> decl) option"
where
  "scan_best ix nd em [] best = best"
| "scan_best ix nd em (a # as) best =
     (if spec_id (snd a) \<in> set em then scan_best ix nd em as best
      else case best of
        None \<Rightarrow> scan_best ix nd em as (Some a)
      | Some b \<Rightarrow> scan_best ix nd em as (if improves ix nd a b then Some a else best))"

text \<open>Emitting a spec takes it off the counts of its consumers.\<close>

fun emit_specs :: "index \<Rightarrow> decl list \<Rightarrow> (nat \<Rightarrow> nat list) \<Rightarrow> nat \<Rightarrow> (nat \<Rightarrow> int) \<Rightarrow> nat list \<Rightarrow> decl list" where
  "emit_specs ix reps deps 0 nd em = []"
| "emit_specs ix reps deps (Suc k) nd em =
     (case scan_best ix nd em (enumerate 0 reps) None of
        None \<Rightarrow> []
      | Some (i, d) \<Rightarrow>
          d # emit_specs ix reps deps k
            (\<lambda>j. if j \<in> set (map spec_id reps) \<and> spec_id d \<in> set (deps j) then nd j - 1 else nd j) (spec_id d # em))"

definition order_by :: "index \<Rightarrow> decl list \<Rightarrow> (nat \<Rightarrow> nat list) \<Rightarrow> decl list" where
  "order_by ix reps deps = emit_specs ix reps deps (length reps) (\<lambda>j. int (length (deps j))) []"

text \<open>\<open>orderSpecs\<close>: \<open>out\<close> is its result when the specs were found to reach the names \<open>nss\<close>.\<close>

definition deps_of :: "index \<Rightarrow> decl list \<Rightarrow> string set list \<Rightarrow> nat \<Rightarrow> nat list" where
  "deps_of ix reps nss i =
     (case map_of (zip (map spec_id reps) (zip reps nss)) i of
        None \<Rightarrow> []
      | Some (d, names) \<Rightarrow> filter (\<lambda>j. j \<in> dep_ids ix reps d names) (map spec_id reps))"

definition orderSpecs :: "string list \<Rightarrow> index \<Rightarrow> decl list \<Rightarrow> string set list \<Rightarrow> decl list \<Rightarrow> bool" where
  "orderSpecs ts ix reps nss out \<longleftrightarrow>
     names_of ts ix reps Map.empty nss \<and> out = order_by ix reps (deps_of ix reps nss)"

text \<open>One representative per spec, in source order; \<open>ConstInitFunc\<close> takes the constants only.\<close>

definition is_value_decl :: "bool \<Rightarrow> decl \<Rightarrow> bool" where
  "is_value_decl consts_only d \<longleftrightarrow> d_Kind d = ConstKind \<or> \<not> consts_only \<and> d_Kind d = VarKind"

fun spec_reps :: "bool \<Rightarrow> nat list \<Rightarrow> decl list \<Rightarrow> decl list" where
  "spec_reps co seen [] = []"
| "spec_reps co seen (d # ds) =
     (if \<not> is_value_decl co d \<or> spec_id d \<in> set seen then spec_reps co seen ds
      else d # spec_reps co (spec_id d # seen) ds)"

text \<open>\<open>constRefsVarOrFunc\<close>: a value or a type of a constant names a variable or a function.\<close>

definition spec_type :: "decl \<Rightarrow> node option" where
  "spec_type d =
     (case d_Spec d of None \<Rightarrow> d_InheritedType d
      | Some vs \<Rightarrow> (case vs_Type vs of None \<Rightarrow> d_InheritedType d | Some t \<Rightarrow> Some t))"

definition names_var_or_func :: "index \<Rightarrow> node \<Rightarrow> bool" where
  "names_var_or_func ix e \<longleftrightarrow> (\<exists>x\<in>set (idents e). ix_Vars ix x \<noteq> None \<or> ix_Funcs ix x \<noteq> None)"

definition constRefsVarOrFunc :: "index \<Rightarrow> decl list \<Rightarrow> bool" where
  "constRefsVarOrFunc ix reps \<longleftrightarrow>
     (\<exists>d\<in>set reps. \<exists>e\<in>set (spec_values d @ opt (spec_type d)). names_var_or_func ix e)"

section \<open>The next spec\<close>

lemma improves_irrefl: "\<not> improves ix nd a a"
  by (simp add: improves_def split: prod.split)

lemma improves_asym: "improves ix nd a b \<Longrightarrow> \<not> improves ix nd b a"
  by (auto simp: improves_def)

lemma not_improves_trans: "\<not> improves ix nd a b \<Longrightarrow> \<not> improves ix nd b c \<Longrightarrow> \<not> improves ix nd a c"
  by (auto simp: improves_def split: prod.splits)

lemma scan_best_Some:
  "scan_best ix nd em as best = Some b \<Longrightarrow>
   (best = Some b \<or> b \<in> set as \<and> spec_id (snd b) \<notin> set em) \<and>
   (\<forall>a\<in>set as. spec_id (snd a) \<notin> set em \<longrightarrow> \<not> improves ix nd a b) \<and>
   (\<forall>a. best = Some a \<longrightarrow> \<not> improves ix nd a b)"
proof (induction as arbitrary: best)
  case Nil
  then show ?case by (simp add: improves_irrefl)
next
  case (Cons a as)
  show ?case
  proof (cases "spec_id (snd a) \<in> set em \<or> best = None")
    case True
    then show ?thesis using Cons.IH [of best] Cons.IH [of "Some a"] Cons.prems
      by (auto simp: improves_irrefl split: if_splits)
  next
    case False
    then obtain b0 where b0: "best = Some b0" "spec_id (snd a) \<notin> set em" by auto
    define b1 where "b1 = (if improves ix nd a b0 then a else b0)"
    have "scan_best ix nd em as (Some b1) = Some b" using Cons.prems b0 by (auto simp: b1_def)
    from Cons.IH [OF this] have b: "b1 = b \<or> b \<in> set as \<and> spec_id (snd b) \<notin> set em"
      "\<forall>c\<in>set as. spec_id (snd c) \<notin> set em \<longrightarrow> \<not> improves ix nd c b" "\<not> improves ix nd b1 b" by auto
    have "\<not> improves ix nd a b1" "\<not> improves ix nd b0 b1" using improves_irrefl improves_asym by (auto simp: b1_def)
    then have "\<not> improves ix nd a b" "\<not> improves ix nd b0 b" using b(3) not_improves_trans by blast+
    moreover have "b = b0 \<or> b \<in> set (a # as) \<and> spec_id (snd b) \<notin> set em"
      using b(1) b0(2) by (auto simp: b1_def split: if_splits)
    ultimately show ?thesis using b(2) b0(1) by auto
  qed
qed

lemma scan_best_keeps: "scan_best ix nd em as (Some b) \<noteq> None"
  by (induction as arbitrary: b) auto

lemma scan_best_exists: "a \<in> set as \<Longrightarrow> spec_id (snd a) \<notin> set em \<Longrightarrow> scan_best ix nd em as None \<noteq> None"
  using scan_best_keeps by (induction as) auto

section \<open>Emission\<close>

text \<open>
  The state after the specs \<open>em\<close> have been emitted: every count is the number of dependencies outstanding.
\<close>

definition counts_ok :: "decl list \<Rightarrow> (nat \<Rightarrow> nat list) \<Rightarrow> (nat \<Rightarrow> int) \<Rightarrow> nat list \<Rightarrow> bool" where
  "counts_ok reps deps nd em \<longleftrightarrow> (\<forall>d\<in>set reps. nd (spec_id d) = int (card (set (deps (spec_id d)) - set em)))"

definition deps_ok :: "decl list \<Rightarrow> (nat \<Rightarrow> nat list) \<Rightarrow> bool" where
  "deps_ok reps deps \<longleftrightarrow> distinct (map spec_id reps) \<and>
     (\<forall>d\<in>set reps. distinct (deps (spec_id d)) \<and> set (deps (spec_id d)) \<subseteq> spec_id ` set reps)"

lemma counts_init: "deps_ok reps deps \<Longrightarrow> counts_ok reps deps (\<lambda>j. int (length (deps j))) []"
  by (simp add: counts_ok_def deps_ok_def distinct_card)

lemma counts_step:
  assumes "counts_ok reps deps nd em" and "i \<notin> set em"
  shows "counts_ok reps deps
    (\<lambda>j. if j \<in> set (map spec_id reps) \<and> i \<in> set (deps j) then nd j - 1 else nd j) (i # em)"
  unfolding counts_ok_def
proof
  fix d assume d: "d \<in> set reps"
  let ?D = "set (deps (spec_id d)) - set em"
  have "set (deps (spec_id d)) - set (i # em) = ?D - {i}" by auto
  moreover have "int (card (?D - {i})) = (if i \<in> ?D then int (card ?D) - 1 else int (card ?D))"
  proof (cases "i \<in> ?D")
    case True
    then have "card ?D = Suc (card (?D - {i}))" by (metis List.finite_set card.remove finite_Diff)
    then show ?thesis using True by simp
  qed simp
  moreover have "i \<in> ?D \<longleftrightarrow> i \<in> set (deps (spec_id d))" using assms(2) by simp
  ultimately show "(if spec_id d \<in> set (map spec_id reps) \<and> i \<in> set (deps (spec_id d)) then nd (spec_id d) - 1
      else nd (spec_id d)) = int (card (set (deps (spec_id d)) - set (i # em)))"
    using assms(1) d by (simp add: counts_ok_def)
qed

lemma counts_zero: "counts_ok reps deps nd em \<Longrightarrow> d \<in> set reps \<Longrightarrow> nd (spec_id d) = 0 \<longleftrightarrow> set (deps (spec_id d)) \<subseteq> set em"
  by (auto simp: counts_ok_def)

text \<open>What is emitted next, stated on the state before.\<close>

definition emitted_next :: "index \<Rightarrow> decl list \<Rightarrow> (nat \<Rightarrow> int) \<Rightarrow> nat list \<Rightarrow> decl \<Rightarrow> bool" where
  "emitted_next ix reps nd em d \<longleftrightarrow>
     (\<exists>i. (i, d) \<in> set (enumerate 0 reps) \<and> spec_id d \<notin> set em \<and>
       (\<forall>(j, e)\<in>set (enumerate 0 reps). spec_id e \<notin> set em \<longrightarrow> \<not> improves ix nd (j, e) (i, d)))"

lemma scan_next:
  "scan_best ix nd em (enumerate 0 reps) None = Some (i, d) \<Longrightarrow>
   (i, d) \<in> set (enumerate 0 reps) \<and> emitted_next ix reps nd em d"
  using scan_best_Some [of ix nd em "enumerate 0 reps" None "(i, d)"] by (fastforce simp: emitted_next_def)

lemma set_snd_enumerate: "(i, d) \<in> set (enumerate 0 reps) \<Longrightarrow> d \<in> set reps"
  by (auto simp: in_set_enumerate_eq)

text \<open>The emission as a chain of states: \<open>out\<close> is what it emits from \<open>em\<close> on.\<close>

inductive emits :: "index \<Rightarrow> decl list \<Rightarrow> (nat \<Rightarrow> nat list) \<Rightarrow> (nat \<Rightarrow> int) \<Rightarrow> nat list \<Rightarrow> decl list \<Rightarrow> bool" where
  emits_end: "set (map spec_id reps) \<subseteq> set em \<Longrightarrow> counts_ok reps deps nd em \<Longrightarrow> emits ix reps deps nd em []"
| emits_step: "counts_ok reps deps nd em \<Longrightarrow> d \<in> set reps \<Longrightarrow> emitted_next ix reps nd em d \<Longrightarrow>
    emits ix reps deps nd' (spec_id d # em) out \<Longrightarrow> emits ix reps deps nd em (d # out)"

lemma emit_specs_emits:
  assumes "deps_ok reps deps" and "counts_ok reps deps nd em" and "distinct em" and "set em \<subseteq> set (map spec_id reps)"
    and "k + length em = length reps"
  shows "emits ix reps deps nd em (emit_specs ix reps deps k nd em)"
  using assms(2-)
proof (induction k arbitrary: nd em)
  case 0
  have "card (set em) = card (set (map spec_id reps))"
    using 0 assms(1) by (metis add_0 deps_ok_def distinct_card length_map)
  then have "set em = set (map spec_id reps)" using 0(3) by (metis List.finite_set card_subset_eq)
  then show ?case using 0 by (simp add: emits_end)
next
  case (Suc k)
  have "card (set em) = length em" "card (set (map spec_id reps)) = length reps"
    using Suc.prems(2) assms(1) distinct_card [of "map spec_id reps"] by (simp_all add: deps_ok_def distinct_card)
  then have "card (set em) < card (set (map spec_id reps))" using Suc.prems(4) by simp
  then have "\<not> set (map spec_id reps) \<subseteq> set em" by (meson List.finite_set card_mono leD)
  then obtain d0 where "d0 \<in> set reps" "spec_id d0 \<notin> set em" by auto
  moreover from this obtain j where "j < length reps" "reps ! j = d0" by (auto simp: in_set_conv_nth)
  then have "(j, d0) \<in> set (enumerate 0 reps)" by (simp add: in_set_enumerate_eq)
  ultimately have "scan_best ix nd em (enumerate 0 reps) None \<noteq> None" using scan_best_exists by fastforce
  then obtain i d where b: "scan_best ix nd em (enumerate 0 reps) None = Some (i, d)" by auto
  note N = scan_next [OF b]
  have d: "d \<in> set reps" "spec_id d \<notin> set em" using N set_snd_enumerate by (auto simp: emitted_next_def)
  let ?nd = "\<lambda>j. if j \<in> set (map spec_id reps) \<and> spec_id d \<in> set (deps j) then nd j - 1 else nd j"
  have "emits ix reps deps ?nd (spec_id d # em) (emit_specs ix reps deps k ?nd (spec_id d # em))"
    by (rule Suc.IH) (use counts_step [OF Suc.prems(1) d(2)] Suc.prems d in auto)
  then show ?case using emits_step [OF Suc.prems(1) d(1)] N by (simp add: b)
qed

lemma order_by_emits: "deps_ok reps deps \<Longrightarrow> emits ix reps deps (\<lambda>j. int (length (deps j))) [] (order_by ix reps deps)"
  unfolding order_by_def by (rule emit_specs_emits) (simp_all add: counts_init)

lemma emits_perm:
  "emits ix reps deps nd em out \<Longrightarrow> distinct (map spec_id reps) \<Longrightarrow>
   mset out = mset (filter (\<lambda>d. spec_id d \<notin> set em) reps)"
proof (induction rule: emits.induct)
  case (emits_end reps em deps nd ix)
  then have "filter (\<lambda>d. spec_id d \<notin> set em) reps = []" by (auto simp: filter_empty_conv)
  then show ?case by simp
next
  case (emits_step reps deps nd em d ix nd' out)
  have inj: "e = d" if "e \<in> set reps" "spec_id e = spec_id d" for e
    using that emits_step by (auto simp: distinct_map inj_on_def)
  have "distinct reps" using emits_step.prems by (simp add: distinct_map)
  moreover have "spec_id d \<notin> set em" using emits_step.hyps(3) by (auto simp: emitted_next_def)
  ultimately have "mset (filter (\<lambda>e. spec_id e \<notin> set em) reps) =
    add_mset d (mset (filter (\<lambda>e. spec_id e \<notin> set (spec_id d # em)) reps))"
    using inj emits_step.hyps(2)
  proof (induction reps)
    case (Cons a as)
    show ?case
    proof (cases "a = d")
      case True
      then have "filter (\<lambda>e. spec_id e \<notin> set em) as = filter (\<lambda>e. spec_id e \<notin> set (spec_id d # em)) as"
        using Cons.prems by (intro filter_cong) auto
      then show ?thesis using True Cons.prems by simp
    next
      case False
      then have "spec_id a \<noteq> spec_id d" using Cons.prems by auto
      then show ?thesis using False Cons by auto
    qed
  qed simp
  then show ?case using emits_step by simp
qed

section \<open>Dependencies first\<close>

definition spec_graph :: "decl list \<Rightarrow> (nat \<Rightarrow> nat list) \<Rightarrow> (nat \<times> nat) set" where
  "spec_graph reps deps = {(i, j). j \<in> spec_id ` set reps \<and> i \<in> set (deps j)}"

lemma finite_spec_graph: "finite (spec_graph reps deps)"
proof -
  have "spec_graph reps deps \<subseteq> (\<Union>j\<in>spec_id ` set reps. set (deps j)) \<times> spec_id ` set reps"
    by (auto simp: spec_graph_def)
  then show ?thesis by (rule finite_subset) simp
qed

text \<open>Without cycles some spec that is left has all its dependencies behind it.\<close>

lemma ready_spec:
  assumes "deps_ok reps deps" and "acyclic (spec_graph reps deps)" and "d \<in> set reps" and "spec_id d \<notin> set em"
  shows "\<exists>e\<in>set reps. spec_id e \<notin> set em \<and> set (deps (spec_id e)) \<subseteq> set em"
proof -
  let ?left = "spec_id ` set reps - set em"
  have "wf (spec_graph reps deps)" using assms(2) finite_spec_graph by (rule finite_acyclic_wf [rotated])
  moreover have "spec_id d \<in> ?left" using assms(3,4) by auto
  ultimately obtain i where i: "i \<in> ?left" "\<And>j. (j, i) \<in> spec_graph reps deps \<Longrightarrow> j \<notin> ?left"
    by (rule wfE_min) blast
  then obtain e where e: "e \<in> set reps" "i = spec_id e" by auto
  have "j \<in> set em" if "j \<in> set (deps (spec_id e))" for j
  proof -
    have "j \<in> spec_id ` set reps" using that e(1) assms(1) by (auto simp: deps_ok_def)
    then show ?thesis using i(2) [of j] that e by (auto simp: spec_graph_def)
  qed
  then show ?thesis using i(1) e by auto
qed

lemma improves_zero:
  assumes "\<not> improves ix nd (j, e) (i, d)" and "nd (spec_id e) = 0" and "nd (spec_id d) \<ge> 0"
  shows "nd (spec_id d) = 0 \<and> (isConstSpec ix e \<longrightarrow> isConstSpec ix d) \<and>
    (isConstSpec ix e = isConstSpec ix d \<longrightarrow> i \<le> j)"
proof (cases "nd (spec_id d) = 0")
  case True
  then show ?thesis using assms(1,2) by (simp add: improves_def spec_rank_def split: if_splits)
next
  case False
  then have "0 < nd (spec_id d)" using assms(3) by simp
  then show ?thesis using assms(1,2) by (simp add: improves_def spec_rank_def split: if_splits)
qed

lemma next_of_ready:
  assumes "counts_ok reps deps nd em" and "emitted_next ix reps nd em d" and "d \<in> set reps"
    and "e \<in> set reps" and "spec_id e \<notin> set em" and "set (deps (spec_id e)) \<subseteq> set em"
  shows "set (deps (spec_id d)) \<subseteq> set em \<and> (isConstSpec ix e \<longrightarrow> isConstSpec ix d) \<and>
    (isConstSpec ix e = isConstSpec ix d \<longrightarrow> (\<exists>i j. i \<le> j \<and> j < length reps \<and> reps ! i = d \<and> reps ! j = e))"
proof -
  obtain i where i: "(i, d) \<in> set (enumerate 0 reps)"
    "\<forall>(j, e)\<in>set (enumerate 0 reps). spec_id e \<notin> set em \<longrightarrow> \<not> improves ix nd (j, e) (i, d)"
    using assms(2) by (auto simp: emitted_next_def)
  obtain j where j: "j < length reps" "reps ! j = e" using assms(4) by (auto simp: in_set_conv_nth)
  then have "(j, e) \<in> set (enumerate 0 reps)" by (simp add: in_set_enumerate_eq)
  then have "\<not> improves ix nd (j, e) (i, d)" using i(2) assms(5) by auto
  moreover have "nd (spec_id e) = 0" "nd (spec_id d) \<ge> 0"
    using counts_zero [OF assms(1,4)] assms(1,3,6) by (auto simp: counts_ok_def)
  ultimately have "nd (spec_id d) = 0 \<and> (isConstSpec ix e \<longrightarrow> isConstSpec ix d) \<and>
      (isConstSpec ix e = isConstSpec ix d \<longrightarrow> i \<le> j)"
    by (rule improves_zero)
  then show ?thesis using counts_zero [OF assms(1,3)] i(1) j by (auto simp: in_set_enumerate_eq)
qed

lemma emits_ready:
  assumes "emits ix reps deps nd em out" and "deps_ok reps deps" and "acyclic (spec_graph reps deps)"
    and "out = xs @ d # ys"
  shows "set (deps (spec_id d)) \<subseteq> set em \<union> spec_id ` set xs"
  using assms
proof (induction arbitrary: xs rule: emits.induct)
  case (emits_end reps em deps nd ix)
  then show ?case by simp
next
  case (emits_step reps deps nd em e ix nd' out)
  show ?case
  proof (cases xs)
    case Nil
    have "spec_id e \<notin> set em" using emits_step.hyps(3) by (auto simp: emitted_next_def)
    then obtain f where "f \<in> set reps" "spec_id f \<notin> set em" "set (deps (spec_id f)) \<subseteq> set em"
      using ready_spec [OF emits_step.prems(1,2) emits_step.hyps(2)] by auto
    then show ?thesis using next_of_ready [OF emits_step.hyps(1,3,2)] emits_step.prems(3) Nil by simp
  next
    case (Cons x xs')
    then show ?thesis using emits_step.IH [OF emits_step.prems(1,2), of xs'] emits_step.prems(3) by auto
  qed
qed






section \<open>The dependencies of a representative\<close>

lemma fold_provided: "fold (\<lambda>x m. m(x \<mapsto> i)) xs m y = (if y \<in> set xs then Some i else m y)"
  by (induction xs arbitrary: m) auto

lemma provided_by_ids: "provided_by reps x = Some i \<Longrightarrow> i \<in> spec_id ` set reps"
proof -
  have "fold (\<lambda>d m. fold (\<lambda>x m. m(x \<mapsto> spec_id d)) (spec_names d) m) reps m x = Some i \<Longrightarrow>
      i \<in> spec_id ` set reps \<or> m x = Some i" for m
    by (induction reps arbitrary: m) (fastforce simp: fold_provided split: if_splits)+
  then show "provided_by reps x = Some i \<Longrightarrow> i \<in> spec_id ` set reps" by (force simp: provided_by_def)
qed

lemma names_of_length: "names_of ts ix reps c nss \<Longrightarrow> length nss = length reps"
  by (induction rule: names_of.induct) auto

lemma deps_of_nth:
  assumes "distinct (map spec_id reps)" and "length nss = length reps" and "k < length reps"
  shows "set (deps_of ix reps nss (spec_id (reps ! k))) = dep_ids ix reps (reps ! k) (nss ! k)"
proof -
  have "map_of (zip (map spec_id reps) (zip reps nss)) (spec_id (reps ! k)) = Some (reps ! k, nss ! k)"
    using assms map_of_zip_nth [of "map spec_id reps" "zip reps nss" k] by simp
  moreover have "dep_ids ix reps (reps ! k) (nss ! k) \<subseteq> spec_id ` set reps"
    using provided_by_ids by (auto simp: dep_ids_def)
  ultimately show ?thesis by (auto simp: deps_of_def)
qed

lemma deps_of_ok: "distinct (map spec_id reps) \<Longrightarrow> deps_ok reps (deps_of ix reps nss)"
  by (auto simp: deps_ok_def deps_of_def split: option.split)

lemma orderSpecs_emits:
  "orderSpecs ts ix reps nss out \<Longrightarrow> distinct (map spec_id reps) \<Longrightarrow>
   emits ix reps (deps_of ix reps nss) (\<lambda>j. int (length (deps_of ix reps nss j))) [] out"
  using order_by_emits deps_of_ok by (simp add: orderSpecs_def)

section \<open>What the names are\<close>

inductive_set reached :: "string list \<Rightarrow> index \<Rightarrow> string set \<Rightarrow> string set" for ts ix S where
  reached_base: "x \<in> S \<Longrightarrow> x \<in> reached ts ix S"
| reached_func: "f \<in> reached ts ix S \<Longrightarrow> \<not> declared ix f \<Longrightarrow> func_body ts ix f = Some b \<Longrightarrow> x \<in> b \<Longrightarrow>
    x \<in> reached ts ix S"

lemma reached_mono: "x \<in> reached ts ix S \<Longrightarrow> S \<subseteq> reached ts ix T \<Longrightarrow> x \<in> reached ts ix T"
  by (induction rule: reached.induct) (auto intro: reached.intros)

definition body_or_none :: "string list \<Rightarrow> index \<Rightarrow> string \<Rightarrow> string set" where
  "body_or_none ts ix f = (case func_body ts ix f of None \<Rightarrow> {} | Some b \<Rightarrow> b)"

lemma reached_of_func:
  "f \<in> reached ts ix S \<Longrightarrow> \<not> declared ix f \<Longrightarrow> reached ts ix (body_or_none ts ix f) \<subseteq> reached ts ix S"
  by (auto simp: body_or_none_def elim!: reached_mono intro: reached_func split: option.splits)

text \<open>Every entry of the cache lies between what the function mentions and what it reaches.\<close>

definition cache_ok :: "string list \<Rightarrow> index \<Rightarrow> ref_cache \<Rightarrow> bool" where
  "cache_ok ts ix c \<longleftrightarrow>
     (\<forall>f r. c f = Some r \<longrightarrow> body_or_none ts ix f \<subseteq> r \<and> r \<subseteq> reached ts ix (body_or_none ts ix f))"

lemma cache_ok_update:
  "cache_ok ts ix c \<Longrightarrow> body_or_none ts ix f \<subseteq> r \<Longrightarrow> r \<subseteq> reached ts ix (body_or_none ts ix f) \<Longrightarrow>
   cache_ok ts ix (c(f \<mapsto> r))"
  by (auto simp: cache_ok_def)

lemma refs_bounds:
  "func_refs ts ix n f c r c' \<Longrightarrow> cache_ok ts ix c \<Longrightarrow>
     cache_ok ts ix c' \<and> r \<subseteq> reached ts ix (body_or_none ts ix f) \<and> (n \<noteq> 0 \<longrightarrow> body_or_none ts ix f \<subseteq> r)"
  "range_refs ts ix n todo vis r c r' c' \<Longrightarrow> cache_ok ts ix c \<Longrightarrow>
     cache_ok ts ix c' \<and> r \<subseteq> r' \<and> (\<forall>S. r \<subseteq> reached ts ix S \<longrightarrow> r' \<subseteq> reached ts ix S) \<and>
     (n \<noteq> 0 \<longrightarrow> (\<forall>x\<in>todo. \<not> declared ix x \<longrightarrow> body_or_none ts ix x \<subseteq> r'))"
proof (induction rule: func_refs_range_refs.inducts)
  case (cached c f r ts ix n)
  then show ?case by (auto simp: cache_ok_def)
next
  case (not_func c f ts ix n)
  then show ?case using cache_ok_update [of ts ix c f "{}"] by (simp add: body_or_none_def del: fun_upd_apply)
next
  case (body c f ts ix b n r c')
  then have "b \<subseteq> reached ts ix b" "body_or_none ts ix f = b" by (auto simp: body_or_none_def intro: reached_base)
  moreover from this have "r \<subseteq> reached ts ix b" "b \<subseteq> r" "cache_ok ts ix c'" using body by auto
  ultimately show ?case using cache_ok_update [of ts ix c' f r] by (simp del: fun_upd_apply)
next
  case (range_func x r vis ix ts n c ms c1 todo r' c')
  have ms: "cache_ok ts ix c1" "ms \<subseteq> reached ts ix (body_or_none ts ix x)"
    "n \<noteq> 0 \<longrightarrow> body_or_none ts ix x \<subseteq> ms" using range_func.IH(1) range_func.prems by auto
  have "r \<union> ms \<subseteq> reached ts ix S" if "r \<subseteq> reached ts ix S" for S
    using that ms(2) range_func.hyps reached_of_func [of x ts ix S] by blast
  then show ?case using range_func.IH(2) [OF ms(1)] ms(3) by (smt (verit) DiffI Un_subset_iff order_trans singletonD)
qed (auto intro: reached_base)

lemma names_bounds:
  "names_of ts ix reps c nss \<Longrightarrow> cache_ok ts ix c \<Longrightarrow> k < length reps \<Longrightarrow>
   direct_names ts ix (reps ! k) \<subseteq> nss ! k \<and>
   (\<forall>f\<in>direct_names ts ix (reps ! k). \<not> declared ix f \<longrightarrow> body_or_none ts ix f \<subseteq> nss ! k) \<and>
   nss ! k \<subseteq> reached ts ix (direct_names ts ix (reps ! k))"
proof (induction arbitrary: k rule: names_of.induct)
  case (names_cons ts ix d c names c' ds nss)
  note B = refs_bounds(2) [OF names_cons.hyps(1) names_cons.prems(1)]
  show ?case
  proof (cases k)
    case 0
    have "direct_names ts ix d \<subseteq> reached ts ix (direct_names ts ix d)" by (auto intro: reached_base)
    then show ?thesis using B 0 by auto
  next
    case (Suc j)
    then show ?thesis using names_cons.IH [of j] B names_cons.prems(2) by simp
  qed
qed simp

text \<open>
  Whatever order the maps are ranged over in, the names a spec is found to reach are names its
  initializer reaches through function bodies, and among them are those it mentions and those mentioned by
  the functions it mentions.
\<close>

lemma names_found:
  assumes "orderSpecs ts ix reps nss out" and "k < length reps"
  shows "nss ! k \<subseteq> reached ts ix (direct_names ts ix (reps ! k)) \<and> direct_names ts ix (reps ! k) \<subseteq> nss ! k \<and>
    (\<forall>f b. f \<in> direct_names ts ix (reps ! k) \<and> \<not> declared ix f \<and> func_body ts ix f = Some b \<longrightarrow> b \<subseteq> nss ! k)"
proof -
  have "cache_ok ts ix Map.empty" by (simp add: cache_ok_def)
  then show ?thesis using names_bounds [of ts ix reps Map.empty nss k] assms
    by (fastforce simp: orderSpecs_def body_or_none_def)
qed

section \<open>What a spec waits for\<close>

text \<open>
  The specs a spec waits for through a set of names: those that declare one of the names. \<open>mentions\<close> are the
  names its values mention and those the functions they mention mention; \<open>reaches\<close> those its values reach
  through any number of function bodies.
\<close>

definition mentions :: "string list \<Rightarrow> index \<Rightarrow> decl \<Rightarrow> string set" where
  "mentions ts ix d =
     direct_names ts ix d \<union>
     {x. \<exists>f b. f \<in> direct_names ts ix d \<and> \<not> declared ix f \<and> func_body ts ix f = Some b \<and> x \<in> b}"

definition reaches :: "string list \<Rightarrow> index \<Rightarrow> decl \<Rightarrow> string set" where
  "reaches ts ix d = reached ts ix (direct_names ts ix d)"

definition waits_for :: "(decl \<Rightarrow> string set) \<Rightarrow> index \<Rightarrow> decl list \<Rightarrow> (decl \<times> decl) set" where
  "waits_for names ix reps =
     {(e, d). d \<in> set reps \<and> e \<in> set reps \<and> e \<noteq> d \<and> (\<exists>x\<in>names d. declared ix x \<and> x \<in> set (spec_names e))}"

text \<open>A name of the package is declared by one spec.\<close>

definition one_provider :: "index \<Rightarrow> decl list \<Rightarrow> bool" where
  "one_provider ix reps \<longleftrightarrow>
     (\<forall>d\<in>set reps. \<forall>e\<in>set reps. \<forall>x\<in>set (spec_names d) \<inter> set (spec_names e). declared ix x \<longrightarrow> d = e)"

lemma provided_by_names: "provided_by reps x = Some i \<Longrightarrow> \<exists>d\<in>set reps. x \<in> set (spec_names d) \<and> spec_id d = i"
proof -
  have "fold (\<lambda>d m. fold (\<lambda>x m. m(x \<mapsto> spec_id d)) (spec_names d) m) reps m x = Some i \<Longrightarrow>
      (\<exists>d\<in>set reps. x \<in> set (spec_names d) \<and> spec_id d = i) \<or> m x = Some i" for m
    by (induction reps arbitrary: m) (fastforce simp: fold_provided split: if_splits)+
  then show "provided_by reps x = Some i \<Longrightarrow> \<exists>d\<in>set reps. x \<in> set (spec_names d) \<and> spec_id d = i"
    by (force simp: provided_by_def)
qed

lemma provided_by_some: "d \<in> set reps \<Longrightarrow> x \<in> set (spec_names d) \<Longrightarrow> provided_by reps x \<noteq> None"
proof -
  have keep: "m x \<noteq> None \<Longrightarrow> fold (\<lambda>d m. fold (\<lambda>x m. m(x \<mapsto> spec_id d)) (spec_names d) m) reps m x \<noteq> None" for m reps
  proof (induction reps arbitrary: m)
    case (Cons a as)
    then have "fold (\<lambda>x m. m(x \<mapsto> spec_id a)) (spec_names a) m x \<noteq> None" by (simp add: fold_provided)
    from Cons.IH [of "fold (\<lambda>x m. m(x \<mapsto> spec_id a)) (spec_names a) m", OF this] show ?case unfolding fold_Cons o_apply .
  qed simp
  have "d \<in> set reps \<Longrightarrow> x \<in> set (spec_names d) \<Longrightarrow>
      fold (\<lambda>d m. fold (\<lambda>x m. m(x \<mapsto> spec_id d)) (spec_names d) m) reps m x \<noteq> None" for m
  proof (induction reps arbitrary: m)
    case (Cons a as)
    let ?m = "fold (\<lambda>x m. m(x \<mapsto> spec_id a)) (spec_names a) m"
    show ?case
    proof (cases "d = a")
      case True
      then have "?m x \<noteq> None" using Cons.prems(2) by (simp add: fold_provided)
      from keep [of ?m as, OF this] show ?thesis unfolding fold_Cons o_apply .
    next
      case False
      then have "d \<in> set as" using Cons.prems(1) by simp
      from Cons.IH [OF this Cons.prems(2), of ?m] show ?thesis unfolding fold_Cons o_apply .
    qed
  qed simp
  then show "d \<in> set reps \<Longrightarrow> x \<in> set (spec_names d) \<Longrightarrow> provided_by reps x \<noteq> None" by (simp add: provided_by_def)
qed

lemma provided_by_one:
  assumes "one_provider ix reps" and "declared ix x" and "e \<in> set reps" and "x \<in> set (spec_names e)"
  shows "provided_by reps x = Some (spec_id e)"
proof -
  obtain i where i: "provided_by reps x = Some i" using provided_by_some [OF assms(3,4)] by auto
  then obtain d where "d \<in> set reps" "x \<in> set (spec_names d)" "spec_id d = i" using provided_by_names by blast
  moreover from this have "d = e" using assms unfolding one_provider_def by blast
  ultimately show ?thesis using i by simp
qed

text \<open>The dependencies a run finds lie between the two.\<close>

lemma found_deps:
  assumes "orderSpecs ts ix reps nss out" and "distinct (map spec_id reps)" and "d \<in> set reps"
  shows "\<exists>names. mentions ts ix d \<subseteq> names \<and> names \<subseteq> reaches ts ix d \<and>
    set (deps_of ix reps nss (spec_id d)) = dep_ids ix reps d names"
proof -
  obtain k where k: "k < length reps" "d = reps ! k" using assms(3) by (auto simp: in_set_conv_nth)
  have len: "length nss = length reps" using assms(1) names_of_length by (auto simp: orderSpecs_def)
  from names_found [OF assms(1) k(1)] have "mentions ts ix d \<subseteq> nss ! k" "nss ! k \<subseteq> reaches ts ix d"
    unfolding mentions_def reaches_def k(2) by blast+
  with deps_of_nth [OF assms(2) len k(1)] k(2) show ?thesis by blast
qed

lemma spec_id_inj: "distinct (map spec_id reps) \<Longrightarrow> d \<in> set reps \<Longrightarrow> e \<in> set reps \<Longrightarrow> spec_id d = spec_id e \<longleftrightarrow> d = e"
  by (auto simp: distinct_map inj_on_def)

lemma found_graph:
  assumes "orderSpecs ts ix reps nss out" and "distinct (map spec_id reps)"
    and "acyclic (waits_for (reaches ts ix) ix reps)"
  shows "acyclic (spec_graph reps (deps_of ix reps nss))"
proof -
  let ?W = "waits_for (reaches ts ix) ix reps"
  have edge: "\<exists>e d. e \<in> set reps \<and> d \<in> set reps \<and> i = spec_id e \<and> j = spec_id d \<and> (e, d) \<in> ?W"
    if "(i, j) \<in> spec_graph reps (deps_of ix reps nss)" for i j
  proof -
    from that obtain d where d: "d \<in> set reps" "j = spec_id d" "i \<in> set (deps_of ix reps nss (spec_id d))"
      by (auto simp: spec_graph_def)
    obtain names where n: "names \<subseteq> reaches ts ix d"
      "set (deps_of ix reps nss (spec_id d)) = dep_ids ix reps d names"
      using found_deps [OF assms(1,2) d(1)] by blast
    from d(3) have "i \<in> dep_ids ix reps d names" unfolding n(2) .
    then obtain x where "x \<in> names" "declared ix x" and x: "provided_by reps x = Some i" "i \<noteq> spec_id d"
      unfolding dep_ids_def by blast
    from \<open>x \<in> names\<close> n(1) have "x \<in> reaches ts ix d" by blast
    note x = this \<open>declared ix x\<close> x
    from provided_by_names [OF x(3)] obtain e where e: "e \<in> set reps" "x \<in> set (spec_names e)" "spec_id e = i" by blast
    with x(4) d(2) have "e \<noteq> d" by blast
    with d e x(1,2) have "(e, d) \<in> ?W" unfolding waits_for_def by blast
    with d e show ?thesis by blast
  qed
  have path: "\<exists>e d. e \<in> set reps \<and> d \<in> set reps \<and> i = spec_id e \<and> j = spec_id d \<and> (e, d) \<in> ?W\<^sup>+"
    if "(i, j) \<in> (spec_graph reps (deps_of ix reps nss))\<^sup>+" for i j
    using that
  proof (induction rule: trancl_induct)
    case (base j)
    then show ?case using edge by blast
  next
    case (step j k)
    then obtain e d where e: "e \<in> set reps" "d \<in> set reps" "i = spec_id e" "j = spec_id d" "(e, d) \<in> ?W\<^sup>+" by blast
    obtain d' f where f: "d' \<in> set reps" "f \<in> set reps" "j = spec_id d'" "k = spec_id f" "(d', f) \<in> ?W"
      using edge [OF step.hyps(2)] by blast
    have "d = d'" using spec_id_inj [OF assms(2) e(2) f(1)] e(4) f(3) by simp
    then have "(e, f) \<in> ?W\<^sup>+" using e(5) f(5) by (simp add: trancl.trancl_into_trancl)
    then show ?case using e f by blast
  qed
  show ?thesis
    unfolding acyclic_def
  proof (intro allI notI)
    fix i
    assume "(i, i) \<in> (spec_graph reps (deps_of ix reps nss))\<^sup>+"
    from path [OF this] obtain e d where "e \<in> set reps" "d \<in> set reps" "spec_id e = spec_id d" "(e, d) \<in> ?W\<^sup>+" by metis
    then show False using assms(3) spec_id_inj [OF assms(2)] unfolding acyclic_def by blast
  qed
qed

definition comes_before :: "'a list \<Rightarrow> 'a \<Rightarrow> 'a \<Rightarrow> bool" where
  "comes_before out e d \<longleftrightarrow> (\<exists>xs ys. out = xs @ d # ys \<and> e \<in> set xs)"

lemma comes_before_trans:
  assumes "distinct out" and "comes_before out a b" and "comes_before out b c"
  shows "comes_before out a c"
proof -
  obtain xs ys where ab: "out = xs @ b # ys" "a \<in> set xs" using assms(2) unfolding comes_before_def by blast
  obtain us vs where bc: "out = us @ c # vs" "b \<in> set us" using assms(3) unfolding comes_before_def by blast
  note o = ab bc
  from o(4) obtain ps qs where us: "us = ps @ b # qs" by (auto simp: in_set_conv_decomp)
  with o(1,3) have "xs @ b # ys = ps @ b # (qs @ c # vs)" by simp
  moreover have "b \<notin> set xs" "b \<notin> set ys" using assms(1) o(1) by auto
  ultimately have "xs = ps" by (metis append_Cons_eq_iff)
  with o us show ?thesis unfolding comes_before_def by (metis in_set_conv_decomp append.assoc append_Cons)
qed

lemma found_first:
  assumes "orderSpecs ts ix reps nss out" and "distinct (map spec_id reps)" and "one_provider ix reps"
    and "acyclic (waits_for (reaches ts ix) ix reps)" and "(e, d) \<in> waits_for (mentions ts ix) ix reps"
  shows "comes_before out e d"
proof -
  note E = orderSpecs_emits [OF assms(1,2)]
  have perm: "mset out = mset reps" using emits_perm [OF E assms(2)] by simp
  from assms(5) obtain x where d: "d \<in> set reps" "e \<in> set reps" "e \<noteq> d"
    and x: "x \<in> mentions ts ix d" "declared ix x" "x \<in> set (spec_names e)"
    by (auto simp: waits_for_def)
  obtain xs ys where out: "out = xs @ d # ys" using d(1) mset_eq_setD [OF perm] by (metis in_set_conv_decomp)
  have "spec_id e \<noteq> spec_id d" using spec_id_inj [OF assms(2)] d by simp
  then have "spec_id e \<in> set (deps_of ix reps nss (spec_id d))"
    using found_deps [OF assms(1,2) d(1)] provided_by_one [OF assms(3) x(2) d(2) x(3)] x by (auto simp: dep_ids_def)
  then have "spec_id e \<in> spec_id ` set xs"
    using emits_ready [OF E deps_of_ok [OF assms(2)] found_graph [OF assms(1,2,4)] out] by auto
  then obtain f where f: "f \<in> set xs" "spec_id f = spec_id e" by auto
  have "f \<in> set reps" using f(1) out mset_eq_setD [OF perm] by auto
  then have "f = e" using spec_id_inj [OF assms(2) _ d(2)] f(2) by simp
  then show ?thesis using out f(1) by (auto simp: comes_before_def)
qed

text \<open>
  C6: Every representative is emitted once; and when the names the initializers can reach make no cycle of specs, a spec
  comes, on every run and whatever order the maps are ranged over in, after the specs that declare the names its values
  mention or that the functions its values mention mention, and after all that those come after in turn. Names reached
  through more function bodies than that are not covered: C8 is a run that puts such a spec last.
\<close>

theorem order_dependencies_first:
  assumes "orderSpecs ts ix reps nss out" and "distinct (map spec_id reps)" and "one_provider ix reps"
    and "acyclic (waits_for (reaches ts ix) ix reps)"
  shows "mset out = mset reps \<and> (\<forall>e d. (e, d) \<in> (waits_for (mentions ts ix) ix reps)\<^sup>+ \<longrightarrow> comes_before out e d)"
proof (intro conjI allI impI)
  show perm: "mset out = mset reps" using emits_perm [OF orderSpecs_emits [OF assms(1,2)] assms(2)] by simp
  have "distinct reps" using assms(2) by (simp add: distinct_map)
  then have dist: "distinct out" using perm by (metis mset_eq_imp_distinct_iff)
  fix e d
  assume "(e, d) \<in> (waits_for (mentions ts ix) ix reps)\<^sup>+"
  then show "comes_before out e d"
    by induction (use found_first [OF assms] comes_before_trans [OF dist] in blast)+
qed


section \<open>Two packages\<close>

definition ident_at :: "nat \<Rightarrow> string \<Rightarrow> node" where
  "ident_at i x = Ident (Meta i i (i + 1)) x"

definition var_decl :: "nat \<Rightarrow> string \<Rightarrow> node list \<Rightarrow> decl" where
  "var_decl i x vals =
     \<lparr>d_Kind = VarKind, d_Name = x, d_File = one_file [], d_Func = None, d_Gen = None,
      d_Spec = Some (ValueSpec (Meta i i (i + 1)) [ident_at (i + 1) x] None vals), d_Idx = 0, d_NameIdx = 0,
      d_Inherited = [], d_InheritedType = None, d_Pos = i\<rparr>"

definition func_decl :: "string \<Rightarrow> string \<Rightarrow> decl" where
  "func_decl f callee =
     \<lparr>d_Kind = FuncKind, d_Name = f, d_File = one_file [],
      d_Func = Some (FuncDecl (Meta 50 50 60) None (ident_at 51 f) (FuncType (Meta 52 52 53) None None None)
        (Some (BlockStmt (Meta 53 53 60) [ReturnStmt (Meta 54 54 58) [ident_at 55 callee]]))),
      d_Gen = None, d_Spec = None, d_Idx = 0, d_NameIdx = 0, d_Inherited = [], d_InheritedType = None, d_Pos = 50\<rparr>"

text \<open>
  \<open>var y = f(); var x = 1\<close>, where \<open>f\<close> returns what \<open>g\<close> returns, \<open>g\<close> what \<open>h\<close> returns and \<open>h\<close> returns \<open>x\<close>.
\<close>

definition decl_y :: decl where
  "decl_y = var_decl 10 ''y'' [CallExpr (Meta 12 12 13) (ident_at 13 ''f'') []]"

definition decl_x :: decl where
  "decl_x = var_decl 20 ''x'' [BasicLit (Meta 22 22 23) token.INT ''1'']"

definition chain_index :: index where
  "chain_index = empty_index\<lparr>ix_Vars := [''y'' \<mapsto> decl_y, ''x'' \<mapsto> decl_x],
     ix_Funcs := [''f'' \<mapsto> func_decl ''f'' ''g'', ''g'' \<mapsto> func_decl ''g'' ''h'', ''h'' \<mapsto> func_decl ''h'' ''x'']\<rparr>"

lemma chain_bodies:
  "func_body [] chain_index ''f'' = Some {''f'', ''g''}" "func_body [] chain_index ''g'' = Some {''g'', ''h''}"
  "func_body [] chain_index ''h'' = Some {''h'', ''x''}"
  by (auto simp: func_body_def func_named_def chain_index_def func_decl_def refs_def idents_def preorder_children
      ident_at_def declared_def)

lemma chain_declared:
  "declared chain_index ''x''" "\<not> declared chain_index ''f''" "\<not> declared chain_index ''g''" "\<not> declared chain_index ''h''"
  by (simp_all add: declared_def chain_index_def empty_index_def)

lemma chain_direct: "direct_names [] chain_index decl_y = {''f''}" "direct_names [] chain_index decl_x = {}"
  by (auto simp: direct_names_def spec_values_def decl_y_def decl_x_def var_decl_def refs_def idents_def
      preorder_children ident_at_def func_named_def chain_index_def declared_def)

text \<open>A run that misses \<open>x\<close>: every range visits the function's own name first and no added name.\<close>

lemma chain_g_cut: "c ''g'' = None \<Longrightarrow> func_refs [] chain_index (Suc 0) ''g'' c {''g'', ''h''} (c(''g'' \<mapsto> {''g'', ''h''}))"
proof (rule body [OF _ chain_bodies(2)])
  show "range_refs [] chain_index 0 {''g'', ''h''} {} {''g'', ''h''} c {''g'', ''h''} c"
    by (rule range_func [of "''g''", OF _ _ chain_declared(3) too_deep]; simp?)
      (rule range_func [of "''h''", OF _ _ chain_declared(4) too_deep]; simp add: range_end)
qed

lemma chain_f_cut:
  "\<exists>c. func_refs [] chain_index (Suc (Suc n)) ''f'' Map.empty {''f'', ''g'', ''h''} c \<and> c ''g'' = Some {''g'', ''h''}"
proof (induction n)
  case 0
  let ?c0 = "[''f'' \<mapsto> {''f'', ''g''}]"
  have "range_refs [] chain_index 0 {''f'', ''g''} {} {''f'', ''g''} Map.empty {''f'', ''g''} Map.empty"
    by (rule range_func [of "''f''", OF _ _ chain_declared(2) too_deep]; simp?)
      (rule range_func [of "''g''", OF _ _ chain_declared(3) too_deep]; simp add: range_end)
  then have self: "func_refs [] chain_index (Suc 0) ''f'' Map.empty {''f'', ''g''} ?c0"
    by (intro body [OF _ chain_bodies(1)]) simp_all
  have g: "func_refs [] chain_index (Suc 0) ''g'' ?c0 {''g'', ''h''} (?c0(''g'' \<mapsto> {''g'', ''h''}))"
    by (rule chain_g_cut) simp
  have "range_refs [] chain_index (Suc 0) {''f'', ''g''} {} {''f'', ''g''} Map.empty {''f'', ''g'', ''h''}
      (?c0(''g'' \<mapsto> {''g'', ''h''}))"
    by (rule range_func [OF _ _ chain_declared(2) self]; simp?)
      (rule range_func [OF _ _ chain_declared(3) g]; simp add: range_end insert_commute)
  from body [OF _ chain_bodies(1) this] show ?case by (auto simp: fun_upd_def)
next
  case (Suc n)
  then obtain c where c: "func_refs [] chain_index (Suc (Suc n)) ''f'' Map.empty {''f'', ''g'', ''h''} c"
    "c ''g'' = Some {''g'', ''h''}" by blast
  have "range_refs [] chain_index (Suc (Suc n)) {''f'', ''g''} {} {''f'', ''g''} Map.empty {''f'', ''g'', ''h''} c"
    by (rule range_func [OF _ _ chain_declared(2) c(1)]; simp?)
      (rule range_func [OF _ _ chain_declared(3) cached [of c, OF c(2)]]; simp add: range_end insert_commute)
  from body [OF _ chain_bodies(1) this] show ?case using c(2) by (auto simp: fun_upd_def)
qed

text \<open>A run that finds \<open>x\<close>: every range visits the other function first.\<close>

lemma self_and_name:
  assumes "func_body ts ix f = Some {f, v}" and "\<not> declared ix f" and "declared ix v" and "c f = None"
  shows "func_refs ts ix (Suc n) f c {f, v} (c(f \<mapsto> {f, v}))"
proof (induction n)
  case 0
  have "range_refs ts ix 0 {f, v} {} {f, v} c {f, v} c"
    by (rule range_func [of f, OF _ _ assms(2) too_deep]; simp?)
      (rule range_name [of v, OF _ _ assms(3)]; use assms(2,3) in \<open>auto simp: range_end insert_Diff_if\<close>)
  then show ?case by (intro body [where c = c and f = f, OF assms(4,1)])
next
  case (Suc n)
  let ?c = "c(f \<mapsto> {f, v})"
  have "range_refs ts ix (Suc n) {f, v} {} {f, v} c {f, v} ?c"
    by (rule range_func [OF _ _ assms(2) Suc.IH]; (simp del: fun_upd_apply)?)
      (rule range_name [of v, OF _ _ assms(3)]; use assms(2,3) in \<open>auto simp: range_end insert_commute insert_Diff_if simp del: fun_upd_apply\<close>)
  from body [where c = c and f = f, OF assms(4,1) this] show ?case by (simp only: fun_upd_upd)
qed

lemma chain_h: "c ''h'' = None \<Longrightarrow> func_refs [] chain_index (Suc n) ''h'' c {''h'', ''x''} (c(''h'' \<mapsto> {''h'', ''x''}))"
  by (rule self_and_name [OF chain_bodies(3) chain_declared(4,1)])

lemma self_after_callee:
  assumes "func_body [] chain_index f = Some {f, k}" and "\<not> declared chain_index f" "\<not> declared chain_index k" "f \<noteq> k"
    and "c f = None" "c k = Some R"
  shows "\<exists>S. func_refs [] chain_index (Suc n) f c S (c(f \<mapsto> S)) \<and> S \<subseteq> {f, k} \<union> R"
proof (induction n)
  case 0
  have "range_refs [] chain_index 0 {f, k} {} {f, k} c {f, k} c"
    by (rule range_func [of f, OF _ _ assms(2) too_deep]; simp?)
      (rule range_func [of k, OF _ _ assms(3) too_deep]; use assms(4) in \<open>simp add: range_end\<close>)
  from body [OF assms(5,1) this] show ?case by (intro exI [of _ "{f, k}"]) (simp del: fun_upd_apply)
next
  case (Suc n)
  then obtain S where S: "func_refs [] chain_index (Suc n) f c S (c(f \<mapsto> S))" "S \<subseteq> {f, k} \<union> R" by blast
  have self: "(c(f \<mapsto> S)) k = Some R" using assms(4,6) by simp
  have "range_refs [] chain_index (Suc n) {f, k} {} {f, k} c ({f, k} \<union> S \<union> R) (c(f \<mapsto> S))"
    by (rule range_func [OF _ _ assms(2) S(1)]; simp?)
      (rule range_func [of k, OF _ _ assms(3) cached [of "c(f \<mapsto> S)", OF self]]; use assms(4) in \<open>simp add: range_end Un_ac insert_commute del: fun_upd_apply\<close>)
  from body [OF assms(5,1) this] S(2) show ?case by (intro exI [of _ "{f, k} \<union> S \<union> R"]) (auto simp del: fun_upd_apply)
qed

lemma callee_first:
  assumes "func_body [] chain_index f = Some {f, k}" and "\<not> declared chain_index f" "\<not> declared chain_index k" "f \<noteq> k"
    and "c f = None" and "func_refs [] chain_index (Suc n) k c R c1" "c1 f = None" "c1 k = Some R"
  shows "func_refs [] chain_index (Suc (Suc n)) f c ({f, k} \<union> R) (c1(f \<mapsto> {f, k} \<union> R))"
proof -
  obtain S where S: "func_refs [] chain_index (Suc n) f c1 S (c1(f \<mapsto> S))" "S \<subseteq> {f, k} \<union> R"
    using self_after_callee [OF assms(1-4,7,8)] by blast
  have eq: "{f, k} \<union> R \<union> S = {f, k} \<union> R" "{f, k} - {k} - {f} = {}" using S(2) by auto
  have "range_refs [] chain_index (Suc n) ({f, k} - {k} - {f}) (insert f (insert k {})) ({f, k} \<union> R \<union> S) (c1(f \<mapsto> S))
      ({f, k} \<union> R) (c1(f \<mapsto> S))"
    unfolding eq by (rule range_end)
  then have "range_refs [] chain_index (Suc n) ({f, k} - {k}) (insert k {}) ({f, k} \<union> R) c1 ({f, k} \<union> R) (c1(f \<mapsto> S))"
    by (rule range_func [OF _ _ assms(2) S(1), rotated 2]) (use assms(4) in simp_all)
  then have "range_refs [] chain_index (Suc n) {f, k} {} {f, k} c ({f, k} \<union> R) (c1(f \<mapsto> S))"
    by (rule range_func [OF _ _ assms(3,6), rotated 2]) simp_all
  from body [OF assms(5,1) this] show ?thesis by simp
qed

lemma chain_f_full: "\<exists>c. func_refs [] chain_index 17 ''f'' Map.empty {''f'', ''g'', ''h'', ''x''} c"
proof -
  let ?h = "[''h'' \<mapsto> {''h'', ''x''}]"
  have "func_refs [] chain_index (Suc 14) ''h'' Map.empty {''h'', ''x''} ?h" by (rule chain_h) simp
  from callee_first [OF chain_bodies(2) chain_declared(3,4) _ _ this]
  have "func_refs [] chain_index (Suc (Suc 14)) ''g'' Map.empty ({''g'', ''h''} \<union> {''h'', ''x''})
      (?h(''g'' \<mapsto> {''g'', ''h''} \<union> {''h'', ''x''}))"
    by simp
  moreover have "{''g'', ''h''} \<union> {''h'', ''x''} = {''g'', ''h'', ''x''}" by auto
  ultimately have g: "func_refs [] chain_index (Suc (Suc 14)) ''g'' Map.empty {''g'', ''h'', ''x''}
      (?h(''g'' \<mapsto> {''g'', ''h'', ''x''}))"
    by (simp only:)
  from callee_first [OF chain_bodies(1) chain_declared(2,3) _ _ g]
  have "\<exists>c. func_refs [] chain_index (Suc (Suc (Suc 14))) ''f'' Map.empty ({''f'', ''g''} \<union> {''g'', ''h'', ''x''}) c"
    by auto
  moreover have "{''f'', ''g''} \<union> {''g'', ''h'', ''x''} = {''f'', ''g'', ''h'', ''x''}" by auto
  moreover have "Suc (Suc (Suc 14)) = (17::nat)" by simp
  ultimately show ?thesis by (simp only:)
qed

lemma chain_order:
  assumes "func_refs [] chain_index 17 ''f'' Map.empty r c" and "''f'' \<in> r"
  shows "orderSpecs [] chain_index [decl_y, decl_x] [r, {}] (order_by chain_index [decl_y, decl_x]
    (deps_of chain_index [decl_y, decl_x] [r, {}]))"
proof -
  have "range_refs [] chain_index 17 {''f''} {} {''f''} Map.empty r c"
    using assms(2) by - (rule range_func [OF _ _ chain_declared(2) assms(1)], simp, simp, simp add: range_end insert_absorb)
  then have "names_of [] chain_index [decl_y, decl_x] Map.empty [r, {}]"
    by (intro names_cons [of _ _ _ _ r c] names_cons [of _ _ _ _ "{}" c] names_nil) (simp_all add: chain_direct range_end)
  then show ?thesis by (simp add: orderSpecs_def)
qed

lemma chain_no_consts: "\<not> isConstSpec chain_index d"
  by (simp add: isConstSpec_def chain_index_def empty_index_def)

lemma chain_emission:
  "order_by chain_index [decl_y, decl_x] (deps_of chain_index [decl_y, decl_x] [{''f'', ''g'', ''h''}, {}]) = [decl_y, decl_x]"
  "order_by chain_index [decl_y, decl_x] (deps_of chain_index [decl_y, decl_x] [{''f'', ''g'', ''h'', ''x''}, {}]) =
   [decl_x, decl_y]"
  by (simp_all add: order_by_def deps_of_def dep_ids_def chain_declared provided_by_def spec_id_def decl_y_def decl_x_def
      var_decl_def spec_names_def ident_at_def improves_def spec_rank_def chain_no_consts)

lemma chain_run_full:
  "orderSpecs [] chain_index [decl_y, decl_x] [{''f'', ''g'', ''h'', ''x''}, {}] [decl_x, decl_y]"
proof -
  obtain c where "func_refs [] chain_index 17 ''f'' Map.empty {''f'', ''g'', ''h'', ''x''} c" using chain_f_full by blast
  from chain_order [OF this] show ?thesis by (simp add: chain_emission)
qed

lemma chain_run_cut:
  "orderSpecs [] chain_index [decl_y, decl_x] [{''f'', ''g'', ''h''}, {}] [decl_y, decl_x]"
proof -
  obtain c where "func_refs [] chain_index (Suc (Suc 15)) ''f'' Map.empty {''f'', ''g'', ''h''} c" using chain_f_cut by blast
  then have "func_refs [] chain_index 17 ''f'' Map.empty {''f'', ''g'', ''h''} c" by simp
  from chain_order [OF this] show ?thesis by (simp add: chain_emission)
qed



text \<open>\<open>var z = h(); var x = 1\<close>, where \<open>h\<close> returns \<open>x\<close>.\<close>

definition decl_z :: decl where
  "decl_z = var_decl 10 ''z'' [CallExpr (Meta 12 12 13) (ident_at 13 ''h'') []]"

definition call_index :: index where
  "call_index = empty_index\<lparr>ix_Vars := [''z'' \<mapsto> decl_z, ''x'' \<mapsto> decl_x], ix_Funcs := [''h'' \<mapsto> func_decl ''h'' ''x'']\<rparr>"

lemma call_names:
  "declared call_index ''x''" "\<not> declared call_index ''h''" "func_body [] call_index ''h'' = Some {''h'', ''x''}"
  "direct_names [] call_index decl_z = {''h''}" "direct_names [] call_index decl_x = {}"
  "spec_names decl_z = [''z'']" "spec_names decl_x = [''x'']" "spec_id decl_z = 10" "spec_id decl_x = 20" "\<not> isConstSpec call_index d"
  by (auto simp: declared_def call_index_def empty_index_def direct_names_def spec_values_def decl_z_def decl_x_def
      var_decl_def refs_def idents_def preorder_children ident_at_def func_named_def func_decl_def func_body_def
      spec_names_def spec_id_def isConstSpec_def)

lemma call_run: "orderSpecs [] call_index [decl_z, decl_x] [{''h'', ''x''}, {}] [decl_x, decl_z]"
proof -
  have "func_refs [] call_index (Suc 16) ''h'' Map.empty {''h'', ''x''} [''h'' \<mapsto> {''h'', ''x''}]"
    by (rule self_and_name [OF call_names(3,2,1)]) simp
  then have h: "func_refs [] call_index 17 ''h'' Map.empty {''h'', ''x''} [''h'' \<mapsto> {''h'', ''x''}]" by simp
  have "range_refs [] call_index 17 {''h''} {} {''h''} Map.empty {''h'', ''x''} [''h'' \<mapsto> {''h'', ''x''}]"
    by (rule range_func [OF _ _ call_names(2) h]; simp?) (simp add: range_end insert_commute)
  then have "names_of [] call_index [decl_z, decl_x] Map.empty [{''h'', ''x''}, {}]"
    by (intro names_cons [of _ _ _ _ "{''h'', ''x''}" "[''h'' \<mapsto> {''h'', ''x''}]"] names_cons [of _ _ _ _ "{}" "[''h'' \<mapsto> {''h'', ''x''}]"] names_nil)
      (simp_all add: call_names range_end)
  moreover have "order_by call_index [decl_z, decl_x] (deps_of call_index [decl_z, decl_x] [{''h'', ''x''}, {}]) = [decl_x, decl_z]"
    by (simp add: order_by_def deps_of_def dep_ids_def call_names provided_by_def improves_def spec_rank_def)
  ultimately show ?thesis by (simp add: orderSpecs_def)
qed

lemma call_waits: "waits_for (reaches [] call_index) call_index [decl_z, decl_x] \<subseteq> {(decl_x, decl_z)}"
proof -
  have "reaches [] call_index decl_x = {}"
    by (auto simp: reaches_def call_names elim: reached.induct)
  moreover have "x \<in> reached [] call_index {''h''} \<Longrightarrow> x \<in> {''h'', ''x''}" for x
    by (induction rule: reached.induct) (auto simp: call_names)
  ultimately show ?thesis by (auto simp: waits_for_def reaches_def call_names)
qed

theorem order_dependencies_first_witness: "comes_before [decl_x, decl_z] decl_x decl_z"
proof -
  have ne: "decl_x \<noteq> decl_z" by (simp add: decl_x_def decl_z_def var_decl_def)
  have ids: "distinct (map spec_id [decl_z, decl_x])" using ne [symmetric] by (auto simp: call_names)
  have one: "one_provider call_index [decl_z, decl_x]" by (auto simp: one_provider_def call_names)
  have "acyclic {(decl_x, decl_z)}" by (rule wf_acyclic) (simp add: wf_insert ne ne [symmetric])
  then have "acyclic (waits_for (reaches [] call_index) call_index [decl_z, decl_x])"
    using call_waits by (rule acyclic_subset)
  moreover have "(decl_x, decl_z) \<in> waits_for (mentions [] call_index) call_index [decl_z, decl_x]"
    using ne by (auto simp: waits_for_def mentions_def call_names)
  ultimately show ?thesis using order_dependencies_first [OF call_run ids one] by blast
qed


text \<open>
  C8: the order is not determined by the source: for \<open>var y = f(); var x = 1\<close>, where \<open>f\<close> reads \<open>x\<close> through two more
  functions, a run can initialize \<open>x\<close> first, and a run can initialize \<open>y\<close> first although \<open>y\<close> reaches \<open>x\<close>.
\<close>

theorem order_undetermined:
  "(\<exists>nss. orderSpecs [] chain_index [decl_y, decl_x] nss [decl_x, decl_y]) \<and>
   (\<exists>nss. orderSpecs [] chain_index [decl_y, decl_x] nss [decl_y, decl_x]) \<and>
   ''x'' \<in> reached [] chain_index (direct_names [] chain_index decl_y)"
proof -
  have "''f'' \<in> reached [] chain_index {''f''}" by (simp add: reached_base)
  then have "''g'' \<in> reached [] chain_index {''f''}" by (rule reached_func [OF _ chain_declared(2) chain_bodies(1)]) simp
  then have "''h'' \<in> reached [] chain_index {''f''}" by (rule reached_func [OF _ chain_declared(3) chain_bodies(2)]) simp
  then have "''x'' \<in> reached [] chain_index {''f''}" by (rule reached_func [OF _ chain_declared(4) chain_bodies(3)]) simp
  then show ?thesis using chain_run_full chain_run_cut by (auto simp: chain_direct)
qed

text \<open>\<open>var b = a; var a = func() { b := 1; return b }()\<close>, a package without functions.\<close>

definition decl_b :: decl where
  "decl_b = var_decl 10 ''b'' [ident_at 13 ''a'']"

definition decl_a :: decl where
  "decl_a = var_decl 20 ''a''
     [CallExpr (Meta 22 22 40) (FuncLit (Meta 23 23 39) (FuncType (Meta 23 23 24) None None None)
        (BlockStmt (Meta 25 25 39) [AssignStmt (Meta 26 26 30) [ident_at 26 ''b''] DEFINE [BasicLit (Meta 28 28 29) token.INT ''1''],
           ReturnStmt (Meta 32 32 38) [ident_at 34 ''b'']])) []]"

definition shadow_index :: index where
  "shadow_index = empty_index\<lparr>ix_Vars := [''b'' \<mapsto> decl_b, ''a'' \<mapsto> decl_a]\<rparr>"

lemma shadow_names:
  "declared shadow_index ''a''" "declared shadow_index ''b''" "\<not> isConstSpec shadow_index d"
  "direct_names [] shadow_index decl_b = {''a''}" "direct_names [] shadow_index decl_a = {''b''}"
  by (auto simp: declared_def isConstSpec_def shadow_index_def empty_index_def direct_names_def spec_values_def decl_b_def
      decl_a_def var_decl_def refs_def idents_def preorder_children ident_at_def func_named_def)

lemma shadow_emission:
  "order_by shadow_index [decl_b, decl_a] (deps_of shadow_index [decl_b, decl_a] [{''a''}, {''b''}]) = [decl_b, decl_a]"
  by (simp add: order_by_def deps_of_def dep_ids_def shadow_names provided_by_def spec_id_def decl_b_def decl_a_def
      var_decl_def spec_names_def ident_at_def improves_def spec_rank_def)

lemma range_declared:
  "range_refs ts ix n todo vis r c r' c' \<Longrightarrow> \<forall>x\<in>r. declared ix x \<Longrightarrow> r' = r \<and> c' = c"
  by (induction "ts" ix n todo vis r c r' c' rule: func_refs_range_refs.inducts(2) [where ?P1.0 = "\<lambda>_ _ _ _ _ _ _. True"]) auto

lemma range_one: "declared ix x \<Longrightarrow> range_refs ts ix n {x} {} {x} c {x} c"
  by (rule range_name [of x]) (simp_all add: range_end)

text \<open>
  C9: the names of an initializer are collected without regard to scope: here the local \<open>b\<close> of the function makes
  \<open>a\<close> wait for the variable \<open>b\<close>, so that on every run \<open>b\<close> is initialized from \<open>a\<close> before \<open>a\<close> is.
\<close>

theorem shadow_order:
  "orderSpecs [] shadow_index [decl_b, decl_a] nss out \<longleftrightarrow> nss = [{''a''}, {''b''}] \<and> out = [decl_b, decl_a]"
proof
  assume o: "orderSpecs [] shadow_index [decl_b, decl_a] nss out"
  then have "names_of [] shadow_index [decl_b, decl_a] Map.empty nss" by (simp add: orderSpecs_def)
  then have "nss = [{''a''}, {''b''}]"
    by (auto elim!: names_of.cases simp: shadow_names dest!: range_declared)
  then show "nss = [{''a''}, {''b''}] \<and> out = [decl_b, decl_a]" using o by (simp add: orderSpecs_def shadow_emission)
next
  assume "nss = [{''a''}, {''b''}] \<and> out = [decl_b, decl_a]"
  moreover have "names_of [] shadow_index [decl_b, decl_a] Map.empty [{''a''}, {''b''}]"
    by (intro names_cons [where c' = Map.empty] names_nil) (simp_all add: shadow_names range_one)
  ultimately show "orderSpecs [] shadow_index [decl_b, decl_a] nss out" by (simp add: orderSpecs_def shadow_emission)
qed

end
