(* ===== verification/PackageInit.thy ===== *)
theory PackageInit
  imports CompileStmt InitOrder
begin

text \<open>
  Package initializers (\<open>compile/compile.go\<close>): the specifications of a package in the order \<open>orderSpecs\<close> gives, each binding
  its names as globals, then the init functions. What depends on the file a declaration is in (imports) is passed per file.
  The texts of the comments of a specification, host variables and the quoting functions of \<open>strconv\<close> are arguments.
\<close>

section \<open>Embed directives\<close>

definition EmbedBuiltin :: string where
  "EmbedBuiltin = ''__minigo_embed__#''"

abbreviation blank :: "char \<Rightarrow> bool" where
  "blank ch \<equiv> ch = CHR 32 \<or> ch = CHR 9"

text \<open>
  \<open>splitEmbedPatterns\<close>: patterns split at blanks, Go strings kept whole. \<open>quoted\<close> gives the quoted prefix of a string with
  what it unquotes to, if it does. Each round takes at least one character, so as much fuel as there are characters is enough.
\<close>

fun split_patterns :: "(string \<Rightarrow> (string \<times> string option) option) \<Rightarrow> nat \<Rightarrow> string \<Rightarrow> string list" where
  "split_patterns quoted 0 s = []"
| "split_patterns quoted (Suc n) s =
     (case dropWhile blank s of
        [] \<Rightarrow> []
      | q # r \<Rightarrow>
          (case (if q = CHR 34 \<or> q = CHR 96 then quoted (q # r) else None) of
             Some (pre, u) \<Rightarrow> opt u @ split_patterns quoted n (drop (length pre) (q # r))
           | None \<Rightarrow>
               takeWhile (\<lambda>ch. \<not> blank ch) (q # r) #
                 split_patterns quoted n (dropWhile (\<lambda>ch. \<not> blank ch) (q # r))))"

definition splitEmbedPatterns :: "(string \<Rightarrow> (string \<times> string option) option) \<Rightarrow> string \<Rightarrow> string list" where
  "splitEmbedPatterns quoted s = split_patterns quoted (Suc (length s)) s"

definition embedPatterns :: "(string \<Rightarrow> (string \<times> string option) option) \<Rightarrow> string list \<Rightarrow> string list" where
  "embedPatterns quoted comments =
     concat (map (\<lambda>text.
         let d = ''//go:embed'' in
         if take (length d) text \<noteq> d then []
         else case drop (length d) text of
           [] \<Rightarrow> splitEmbedPatterns quoted []
         | ch # r \<Rightarrow> if blank ch then splitEmbedPatterns quoted (ch # r) else [])
       comments)"

section \<open>Specifications\<close>

definition bind_global :: "bool \<Rightarrow> node \<Rightarrow> 't cstate \<Rightarrow> 't cstate" where
  "bind_global isConst n = emit_k OpNewGlobal (KStr (ident_name n)) (if isConst then 1 else 0) (pos_of n)"

definition coerceVar :: "'t comp \<Rightarrow> bool \<Rightarrow> node option \<Rightarrow> node \<Rightarrow> 't cstate \<Rightarrow> 't cstate" where
  "coerceVar K isConst t n =
     (case t of
        None \<Rightarrow> skip
      | Some t \<Rightarrow>
          if isConst then skip else seq [k_type K t, emit_k OpCoerceGlobal (KStr (ident_name n)) 0 (pos_of n)])"

fun stampVarTyps :: "'t chooks \<Rightarrow> 't comp \<Rightarrow> nat \<Rightarrow> node list \<Rightarrow> nat \<Rightarrow> node list \<Rightarrow> 't cstate \<Rightarrow> 't cstate" where
  "stampVarTyps hk K n rhs i [] c = c"
| "stampVarTyps hk K n rhs i (l # ls) c =
     stampVarTyps hk K n rhs (Suc i) ls
       (case l of
          Ident m x \<Rightarrow>
            if x = ''_'' then c
            else (case q_inferredBind hk n rhs i c of
                None \<Rightarrow> c
              | Some t \<Rightarrow> seq [k_type K t, emit_k OpCoerceGlobal (KStr x) 0 (npos m)] c)
        | _ \<Rightarrow> c)"

text \<open>A variable filled by the embed builtin from the patterns of its directives.\<close>

definition embed_var :: "'t comp \<Rightarrow> string list \<Rightarrow> nat \<Rightarrow> node \<Rightarrow> node \<Rightarrow> 't cstate \<Rightarrow> 't cstate" where
  "embed_var K pats pos t n =
     seq ([k_expr K (Ident (Meta 0 pos pos) EmbedBuiltin), k_type K t] @
       map (\<lambda>p. emit_k OpConst (KStr p) 0 pos) pats @ replicate (length pats + 1) (emit OpNil 0 0 pos) @
       [emit OpCall (int (length pats + 1)) 0 pos, bind_global False n, coerceVar K False (Some t) n])"

text \<open>One name with a value of its own.\<close>

definition value_name ::
    "'t chooks \<Rightarrow> 't comp \<Rightarrow> (string \<Rightarrow> 't option) \<Rightarrow> bool \<Rightarrow> node option \<Rightarrow> node option \<Rightarrow> node list \<Rightarrow> nat \<Rightarrow>
      nat \<times> node \<Rightarrow> 't cstate \<Rightarrow> 't cstate"
where
  "value_name hk K hostVar isConst effType t vals pos ni c =
     (let (i, n) = ni; bound = seq [coerce_top K effType pos, bind_global isConst n, coerceVar K isConst t n] in
      case (if isConst then None else hostVar (ident_name n)) of
        Some hv \<Rightarrow> bound (emit_k OpConst (KOpaque hv) 0 (pos_of n) c)
      | None \<Rightarrow>
          if \<not> i < length vals then crash c
          else if isConst \<and> (case effType of Some te \<Rightarrow> \<not> q_bareScalar hk te c | None \<Rightarrow> False)
          then bind_global isConst n (typed_const hk K (the effType) (vals ! i) c)
          else bound (if isConst then const_expr hk K (vals ! i) c else k_expr K (vals ! i) c))"

definition valueSpec ::
    "'t chooks \<Rightarrow> 't comp \<Rightarrow> (string \<Rightarrow> 't option) \<Rightarrow> string list \<Rightarrow> decl \<Rightarrow> node \<Rightarrow> 't cstate \<Rightarrow> 't cstate"
where
  "valueSpec hk K hostVar pats d vs c =
     (let isConst = (d_Kind d = ConstKind); names = vs_Names vs; t = vs_Type vs; pos = pos_of vs;
          inherits = (isConst \<and> vs_Values vs = []);
          vals = (if inherits then d_Inherited d else vs_Values vs);
          effType = (if inherits then d_InheritedType d else t);
          c1 = (if \<not> isConst \<and> vals = [] \<and> length names = 1 \<and> t \<noteq> None \<and> pats \<noteq> []
            then embed_var K pats pos (the t) (hd names) c
            else if vals = []
            then seq (concat (map (\<lambda>n. [emit OpNil 0 0 (pos_of n), bind_global isConst n, coerceVar K isConst t n]) names)) c
            else if length vals = 1 \<and> length names > 1
            then (let ok = (if \<not> isConst \<and> length names = 2 then commaOkRhs hk K (hd vals) else None)
                  in seq ([case ok of Some p \<Rightarrow> p | None \<Rightarrow> k_expr K (hd vals), emit3 OpUnpack (int (length names)) 0 0 pos] @
                      concat (map (\<lambda>n. [coerce_top K effType pos, bind_global isConst n, coerceVar K isConst t n]) (rev names))) c)
            else seq (map (value_name hk K hostVar isConst effType t vals pos) (enumerate 0 names)) c)
      in if isConst \<or> t \<noteq> None then c1 else stampVarTyps hk K (length names) vals 0 names c1)"

section \<open>Initializers\<close>

text \<open>The compiler at the start, with the hidden local for \<open>iota\<close>.\<close>

definition init_compiler :: "index \<Rightarrow> string \<Rightarrow> nat \<times> 't cstate" where
  "init_compiler ix name =
     (let c = push_block
           \<lparr>c_fs = [newFScope],
            c_ch = \<lparr>ch_Name = name, ch_Code = [], ch_Consts = [], ch_NLocals = 0, ch_NParams = 0, ch_NResults = 0,
              ch_NamedSlots = [], ch_Upvals = [], ch_IsVararg = False, ch_Escapes = 0\<rparr>,
            c_ctrl = [], c_binds = Map.empty, c_index = Some ix, c_results = [], c_labels = Map.empty, c_pendingGotos = [],
            c_pendingLabels = [], c_falls = [], c_inClause = False, c_symName = [], c_litCount = 0,
            c_iotaVal = None, c_synthSeq = 0, c_funs = [], c_oof = False, c_crash = False\<rparr>;
          slot = next_slot c
      in (slot, seq [declare_local ''iota'' 0, on_scope (\<lambda>s. s\<lparr>fs_iota := Some slot\<rparr>), emit_k OpConst (KInt 0) 0 0,
           emit OpNewLocal (int slot) 0 0] c))"

definition set_iota :: "nat \<Rightarrow> decl \<Rightarrow> 't cstate \<Rightarrow> 't cstate" where
  "set_iota slot d c =
     (seq [emit_k OpConst (KInt (int (d_Idx d))) 0 (d_Pos d), emit OpSetLocal (int slot) 0 (d_Pos d)] c)
       \<lparr>c_iotaVal := Some (d_Idx d)\<rparr>"

text \<open>A specification of a package: its declaration's file gives the hooks.\<close>

definition init_spec ::
    "(src_file \<Rightarrow> 't chooks) \<Rightarrow> nat \<Rightarrow> (string \<Rightarrow> 't option) \<Rightarrow> (decl \<Rightarrow> string list) \<Rightarrow> nat \<Rightarrow> decl \<Rightarrow> 't cstate \<Rightarrow> 't cstate"
where
  "init_spec hk n hostVar pats slot d c =
     (let c1 = (if d_Kind d = ConstKind then set_iota slot d c else c);
          h = hk (d_File d)
      in case d_Spec d of
        Some vs \<Rightarrow> (valueSpec h (comp_n h n) hostVar (pats d) d vs c1)\<lparr>c_iotaVal := None\<rparr>
      | None \<Rightarrow> crash c1)"

definition init_call :: "(decl \<Rightarrow> 't) \<Rightarrow> decl \<Rightarrow> 't cstate \<Rightarrow> 't cstate" where
  "init_call fn d =
     seq [emit_k OpConst (KOpaque (fn d)) 0 (d_Pos d), emit OpCall 0 0 (d_Pos d), emit OpPop 0 0 (d_Pos d)]"

definition finish_init :: "'t cstate \<Rightarrow> 't cstate" where
  "finish_init c =
     (let c1 = emit OpReturn 0 0 0 c
      in c1\<lparr>c_ch := (c_ch c1)\<lparr>ch_NLocals := next_slot c1, ch_Upvals := fs_upvals (cur_scope c1)\<rparr>\<rparr>)"

definition InitFunc ::
    "(src_file \<Rightarrow> 't chooks) \<Rightarrow> nat \<Rightarrow> (string \<Rightarrow> 't option) \<Rightarrow> (decl \<Rightarrow> string list) \<Rightarrow> (decl \<Rightarrow> 't) \<Rightarrow> string \<Rightarrow> index \<Rightarrow>
      decl list \<Rightarrow> 't cstate"
where
  "InitFunc hk n hostVar pats fn pkg ix order =
     (let (slot, c) = init_compiler ix (pkg @ ''.__init__'')
      in finish_init (seq (map (init_spec hk n hostVar pats slot) order @ map (init_call fn) (ix_Inits ix)) c))"

text \<open>The constants alone, unless one of them needs a variable or a function.\<close>

definition ConstInitFunc ::
    "(src_file \<Rightarrow> 't chooks) \<Rightarrow> nat \<Rightarrow> (string \<Rightarrow> 't option) \<Rightarrow> (decl \<Rightarrow> string list) \<Rightarrow> string \<Rightarrow> index \<Rightarrow> decl list \<Rightarrow>
      't cstate option"
where
  "ConstInitFunc hk n hostVar pats pkg ix order =
     (if constRefsVarOrFunc ix (spec_reps True [] (ix_Decls ix)) then None
      else
        let (slot, c) = init_compiler ix (pkg @ ''.__consts__'')
        in Some (finish_init (seq (map (init_spec hk n hostVar pats slot) order) c)))"

end
