(* ===== verification/InitTyped.thy ===== *)
theory InitTyped
  imports CompiledCode PackageInit
begin

text \<open>
  The initializers of a package, the whole one and the one for constants, are typed code and run as soundly as
  compiled functions.
\<close>

section \<open>Specifications\<close>

lemma op_zero [simp]:
  "op_ok n h OpCall 0 b' \<longleftrightarrow> 1 \<le> h" "next_op h OpCall 0 b' = h - 1 + 1"
  "op_ok n h OpNewLocal 0 b' \<longleftrightarrow> 1 \<le> h \<and> 0 < n"
  by (simp_all only: op_effect) auto

context typed_comp
begin

lemma leads_bind_global: "leads b n (Suc h) h c (bind_global isConst nm c)"
  unfolding bind_global_def by (rule leads_name [where p = "Suc 0" and q = 0]) simp_all

lemma leads_coerceVar:
  assumes "\<And>te. t = Some te \<Longrightarrow> well_formed te"
  shows "leads b n h h c (coerceVar K isConst t nm c)"
  unfolding coerceVar_def
  by (rule leads_option_fun) (simp add: leads_skip, rule leads_if_fun, simp add: leads_skip, (rule leads_seqs type_op leads_name | simp add: assms)+)

lemma leads_bound:
  assumes "\<And>te. e = Some te \<Longrightarrow> well_formed te" and "\<And>te. t = Some te \<Longrightarrow> well_formed te"
  shows "leads b n (Suc h) h c (seq [coerce_top K e pos, bind_global isConst nm, coerceVar K isConst t nm] c)"
  by (rule leads_seqs leads_coerce_top leads_bind_global leads_coerceVar | simp add: assms)+

lemma leads_stampVarTyps: "leads b n h h c (stampVarTyps hk K k rhs i ls c)"
proof (induction ls arbitrary: i c)
  case (Cons l ls)
  have "leads b n h h c (case l of Ident m x \<Rightarrow> if x = ''_'' then c
      else (case q_inferredBind hk k rhs i c of None \<Rightarrow> c
        | Some t \<Rightarrow> seq [k_type K t, emit_k OpCoerceGlobal (KStr x) 0 (npos m)] c) | _ \<Rightarrow> c)"
  proof (cases "\<exists>m x. l = Ident m x")
    case True
    then obtain m x where l: "l = Ident m x" by blast
    have "leads b n h h c (seq [k_type K t, emit_k OpCoerceGlobal (KStr x) 0 (npos m)] c)" if "q_inferredBind hk k rhs i c = Some t" for t
      by (rule leads_seqs type_op leads_name | simp add: inferred_type [OF that])+
    then show ?thesis unfolding l node.case by (intro leads_if leads_option leads_refl)
  qed (simp add: leads_refl split: node.split)
  from leads_trans [OF this Cons.IH] show ?case by simp
qed (simp add: leads_refl)

lemma leads_embed_var:
  assumes t: "well_formed t"
  shows "leads b n 0 0 c (embed_var K pats pos t nm c)"
proof -
  let ?k = "length pats"
  have b: "well_formed (Ident (Meta 0 pos pos) EmbedBuiltin)" by (simp add: well_formed_iff [of "Ident mm xx" for mm xx] local_ok_def)
  have 1: "leads b n 0 (Suc (Suc 0)) c (seq [k_expr K (Ident (Meta 0 pos pos) EmbedBuiltin), k_type K t] c)" for c
    by (rule leads_seqs comp_rules b t | simp)+
  have 2: "leads b n h (length pats + h) c (seq (map (\<lambda>p. emit_k OpConst (KStr p) 0 pos) pats) c)" for h c
    by (rule leads_seq_map1) (rule leads_const)
  have nil: "leads b n h (Suc h) c (emit OpNil 0 0 pos c)" for h c by (rule leads_emit') simp_all
  have "leads b n h (length (replicate j ()) + h) c (seq (map (\<lambda>_. emit OpNil 0 0 pos) (replicate j ())) c)" for j h c
    by (rule leads_seq_map1) (rule nil)
  then have 3: "leads b n h (j + h) c (seq (replicate j (emit OpNil 0 0 pos)) c)" for j h c by simp
  have call: "leads b n (2 * Suc ?k + 1) (Suc 0) c (emit OpCall (int (Suc ?k)) 0 pos c)" for c
    by (rule leads_emit') (simp_all del: of_nat_Suc)
  have eq: "Suc ?k + (?k + Suc (Suc 0)) = 2 * Suc ?k + 1" by simp
  have 4: "leads b n (Suc ?k + (?k + Suc (Suc 0))) 0 c
      (seq [emit OpCall (int (Suc ?k)) 0 pos, bind_global False nm, coerceVar K False (Some t) nm] c)" for c
    unfolding eq by (rule leads_seq_Cons [OF call leads_seq_Cons [OF leads_bind_global leads_seq_simple [OF leads_coerceVar]]]) (simp add: t)
  have "leads b n 0 0 c (seq ([k_expr K (Ident (Meta 0 pos pos) EmbedBuiltin), k_type K t] @
       (map (\<lambda>p. emit_k OpConst (KStr p) 0 pos) pats @ (replicate (Suc ?k) (emit OpNil 0 0 pos) @
       [emit OpCall (int (Suc ?k)) 0 pos, bind_global False nm, coerceVar K False (Some t) nm]))) c)"
    by (rule leads_seq_append [OF 1 leads_seq_append [OF 2 leads_seq_append [OF 3 4]]])
  then show ?thesis by (simp add: embed_var_def)
qed

lemma leads_value_name:
  assumes e: "\<And>te. effType = Some te \<Longrightarrow> well_formed te" and t: "\<And>te. t = Some te \<Longrightarrow> well_formed te"
    and vals: "list_all well_formed vals"
  shows "leads b n 0 0 c (value_name hk K hostVar isConst effType t vals pos ni c)"
proof -
  obtain i nm where ni: "ni = (i, nm)" by fastforce
  have v: "well_formed (vals ! i)" if "i < length vals" using that vals by (simp add: list_all_length)
  note bound = leads_trans [OF _ leads_bound [OF e t]]
  have tc: "leads b n 0 0 c (bind_global isConst nm (typed_const hk K (the effType) (vals ! i) c))"
    if i: "i < length vals" and typed: "isConst \<and> (case effType of Some te \<Rightarrow> \<not> q_bareScalar hk te c | None \<Rightarrow> False)"
  proof -
    obtain te where "effType = Some te" using typed by (auto split: option.splits)
    then show ?thesis using leads_trans [OF leads_typed_const leads_bind_global] e v [OF i] by simp
  qed
  have val: "leads b n 0 (Suc 0) c (if isConst then const_expr hk K (vals ! i) c else k_expr K (vals ! i) c)" if "i < length vals"
    using leads_const_expr expr v that by simp
  show ?thesis
    unfolding value_name_def ni Let_def prod.case
    by (intro leads_option leads_if bound leads_const leads_crash tc val) simp_all
qed

lemma leads_valueSpec:
  assumes vs: "well_formed vs" and inh: "list_all well_formed (d_Inherited d)"
    and inhT: "\<And>te. d_InheritedType d = Some te \<Longrightarrow> well_formed te"
  shows "leads b n 0 0 c (valueSpec hk K hostVar pats d vs c)"
proof -
  define isConst where "isConst \<longleftrightarrow> d_Kind d = ConstKind"
  define vals where "vals = (if isConst \<and> vs_Values vs = [] then d_Inherited d else vs_Values vs)"
  define eff where "eff = (if isConst \<and> vs_Values vs = [] then d_InheritedType d else vs_Type vs)"
  let ?names = "vs_Names vs" and ?t = "vs_Type vs" and ?pos = "pos_of vs"
  have sp: "list_all well_formed (opt ?t @ vs_Values vs)"
    using vs by (cases vs) (auto simp: vs_Type_def vs_Values_def list_all_iff intro: well_formed_child)
  have t: "well_formed te" if "?t = Some te" for te using sp that by simp
  have e: "well_formed te" if "eff = Some te" for te using t inhT that by (auto simp: eff_def split: if_splits)
  have v: "list_all well_formed vals" using sp inh by (simp add: vals_def)
  let ?ok = "if \<not> isConst \<and> length ?names = 2 then commaOkRhs hk K (hd vals) else None"
  let ?bound = "\<lambda>n. [coerce_top K eff ?pos, bind_global isConst n, coerceVar K isConst ?t n]"
  define c1 where "c1 = (if \<not> isConst \<and> vals = [] \<and> length ?names = 1 \<and> ?t \<noteq> None \<and> pats \<noteq> []
            then embed_var K pats ?pos (the ?t) (hd ?names) c
            else if vals = []
            then seq (concat (map (\<lambda>n. [emit OpNil 0 0 (pos_of n), bind_global isConst n, coerceVar K isConst ?t n]) ?names)) c
            else if length vals = 1 \<and> length ?names > 1
            then seq ([case ?ok of Some p \<Rightarrow> p | None \<Rightarrow> k_expr K (hd vals), emit3 OpUnpack (int (length ?names)) 0 0 ?pos] @
                      concat (map ?bound (rev ?names))) c
            else seq (map (value_name hk K hostVar isConst eff ?t vals ?pos) (enumerate 0 ?names)) c)"
  have none: "leads b n 0 0 c (seq (concat (map (\<lambda>n. [emit OpNil 0 0 (pos_of n), bind_global isConst n, coerceVar K isConst ?t n]) ?names)) c)"
    by (rule leads_seq_concat0) (rule leads_seqs leads_emit' leads_bind_global leads_coerceVar | simp add: t)+
  have unpack: "leads b n 0 0 c (seq ([case ?ok of Some p \<Rightarrow> p | None \<Rightarrow> k_expr K (hd vals), emit3 OpUnpack (int (length ?names)) 0 0 ?pos] @
                      concat (map ?bound (rev ?names))) c)" if one: "length vals = 1 \<and> length ?names > 1"
  proof -
    obtain x where x: "vals = [x]" "well_formed x" using one v by (cases vals) auto
    have first: "leads b n 0 (Suc 0) c ((case ?ok of Some p \<Rightarrow> p | None \<Rightarrow> k_expr K (hd vals)) c)" for c
      using leads_commaOk [OF x(2)] expr [OF x(2)] by (auto simp: x(1) split: option.split if_splits)
    have "leads b n (length xs) 0 c (seq (concat (map ?bound xs)) c)" for xs c
    proof (induction xs arbitrary: c)
      case (Cons y ys)
      show ?case
        by (simp only: list.map concat.simps list.size(4) add_Suc_right Nat.add_0_right, rule leads_seq_append [OF leads_bound Cons.IH])
          (simp_all add: e t)
    qed (simp add: leads_seq_Nil)
    from this [of "rev ?names"] have "leads b n (length ?names) 0 c (seq (concat (map ?bound (rev ?names))) c)" for c by simp
    then show ?thesis
      by (intro leads_seq_append [of _ _ _ "length ?names"]) (rule leads_seqs first leads_emit3 | simp)+
  qed
  have "leads b n 0 0 c c1"
    unfolding c1_def
    by (intro leads_if none unpack leads_embed_var leads_seq_map0 leads_value_name e t v) (simp_all add: t)
  moreover have "leads b n 0 0 c1 (if isConst \<or> ?t \<noteq> None then c1 else stampVarTyps hk K (length ?names) vals 0 ?names c1)"
    by (intro leads_if leads_refl leads_stampVarTyps)
  ultimately show ?thesis
    unfolding valueSpec_def Let_def c1_def vals_def eff_def isConst_def by (rule leads_trans)
qed

end

section \<open>Initializers\<close>

text \<open>What a declaration of a package must bring: its own specification and the one a constant inherits from.\<close>

definition spec_ready :: "decl \<Rightarrow> bool" where
  "spec_ready d \<longleftrightarrow>
     list_all well_formed (opt (d_Spec d) @ d_Inherited d @ opt (d_InheritedType d))"

lemma leads_set_iota: "slot < n \<Longrightarrow> leads b n 0 0 c (set_iota slot d c)"
proof -
  assume n: "slot < n"
  have "leads b n 0 0 c (seq [emit_k OpConst (KInt (int (d_Idx d))) 0 (d_Pos d), emit OpSetLocal (int slot) 0 (d_Pos d)] c)"
    by (rule leads_seqs leads_const leads_emit | simp add: n)+
  then show ?thesis unfolding set_iota_def by (rule leads_trans) (rule leads_core, simp)
qed

lemma leads_init_spec:
  assumes hk: "\<And>f. typed_hooks (hk f)" and d: "spec_ready d" and slot: "slot < n"
  shows "leads b n 0 0 c (init_spec hk k hostVar pats slot d c)"
proof -
  let ?h = "hk (d_File d)" and ?c1 = "if d_Kind d = ConstKind then set_iota slot d c else c"
  have 1: "leads b n 0 0 c ?c1" by (intro leads_if leads_set_iota slot leads_refl)
  have 2: "leads b n 0 0 ?c1 ((valueSpec ?h (comp_n ?h k) hostVar pats d vs ?c1)\<lparr>c_iotaVal := None\<rparr>)"
    if "d_Spec d = Some vs" for vs pats
  proof (rule leads_trans)
    show "leads b n 0 0 ?c1 (valueSpec ?h (comp_n ?h k) hostVar pats d vs ?c1)"
      by (rule typed_comp.leads_valueSpec [OF fuel_typed [OF hk]]) (use d that in \<open>simp_all add: spec_ready_def\<close>)
  qed (rule leads_core, simp)
  show ?thesis
    unfolding init_spec_def Let_def by (rule leads_option [OF leads_trans [OF 1 leads_crash] leads_trans [OF 1 2]])
qed

lemma leads_init_call: "leads b n 0 0 c (init_call fn d c)"
  unfolding init_call_def by (rule leads_seqs leads_const leads_emit | simp)+

text \<open>The state after \<open>iota\<close> is declared has slot 0 and no code.\<close>

definition iota_declared :: "index \<Rightarrow> string \<Rightarrow> 't cstate" where
  "iota_declared ix name =
     on_scope (\<lambda>s. s\<lparr>fs_iota := Some 0\<rparr>) (declare_local ''iota'' 0 (push_block
       (new_compiler (Some ix) [] Map.empty name\<lparr>c_symName := []\<rparr>)))"

lemma init_compiler_start:
  "init_compiler ix name =
     (0, seq [emit_k OpConst (KInt 0) 0 0, emit OpNewLocal 0 0 0] (iota_declared ix name))"
  by (simp add: init_compiler_def iota_declared_def new_compiler_def Let_def seq_simps next_slot_def cur_scope_def push_block_def
      declare_local_def on_scope_def pushBlock_def newFScope_def)

lemma fresh_iota: "fresh_function (iota_declared ix name)"
  by (auto simp: fresh_function_def typed_def flows_def bounded_def iota_declared_def declare_local_def fs_declare_def put_def in_some_block_def bind_at_def push_block_def
      new_compiler_def on_scope_def here_def holes_def recorded_def pushBlock_def newFScope_def next_slot_def cur_scope_def
      scope_bound_def funs_typed_def)

lemma next_slot_iota: "next_slot (iota_declared ix name) = 1"
  by (simp add: iota_declared_def declare_local_def fs_declare_def put_def in_some_block_def bind_at_def push_block_def
      new_compiler_def on_scope_def pushBlock_def newFScope_def next_slot_def cur_scope_def)

lemma finish_init_done:
  fixes c :: "'t cstate"
  assumes "leads InExpr 1 0 0 (iota_declared ix name) c" and c': "c' = finish_init c"
  shows "(\<exists>ht. chunk_typed name_const (fun_upvals (c_funs c')) (c_ch c') ht) \<and> funs_typed (c_funs c')"
proof -
  let ?c0 = "iota_declared ix name :: 't cstate" and ?c1 = "emit OpReturn 0 0 0 c"
  have fresh: "fresh_function ?c0" by (rule fresh_iota)
  then have fr: "typed {} ?c0 [0]" "c_ctrl ?c0 = []" "c_falls ?c0 = []" "c_pendingGotos ?c0 = []"
    by (simp_all add: fresh_function_def)
  have "leads InExpr 1 0 0 c ?c1"
    unfolding emit_add by (rule leads_add) (simp_all add: plain_def takes_def falls_to_def branches_to_def operands_ok_def)
  from leads_trans [OF assms(1) this] obtain ht where 1: "grown InExpr ?c0 [0] ?c1 ht" "typed {} ?c1 ht"
    by (rule leadsE [OF _ fr(1)]) (simp_all add: next_slot_iota)
  then have none: "recorded ?c1 = {}" using fr by (auto simp: grown_def recorded_def)
  have "flow_ok (code ?c1) ht i" if "i < here ?c1" for i
    using 1(2) none that flow_ok_settled by (fastforce simp: typed_def flows_def holes_def)
  moreover have "bounded ?c1" using 1(2) by (simp add: typed_def)
  moreover have "length ht = Suc (here ?c1)" "ht ! 0 = 0" using 1(2) by (simp_all add: typed_def flows_def)
  ultimately have "chunk_typed name_const (fun_upvals (c_funs ?c1)) ((c_ch ?c1)\<lparr>ch_NLocals := next_slot ?c1,
      ch_Upvals := fs_upvals (cur_scope ?c1)\<rparr>) ht"
    by (auto simp: chunk_typed_def bounded_def list_all_length here_def)
  moreover have "funs_typed (c_funs ?c1)" using 1(2) by (simp add: typed_def bounded_def)
  ultimately show ?thesis unfolding c' finish_init_def Let_def by auto
qed

lemma init_done:
  fixes c' :: "'t cstate"
  assumes hk: "\<And>f. typed_hooks (hk f)" and ds: "\<forall>d\<in>set order. spec_ready d"
    and c': "c' = finish_init (seq (map (init_spec hk k hostVar pats 0) order @ map (init_call fn) inits) (snd (init_compiler ix name)))"
  shows "(\<exists>ht. chunk_typed name_const (fun_upvals (c_funs c')) (c_ch c') ht) \<and> funs_typed (c_funs c')"
proof (rule finish_init_done [OF _ c'])
  let ?c0 = "iota_declared ix name :: 't cstate"
  have "leads InExpr 1 0 0 ?c0 (snd (init_compiler ix name))"
    unfolding init_compiler_start snd_conv by (rule leads_seqs leads_const leads_emit | simp)+
  moreover have "leads InExpr 1 0 0 c (seq (map (init_spec hk k hostVar pats 0) order) c)" for c
    by (rule leads_seq_map0) (use leads_init_spec [OF hk] ds in simp)
  moreover have "leads InExpr 1 0 0 c (seq (map (init_call fn) inits) c)" for c by (rule leads_seq_map0) (rule leads_init_call)
  ultimately show "leads InExpr 1 0 0 ?c0
      (seq (map (init_spec hk k hostVar pats 0) order @ map (init_call fn) inits) (snd (init_compiler ix name)))"
    unfolding seq_simps(3) by (meson leads_trans)
qed

section \<open>Initializers on the machine\<close>

lemma initializer_done:
  assumes hk: "\<And>f. typed_hooks (hk f)" and ds: "\<forall>d\<in>set order. spec_ready d"
    and c: "c = InitFunc hk k hostVar pats fn pkg ix order \<or> ConstInitFunc hk k hostVar pats pkg ix order = Some c"
  shows "\<exists>ht. chunk_typed name_const (fun_upvals (c_funs c)) (c_ch c) ht" and "funs_typed (c_funs c)"
proof -
  have "\<exists>inits name. c = finish_init (seq (map (init_spec hk k hostVar pats 0) order @ map (init_call fn) inits)
      (snd (init_compiler ix name)))"
    using c
  proof
    assume "c = InitFunc hk k hostVar pats fn pkg ix order"
    then have "c = finish_init (seq (map (init_spec hk k hostVar pats 0) order @ map (init_call fn) (ix_Inits ix))
        (snd (init_compiler ix (pkg @ ''.__init__''))))"
      unfolding InitFunc_def init_compiler_start Let_def prod.case snd_conv .
    then show ?thesis by blast
  next
    assume "ConstInitFunc hk k hostVar pats pkg ix order = Some c"
    then have "c = finish_init (seq (map (init_spec hk k hostVar pats 0) order @ map (init_call fn) [])
        (snd (init_compiler ix (pkg @ ''.__consts__''))))"
      unfolding ConstInitFunc_def init_compiler_start prod.case snd_conv list.map append_Nil2
      by (auto simp only: Let_def option.inject option.distinct split: if_splits)
    then show ?thesis by blast
  qed
  then obtain inits name where "c = finish_init (seq (map (init_spec hk k hostVar pats 0) order @ map (init_call fn) inits)
      (snd (init_compiler ix name)))" by blast
  from init_done [OF hk ds this]
  show "\<exists>ht. chunk_typed name_const (fun_upvals (c_funs c)) (c_ch c) ht" and "funs_typed (c_funs c)" by simp_all
qed

text \<open>
  C19: The initializer of a package, and the one that binds only its constants, are as safe on the machine as its functions,
  in whatever order the specifications are put: this also holds for every literal in the values.
\<close>

theorem init_code_safe:
  assumes "\<And>f. typed_hooks (q f)" and "\<forall>d\<in>set order. spec_ready d"
    and "c = InitFunc q n hostVar pats fn pkg ix order \<or> ConstInitFunc q n hostVar pats pkg ix order = Some c"
    and "links lk (c_funs c) hk" and "hooks_quiet hk"
    and "ch \<in> set (c_ch c # c_funs c)" and "fn_Chunk (hk_fun hk m) = load_chunk lk ch"
    and "prep_fun hk m ups args s = Frame f0 s'" and "length ups = length (ch_Upvals ch)"
  shows "\<exists>ht. \<forall>f. frame_runs hk f0 f \<longrightarrow> sound_at hk ht f"
  by (rule loaded_sound [OF initializer_done [OF assms(1-3)] assms(4,6,7,5,8,9)])

text \<open>\<open>var x = y\<close>\<close>

definition copy_decl :: decl where
  "copy_decl =
     \<lparr>d_Kind = VarKind, d_Name = ''x'', d_File = \<lparr>sf_Name = ''a.go'', sf_AST = Ident (Meta 0 0 0) ''p'', sf_Imports = [], sf_Src = None, sf_LangMod = []\<rparr>, d_Func = None, d_Gen = None,
      d_Spec = Some (ValueSpec (Meta 1 1 1) [Ident (Meta 2 2 2) ''x''] None [Ident (Meta 3 3 3) ''y'']),
      d_Idx = 0, d_NameIdx = 0, d_Inherited = [], d_InheritedType = None, d_Pos = 2\<rparr>"

definition copy_code :: "nat cstate" where
  "copy_code = InitFunc (\<lambda>f. plain_chooks) 1 (\<lambda>x. None) (\<lambda>d. []) (\<lambda>d. 0) ''p'' empty_index [copy_decl]"

lemma plain_knows: "q_fold plain_chooks e c = NoFold" "q_inferredBind plain_chooks k rhs i c = None"
  by (simp_all add: plain_chooks_def)

lemma copy_evaluated:
  "copy_code =
     \<lparr>c_fs = [\<lparr>fs_blocks = [[(''iota'', bind_at 0 0)]], fs_blockIDs = [1], fs_nextID = 1, fs_iota = Some 0, fs_nlocals = 1,
        fs_upvals = [], fs_upmap = Map.empty\<rparr>],
      c_ch = \<lparr>ch_Name = ''p.__init__'',
      ch_Code =
        [\<lparr>i_Op = OpConst, i_A = 0, i_B = 0, i_C = -1, i_Pos = 0\<rparr>, \<lparr>i_Op = OpNewLocal, i_A = 0, i_B = 0, i_C = -1, i_Pos = 0\<rparr>,
         \<lparr>i_Op = OpGlobal, i_A = 1, i_B = 0, i_C = 0, i_Pos = 3\<rparr>, \<lparr>i_Op = OpNewGlobal, i_A = 2, i_B = 0, i_C = -1, i_Pos = 2\<rparr>,
         \<lparr>i_Op = OpReturn, i_A = 0, i_B = 0, i_C = -1, i_Pos = 0\<rparr>],
      ch_Consts = [KInt 0, KStr ''y'', KStr ''x''], ch_NLocals = 1, ch_NParams = 0, ch_NResults = 0, ch_NamedSlots = [],
      ch_Upvals = [], ch_IsVararg = False, ch_Escapes = 0\<rparr>,
      c_ctrl = [], c_binds = Map.empty, c_index = Some empty_index, c_results = [], c_labels = Map.empty, c_pendingGotos = [],
      c_pendingLabels = [], c_falls = [], c_inClause = False, c_symName = [], c_litCount = 0, c_iotaVal = None,
      c_synthSeq = 0, c_funs = [], c_oof = False, c_crash = False\<rparr>"
  by (simp add: copy_code_def InitFunc_def copy_decl_def init_compiler_def init_spec_def valueSpec_def value_name_def
    finish_init_def state_defs comp_step_def expr_body_def vs_Names_def vs_Values_def vs_Type_def bind_global_def
    coerceVar_def empty_index_def plain_knows coerce_top_def fold_const_def ident_expr_def)

theorem init_code_safe_witness:
  "\<exists>f s ht. prep_fun (running (c_ch copy_code)) 0 [] [] start_state = Frame f s \<and>
     map i_Op (ch_Code (fr_ch f)) = [OpConst, OpNewLocal, OpGlobal, OpNewGlobal, OpReturn] \<and>
     (\<forall>f'. frame_runs (running (c_ch copy_code)) f f' \<longrightarrow> sound_at (running (c_ch copy_code)) ht f')"
proof -
  let ?hk = "running (c_ch copy_code)"
  have compiled: "map i_Op (ch_Code (c_ch copy_code)) = [OpConst, OpNewLocal, OpGlobal, OpNewGlobal, OpReturn]"
    "c_funs copy_code = [] \<and> ch_NParams (c_ch copy_code) = 0 \<and> ch_Upvals (c_ch copy_code) = [] \<and> \<not> ch_IsVararg (c_ch copy_code)"
    by (simp_all add: copy_evaluated)
  obtain f s where f: "prep_fun ?hk 0 [] [] start_state = Frame f s" "fr_ch f = load_chunk plain_link (c_ch copy_code)"
    using running_enters [of "c_ch copy_code"] compiled by blast
  have ready: "\<forall>d\<in>set [copy_decl]. spec_ready d"
    by code_simp
  note c = disjI1 [OF copy_code_def]
  from init_code_safe [OF plain_types.typed_hooks_axioms ready c _ running_quiet(1) _ running_quiet(3) f(1)]
  obtain ht where "\<forall>f'. frame_runs ?hk f f' \<longrightarrow> sound_at ?hk ht f'" using compiled running_quiet(2) by auto
  then show ?thesis using f compiled(1) by auto
qed

end
